(* ===== verification/Prelude.thy ===== *)
theory Prelude
  imports Main "HOL-Library.Word" "HOL-Library.Multiset" "HOL-Library.Monad_Syntax"
begin

text \<open>
  Shared vocabulary of the development: the machine types, the SDK's error enumeration
  (src/global/ldacs_def.h), byte-array reads and writes with their bounds, and the generic
  lemmas on lists, masks and bounded searches that the component theories use.

  Conventions used everywhere.
  \<^item> A result of type \<open>'a option\<close> is \<open>None\<close> exactly when the C code leaves defined
    behaviour (a write past an allocation, a dereference of NULL, a wait that never ends).
    Errors the code reports are values of type \<open>l_err\<close>.
  \<^item> A call of malloc or calloc takes a Boolean argument that says whether the allocation
    succeeds.
  \<^item> \<open>size_t\<close> counts are natural numbers; where an operation can wrap around, the
    wrap-around is written out on 64-bit words.
\<close>

unbundle bit_operations_syntax

type_synonym u8 = "8 word"
type_synonym u16 = "16 word"
type_synonym u32 = "32 word"
type_synonym u64 = "64 word"
type_synonym addr = nat

named_theorems op_defs \<open>definitions of the operations of a component\<close>

datatype l_err =
    LD_OK | LD_ERR_WRONG_PARA | LD_ERR_INTERNAL | LD_ERR_WAIT | LD_ERR_INVALID
  | LD_ERR_INVALID_MAC | LD_ERR_LOCK | LD_ERR_NOMEM | LD_ERR_THREAD | LD_ERR_QUEUE
  | LD_ERR_NULL | LD_ERR_KEY
  | LD_ERR_INVAL_STATE_REACHED | LD_ERR_STATE_LOOP | LD_ERR_NO_STATE_CHANGE
  | LD_FINAL_STATE_REACHD | LD_ERR_WRONG_STATE
  | LD_ERR_WRONG_PATH
  | LD_ERR_WRONG_REQ | LD_ERR_WRONG_QUERY | LD_ERR_WRONG_DATA | LD_ERR_WRONG_URI | LD_NO_REQ
  | LD_ERR_OPEN_SQL | LD_ERR_FAIL_EXEC_SQL


section \<open>Bounded reads and writes of an array\<close>

definition mem_read :: "'a list \<Rightarrow> nat \<Rightarrow> nat \<Rightarrow> 'a list option" where
  "mem_read d off n = (if off + n \<le> length d then Some (take n (drop off d)) else None)"

definition mem_write :: "'a list \<Rightarrow> nat \<Rightarrow> 'a list \<Rightarrow> 'a list option" where
  "mem_write d off src =
     (if off + length src \<le> length d
      then Some (take off d @ src @ drop (off + length src) d) else None)"

lemma mem_read_Some_iff:
  "mem_read d off n = Some r \<longleftrightarrow> off + n \<le> length d \<and> r = take n (drop off d)"
  by (auto simp: mem_read_def)

lemma mem_write_Some_iff:
  "mem_write d off src = Some r \<longleftrightarrow>
     off + length src \<le> length d \<and> r = take off d @ src @ drop (off + length src) d"
  by (auto simp: mem_write_def)

lemma mem_read_None_iff [simp]: "mem_read d off n = None \<longleftrightarrow> length d < off + n"
  by (auto simp: mem_read_def)

lemma mem_write_None_iff [simp]: "mem_write d off src = None \<longleftrightarrow> length d < off + length src"
  by (auto simp: mem_write_def)

lemma mem_write_length: "mem_write d off src = Some r \<Longrightarrow> length r = length d"
  by (auto simp: mem_write_Some_iff)

lemma mem_read_length: "mem_read d off n = Some r \<Longrightarrow> length r = n"
  by (auto simp: mem_read_Some_iff)

lemma mem_read_all: "n = length d \<Longrightarrow> mem_read d 0 n = Some d"
  by (simp add: mem_read_def)

lemma mem_read_write_same:
  "mem_write d off src = Some r \<Longrightarrow> mem_read r off (length src) = Some src"
  by (auto simp: mem_write_Some_iff mem_read_def)


section \<open>Masks\<close>

text \<open>For a power of two, masking with \<open>n - 1\<close> is the remainder.\<close>

lemma and_mask_mod: "(x::nat) AND (2 ^ k - 1) = x mod 2 ^ k"
  by (metis mask_eq_exp_minus_1 take_bit_eq_mask take_bit_eq_mod)

lemma Suc_mod_less: "0 < n \<Longrightarrow> Suc i mod n < n"
  by simp

lemma Suc_mod_cases: "i < n \<Longrightarrow> Suc i mod n = (if Suc i = n then 0 else Suc i)"
  by auto


lemma unat_u8_less [simp]: "unat (b::u8) < 256"
  using unsigned_less [of b, where ?'a = nat] by simp

lemma unat_of_nat_small: "n < 2 ^ LENGTH('a) \<Longrightarrow> unat (of_nat n :: 'a::len word) = n"
  by (simp add: unsigned_of_nat take_bit_nat_eq_self)

lemma odd_unat_iff: "odd (unat (w::'a::len word)) \<longleftrightarrow> bit w 0"
  using bit_unsigned_iff [of w 0, where ?'a = nat] by (simp add: bit_0)


section \<open>First hit of a bounded search\<close>

text \<open>
  \<open>first_from p i n\<close> is the loop \<open>for (; i < n; i++) if (p(i)) return i;\<close>, which many
  components run over their arrays.
\<close>

function first_from :: "(nat \<Rightarrow> bool) \<Rightarrow> nat \<Rightarrow> nat \<Rightarrow> nat option" where
  "first_from p i n = (if i < n then (if p i then Some i else first_from p (Suc i) n) else None)"
  by pat_completeness auto
termination
  by (relation "measure (\<lambda>(p, i, n). n - i)") auto

declare first_from.simps [simp del]

lemma first_from_Some_iff:
  "first_from p i n = Some j \<longleftrightarrow> i \<le> j \<and> j < n \<and> p j \<and> (\<forall>k. i \<le> k \<and> k < j \<longrightarrow> \<not> p k)"
proof (induction p i n rule: first_from.induct)
  case (1 p i n)
  show ?case
  proof (cases "i < n \<and> \<not> p i")
    case True
    then have "first_from p i n = first_from p (Suc i) n"
      by (simp add: first_from.simps [of p i n])
    then show ?thesis
      using 1 True by (auto simp: Suc_le_eq) (metis le_eq_less_or_eq)
  next
    case False
    then show ?thesis
      by (auto simp: first_from.simps [of p i n] not_less le_eq_less_or_eq)
  qed
qed

lemma first_from_None_iff:
  "first_from p i n = None \<longleftrightarrow> (\<forall>k. i \<le> k \<and> k < n \<longrightarrow> \<not> p k)"
proof (induction p i n rule: first_from.induct)
  case (1 p i n)
  then show ?case
    by (subst first_from.simps) (auto simp: Suc_le_eq, metis le_eq_less_or_eq)
qed


section \<open>Lists\<close>

lemma take_append_drop_update:
  "i < length xs \<Longrightarrow> take i xs @ y # drop (Suc i) xs = xs[i := y]"
  by (simp add: upd_conv_take_nth_drop)

lemma mset_swap_list:
  "i < length xs \<Longrightarrow> j < length xs \<Longrightarrow> mset (xs[i := xs ! j, j := xs ! i]) = mset xs"
  by (rule mset_swap)

lemma sum_list_update_nat:
  "i < length xs \<Longrightarrow> sum_list (xs[i := y]) = sum_list xs + (y::nat) - xs ! i"
  by (rule sum_list_update)

lemma drop_Cons_replicate_add [simp]:
  "drop n (x # replicate (n + m) x) = x # replicate m x"
  using drop_replicate [of n "Suc (n + m)" x] by (simp add: Suc_diff_le)

lemma drop_Cons_replicate [simp]: "drop n (x # replicate n x) = [x]"
  using drop_Cons_replicate_add [of n x 0] by simp

lemma replicate_update_same [simp]: "(replicate n x)[i := x] = replicate n x"
  by (cases "i < n") (auto intro: nth_equalityI simp: nth_list_update)


text \<open>Positions of a circular array of \<open>S\<close> slots, counted from the slot \<open>p\<close>.\<close>

lemma slot_dist:
  assumes "p < S" "i < S"
  shows "((p + i) mod S + S - p) mod S = (i :: nat)"
proof (cases "p + i < S")
  case False
  then have "(p + i) mod S = p + i - S" using assms by (simp add: mod_if)
  then show ?thesis using assms False by simp
qed (use assms in simp)

lemma slot_inj: "p < S \<Longrightarrow> i < S \<Longrightarrow> j < S \<Longrightarrow> (p + i) mod S = (p + j) mod S \<Longrightarrow> i = (j :: nat)"
  by (metis slot_dist)


section \<open>Decimal numbers\<close>

text \<open>What \<open>printf\<close> prints for an unsigned number, and what \<open>atoi\<close> reads; without a value in the range of int, \<open>atoi\<close> is undefined.\<close>

fun dec :: "nat \<Rightarrow> string" where
  "dec n = (if n < 10 then [char_of (48 + n)] else dec (n div 10) @ [char_of (48 + n mod 10)])"

declare dec.simps [simp del]

definition digit :: "char \<Rightarrow> bool" where
  "digit c \<longleftrightarrow> 48 \<le> (of_char c :: nat) \<and> (of_char c :: nat) \<le> 57"

definition digits_val :: "string \<Rightarrow> nat" where
  "digits_val s = foldl (\<lambda>v c. 10 * v + (of_char c - 48)) 0 s"

definition isspace :: "char \<Rightarrow> bool" where
  "isspace c \<longleftrightarrow> of_char c \<in> {9, 10, 11, 12, 13, 32 :: nat}"

definition atoi :: "string \<Rightarrow> int option" where
  "atoi s =
     (let s = dropWhile isspace s;
          neg = (s \<noteq> [] \<and> hd s = CHR 0x2D);
          s = (if s \<noteq> [] \<and> (hd s = CHR 0x2D \<or> hd s = CHR 0x2B) then tl s else s);
          v = int (digits_val (takeWhile digit s));
          r = (if neg then - v else v) in
      if - (2 ^ 31) \<le> r \<and> r < 2 ^ 31 then Some r else None)"

lemma digit_char: "d < 10 \<Longrightarrow> digit (char_of (48 + d)) \<and> (of_char (char_of (48 + d)) :: nat) = 48 + d"
  by (simp add: digit_def)

lemma dec_digits: "c \<in> set (dec n) \<Longrightarrow> digit c"
proof (induction n rule: dec.induct)
  case (1 n)
  then show ?case using digit_char [of "n mod 10"] digit_char [of n] by (subst (asm) (2) dec.simps) (auto split: if_splits)
qed

lemma dec_ne [simp]: "dec n \<noteq> []"
  by (subst dec.simps) simp

lemma dec_val: "digits_val (dec n) = n"
proof (induction n rule: dec.induct)
  case (1 n)
  show ?case
  proof (cases "n < 10")
    case True
    then show ?thesis using digit_char [of n] by (subst dec.simps) (simp add: digits_val_def)
  next
    case False
    then show ?thesis using 1 digit_char [of "n mod 10"] by (subst dec.simps) (simp add: digits_val_def)
  qed
qed

lemma atoi_dec: "n < 2 ^ 31 \<Longrightarrow> atoi (dec n) = Some (int n)"
proof -
  assume n: "n < 2 ^ 31"
  have d: "digit (hd (dec n))" by (rule dec_digits [of _ n]) simp
  then have "dropWhile isspace (dec n) = dec n" by (cases "dec n") (auto simp: digit_def isspace_def)
  moreover have "hd (dec n) \<noteq> CHR 0x2D" "hd (dec n) \<noteq> CHR 0x2B" using d by (auto simp: digit_def)
  moreover have t: "takeWhile digit (dec n) = dec n" using dec_digits by (simp add: takeWhile_eq_all_conv)
  ultimately show ?thesis using n by (simp add: atoi_def Let_def t dec_val)
qed


section \<open>Numbers and texts in memory\<close>

text \<open>Unsigned numbers are little endian; \<open>blocks\<close> are the allocated texts, by address.\<close>

fun uint_val :: "u8 list \<Rightarrow> nat" where
  "uint_val [] = 0"
| "uint_val (b # bs) = unat b + 256 * uint_val bs"

fun le_bytes :: "nat \<Rightarrow> nat \<Rightarrow> u8 list" where
  "le_bytes 0 v = []"
| "le_bytes (Suc n) v = of_nat v # le_bytes n (v div 256)"

type_synonym blocks = "u64 \<rightharpoonup> string"

definition cstring :: "blocks \<Rightarrow> u64 \<Rightarrow> string option" where
  "cstring h a = (case h a of None \<Rightarrow> None | Some b \<Rightarrow> if CHR 0x00 \<in> set b then Some (takeWhile (\<lambda>c. c \<noteq> CHR 0x00) b) else None)"

definition read_uint :: "u8 list \<Rightarrow> nat \<Rightarrow> nat option" where
  "read_uint ptr n = map_option uint_val (mem_read ptr 0 n)"

lemma le_bytes_length [simp]: "length (le_bytes n v) = n"
  by (induction n arbitrary: v) simp_all

lemma le_bytes_val: "length bs = n \<Longrightarrow> le_bytes n (uint_val bs) = bs"
proof (induction bs arbitrary: n)
  case (Cons b bs)
  have "(unat b + 256 * uint_val bs) div 256 = uint_val bs" by simp
  moreover have "of_nat (256 * uint_val bs) = (0 :: u8)" unfolding word_of_nat_eq_0_iff by simp
  then have "of_nat (unat b + 256 * uint_val bs) = b" by (simp only: of_nat_add) simp
  ultimately show ?case using Cons by (cases n) simp_all
qed simp

lemma uint_val_bytes: "uint_val (le_bytes n v) = v mod 256 ^ n"
proof (induction n arbitrary: v)
  case (Suc n)
  have "unat (of_nat v :: u8) = v mod 256" by (simp add: unsigned_of_nat take_bit_eq_mod)
  then show ?case using Suc by (simp add: mod_mult2_eq)
qed simp

end
