(* ===== verification/Buffer.thy ===== *)
theory Buffer
  imports Prelude
begin

text \<open>
  The growable byte buffer of src/src/ld_buffer.c and src/include/ld_buffer.h.

  \<open>buffer_t\<close> is the struct: \<open>buf_ptr\<close> is \<open>None\<close> for NULL and otherwise the bytes of the
  allocation (\<open>alloc_buffer\<close> allocates one byte more than it is asked for). The operations
  follow the C functions and the CLONE macros; every memcpy goes through the bounded
  \<open>mem_read\<close> and \<open>mem_write\<close>, so that an out-of-bounds copy is the result \<open>None\<close>.
  The lemmas show that the well-formed buffers are closed under the operations and that
  \<open>cat_to_buffer\<close> is list append on the contents, whether or not it reallocates.
\<close>

section \<open>Data and operations\<close>

record buffer_t =
  buf_len :: nat
  buf_total :: nat
  buf_free :: nat
  buf_ptr :: "u8 list option"

definition ptr_bytes :: "u8 list option \<Rightarrow> u8 list" where
  "ptr_bytes p = (case p of None \<Rightarrow> [] | Some d \<Rightarrow> d)"

definition alloc_buffer :: "bool \<Rightarrow> nat \<Rightarrow> u8 list option" where
  "alloc_buffer ok sz = (if ok then Some ((replicate (sz + 1) 0)[sz := 0]) else None)"

definition init_buffer_unptr :: buffer_t where
  "init_buffer_unptr = \<lparr>buf_len = 0, buf_total = 0, buf_free = 0, buf_ptr = None\<rparr>"

definition init_buffer_ptr :: "bool \<Rightarrow> nat \<Rightarrow> buffer_t" where
  "init_buffer_ptr ok sz =
     init_buffer_unptr\<lparr>buf_len := 0, buf_free := sz, buf_total := sz,
                       buf_ptr := alloc_buffer ok sz\<rparr>"

definition buffer_avail :: "buffer_t \<Rightarrow> nat" where
  "buffer_avail pb = buf_free pb"

definition buffer_len :: "buffer_t \<Rightarrow> nat" where
  "buffer_len pb = buf_len pb"

definition cat_to_buffer :: "bool \<Rightarrow> buffer_t \<Rightarrow> u8 list \<Rightarrow> nat \<Rightarrow> (buffer_t \<times> l_err) option" where
  "cat_to_buffer ok buf str nbytes =
     (let new_size = buf_len buf + nbytes in
      if nbytes > buf_free buf then
        (case alloc_buffer ok new_size of
           None \<Rightarrow> Some (buf, LD_ERR_INTERNAL)
         | Some p0 \<Rightarrow> do {
             old \<leftarrow> mem_read (ptr_bytes (buf_ptr buf)) 0 (buf_len buf);
             p1 \<leftarrow> mem_write p0 0 old;
             src \<leftarrow> mem_read str 0 nbytes;
             p2 \<leftarrow> mem_write p1 (buf_len buf) src;
             Some (buf\<lparr>buf_ptr := Some p2, buf_free := 0, buf_total := new_size,
                       buf_len := new_size\<rparr>, LD_OK)
           })
      else do {
        src \<leftarrow> mem_read str 0 nbytes;
        p1 \<leftarrow> mem_write (ptr_bytes (buf_ptr buf)) (buf_len buf) src;
        Some (buf\<lparr>buf_free := buf_free buf - nbytes,
                  buf_ptr := map_option (\<lambda>_. p1) (buf_ptr buf),
                  buf_len := new_size\<rparr>, LD_OK)
      })"

text \<open>
  The guard \<open>dbuf->free - start < len\<close> mixes \<open>size_t\<close> and \<open>int\<close>: \<open>start\<close> is
  converted to 64 bits and the subtraction wraps around.
\<close>

definition set_to_buffer :: "buffer_t \<Rightarrow> int \<Rightarrow> u8 list \<Rightarrow> nat \<Rightarrow> (buffer_t \<times> l_err) option" where
  "set_to_buffer dbuf start src len =
     (if (of_nat (buf_free dbuf) :: u64) - of_int start < of_nat len
      then Some (dbuf, LD_ERR_INVALID)
      else if start < 0 then None
      else do {
        s \<leftarrow> mem_read src 0 len;
        p \<leftarrow> mem_write (ptr_bytes (buf_ptr dbuf)) (nat start) s;
        Some (dbuf\<lparr>buf_ptr := map_option (\<lambda>_. p) (buf_ptr dbuf),
                   buf_len := unat ((of_nat (buf_len dbuf) :: u64) + of_nat len),
                   buf_free := unat ((of_nat (buf_free dbuf) :: u64) - of_nat len)\<rparr>, LD_OK)
      })"

definition clone_to_buffer :: "bool \<Rightarrow> u8 list option \<Rightarrow> nat \<Rightarrow> u8 list option option" where
  "clone_to_buffer ok buf total_len =
     (case alloc_buffer ok total_len of
        None \<Rightarrow> Some None
      | Some p \<Rightarrow>
          (case buf of
             None \<Rightarrow> Some (Some p)
           | Some b \<Rightarrow> do {
               src \<leftarrow> mem_read b 0 total_len;
               p1 \<leftarrow> mem_write p 0 src;
               Some (Some p1)
             }))"

definition buffer_clear :: "buffer_t \<Rightarrow> buffer_t" where
  "buffer_clear pb = pb\<lparr>buf_len := 0, buf_ptr := None\<rparr>"

definition clone_to_chunk :: "bool \<Rightarrow> buffer_t \<Rightarrow> u8 list option \<Rightarrow> nat \<Rightarrow> buffer_t option" where
  "clone_to_chunk ok ch src sz =
     (let ch1 = buffer_clear ch in
      do {
        p \<leftarrow> clone_to_buffer ok src sz;
        Some (ch1\<lparr>buf_ptr := p, buf_free := 0, buf_len := sz, buf_total := sz\<rparr>)
      })"

definition clone_to_chunk_l ::
  "bool \<Rightarrow> buffer_t \<Rightarrow> u8 list option \<Rightarrow> nat \<Rightarrow> nat \<Rightarrow> buffer_t option" where
  "clone_to_chunk_l ok ch src sz total_len =
     do {
       p \<leftarrow> clone_to_buffer ok src total_len;
       Some (ch\<lparr>buf_ptr := p, buf_len := sz,
                buf_free := unat ((of_nat total_len :: u64) - of_nat sz),
                buf_total := total_len\<rparr>)
     }"

definition clone_by_buffer :: "bool \<Rightarrow> buffer_t \<Rightarrow> buffer_t \<Rightarrow> buffer_t option" where
  "clone_by_buffer ok ch buf = clone_to_chunk ok ch (buf_ptr buf) (buf_len buf)"

text \<open>
  \<open>dupl_buffer\<close> clears the struct it has just obtained from malloc. \<open>fresh\<close> is what that
  memory holds: freeing the indeterminate pointer in it is undefined unless it is NULL.
\<close>

definition dupl_buffer :: "bool \<Rightarrow> buffer_t \<Rightarrow> buffer_t \<Rightarrow> buffer_t option" where
  "dupl_buffer ok fresh old =
     (case buf_ptr fresh of
        Some _ \<Rightarrow> None
      | None \<Rightarrow> clone_to_chunk ok fresh (buf_ptr old) (buf_len old))"

text \<open>\<open>clone_by_alloced_buffer\<close> copies and then frees the source, which has no value afterwards.\<close>

definition clone_by_alloced_buffer :: "bool \<Rightarrow> buffer_t \<Rightarrow> buffer_t \<Rightarrow> buffer_t option" where
  "clone_by_alloced_buffer ok buf src = clone_to_chunk ok buf (buf_ptr src) (buf_len src)"

definition change_buffer_len :: "buffer_t \<Rightarrow> nat \<Rightarrow> buffer_t" where
  "change_buffer_len buf valid_len = buf\<lparr>buf_len := valid_len, buf_total := valid_len\<rparr>"


section \<open>Well-formed buffers and their contents\<close>

definition buf_wf :: "buffer_t \<Rightarrow> bool" where
  "buf_wf b \<longleftrightarrow>
     (case buf_ptr b of
        None \<Rightarrow> buf_len b = 0 \<and> buf_free b = 0
      | Some d \<Rightarrow> buf_len b + buf_free b \<le> buf_total b \<and> length d = buf_total b + 1)"

definition buf_bytes :: "buffer_t \<Rightarrow> u8 list" where
  "buf_bytes b = take (buf_len b) (ptr_bytes (buf_ptr b))"

lemma alloc_buffer_simps [simp]:
  "alloc_buffer True sz = Some (replicate (sz + 1) 0)"
  "alloc_buffer False sz = None"
  by (simp_all add: alloc_buffer_def del: replicate_Suc list_update.simps)

lemma ptr_bytes_simps [simp]: "ptr_bytes None = []" "ptr_bytes (Some d) = d"
  by (simp_all add: ptr_bytes_def)

lemma buf_wf_init_unptr [simp]: "buf_wf init_buffer_unptr"
  and buf_bytes_init_unptr [simp]: "buf_bytes init_buffer_unptr = []"
  by (simp_all add: buf_wf_def init_buffer_unptr_def buf_bytes_def)

lemma buf_wf_init_ptr: "buf_wf (init_buffer_ptr True sz)"
  and buf_bytes_init_ptr: "buf_bytes (init_buffer_ptr ok sz) = []"
  by (simp_all add: buf_wf_def init_buffer_ptr_def init_buffer_unptr_def buf_bytes_def)

lemma buf_wf_len: "buf_wf b \<Longrightarrow> buf_len b \<le> length (ptr_bytes (buf_ptr b))"
  by (auto simp: buf_wf_def split: option.splits)

lemma length_buf_bytes: "buf_wf b \<Longrightarrow> length (buf_bytes b) = buf_len b"
  using buf_wf_len [of b] by (simp add: buf_bytes_def)

text \<open>The two branches of \<open>cat_to_buffer\<close>, on a well-formed buffer.\<close>

lemma cat_to_buffer_grow:
  assumes "buf_wf b" "buf_free b < length str"
  shows "cat_to_buffer True b str (length str) =
           Some (\<lparr>buf_len = buf_len b + length str, buf_total = buf_len b + length str,
                  buf_free = 0, buf_ptr = Some (buf_bytes b @ str @ [0])\<rparr>, LD_OK)"
  using assms buf_wf_len [OF assms(1)]
  by (cases b) (simp add: cat_to_buffer_def mem_read_def mem_write_def buf_bytes_def
      length_buf_bytes Let_def min_def)

lemma cat_to_buffer_fit:
  assumes "buf_wf b" "length str \<le> buf_free b"
  shows "\<exists>b'. cat_to_buffer ok b str (length str) = Some (b', LD_OK) \<and> buf_wf b' \<and>
           buf_bytes b' = buf_bytes b @ str \<and> buf_total b' = buf_total b"
  using assms
  by (cases "buf_ptr b")
     (auto simp: cat_to_buffer_def mem_read_def mem_write_def buf_wf_def buf_bytes_def Let_def)

lemma cat_to_buffer_append:
  assumes "buf_wf b"
  shows "\<exists>b'. cat_to_buffer True b str (length str) = Some (b', LD_OK) \<and> buf_wf b' \<and>
           buf_bytes b' = buf_bytes b @ str"
proof (cases "buf_free b < length str")
  case True
  from cat_to_buffer_grow [OF assms True] show ?thesis
    using length_buf_bytes [OF assms] by (auto simp: buf_wf_def buf_bytes_def)
next
  case False
  then show ?thesis using cat_to_buffer_fit [OF assms, of str True] by auto
qed

text \<open>The form in which other components use it: appending to a buffer with known contents.\<close>

lemma cat_to_bufferE:
  assumes "buf_wf b"
  obtains b' where "cat_to_buffer True b str (length str) = Some (b', LD_OK)" "buf_wf b'"
    "buf_bytes b' = buf_bytes b @ str"
  using cat_to_buffer_append [OF assms, of str] by blast

lemma clone_to_chunk_bytes:
  assumes "sz \<le> length d"
  shows "clone_to_chunk True ch (Some d) sz =
           Some \<lparr>buf_len = sz, buf_total = sz, buf_free = 0, buf_ptr = Some (take sz d @ [0])\<rparr>"
  using assms
  by (cases ch) (simp add: clone_to_chunk_def clone_to_buffer_def buffer_clear_def mem_read_def
      mem_write_def min_def)

lemma clone_by_buffer_wf:
  assumes "buf_wf b" "buf_ptr b \<noteq> None"
  shows "clone_by_buffer True ch b =
           Some \<lparr>buf_len = buf_len b, buf_total = buf_len b, buf_free = 0,
                 buf_ptr = Some (buf_bytes b @ [0])\<rparr>"
  using assms buf_wf_len [OF assms(1)]
  by (auto simp: clone_by_buffer_def clone_to_chunk_bytes buf_bytes_def)


section \<open>Properties\<close>

text \<open>
  On a well-formed buffer \<open>cat_to_buffer\<close> never writes outside the allocation.
  If the allocation succeeds, or is not needed, the contents are the old ones followed by the
  new bytes; if it fails the buffer is unchanged and LD_ERR_INTERNAL is reported.
\<close>

theorem cat_to_buffer_correct:
  assumes "buf_wf b"
  shows "\<exists>b' e. cat_to_buffer ok b str (length str) = Some (b', e) \<and> buf_wf b' \<and>
           (if ok \<or> length str \<le> buf_free b
            then e = LD_OK \<and> buf_bytes b' = buf_bytes b @ str
            else e = LD_ERR_INTERNAL \<and> b' = b)"
proof (cases "length str \<le> buf_free b")
  case True
  then show ?thesis using cat_to_buffer_fit [OF assms, of str ok] by auto
next
  case False
  then show ?thesis
    using cat_to_buffer_append [OF assms, of str] assms
    by (cases ok) (auto simp: cat_to_buffer_def Let_def)
qed

theorem cat_to_buffer_correct_witness:
  "\<exists>b'. cat_to_buffer True (init_buffer_ptr True 2) [1, 2, 3] 3 = Some (b', LD_OK) \<and>
     buf_wf b' \<and> buf_bytes b' = [1, 2, 3]"
  using cat_to_buffer_correct [OF buf_wf_init_ptr, of True 2 "[1, 2, 3]"]
  by (auto simp: buf_bytes_init_ptr numeral_3_eq_3)

text \<open>
  \<open>set_to_buffer\<close> at an offset just past the end of a fresh buffer is not rejected.
  The unsigned subtraction in its guard wraps around, the guard passes, and the copy leaves the
  allocation.
\<close>

theorem set_to_buffer_guard_wraps:
  assumes "sz < 2 ^ 31"
  shows "set_to_buffer (init_buffer_ptr True sz) (int sz + 1) [v] 1 = None"
proof -
  have "(word_of_nat sz :: u64) - (1 + word_of_nat sz) = - 1" by simp
  then show ?thesis
    by (simp add: set_to_buffer_def init_buffer_ptr_def init_buffer_unptr_def mem_read_def
        mem_write_def not_less)
qed

theorem set_to_buffer_guard_wraps_witness:
  "set_to_buffer (init_buffer_ptr True 4) 5 [7] 1 = None"
  using set_to_buffer_guard_wraps [of 4 7] by simp

text \<open>
  \<open>buffer_clear\<close> keeps the old free count although it drops the storage, so the
  next \<open>cat_to_buffer\<close> that fits the stale count writes through NULL.
\<close>

theorem buffer_clear_keeps_stale_free:
  assumes "0 < length str" "length str \<le> sz"
  shows "cat_to_buffer ok (buffer_clear (init_buffer_ptr True sz)) str (length str) = None"
  using assms
  by (simp add: cat_to_buffer_def buffer_clear_def init_buffer_ptr_def init_buffer_unptr_def
      mem_read_def mem_write_def Let_def)

theorem buffer_clear_keeps_stale_free_witness:
  "cat_to_buffer True (buffer_clear (init_buffer_ptr True 8)) [1, 2] 2 = None"
  using buffer_clear_keeps_stale_free [of "[1, 2]" 8 True] by (simp add: numeral_2_eq_2)

end
