(* ===== verification/Rbuffer.thy ===== *)
theory Rbuffer
  imports Prelude
begin

text \<open>
  The bounded ring of src/src/ld_rbuffer.c: a circular doubly linked list of heap nodes.

  The nodes live in an explicit store (\<open>rb_mem\<close>), and malloc hands out the address
  \<open>rb_brk\<close>, which is above every address in use. Every dereference goes through the
  store, so following a dangling or NULL pointer is the result \<open>None\<close>.

  The locale \<open>bounded_deque\<close> is the interface the scheduler (theory Drr) relies on: the
  operations act on the list of stored elements. The ring is its interpretation.
\<close>

section \<open>The interface\<close>

locale bounded_deque =
  fixes inv :: "'q \<Rightarrow> bool"
    and contents :: "'q \<Rightarrow> 'a list"
    and capacity :: "'q \<Rightarrow> nat"
    and push_front :: "'q \<Rightarrow> 'a \<Rightarrow> ('q \<times> l_err) option"
    and push_back :: "'q \<Rightarrow> 'a \<Rightarrow> ('q \<times> l_err) option"
    and pop :: "'q \<Rightarrow> ('q \<times> 'a option \<times> l_err) option"
  assumes size_bound: "inv q \<Longrightarrow> length (contents q) \<le> capacity q"
    and push_front_full: "inv q \<Longrightarrow> length (contents q) = capacity q \<Longrightarrow>
          push_front q x = Some (q, LD_ERR_INTERNAL)"
    and push_back_full: "inv q \<Longrightarrow> length (contents q) = capacity q \<Longrightarrow>
          push_back q x = Some (q, LD_ERR_INTERNAL)"
    and push_front_ok: "inv q \<Longrightarrow> length (contents q) < capacity q \<Longrightarrow>
          \<exists>q'. push_front q x = Some (q', LD_OK) \<and> inv q' \<and> capacity q' = capacity q \<and>
               contents q' = x # contents q"
    and push_back_ok: "inv q \<Longrightarrow> length (contents q) < capacity q \<Longrightarrow>
          \<exists>q'. push_back q x = Some (q', LD_OK) \<and> inv q' \<and> capacity q' = capacity q \<and>
               contents q' = contents q @ [x]"
    and pop_empty: "inv q \<Longrightarrow> contents q = [] \<Longrightarrow> pop q = Some (q, None, LD_ERR_INTERNAL)"
    and pop_ok: "inv q \<Longrightarrow> contents q = x # xs \<Longrightarrow>
          \<exists>q'. pop q = Some (q', Some x, LD_OK) \<and> inv q' \<and> capacity q' = capacity q \<and>
               contents q' = xs"
begin

text \<open>Every operation is defined on a valid queue and leaves it valid.\<close>

lemma push_back_total:
  assumes "inv q"
  obtains q' e where "push_back q x = Some (q', e)" "inv q'" "capacity q' = capacity q"
    "contents q' = (if length (contents q) < capacity q then contents q @ [x] else contents q)"
proof (cases "length (contents q) < capacity q")
  case True
  then show ?thesis using push_back_ok [OF assms True, of x] that by auto
next
  case False
  with size_bound [OF assms] have "length (contents q) = capacity q" by simp
  then show ?thesis using push_back_full [OF assms, of x] assms that by auto
qed

lemma push_front_total:
  assumes "inv q"
  obtains q' e where "push_front q x = Some (q', e)" "inv q'" "capacity q' = capacity q"
    "contents q' = (if length (contents q) < capacity q then x # contents q else contents q)"
proof (cases "length (contents q) < capacity q")
  case True
  then show ?thesis using push_front_ok [OF assms True, of x] that by auto
next
  case False
  with size_bound [OF assms] have "length (contents q) = capacity q" by simp
  then show ?thesis using push_front_full [OF assms, of x] assms that by auto
qed

text \<open>Taking an element out always leaves room to put it back at either end.\<close>

lemma pop_push_back:
  assumes "inv q" "contents q = x # xs"
  shows "\<exists>q1 q2. pop q = Some (q1, Some x, LD_OK) \<and> push_back q1 x = Some (q2, LD_OK) \<and>
           inv q2 \<and> capacity q2 = capacity q \<and> contents q2 = xs @ [x]"
proof -
  obtain q1 where q1: "pop q = Some (q1, Some x, LD_OK)" "inv q1" "capacity q1 = capacity q"
    "contents q1 = xs"
    using pop_ok [OF assms] by auto
  moreover have "length (contents q1) < capacity q1"
    using q1 size_bound [OF assms(1)] assms(2) by simp
  ultimately show ?thesis using push_back_ok [OF q1(2), of x] by auto
qed

lemma pop_push_front:
  assumes "inv q" "contents q = x # xs"
  shows "\<exists>q1 q2. pop q = Some (q1, Some x, LD_OK) \<and> push_front q1 x = Some (q2, LD_OK) \<and>
           inv q2 \<and> capacity q2 = capacity q \<and> contents q2 = x # xs"
proof -
  obtain q1 where q1: "pop q = Some (q1, Some x, LD_OK)" "inv q1" "capacity q1 = capacity q"
    "contents q1 = xs"
    using pop_ok [OF assms] by auto
  moreover have "length (contents q1) < capacity q1"
    using q1 size_bound [OF assms(1)] assms(2) by simp
  ultimately show ?thesis using push_front_ok [OF q1(2), of x] by auto
qed

end


section \<open>The ring\<close>

record 'a rnode_t =
  rn_data :: 'a
  rn_prev :: addr
  rn_next :: addr

record 'a ld_rbuffer =
  rb_head :: "addr option"
  rb_tail :: "addr option"
  rb_count :: nat
  rb_size :: nat
  rb_mem :: "addr \<rightharpoonup> 'a rnode_t"
  rb_brk :: addr

definition set_next :: "(addr \<rightharpoonup> 'a rnode_t) \<Rightarrow> addr \<Rightarrow> addr \<Rightarrow> (addr \<rightharpoonup> 'a rnode_t) option" where
  "set_next m a v = (case m a of None \<Rightarrow> None | Some n \<Rightarrow> Some (m(a \<mapsto> n\<lparr>rn_next := v\<rparr>)))"

definition set_prev :: "(addr \<rightharpoonup> 'a rnode_t) \<Rightarrow> addr \<Rightarrow> addr \<Rightarrow> (addr \<rightharpoonup> 'a rnode_t) option" where
  "set_prev m a v = (case m a of None \<Rightarrow> None | Some n \<Rightarrow> Some (m(a \<mapsto> n\<lparr>rn_prev := v\<rparr>)))"

definition ld_rbuffer_init :: "nat \<Rightarrow> 'a ld_rbuffer" where
  "ld_rbuffer_init sz =
     \<lparr>rb_head = None, rb_tail = None, rb_count = 0, rb_size = sz, rb_mem = Map.empty, rb_brk = 0\<rparr>"

definition ld_rbuffer_push_front :: "'a ld_rbuffer \<Rightarrow> 'a \<Rightarrow> ('a ld_rbuffer \<times> l_err) option" where
  "ld_rbuffer_push_front rb data =
     (if rb_count rb \<ge> rb_size rb then Some (rb, LD_ERR_INTERNAL)
      else let new_node = rb_brk rb in
        if rb_count rb = 0 then
          Some (rb\<lparr>rb_brk := new_node + 1, rb_head := Some new_node, rb_tail := Some new_node,
                   rb_mem := (rb_mem rb)(new_node \<mapsto>
                     \<lparr>rn_data = data, rn_prev = new_node, rn_next = new_node\<rparr>),
                   rb_count := rb_count rb + 1\<rparr>, LD_OK)
        else do {
          h \<leftarrow> rb_head rb;
          t \<leftarrow> rb_tail rb;
          m1 \<leftarrow> set_next ((rb_mem rb)(new_node \<mapsto>
                  \<lparr>rn_data = data, rn_prev = t, rn_next = h\<rparr>)) t new_node;
          m2 \<leftarrow> set_prev m1 h new_node;
          Some (rb\<lparr>rb_brk := new_node + 1, rb_head := Some new_node, rb_mem := m2,
                   rb_count := rb_count rb + 1\<rparr>, LD_OK)
        })"

definition ld_rbuffer_push_back :: "'a ld_rbuffer \<Rightarrow> 'a \<Rightarrow> ('a ld_rbuffer \<times> l_err) option" where
  "ld_rbuffer_push_back rb data =
     (if rb_count rb \<ge> rb_size rb then Some (rb, LD_ERR_INTERNAL)
      else let new_node = rb_brk rb in
        if rb_count rb = 0 then
          Some (rb\<lparr>rb_brk := new_node + 1, rb_head := Some new_node, rb_tail := Some new_node,
                   rb_mem := (rb_mem rb)(new_node \<mapsto>
                     \<lparr>rn_data = data, rn_prev = new_node, rn_next = new_node\<rparr>),
                   rb_count := rb_count rb + 1\<rparr>, LD_OK)
        else do {
          h \<leftarrow> rb_head rb;
          t \<leftarrow> rb_tail rb;
          m1 \<leftarrow> set_next ((rb_mem rb)(new_node \<mapsto>
                  \<lparr>rn_data = data, rn_prev = t, rn_next = h\<rparr>)) t new_node;
          m2 \<leftarrow> set_prev m1 h new_node;
          Some (rb\<lparr>rb_brk := new_node + 1, rb_tail := Some new_node, rb_mem := m2,
                   rb_count := rb_count rb + 1\<rparr>, LD_OK)
        })"

definition ld_rbuffer_pop :: "'a ld_rbuffer \<Rightarrow> ('a ld_rbuffer \<times> 'a option \<times> l_err) option" where
  "ld_rbuffer_pop rb =
     (if rb_count rb = 0 then Some (rb, None, LD_ERR_INTERNAL)
      else do {
        pop_node \<leftarrow> rb_head rb;
        n \<leftarrow> rb_mem rb pop_node;
        rb1 \<leftarrow> (if rb_count rb = 1 then Some (rb\<lparr>rb_head := None, rb_tail := None\<rparr>)
               else do {
                 t \<leftarrow> rb_tail rb;
                 m1 \<leftarrow> set_next (rb_mem rb) t (rn_next n);
                 m2 \<leftarrow> set_prev m1 (rn_next n) t;
                 Some (rb\<lparr>rb_head := Some (rn_next n), rb_mem := m2\<rparr>)
               });
        Some (rb1\<lparr>rb_mem := (rb_mem rb1)(pop_node := None), rb_count := rb_count rb - 1\<rparr>,
              Some (rn_data n), LD_OK)
      })"

definition ld_rbuffer_get_front :: "'a ld_rbuffer \<Rightarrow> ('a option \<times> l_err) option" where
  "ld_rbuffer_get_front rb =
     (if rb_count rb = 0 then Some (None, LD_ERR_INTERNAL)
      else do {
        h \<leftarrow> rb_head rb;
        n \<leftarrow> rb_mem rb h;
        Some (Some (rn_data n), LD_OK)
      })"

text \<open>The loops over the ring: \<open>n\<close> is the number of nodes still to visit.\<close>

fun rb_pop_all :: "nat \<Rightarrow> 'a ld_rbuffer \<Rightarrow> 'a ld_rbuffer option" where
  "rb_pop_all 0 rb = Some rb"
| "rb_pop_all (Suc n) rb = (case ld_rbuffer_pop rb of None \<Rightarrow> None | Some (rb', _) \<Rightarrow> rb_pop_all n rb')"

definition ld_rbuffer_free :: "'a ld_rbuffer \<Rightarrow> 'a ld_rbuffer option" where
  "ld_rbuffer_free rb = rb_pop_all (rb_count rb) rb"

fun rb_visit :: "(addr \<rightharpoonup> 'a rnode_t) \<Rightarrow> nat \<Rightarrow> addr \<Rightarrow> 'a list option" where
  "rb_visit m 0 current = Some []"
| "rb_visit m (Suc n) current =
     (case m current of
        None \<Rightarrow> None
      | Some nd \<Rightarrow> map_option ((#) (rn_data nd)) (rb_visit m n (rn_next nd)))"

text \<open>The elements that \<open>ring_buffer_traverse\<close> passes to its callback, in order.\<close>

definition ring_buffer_traverse :: "'a ld_rbuffer \<Rightarrow> 'a list option" where
  "ring_buffer_traverse rb =
     (if rb_count rb = 0 then Some []
      else (case rb_head rb of None \<Rightarrow> None | Some h \<Rightarrow> rb_visit (rb_mem rb) (rb_count rb) h))"

fun rb_check :: "(addr \<rightharpoonup> 'a rnode_t) \<Rightarrow> nat \<Rightarrow> addr option \<Rightarrow> ('a \<Rightarrow> bool) \<Rightarrow> bool option" where
  "rb_check m 0 current factor = Some False"
| "rb_check m (Suc n) current factor =
     (case Option.bind current m of
        None \<Rightarrow> None
      | Some nd \<Rightarrow> if factor (rn_data nd) then Some True
                   else rb_check m n (Some (rn_next nd)) factor)"

definition ld_rbuffer_check_exist :: "'a ld_rbuffer \<Rightarrow> 'b \<Rightarrow> ('a \<Rightarrow> 'b \<Rightarrow> bool) \<Rightarrow> bool option" where
  "ld_rbuffer_check_exist rb p factor =
     rb_check (rb_mem rb) (rb_count rb) (rb_head rb) (\<lambda>d. factor d p)"

definition ld_rbuffer_count :: "'a ld_rbuffer \<Rightarrow> nat" where
  "ld_rbuffer_count rb = rb_count rb"


section \<open>The list a ring holds\<close>

text \<open>
  \<open>chain m p as e xs\<close>: the nodes at the addresses \<open>as\<close> hold \<open>xs\<close>, are linked in both
  directions, the first one points back to \<open>p\<close> and the last one forward to \<open>e\<close>.
\<close>

fun chain :: "(addr \<rightharpoonup> 'a rnode_t) \<Rightarrow> addr \<Rightarrow> addr list \<Rightarrow> addr \<Rightarrow> 'a list \<Rightarrow> bool" where
  "chain m p [] e [] = True"
| "chain m p (a # as) e (x # xs) =
     (m a = Some \<lparr>rn_data = x, rn_prev = p, rn_next = (if as = [] then e else hd as)\<rparr> \<and>
      chain m a as e xs)"
| "chain m p _ e _ = False"

definition ring :: "'a ld_rbuffer \<Rightarrow> addr list \<Rightarrow> 'a list \<Rightarrow> bool" where
  "ring rb as xs \<longleftrightarrow>
     length as = rb_count rb \<and> distinct as \<and> (\<forall>a \<in> set as. a < rb_brk rb) \<and>
     (if as = [] then rb_head rb = None \<and> rb_tail rb = None \<and> xs = []
      else rb_head rb = Some (hd as) \<and> rb_tail rb = Some (last as) \<and>
           chain (rb_mem rb) (last as) as (hd as) xs)"

definition rb_inv :: "'a ld_rbuffer \<Rightarrow> bool" where
  "rb_inv rb \<longleftrightarrow> rb_count rb \<le> rb_size rb \<and> (\<exists>as xs. ring rb as xs)"

definition rb_list :: "'a ld_rbuffer \<Rightarrow> 'a list" where
  "rb_list rb = (case ring_buffer_traverse rb of None \<Rightarrow> [] | Some xs \<Rightarrow> xs)"

lemma chain_length: "chain m p as e xs \<Longrightarrow> length xs = length as"
  by (induction m p as e xs rule: chain.induct) auto

lemma chain_upd_notin: "a \<notin> set as \<Longrightarrow> chain (m(a := v)) p as e xs = chain m p as e xs"
  by (induction m p as e xs rule: chain.induct) auto

lemma chain_append:
  "length as = length xs \<Longrightarrow>
     chain m p (as @ bs) e (xs @ ys) \<longleftrightarrow>
       chain m p as (if bs = [] then e else hd bs) xs \<and>
       chain m (if as = [] then p else last as) bs e ys"
  by (induction as xs arbitrary: p rule: list_induct2) (auto simp: hd_append)

lemma chain_mem: "chain m p as e xs \<Longrightarrow> a \<in> set as \<Longrightarrow> \<exists>n. m a = Some n"
  by (induction m p as e xs rule: chain.induct) auto

lemma chain_set_prev:
  assumes "chain m p as e xs" "as \<noteq> []" "distinct as"
  shows "\<exists>m'. set_prev m (hd as) p' = Some m' \<and> chain m' p' as e xs \<and>
          (\<forall>a. a \<noteq> hd as \<longrightarrow> m' a = m a)"
  using assms by (cases as; cases xs) (auto simp: set_prev_def chain_upd_notin)

lemma chain_set_next:
  assumes "chain m p as e xs" "as \<noteq> []" "distinct as"
  shows "\<exists>m'. set_next m (last as) e' = Some m' \<and> chain m' p as e' xs \<and>
          (\<forall>a. a \<noteq> last as \<longrightarrow> m' a = m a)"
proof -
  obtain bs a where as: "as = bs @ [a]" using assms(2) by (metis rev_exhaust)
  obtain ys y where xs: "xs = ys @ [y]"
    using chain_length [OF assms(1)] as by (metis length_0_conv rev_exhaust assms(2))
  have len: "length bs = length ys"
    using chain_length [OF assms(1)] by (simp add: as xs)
  from assms(1,3) len show ?thesis
    by (auto simp: as xs chain_append set_next_def chain_upd_notin)
qed

lemma chain_visit:
  "chain m p as e xs \<Longrightarrow> as \<noteq> [] \<Longrightarrow> rb_visit m (length as) (hd as) = Some xs"
proof (induction m p as e xs rule: chain.induct)
  case (2 m p a as e x xs)
  then show ?case by (cases as; cases xs) auto
qed auto

lemma chain_check:
  "chain m p as e xs \<Longrightarrow> as \<noteq> [] \<Longrightarrow> rb_check m (length as) (Some (hd as)) f = Some (\<exists>x \<in> set xs. f x)"
proof (induction m p as e xs rule: chain.induct)
  case (2 m p a as e x xs)
  then show ?case by (cases as; cases xs) auto
qed auto

lemma ring_list: "ring rb as xs \<Longrightarrow> rb_list rb = xs"
  using chain_visit [of "rb_mem rb" "last as" as "hd as" xs]
  by (auto simp: ring_def rb_list_def ring_buffer_traverse_def split: if_splits)

lemma ring_length: "ring rb as xs \<Longrightarrow> length xs = rb_count rb"
  by (auto simp: ring_def split: if_splits dest: chain_length)

lemma rb_invE:
  assumes "rb_inv rb"
  obtains as where "ring rb as (rb_list rb)" "rb_count rb \<le> rb_size rb"
  using assms ring_list by (auto simp: rb_inv_def)

lemma rb_invI:
  "ring rb as xs \<Longrightarrow> rb_count rb \<le> rb_size rb \<Longrightarrow> rb_inv rb \<and> rb_list rb = xs"
  using ring_list by (auto simp: rb_inv_def)

lemma rb_list_length: "rb_inv rb \<Longrightarrow> length (rb_list rb) = rb_count rb"
  by (metis rb_invE ring_length)

lemma rb_inv_init [simp]: "rb_inv (ld_rbuffer_init sz)"
  and rb_list_init [simp]: "rb_list (ld_rbuffer_init sz) = []"
  and rb_size_init [simp]: "rb_size (ld_rbuffer_init sz) = sz"
  by (simp_all add: rb_inv_def ring_def ld_rbuffer_init_def rb_list_def ring_buffer_traverse_def)


section \<open>The operations on the list\<close>

text \<open>The node insertion shared by both pushes, on a non-empty ring.\<close>

lemma ring_link:
  assumes "ring rb as xs" "as \<noteq> []"
  shows "\<exists>m1 m2. set_next ((rb_mem rb)(rb_brk rb \<mapsto>
                   \<lparr>rn_data = x, rn_prev = last as, rn_next = hd as\<rparr>)) (last as) (rb_brk rb) = Some m1 \<and>
           set_prev m1 (hd as) (rb_brk rb) = Some m2 \<and>
           m2 (rb_brk rb) = Some \<lparr>rn_data = x, rn_prev = last as, rn_next = hd as\<rparr> \<and>
           chain m2 (rb_brk rb) as (rb_brk rb) xs"
proof -
  let ?new = "rb_brk rb"
  let ?m0 = "(rb_mem rb)(?new \<mapsto> \<lparr>rn_data = x, rn_prev = last as, rn_next = hd as\<rparr>)"
  have d: "distinct as" and new: "?new \<notin> set as" and c: "chain (rb_mem rb) (last as) as (hd as) xs"
    using assms by (auto simp: ring_def)
  have ne: "?new \<noteq> last as" "?new \<noteq> hd as" using new assms(2) by force+
  have "chain ?m0 (last as) as (hd as) xs" using c new by (simp add: chain_upd_notin)
  then obtain m1 where m1: "set_next ?m0 (last as) ?new = Some m1" "chain m1 (last as) as ?new xs"
    "\<forall>a. a \<noteq> last as \<longrightarrow> m1 a = ?m0 a"
    using chain_set_next [OF _ assms(2) d] by metis
  then obtain m2 where "set_prev m1 (hd as) ?new = Some m2" "chain m2 ?new as ?new xs"
    "\<forall>a. a \<noteq> hd as \<longrightarrow> m2 a = m1 a"
    using chain_set_prev [OF _ assms(2) d] by metis
  with m1 ne show ?thesis by auto
qed

lemma ring_push_front:
  assumes "ring rb as xs" "rb_count rb < rb_size rb"
  shows "\<exists>rb'. ld_rbuffer_push_front rb x = Some (rb', LD_OK) \<and> rb_size rb' = rb_size rb \<and>
           rb_count rb' = Suc (rb_count rb) \<and> ring rb' (rb_brk rb # as) (x # xs)"
proof (cases "as = []")
  case True
  with assms show ?thesis by (auto simp: ld_rbuffer_push_front_def ring_def Let_def)
next
  case False
  with ring_link [OF assms(1) False, of x] assms show ?thesis
    by (auto simp: ld_rbuffer_push_front_def ring_def Let_def less_Suc_eq)
qed

lemma ring_push_back:
  assumes "ring rb as xs" "rb_count rb < rb_size rb"
  shows "\<exists>rb'. ld_rbuffer_push_back rb x = Some (rb', LD_OK) \<and> rb_size rb' = rb_size rb \<and>
           rb_count rb' = Suc (rb_count rb) \<and> ring rb' (as @ [rb_brk rb]) (xs @ [x])"
proof (cases "as = []")
  case True
  with assms show ?thesis by (auto simp: ld_rbuffer_push_back_def ring_def Let_def)
next
  case False
  then have "length as = length xs" using assms(1) by (auto simp: ring_def dest: chain_length)
  with False ring_link [OF assms(1) False, of x] assms show ?thesis
    by (auto simp: ld_rbuffer_push_back_def ring_def Let_def chain_append less_Suc_eq)
qed

lemma ring_unlink:
  assumes "ring rb (h # as) (x # xs)" "as \<noteq> []"
  shows "\<exists>m1 m2. rb_mem rb h = Some \<lparr>rn_data = x, rn_prev = last as, rn_next = hd as\<rparr> \<and>
           set_next (rb_mem rb) (last as) (hd as) = Some m1 \<and>
           set_prev m1 (hd as) (last as) = Some m2 \<and>
           chain (m2(h := None)) (last as) as (hd as) xs"
proof -
  have d: "distinct as" "h \<notin> set as" and c: "chain (rb_mem rb) h as h xs"
    and h: "rb_mem rb h = Some \<lparr>rn_data = x, rn_prev = last as, rn_next = hd as\<rparr>"
    using assms by (auto simp: ring_def)
  obtain m1 where m1: "set_next (rb_mem rb) (last as) (hd as) = Some m1" "chain m1 h as (hd as) xs"
    using chain_set_next [OF c assms(2) d(1)] by metis
  then obtain m2 where "set_prev m1 (hd as) (last as) = Some m2" "chain m2 (last as) as (hd as) xs"
    using chain_set_prev [OF _ assms(2) d(1)] by metis
  with m1 h d(2) show ?thesis by (auto simp: chain_upd_notin)
qed

lemma ring_pop:
  assumes "ring rb (h # as) (x # xs)"
  shows "\<exists>rb'. ld_rbuffer_pop rb = Some (rb', Some x, LD_OK) \<and> rb_size rb' = rb_size rb \<and>
           Suc (rb_count rb') = rb_count rb \<and> ring rb' as xs"
proof (cases "as = []")
  case True
  with assms show ?thesis by (cases xs) (auto simp: ld_rbuffer_pop_def ring_def)
next
  case False
  have "rb_count rb = Suc (length as)" using assms by (auto simp: ring_def)
  with False ring_unlink [OF assms False] assms show ?thesis
    by (auto simp: ld_rbuffer_pop_def ring_def)
qed

lemma rb_push_front_full:
  "rb_inv rb \<Longrightarrow> length (rb_list rb) = rb_size rb \<Longrightarrow>
     ld_rbuffer_push_front rb x = Some (rb, LD_ERR_INTERNAL)"
  by (simp add: ld_rbuffer_push_front_def rb_list_length)

lemma rb_push_back_full:
  "rb_inv rb \<Longrightarrow> length (rb_list rb) = rb_size rb \<Longrightarrow>
     ld_rbuffer_push_back rb x = Some (rb, LD_ERR_INTERNAL)"
  by (simp add: ld_rbuffer_push_back_def rb_list_length)

lemma rb_push_front_ok:
  assumes "rb_inv rb" "length (rb_list rb) < rb_size rb"
  shows "\<exists>rb'. ld_rbuffer_push_front rb x = Some (rb', LD_OK) \<and> rb_inv rb' \<and>
           rb_size rb' = rb_size rb \<and> rb_list rb' = x # rb_list rb"
proof -
  obtain as where "ring rb as (rb_list rb)" using rb_invE [OF assms(1)] .
  with ring_push_front [OF this, of x] assms show ?thesis
    by (auto simp: rb_list_length Suc_le_eq dest!: rb_invI)
qed

lemma rb_push_back_ok:
  assumes "rb_inv rb" "length (rb_list rb) < rb_size rb"
  shows "\<exists>rb'. ld_rbuffer_push_back rb x = Some (rb', LD_OK) \<and> rb_inv rb' \<and>
           rb_size rb' = rb_size rb \<and> rb_list rb' = rb_list rb @ [x]"
proof -
  obtain as where "ring rb as (rb_list rb)" using rb_invE [OF assms(1)] .
  with ring_push_back [OF this, of x] assms show ?thesis
    by (auto simp: rb_list_length Suc_le_eq dest!: rb_invI)
qed

lemma rb_pop_empty:
  "rb_inv rb \<Longrightarrow> rb_list rb = [] \<Longrightarrow> ld_rbuffer_pop rb = Some (rb, None, LD_ERR_INTERNAL)"
  using rb_list_length [of rb] by (simp add: ld_rbuffer_pop_def)

lemma rb_pop_ok:
  assumes "rb_inv rb" "rb_list rb = x # xs"
  shows "\<exists>rb'. ld_rbuffer_pop rb = Some (rb', Some x, LD_OK) \<and> rb_inv rb' \<and>
           rb_size rb' = rb_size rb \<and> rb_list rb' = xs"
proof -
  obtain as where r: "ring rb as (x # xs)" and c: "rb_count rb \<le> rb_size rb"
    using rb_invE [OF assms(1)] assms(2) by metis
  then obtain h bs where "as = h # bs" by (cases as) (auto simp: ring_def)
  with ring_pop [of rb h bs x xs] r c show ?thesis
    by (auto dest!: rb_invI)
qed

lemma rb_size_bound: "rb_inv rb \<Longrightarrow> length (rb_list rb) \<le> rb_size rb"
  by (metis rb_invE rb_list_length)

interpretation rb: bounded_deque rb_inv rb_list rb_size ld_rbuffer_push_front
  ld_rbuffer_push_back ld_rbuffer_pop
  by unfold_locales
     (simp_all add: rb_size_bound rb_push_front_full rb_push_back_full rb_push_front_ok
        rb_push_back_ok rb_pop_empty rb_pop_ok)

lemma rb_get_front:
  assumes "rb_inv rb"
  shows "ld_rbuffer_get_front rb =
           Some (case rb_list rb of [] \<Rightarrow> (None, LD_ERR_INTERNAL) | x # _ \<Rightarrow> (Some x, LD_OK))"
proof -
  obtain as where r: "ring rb as (rb_list rb)" using rb_invE [OF assms] .
  show ?thesis
  proof (cases "rb_list rb")
    case Nil
    with rb_list_length [OF assms] show ?thesis by (simp add: ld_rbuffer_get_front_def)
  next
    case (Cons x xs)
    with r obtain h bs where "as = h # bs" by (cases as) (auto simp: ring_def)
    with r Cons rb_list_length [OF assms] show ?thesis
      by (auto simp: ld_rbuffer_get_front_def ring_def)
  qed
qed

lemma rb_check_exist:
  assumes "rb_inv rb"
  shows "ld_rbuffer_check_exist rb p factor = Some (\<exists>d \<in> set (rb_list rb). factor d p)"
proof -
  obtain as where r: "ring rb as (rb_list rb)" using rb_invE [OF assms] .
  show ?thesis
  proof (cases "as = []")
    case True
    with r show ?thesis by (simp add: ld_rbuffer_check_exist_def ring_def)
  next
    case False
    with r have "rb_head rb = Some (hd as)" "length as = rb_count rb"
      "chain (rb_mem rb) (last as) as (hd as) (rb_list rb)"
      by (auto simp: ring_def)
    with False show ?thesis
      using chain_check [of "rb_mem rb" "last as" as "hd as" "rb_list rb" "\<lambda>d. factor d p"]
      by (simp add: ld_rbuffer_check_exist_def)
  qed
qed

lemma rb_pop_all_list:
  "rb_inv rb \<Longrightarrow> length (rb_list rb) = n \<Longrightarrow>
     \<exists>rb'. rb_pop_all n rb = Some rb' \<and> rb_inv rb' \<and> rb_list rb' = []"
proof (induction n arbitrary: rb)
  case (Suc n)
  then obtain x xs where "rb_list rb = x # xs" by (cases "rb_list rb") auto
  with Suc rb_pop_ok [OF Suc.prems(1)] show ?case by fastforce
qed auto


section \<open>Properties\<close>

text \<open>
  Property C10: the ring implements a bounded double-ended queue. On a valid ring each push
  either adds the element at its end of the list or, when the ring is full, reports
  LD_ERR_INTERNAL and changes nothing; pop returns the first element, or NULL and the error on
  an empty ring. No operation follows an invalid pointer and all of them keep the ring valid.
\<close>

theorem rbuffer_refines_deque:
  assumes "rb_inv rb"
  shows "\<exists>f b p x\<^sub>p e\<^sub>f e\<^sub>b e\<^sub>p.
     ld_rbuffer_push_front rb x = Some (f, e\<^sub>f) \<and> rb_inv f \<and>
     ld_rbuffer_push_back rb x = Some (b, e\<^sub>b) \<and> rb_inv b \<and>
     ld_rbuffer_pop rb = Some (p, x\<^sub>p, e\<^sub>p) \<and> rb_inv p \<and>
     (if length (rb_list rb) < rb_size rb
      then e\<^sub>f = LD_OK \<and> rb_list f = x # rb_list rb \<and> e\<^sub>b = LD_OK \<and> rb_list b = rb_list rb @ [x]
      else e\<^sub>f = LD_ERR_INTERNAL \<and> f = rb \<and> e\<^sub>b = LD_ERR_INTERNAL \<and> b = rb) \<and>
     (case rb_list rb of
        [] \<Rightarrow> x\<^sub>p = None \<and> e\<^sub>p = LD_ERR_INTERNAL \<and> p = rb
      | y # ys \<Rightarrow> x\<^sub>p = Some y \<and> e\<^sub>p = LD_OK \<and> rb_list p = ys)"
proof -
  have pop: "\<exists>p x\<^sub>p e\<^sub>p. ld_rbuffer_pop rb = Some (p, x\<^sub>p, e\<^sub>p) \<and> rb_inv p \<and>
     (case rb_list rb of [] \<Rightarrow> x\<^sub>p = None \<and> e\<^sub>p = LD_ERR_INTERNAL \<and> p = rb
      | y # ys \<Rightarrow> x\<^sub>p = Some y \<and> e\<^sub>p = LD_OK \<and> rb_list p = ys)"
    using rb.pop_empty [OF assms] rb.pop_ok [OF assms] assms
    by (cases "rb_list rb") fastforce+
  show ?thesis
  proof (cases "length (rb_list rb) < rb_size rb")
    case True
    with rb.push_front_ok [OF assms, of x] rb.push_back_ok [OF assms, of x] pop
    show ?thesis by auto
  next
    case False
    then have "length (rb_list rb) = rb_size rb" using rb.size_bound [OF assms] by simp
    with rb.push_front_full [OF assms, of x] rb.push_back_full [OF assms, of x] pop False assms
    show ?thesis by auto
  qed
qed

theorem rbuffer_refines_deque_witness:
  "\<exists>rb'. ld_rbuffer_push_back (ld_rbuffer_init 3 :: nat ld_rbuffer) 7 = Some (rb', LD_OK) \<and>
     rb_inv rb' \<and> rb_list rb' = [7]"
  using rbuffer_refines_deque [of "ld_rbuffer_init 3 :: nat ld_rbuffer" 7] by auto

text \<open>
  Traversal visits the stored elements once each, in order from the head, the
  membership test is membership in that list, and freeing a ring pops every element and ends.
\<close>

theorem rbuffer_traversals:
  assumes "rb_inv rb"
  shows "ring_buffer_traverse rb = Some (rb_list rb) \<and>
         ld_rbuffer_check_exist rb p factor = Some (\<exists>d \<in> set (rb_list rb). factor d p) \<and>
         ld_rbuffer_count rb = length (rb_list rb) \<and>
         (\<exists>rb'. ld_rbuffer_free rb = Some rb' \<and> rb_list rb' = [])"
proof -
  obtain as where r: "ring rb as (rb_list rb)" using rb_invE [OF assms] .
  have "ring_buffer_traverse rb = Some (rb_list rb)"
    using r chain_visit [of "rb_mem rb" "last as" as "hd as" "rb_list rb"]
    by (auto simp: ring_def ring_buffer_traverse_def split: if_splits)
  then show ?thesis
    using rb_check_exist [OF assms] rb_list_length [OF assms]
      rb_pop_all_list [OF assms, of "rb_count rb"]
    by (auto simp: ld_rbuffer_count_def ld_rbuffer_free_def)
qed

theorem rbuffer_traversals_witness:
  "ring_buffer_traverse (ld_rbuffer_init 3 :: nat ld_rbuffer) = Some [] \<and>
   ld_rbuffer_check_exist (ld_rbuffer_init 3 :: nat ld_rbuffer) (1::nat) (=) = Some False"
  using rbuffer_traversals [OF rb_inv_init, of 3 "1::nat" "(=)"] by auto

end
