(* ===== verification/Drr.thy ===== *)
theory Drr
  imports Rbuffer
begin

text \<open>
  The deficit round robin scheduler of src/src/ld_drr.c, on top of the ring of active users
  (theory Rbuffer). A pointer to \<open>req_entitys[k]\<close> is the index \<open>k\<close>.

  \<open>drr_resource_alloc\<close> first collects the users with a pending request (\<open>drr_collect\<close>), then
  serves the ring until the resource \<open>W\<close> has fallen to \<open>W_min\<close> or no user is left
  (\<open>drr_loop\<close>, with the inner loop \<open>drr_serve\<close>). Both loops take fuel; \<open>None\<close> means that
  the C loop would not end, and the lemmas prove that with a positive packet size the fuel the
  model supplies is always enough. Byte counts are natural numbers.
\<close>

section \<open>Data and operations\<close>

record drr_req_t =
  dr_SAC :: nat
  dr_DC :: nat
  dr_req_sz :: nat

record ld_drr_t =
  drr_active :: "nat ld_rbuffer"
  drr_max_sz :: nat
  drr_req_szs :: "nat list"
  drr_ents :: "drr_req_t list"

definition init_ld_drr :: "nat \<Rightarrow> ld_drr_t" where
  "init_ld_drr sz =
     \<lparr>drr_active = ld_rbuffer_init sz, drr_max_sz = sz, drr_req_szs = replicate sz 0,
      drr_ents = map (\<lambda>i. \<lparr>dr_SAC = i mod 65536, dr_DC = 0, dr_req_sz = 0\<rparr>) [0..<sz]\<rparr>"

definition ld_req_update :: "ld_drr_t \<Rightarrow> nat \<Rightarrow> nat \<Rightarrow> ld_drr_t option" where
  "ld_req_update drr SAC req_sz =
     (if SAC < length (drr_ents drr) then
        let r = drr_ents drr ! SAC in
        Some (drr\<lparr>drr_ents := (drr_ents drr)[SAC := r\<lparr>dr_req_sz := dr_req_sz r + req_sz\<rparr>]\<rparr>)
      else None)"

definition drr_fac :: "drr_req_t list \<Rightarrow> nat \<Rightarrow> nat \<Rightarrow> bool" where
  "drr_fac ents a b \<longleftrightarrow> dr_SAC (ents ! a) = dr_SAC (ents ! b)"

fun drr_collect :: "nat list \<Rightarrow> ld_drr_t \<Rightarrow> nat \<Rightarrow> (ld_drr_t \<times> nat) option" where
  "drr_collect [] drr tot = Some (drr, tot)"
| "drr_collect (i # is) drr tot =
     (let r = drr_ents drr ! i in
      if dr_req_sz r = 0 then drr_collect is drr tot
      else do {
        present \<leftarrow> ld_rbuffer_check_exist (drr_active drr) i (drr_fac (drr_ents drr));
        drr1 \<leftarrow> (if present then Some drr
                 else do {
                   (q, _) \<leftarrow> ld_rbuffer_push_back (drr_active drr) i;
                   Some (drr\<lparr>drr_active := q, drr_ents := (drr_ents drr)[i := r\<lparr>dr_DC := 0\<rparr>]\<rparr>)
                 });
        drr_collect is (drr1\<lparr>drr_req_szs := (drr_req_szs drr1)[dr_SAC r := dr_req_sz r]\<rparr>)
          (tot + dr_req_sz r)
      })"

fun drr_serve :: "nat \<Rightarrow> nat \<Rightarrow> nat \<Rightarrow> nat \<Rightarrow> nat \<Rightarrow> nat \<Rightarrow> nat \<Rightarrow> bool \<Rightarrow>
    (nat \<times> nat \<times> nat \<times> nat \<times> bool) option" where
  "drr_serve 0 pkt_size W_min W DC req al frag = None"
| "drr_serve (Suc fuel) pkt_size W_min W DC req al frag =
     (if DC > 0 \<and> req > 0 then
        if W \<ge> pkt_size \<and> DC \<ge> pkt_size then
          if req \<ge> pkt_size
          then drr_serve fuel pkt_size W_min (W - pkt_size) (DC - pkt_size) (req - pkt_size)
                 (al + pkt_size) frag
          else drr_serve fuel pkt_size W_min (W - req) (DC - req) 0 (al + req) frag
        else if W < pkt_size \<and> W > W_min \<and> DC \<ge> pkt_size then
          if req \<ge> W
          then drr_serve fuel pkt_size W_min 0 (DC - W) (req - W) (al + W) True
          else drr_serve fuel pkt_size W_min (W - req) (DC - req) 0 (al + req) frag
        else Some (W, DC, req, al, frag)
      else Some (W, DC, req, al, frag))"

text \<open>One round of the outer loop for the popped user \<open>k\<close>; \<open>q\<close> is the ring after the pop.\<close>

definition drr_round :: "nat \<Rightarrow> nat \<Rightarrow> ld_drr_t \<Rightarrow> nat list \<Rightarrow> nat \<Rightarrow> nat ld_rbuffer \<Rightarrow> nat \<Rightarrow>
    (ld_drr_t \<times> nat list \<times> nat) option" where
  "drr_round pkt_size W_min drr alloc_map W q k =
     (let r = drr_ents drr ! k; sac = dr_SAC r in
      do {
        (W', DC, req, al, frag) \<leftarrow>
          drr_serve (Suc (dr_req_sz r)) pkt_size W_min W (dr_DC r + pkt_size) (dr_req_sz r)
            (alloc_map ! sac) False;
        if al = drr_req_szs drr ! sac then
          Some (drr\<lparr>drr_active := q,
                    drr_ents := (drr_ents drr)[k := r\<lparr>dr_DC := 0, dr_req_sz := req\<rparr>]\<rparr>,
                alloc_map[sac := al], W')
        else do {
          (q', _) \<leftarrow> (if frag then ld_rbuffer_push_front q k else ld_rbuffer_push_back q k);
          Some (drr\<lparr>drr_active := q',
                    drr_ents := (drr_ents drr)[k := r\<lparr>dr_DC := DC, dr_req_sz := req\<rparr>]\<rparr>,
                alloc_map[sac := al], W')
        }
      })"

fun drr_loop :: "nat \<Rightarrow> nat \<Rightarrow> nat \<Rightarrow> ld_drr_t \<Rightarrow> nat list \<Rightarrow> nat \<Rightarrow>
    (ld_drr_t \<times> nat list \<times> nat) option" where
  "drr_loop 0 pkt_size W_min drr alloc_map W = None"
| "drr_loop (Suc fuel) pkt_size W_min drr alloc_map W =
     (if W > W_min then
        (case ld_rbuffer_pop (drr_active drr) of
           None \<Rightarrow> None
         | Some (q, None, _) \<Rightarrow> Some (drr\<lparr>drr_active := q\<rparr>, alloc_map, W)
         | Some (q, Some k, _) \<Rightarrow>
             (case drr_round pkt_size W_min drr alloc_map W q k of
                None \<Rightarrow> None
              | Some (drr', alloc', W') \<Rightarrow> drr_loop fuel pkt_size W_min drr' alloc' W'))
      else Some (drr, alloc_map, W))"

text \<open>The result is the scheduler afterwards and the allocation map given to the callback.\<close>

definition drr_resource_alloc :: "ld_drr_t \<Rightarrow> nat \<Rightarrow> nat \<Rightarrow> nat \<Rightarrow> (ld_drr_t \<times> nat list) option" where
  "drr_resource_alloc drr pkt_size W W_min =
     do {
       (drr1, tot) \<leftarrow> drr_collect [0..<drr_max_sz drr] drr 0;
       let W1 = (if tot < W then tot else W);
       (drr2, alloc_map, _) \<leftarrow>
         drr_loop (Suc W1) pkt_size W_min drr1 (replicate (drr_max_sz drr) 0) W1;
       Some (drr2, alloc_map)
     }"


section \<open>The invariant\<close>

abbreviation drr_req :: "ld_drr_t \<Rightarrow> nat \<Rightarrow> nat" where
  "drr_req drr i \<equiv> dr_req_sz (drr_ents drr ! i)"

abbreviation drr_queue :: "ld_drr_t \<Rightarrow> nat list" where
  "drr_queue drr \<equiv> rb_list (drr_active drr)"

text \<open>
  The users in the ring are distinct, have a pending request, and entity \<open>i\<close> carries the
  SAC \<open>i\<close>.
\<close>

definition drr_inv :: "ld_drr_t \<Rightarrow> bool" where
  "drr_inv drr \<longleftrightarrow>
     rb_inv (drr_active drr) \<and> rb_size (drr_active drr) = drr_max_sz drr \<and>
     length (drr_ents drr) = drr_max_sz drr \<and> length (drr_req_szs drr) = drr_max_sz drr \<and>
     (\<forall>i < drr_max_sz drr. dr_SAC (drr_ents drr ! i) = i) \<and>
     distinct (drr_queue drr) \<and>
     (\<forall>i \<in> set (drr_queue drr). i < drr_max_sz drr \<and> drr_req drr i > 0)"

lemma drr_inv_init: "sz \<le> 65536 \<Longrightarrow> drr_inv (init_ld_drr sz)"
  by (simp add: drr_inv_def init_ld_drr_def)

lemma drr_inv_update:
  assumes "drr_inv drr" "i < drr_max_sz drr"
  shows "\<exists>drr'. ld_req_update drr i n = Some drr' \<and> drr_inv drr' \<and>
           (\<forall>j < drr_max_sz drr. drr_req drr' j = drr_req drr j + (if j = i then n else 0))"
  using assms by (auto simp: ld_req_update_def drr_inv_def Let_def nth_list_update)

text \<open>The queue of a scheduler has room for every user that is not in it.\<close>

lemma distinct_room:
  "distinct (xs::nat list) \<Longrightarrow> \<forall>i \<in> set xs. i < n \<Longrightarrow> k < n \<Longrightarrow> k \<notin> set xs \<Longrightarrow> length xs < n"
proof -
  assume a: "distinct xs" "\<forall>i \<in> set xs. i < n" "k < n" "k \<notin> set xs"
  then have "set xs \<subset> {..<n}" by auto
  then have "card (set xs) < n" using psubset_card_mono [of "{..<n}"] by simp
  with a show "length xs < n" by (simp add: distinct_card)
qed


section \<open>Collecting the requests\<close>

lemma drr_collect_spec:
  assumes "drr_inv drr" "distinct is" "\<forall>i \<in> set is. i < drr_max_sz drr"
  shows "\<exists>drr'. drr_collect is drr tot = Some (drr', tot + (\<Sum>i \<leftarrow> is. drr_req drr i)) \<and>
           drr_inv drr' \<and> drr_max_sz drr' = drr_max_sz drr \<and>
           (\<forall>i < drr_max_sz drr. drr_req drr' i = drr_req drr i) \<and>
           set (drr_queue drr') = set (drr_queue drr) \<union> {i \<in> set is. drr_req drr i > 0} \<and>
           (\<forall>i < drr_max_sz drr. drr_req_szs drr' ! i =
              (if i \<in> set is \<and> drr_req drr i > 0 then drr_req drr i else drr_req_szs drr ! i))"
  using assms
proof (induction "is" arbitrary: drr tot)
  case (Cons i "is")
  let ?r = "drr_ents drr ! i"
  have i: "i < drr_max_sz drr" "i \<notin> set is" using Cons.prems by auto
  show ?case
  proof (cases "dr_req_sz ?r = 0")
    case True
    with Cons.IH [of drr tot] Cons.prems show ?thesis
      by (auto simp: Let_def)
  next
    case False
    have inv: "rb_inv (drr_active drr)" "rb_size (drr_active drr) = drr_max_sz drr"
      "dr_SAC ?r = i" "length (drr_ents drr) = drr_max_sz drr"
      "length (drr_req_szs drr) = drr_max_sz drr"
      using Cons.prems(1) i by (auto simp: drr_inv_def)
    have ex: "ld_rbuffer_check_exist (drr_active drr) i (drr_fac (drr_ents drr)) =
        Some (i \<in> set (drr_queue drr))"
      using Cons.prems(1) i
      by (subst rb_check_exist [OF inv(1)]) (fastforce simp: drr_inv_def drr_fac_def)
    obtain drr1 where
      step: "(if i \<in> set (drr_queue drr) then Some drr
              else do { (q, _) \<leftarrow> ld_rbuffer_push_back (drr_active drr) i;
                        Some (drr\<lparr>drr_active := q, drr_ents := (drr_ents drr)[i := ?r\<lparr>dr_DC := 0\<rparr>]\<rparr>) })
             = Some drr1"
      and d1: "drr_inv drr1" "drr_max_sz drr1 = drr_max_sz drr"
        "drr_req_szs drr1 = drr_req_szs drr"
        "\<forall>j < drr_max_sz drr. drr_req drr1 j = drr_req drr j"
        "set (drr_queue drr1) = insert i (set (drr_queue drr))"
    proof (cases "i \<in> set (drr_queue drr)")
      case True
      with Cons.prems(1) show ?thesis by (intro that [of drr]) auto
    next
      case notin: False
      then have "length (drr_queue drr) < rb_size (drr_active drr)"
        using Cons.prems(1) i by (auto simp: drr_inv_def intro: distinct_room)
      then obtain q where "ld_rbuffer_push_back (drr_active drr) i = Some (q, LD_OK)" "rb_inv q"
        "rb_size q = drr_max_sz drr" "rb_list q = drr_queue drr @ [i]"
        using rb.push_back_ok [OF inv(1)] inv(2) by metis
      with notin Cons.prems(1) i False show ?thesis
        by (intro that [of "drr\<lparr>drr_active := q, drr_ents := (drr_ents drr)[i := ?r\<lparr>dr_DC := 0\<rparr>]\<rparr>"])
           (auto simp: drr_inv_def nth_list_update)
    qed
    let ?d2 = "drr1\<lparr>drr_req_szs := (drr_req_szs drr1)[i := dr_req_sz ?r]\<rparr>"
    have "drr_inv ?d2" using d1(1,2) by (auto simp: drr_inv_def)
    moreover have "(\<Sum>j \<leftarrow> is. drr_req ?d2 j) = (\<Sum>j \<leftarrow> is. drr_req drr j)"
      using d1(2,4) Cons.prems(3) by (intro arg_cong [of _ _ sum_list] map_cong) auto
    ultimately show ?thesis
      using Cons.IH [of ?d2 "tot + dr_req_sz ?r"] Cons.prems(2,3) False ex step inv i d1
      by (auto simp: Let_def nth_list_update add.assoc)
  qed
qed auto


section \<open>Serving one user\<close>

text \<open>
  Serving moves bytes from the resource and the request to the allocation, one for one, and
  it ends: every step but the last takes at least one byte off the request.
\<close>

lemma drr_serve_total:
  assumes "pkt_size > 0" "req < fuel"
  shows "\<exists>W' DC' req' al' frag'.
    drr_serve fuel pkt_size W_min W DC req al frag = Some (W', DC', req', al', frag') \<and>
    al' + req' = al + req \<and> al' + W' = al + W \<and> W' \<le> W"
  using assms
proof (induction fuel arbitrary: W DC req al frag)
  case (Suc fuel)
  consider (full) "DC > 0" "req > 0" "W \<ge> pkt_size" "DC \<ge> pkt_size" "req \<ge> pkt_size"
    | (rest) "DC > 0" "req > 0" "W \<ge> pkt_size" "DC \<ge> pkt_size" "req < pkt_size"
    | (frag) "DC > 0" "req > 0" "W < pkt_size" "W > W_min" "DC \<ge> pkt_size" "req \<ge> W"
    | (tail) "DC > 0" "req > 0" "W < pkt_size" "W > W_min" "DC \<ge> pkt_size" "req < W"
    | (stop) "\<not> (DC > 0 \<and> req > 0 \<and> DC \<ge> pkt_size \<and> (W \<ge> pkt_size \<or> W > W_min))"
    by (metis not_le)
  then show ?case
  proof cases
    case full
    with Suc.prems have "req - pkt_size < fuel" by linarith
    from Suc.IH [OF Suc.prems(1) this, of "W - pkt_size" "DC - pkt_size" "al + pkt_size" frag] full
    show ?thesis by auto
  next
    case rest
    with Suc.prems have "0 < fuel" by linarith
    from Suc.IH [OF Suc.prems(1) this, of "W - req" "DC - req" "al + req" frag] rest
    show ?thesis by auto
  next
    case frag
    with Suc.prems have "req - W < fuel" by linarith
    from Suc.IH [OF Suc.prems(1) this, of 0 "DC - W" "al + W" True] frag
    show ?thesis by auto
  next
    case tail
    with Suc.prems have "0 < fuel" by linarith
    from Suc.IH [OF Suc.prems(1) this, of "W - req" "DC - req" "al + req" frag] tail
    show ?thesis by auto
  next
    case stop
    then show ?thesis by auto
  qed
qed simp

text \<open>A user that is due gets something as long as the resource is above its floor.\<close>

lemma drr_serve_progress:
  assumes "pkt_size > 0" "DC \<ge> pkt_size" "req > 0" "W > W_min" "req < fuel"
    and "drr_serve fuel pkt_size W_min W DC req al frag = Some (W', DC', req', al', frag')"
  shows "W' < W"
proof -
  obtain f where f: "fuel = Suc f" using assms(5) by (cases fuel) auto
  consider (full) "W \<ge> pkt_size" "req \<ge> pkt_size" | (rest) "W \<ge> pkt_size" "req < pkt_size"
    | (frag) "W < pkt_size" "req \<ge> W" | (tail) "W < pkt_size" "req < W"
    by linarith
  then show ?thesis
  proof cases
    case full
    with assms f have "req - pkt_size < f" by linarith
    with full show ?thesis
      using assms f drr_serve_total [of pkt_size "req - pkt_size" f W_min "W - pkt_size"
          "DC - pkt_size" "al + pkt_size" frag] by auto
  next
    case rest
    then show ?thesis
      using assms f drr_serve_total [of pkt_size 0 f W_min "W - req" "DC - req" "al + req" frag]
      by auto
  next
    case frag
    with assms f have "req - W < f" by linarith
    with frag show ?thesis
      using assms f drr_serve_total [of pkt_size "req - W" f W_min 0 "DC - W" "al + W" True] by auto
  next
    case tail
    then show ?thesis
      using assms f drr_serve_total [of pkt_size 0 f W_min "W - req" "DC - req" "al + req" frag]
      by auto
  qed
qed


section \<open>The service loop\<close>

text \<open>
  The loop invariant, for the requests \<open>R\<close> recorded at the start: what a user has got and
  what it still wants add up to \<open>R\<close>, and the ring holds exactly the users that still want
  something.
\<close>

definition drr_loop_inv :: "(nat \<Rightarrow> nat) \<Rightarrow> nat \<Rightarrow> ld_drr_t \<Rightarrow> nat list \<Rightarrow> bool" where
  "drr_loop_inv R n drr alloc_map \<longleftrightarrow>
     drr_inv drr \<and> drr_max_sz drr = n \<and> length alloc_map = n \<and>
     (\<forall>i < n. alloc_map ! i + drr_req drr i = R i) \<and>
     (\<forall>i < n. drr_req drr i > 0 \<longrightarrow> i \<in> set (drr_queue drr) \<and> drr_req_szs drr ! i = R i)"

lemma drr_round_spec:
  assumes inv: "drr_loop_inv R n drr alloc_map" and pkt: "pkt_size > 0" and W: "W > W_min"
    and queue: "drr_queue drr = k # ks"
  shows "\<exists>q drr' alloc' W'. ld_rbuffer_pop (drr_active drr) = Some (q, Some k, LD_OK) \<and>
           drr_round pkt_size W_min drr alloc_map W q k = Some (drr', alloc', W') \<and>
           drr_loop_inv R n drr' alloc' \<and> W' < W \<and> sum_list alloc' + W' = sum_list alloc_map + W"
proof -
  let ?r = "drr_ents drr ! k"
  from inv queue have d: "drr_inv drr" and k: "k < n" "dr_SAC ?r = k" "dr_req_sz ?r > 0"
    and n: "drr_max_sz drr = n" "length alloc_map = n" "length (drr_ents drr) = n"
    and ks: "distinct ks" "k \<notin> set ks"
    and szs: "drr_req_szs drr ! k = R k" and R: "alloc_map ! k + dr_req_sz ?r = R k"
    by (auto simp: drr_loop_inv_def drr_inv_def)
  obtain q where q: "ld_rbuffer_pop (drr_active drr) = Some (q, Some k, LD_OK)" "rb_inv q"
    "rb_size q = n" "rb_list q = ks"
    using rb.pop_ok [of "drr_active drr" k ks] d n queue by (auto simp: drr_inv_def)
  obtain W' DC req al frag where
    serve: "drr_serve (Suc (dr_req_sz ?r)) pkt_size W_min W (dr_DC ?r + pkt_size) (dr_req_sz ?r)
              (alloc_map ! k) False = Some (W', DC, req, al, frag)"
    and sums: "al + req = alloc_map ! k + dr_req_sz ?r" "al + W' = alloc_map ! k + W"
    using drr_serve_total [OF pkt, of "dr_req_sz ?r" "Suc (dr_req_sz ?r)" W_min W
        "dr_DC ?r + pkt_size" "alloc_map ! k" False] by auto
  have less: "W' < W"
    using drr_serve_progress [OF pkt _ k(3) W _ serve] by simp
  have total: "sum_list (alloc_map[k := al]) + W' = sum_list alloc_map + W"
    using sums(2) k(1) n(2) elem_le_sum_list [of k alloc_map]
    by (simp add: sum_list_update_nat)
  have done_iff: "al = drr_req_szs drr ! k \<longleftrightarrow> req = 0"
    using sums(1) R szs by auto
  show ?thesis
  proof (cases "req = 0")
    case True
    then have "drr_round pkt_size W_min drr alloc_map W q k =
        Some (drr\<lparr>drr_active := q, drr_ents := (drr_ents drr)[k := ?r\<lparr>dr_DC := 0, dr_req_sz := req\<rparr>]\<rparr>,
              alloc_map[k := al], W')"
      using serve done_iff k(2) by (simp add: drr_round_def)
    moreover have "drr_loop_inv R n
        (drr\<lparr>drr_active := q, drr_ents := (drr_ents drr)[k := ?r\<lparr>dr_DC := 0, dr_req_sz := req\<rparr>]\<rparr>)
        (alloc_map[k := al])"
      using True inv q ks queue k n sums(1) R
      by (auto simp: drr_loop_inv_def drr_inv_def nth_list_update)
    ultimately show ?thesis using q(1) less total by blast
  next
    case False
    have "length (rb_list q) < rb_size q"
      using q(3,4) rb_size_bound [of "drr_active drr"] d n queue by (simp add: drr_inv_def)
    then obtain q' e where q': "(if frag then ld_rbuffer_push_front q k else ld_rbuffer_push_back q k)
        = Some (q', e)" "rb_inv q'" "rb_size q' = n" "set (rb_list q') = insert k (set ks)"
      "distinct (rb_list q')"
      using rb.push_front_ok [OF q(2), of k] rb.push_back_ok [OF q(2), of k] q(3,4) ks
      by (cases frag) auto
    then have "drr_round pkt_size W_min drr alloc_map W q k =
        Some (drr\<lparr>drr_active := q', drr_ents := (drr_ents drr)[k := ?r\<lparr>dr_DC := DC, dr_req_sz := req\<rparr>]\<rparr>,
              alloc_map[k := al], W')"
      using serve done_iff k(2) False by (auto simp: drr_round_def split: if_splits)
    moreover have "drr_loop_inv R n
        (drr\<lparr>drr_active := q', drr_ents := (drr_ents drr)[k := ?r\<lparr>dr_DC := DC, dr_req_sz := req\<rparr>]\<rparr>)
        (alloc_map[k := al])"
      using False inv q' ks queue k n sums(1) R szs
      by (auto simp: drr_loop_inv_def drr_inv_def nth_list_update)
    ultimately show ?thesis using q(1) less total by blast
  qed
qed

lemma drr_loop_spec:
  assumes "drr_loop_inv R n drr alloc_map" "pkt_size > 0" "W < fuel"
  shows "\<exists>drr' alloc' W'. drr_loop fuel pkt_size W_min drr alloc_map W = Some (drr', alloc', W') \<and>
           drr_loop_inv R n drr' alloc' \<and> sum_list alloc' + W' = sum_list alloc_map + W \<and>
           (W' \<le> W_min \<or> drr_queue drr' = [])"
  using assms
proof (induction fuel arbitrary: drr alloc_map W)
  case (Suc fuel)
  show ?case
  proof (cases "W > W_min")
    case False
    with Suc.prems show ?thesis by auto
  next
    case True
    show ?thesis
    proof (cases "drr_queue drr")
      case Nil
      then have "ld_rbuffer_pop (drr_active drr) = Some (drr_active drr, None, LD_ERR_INTERNAL)"
        using Suc.prems(1) rb_pop_empty by (auto simp: drr_loop_inv_def drr_inv_def)
      with True Nil Suc.prems show ?thesis by auto
    next
      case (Cons k ks)
      obtain q drr' alloc' W' where
        r: "ld_rbuffer_pop (drr_active drr) = Some (q, Some k, LD_OK)"
        "drr_round pkt_size W_min drr alloc_map W q k = Some (drr', alloc', W')"
        "drr_loop_inv R n drr' alloc'" "W' < W" "sum_list alloc' + W' = sum_list alloc_map + W"
        using drr_round_spec [OF Suc.prems(1,2) True Cons] by blast
      with Suc.IH [OF r(3) Suc.prems(2), of W'] Suc.prems(3) True show ?thesis by auto
    qed
  qed
qed simp


section \<open>The whole allocation\<close>

definition drr_total :: "ld_drr_t \<Rightarrow> nat" where
  "drr_total drr = (\<Sum>i < drr_max_sz drr. drr_req drr i)"

lemma drr_alloc_spec:
  assumes "drr_inv drr" "pkt_size > 0"
  shows "\<exists>drr' alloc W'. drr_resource_alloc drr pkt_size W W_min = Some (drr', alloc) \<and>
           drr_loop_inv (drr_req drr) (drr_max_sz drr) drr' alloc \<and>
           sum_list alloc + W' = min W (drr_total drr) \<and> (W' \<le> W_min \<or> drr_queue drr' = [])"
proof -
  let ?n = "drr_max_sz drr"
  have sum: "(\<Sum>i \<leftarrow> [0..<?n]. drr_req drr i) = drr_total drr"
    by (simp add: drr_total_def sum_list_distinct_conv_sum_set lessThan_atLeast0)
  obtain drr1 where c: "drr_collect [0..<?n] drr 0 = Some (drr1, drr_total drr)" "drr_inv drr1"
    "drr_max_sz drr1 = ?n" "\<forall>i < ?n. drr_req drr1 i = drr_req drr i"
    "set (drr_queue drr1) = set (drr_queue drr) \<union> {i \<in> set [0..<?n]. drr_req drr i > 0}"
    "\<forall>i < ?n. drr_req_szs drr1 ! i =
       (if i \<in> set [0..<?n] \<and> drr_req drr i > 0 then drr_req drr i else drr_req_szs drr ! i)"
    using drr_collect_spec [OF assms(1), of "[0..<?n]" 0] sum by auto
  let ?W1 = "if drr_total drr < W then drr_total drr else W"
  have inv: "drr_loop_inv (drr_req drr) ?n drr1 (replicate ?n 0)"
    using c(2-6) by (auto simp: drr_loop_inv_def)
  obtain drr2 alloc W' where l: "drr_loop (Suc ?W1) pkt_size W_min drr1 (replicate ?n 0) ?W1
      = Some (drr2, alloc, W')"
    "drr_loop_inv (drr_req drr) ?n drr2 alloc" "sum_list alloc + W' = ?W1"
    "W' \<le> W_min \<or> drr_queue drr2 = []"
    using drr_loop_spec [OF inv assms(2), of ?W1 "Suc ?W1" W_min] by (auto simp: sum_list_replicate)
  have "?W1 = min W (drr_total drr)" by (simp add: min_def)
  with c(1) l show ?thesis
    by (intro exI [of _ drr2] exI [of _ alloc] exI [of _ W'])
       (simp add: drr_resource_alloc_def Let_def del: drr_loop.simps)
qed

lemma drr_loop_inv_sum:
  assumes "drr_loop_inv R n drr alloc" "drr_queue drr = []"
  shows "\<forall>i < n. alloc ! i = R i \<and> drr_req drr i = 0" "sum_list alloc = (\<Sum>i < n. R i)"
proof -
  show all: "\<forall>i < n. alloc ! i = R i \<and> drr_req drr i = 0"
    using assms by (fastforce simp: drr_loop_inv_def)
  have "length alloc = n" using assms by (simp add: drr_loop_inv_def)
  with all show "sum_list alloc = (\<Sum>i < n. R i)"
    by (simp add: sum_list_sum_nth lessThan_atLeast0)
qed


text \<open>A concrete scheduler for the witnesses: two users, the second one asks for 25 bytes.\<close>

definition drr_example :: ld_drr_t where
  "drr_example = the (ld_req_update (init_ld_drr 2) 1 25)"

lemma drr_example_facts:
  "drr_inv drr_example" "drr_max_sz drr_example = 2" "drr_req drr_example 1 = 25"
  "drr_total drr_example = 25"
proof -
  show "drr_inv drr_example"
    using drr_inv_update [OF drr_inv_init, of 2 1 25] by (auto simp: drr_example_def init_ld_drr_def)
qed (simp_all add: drr_example_def drr_total_def ld_req_update_def init_ld_drr_def lessThan_Suc
    numeral_2_eq_2)


section \<open>Properties\<close>

text \<open>
  Property C1: with a positive packet size the allocation always returns. Every byte granted
  to a user comes off that user's request, the grants stay within both the resource \<open>W\<close> and
  the sum of the requests, and the scheduler's invariant holds again afterwards.
\<close>

theorem drr_alloc_conserves:
  assumes "drr_inv drr" "pkt_size > 0"
  shows "\<exists>drr' alloc. drr_resource_alloc drr pkt_size W W_min = Some (drr', alloc) \<and>
           drr_inv drr' \<and> length alloc = drr_max_sz drr \<and>
           (\<forall>i < drr_max_sz drr. alloc ! i + drr_req drr' i = drr_req drr i) \<and>
           sum_list alloc \<le> W \<and> sum_list alloc \<le> drr_total drr"
  using drr_alloc_spec [OF assms, of W W_min] by (fastforce simp: drr_loop_inv_def)

theorem drr_alloc_conserves_witness:
  "\<exists>drr' alloc. drr_resource_alloc drr_example 10 20 0 = Some (drr', alloc) \<and>
     drr_inv drr' \<and> alloc ! 1 + drr_req drr' 1 = 25 \<and> sum_list alloc \<le> 20"
proof -
  have "0 < (10::nat)" by simp
  from drr_alloc_conserves [OF drr_example_facts(1) this, of 20 0] drr_example_facts(2,3)
  show ?thesis by force
qed



text \<open>
  Property C24: when the resource covers all requests and there is no threshold, every user
  gets exactly what it asked for and the ring of active users is empty afterwards.
\<close>

theorem drr_underload_serves_all:
  assumes "drr_inv drr" "pkt_size > 0" "drr_total drr \<le> W"
  shows "\<exists>drr' alloc. drr_resource_alloc drr pkt_size W 0 = Some (drr', alloc) \<and>
           (\<forall>i < drr_max_sz drr. alloc ! i = drr_req drr i \<and> drr_req drr' i = 0) \<and>
           drr_queue drr' = []"
proof -
  obtain drr' alloc W' where l: "drr_resource_alloc drr pkt_size W 0 = Some (drr', alloc)"
    "drr_loop_inv (drr_req drr) (drr_max_sz drr) drr' alloc"
    "sum_list alloc + W' = drr_total drr" "W' = 0 \<or> drr_queue drr' = []"
    using drr_alloc_spec [OF assms(1,2), of W 0] assms(3) by (auto simp: min_absorb2)
  have "drr_queue drr' = []"
  proof (rule ccontr)
    assume "drr_queue drr' \<noteq> []"
    then obtain k where k: "k \<in> set (drr_queue drr')" by (cases "drr_queue drr'") auto
    with l(2) have "k < drr_max_sz drr" "alloc ! k < drr_req drr k"
      by (auto simp: drr_loop_inv_def drr_inv_def)
        (metis less_add_same_cancel1)
    moreover have "\<forall>i < drr_max_sz drr. alloc ! i \<le> drr_req drr i"
      using l(2) by (metis drr_loop_inv_def le_add1)
    ultimately have "(\<Sum>i < drr_max_sz drr. alloc ! i) < drr_total drr"
      unfolding drr_total_def by (intro sum_strict_mono_ex1) auto
    moreover have "sum_list alloc = (\<Sum>i < drr_max_sz drr. alloc ! i)"
      using l(2) by (simp add: sum_list_sum_nth lessThan_atLeast0 drr_loop_inv_def)
    ultimately show False using l(3,4) \<open>drr_queue drr' \<noteq> []\<close> by simp
  qed
  with drr_loop_inv_sum(1) [OF l(2)] l(1) show ?thesis by blast
qed

theorem drr_underload_serves_all_witness:
  "\<exists>drr' alloc. drr_resource_alloc drr_example 10 40 0 = Some (drr', alloc) \<and>
     alloc ! 1 = 25 \<and> drr_req drr' 1 = 0"
proof -
  have "0 < (10::nat)" "drr_total drr_example \<le> 40" using drr_example_facts(4) by simp_all
  from drr_underload_serves_all [OF drr_example_facts(1) this] drr_example_facts(2,3)
  show ?thesis by force
qed

end
