(* ===== verification/Bitset.thy ===== *)
theory Bitset
  imports Prelude
begin

text \<open>
  The resource bitset of src/src/ld_bitset.c: one bit per resource, packed in bytes, used to
  hand out slots of a resource array, and the byte-array shift \<open>bit_rightshift\<close>.

  The loop counters of the file are C ints compared with a \<open>size_t\<close>; the well-formedness
  predicate therefore keeps \<open>res_num\<close> below \<open>2 ^ 31\<close>, and the counters are natural numbers.
  Reading a byte outside the bitset is the result \<open>None\<close>.
\<close>

section \<open>State and operations\<close>

record ld_bitset_t =
  bs_res_num :: nat
  bs_res_sz :: nat
  bs_bitset :: "u8 list"
  bs_resources :: "addr option"

definition bitset_size :: "nat \<Rightarrow> nat" where
  "bitset_size sz = sz div 8 + (if 0 < sz mod 8 then 1 else 0)"

text \<open>
  \<open>init_func\<close> is the caller's callback; it allocates the resource array. \<open>garbage\<close> is the
  value malloc leaves in the \<open>resources\<close> field, which init_bitset does not set.
\<close>

definition init_bitset ::
  "nat \<Rightarrow> nat \<Rightarrow> (ld_bitset_t \<Rightarrow> ld_bitset_t \<times> l_err) option \<Rightarrow> addr option \<Rightarrow> ld_bitset_t option" where
  "init_bitset res_num res_sz init_func garbage =
     (let b = \<lparr> bs_res_num = res_num, bs_res_sz = res_sz,
                bs_bitset = replicate (bitset_size res_num) 0, bs_resources = garbage \<rparr>
      in case init_func of
           None \<Rightarrow> Some b
         | Some f \<Rightarrow> (case f b of (b', e) \<Rightarrow> if e \<noteq> LD_OK then None else Some b'))"

text \<open>The expression \<open>set->bitset[i / 8] & (1 << (i % 8))\<close>.\<close>

definition bs_masked :: "ld_bitset_t \<Rightarrow> nat \<Rightarrow> u8 option" where
  "bs_masked s i =
     (if i div 8 < length (bs_bitset s)
      then Some ((bs_bitset s ! (i div 8)) AND push_bit (i mod 8) 1) else None)"

definition bs_record_by_index :: "ld_bitset_t \<Rightarrow> u64 \<Rightarrow> (ld_bitset_t \<times> l_err) option" where
  "bs_record_by_index s i =
     (let k = unat (i div 8) in
      if k < length (bs_bitset s)
      then Some (s\<lparr> bs_bitset := (bs_bitset s)[k := (bs_bitset s ! k) OR push_bit (unat (i mod 8)) 1] \<rparr>,
                 LD_OK)
      else None)"

text \<open>The search loops: the first index from \<open>i\<close> whose masked byte satisfies \<open>p\<close>.\<close>

function bs_search :: "(u8 \<Rightarrow> bool) \<Rightarrow> ld_bitset_t \<Rightarrow> nat \<Rightarrow> nat option option" where
  "bs_search p s i =
     (if i < bs_res_num s
      then do { b \<leftarrow> bs_masked s i; if p b then Some (Some i) else bs_search p s (Suc i) }
      else Some None)"
  by pat_completeness auto
termination
  by (relation "measure (\<lambda>(p, s, i). bs_res_num s - i)") auto

declare bs_search.simps [simp del]

definition bs_alloc_resource :: "ld_bitset_t \<Rightarrow> (ld_bitset_t \<times> addr option \<times> l_err) option" where
  "bs_alloc_resource s =
     (case bs_resources s of
        None \<Rightarrow> Some (s, None, LD_ERR_NULL)
      | Some base \<Rightarrow> do {
          r \<leftarrow> bs_search (\<lambda>b. b = 0) s 0;
          case r of
            None \<Rightarrow> Some (s, None, LD_ERR_INVALID)
          | Some i \<Rightarrow>
              Some (s\<lparr> bs_bitset := (bs_bitset s)[i div 8 := (bs_bitset s ! (i div 8)) OR push_bit (i mod 8) 1] \<rparr>,
                    Some (base + i * bs_res_sz s), LD_OK) })"

definition bs_free_resource :: "ld_bitset_t \<Rightarrow> u8 \<Rightarrow> ld_bitset_t option" where
  "bs_free_resource s index =
     (let i = unat index in
      if i < bs_res_num s
      then (if i div 8 < length (bs_bitset s)
            then Some (s\<lparr> bs_bitset := (bs_bitset s)[i div 8 :=
                             (bs_bitset s ! (i div 8)) AND NOT (push_bit (i mod 8) 1)] \<rparr>)
            else None)
      else Some s)"

definition bs_judge_resource :: "ld_bitset_t \<Rightarrow> u8 \<Rightarrow> bool option" where
  "bs_judge_resource s index =
     do { b \<leftarrow> bs_masked s (unat index); Some (0 < b) }"

definition bs_all_empty :: "ld_bitset_t \<Rightarrow> bool option" where
  "bs_all_empty s =
     do { r \<leftarrow> bs_search (\<lambda>b. b = 1) s 0; Some (r = None) }"

text \<open>The two loops that visit every index and keep a running result.\<close>

function bs_walk :: "(nat \<Rightarrow> int \<Rightarrow> int) \<Rightarrow> ld_bitset_t \<Rightarrow> nat \<Rightarrow> int \<Rightarrow> int option" where
  "bs_walk f s i acc =
     (if i < bs_res_num s
      then do { b \<leftarrow> bs_masked s i; bs_walk f s (Suc i) (if b \<noteq> 0 then f i acc else acc) }
      else Some acc)"
  by pat_completeness auto
termination
  by (relation "measure (\<lambda>(f, s, i, acc). bs_res_num s - i)") auto

declare bs_walk.simps [simp del]

definition bs_get_alloced :: "ld_bitset_t \<Rightarrow> int option" where
  "bs_get_alloced s = bs_walk (\<lambda>i ret. ret + 1) s 0 0"

definition bs_get_highest :: "ld_bitset_t \<Rightarrow> int option" where
  "bs_get_highest s = bs_walk (\<lambda>i highest. int i) s 0 0"

definition bs_get_lowest :: "ld_bitset_t \<Rightarrow> int option" where
  "bs_get_lowest s =
     do { r \<leftarrow> bs_search (\<lambda>b. b \<noteq> 0) s 0; Some (case r of None \<Rightarrow> - 1 | Some i \<Rightarrow> int i) }"

definition bs_get_lowest_unalloced :: "ld_bitset_t \<Rightarrow> int option" where
  "bs_get_lowest_unalloced s =
     do { r \<leftarrow> bs_search (\<lambda>b. b = 0) s 0; Some (case r of None \<Rightarrow> - 1 | Some i \<Rightarrow> int i) }"

subsection \<open>Shifting a byte array\<close>

definition switch_endian :: "u8 list option \<Rightarrow> nat \<Rightarrow> u8 list option \<Rightarrow> u8 list option option" where
  "switch_endian src src_len dst =
     (case (src, dst) of
        (Some s, Some d) \<Rightarrow> do {
          s' \<leftarrow> mem_read s 0 src_len;
          d' \<leftarrow> mem_write d 0 (rev s');
          Some (Some d') }
      | _ \<Rightarrow> Some dst)"

text \<open>One pass of the inner loop: every byte shifts by one, the carry goes to the next index.\<close>

fun rightshift_pass :: "u8 list \<Rightarrow> u8 \<Rightarrow> u8 list" where
  "rightshift_pass [] to_add = []"
| "rightshift_pass (b # bs) to_add =
     (drop_bit 1 b + to_add) # rightshift_pass bs (push_bit 7 b AND 0x80)"

fun rightshift_loop :: "nat \<Rightarrow> u8 list \<Rightarrow> u8 list" where
  "rightshift_loop 0 bs = bs"
| "rightshift_loop (Suc n) bs = rightshift_loop n (rightshift_pass bs 0)"

text \<open>
  \<open>ok\<close> says whether calloc succeeds; the loop would then write through NULL, as the source
  does not look at the result.
\<close>

definition bit_rightshift ::
  "bool \<Rightarrow> u8 list option \<Rightarrow> nat \<Rightarrow> u8 list option \<Rightarrow> nat \<Rightarrow> (u8 list option \<times> l_err) option" where
  "bit_rightshift ok src src_len dst to_shift =
     (case (src, dst) of
        (Some s, Some d) \<Rightarrow>
          (if src_len = 0 then Some (dst, LD_ERR_INTERNAL)
           else if to_shift = 0 then do {
             s' \<leftarrow> mem_read s 0 src_len; d' \<leftarrow> mem_write d 0 s'; Some (Some d', LD_OK) }
           else do {
             small \<leftarrow> switch_endian src src_len (if ok then Some (replicate src_len 0) else None);
             small_endian \<leftarrow> small;
             d' \<leftarrow> switch_endian (Some (rightshift_loop to_shift small_endian)) src_len dst;
             Some (d', LD_OK) })
      | _ \<Rightarrow> Some (dst, LD_ERR_INTERNAL))"


section \<open>Well-formedness and the set of allocated indices\<close>

definition bs_wf :: "ld_bitset_t \<Rightarrow> bool" where
  "bs_wf s \<longleftrightarrow> length (bs_bitset s) = bitset_size (bs_res_num s) \<and> bs_res_num s < 2 ^ 31"

definition bs_bit :: "ld_bitset_t \<Rightarrow> nat \<Rightarrow> bool" where
  "bs_bit s i \<longleftrightarrow> bit (bs_bitset s ! (i div 8)) (i mod 8)"

definition bs_alloced :: "ld_bitset_t \<Rightarrow> nat set" where
  "bs_alloced s = {i. i < bs_res_num s \<and> bs_bit s i}"

lemma bitset_size_covers: "i < n \<Longrightarrow> i div 8 < bitset_size n"
  unfolding bitset_size_def by (cases "n mod 8 = 0") (auto; presburger)+

lemma mask_zero_iff: "k < 8 \<Longrightarrow> (b::u8) AND 2 ^ k = 0 \<longleftrightarrow> \<not> bit b k"
  using bit_eq_iff [of "b AND 2 ^ k" 0] by (auto simp: bit_simps)

lemma mask_one_iff: "k < 8 \<Longrightarrow> (b::u8) AND 2 ^ k = 1 \<longleftrightarrow> k = 0 \<and> bit b 0"
  using bit_eq_iff [of "b AND 2 ^ k" 1] by (auto simp: bit_simps dest!: spec [of _ 0])

lemma bs_masked_wf:
  assumes "bs_wf s" "i < bs_res_num s"
  obtains b where "bs_masked s i = Some b" "b = 0 \<longleftrightarrow> \<not> bs_bit s i"
    "b = 1 \<longleftrightarrow> i mod 8 = 0 \<and> bs_bit s i"
proof -
  have "bs_masked s i = Some ((bs_bitset s ! (i div 8)) AND 2 ^ (i mod 8))"
    using assms bitset_size_covers [of i "bs_res_num s"] by (simp add: bs_masked_def bs_wf_def)
  then show ?thesis
    by (rule that) (auto simp: bs_bit_def mask_zero_iff mask_one_iff)
qed

lemma bs_search_first:
  assumes "bs_wf s"
    and "\<And>j b. j < bs_res_num s \<Longrightarrow> bs_masked s j = Some b \<Longrightarrow> p b \<longleftrightarrow> q j"
  shows "bs_search p s i = Some (first_from q i (bs_res_num s))"
  using assms
proof (induction p s i rule: bs_search.induct)
  case (1 p s i)
  show ?case
  proof (cases "i < bs_res_num s")
    case True
    obtain b where b: "bs_masked s i = Some b"
      using bs_masked_wf [OF 1(2) True] by metis
    show ?thesis
      using 1(1) [OF True] b 1(2,3) True
      by (subst bs_search.simps, subst first_from.simps) auto
  next
    case False
    then show ?thesis by (subst bs_search.simps, subst first_from.simps) auto
  qed
qed

lemma bs_search_free: "bs_wf s \<Longrightarrow>
  bs_search (\<lambda>b. b = 0) s 0 = Some (first_from (\<lambda>j. \<not> bs_bit s j) 0 (bs_res_num s))"
  by (rule bs_search_first, assumption) (metis bs_masked_wf option.inject)

lemma bs_search_used: "bs_wf s \<Longrightarrow>
  bs_search (\<lambda>b. b \<noteq> 0) s 0 = Some (first_from (bs_bit s) 0 (bs_res_num s))"
  by (rule bs_search_first, assumption) (metis bs_masked_wf option.inject)

lemma bs_search_one: "bs_wf s \<Longrightarrow>
  bs_search (\<lambda>b. b = 1) s 0 = Some (first_from (\<lambda>j. j mod 8 = 0 \<and> bs_bit s j) 0 (bs_res_num s))"
  by (rule bs_search_first, assumption) (metis bs_masked_wf option.inject)

lemma bs_bit_set:
  assumes "i div 8 < length (bs_bitset s)"
  shows "bs_bit (s\<lparr>bs_bitset := (bs_bitset s)[i div 8 := (bs_bitset s ! (i div 8)) OR push_bit (i mod 8) 1]\<rparr>) j
     \<longleftrightarrow> bs_bit s j \<or> j = i"
  using assms
  by (cases "j div 8 = i div 8"; cases "j mod 8 = i mod 8")
     (auto simp: bs_bit_def bit_simps nth_list_update, metis div_mult_mod_eq)

lemma bs_bit_clear:
  assumes "i div 8 < length (bs_bitset s)"
  shows "bs_bit (s\<lparr>bs_bitset := (bs_bitset s)[i div 8 := (bs_bitset s ! (i div 8)) AND NOT (push_bit (i mod 8) 1)]\<rparr>) j
     \<longleftrightarrow> bs_bit s j \<and> j \<noteq> i"
  using assms
  by (cases "j div 8 = i div 8"; cases "j mod 8 = i mod 8")
     (auto simp: bs_bit_def bit_simps nth_list_update, metis div_mult_mod_eq)


lemma le_bitset_wf [simp]: "bs_wf (s\<lparr>bs_bitset := (bs_bitset s)[k := b]\<rparr>) = bs_wf s"
  by (simp add: bs_wf_def)

lemma bs_walk_fold:
  assumes "bs_wf s" "i \<le> bs_res_num s"
  shows "bs_walk f s i acc =
    Some (fold (\<lambda>j a. if bs_bit s j then f j a else a) [i..<bs_res_num s] acc)"
  using assms
proof (induction f s i acc rule: bs_walk.induct)
  case (1 f s i acc)
  show ?case
  proof (cases "i < bs_res_num s")
    case True
    obtain b where b: "bs_masked s i = Some b" "b = 0 \<longleftrightarrow> \<not> bs_bit s i"
      using bs_masked_wf [OF 1(2) True] by metis
    show ?thesis
      using 1(1) [OF True] b 1(2) True
      by (subst bs_walk.simps) (simp add: upt_conv_Cons)
  next
    case False
    with 1(3) show ?thesis by (subst bs_walk.simps) simp
  qed
qed

lemma fold_count:
  "fold (\<lambda>j a. if P j then a + 1 else a) xs (a::int) = a + int (length (filter P xs))"
  by (induction xs arbitrary: a) auto

lemma fold_last:
  "fold (\<lambda>j a. if P j then int j else a) xs a =
     (if filter P xs = [] then a else int (last (filter P xs)))"
  by (induction xs arbitrary: a) auto

lemma bs_alloced_filter: "bs_alloced s = set (filter (bs_bit s) [0..<bs_res_num s])"
  by (auto simp: bs_alloced_def)

lemma finite_bs_alloced [simp]: "finite (bs_alloced s)"
  by (simp add: bs_alloced_def)

lemma last_filter_Max:
  assumes "filter P [0..<n] \<noteq> []"
  shows "last (filter P [0..<n]) = Max (set (filter P [0..<n]))"
proof -
  have "sorted (filter P [0..<n])" by (simp add: sorted_wrt_filter)
  with assms show ?thesis
    by (intro Max_eqI [symmetric])
       (auto simp del: set_filter last_in_set simp: sorted_iff_nth_mono in_set_conv_nth last_conv_nth,
        metis diff_Suc_less length_greater_0_conv)
qed

section \<open>Big-endian value of the bytes the shift works on\<close>

fun be_val :: "u8 list \<Rightarrow> nat" where
  "be_val [] = 0"
| "be_val (b # bs) = unat b * 256 ^ length bs + be_val bs"

text \<open>The little-endian value of the caller's array: index 0 is the least significant byte.\<close>

definition le_val :: "u8 list \<Rightarrow> nat" where
  "le_val bs = be_val (rev bs)"

lemma length_rightshift_pass [simp]: "length (rightshift_pass bs a) = length bs"
  by (induction bs arbitrary: a) auto

lemma length_rightshift_loop [simp]: "length (rightshift_loop n bs) = length bs"
  by (induction n arbitrary: bs) auto

lemma carry_byte: "push_bit 7 (b::u8) AND 0x80 = (if odd (unat b) then 0x80 else 0)"
proof -
  have "odd (unat b) \<longleftrightarrow> bit b 0" by (rule odd_unat_iff)
  moreover have "push_bit 7 b AND 0x80 = (if bit b 0 then 0x80 else 0)"
  proof (rule bit_word_eqI)
    fix n assume "n < LENGTH(8)"
    have "(0x80 :: u8) = 2 ^ 7" by simp
    then show "bit (push_bit 7 b AND 0x80) n = bit (if bit b 0 then 0x80 else (0::u8)) n"
      by (auto simp: bit_simps \<open>(0x80 :: u8) = 2 ^ 7\<close> simp del: power_numeral)
  qed
  ultimately show ?thesis by simp
qed

lemma shifted_byte:
  assumes "a = 0 \<or> a = (0x80::u8)"
  shows "unat (drop_bit 1 b + a) = unat b div 2 + unat a"
proof -
  have h: "unat (drop_bit 1 b) = unat b div 2" by (simp add: drop_bit_eq_div unat_div)
  have "unat b div 2 < 128" using unat_u8_less [of b] by linarith
  then have "unat (drop_bit 1 b) + unat a < 2 ^ LENGTH(8)" unfolding h using assms by auto
  then show ?thesis using unat_add_lem [of "drop_bit 1 b" a] by (simp only: h)
qed

lemma be_val_pass:
  assumes "a = 0 \<or> a = (0x80::u8)"
  shows "be_val (rightshift_pass bs a) = (unat a div 128 * 256 ^ length bs + be_val bs) div 2"
  using assms
proof (induction bs arbitrary: a)
  case (Cons b bs)
  let ?N = "256 ^ length bs :: nat" and ?c = "if odd (unat b) then 0x80 else 0 :: u8"
  have "be_val (rightshift_pass (b # bs) a) =
      (unat b div 2 + unat a) * ?N + (unat ?c div 128 * ?N + be_val bs) div 2"
    using Cons.prems Cons.IH [of ?c] by (simp add: carry_byte shifted_byte [simplified])
  also have "unat ?c div 128 = unat b mod 2" by (simp add: odd_iff_mod_2_eq_one)
  also have "(unat b div 2 + unat a) * ?N + (unat b mod 2 * ?N + be_val bs) div 2 =
      (2 * ((unat b div 2 + unat a) * ?N) + (unat b mod 2 * ?N + be_val bs)) div 2"
    by simp
  also have "2 * ((unat b div 2 + unat a) * ?N) + (unat b mod 2 * ?N + be_val bs) =
      (2 * (unat b div 2) + unat b mod 2 + 2 * unat a) * ?N + be_val bs"
    by (simp only: distrib_right distrib_left mult.assoc add.assoc add.left_commute add.commute)
  also have "2 * (unat b div 2) + unat b mod 2 = unat b" by simp
  also have "unat a = 128 * (unat a div 128)" using Cons.prems by auto
  also have "(unat b + 2 * (128 * (unat a div 128))) * ?N + be_val bs = unat a div 128 * 256 ^ length (b # bs) + be_val (b # bs)"
    by (simp add: algebra_simps)
  finally show ?case .
next
  case Nil
  then show ?case by auto
qed

lemma be_val_loop: "be_val (rightshift_loop n bs) = be_val bs div 2 ^ n"
proof (induction n arbitrary: bs)
  case (Suc n)
  then show ?case using be_val_pass [of 0 bs] by (simp add: div_mult2_eq)
qed simp


section \<open>What each operation does\<close>

lemma bs_alloc_slot:
  assumes "bs_wf s" "bs_resources s = Some base" "bs_alloced s \<noteq> {0..<bs_res_num s}"
  shows "\<exists>i s'. bs_alloc_resource s = Some (s', Some (base + i * bs_res_sz s), LD_OK)
     \<and> i < bs_res_num s \<and> i \<notin> bs_alloced s \<and> {0..<i} \<subseteq> bs_alloced s
     \<and> bs_wf s' \<and> bs_alloced s' = insert i (bs_alloced s)"
proof -
  have "first_from (\<lambda>j. \<not> bs_bit s j) 0 (bs_res_num s) \<noteq> None"
    using assms(3) by (auto simp: first_from_None_iff bs_alloced_def)
  then obtain i where i: "first_from (\<lambda>j. \<not> bs_bit s j) 0 (bs_res_num s) = Some i" by auto
  then have n: "i < bs_res_num s" "i \<notin> bs_alloced s" "{0..<i} \<subseteq> bs_alloced s"
    by (auto simp: first_from_Some_iff bs_alloced_def)
  moreover have "i div 8 < length (bs_bitset s)"
    using \<open>bs_wf s\<close> n(1) bitset_size_covers by (simp add: bs_wf_def)
  ultimately show ?thesis
    using assms i bs_bit_set [of i s]
    by (intro exI [of _ i]) (auto simp: bs_alloc_resource_def bs_search_free bs_alloced_def)
qed

lemma bs_alloc_full:
  assumes "bs_wf s" "bs_resources s = Some base" "bs_alloced s = {0..<bs_res_num s}"
  shows "bs_alloc_resource s = Some (s, None, LD_ERR_INVALID)"
proof -
  have "first_from (\<lambda>j. \<not> bs_bit s j) 0 (bs_res_num s) = None"
    using assms(3) by (auto simp: first_from_None_iff bs_alloced_def set_eq_iff)
  with assms show ?thesis by (simp add: bs_alloc_resource_def bs_search_free)
qed

lemma bs_free_spec:
  assumes "bs_wf s"
  shows "\<exists>s'. bs_free_resource s k = Some s' \<and> bs_wf s' \<and> bs_alloced s' = bs_alloced s - {unat k}"
  using assms bitset_size_covers [of "unat k" "bs_res_num s"] bs_bit_clear [of "unat k" s]
  by (auto simp: bs_free_resource_def Let_def bs_wf_def bs_alloced_def)

lemma bs_judge_spec:
  assumes "bs_wf s" "unat k < bs_res_num s"
  shows "bs_judge_resource s k = Some (unat k \<in> bs_alloced s)"
proof -
  obtain b where "bs_masked s (unat k) = Some b" "b = 0 \<longleftrightarrow> \<not> bs_bit s (unat k)"
    using bs_masked_wf [OF assms] by metis
  with assms show ?thesis by (auto simp: bs_judge_resource_def bs_alloced_def word_gt_0)
qed

lemma bs_get_alloced_card:
  assumes "bs_wf s" shows "bs_get_alloced s = Some (int (card (bs_alloced s)))"
  using assms
  by (simp add: bs_get_alloced_def bs_walk_fold fold_count bs_alloced_filter del: set_filter)
     (metis distinct_card distinct_filter distinct_upt)

lemma bs_get_highest_Max:
  assumes "bs_wf s"
  shows "bs_get_highest s = Some (if bs_alloced s = {} then 0 else int (Max (bs_alloced s)))"
  using assms last_filter_Max [of "bs_bit s" "bs_res_num s"]
  by (simp add: bs_get_highest_def bs_walk_fold fold_last bs_alloced_filter del: set_filter)

lemma first_from_Min:
  "first_from P 0 n = Some i \<Longrightarrow> Min {j. j < n \<and> P j} = i \<and> {j. j < n \<and> P j} \<noteq> {}"
  by (auto simp: first_from_Some_iff not_less [symmetric] intro!: Min_eqI)

lemma bs_get_lowest_Min:
  assumes "bs_wf s"
  shows "bs_get_lowest s = Some (if bs_alloced s = {} then - 1 else int (Min (bs_alloced s)))"
proof (cases "first_from (bs_bit s) 0 (bs_res_num s)")
  case None
  then have "bs_alloced s = {}" by (auto simp: first_from_None_iff bs_alloced_def)
  with assms None show ?thesis by (simp add: bs_get_lowest_def bs_search_used)
next
  case (Some i)
  with assms first_from_Min [OF Some] show ?thesis
    by (simp add: bs_get_lowest_def bs_search_used bs_alloced_def)
qed

lemma bs_get_lowest_unalloced_Min:
  assumes "bs_wf s"
  shows "bs_get_lowest_unalloced s =
     Some (if bs_alloced s = {0..<bs_res_num s} then - 1
           else int (Min ({0..<bs_res_num s} - bs_alloced s)))"
proof -
  have d: "{0..<bs_res_num s} - bs_alloced s = {j. j < bs_res_num s \<and> \<not> bs_bit s j}"
    and e: "bs_alloced s = {0..<bs_res_num s} \<longleftrightarrow> {j. j < bs_res_num s \<and> \<not> bs_bit s j} = {}"
    by (auto simp: bs_alloced_def set_eq_iff)
  show ?thesis
  proof (cases "first_from (\<lambda>j. \<not> bs_bit s j) 0 (bs_res_num s)")
    case None
    then have "{j. j < bs_res_num s \<and> \<not> bs_bit s j} = {}" by (auto simp: first_from_None_iff)
    with assms None show ?thesis unfolding d e
      by (simp add: bs_get_lowest_unalloced_def bs_search_free)
  next
    case (Some i)
    with assms first_from_Min [OF Some] show ?thesis unfolding d e
      by (simp add: bs_get_lowest_unalloced_def bs_search_free)
  qed
qed

definition bs_example :: ld_bitset_t where
  "bs_example = \<lparr> bs_res_num = 10, bs_res_sz = 4, bs_bitset = [0x05, 0x00], bs_resources = Some 1000 \<rparr>"

lemma bs_example_wf [simp]: "bs_wf bs_example"
  by (simp add: bs_wf_def bs_example_def bitset_size_def)

lemma bs_example_alloced: "bs_alloced bs_example = {0, 2}"
proof -
  have "bs_alloced bs_example = set (filter (bs_bit bs_example) [0..<10])"
    by (simp add: bs_alloced_filter bs_example_def del: upt_rec_numeral)
  also have "\<dots> = {0, 2}" by (simp add: bs_bit_def bs_example_def upt_rec bit_simps) code_simp
  finally show ?thesis .
qed


section \<open>Properties\<close>

text \<open>
  Property C25: on a well-formed bitset with a resource array, \<open>bs_alloc_resource\<close> always
  returns. If an index below \<open>res_num\<close> is free it marks the least free one, hands out the
  address of that slot, and changes no other bit; otherwise it reports \<open>LD_ERR_INVALID\<close> and
  changes nothing. \<open>bs_free_resource\<close> on an 8-bit index removes exactly that index, and
  \<open>bs_judge_resource\<close> tells whether it is allocated.
\<close>

theorem bs_allocator_is_least_free:
  assumes "bs_wf s" "bs_resources s = Some base"
  shows "(if bs_alloced s = {0..<bs_res_num s}
          then bs_alloc_resource s = Some (s, None, LD_ERR_INVALID)
          else \<exists>i s'. bs_alloc_resource s = Some (s', Some (base + i * bs_res_sz s), LD_OK)
                 \<and> i < bs_res_num s \<and> i \<notin> bs_alloced s \<and> {0..<i} \<subseteq> bs_alloced s
                 \<and> bs_wf s' \<and> bs_alloced s' = insert i (bs_alloced s))
    \<and> (\<exists>s'. bs_free_resource s k = Some s' \<and> bs_wf s' \<and> bs_alloced s' = bs_alloced s - {unat k})
    \<and> (unat k < bs_res_num s \<longrightarrow> bs_judge_resource s k = Some (unat k \<in> bs_alloced s))"
proof (intro conjI impI)
  show "if bs_alloced s = {0..<bs_res_num s}
     then bs_alloc_resource s = Some (s, None, LD_ERR_INVALID)
     else \<exists>i s'. bs_alloc_resource s = Some (s', Some (base + i * bs_res_sz s), LD_OK)
            \<and> i < bs_res_num s \<and> i \<notin> bs_alloced s \<and> {0..<i} \<subseteq> bs_alloced s
            \<and> bs_wf s' \<and> bs_alloced s' = insert i (bs_alloced s)"
    using bs_alloc_full [OF assms] bs_alloc_slot [OF assms] by presburger
qed (use assms bs_free_spec bs_judge_spec in simp_all)

theorem bs_allocator_is_least_free_witness:
  "(\<exists>s'. bs_alloc_resource bs_example = Some (s', Some 1004, LD_OK) \<and> bs_alloced s' = {0, 1, 2})
   \<and> bs_judge_resource bs_example 2 = Some True"
proof -
  have r: "bs_resources bs_example = Some 1000" "bs_res_num bs_example = 10" "bs_res_sz bs_example = 4"
    by (simp_all add: bs_example_def)
  have ne: "{0, 2} \<noteq> {0..<10::nat}"
    using atLeastLessThan_iff [of 1 0 "10::nat"] by force
  have one: "i = 1" if "i \<notin> {0, 2}" "{0..<i} \<subseteq> {0, 2}" for i :: nat
    using that subsetD [OF that(2), of 1] by (cases "i \<le> 1") auto
  note f = bs_allocator_is_least_free [OF bs_example_wf r(1), of 2, unfolded bs_example_alloced r if_not_P [OF ne]]
  from f obtain i s' where i: "bs_alloc_resource bs_example = Some (s', Some (1000 + i * 4), LD_OK)"
    "i \<notin> {0, 2}" "{0..<i} \<subseteq> {0, 2}" "bs_alloced s' = insert i {0, 2}" by blast
  from one [OF i(2,3)] i(1,4) f show ?thesis by (simp add: insert_commute)
qed

text \<open>
  On a well-formed bitset the queries return and agree with the set of allocated
  indices: the count is its cardinality, the highest is its maximum (0 when nothing is
  allocated), the lowest its minimum (-1 when nothing is allocated), and the lowest free index
  is the least index outside it (-1 when all are allocated).
\<close>

theorem bs_queries_correct:
  assumes "bs_wf s"
  shows "bs_get_alloced s = Some (int (card (bs_alloced s)))
    \<and> bs_get_highest s = Some (if bs_alloced s = {} then 0 else int (Max (bs_alloced s)))
    \<and> bs_get_lowest s = Some (if bs_alloced s = {} then - 1 else int (Min (bs_alloced s)))
    \<and> bs_get_lowest_unalloced s =
       Some (if bs_alloced s = {0..<bs_res_num s} then - 1
             else int (Min ({0..<bs_res_num s} - bs_alloced s)))"
  using assms bs_get_alloced_card bs_get_highest_Max bs_get_lowest_Min bs_get_lowest_unalloced_Min
  by blast

theorem bs_queries_correct_witness:
  "bs_get_alloced bs_example = Some 2 \<and> bs_get_highest bs_example = Some 2
   \<and> bs_get_lowest bs_example = Some 0"
  using bs_queries_correct [OF bs_example_wf] by (simp add: bs_example_alloced)

text \<open>
  \<open>bs_all_empty\<close> compares the masked byte with 1, so it only notices allocated
  indices that are multiples of eight: it answers true exactly when none of those is
  allocated, whatever the other bits are.
\<close>

theorem bs_all_empty_sees_multiples_of_8:
  assumes "bs_wf s"
  shows "bs_all_empty s = Some (bs_alloced s \<inter> {i. 8 dvd i} = {})"
proof -
  have "first_from (\<lambda>j. j mod 8 = 0 \<and> bs_bit s j) 0 (bs_res_num s) = None \<longleftrightarrow>
      bs_alloced s \<inter> {i. 8 dvd i} = {}"
    by (auto simp: first_from_None_iff bs_alloced_def dvd_eq_mod_eq_0)
  with assms show ?thesis by (simp add: bs_all_empty_def bs_search_one)
qed

theorem bs_all_empty_sees_multiples_of_8_witness:
  "bs_all_empty bs_example = Some False"
  using bs_all_empty_sees_multiples_of_8 [OF bs_example_wf] by (auto simp: bs_example_alloced)

text \<open>
  \<open>bit_rightshift\<close> on arrays of \<open>src_len\<close> bytes writes the little-endian value
  of the source divided by \<open>2 ^ to_shift\<close>: the byte at index 0 is the least significant one.
\<close>

theorem bit_rightshift_divides:
  assumes "length src = n" "length dst = n" "0 < n"
  shows "\<exists>dst'. bit_rightshift True (Some src) n (Some dst) k = Some (Some dst', LD_OK)
     \<and> length dst' = n \<and> le_val dst' = le_val src div 2 ^ k"
proof (cases "k = 0")
  case True
  with assms show ?thesis by (simp add: bit_rightshift_def mem_read_def mem_write_def)
next
  case False
  have "bit_rightshift True (Some src) n (Some dst) k = Some (Some (rev (rightshift_loop k (rev src))), LD_OK)"
    using assms False by (simp add: bit_rightshift_def switch_endian_def mem_read_def mem_write_def)
  then show ?thesis using assms by (simp add: le_val_def be_val_loop)
qed

theorem bit_rightshift_divides_witness:
  "\<exists>d. bit_rightshift True (Some [0x00, 0x03]) 2 (Some [0, 0]) 1 = Some (Some d, LD_OK) \<and> le_val d = 384"
  using bit_rightshift_divides [of "[0x00, 0x03]" 2 "[0, 0]" 1] by (auto simp: le_val_def)

end
