(* ===== verification/Heap_Order.thy ===== *)
theory Heap_Order
  imports Prelude
begin

text \<open>
  The order argument behind the two array heaps of the SDK (src/src/ld_heap.c, whose root is
  index 0, and src/src/ld_pqueue.c, whose root is index 1). A heap shape is a parent function
  below a root index; keys are compared by a total preorder. The lemmas say what one step of
  sifting up or down keeps, and that a heap is restored when sifting stops. Theories Heap and
  Pqueue interpret the locale.
\<close>

definition swap_keys :: "(nat \<Rightarrow> 'k) \<Rightarrow> nat \<Rightarrow> nat \<Rightarrow> nat \<Rightarrow> 'k" where
  "swap_keys k i j = k(i := k j, j := k i)"

locale heap_shape =
  fixes par :: "nat \<Rightarrow> nat"
    and root :: nat
    and le :: "'k \<Rightarrow> 'k \<Rightarrow> bool"
  assumes par_less: "root < i \<Longrightarrow> par i < i"
    and par_root: "root < i \<Longrightarrow> root \<le> par i"
    and le_trans: "le a b \<Longrightarrow> le b c \<Longrightarrow> le a c"
    and le_total: "le a b \<or> le b a"
begin

definition heap_ordered :: "(nat \<Rightarrow> 'k) \<Rightarrow> nat \<Rightarrow> bool" where
  "heap_ordered k n \<longleftrightarrow> (\<forall>j. root < j \<and> j < n \<longrightarrow> le (k (par j)) (k j))"

text \<open>Only the edge above \<open>i\<close> may be violated.\<close>

definition up_ok :: "(nat \<Rightarrow> 'k) \<Rightarrow> nat \<Rightarrow> nat \<Rightarrow> bool" where
  "up_ok k n i \<longleftrightarrow>
     (\<forall>j. root < j \<and> j < n \<and> j \<noteq> i \<longrightarrow> le (k (par j)) (k j)) \<and>
     (root < i \<longrightarrow> (\<forall>j. root < j \<and> j < n \<and> par j = i \<longrightarrow> le (k (par i)) (k j)))"

text \<open>Only the edges below \<open>i\<close> may be violated.\<close>

definition down_ok :: "(nat \<Rightarrow> 'k) \<Rightarrow> nat \<Rightarrow> nat \<Rightarrow> bool" where
  "down_ok k n i \<longleftrightarrow>
     (\<forall>j. root < j \<and> j < n \<and> par j \<noteq> i \<longrightarrow> le (k (par j)) (k j)) \<and>
     (root < i \<longrightarrow> (\<forall>j. root < j \<and> j < n \<and> par j = i \<longrightarrow> le (k (par i)) (k j)))"

lemma le_refl: "le a a"
  using le_total by blast

lemma root_least:
  assumes "heap_ordered k n"
  shows "root \<le> i \<Longrightarrow> i < n \<Longrightarrow> le (k root) (k i)"
proof (induction i rule: less_induct)
  case (less i)
  show ?case
  proof (cases "i = root")
    case True
    then show ?thesis by (simp add: le_refl)
  next
    case False
    with less.prems have "root < i" by simp
    then have "le (k root) (k (par i))" "le (k (par i)) (k i)"
      using less assms par_less [of i] par_root [of i] by (auto simp: heap_ordered_def)
    then show ?thesis by (rule le_trans)
  qed
qed

lemma up_done:
  "up_ok k n i \<Longrightarrow> i \<le> root \<or> le (k (par i)) (k i) \<Longrightarrow> heap_ordered k n"
  unfolding up_ok_def heap_ordered_def by (metis leD)

lemma up_step:
  assumes "up_ok k n i" "root < i" "\<not> le (k (par i)) (k i)"
  shows "up_ok (swap_keys k i (par i)) n (par i)"
proof -
  have lt: "par i < i" "root \<le> par i" using assms(2) par_less par_root by auto
  have le': "le (k i) (k (par i))" using assms(3) le_total by blast
  have step: "le (swap_keys k i (par i) (par j)) (swap_keys k i (par i) j)"
    if j: "root < j" "j < n" "j \<noteq> par i" for j
  proof (cases "j = i")
    case True
    then show ?thesis using le' lt by (simp add: swap_keys_def)
  next
    case False
    then have "le (k (par j)) (k j)" "par j = i \<longrightarrow> le (k (par i)) (k j)"
      using assms j by (auto simp: up_ok_def)
    moreover have "le (k i) (k j)" if "par j = par i"
      using calculation le_trans [OF le'] that by simp
    ultimately show ?thesis using False j(3) by (simp add: swap_keys_def)
  qed
  have "le (swap_keys k i (par i) (par (par i))) (swap_keys k i (par i) j)"
    if j: "root < par i" "root < j" "j < n" "par j = par i" for j
  proof -
    have "par i < n" using par_less [OF j(2)] j(3,4) by simp
    then have up: "le (k (par (par i))) (k (par i))" using assms(1) j(1) lt by (simp add: up_ok_def)
    have p: "par (par i) < par i" using j(1) by (rule par_less)
    have jj: "j \<noteq> par i" using par_less [OF j(2)] j(4) by simp
    show ?thesis
    proof (cases "j = i")
      case True
      then show ?thesis using up p lt by (simp add: swap_keys_def)
    next
      case False
      then have "le (k (par i)) (k j)" using assms(1) j by (auto simp: up_ok_def)
      then show ?thesis using le_trans [OF up] False jj p lt by (simp add: swap_keys_def)
    qed
  qed
  with step show ?thesis unfolding up_ok_def by blast
qed

lemma down_done:
  "down_ok k n i \<Longrightarrow> (\<And>j. root < j \<Longrightarrow> j < n \<Longrightarrow> par j = i \<Longrightarrow> le (k i) (k j)) \<Longrightarrow> heap_ordered k n"
  by (auto simp: down_ok_def heap_ordered_def)

lemma down_step:
  assumes "down_ok k n i" "root < c" "c < n" "par c = i" "\<not> le (k i) (k c)"
    and least: "\<And>j. root < j \<Longrightarrow> j < n \<Longrightarrow> par j = i \<Longrightarrow> le (k c) (k j)"
  shows "down_ok (swap_keys k i c) n c"
proof -
  have lt: "i < c" using assms par_less by blast
  have le': "le (k c) (k i)" using assms(5) le_total by blast
  have "le (swap_keys k i c (par j)) (swap_keys k i c j)"
    if j: "root < j" "j < n" "par j \<noteq> c" for j
  proof -
    consider "par j = i" "j = c" | "par j = i" "j \<noteq> c" | "par j \<noteq> i" "j = i" | "par j \<noteq> i" "j \<noteq> i"
      by blast
    then show ?thesis
    proof cases
      case 2
      with least [OF j(1,2)] lt par_less [OF j(1)] show ?thesis by (auto simp: swap_keys_def)
    next
      case 3
      with assms j show ?thesis by (auto simp: swap_keys_def down_ok_def)
    next
      case 4
      with assms j show ?thesis by (auto simp: swap_keys_def down_ok_def)
    qed (use lt le' in \<open>auto simp: swap_keys_def\<close>)
  qed
  moreover have "le (swap_keys k i c (par c)) (swap_keys k i c j)"
    if j: "root < j" "j < n" "par j = c" for j
    using assms j lt par_less [OF j(1)] by (auto simp: swap_keys_def down_ok_def)
  ultimately show ?thesis by (simp add: down_ok_def)
qed

text \<open>How the two violations arise: a smaller key, a larger key, a new last element.\<close>

lemma decrease_up_ok:
  assumes "heap_ordered k n" "le (k' i) (k i)" "\<And>j. j \<noteq> i \<Longrightarrow> k' j = k j"
  shows "up_ok k' n i"
proof -
  have a: "le (k' (par j)) (k' j)" if "root < j" "j < n" "j \<noteq> i" for j
    using assms that le_trans by (cases "par j = i") (fastforce simp: heap_ordered_def)+
  have "le (k' (par i)) (k' j)" if "root < i" "root < j" "j < n" "par j = i" for j
  proof -
    have "i < j" using that par_less by blast
    moreover have "le (k (par i)) (k i)" "le (k i) (k j)"
      using assms(1) that \<open>i < j\<close> by (auto simp: heap_ordered_def)
    ultimately show ?thesis using assms(3) that par_less le_trans
      by (metis less_irrefl)
  qed
  with a show ?thesis by (simp add: up_ok_def)
qed

lemma increase_down_ok:
  assumes "heap_ordered k n" "le (k i) (k' i)" "\<And>j. j \<noteq> i \<Longrightarrow> k' j = k j"
  shows "down_ok k' n i"
proof -
  have a: "le (k' (par j)) (k' j)" if "root < j" "j < n" "par j \<noteq> i" for j
    using assms that le_trans unfolding heap_ordered_def by metis
  have "le (k' (par i)) (k' j)" if "root < i" "root < j" "j < n" "par j = i" for j
  proof -
    have "i < j" using that par_less by blast
    moreover have "le (k (par i)) (k i)" "le (k i) (k j)"
      using assms(1) that \<open>i < j\<close> by (auto simp: heap_ordered_def)
    ultimately show ?thesis using assms(3) that par_less le_trans
      by (metis less_irrefl)
  qed
  with a show ?thesis by (simp add: down_ok_def)
qed

lemma append_up_ok:
  assumes "heap_ordered k n" "\<And>j. j < n \<Longrightarrow> k' j = k j" "root \<le> n"
  shows "up_ok k' (Suc n) n"
proof -
  have "le (k' (par j)) (k' j)" if "root < j" "j < n" for j
    using assms(1,2) that par_less [OF that(1)] by (simp add: heap_ordered_def)
  moreover have "par j \<noteq> n" if "root < j" "j < Suc n" for j
    using par_less [OF that(1)] that(2) by simp
  ultimately show ?thesis by (auto simp: up_ok_def less_Suc_eq)
qed

lemma heap_ordered_cong:
  assumes "\<And>j. root \<le> j \<Longrightarrow> j < n \<Longrightarrow> k' j = k j" "heap_ordered k n"
  shows "heap_ordered k' n"
  unfolding heap_ordered_def
proof (intro allI impI)
  fix j assume j: "root < j \<and> j < n"
  then have "root \<le> par j" "par j < n" using par_less [of j] par_root [of j] by auto
  with assms j show "le (k' (par j)) (k' j)" by (simp add: heap_ordered_def)
qed

lemma heap_ordered_mono: "heap_ordered k n \<Longrightarrow> m \<le> n \<Longrightarrow> heap_ordered k m"
  by (auto simp: heap_ordered_def)

end

end
