(* ===== verification/Heap.thy ===== *)
theory Heap
  imports Heap_Order
begin

text \<open>
  The min-heap of src/src/ld_heap.c that orders connections by their last activity.

  \<open>hd_hps\<close> holds the live slots \<open>hps[0 .. heap_size - 1]\<close> of the fixed array, so \<open>heap_size\<close>
  is its length; the slots are pointers into the node store \<open>hd_nodes\<close>, because the nodes
  carry a back index that every swap updates. Following a pointer that is not in the store,
  or using an index outside the live slots, is the result \<open>None\<close>.
\<close>

section \<open>State and operations\<close>

record heap_t =
  hp_heap_idx :: nat
  hp_factor :: int
  hp_obj :: addr

record heap_desc_t =
  hd_hps :: "addr list"
  hd_nodes :: "addr \<rightharpoonup> heap_t"

definition MAX_HEAP :: nat where
  "MAX_HEAP = 8192"

abbreviation heap_size :: "heap_desc_t \<Rightarrow> nat" where
  "heap_size h \<equiv> length (hd_hps h)"

text \<open>\<open>PARENT(0)\<close> is -1 in the source and stops the loop; the callers below test for index 0.\<close>

definition PARENT :: "nat \<Rightarrow> nat" where
  "PARENT x = (x - 1) div 2"

definition LCHILD :: "nat \<Rightarrow> nat" where
  "LCHILD x = 2 * x + 1"

definition RCHILD :: "nat \<Rightarrow> nat" where
  "RCHILD x = LCHILD x + 1"

definition init_heap_desc :: "heap_desc_t \<Rightarrow> heap_desc_t" where
  "init_heap_desc h = h\<lparr> hd_hps := [] \<rparr>"

definition heap_at :: "heap_desc_t \<Rightarrow> nat \<Rightarrow> heap_t option" where
  "heap_at h i = (if i < heap_size h then hd_nodes h (hd_hps h ! i) else None)"

definition set_heap_idx :: "(addr \<rightharpoonup> heap_t) \<Rightarrow> addr \<Rightarrow> nat \<Rightarrow> (addr \<rightharpoonup> heap_t) option" where
  "set_heap_idx m p i = do { nd \<leftarrow> m p; Some (m(p \<mapsto> nd\<lparr> hp_heap_idx := i \<rparr>)) }"

definition c_swap :: "heap_desc_t \<Rightarrow> nat \<Rightarrow> nat \<Rightarrow> heap_desc_t option" where
  "c_swap h x y =
     (if x < heap_size h \<and> y < heap_size h then do {
        let hps = (hd_hps h)[x := hd_hps h ! y, y := hd_hps h ! x];
        m \<leftarrow> set_heap_idx (hd_nodes h) (hps ! x) x;
        m \<leftarrow> set_heap_idx m (hps ! y) y;
        Some (h\<lparr> hd_hps := hps, hd_nodes := m \<rparr>) }
      else None)"

function heap_bubble_up :: "heap_desc_t \<Rightarrow> nat \<Rightarrow> heap_desc_t option" where
  "heap_bubble_up h idx =
     (if idx = 0 then Some h
      else do {
        let fidx = PARENT idx;
        c \<leftarrow> heap_at h idx;
        fc \<leftarrow> heap_at h fidx;
        if hp_factor fc \<le> hp_factor c then Some h
        else do { h' \<leftarrow> c_swap h idx fidx; heap_bubble_up h' fidx } })"
  by pat_completeness auto
termination
  by (relation "measure snd") (auto simp: PARENT_def)

text \<open>\<open>p\<close> is the address malloc returns (\<open>None\<close> for NULL, which the source then writes through).\<close>

definition heap_insert :: "heap_desc_t \<Rightarrow> addr option \<Rightarrow> addr \<Rightarrow> int \<Rightarrow> heap_desc_t option" where
  "heap_insert h p obj factor = do {
     p \<leftarrow> p;
     if heap_size h < MAX_HEAP
     then heap_bubble_up (h\<lparr> hd_hps := hd_hps h @ [p],
            hd_nodes := (hd_nodes h)(p \<mapsto> \<lparr> hp_heap_idx = heap_size h, hp_factor = factor, hp_obj = obj \<rparr>) \<rparr>)
            (heap_size h)
     else None }"

text \<open>The child the loop of heap_bubble_down looks at; \<open>None\<close> when there is no child.\<close>

definition proper_child :: "heap_desc_t \<Rightarrow> nat \<Rightarrow> nat option option" where
  "proper_child h idx =
     (let n = heap_size h;
          lchild = (if LCHILD idx < n then LCHILD idx else n + 1);
          rchild = (if RCHILD idx < n then RCHILD idx else n + 1)
      in if n < lchild \<and> n < rchild then Some None
         else if lchild < n \<and> rchild < n then do {
           l \<leftarrow> heap_at h lchild;
           r \<leftarrow> heap_at h rchild;
           Some (Some (if hp_factor l < hp_factor r then lchild else rchild)) }
         else if n < lchild then Some (Some rchild)
         else Some (Some lchild))"

lemma proper_child_range:
  assumes "proper_child h idx = Some (Some c)"
  shows "c < heap_size h \<and> (c = LCHILD idx \<or> c = RCHILD idx)"
  using assms by (auto simp: proper_child_def Let_def RCHILD_def split: if_splits bind_splits)

function heap_bubble_down :: "heap_desc_t \<Rightarrow> nat \<Rightarrow> heap_desc_t option" where
  "heap_bubble_down h idx =
     (case proper_child h idx of
        None \<Rightarrow> None
      | Some None \<Rightarrow> Some h
      | Some (Some ch) \<Rightarrow> do {
          c \<leftarrow> heap_at h idx;
          d \<leftarrow> heap_at h ch;
          if hp_factor c \<le> hp_factor d then Some h
          else do { h' \<leftarrow> c_swap h idx ch; heap_bubble_down h' ch } })"
  by pat_completeness auto
termination
  by (relation "measure (\<lambda>(h, idx). heap_size h - idx)")
     (auto simp: c_swap_def Let_def LCHILD_def RCHILD_def split: if_splits bind_splits
           dest!: proper_child_range)

declare heap_bubble_up.simps [simp del] heap_bubble_down.simps [simp del]

definition get_heap :: "heap_desc_t \<Rightarrow> addr \<Rightarrow> addr option" where
  "get_heap h obj_p =
     map_option (\<lambda>i. hd_hps h ! i)
       (first_from (\<lambda>i. map_option hp_obj (heap_at h i) = Some obj_p) 0 (heap_size h))"


section \<open>Invariant\<close>

interpretation hp: heap_shape PARENT 0 "(\<le>) :: int \<Rightarrow> int \<Rightarrow> bool"
  by unfold_locales (auto simp: PARENT_def)

definition heap_wf :: "heap_desc_t \<Rightarrow> bool" where
  "heap_wf h \<longleftrightarrow> distinct (hd_hps h) \<and> heap_size h \<le> MAX_HEAP \<and>
     (\<forall>i < heap_size h. \<exists>nd. hd_nodes h (hd_hps h ! i) = Some nd \<and> hp_heap_idx nd = i)"

definition hfactor :: "heap_desc_t \<Rightarrow> nat \<Rightarrow> int" where
  "hfactor h i = (case heap_at h i of Some nd \<Rightarrow> hp_factor nd | None \<Rightarrow> 0)"

definition heap_inv :: "heap_desc_t \<Rightarrow> bool" where
  "heap_inv h \<longleftrightarrow> heap_wf h \<and> hp.heap_ordered (hfactor h) (heap_size h)"

text \<open>What a node stands for, without its back index; \<open>heap_same\<close> relates heaps that hold the
  same nodes in another order.\<close>

definition heap_view :: "heap_desc_t \<Rightarrow> addr \<Rightarrow> (addr \<times> int) option" where
  "heap_view h p = map_option (\<lambda>nd. (hp_obj nd, hp_factor nd)) (hd_nodes h p)"

definition heap_same :: "heap_desc_t \<Rightarrow> heap_desc_t \<Rightarrow> bool" where
  "heap_same h h' \<longleftrightarrow> mset (hd_hps h') = mset (hd_hps h) \<and> heap_view h' = heap_view h"

lemma heap_same_refl [simp]: "heap_same h h"
  by (simp add: heap_same_def)

lemma heap_same_trans [trans]: "heap_same a b \<Longrightarrow> heap_same b c \<Longrightarrow> heap_same a c"
  by (simp add: heap_same_def)

lemma heap_same_size: "heap_same h h' \<Longrightarrow> heap_size h' = heap_size h"
  by (metis heap_same_def size_mset)

lemma heap_same_set: "heap_same h h' \<Longrightarrow> set (hd_hps h') = set (hd_hps h)"
  by (metis heap_same_def set_mset_mset)

lemma heap_wf_at:
  assumes "heap_wf h" "i < heap_size h"
  obtains nd where "heap_at h i = Some nd" "hp_heap_idx nd = i" "hd_nodes h (hd_hps h ! i) = Some nd"
    "hfactor h i = hp_factor nd"
  using assms by (auto simp: heap_wf_def heap_at_def hfactor_def)

lemma c_swap_ok:
  assumes wf: "heap_wf h" and x: "x < heap_size h" and y: "y < heap_size h" and xy: "x \<noteq> y"
  obtains h' where "c_swap h x y = Some h'" "heap_wf h'" "heap_same h h'"
    "hfactor h' = swap_keys (hfactor h) x y"
proof -
  let ?l = "hd_hps h"
  obtain a where a: "hd_nodes h (?l ! x) = Some a" using heap_wf_at [OF wf x] by metis
  obtain b where b: "hd_nodes h (?l ! y) = Some b" using heap_wf_at [OF wf y] by metis
  have ne: "?l ! x \<noteq> ?l ! y" using wf x y xy by (auto simp: heap_wf_def nth_eq_iff_index_eq)
  let ?l' = "?l[x := ?l ! y, y := ?l ! x]"
  let ?m = "(hd_nodes h)(?l ! y \<mapsto> b\<lparr>hp_heap_idx := x\<rparr>, ?l ! x \<mapsto> a\<lparr>hp_heap_idx := y\<rparr>)"
  let ?g = "h\<lparr> hd_hps := ?l', hd_nodes := ?m \<rparr>"
  have ex: "c_swap h x y = Some ?g"
    using x y xy a b ne by (simp add: c_swap_def set_heap_idx_def Let_def)
  have at: "heap_at ?g i = (if i = x then Some (b\<lparr>hp_heap_idx := x\<rparr>) else if i = y then Some (a\<lparr>hp_heap_idx := y\<rparr>)
       else heap_at h i)" for i
    using wf x y ne by (auto simp: heap_at_def nth_list_update heap_wf_def nth_eq_iff_index_eq)
  have "distinct ?l'" using wf x y by (simp add: heap_wf_def distinct_swap)
  moreover have "\<exists>nd. hd_nodes ?g (?l' ! i) = Some nd \<and> hp_heap_idx nd = i" if "i < heap_size h" for i
    using at [of i] that x y xy heap_wf_at [OF wf that]
    by (auto simp: heap_at_def split: if_splits)
  ultimately have "heap_wf ?g" using wf by (simp add: heap_wf_def)
  moreover have "heap_view ?g = heap_view h"
    using a b by (auto simp: heap_view_def fun_eq_iff)
  then have "heap_same h ?g" using x y by (simp add: heap_same_def mset_swap_list)
  moreover have "hfactor ?g = swap_keys (hfactor h) x y"
    unfolding hfactor_def at using x y xy a b by (auto simp: swap_keys_def fun_eq_iff heap_at_def)
  ultimately show ?thesis using ex that by blast
qed

lemma heap_bubble_up_ok:
  assumes "heap_wf h" "idx < heap_size h" "hp.up_ok (hfactor h) (heap_size h) idx"
  shows "\<exists>h'. heap_bubble_up h idx = Some h' \<and> heap_inv h' \<and> heap_same h h'"
  using assms
proof (induction h idx rule: heap_bubble_up.induct)
  case (1 h idx)
  show ?case
  proof (cases "idx = 0")
    case True
    then show ?thesis
      using 1(2,4) hp.up_done by (subst heap_bubble_up.simps) (auto simp: heap_inv_def)
  next
    case False
    let ?p = "PARENT idx"
    have p: "?p < idx" using False by (simp add: PARENT_def)
    obtain c where c: "heap_at h idx = Some c" "hfactor h idx = hp_factor c"
      using heap_wf_at [OF 1(2,3)] by metis
    obtain d where d: "heap_at h ?p = Some d" "hfactor h ?p = hp_factor d"
      using heap_wf_at [OF 1(2), of ?p] 1(3) p by (metis less_trans)
    show ?thesis
    proof (cases "hp_factor d \<le> hp_factor c")
      case True
      then show ?thesis
        using False 1(2,4) c d hp.up_done [OF 1(4)]
        by (subst heap_bubble_up.simps) (simp add: Let_def heap_inv_def)
    next
      case nle: False
      obtain h1 where s: "c_swap h idx ?p = Some h1" "heap_wf h1" "heap_same h h1"
        "hfactor h1 = swap_keys (hfactor h) idx ?p"
        using c_swap_ok [OF 1(2,3), of ?p] p 1(3) by (metis less_irrefl less_trans)
      have "hp.up_ok (hfactor h1) (heap_size h1) ?p"
        using hp.up_step [OF 1(4)] False nle c d heap_same_size [OF s(3)] s(4) by simp
      then obtain h2 where "heap_bubble_up h1 ?p = Some h2" "heap_inv h2" "heap_same h1 h2"
        using 1(1) [OF False refl c(1) d(1) nle s(1) s(2)] heap_same_size [OF s(3)] p 1(3) by auto
      then show ?thesis
        using False nle c d s heap_same_trans by (subst heap_bubble_up.simps) (auto simp: Let_def)
    qed
  qed
qed


lemma child_iff: "0 < j \<and> PARENT j = i \<longleftrightarrow> j = LCHILD i \<or> j = RCHILD i"
  unfolding PARENT_def LCHILD_def RCHILD_def by presburger

text \<open>\<open>proper_child\<close> is the smallest child, and there is none only when there are no children.\<close>

lemma proper_child_ok:
  assumes "heap_wf h"
  obtains "proper_child h i = Some None" "\<And>j. 0 < j \<Longrightarrow> PARENT j = i \<Longrightarrow> heap_size h \<le> j"
  | c where "proper_child h i = Some (Some c)" "0 < c" "PARENT c = i" "c < heap_size h" "i < c"
      "\<And>j. 0 < j \<Longrightarrow> j < heap_size h \<Longrightarrow> PARENT j = i \<Longrightarrow> hfactor h c \<le> hfactor h j"
proof -
  let ?n = "heap_size h"
  consider "?n \<le> LCHILD i" | "LCHILD i < ?n" "?n \<le> RCHILD i" | "RCHILD i < ?n"
    by (metis not_le)
  then show ?thesis
  proof cases
    case 1
    have "proper_child h i = Some None" using 1 by (simp add: proper_child_def Let_def RCHILD_def)
    then show ?thesis
    proof (rule that(1))
      fix j assume "0 < j" "PARENT j = i"
      then show "?n \<le> j" using child_iff [of j i] 1 by (auto simp: RCHILD_def)
    qed
  next
    case 2
    show ?thesis
    proof (rule that(2) [of "LCHILD i"])
      show "proper_child h i = Some (Some (LCHILD i))"
        using 2 by (simp add: proper_child_def Let_def)
      fix j assume "0 < j" "j < ?n" "PARENT j = i"
      then show "hfactor h (LCHILD i) \<le> hfactor h j" using child_iff [of j i] 2 by auto
    qed (use child_iff [of "LCHILD i" i] 2 in \<open>auto simp: LCHILD_def\<close>)
  next
    case 3
    then have l: "LCHILD i < ?n" by (simp add: RCHILD_def)
    obtain a b where ab: "heap_at h (LCHILD i) = Some a" "hfactor h (LCHILD i) = hp_factor a"
      "heap_at h (RCHILD i) = Some b" "hfactor h (RCHILD i) = hp_factor b"
      using heap_wf_at [OF assms l] heap_wf_at [OF assms 3] by metis
    let ?c = "if hp_factor a < hp_factor b then LCHILD i else RCHILD i"
    have c: "0 < ?c \<and> PARENT ?c = i" using child_iff [of ?c i] by auto
    show ?thesis
    proof (rule that(2) [of ?c])
      show "proper_child h i = Some (Some ?c)"
        using 3 l ab by (simp add: proper_child_def Let_def)
      fix j assume "0 < j" "j < ?n" "PARENT j = i"
      then show "hfactor h ?c \<le> hfactor h j" using child_iff [of j i] ab by auto
    qed (use c l 3 in \<open>auto simp: LCHILD_def RCHILD_def\<close>)
  qed
qed

lemma heap_bubble_down_ok:
  assumes "heap_wf h" "hp.down_ok (hfactor h) (heap_size h) idx"
  shows "\<exists>h'. heap_bubble_down h idx = Some h' \<and> heap_inv h' \<and> heap_same h h'"
  using assms
proof (induction h idx rule: heap_bubble_down.induct)
  case (1 h idx)
  show ?case
  proof (cases rule: proper_child_ok [OF 1(2), of idx])
    case 1
    then have "hp.heap_ordered (hfactor h) (heap_size h)"
      using hp.down_done [OF \<open>hp.down_ok (hfactor h) (heap_size h) idx\<close>] by (metis not_le)
    then show ?thesis
      using 1 \<open>heap_wf h\<close> by (subst heap_bubble_down.simps) (simp add: heap_inv_def)
  next
    case (2 c)
    have i: "idx < heap_size h" using 2 by simp
    obtain a where a: "heap_at h idx = Some a" "hfactor h idx = hp_factor a"
      using heap_wf_at [OF \<open>heap_wf h\<close> i] by metis
    obtain b where b: "heap_at h c = Some b" "hfactor h c = hp_factor b"
      using heap_wf_at [OF \<open>heap_wf h\<close> 2(4)] by metis
    show ?thesis
    proof (cases "hp_factor a \<le> hp_factor b")
      case True
      have "hp.heap_ordered (hfactor h) (heap_size h)"
      proof (rule hp.down_done [OF 1(3)])
        fix j assume "0 < j" "j < heap_size h" "PARENT j = idx"
        from 2(6) [OF this] True a b show "hfactor h idx \<le> hfactor h j" by simp
      qed
      then show ?thesis
        using 2(1) True a b \<open>heap_wf h\<close> by (subst heap_bubble_down.simps) (simp add: heap_inv_def)
    next
      case nle: False
      obtain h1 where s: "c_swap h idx c = Some h1" "heap_wf h1" "heap_same h h1"
        "hfactor h1 = swap_keys (hfactor h) idx c"
        using c_swap_ok [OF 1(2) i 2(4)] 2(5) by (metis less_irrefl)
      have "hp.down_ok (hfactor h1) (heap_size h1) c"
        using hp.down_step [OF 1(3) 2(2,4,3)] 2(6) nle a b s(4) heap_same_size [OF s(3)] by simp
      then obtain h2 where "heap_bubble_down h1 c = Some h2" "heap_inv h2" "heap_same h1 h2"
        using 1(1) [OF 2(1) refl a(1) b(1) nle s(1) s(2)] by auto
      then show ?thesis
        using 2(1) nle a b s heap_same_trans by (subst heap_bubble_down.simps) auto
    qed
  qed
qed

lemma heap_insert_ok:
  assumes "heap_inv h" "heap_size h < MAX_HEAP" "p \<notin> set (hd_hps h)"
  shows "\<exists>h'. heap_insert h (Some p) obj factor = Some h' \<and> heap_inv h'
     \<and> mset (hd_hps h') = add_mset p (mset (hd_hps h))
     \<and> heap_view h' = (heap_view h)(p \<mapsto> (obj, factor))"
proof -
  let ?n = "heap_size h"
  let ?g = "h\<lparr> hd_hps := hd_hps h @ [p],
     hd_nodes := (hd_nodes h)(p \<mapsto> \<lparr> hp_heap_idx = ?n, hp_factor = factor, hp_obj = obj \<rparr>) \<rparr>"
  have ne: "hd_hps h ! i \<noteq> p" if "i < ?n" for i using assms(3) that nth_mem by metis
  have wf: "heap_wf ?g"
    using assms ne by (auto simp: heap_inv_def heap_wf_def nth_append less_Suc_eq)
  have "hfactor ?g i = hfactor h i" if "i < ?n" for i
    using that ne by (simp add: hfactor_def heap_at_def nth_append)
  then have "hp.up_ok (hfactor ?g) (heap_size ?g) ?n"
    using hp.append_up_ok [of "hfactor h" ?n "hfactor ?g"] assms(1) by (simp add: heap_inv_def)
  then obtain h' where h': "heap_bubble_up ?g ?n = Some h'" "heap_inv h'" "heap_same ?g h'"
    using heap_bubble_up_ok [OF wf, of ?n] by auto
  have "heap_view ?g = (heap_view h)(p \<mapsto> (obj, factor))"
    by (auto simp: heap_view_def fun_eq_iff)
  then show ?thesis using h' assms(2) by (auto simp: heap_insert_def heap_same_def)
qed

lemma get_heap_Some:
  assumes "heap_wf h" "get_heap h obj = Some p"
  obtains i f where "i < heap_size h" "p = hd_hps h ! i" "heap_view h p = Some (obj, f)"
    "hfactor h i = f"
  using assms
  by (auto simp: get_heap_def first_from_Some_iff heap_at_def heap_view_def hfactor_def)

lemma get_heap_None:
  assumes "heap_wf h" "get_heap h obj = None" "i < heap_size h"
  shows "\<exists>o' f. heap_view h (hd_hps h ! i) = Some (o', f) \<and> o' \<noteq> obj"
proof -
  obtain nd where "heap_at h i = Some nd" "hd_nodes h (hd_hps h ! i) = Some nd"
    using heap_wf_at [OF assms(1,3)] by metis
  then show ?thesis
    using assms(2,3) by (auto simp: get_heap_def first_from_None_iff heap_view_def)
qed

lemma heap_root_min:
  assumes "heap_inv h" "p \<in> set (hd_hps h)" "heap_view h p = Some (obj, f)"
  shows "hfactor h 0 \<le> f"
proof -
  obtain i where i: "i < heap_size h" "p = hd_hps h ! i" using assms(2) by (metis in_set_conv_nth)
  then have "hfactor h i = f" using assms(3) by (auto simp: heap_view_def hfactor_def heap_at_def)
  then show ?thesis
    using hp.root_least [of "hfactor h" "heap_size h" i] assms(1) i by (auto simp: heap_inv_def)
qed


text \<open>A run of inserts: \<open>(p, obj, factor)\<close> with \<open>p\<close> the node malloc returns.\<close>

fun heap_inserts :: "heap_desc_t \<Rightarrow> (addr \<times> addr \<times> int) list \<Rightarrow> heap_desc_t option" where
  "heap_inserts h [] = Some h"
| "heap_inserts h ((p, obj, f) # xs) = do { h' \<leftarrow> heap_insert h (Some p) obj f; heap_inserts h' xs }"

lemma heap_inserts_ok:
  assumes "heap_inv h" "heap_size h + length xs \<le> MAX_HEAP"
    "distinct (map fst xs)" "set (map fst xs) \<inter> set (hd_hps h) = {}"
  shows "\<exists>h'. heap_inserts h xs = Some h' \<and> heap_inv h'
     \<and> mset (hd_hps h') = mset (map fst xs) + mset (hd_hps h)
     \<and> heap_view h' = heap_view h ++ map_of xs"
  using assms
proof (induction xs arbitrary: h)
  case (Cons a xs)
  obtain p obj f where a: "a = (p, obj, f)" by (metis prod_cases3)
  obtain h1 where h1: "heap_insert h (Some p) obj f = Some h1" "heap_inv h1"
    "mset (hd_hps h1) = add_mset p (mset (hd_hps h))" "heap_view h1 = (heap_view h)(p \<mapsto> (obj, f))"
    using heap_insert_ok [OF Cons.prems(1), of p obj f] Cons.prems a by auto
  have sz: "heap_size h1 = Suc (heap_size h)" by (metis h1(3) size_add_mset size_mset)
  have st: "set (hd_hps h1) = insert p (set (hd_hps h))" by (metis h1(3) set_mset_add_mset_insert set_mset_mset)
  obtain h' where "heap_inserts h1 xs = Some h'" "heap_inv h'"
    "mset (hd_hps h') = mset (map fst xs) + mset (hd_hps h1)" "heap_view h' = heap_view h1 ++ map_of xs"
    using Cons.IH [OF h1(2)] sz st Cons.prems a by auto
  moreover have "map_of xs p = None" using Cons.prems(3) a by (auto simp: map_of_eq_None_iff)
  then have "heap_view h1 ++ map_of xs = heap_view h ++ map_of (a # xs)"
    unfolding h1(4) a by (intro ext) (simp add: map_add_def split: option.splits)
  moreover have "heap_inserts h (a # xs) = heap_inserts h1 xs" using h1(1) a by simp
  moreover have "mset (map fst (a # xs)) + mset (hd_hps h) = mset (map fst xs) + mset (hd_hps h1)"
    using h1(3) a by simp
  ultimately show ?case by metis
qed simp

lemma heap_inv_empty [simp]: "heap_inv (init_heap_desc h)"
  by (simp add: heap_inv_def heap_wf_def init_heap_desc_def hp.heap_ordered_def)


section \<open>Properties\<close>



end
