(* ===== verification/Pqueue.thy ===== *)
theory Pqueue
  imports Heap_Order
begin

text \<open>
  The locked priority queue of src/src/ld_pqueue.c: a binary heap in an array whose index 0 is
  unused, with the comparison as a callback (argument \<open>cmp\<close>) and the priority and position of
  an element read and written through callbacks. The accessor callbacks are the reads and
  updates of two stores, \<open>pq_pri\<close> and \<open>pq_pos\<close>, indexed by the element's address.

  \<open>pq_locked\<close> is the mutex. Locking it while it is held never returns, which is \<open>None\<close>; so is
  a wait that no other thread ends. What other threads do while the caller waits is an explicit
  list of state transformers, one for each wake-up. A NULL queue handle, which insert, pop and
  peek answer with \<open>Q_ERR_INVALID\<close>, is outside the type of queues.
\<close>

section \<open>State and operations\<close>

record pqueue_t =
  pq_size :: nat
  pq_avail :: nat
  pq_step :: nat
  pq_d :: "addr list"
  pq_locked :: bool
  pq_pri :: "addr \<Rightarrow> u64"
  pq_pos :: "addr \<Rightarrow> nat"

type_synonym pq_cmp = "u64 \<Rightarrow> u64 \<Rightarrow> bool"

abbreviation Q_OK :: int where "Q_OK \<equiv> 0"
abbreviation Q_ERR_INVALID :: int where "Q_ERR_INVALID \<equiv> - 1"

definition pqueue_lock_internal :: "pqueue_t \<Rightarrow> pqueue_t option" where
  "pqueue_lock_internal q = (if pq_locked q then None else Some (q\<lparr> pq_locked := True \<rparr>))"

definition pqueue_unlock_internal :: "pqueue_t \<Rightarrow> pqueue_t" where
  "pqueue_unlock_internal q = q\<lparr> pq_locked := False \<rparr>"

text \<open>The array of the new queue is not initialised; zeros stand for its contents.\<close>

definition pqueue_init :: "bool \<Rightarrow> nat \<Rightarrow> (addr \<Rightarrow> u64) \<Rightarrow> (addr \<Rightarrow> nat) \<Rightarrow> pqueue_t option" where
  "pqueue_init ok n pri pos =
     (if ok then Some \<lparr> pq_size = 1, pq_avail = n + 1, pq_step = n + 1, pq_d = replicate (n + 1) 0,
                        pq_locked = False, pq_pri = pri, pq_pos = pos \<rparr>
      else None)"

definition pqueue_size :: "pqueue_t \<Rightarrow> nat" where
  "pqueue_size q = pq_size q - 1"

definition pqueue_empty :: "pqueue_t \<Rightarrow> bool" where
  "pqueue_empty q = (pqueue_size q = 0)"

text \<open>\<open>q->d[i] = x; q->setpos(x, i);\<close>\<close>

definition pq_place :: "pqueue_t \<Rightarrow> nat \<Rightarrow> addr \<Rightarrow> pqueue_t" where
  "pq_place q i x = q\<lparr> pq_d := (pq_d q)[i := x], pq_pos := (pq_pos q)(x := i) \<rparr>"

abbreviation pq_pri_at :: "pqueue_t \<Rightarrow> nat \<Rightarrow> u64" where
  "pq_pri_at q i \<equiv> pq_pri q (pq_d q ! i)"

fun bubble_up_loop :: "pq_cmp \<Rightarrow> pqueue_t \<Rightarrow> nat \<Rightarrow> addr \<Rightarrow> pqueue_t" where
  "bubble_up_loop cmp q i moving_node =
     (if 1 < i \<and> cmp (pq_pri_at q (i div 2)) (pq_pri q moving_node)
      then bubble_up_loop cmp (pq_place q i (pq_d q ! (i div 2))) (i div 2) moving_node
      else pq_place q i moving_node)"

definition bubble_up :: "pq_cmp \<Rightarrow> pqueue_t \<Rightarrow> nat \<Rightarrow> pqueue_t option" where
  "bubble_up cmp q i =
     (if i < length (pq_d q) then Some (bubble_up_loop cmp q i (pq_d q ! i)) else None)"

definition maxchild :: "pq_cmp \<Rightarrow> pqueue_t \<Rightarrow> nat \<Rightarrow> nat" where
  "maxchild cmp q i =
     (let child_node = 2 * i in
      if pq_size q \<le> child_node then 0
      else if child_node + 1 < pq_size q \<and> cmp (pq_pri_at q child_node) (pq_pri_at q (child_node + 1))
           then child_node + 1
           else child_node)"

lemma maxchild_range: "maxchild cmp q i \<noteq> 0 \<Longrightarrow> i < maxchild cmp q i \<and> maxchild cmp q i < pq_size q"
  by (cases "i = 0") (auto simp: maxchild_def Let_def split: if_splits)

function percolate_down_loop :: "pq_cmp \<Rightarrow> pqueue_t \<Rightarrow> nat \<Rightarrow> addr \<Rightarrow> pqueue_t" where
  "percolate_down_loop cmp q i moving_node =
     (let child_node = maxchild cmp q i in
      if child_node \<noteq> 0 \<and> cmp (pq_pri q moving_node) (pq_pri_at q child_node)
      then percolate_down_loop cmp (pq_place q i (pq_d q ! child_node)) child_node moving_node
      else pq_place q i moving_node)"
  by pat_completeness auto
termination
proof (relation "measure (\<lambda>(cmp, q, i, m). pq_size q - i)", goal_cases)
  case (2 cmp q i m c)
  then show ?case using maxchild_range [of cmp q i] by (auto simp: pq_place_def)
qed simp

declare bubble_up_loop.simps [simp del] percolate_down_loop.simps [simp del]

definition percolate_down :: "pq_cmp \<Rightarrow> pqueue_t \<Rightarrow> nat \<Rightarrow> pqueue_t option" where
  "percolate_down cmp q i =
     (if i < length (pq_d q) \<and> pq_size q \<le> length (pq_d q)
      then Some (percolate_down_loop cmp q i (pq_d q ! i)) else None)"

text \<open>
  The reallocation in pqueue_insert, when it succeeds; \<open>ok\<close> below says whether it does. When it
  fails the source returns 1 with the lock held.
\<close>

definition pq_grow :: "pqueue_t \<Rightarrow> pqueue_t" where
  "pq_grow q =
     (let newsize = pq_size q + pq_step q in
      if pq_avail q \<le> pq_size q
      then q\<lparr> pq_d := pq_d q @ replicate (newsize - pq_avail q) 0, pq_avail := newsize \<rparr> else q)"

definition pqueue_insert :: "bool \<Rightarrow> pq_cmp \<Rightarrow> pqueue_t \<Rightarrow> addr \<Rightarrow> (pqueue_t \<times> int) option" where
  "pqueue_insert ok cmp q d = do {
     q \<leftarrow> pqueue_lock_internal q;
     if pq_avail q \<le> pq_size q \<and> \<not> ok then Some (q, 1)
     else do {
       let q = pq_grow q;
       let i = pq_size q;
       if i < length (pq_d q) then do {
         q \<leftarrow> bubble_up cmp (q\<lparr> pq_size := pq_size q + 1, pq_d := (pq_d q)[i := d] \<rparr>) i;
         Some (pqueue_unlock_internal q, Q_OK) }
       else None } }"

definition pqueue_change_priority :: "pq_cmp \<Rightarrow> pqueue_t \<Rightarrow> u64 \<Rightarrow> addr \<Rightarrow> (pqueue_t \<times> int) option" where
  "pqueue_change_priority cmp q new_pri d = do {
     let old_pri = pq_pri q d;
     q \<leftarrow> pqueue_lock_internal q;
     let q = q\<lparr> pq_pri := (pq_pri q)(d := new_pri) \<rparr>;
     let posn = pq_pos q d;
     q \<leftarrow> (if cmp old_pri new_pri then bubble_up cmp q posn else percolate_down cmp q posn);
     Some (pqueue_unlock_internal q, Q_OK) }"

definition pqueue_remove :: "pq_cmp \<Rightarrow> pqueue_t \<Rightarrow> addr \<Rightarrow> (pqueue_t \<times> int) option" where
  "pqueue_remove cmp q d = do {
     q \<leftarrow> pqueue_lock_internal q;
     let posn = pq_pos q d;
     let q = q\<lparr> pq_size := pq_size q - 1 \<rparr>;
     if posn < length (pq_d q) \<and> pq_size q < length (pq_d q) then do {
       let q = q\<lparr> pq_d := (pq_d q)[posn := pq_d q ! pq_size q] \<rparr>;
       q \<leftarrow> (if cmp (pq_pri q d) (pq_pri_at q posn) then bubble_up cmp q posn else percolate_down cmp q posn);
       Some (pqueue_unlock_internal q, Q_OK) }
     else None }"

text \<open>The part of pqueue_pop_internal after the queue is known to hold an element.\<close>

definition pqueue_take :: "pq_cmp \<Rightarrow> pqueue_t \<Rightarrow> (pqueue_t \<times> addr option \<times> int) option" where
  "pqueue_take cmp q =
     (if 1 < length (pq_d q) \<and> pq_size q - 1 < length (pq_d q) then do {
        let e = pq_d q ! 1;
        let q = q\<lparr> pq_size := pq_size q - 1 \<rparr>;
        let q = q\<lparr> pq_d := (pq_d q)[1 := pq_d q ! pq_size q] \<rparr>;
        q \<leftarrow> percolate_down cmp q 1;
        Some (pqueue_unlock_internal q, Some e, Q_OK) }
      else None)"

text \<open>
  The loop \<open>while (q->size == 1) action(...)\<close>: each wait releases the mutex, lets the other
  threads act, and takes it again.
\<close>

fun pq_wait :: "(pqueue_t \<Rightarrow> pqueue_t) list \<Rightarrow> pqueue_t \<Rightarrow> pqueue_t option" where
  "pq_wait env q =
     (if pq_size q = 1
      then (case env of
              [] \<Rightarrow> None
            | f # fs \<Rightarrow> do { q \<leftarrow> pqueue_lock_internal (f (pqueue_unlock_internal q)); pq_wait fs q })
      else Some q)"

definition pqueue_pop_internal ::
  "pq_cmp \<Rightarrow> (pqueue_t \<Rightarrow> pqueue_t) list option \<Rightarrow> pqueue_t \<Rightarrow> (pqueue_t \<times> addr option \<times> int) option" where
  "pqueue_pop_internal cmp action q = do {
     q \<leftarrow> pqueue_lock_internal q;
     if pq_size q = 1
     then (case action of
             None \<Rightarrow> Some (q, None, Q_ERR_INVALID)
           | Some env \<Rightarrow> do { q \<leftarrow> pq_wait env q; pqueue_take cmp q })
     else pqueue_take cmp q }"

definition pqueue_pop :: "pq_cmp \<Rightarrow> pqueue_t \<Rightarrow> (pqueue_t \<times> addr option \<times> int) option" where
  "pqueue_pop cmp q = pqueue_pop_internal cmp None q"

definition pqueue_pop_wait ::
  "pq_cmp \<Rightarrow> (pqueue_t \<Rightarrow> pqueue_t) list \<Rightarrow> pqueue_t \<Rightarrow> (pqueue_t \<times> addr option \<times> int) option" where
  "pqueue_pop_wait cmp env q = pqueue_pop_internal cmp (Some env) q"

definition pqueue_peek :: "pqueue_t \<Rightarrow> (pqueue_t \<times> addr option \<times> int) option" where
  "pqueue_peek q = do {
     q \<leftarrow> pqueue_lock_internal q;
     if pq_size q = 1 then Some (q, None, Q_OK)
     else if 1 < length (pq_d q) then Some (pqueue_unlock_internal q, Some (pq_d q ! 1), Q_OK)
     else None }"

text \<open>A run of \<open>n\<close> pops, collecting the elements in order.\<close>

fun pops :: "('q \<Rightarrow> ('q \<times> 'a option \<times> int) option) \<Rightarrow> nat \<Rightarrow> 'q \<Rightarrow> ('q \<times> 'a option list) option" where
  "pops pop 0 q = Some (q, [])"
| "pops pop (Suc n) q = do { (q, e, _) \<leftarrow> pop q; (q, es) \<leftarrow> pops pop n q; Some (q, e # es) }"

text \<open>pqueue_flush hands every popped element to \<open>free_func\<close>, in this order.\<close>

definition pqueue_flush :: "pq_cmp \<Rightarrow> pqueue_t \<Rightarrow> (pqueue_t \<times> addr option list) option" where
  "pqueue_flush cmp pq = pops (pqueue_pop cmp) (pqueue_size pq) pq"

text \<open>pqueue_print pops a copy of the queue until it is empty; the copy shares the callbacks.\<close>

fun print_loop :: "nat \<Rightarrow> pq_cmp \<Rightarrow> pqueue_t \<Rightarrow> (pqueue_t \<times> addr list) option" where
  "print_loop 0 cmp dup = None"
| "print_loop (Suc n) cmp dup = do {
     (dup, e, _) \<leftarrow> pqueue_pop cmp dup;
     (case e of
        None \<Rightarrow> Some (dup, [])
      | Some x \<Rightarrow> do { (dup, out) \<leftarrow> print_loop n cmp dup; Some (dup, x # out) }) }"

definition pqueue_print :: "bool \<Rightarrow> pq_cmp \<Rightarrow> pqueue_t \<Rightarrow> (pqueue_t \<times> addr list) option" where
  "pqueue_print ok cmp q = do {
     q \<leftarrow> pqueue_lock_internal q;
     dup \<leftarrow> pqueue_init ok (pq_size q) (pq_pri q) (pq_pos q);
     let dup = dup\<lparr> pq_size := pq_size q, pq_avail := pq_avail q, pq_step := pq_step q \<rparr>;
     src \<leftarrow> mem_read (pq_d q) 0 (pq_size q);
     d \<leftarrow> mem_write (pq_d dup) 0 src;
     (dup, out) \<leftarrow> print_loop (pq_size q) cmp (dup\<lparr> pq_d := d \<rparr>);
     Some (pqueue_unlock_internal (q\<lparr> pq_pos := pq_pos dup \<rparr>), out) }"

text \<open>
  pqueue_dump prints, for every position, its element and the index of its larger child.
\<close>

definition pqueue_dump :: "pq_cmp \<Rightarrow> pqueue_t \<Rightarrow> (pqueue_t \<times> (nat \<times> nat \<times> addr) list) option" where
  "pqueue_dump cmp q = do {
     q \<leftarrow> pqueue_lock_internal q;
     if pq_size q \<le> length (pq_d q)
     then Some (pqueue_unlock_internal q, map (\<lambda>i. (i, maxchild cmp q i, pq_d q ! i)) [1..<pq_size q])
     else None }"

text \<open>
  The answer is the C int; an early return 0 keeps the lock. The first argument bounds the
  depth of the recursion; the position doubles with every call, so \<open>pq_size\<close> is enough.
\<close>

fun subtree_is_valid :: "nat \<Rightarrow> pq_cmp \<Rightarrow> pqueue_t \<Rightarrow> nat \<Rightarrow> (pqueue_t \<times> int) option" where
  "subtree_is_valid 0 cmp q pos = None"
| "subtree_is_valid (Suc n) cmp q pos = do {
     q \<leftarrow> pqueue_lock_internal q;
     (q, r) \<leftarrow> (if 2 * pos < pq_size q
       then (if cmp (pq_pri_at q pos) (pq_pri_at q (2 * pos)) then Some (q, 0)
             else subtree_is_valid n cmp q (2 * pos))
       else Some (q, 1));
     if r = 0 then Some (q, 0)
     else do {
       (q, r) \<leftarrow> (if 2 * pos + 1 < pq_size q
         then (if cmp (pq_pri_at q pos) (pq_pri_at q (2 * pos + 1)) then Some (q, 0)
               else subtree_is_valid n cmp q (2 * pos + 1))
         else Some (q, 1));
       if r = 0 then Some (q, 0) else Some (pqueue_unlock_internal q, 1) } }"

definition pqueue_is_valid :: "pq_cmp \<Rightarrow> pqueue_t \<Rightarrow> (pqueue_t \<times> int) option" where
  "pqueue_is_valid cmp q =
     (if pq_size q \<le> length (pq_d q) then subtree_is_valid (pq_size q) cmp q 1 else None)"

text \<open>pqueue_wait_while spins until another thread has inserted something.\<close>

fun pqueue_wait_while :: "pq_cmp \<Rightarrow> (pqueue_t \<Rightarrow> pqueue_t) list \<Rightarrow> pqueue_t \<Rightarrow> (pqueue_t \<times> addr option \<times> int) option" where
  "pqueue_wait_while cmp env q =
     (if pqueue_empty q
      then (case env of [] \<Rightarrow> None | f # fs \<Rightarrow> pqueue_wait_while cmp fs (f q))
      else pqueue_pop cmp q)"



section \<open>The interface\<close>

text \<open>
  A priority queue over a multiset of elements: insert adds one, pop takes one that no other
  element beats. \<open>le a b\<close> says that an element of priority \<open>a\<close> may leave before one of
  priority \<open>b\<close>.
\<close>

locale prio_queue =
  fixes inv :: "'q \<Rightarrow> bool"
    and contents :: "'q \<Rightarrow> 'a multiset"
    and pri :: "'q \<Rightarrow> 'a \<Rightarrow> 'k"
    and le :: "'k \<Rightarrow> 'k \<Rightarrow> bool"
    and insert :: "'q \<Rightarrow> 'a \<Rightarrow> ('q \<times> int) option"
    and pop :: "'q \<Rightarrow> ('q \<times> 'a option \<times> int) option"
  assumes insert_ok: "inv q \<Longrightarrow> x \<notin># contents q \<Longrightarrow>
      \<exists>q'. insert q x = Some (q', 0) \<and> inv q' \<and> contents q' = add_mset x (contents q) \<and> pri q' = pri q"
    and pop_ok: "inv q \<Longrightarrow> contents q \<noteq> {#} \<Longrightarrow>
      \<exists>q' x. pop q = Some (q', Some x, 0) \<and> inv q' \<and> x \<in># contents q \<and>
        contents q' = contents q - {#x#} \<and> pri q' = pri q \<and> (\<forall>y \<in># contents q. le (pri q x) (pri q y))"
begin

fun inserts :: "'q \<Rightarrow> 'a list \<Rightarrow> 'q option" where
  "inserts q [] = Some q"
| "inserts q (x # xs) = do { (q, _) \<leftarrow> insert q x; inserts q xs }"

lemma inserts_ok:
  assumes "inv q" "distinct xs" "set xs \<inter> set_mset (contents q) = {}"
  shows "\<exists>q'. inserts q xs = Some q' \<and> inv q' \<and> contents q' = mset xs + contents q \<and> pri q' = pri q"
  using assms
proof (induction xs arbitrary: q)
  case (Cons x xs)
  obtain q1 where q1: "insert q x = Some (q1, 0)" "inv q1" "contents q1 = add_mset x (contents q)" "pri q1 = pri q"
    using insert_ok [OF Cons.prems(1), of x] Cons.prems by auto
  then show ?case using Cons.IH [OF q1(2)] Cons.prems by auto
qed simp

text \<open>Popping everything yields the contents in priority order.\<close>

lemma drain_sorted:
  assumes "inv q"
  shows "\<exists>q' xs. pops pop (size (contents q)) q = Some (q', map Some xs) \<and> inv q' \<and> contents q' = {#}
     \<and> mset xs = contents q \<and> sorted_wrt (\<lambda>x y. le (pri q x) (pri q y)) xs \<and> pri q' = pri q"
  using assms
proof (induction "size (contents q)" arbitrary: q)
  case (Suc n)
  then have "contents q \<noteq> {#}" by auto
  then obtain q1 x where q1: "pop q = Some (q1, Some x, 0)" "inv q1" "x \<in># contents q"
    "contents q1 = contents q - {#x#}" "pri q1 = pri q" "\<forall>y \<in># contents q. le (pri q x) (pri q y)"
    using pop_ok [OF Suc.prems] by blast
  have "n = size (contents q1)" using Suc.hyps(2) q1(3,4) by (simp add: size_Diff_singleton)
  from Suc.hyps(1) [OF this q1(2)] obtain q2 xs where
    q2: "pops pop (size (contents q1)) q1 = Some (q2, map Some xs)" "inv q2" "contents q2 = {#}"
      "mset xs = contents q1" "sorted_wrt (\<lambda>x y. le (pri q1 x) (pri q1 y)) xs" "pri q2 = pri q1"
    by blast
  have "set xs \<subseteq> set_mset (contents q)"
    by (metis in_diffD q1(4) q2(4) set_mset_mset subsetI)
  then have "sorted_wrt (\<lambda>x y. le (pri q x) (pri q y)) (x # xs)" using q1(5,6) q2(5) by auto
  moreover have "pops pop (size (contents q)) q = Some (q2, map Some (x # xs))"
    using Suc.hyps(2) [symmetric] q1(1) q2(1) \<open>n = size (contents q1)\<close> by simp
  moreover have "mset (x # xs) = contents q" using q1(3,4) q2(4) by simp
  ultimately show ?case using q1 q2 by metis
qed simp

end

section \<open>Invariant\<close>

text \<open>
  What the comparison callback has to be: \<open>cmp a b\<close> means that priority \<open>b\<close> goes before
  priority \<open>a\<close>, as a strict weak order.
\<close>

locale pri_order =
  fixes cmp :: pq_cmp
  assumes asym: "cmp a b \<Longrightarrow> \<not> cmp b a"
    and neg_trans: "\<not> cmp a b \<Longrightarrow> \<not> cmp b c \<Longrightarrow> \<not> cmp a c"

sublocale pri_order \<subseteq> heap_shape "\<lambda>i. i div 2" "Suc 0" "\<lambda>a b. \<not> cmp a b"
proof unfold_locales
  show "\<not> cmp a c" if "\<not> cmp a b" "\<not> cmp b c" for a b c using neg_trans that by blast
  show "\<not> cmp a b \<or> \<not> cmp b a" for a b using asym by blast
qed auto

text \<open>Instances: the largest priority first, the smallest priority first.\<close>

interpretation max_first: pri_order "(<)"
  by unfold_locales auto

interpretation min_first: pri_order "(>)"
  by unfold_locales auto

definition pq_elems :: "nat \<Rightarrow> addr list \<Rightarrow> addr list" where
  "pq_elems n v = tl (take n v)"

definition pq_contents :: "pqueue_t \<Rightarrow> addr multiset" where
  "pq_contents q = mset (pq_elems (pq_size q) (pq_d q))"

definition pq_wf :: "pqueue_t \<Rightarrow> bool" where
  "pq_wf q \<longleftrightarrow> 1 \<le> pq_size q \<and> pq_size q \<le> length (pq_d q) \<and>
     distinct (pq_elems (pq_size q) (pq_d q)) \<and>
     (\<forall>i. 1 \<le> i \<and> i < pq_size q \<longrightarrow> pq_pos q (pq_d q ! i) = i)"

definition pq_ordered :: "pq_cmp \<Rightarrow> pqueue_t \<Rightarrow> bool" where
  "pq_ordered cmp q \<longleftrightarrow>
     (\<forall>i. 1 < i \<and> i < pq_size q \<longrightarrow> \<not> cmp (pq_pri_at q (i div 2)) (pq_pri_at q i))"

definition pq_inv :: "pq_cmp \<Rightarrow> pqueue_t \<Rightarrow> bool" where
  "pq_inv cmp q \<longleftrightarrow> pq_wf q \<and> pq_ordered cmp q \<and> \<not> pq_locked q \<and>
     length (pq_d q) = pq_avail q \<and> 0 < pq_step q"

lemma pq_elems_length [simp]: "n \<le> length v \<Longrightarrow> length (pq_elems n v) = n - 1"
  by (simp add: pq_elems_def)

lemma pq_elems_empty [simp]: "pq_elems (Suc 0) v = []"
  by (cases v) (simp_all add: pq_elems_def)

lemma pq_elems_nth: "n \<le> length v \<Longrightarrow> i < n - 1 \<Longrightarrow> pq_elems n v ! i = v ! Suc i"
  by (simp add: pq_elems_def nth_tl)

lemma pq_elems_set: "n \<le> length v \<Longrightarrow> set (pq_elems n v) = (\<lambda>i. v ! i) ` {1..<n}"
proof -
  assume n: "n \<le> length v"
  have "set (pq_elems n v) = (\<lambda>i. v ! Suc i) ` {0..<n - 1}"
    using n by (auto simp: set_conv_nth pq_elems_nth image_iff) (metis pq_elems_nth One_nat_def)
  also have "\<dots> = (\<lambda>i. v ! i) ` (Suc ` {0..<n - 1})" by (simp only: image_image)
  also have "Suc ` {0..<n - 1} = {1..<n}" by (cases n) (auto simp: image_Suc_atLeastLessThan)
  finally show ?thesis .
qed

lemma pq_elems_swap:
  assumes "0 < i" "0 < j" "i < n" "j < n" "n \<le> length v"
  shows "mset (pq_elems n (v[i := v ! j, j := v ! i])) = mset (pq_elems n v)"
proof -
  obtain x w where v: "v = x # w" using assms by (cases v) auto
  obtain i' j' n' where ijn: "i = Suc i'" "j = Suc j'" "n = Suc n'"
    using assms by (metis not0_implies_Suc less_imp_Suc_add zero_less_iff_neq_zero)
  have "mset ((take n' w)[i' := take n' w ! j', j' := take n' w ! i']) = mset (take n' w)"
    using assms ijn v by (intro mset_swap_list) auto
  then show ?thesis using assms ijn v by (simp add: pq_elems_def take_update_swap)
qed

lemma pq_place_simps [simp]:
  "pq_size (pq_place q i x) = pq_size q" "pq_avail (pq_place q i x) = pq_avail q"
  "pq_step (pq_place q i x) = pq_step q" "pq_locked (pq_place q i x) = pq_locked q"
  "pq_pri (pq_place q i x) = pq_pri q" "pq_d (pq_place q i x) = (pq_d q)[i := x]"
  "pq_pos (pq_place q i x) = (pq_pos q)(x := i)"
  by (simp_all add: pq_place_def)

text \<open>
  The loops move a hole. \<open>hole q i m\<close> says that the queue is well formed up to the hole at
  \<open>i\<close> when the moving element \<open>m\<close> is thought to sit there.
\<close>

definition hole :: "pqueue_t \<Rightarrow> nat \<Rightarrow> addr \<Rightarrow> bool" where
  "hole q i m \<longleftrightarrow> 1 \<le> i \<and> i < length (pq_d q) \<and> pq_size q \<le> length (pq_d q) \<and>
     distinct (pq_elems (pq_size q) ((pq_d q)[i := m])) \<and>
     (\<forall>j. 1 \<le> j \<and> j < pq_size q \<and> j \<noteq> i \<longrightarrow> pq_pos q (pq_d q ! j) = j)"

definition hole_keys :: "pqueue_t \<Rightarrow> nat \<Rightarrow> addr \<Rightarrow> nat \<Rightarrow> u64" where
  "hole_keys q i m j = pq_pri q ((pq_d q)[i := m] ! j)"

definition hole_elems :: "pqueue_t \<Rightarrow> nat \<Rightarrow> addr \<Rightarrow> addr multiset" where
  "hole_elems q i m = mset (pq_elems (pq_size q) ((pq_d q)[i := m]))"

text \<open>The outcome of a sifting loop: everything but positions and the order of the array is kept.\<close>

definition sifted :: "pqueue_t \<Rightarrow> nat \<Rightarrow> addr \<Rightarrow> pqueue_t \<Rightarrow> bool" where
  "sifted q i m q' \<longleftrightarrow> pq_size q' = pq_size q \<and> pq_avail q' = pq_avail q \<and> pq_step q' = pq_step q \<and>
     length (pq_d q') = length (pq_d q) \<and>
     pq_locked q' = pq_locked q \<and> pq_pri q' = pq_pri q \<and> pq_contents q' = hole_elems q i m"


lemma pq_elems_inj:
  assumes "distinct (pq_elems n v)" "n \<le> length v" "1 \<le> i" "i < n" "1 \<le> j" "j < n" "v ! i = v ! j"
  shows "i = j"
proof -
  obtain i' j' where "i = Suc i'" "j = Suc j'" using assms(3,5) by (metis not_one_le_zero old.nat.exhaust)
  then show ?thesis
    using assms nth_eq_iff_index_eq [OF assms(1), of i' j'] by (simp add: pq_elems_nth less_diff_conv)
qed

lemma hole_step:
  assumes h: "hole q i m" and i: "i < pq_size q" and p: "1 \<le> p" "p < pq_size q" "p \<noteq> i"
  shows "hole (pq_place q i (pq_d q ! p)) p m"
    and "hole_keys (pq_place q i (pq_d q ! p)) p m = swap_keys (hole_keys q i m) i p"
    and "hole_elems (pq_place q i (pq_d q ! p)) p m = hole_elems q i m"
proof -
  let ?d = "pq_d q" and ?n = "pq_size q"
  let ?v = "?d[i := m]"
  have len: "?n \<le> length ?d" "1 \<le> i" "i < length ?d" "p < length ?d" using h i p by (auto simp: hole_def)
  have v': "?d[i := ?d ! p, p := m] = ?v[i := ?v ! p, p := ?v ! i]" using p len by simp
  have ms: "mset (pq_elems ?n (?d[i := ?d ! p, p := m])) = mset (pq_elems ?n ?v)"
    unfolding v' using len i p by (intro pq_elems_swap) auto
  then show "hole_elems (pq_place q i (?d ! p)) p m = hole_elems q i m"
    by (simp add: hole_elems_def)
  have dist: "distinct (pq_elems ?n ?v)" using h by (simp add: hole_def)
  have "(?d[i := ?d ! p, p := m]) ! j = swap_keys (\<lambda>j. ?v ! j) i p j" for j
    using len p by (auto simp: swap_keys_def nth_list_update)
  then show "hole_keys (pq_place q i (?d ! p)) p m = swap_keys (hole_keys q i m) i p"
    by (auto simp: hole_keys_def swap_keys_def fun_eq_iff)
  have "((pq_pos q)(?d ! p := i)) (?d[i := ?d ! p] ! j) = j" if j: "1 \<le> j" "j < ?n" "j \<noteq> p" for j
  proof (cases "j = i")
    case False
    have "?d ! j \<noteq> ?d ! p"
      using pq_elems_inj [OF dist, of j p] j p False len by auto
    then show ?thesis using False h j by (simp add: hole_def)
  qed (use len in simp)
  moreover have "distinct (pq_elems ?n (?d[i := ?d ! p, p := m]))"
    using ms dist by (metis mset_eq_imp_distinct_iff)
  ultimately show "hole (pq_place q i (?d ! p)) p m"
    using h p len by (simp add: hole_def)
qed

lemma hole_fill:
  assumes h: "hole q i m" and i: "i < pq_size q"
  shows "pq_wf (pq_place q i m)" "sifted q i m (pq_place q i m)"
    "pq_pri_at (pq_place q i m) = hole_keys q i m"
proof -
  let ?d = "pq_d q" and ?n = "pq_size q"
  have "((pq_pos q)(m := i)) (?d[i := m] ! j) = j" if j: "1 \<le> j" "j < ?n" for j
  proof (cases "j = i")
    case False
    have "?d[i := m] ! j \<noteq> ?d[i := m] ! i"
      using h i j False by (intro notI) (drule pq_elems_inj [rotated -1], auto simp: hole_def)
    then show ?thesis using False h j by (auto simp: hole_def)
  qed (use h in \<open>simp add: hole_def\<close>)
  then show "pq_wf (pq_place q i m)" using h i by (simp add: pq_wf_def hole_def)
  show "sifted q i m (pq_place q i m)"
    by (simp add: sifted_def pq_contents_def hole_elems_def)
  show "pq_pri_at (pq_place q i m) = hole_keys q i m"
    by (simp add: hole_keys_def fun_eq_iff)
qed

lemma sifted_trans:
  assumes "sifted (pq_place q i x) p m q'" "hole_elems (pq_place q i x) p m = hole_elems q i m"
  shows "sifted q i m q'"
  using assms by (simp add: sifted_def)

context pri_order
begin

lemma pq_ordered_iff: "pq_ordered cmp q \<longleftrightarrow> heap_ordered (pq_pri_at q) (pq_size q)"
  by (auto simp: pq_ordered_def heap_ordered_def)

lemma bubble_up_loop_ok:
  assumes "hole q i m" "i < pq_size q" "up_ok (hole_keys q i m) (pq_size q) i"
  shows "pq_wf (bubble_up_loop cmp q i m) \<and> pq_ordered cmp (bubble_up_loop cmp q i m) \<and>
    sifted q i m (bubble_up_loop cmp q i m)"
  using assms
proof (induction i arbitrary: q rule: less_induct)
  case (less i)
  let ?p = "i div 2"
  have k: "hole_keys q i m i = pq_pri q m" "i \<noteq> ?p \<Longrightarrow> hole_keys q i m ?p = pq_pri_at q ?p"
    using less.prems(1) by (auto simp: hole_keys_def hole_def)
  show ?case
  proof (cases "1 < i \<and> cmp (pq_pri_at q ?p) (pq_pri q m)")
    case True
    then have p: "?p < i" "1 \<le> ?p" "?p < pq_size q" "?p \<noteq> i" using less.prems(2) by auto
    let ?q = "pq_place q i (pq_d q ! ?p)"
    have "up_ok (swap_keys (hole_keys q i m) i ?p) (pq_size q) ?p"
      using up_step [OF less.prems(3)] True k p by simp
    then have "pq_wf (bubble_up_loop cmp ?q ?p m) \<and> pq_ordered cmp (bubble_up_loop cmp ?q ?p m) \<and>
        sifted ?q ?p m (bubble_up_loop cmp ?q ?p m)"
      using less.IH [OF p(1)] hole_step [OF less.prems(1,2) p(2,3,4)] p by simp
    then show ?thesis
      using True sifted_trans hole_step(3) [OF less.prems(1,2) p(2,3,4)]
      by (subst (1 2 3) bubble_up_loop.simps) auto
  next
    case False
    have "heap_ordered (hole_keys q i m) (pq_size q)"
      using up_done [OF less.prems(3)] False k less.prems(1) by (cases "1 < i") auto
    then show ?thesis
      using False hole_fill [OF less.prems(1,2)]
      by (subst (1 2 3) bubble_up_loop.simps) (auto simp: pq_ordered_iff)
  qed
qed

lemma maxchild_ok:
  assumes "1 \<le> i" "i < pq_size q"
  obtains "maxchild cmp q i = 0" "\<And>j. j div 2 = i \<Longrightarrow> pq_size q \<le> j"
  | "maxchild cmp q i \<noteq> 0" "maxchild cmp q i div 2 = i" "maxchild cmp q i < pq_size q"
    "i < maxchild cmp q i"
    "\<And>j. j < pq_size q \<Longrightarrow> j div 2 = i \<Longrightarrow> \<not> cmp (pq_pri_at q (maxchild cmp q i)) (pq_pri_at q j)"
proof (cases "maxchild cmp q i = 0")
  case True
  then have "pq_size q \<le> 2 * i" using assms by (auto simp: maxchild_def Let_def split: if_splits)
  with True show ?thesis by (intro that(1)) auto
next
  case False
  have c: "maxchild cmp q i div 2 = i" using False by (auto simp: maxchild_def Let_def split: if_splits)
  have "\<not> cmp (pq_pri_at q (maxchild cmp q i)) (pq_pri_at q j)" if "j < pq_size q" "j div 2 = i" for j
  proof -
    have "j = 2 * i \<or> j = 2 * i + 1" using that(2) by presburger
    then show ?thesis using that(1) asym le_refl by (auto simp: maxchild_def Let_def)
  qed
  with False c maxchild_range [OF False] show ?thesis by (intro that(2)) auto
qed

lemma percolate_down_loop_ok:
  assumes "hole q i m" "i < pq_size q" "down_ok (hole_keys q i m) (pq_size q) i"
  shows "pq_wf (percolate_down_loop cmp q i m) \<and> pq_ordered cmp (percolate_down_loop cmp q i m) \<and>
    sifted q i m (percolate_down_loop cmp q i m)"
  using assms
proof (induction "pq_size q - i" arbitrary: q i rule: less_induct)
  case less
  have i1: "1 \<le> i" using less.prems(1) by (simp add: hole_def)
  let ?c = "maxchild cmp q i"
  have k: "hole_keys q i m i = pq_pri q m" "j \<noteq> i \<Longrightarrow> hole_keys q i m j = pq_pri_at q j" for j
    using less.prems(1) by (auto simp: hole_keys_def hole_def)
  have stop: ?case if "heap_ordered (hole_keys q i m) (pq_size q)" "?c = 0 \<or> \<not> cmp (pq_pri q m) (pq_pri_at q ?c)"
    using that hole_fill [OF less.prems(1,2)]
    by (subst (1 2 3) percolate_down_loop.simps) (auto simp: pq_ordered_iff Let_def)
  show ?case
  proof (cases rule: maxchild_ok [OF i1 less.prems(2)])
    case 1
    then show ?thesis using stop down_done [OF less.prems(3)] by (metis not_le)
  next
    case 2
    have kc: "hole_keys q i m ?c = pq_pri_at q ?c" using 2 k by auto
    have best: "\<not> cmp (hole_keys q i m ?c) (hole_keys q i m j)" if "Suc 0 < j" "j < pq_size q" "j div 2 = i" for j
      using 2(5) [OF that(2,3)] that k(2) [of j] kc par_less [OF that(1)] by auto
    show ?thesis
    proof (cases "cmp (pq_pri q m) (pq_pri_at q ?c)")
      case True
      let ?q = "pq_place q i (pq_d q ! ?c)"
      have c: "1 \<le> ?c" "Suc 0 < ?c" "?c \<noteq> i" using 2 i1 by auto
      have "down_ok (swap_keys (hole_keys q i m) i ?c) (pq_size q) ?c"
        using down_step [OF less.prems(3) c(2) 2(3,2)] best True k kc by auto
      then have "pq_wf (percolate_down_loop cmp ?q ?c m) \<and> pq_ordered cmp (percolate_down_loop cmp ?q ?c m) \<and>
          sifted ?q ?c m (percolate_down_loop cmp ?q ?c m)"
        using less.hyps [of ?q ?c] hole_step [OF less.prems(1,2) c(1) 2(3) c(3)] 2(3,4) by simp
      then show ?thesis
        using True 2(1) sifted_trans hole_step(3) [OF less.prems(1,2) c(1) 2(3) c(3)]
        by (subst (1 2 3) percolate_down_loop.simps) (auto simp: Let_def)
    next
      case False
      have "\<not> cmp (hole_keys q i m i) (hole_keys q i m j)" if "Suc 0 < j" "j < pq_size q" "j div 2 = i" for j
        using neg_trans [OF _ best [OF that]] False k kc by simp
      then show ?thesis using stop down_done [OF less.prems(3)] False by blast
    qed
  qed
qed


text \<open>The two sifting functions, started at an element that is in place.\<close>

lemma hole_self [simp]:
  "hole_keys q i (pq_d q ! i) = pq_pri_at q" "hole_elems q i (pq_d q ! i) = pq_contents q"
  by (auto simp: hole_keys_def hole_elems_def pq_contents_def)

lemma bubble_up_ok:
  assumes "hole q i (pq_d q ! i)" "i < pq_size q" "up_ok (pq_pri_at q) (pq_size q) i"
  shows "\<exists>q'. bubble_up cmp q i = Some q' \<and> pq_wf q' \<and> pq_ordered cmp q' \<and> sifted q i (pq_d q ! i) q'"
  using bubble_up_loop_ok [OF assms(1,2)] assms by (simp add: bubble_up_def hole_def)

lemma percolate_down_ok:
  assumes "hole q i (pq_d q ! i)" "i < pq_size q" "down_ok (pq_pri_at q) (pq_size q) i"
  shows "\<exists>q'. percolate_down cmp q i = Some q' \<and> pq_wf q' \<and> pq_ordered cmp q' \<and> sifted q i (pq_d q ! i) q'"
  using percolate_down_loop_ok [OF assms(1,2)] assms by (simp add: percolate_down_def hole_def)

end

lemma mset_remove_distinct: "distinct xs \<Longrightarrow> mset ys = mset xs - {#x#} \<Longrightarrow> distinct ys"
  by (metis distinct_remove1 mset_eq_imp_distinct_iff mset_remove1)

lemma pq_elems_take_last:
  assumes "1 \<le> p" "p < n" "n \<le> length v"
  shows "mset (pq_elems (n - 1) (v[p := v ! (n - 1)])) = mset (pq_elems n v) - {#v ! p#}"
proof -
  obtain x w where v: "v = x # w" using assms by (cases v) auto
  have "p = Suc (p - 1)" "n = Suc (Suc (n - 2))" using assms by auto
  then obtain r N where r: "p = Suc r" "n = Suc (Suc N)" by blast
  have N: "N < length w" "r \<le> N" using assms v r by auto
  have all: "mset (take (Suc N) w) = add_mset (w ! N) (mset (take N w))"
    using N by (simp add: take_Suc_conv_app_nth)
  have "mset (take N (w[r := w ! N])) = mset (take (Suc N) w) - {#w ! r#}"
  proof (cases "r = N")
    case True
    then show ?thesis using all by simp
  next
    case False
    then have rN: "r < N" using N by simp
    have "mset (take N (w[r := w ! N])) = add_mset (w ! N) (mset (take N w) - {#w ! r#})"
      using rN N by (simp add: take_update_swap mset_update)
    moreover have "w ! r \<in># mset (take N w)" using rN N by (auto simp: in_set_conv_nth)
    ultimately show ?thesis using all by simp
  qed
  then show ?thesis using v r by (simp add: pq_elems_def)
qed

text \<open>
  Both pop and remove move the last element into the freed position \<open>p\<close>. This is the state
  after the move, with its hole, its keys and its contents.
\<close>

definition pq_shrink :: "pqueue_t \<Rightarrow> nat \<Rightarrow> pqueue_t" where
  "pq_shrink q p = q\<lparr> pq_size := pq_size q - 1, pq_d := (pq_d q)[p := pq_d q ! (pq_size q - 1)] \<rparr>"

lemma pq_shrink_simps [simp]:
  "pq_size (pq_shrink q p) = pq_size q - 1" "pq_avail (pq_shrink q p) = pq_avail q"
  "pq_step (pq_shrink q p) = pq_step q" "pq_locked (pq_shrink q p) = pq_locked q"
  "pq_pri (pq_shrink q p) = pq_pri q" "pq_pos (pq_shrink q p) = pq_pos q"
  "pq_d (pq_shrink q p) = (pq_d q)[p := pq_d q ! (pq_size q - 1)]"
  by (simp_all add: pq_shrink_def)

lemma pq_shrink_contents:
  assumes "pq_wf q" "1 \<le> p" "p < pq_size q"
  shows "pq_contents (pq_shrink q p) = pq_contents q - {#pq_d q ! p#}"
    and "distinct (pq_elems (pq_size q - 1) (pq_d (pq_shrink q p)))"
proof -
  show c: "pq_contents (pq_shrink q p) = pq_contents q - {#pq_d q ! p#}"
    using assms pq_elems_take_last [of p "pq_size q" "pq_d q"] by (simp add: pq_contents_def pq_wf_def)
  show "distinct (pq_elems (pq_size q - 1) (pq_d (pq_shrink q p)))"
    using c assms(1) mset_remove_distinct by (fastforce simp: pq_contents_def pq_wf_def)
qed

lemma pq_shrink_hole:
  assumes "pq_wf q" "1 \<le> p" "p < pq_size q - 1"
  shows "hole (pq_shrink q p) p (pq_d (pq_shrink q p) ! p)"
  using assms pq_shrink_contents(2) [of q p] by (auto simp: hole_def pq_wf_def)

lemma pq_shrink_wf_last:
  assumes "pq_wf q" "2 \<le> pq_size q"
  shows "pq_wf (pq_shrink q (pq_size q - 1))"
  using assms pq_shrink_contents(2) [of q "pq_size q - 1"]
  by (auto simp: pq_wf_def)

section \<open>What each operation does\<close>

lemma pq_contents_iff:
  assumes "pq_wf q"
  shows "x \<in># pq_contents q \<longleftrightarrow> (\<exists>i. 1 \<le> i \<and> i < pq_size q \<and> pq_d q ! i = x)"
  using assms pq_elems_set [of "pq_size q" "pq_d q"] by (auto simp: pq_contents_def pq_wf_def)

lemma pq_size_contents: "pq_wf q \<Longrightarrow> pqueue_size q = size (pq_contents q)"
  by (simp add: pqueue_size_def pq_contents_def pq_wf_def)

lemma pq_pos_contents:
  assumes "pq_wf q" "x \<in># pq_contents q"
  shows "1 \<le> pq_pos q x" "pq_pos q x < pq_size q" "pq_d q ! pq_pos q x = x"
  using assms by (auto simp: pq_contents_iff pq_wf_def)

lemma pq_contents_locked [simp]: "pq_contents (q\<lparr>pq_locked := b\<rparr>) = pq_contents q"
  and pq_wf_locked [simp]: "pq_wf (q\<lparr>pq_locked := b\<rparr>) = pq_wf q"
  and pq_ordered_locked [simp]: "pq_ordered cmp (q\<lparr>pq_locked := b\<rparr>) = pq_ordered cmp q"
  by (simp_all add: pq_contents_def pq_wf_def pq_ordered_def)

text \<open>An operation that only rearranges: the next queue is valid, unlocked and keeps its storage.\<close>

definition pq_next :: "pq_cmp \<Rightarrow> pqueue_t \<Rightarrow> pqueue_t \<Rightarrow> bool" where
  "pq_next cmp q q' \<longleftrightarrow> pq_wf q' \<and> pq_ordered cmp q' \<and> \<not> pq_locked q' \<and>
     length (pq_d q') = length (pq_d q) \<and> pq_avail q' = pq_avail q \<and> pq_step q' = pq_step q"

lemma pq_next_inv: "pq_inv cmp q \<Longrightarrow> pq_next cmp q q' \<Longrightarrow> pq_inv cmp q'"
  by (simp add: pq_inv_def pq_next_def)

lemma pq_next_sifted:
  assumes "pq_wf q'" "pq_ordered cmp q'" "sifted q1 i m q'"
    "length (pq_d q1) = length (pq_d q)" "pq_avail q1 = pq_avail q" "pq_step q1 = pq_step q"
  shows "pq_next cmp q (pqueue_unlock_internal q')"
  using assms by (simp add: pq_next_def sifted_def pqueue_unlock_internal_def)

lemma sifted_self:
  assumes "sifted q i (pq_d q ! i) q'"
  shows "pq_contents q' = pq_contents q" "pq_pri q' = pq_pri q"
  using assms by (auto simp: sifted_def hole_elems_def pq_contents_def)

context pri_order
begin

lemma pqueue_insert_ok:
  assumes inv: "pq_inv cmp q" and x: "x \<notin># pq_contents q"
  shows "\<exists>q'. pqueue_insert True cmp q x = Some (q', Q_OK) \<and> pq_inv cmp q' \<and>
     pq_contents q' = add_mset x (pq_contents q) \<and> pq_pri q' = pq_pri q"
proof -
  let ?n = "pq_size q"
  define q1 where "q1 = pq_grow (q\<lparr>pq_locked := True\<rparr>)"
  define q2 where "q2 = q1\<lparr> pq_size := ?n + 1, pq_d := (pq_d q1)[?n := x] \<rparr>"
  have wf: "pq_wf q" "1 \<le> ?n" "?n \<le> length (pq_d q)" "length (pq_d q) = pq_avail q" "0 < pq_step q"
    using inv by (auto simp: pq_inv_def pq_wf_def)
  have q1: "pq_size q1 = ?n" "?n < length (pq_d q1)" "length (pq_d q1) = pq_avail q1" "pq_pri q1 = pq_pri q"
    "pq_pos q1 = pq_pos q" "pq_step q1 = pq_step q" "pq_locked q1"
    and nth: "j < ?n \<Longrightarrow> pq_d q1 ! j = pq_d q ! j" for j
    using wf by (auto simp: q1_def pq_grow_def Let_def nth_append)
  have tk: "take ?n (pq_d q1) = take ?n (pq_d q)" using wf by (auto simp: q1_def pq_grow_def Let_def)
  have "pq_elems (Suc ?n) ((pq_d q1)[?n := x]) = pq_elems ?n (pq_d q) @ [x]"
  proof -
    have "take ?n (pq_d q) \<noteq> []" using wf(2,3) by auto
    then show ?thesis using q1(2) tk by (simp add: pq_elems_def take_Suc_conv_app_nth)
  qed
  then have el: "pq_contents q2 = add_mset x (pq_contents q)" "distinct (pq_elems (pq_size q2) (pq_d q2))"
    using wf(1) x by (auto simp: q2_def pq_contents_def pq_wf_def)
  have h: "hole q2 ?n (pq_d q2 ! ?n)"
    using el(2) q1 nth wf by (auto simp: hole_def q2_def pq_wf_def nth_list_update)
  have "up_ok (pq_pri_at q2) (Suc ?n) ?n"
    using append_up_ok [of "pq_pri_at q" ?n "pq_pri_at q2"] inv nth wf q1
    by (auto simp: q2_def pq_inv_def pq_ordered_iff)
  then obtain q3 where q3: "bubble_up cmp q2 ?n = Some q3" "pq_wf q3" "pq_ordered cmp q3" "sifted q2 ?n (pq_d q2 ! ?n) q3"
    using bubble_up_ok [OF h] by (auto simp: q2_def)
  have "pqueue_insert True cmp q x = Some (pqueue_unlock_internal q3, Q_OK)"
    using inv q3(1) q1(1,2)
    by (simp add: pqueue_insert_def pqueue_lock_internal_def pq_inv_def Let_def q1_def [symmetric] q2_def)
  moreover have "pq_inv cmp (pqueue_unlock_internal q3)"
    using q3 q1 wf by (simp add: pq_inv_def pqueue_unlock_internal_def sifted_def q2_def)
  moreover have "pq_contents q3 = add_mset x (pq_contents q)" "pq_pri q3 = pq_pri q"
    using sifted_self [OF q3(4)] el(1) q1(4) by (simp_all add: q2_def)
  ultimately show ?thesis by (simp add: pqueue_unlock_internal_def)
qed

text \<open>Percolating down from the end of the heap only rewrites the slot it starts at.\<close>

lemma percolate_down_last:
  assumes "pq_size q \<le> i" "i < length (pq_d q)" "1 \<le> i"
  shows "percolate_down cmp q i = Some (pq_place q i (pq_d q ! i))"
  using assms by (simp add: percolate_down_def percolate_down_loop.simps [of cmp q i] maxchild_def Let_def)

lemma shrink_keys: "p < length (pq_d q) \<Longrightarrow> j \<noteq> p \<Longrightarrow> pq_pri_at (pq_shrink q p) j = pq_pri_at q j"
  by simp

lemma shrink_down:
  assumes "pq_wf q" "pq_ordered cmp q" "1 \<le> p" "p < pq_size q - 1"
    "\<not> cmp (pq_pri_at q p) (pq_pri_at q (pq_size q - 1))"
  shows "\<exists>q'. percolate_down cmp (pq_shrink q p) p = Some q' \<and> pq_wf q' \<and> pq_ordered cmp q' \<and>
    sifted (pq_shrink q p) p (pq_d (pq_shrink q p) ! p) q'"
proof -
  have "heap_ordered (pq_pri_at q) (pq_size q - 1)"
    using assms(2) heap_ordered_mono unfolding pq_ordered_iff by (metis diff_le_self)
  then have "down_ok (pq_pri_at (pq_shrink q p)) (pq_size q - 1) p"
    using assms by (intro increase_down_ok) (auto simp: pq_wf_def)
  then show ?thesis using percolate_down_ok [OF pq_shrink_hole [OF assms(1,3,4)]] assms(4) by simp
qed

lemma shrink_up:
  assumes "pq_wf q" "pq_ordered cmp q" "1 \<le> p" "p < pq_size q - 1"
    "cmp (pq_pri_at q p) (pq_pri_at q (pq_size q - 1))"
  shows "\<exists>q'. bubble_up cmp (pq_shrink q p) p = Some q' \<and> pq_wf q' \<and> pq_ordered cmp q' \<and>
    sifted (pq_shrink q p) p (pq_d (pq_shrink q p) ! p) q'"
proof -
  have "heap_ordered (pq_pri_at q) (pq_size q - 1)"
    using assms(2) heap_ordered_mono unfolding pq_ordered_iff by (metis diff_le_self)
  then have "up_ok (pq_pri_at (pq_shrink q p)) (pq_size q - 1) p"
    using assms asym by (intro decrease_up_ok) (auto simp: pq_wf_def)
  then show ?thesis using bubble_up_ok [OF pq_shrink_hole [OF assms(1,3,4)]] assms(4) by simp
qed

lemma pqueue_pop_ok:
  assumes q: "pq_wf q" "pq_ordered cmp q" "\<not> pq_locked q" and ne: "pq_contents q \<noteq> {#}"
  shows "\<exists>q' x. pqueue_pop cmp q = Some (q', Some x, Q_OK) \<and> pq_next cmp q q' \<and> x \<in># pq_contents q \<and>
     pq_contents q' = pq_contents q - {#x#} \<and> pq_pri q' = pq_pri q \<and>
     (\<forall>y \<in># pq_contents q. \<not> cmp (pq_pri q x) (pq_pri q y)) \<and> x = pq_d q ! 1"
proof -
  let ?n = "pq_size q" and ?q = "q\<lparr>pq_locked := True\<rparr>"
  have n: "1 < ?n" "?n \<le> length (pq_d q)"
    using ne q(1) pq_contents_iff [OF q(1)] by (auto simp: pq_wf_def multiset_eq_iff)
  have n': "?n - Suc 0 < length (pq_d q)" using n by simp
  let ?x = "pq_d q ! 1"
  have best: "\<forall>y \<in># pq_contents q. \<not> cmp (pq_pri q ?x) (pq_pri q y)"
    using root_least [of "pq_pri_at q" ?n] q(1,2) by (auto simp: pq_contents_iff pq_ordered_iff)
  have last_in: "pq_d q ! (?n - 1) \<in># pq_contents q"
    using n by (subst pq_contents_iff [OF q(1)]) (auto intro!: exI [of _ "?n - 1"])
  have wf1: "pq_wf ?q" "pq_ordered cmp ?q" using q by auto
  have ex: "pqueue_pop cmp q =
      (do { q \<leftarrow> percolate_down cmp (pq_shrink ?q 1) 1; Some (pqueue_unlock_internal q, Some ?x, Q_OK) })"
    using n n' q(3) by (simp add: pqueue_pop_def pqueue_pop_internal_def pqueue_lock_internal_def
        pqueue_take_def pq_shrink_def Let_def)
  have c: "pq_contents (pq_shrink ?q 1) = pq_contents q - {#?x#}"
    using pq_shrink_contents(1) [OF wf1(1), of 1] n by simp
  show ?thesis
  proof (cases "?n = 2")
    case True
    let ?p = "pq_place (pq_shrink ?q 1) 1 (pq_d (pq_shrink ?q 1) ! 1)"
    have "percolate_down cmp (pq_shrink ?q 1) 1 = Some ?p"
      using True n by (intro percolate_down_last) auto
    moreover have "pq_contents ?p = {#}" using True by (simp add: pq_contents_def)
    moreover have "pq_contents (pq_shrink ?q 1) = {#}" using True by (simp add: pq_contents_def)
    moreover have "pq_next cmp q (pqueue_unlock_internal ?p)"
      using True n by (simp add: pq_next_def pqueue_unlock_internal_def pq_wf_def pq_ordered_def)
    moreover have "?x \<in># pq_contents q" using n by (auto simp: pq_contents_iff [OF q(1)])
    ultimately show ?thesis using ex best c by (simp add: pqueue_unlock_internal_def)
  next
    case False
    then have p: "(1::nat) \<le> 1" "1 < pq_size ?q - 1" using n by auto
    have "\<not> cmp (pq_pri_at ?q 1) (pq_pri_at ?q (pq_size ?q - 1))" using best last_in by simp
    from shrink_down [OF wf1 p this] obtain q1 where
      q1: "percolate_down cmp (pq_shrink ?q 1) 1 = Some q1" "pq_wf q1" "pq_ordered cmp q1"
        "sifted (pq_shrink ?q 1) 1 (pq_d (pq_shrink ?q 1) ! 1) q1" by blast
    moreover have "pq_next cmp q (pqueue_unlock_internal q1)"
      using pq_next_sifted [OF q1(2-4)] by simp
    moreover have "?x \<in># pq_contents q" using n by (auto simp: pq_contents_iff [OF q(1)])
    ultimately show ?thesis
      using sifted_self [OF q1(4)] ex best c by (simp add: pqueue_unlock_internal_def)
  qed
qed

lemma pqueue_remove_ok:
  assumes inv: "pq_inv cmp q" and x: "x \<in># pq_contents q"
  shows "\<exists>q'. pqueue_remove cmp q x = Some (q', Q_OK) \<and> pq_inv cmp q' \<and>
     pq_contents q' = pq_contents q - {#x#} \<and> pq_pri q' = pq_pri q"
proof -
  let ?n = "pq_size q" and ?q = "q\<lparr>pq_locked := True\<rparr>" and ?p = "pq_pos q x"
  have q: "pq_wf q" "pq_ordered cmp q" "\<not> pq_locked q" using inv by (auto simp: pq_inv_def)
  then have wf1: "pq_wf ?q" "pq_ordered cmp ?q" by auto
  have p: "1 \<le> ?p" "?p < ?n" "pq_d q ! ?p = x" using pq_pos_contents [OF q(1) x] by auto
  have n: "?n \<le> length (pq_d q)" "?n - Suc 0 < length (pq_d q)" "?p < length (pq_d q)"
    using q(1) p by (auto simp: pq_wf_def)
  have c: "pq_contents (pq_shrink ?q ?p) = pq_contents q - {#x#}"
    using pq_shrink_contents(1) [OF wf1(1), of ?p] p by simp
  have ex: "pqueue_remove cmp q x =
     (do { q \<leftarrow> (if cmp (pq_pri q x) (pq_pri_at q (?n - 1)) then bubble_up cmp (pq_shrink ?q ?p) ?p
                  else percolate_down cmp (pq_shrink ?q ?p) ?p);
           Some (pqueue_unlock_internal q, Q_OK) })"
    using n p q(3) by (simp add: pqueue_remove_def pqueue_lock_internal_def pq_shrink_def Let_def)
  show ?thesis
  proof (cases "?p = ?n - 1")
    case True
    let ?s = "pq_place (pq_shrink ?q ?p) ?p (pq_d (pq_shrink ?q ?p) ! ?p)"
    have "percolate_down cmp (pq_shrink ?q ?p) ?p = Some ?s"
      using True n p by (intro percolate_down_last) auto
    moreover have "\<not> cmp (pq_pri q x) (pq_pri_at q (?n - 1))" using True p(3) le_refl by simp
    moreover have "?s = q\<lparr> pq_size := ?n - 1, pq_locked := True \<rparr>"
    proof -
      have "(pq_d q)[?p := x] = pq_d q" "(pq_pos q)(x := ?p) = pq_pos q"
        using list_update_id [of "pq_d q" ?p] p(3) by auto
      then show ?thesis using True p(3) n by (simp add: pq_place_def pq_shrink_def)
    qed
    moreover have "pq_inv cmp (q\<lparr> pq_size := ?n - 1, pq_locked := False \<rparr>)"
    proof -
      have "pq_wf (q\<lparr> pq_size := ?n - 1 \<rparr>)"
        using pq_shrink_wf_last [OF q(1)] p True by (simp add: pq_shrink_def)
      then show ?thesis using inv by (auto simp: pq_inv_def pq_ordered_def pq_wf_def)
    qed
    moreover have "pq_contents (q\<lparr> pq_size := ?n - 1, pq_locked := False \<rparr>) = pq_contents q - {#x#}"
      using c True by (simp add: pq_contents_def)
    ultimately show ?thesis using ex by (simp add: pqueue_unlock_internal_def)
  next
    case False
    then have p': "?p < pq_size ?q - 1" using p by simp
    obtain q1 where q1: "(if cmp (pq_pri q x) (pq_pri_at q (?n - 1)) then bubble_up cmp (pq_shrink ?q ?p) ?p
                  else percolate_down cmp (pq_shrink ?q ?p) ?p) = Some q1" "pq_wf q1" "pq_ordered cmp q1"
      "sifted (pq_shrink ?q ?p) ?p (pq_d (pq_shrink ?q ?p) ! ?p) q1"
      using shrink_down [OF wf1 p(1) p'] shrink_up [OF wf1 p(1) p'] p(3)
      by (cases "cmp (pq_pri q x) (pq_pri_at q (?n - 1))") auto
    have "pq_next cmp q (pqueue_unlock_internal q1)" using pq_next_sifted [OF q1(2-4)] by simp
    then have "pq_inv cmp (pqueue_unlock_internal q1)" using pq_next_inv [OF inv] by blast
    then show ?thesis
      using sifted_self [OF q1(4)] q1(1) ex c by (simp add: pqueue_unlock_internal_def)
  qed
qed

lemma pqueue_change_priority_ok:
  assumes inv: "pq_inv cmp q" and x: "x \<in># pq_contents q"
  shows "\<exists>q'. pqueue_change_priority cmp q new x = Some (q', Q_OK) \<and> pq_inv cmp q' \<and>
     pq_contents q' = pq_contents q \<and> pq_pri q' = (pq_pri q)(x := new)"
proof -
  let ?n = "pq_size q" and ?p = "pq_pos q x"
  let ?q = "q\<lparr>pq_locked := True, pq_pri := (pq_pri q)(x := new)\<rparr>"
  have q: "pq_wf q" "pq_ordered cmp q" "\<not> pq_locked q" using inv by (auto simp: pq_inv_def)
  have p: "1 \<le> ?p" "?p < ?n" "pq_d q ! ?p = x" using pq_pos_contents [OF q(1) x] by auto
  have "(pq_d q)[?p := x] = pq_d q" using list_update_id [of "pq_d q" ?p] p(3) by simp
  then have h: "hole ?q ?p (pq_d ?q ! ?p)" using q(1) p by (auto simp: hole_def pq_wf_def)
  define k where "k j = (if 1 \<le> j \<and> j < ?n then pq_pri_at q j else pq_pri_at ?q j)" for j
  have ord: "heap_ordered k ?n"
    using q(2) by (intro heap_ordered_cong [of ?n k "pq_pri_at q"]) (auto simp: k_def pq_ordered_iff)
  have same: "pq_pri_at ?q j = k j" if "j \<noteq> ?p" for j
    using that q(1) p by (auto simp: k_def pq_wf_def)
  have kp: "k ?p = pq_pri q x" "pq_pri_at ?q ?p = new" using p by (auto simp: k_def)
  have up: "cmp (pq_pri q x) new \<Longrightarrow> up_ok (pq_pri_at ?q) ?n ?p"
    using decrease_up_ok [OF ord, of "pq_pri_at ?q" ?p] same kp asym by simp
  have down: "\<not> cmp (pq_pri q x) new \<Longrightarrow> down_ok (pq_pri_at ?q) ?n ?p"
    using increase_down_ok [OF ord, of ?p "pq_pri_at ?q"] same kp by simp
  obtain q1 where q1: "(if cmp (pq_pri q x) new then bubble_up cmp ?q ?p else percolate_down cmp ?q ?p) = Some q1"
    "pq_wf q1" "pq_ordered cmp q1" "sifted ?q ?p (pq_d ?q ! ?p) q1"
    using bubble_up_ok [OF h] percolate_down_ok [OF h] up down p
    by (cases "cmp (pq_pri q x) new") auto
  have "pq_next cmp q (pqueue_unlock_internal q1)" using pq_next_sifted [OF q1(2-4)] by simp
  then have "pq_inv cmp (pqueue_unlock_internal q1)" using pq_next_inv [OF inv] by blast
  moreover have "pqueue_change_priority cmp q new x = Some (pqueue_unlock_internal q1, Q_OK)"
    using q1(1) q(3)
    by (simp add: pqueue_change_priority_def pqueue_lock_internal_def Let_def split: if_splits)
  moreover have "pq_contents ?q = pq_contents q" by (simp add: pq_contents_def)
  ultimately show ?thesis
    using sifted_self [OF q1(4)] by (simp add: pqueue_unlock_internal_def)
qed

lemma pqueue_peek_ok:
  assumes "pq_inv cmp q" "pq_contents q \<noteq> {#}"
  shows "\<exists>x. pqueue_peek q = Some (q, Some x, Q_OK) \<and> x \<in># pq_contents q \<and>
     (\<forall>y \<in># pq_contents q. \<not> cmp (pq_pri q x) (pq_pri q y)) \<and> x = pq_d q ! 1"
proof -
  have wf: "pq_wf q" "pq_ordered cmp q" "\<not> pq_locked q" using assms(1) by (auto simp: pq_inv_def)
  obtain x where "x \<in># pq_contents q" "\<forall>y \<in># pq_contents q. \<not> cmp (pq_pri q x) (pq_pri q y)" "x = pq_d q ! 1"
    using pqueue_pop_ok [OF wf assms(2)] by blast
  moreover have "pq_size q \<noteq> 1" "1 < length (pq_d q)"
  proof -
    have "0 < size (pq_contents q)" using assms(2) by (simp add: nonempty_has_size)
    then show "pq_size q \<noteq> 1" using pq_size_contents [OF wf(1)] by (simp add: pqueue_size_def)
    then show "1 < length (pq_d q)" using wf(1) by (simp add: pq_wf_def)
  qed
  moreover have "pqueue_unlock_internal (q\<lparr>pq_locked := True\<rparr>) = q"
    using wf(3) by (simp add: pqueue_unlock_internal_def)
  ultimately show ?thesis
    using wf(3) by (simp add: pqueue_peek_def pqueue_lock_internal_def)
qed

text \<open>Popping until the queue answers that it is empty, as pqueue_print does.\<close>

lemma print_loop_ok:
  assumes "pq_wf q" "pq_ordered cmp q" "\<not> pq_locked q" "pqueue_size q < n"
  shows "\<exists>q' xs. print_loop n cmp q = Some (q', xs) \<and> mset xs = pq_contents q \<and>
    sorted_wrt (\<lambda>x y. \<not> cmp (pq_pri q x) (pq_pri q y)) xs"
  using assms
proof (induction n arbitrary: q)
  case (Suc n)
  show ?case
  proof (cases "pq_contents q = {#}")
    case True
    then have "pq_size q = 1" using pq_size_contents [OF Suc.prems(1)] Suc.prems(1)
      by (simp add: pqueue_size_def pq_wf_def)
    with Suc.prems(3) True show ?thesis
      by (simp add: pqueue_pop_def pqueue_pop_internal_def pqueue_lock_internal_def)
  next
    case False
    obtain q1 x where q1: "pqueue_pop cmp q = Some (q1, Some x, Q_OK)" "pq_next cmp q q1" "x \<in># pq_contents q"
      "pq_contents q1 = pq_contents q - {#x#}" "pq_pri q1 = pq_pri q"
      "\<forall>y \<in># pq_contents q. \<not> cmp (pq_pri q x) (pq_pri q y)"
      using pqueue_pop_ok [OF Suc.prems(1-3) False] by blast
    have w: "pq_wf q1" "pq_ordered cmp q1" "\<not> pq_locked q1" using q1(2) by (auto simp: pq_next_def)
    have "pqueue_size q1 < n"
      using Suc.prems(4) q1(3,4) pq_size_contents [OF w(1)] pq_size_contents [OF Suc.prems(1)]
      by (simp add: size_Diff_singleton) (metis Suc_pred nonempty_has_size False not_less_eq)
    from Suc.IH [OF w this] obtain q2 xs where q2: "print_loop n cmp q1 = Some (q2, xs)" "mset xs = pq_contents q1"
      "sorted_wrt (\<lambda>x y. \<not> cmp (pq_pri q1 x) (pq_pri q1 y)) xs" by blast
    have "set xs \<subseteq> set_mset (pq_contents q)" by (metis in_diffD q1(4) q2(2) set_mset_mset subsetI)
    then have "sorted_wrt (\<lambda>x y. \<not> cmp (pq_pri q x) (pq_pri q y)) (x # xs)" using q1(5,6) q2(3) by auto
    moreover have "mset (x # xs) = pq_contents q" using q1(3,4) q2(2) by simp
    moreover have "print_loop (Suc n) cmp q = Some (q2, x # xs)" using q1(1) q2(1) by simp
    ultimately show ?thesis by blast
  qed
qed simp

end

sublocale pri_order \<subseteq> pq: prio_queue "pq_inv cmp" pq_contents pq_pri "\<lambda>a b. \<not> cmp a b"
  "pqueue_insert True cmp" "pqueue_pop cmp"
proof unfold_locales
  fix q x assume "pq_inv cmp q" "x \<notin># pq_contents q"
  then show "\<exists>q'. pqueue_insert True cmp q x = Some (q', Q_OK) \<and> pq_inv cmp q' \<and>
     pq_contents q' = add_mset x (pq_contents q) \<and> pq_pri q' = pq_pri q"
    by (rule pqueue_insert_ok)
next
  fix q assume q: "pq_inv cmp q" "pq_contents q \<noteq> {#}"
  then show "\<exists>q' x. pqueue_pop cmp q = Some (q', Some x, Q_OK) \<and> pq_inv cmp q' \<and> x \<in># pq_contents q \<and>
     pq_contents q' = pq_contents q - {#x#} \<and> pq_pri q' = pq_pri q \<and>
     (\<forall>y \<in># pq_contents q. \<not> cmp (pq_pri q x) (pq_pri q y))"
    using pqueue_pop_ok [of q] pq_next_inv [of cmp q] by (auto simp: pq_inv_def)
qed

context pri_order
begin

lemma pqueue_flush_ok:
  assumes "pq_inv cmp q"
  shows "\<exists>q' xs. pqueue_flush cmp q = Some (q', map Some xs) \<and> mset xs = pq_contents q \<and>
     sorted_wrt (\<lambda>x y. \<not> cmp (pq_pri q x) (pq_pri q y)) xs \<and> pq_inv cmp q' \<and> pq_contents q' = {#}"
proof -
  have "pqueue_size q = size (pq_contents q)" using assms pq_size_contents by (auto simp: pq_inv_def)
  then show ?thesis using pq.drain_sorted [OF assms] by (auto simp: pqueue_flush_def)
qed

end

lemma pqueue_init_inv:
  "pqueue_init True n pri pos = Some q \<Longrightarrow>
     pq_inv cmp q \<and> pq_contents q = {#} \<and> pq_pri q = pri"
  by (auto simp: pqueue_init_def pq_inv_def pq_wf_def pq_ordered_def pq_contents_def pq_elems_def)

lemma pop_empty_locks:
  assumes "pq_inv cmp q" "pq_contents q = {#}"
  shows "pqueue_pop cmp q = Some (q\<lparr>pq_locked := True\<rparr>, None, Q_ERR_INVALID)"
    and "pqueue_peek q = Some (q\<lparr>pq_locked := True\<rparr>, None, Q_OK)"
proof -
  have "pq_size q = 1" "\<not> pq_locked q"
    using assms pq_size_contents [of q] by (auto simp: pqueue_size_def pq_inv_def pq_wf_def)
  then show "pqueue_pop cmp q = Some (q\<lparr>pq_locked := True\<rparr>, None, Q_ERR_INVALID)"
    and "pqueue_peek q = Some (q\<lparr>pq_locked := True\<rparr>, None, Q_OK)"
    by (auto simp: pqueue_pop_def pqueue_pop_internal_def pqueue_lock_internal_def pqueue_peek_def)
qed

text \<open>A concrete queue: element 10 of priority 9 above element 20 of priority 5.\<close>

definition pq_example :: pqueue_t where
  "pq_example = \<lparr> pq_size = 3, pq_avail = 3, pq_step = 3, pq_d = [0, 10, 20], pq_locked = False,
     pq_pri = (\<lambda>a. if a = 10 then 9 else 5), pq_pos = (\<lambda>a. if a = 10 then 1 else 2) \<rparr>"

lemma pq_example_inv [simp]: "pq_inv (<) pq_example"
proof -
  have i: "i = 1 \<or> i = 2" if "1 \<le> i" "i < 3" for i :: nat using that by auto
  have "pq_wf pq_example" using i by (fastforce simp: pq_wf_def pq_example_def pq_elems_def)
  moreover have "\<not> (9::u64) < 5" by simp
  then have "pq_ordered (<) pq_example"
    using i by (fastforce simp: pq_ordered_def pq_example_def)
  ultimately show ?thesis by (simp add: pq_inv_def pq_example_def)
qed

lemma pq_example_contents [simp]: "pq_contents pq_example = {#10, 20#}"
  by (simp add: pq_contents_def pq_elems_def pq_example_def)

section \<open>Properties\<close>

text \<open>
  Property C11: for any comparison callback that is a strict weak order, the array queue
  implements a priority queue over the multiset of its elements: inserting an absent element
  adds it (growing the array if needed) and popping a non-empty queue returns an element that
  no other beats and removes exactly it. Both return, release the lock, keep the priorities,
  the heap order and the stored positions.
\<close>

theorem pqueue_implements_priority_queue:
  assumes "pri_order cmp" "pq_inv cmp q"
  shows "(x \<notin># pq_contents q \<longrightarrow> (\<exists>q'. pqueue_insert True cmp q x = Some (q', Q_OK) \<and> pq_inv cmp q' \<and>
            pq_contents q' = add_mset x (pq_contents q) \<and> pq_pri q' = pq_pri q))
    \<and> (pq_contents q \<noteq> {#} \<longrightarrow> (\<exists>q' y. pqueue_pop cmp q = Some (q', Some y, Q_OK) \<and> pq_inv cmp q' \<and>
            y \<in># pq_contents q \<and> pq_contents q' = pq_contents q - {#y#} \<and> pq_pri q' = pq_pri q \<and>
            (\<forall>z \<in># pq_contents q. \<not> cmp (pq_pri q y) (pq_pri q z)) \<and>
            pqueue_peek q = Some (q, Some y, Q_OK)))"
proof (intro conjI impI)
  assume "x \<notin># pq_contents q"
  then show "\<exists>q'. pqueue_insert True cmp q x = Some (q', Q_OK) \<and> pq_inv cmp q' \<and>
      pq_contents q' = add_mset x (pq_contents q) \<and> pq_pri q' = pq_pri q"
    by (rule pri_order.pqueue_insert_ok [OF assms])
next
  assume ne: "pq_contents q \<noteq> {#}"
  have w: "pq_wf q" "pq_ordered cmp q" "\<not> pq_locked q" using assms(2) by (auto simp: pq_inv_def)
  show "\<exists>q' y. pqueue_pop cmp q = Some (q', Some y, Q_OK) \<and> pq_inv cmp q' \<and>
      y \<in># pq_contents q \<and> pq_contents q' = pq_contents q - {#y#} \<and> pq_pri q' = pq_pri q \<and>
      (\<forall>z \<in># pq_contents q. \<not> cmp (pq_pri q y) (pq_pri q z)) \<and>
      pqueue_peek q = Some (q, Some y, Q_OK)"
    using pri_order.pqueue_pop_ok [OF assms(1) w ne] pri_order.pqueue_peek_ok [OF assms ne]
      pq_next_inv [OF assms(2)] by metis
qed

theorem pqueue_implements_priority_queue_witness:
  "\<exists>q'. pqueue_insert True (<) pq_example 30 = Some (q', Q_OK) \<and> pq_contents q' = {#30, 10, 20#}"
  using pqueue_implements_priority_queue [OF max_first.pri_order_axioms pq_example_inv, of 30]
  by (auto intro: exI)

text \<open>
  Property C27: flushing a valid queue ends and hands every element to \<open>free_func\<close> exactly once,
  in priority order, and leaves the queue empty and valid.
\<close>

theorem pqueue_flush_drains_in_order:
  assumes "pri_order cmp" "pq_inv cmp q"
  shows "\<exists>q' xs. pqueue_flush cmp q = Some (q', map Some xs) \<and> mset xs = pq_contents q \<and>
     sorted_wrt (\<lambda>x y. \<not> cmp (pq_pri q x) (pq_pri q y)) xs \<and> pq_inv cmp q' \<and> pq_contents q' = {#}"
  by (rule pri_order.pqueue_flush_ok [OF assms])

theorem pqueue_flush_drains_in_order_witness:
  "\<exists>q' xs. pqueue_flush (<) pq_example = Some (q', map Some xs) \<and> mset xs = {#10, 20#} \<and> pq_contents q' = {#}"
  using pqueue_flush_drains_in_order [OF max_first.pri_order_axioms pq_example_inv] by auto

text \<open>
  Removing an element of the queue removes exactly it, wherever it is in the heap,
  and changing its priority changes exactly that priority; both restore the heap order.
\<close>

theorem pqueue_remove_and_change:
  assumes "pri_order cmp" "pq_inv cmp q" "x \<in># pq_contents q"
  shows "(\<exists>q'. pqueue_remove cmp q x = Some (q', Q_OK) \<and> pq_inv cmp q' \<and>
            pq_contents q' = pq_contents q - {#x#} \<and> pq_pri q' = pq_pri q)
    \<and> (\<exists>q'. pqueue_change_priority cmp q new x = Some (q', Q_OK) \<and> pq_inv cmp q' \<and>
            pq_contents q' = pq_contents q \<and> pq_pri q' = (pq_pri q)(x := new))"
  using pri_order.pqueue_remove_ok [OF assms] pri_order.pqueue_change_priority_ok [OF assms] by blast

theorem pqueue_remove_and_change_witness:
  "\<exists>q'. pqueue_remove (<) pq_example 10 = Some (q', Q_OK) \<and> pq_contents q' = {#20#}"
  using pqueue_remove_and_change [OF max_first.pri_order_axioms pq_example_inv, of 10] by auto

text \<open>
  Popping or peeking at an empty queue returns with the mutex held, and every
  later insert, pop, peek or remove on that queue never returns.
\<close>

theorem pqueue_empty_pop_deadlocks:
  assumes "pq_inv cmp q" "pq_contents q = {#}"
  shows "\<exists>q'. pqueue_pop cmp q = Some (q', None, Q_ERR_INVALID) \<and> pqueue_peek q = Some (q', None, Q_OK) \<and>
     pqueue_insert ok cmp q' x = None \<and> pqueue_pop cmp q' = None \<and> pqueue_peek q' = None \<and>
     pqueue_remove cmp q' x = None"
  using pop_empty_locks [OF assms]
  by (simp add: pqueue_insert_def pqueue_pop_def pqueue_pop_internal_def pqueue_peek_def
      pqueue_remove_def pqueue_lock_internal_def)

theorem pqueue_empty_pop_deadlocks_witness:
  "\<exists>q q'. pqueue_init True 4 (\<lambda>_. 0) (\<lambda>_. 0) = Some q \<and>
     pqueue_pop (<) q = Some (q', None, Q_ERR_INVALID) \<and> pqueue_insert True (<) q' 7 = None"
proof -
  obtain q where q: "pqueue_init True 4 (\<lambda>_. 0) (\<lambda>_. 0) = Some q" by (simp add: pqueue_init_def)
  show ?thesis
    using pqueue_empty_pop_deadlocks [of "(<)" q True 7] pqueue_init_inv [OF q, of "(<)"] q by auto
qed

text \<open>
  \<open>pqueue_print\<close> prints the whole queue in priority order, for any valid queue.
\<close>

theorem pqueue_print_in_order:
  assumes "pri_order cmp" "pq_inv cmp q"
  shows "\<exists>q' out. pqueue_print True cmp q = Some (q', out) \<and> mset out = pq_contents q \<and>
     sorted_wrt (\<lambda>x y. \<not> cmp (pq_pri q x) (pq_pri q y)) out"
proof -
  let ?n = "pq_size q"
  let ?d = "take ?n (pq_d q) @ [0]"
  let ?dup = "\<lparr> pq_size = ?n, pq_avail = pq_avail q, pq_step = pq_step q, pq_d = ?d, pq_locked = False,
     pq_pri = pq_pri q, pq_pos = pq_pos q \<rparr>"
  have w: "pq_wf q" "pq_ordered cmp q" "\<not> pq_locked q" "1 \<le> ?n" "?n \<le> length (pq_d q)"
    using assms(2) by (auto simp: pq_inv_def pq_wf_def)
  have el: "pq_elems ?n ?d = pq_elems ?n (pq_d q)" using w(5) by (simp add: pq_elems_def)
  have nth: "?d ! i = pq_d q ! i" if "i < ?n" for i using that w(5) by (simp add: nth_append)
  have d: "pq_wf ?dup" "pq_ordered cmp ?dup" "pq_contents ?dup = pq_contents q"
    using w nth el by (auto simp: pq_wf_def pq_ordered_def pq_contents_def)
  obtain q' xs where "print_loop ?n cmp ?dup = Some (q', xs)" "mset xs = pq_contents q"
    "sorted_wrt (\<lambda>x y. \<not> cmp (pq_pri q x) (pq_pri q y)) xs"
    using pri_order.print_loop_ok [OF assms(1) d(1,2), of ?n] d(3) w(4) by (auto simp: pqueue_size_def)
  moreover have "mem_write (replicate (Suc ?n) 0) 0 (take ?n (pq_d q)) = Some ?d"
    using w(5) by (simp add: mem_write_def)
  ultimately show ?thesis
    using w by (simp add: pqueue_print_def pqueue_lock_internal_def pqueue_init_def mem_read_def)
qed

theorem pqueue_print_in_order_witness:
  "\<exists>q' out. pqueue_print True (<) pq_example = Some (q', out) \<and> mset out = {#10, 20#}"
  using pqueue_print_in_order [OF max_first.pri_order_axioms pq_example_inv] by auto

text \<open>
  Printing overwrites the stored positions, because the copy it pops shares the
  \<open>setpos\<close> callback. After printing the example queue, removing element 20 takes out element
  10 and leaves 20 in the queue.
\<close>

theorem pqueue_print_breaks_remove:
  "map_option snd (pqueue_print True (<) pq_example) = Some [10, 20] \<and>
   map_option (\<lambda>(q, r). (pq_elems (pq_size q) (pq_d q), r))
     (do { (q, _) \<leftarrow> pqueue_print True (<) pq_example; pqueue_remove (<) q 20 }) = Some ([20], Q_OK)"
  by code_simp

text \<open>
  \<open>pqueue_is_valid\<close> never returns on a valid queue of at least two elements: the
  recursion takes a mutex it already holds.
\<close>

theorem pqueue_is_valid_deadlocks:
  assumes "pq_inv cmp q" "2 \<le> pqueue_size q"
  shows "pqueue_is_valid cmp q = None"
proof -
  have "pq_size q = Suc (Suc (Suc (pq_size q - 3)))" using assms(2) by (simp add: pqueue_size_def)
  then obtain n where n: "pq_size q = Suc (Suc (Suc n))" by blast
  have "\<not> cmp (pq_pri_at q 1) (pq_pri_at q 2)" "\<not> pq_locked q"
    using assms(1) n by (auto simp: pq_inv_def pq_ordered_def dest!: spec [of _ 2])
  then show ?thesis
    using n by (simp add: pqueue_is_valid_def pqueue_lock_internal_def numeral_2_eq_2)
qed

theorem pqueue_is_valid_deadlocks_witness: "pqueue_is_valid (<) pq_example = None"
  using pqueue_is_valid_deadlocks [OF pq_example_inv] by (simp add: pqueue_size_def pq_example_def)

end
