(* ===== verification/Hashmap.thy ===== *)
theory Hashmap
  imports Prelude
begin

text \<open>
  The open-addressing hash map of src/src/ld_hashmap.c (Robin Hood hashing), as state and
  operations; theories Robin_Hood and Hashmap_Spec hold the proofs.

  An item is the byte block of \<open>elsize\<close> bytes that the source copies with memcpy; a bucket
  stores the 48-bit hash, the 16-bit distance \<open>dib\<close> (0 for an empty bucket, increments wrap at
  \<open>2 ^ 16\<close>) and the item. The callbacks are fields of the map, as in the source; \<open>hm_compare\<close>
  is \<open>None\<close> for a NULL callback and includes its \<open>udata\<close>. The allocator callbacks are the
  Boolean arguments \<open>ok\<close>.

  The loops \<open>while(1)\<close> over the buckets are bounded by a fuel argument of one step for each
  bucket; theory Robin_Hood shows that this is enough whenever a bucket is empty.
\<close>

section \<open>State\<close>

type_synonym item = "u8 list"

record bucket =
  bk_hash :: nat
  bk_dib :: nat
  bk_item :: item

record hashmap =
  hm_elsize :: nat
  hm_cap :: nat
  hm_seed0 :: u64
  hm_seed1 :: u64
  hm_hash :: "item \<Rightarrow> u64 \<Rightarrow> u64 \<Rightarrow> u64"
  hm_compare :: "(item \<Rightarrow> item \<Rightarrow> int) option"
  hm_elfree :: bool
  hm_bucketsz :: nat
  hm_nbuckets :: nat
  hm_count :: nat
  hm_mask :: nat
  hm_growat :: nat
  hm_shrinkat :: nat
  hm_growpower :: nat
  hm_oom :: bool
  hm_buckets :: "bucket list"

definition hashmap_set_grow_by_power :: "hashmap \<Rightarrow> nat \<Rightarrow> hashmap" where
  "hashmap_set_grow_by_power m pw =
     m\<lparr> hm_growpower := (if pw < 1 then 1 else if 16 < pw then 16 else pw) \<rparr>"

definition clip_hash :: "nat \<Rightarrow> nat" where
  "clip_hash h = h AND 0xFFFFFFFFFFFF"

definition get_hash :: "hashmap \<Rightarrow> item \<Rightarrow> nat" where
  "get_hash m key = clip_hash (unat (hm_hash m key (hm_seed0 m) (hm_seed1 m)))"

section \<open>Construction\<close>

text \<open>
  \<open>while (ncap < cap) ncap *= 2;\<close> on \<open>size_t\<close>. After 60 doublings \<open>ncap\<close> has wrapped to 0 and
  stays there, so \<open>None\<close> with 64 steps of fuel means that the loop never ends.
\<close>

fun round_cap :: "nat \<Rightarrow> nat \<Rightarrow> nat \<Rightarrow> nat option" where
  "round_cap fuel cap ncap =
     (if ncap < cap
      then (case fuel of 0 \<Rightarrow> None | Suc f \<Rightarrow> round_cap f cap (ncap * 2 mod 2 ^ 64))
      else Some ncap)"

declare round_cap.simps [simp del]

text \<open>\<open>while (bucketsz & (sizeof(uintptr_t)-1)) bucketsz++;\<close> with 8-byte pointers.\<close>

fun round_bucketsz :: "nat \<Rightarrow> nat \<Rightarrow> nat" where
  "round_bucketsz 0 sz = sz"
| "round_bucketsz (Suc f) sz = (if sz AND 7 \<noteq> 0 then round_bucketsz f (sz + 1) else sz)"

definition empty_bucket :: "nat \<Rightarrow> bucket" where
  "empty_bucket elsize = \<lparr> bk_hash = 0, bk_dib = 0, bk_item = replicate elsize 0 \<rparr>"

text \<open>
  \<open>nbuckets * 0.60\<close>, \<open>nbuckets * 0.10\<close> and \<open>nbuckets * 0.75\<close> truncated: for the powers of two
  up to \<open>2 ^ 52\<close> that \<open>nbuckets\<close> takes, these are the integer quotients. The outer \<open>None\<close> is a
  capacity loop that never ends, the inner one the failed allocation.
\<close>

definition hashmap_new ::
  "bool \<Rightarrow> nat \<Rightarrow> nat \<Rightarrow> u64 \<Rightarrow> u64 \<Rightarrow> (item \<Rightarrow> u64 \<Rightarrow> u64 \<Rightarrow> u64) \<Rightarrow> (item \<Rightarrow> item \<Rightarrow> int) option
     \<Rightarrow> bool \<Rightarrow> hashmap option option" where
  "hashmap_new ok elsize cap seed0 seed1 hash compare elfree = do {
     cap \<leftarrow> (if cap < 16 then Some 16 else round_cap 64 cap 16);
     Some (if ok then Some \<lparr> hm_elsize = elsize, hm_cap = cap, hm_seed0 = seed0, hm_seed1 = seed1,
       hm_hash = hash, hm_compare = compare, hm_elfree = elfree,
       hm_bucketsz = round_bucketsz 8 (8 + elsize), hm_nbuckets = cap, hm_count = 0, hm_mask = cap - 1,
       hm_growat = cap * 3 div 5, hm_shrinkat = cap div 10, hm_growpower = 1, hm_oom = False,
       hm_buckets = replicate cap (empty_bucket elsize) \<rparr>
     else None) }"

text \<open>The items handed to \<open>elfree\<close>, in order; none when the callback is NULL.\<close>

definition free_elements :: "hashmap \<Rightarrow> item list" where
  "free_elements m =
     (if hm_elfree m then map bk_item (filter (\<lambda>b. bk_dib b \<noteq> 0) (hm_buckets m)) else [])"

text \<open>Whether or not the allocation of a smaller array succeeds, the table afterwards is its first
  \<open>cap\<close> buckets, all empty: when it fails the old array is kept and only that part is
  used.\<close>

definition hashmap_clear :: "hashmap \<Rightarrow> bool \<Rightarrow> hashmap \<times> item list" where
  "hashmap_clear m update_cap =
     (let freed = free_elements m;
          m = m\<lparr> hm_count := 0 \<rparr>;
          m = (if update_cap then m\<lparr> hm_cap := hm_nbuckets m \<rparr>
               else if hm_nbuckets m \<noteq> hm_cap m then m\<lparr> hm_nbuckets := hm_cap m \<rparr>
               else m)
      in (m\<lparr> hm_buckets := replicate (hm_nbuckets m) (empty_bucket (hm_elsize m)),
             hm_mask := hm_nbuckets m - 1,
             hm_growat := hm_nbuckets m * 3 div 4,
             hm_shrinkat := hm_nbuckets m div 10 \<rparr>, freed))"

section \<open>Placing an entry\<close>

text \<open>
  The loop of hashmap_set_with_hash and of resize0: walk from the home bucket, stop at an empty
  bucket, replace on a match, take the place of a richer bucket and carry that one on. The loop
  of resize0 has no match test, which is \<open>mtch = (\<lambda>_ _. False)\<close>. The result is the table and
  the item that was replaced.
\<close>

fun place_loop ::
  "nat \<Rightarrow> (bucket \<Rightarrow> bucket \<Rightarrow> bool) \<Rightarrow> nat \<Rightarrow> bucket list \<Rightarrow> bucket \<Rightarrow> nat \<Rightarrow> (bucket list \<times> item option) option" where
  "place_loop 0 mtch msk t entry i = None"
| "place_loop (Suc fuel) mtch msk t entry i =
     (if i < length t then
        let bucket = t ! i in
        if bk_dib bucket = 0 then Some (t[i := entry], None)
        else if mtch entry bucket
          then Some (t[i := bucket\<lparr> bk_item := bk_item entry \<rparr>], Some (bk_item bucket))
        else
          let (t, entry) = (if bk_dib bucket < bk_dib entry then (t[i := entry], bucket) else (t, entry))
          in place_loop fuel mtch msk t (entry\<lparr> bk_dib := (bk_dib entry + 1) mod 2 ^ 16 \<rparr>) ((i + 1) AND msk)
      else None)"

text \<open>The loop of resize0 over the old buckets, filling the new table.\<close>

fun resize_loop :: "nat \<Rightarrow> nat \<Rightarrow> bucket list \<Rightarrow> bucket list \<Rightarrow> bucket list option" where
  "resize_loop fuel mask2 [] t2 = Some t2"
| "resize_loop fuel mask2 (b # bs) t2 =
     (if bk_dib b = 0 then resize_loop fuel mask2 bs t2
      else do {
        (t2, _) \<leftarrow> place_loop fuel (\<lambda>_ _. False) mask2 t2 (b\<lparr> bk_dib := 1 \<rparr>) (bk_hash b AND mask2);
        resize_loop fuel mask2 bs t2 })"

definition resize :: "bool \<Rightarrow> hashmap \<Rightarrow> nat \<Rightarrow> (hashmap \<times> bool) option" where
  "resize ok m new_cap = do {
     r \<leftarrow> hashmap_new ok (hm_elsize m) new_cap (hm_seed0 m) (hm_seed1 m) (hm_hash m) (hm_compare m) (hm_elfree m);
     (case r of
        None \<Rightarrow> Some (m, False)
      | Some m2 \<Rightarrow> do {
          t2 \<leftarrow> resize_loop (hm_nbuckets m2) (hm_mask m2) (hm_buckets m) (hm_buckets m2);
          Some (m\<lparr> hm_buckets := t2, hm_nbuckets := hm_nbuckets m2, hm_mask := hm_mask m2,
                   hm_growat := hm_growat m2, hm_shrinkat := hm_shrinkat m2 \<rparr>, True) }) }"

text \<open>\<open>entry->hash == bucket->hash && (!map->compare || map->compare(eitem, bitem, udata) == 0)\<close>\<close>

definition same_key :: "hashmap \<Rightarrow> bucket \<Rightarrow> bucket \<Rightarrow> bool" where
  "same_key m entry bucket \<longleftrightarrow> bk_hash entry = bk_hash bucket \<and>
     (case hm_compare m of None \<Rightarrow> True | Some c \<Rightarrow> c (bk_item entry) (bk_item bucket) = 0)"

text \<open>\<open>hashmap_set\<close> returns the replaced item, or \<open>None\<close> for NULL.\<close>

definition hashmap_set_with_hash :: "bool \<Rightarrow> hashmap \<Rightarrow> item \<Rightarrow> nat \<Rightarrow> (hashmap \<times> item option) option" where
  "hashmap_set_with_hash ok m it hash = do {
     let hash = clip_hash hash;
     let m = m\<lparr> hm_oom := False \<rparr>;
     (m, room) \<leftarrow> (if hm_count m = hm_growat m
                   then resize ok m (hm_nbuckets m * 2 ^ hm_growpower m) else Some (m, True));
     if \<not> room then Some (m\<lparr> hm_oom := True \<rparr>, None)
     else do {
       let entry = \<lparr> bk_hash = hash, bk_dib = 1, bk_item = it \<rparr>;
       (t, old) \<leftarrow> place_loop (hm_nbuckets m) (same_key m) (hm_mask m) (hm_buckets m) entry (hash AND hm_mask m);
       Some (m\<lparr> hm_buckets := t, hm_count := (if old = None then hm_count m + 1 else hm_count m) \<rparr>, old) } }"

definition hashmap_set :: "bool \<Rightarrow> hashmap \<Rightarrow> item \<Rightarrow> (hashmap \<times> item option) option" where
  "hashmap_set ok m it = hashmap_set_with_hash ok m it (get_hash m it)"

section \<open>Looking up and deleting\<close>

text \<open>
  The search loop of hashmap_get_with_hash and hashmap_delete_with_hash: the index of the
  matching bucket, or \<open>Some None\<close> when an empty bucket ends the search.
\<close>

fun probe_loop :: "nat \<Rightarrow> (bucket \<Rightarrow> bool) \<Rightarrow> nat \<Rightarrow> bucket list \<Rightarrow> nat \<Rightarrow> nat option option" where
  "probe_loop 0 mtch msk t i = None"
| "probe_loop (Suc fuel) mtch msk t i =
     (if i < length t then
        if bk_dib (t ! i) = 0 then Some None
        else if mtch (t ! i) then Some (Some i)
        else probe_loop fuel mtch msk t ((i + 1) AND msk)
      else None)"

definition hashmap_find :: "hashmap \<Rightarrow> item \<Rightarrow> nat \<Rightarrow> nat option option" where
  "hashmap_find m key hash =
     probe_loop (hm_nbuckets m) (same_key m \<lparr> bk_hash = hash, bk_dib = 1, bk_item = key \<rparr>)
       (hm_mask m) (hm_buckets m) (hash AND hm_mask m)"

definition hashmap_get_with_hash :: "hashmap \<Rightarrow> item \<Rightarrow> nat \<Rightarrow> item option option" where
  "hashmap_get_with_hash m key hash = do {
     r \<leftarrow> hashmap_find m key (clip_hash hash);
     Some (map_option (\<lambda>i. bk_item (hm_buckets m ! i)) r) }"

definition hashmap_get :: "hashmap \<Rightarrow> item \<Rightarrow> item option option" where
  "hashmap_get m key = hashmap_get_with_hash m key (get_hash m key)"

definition hashmap_probe :: "hashmap \<Rightarrow> nat \<Rightarrow> item option option" where
  "hashmap_probe m position =
     (let i = position AND hm_mask m in
      if i < length (hm_buckets m)
      then Some (if bk_dib (hm_buckets m ! i) = 0 then None else Some (bk_item (hm_buckets m ! i)))
      else None)"

text \<open>The backward shift after a deletion: \<open>prev\<close> is the hole.\<close>

fun shift_loop :: "nat \<Rightarrow> nat \<Rightarrow> bucket list \<Rightarrow> nat \<Rightarrow> bucket list option" where
  "shift_loop 0 msk t prev = None"
| "shift_loop (Suc fuel) msk t prev =
     (let i = (prev + 1) AND msk in
      if i < length t \<and> prev < length t then
        if bk_dib (t ! i) \<le> 1 then Some (t[prev := (t ! prev)\<lparr> bk_dib := 0 \<rparr>])
        else shift_loop fuel msk (t[prev := (t ! i)\<lparr> bk_dib := bk_dib (t ! i) - 1 \<rparr>]) i
      else None)"

definition hashmap_delete_with_hash :: "bool \<Rightarrow> hashmap \<Rightarrow> item \<Rightarrow> nat \<Rightarrow> (hashmap \<times> item option) option" where
  "hashmap_delete_with_hash ok m key hash = do {
     let m = m\<lparr> hm_oom := False \<rparr>;
     r \<leftarrow> hashmap_find m key (clip_hash hash);
     (case r of
        None \<Rightarrow> Some (m, None)
      | Some i \<Rightarrow> do {
          let it = bk_item (hm_buckets m ! i);
          let t = (hm_buckets m)[i := (hm_buckets m ! i)\<lparr> bk_dib := 0 \<rparr>];
          t \<leftarrow> shift_loop (hm_nbuckets m) (hm_mask m) t i;
          let m = m\<lparr> hm_buckets := t, hm_count := hm_count m - 1 \<rparr>;
          (m, _) \<leftarrow> (if hm_cap m < hm_nbuckets m \<and> hm_count m \<le> hm_shrinkat m
                    then resize ok m (hm_nbuckets m div 2) else Some (m, True));
          Some (m, Some it) }) }"

definition hashmap_delete :: "bool \<Rightarrow> hashmap \<Rightarrow> item \<Rightarrow> (hashmap \<times> item option) option" where
  "hashmap_delete ok m key = hashmap_delete_with_hash ok m key (get_hash m key)"

section \<open>Size, release and iteration\<close>

definition hashmap_count :: "hashmap \<Rightarrow> nat" where
  "hashmap_count m = hm_count m"

definition hashmap_oom :: "hashmap \<Rightarrow> bool" where
  "hashmap_oom m = hm_oom m"

definition hashmap_free :: "hashmap option \<Rightarrow> item list" where
  "hashmap_free m = (case m of None \<Rightarrow> [] | Some m \<Rightarrow> free_elements m)"

text \<open>\<open>iter\<close> is a state transformer that also says whether to go on.\<close>

fun scan_loop :: "(item \<Rightarrow> 's \<Rightarrow> 's \<times> bool) \<Rightarrow> bucket list \<Rightarrow> 's \<Rightarrow> 's \<times> bool" where
  "scan_loop iter [] s = (s, True)"
| "scan_loop iter (b # bs) s =
     (if bk_dib b = 0 then scan_loop iter bs s
      else case iter (bk_item b) s of (s, go) \<Rightarrow> if go then scan_loop iter bs s else (s, False))"

definition hashmap_scan :: "hashmap \<Rightarrow> (item \<Rightarrow> 's \<Rightarrow> 's \<times> bool) \<Rightarrow> 's \<Rightarrow> 's \<times> bool" where
  "hashmap_scan m iter s = scan_loop iter (hm_buckets m) s"

text \<open>\<open>hashmap_iter\<close> returns the new cursor and the item, or \<open>None\<close> at the end.\<close>

definition hashmap_iter :: "hashmap \<Rightarrow> nat \<Rightarrow> (nat \<times> item) option" where
  "hashmap_iter m i =
     map_option (\<lambda>j. (Suc j, bk_item (hm_buckets m ! j)))
       (first_from (\<lambda>j. bk_dib (hm_buckets m ! j) \<noteq> 0) i (hm_nbuckets m))"

end
