(* ===== verification/Robin_Hood.thy ===== *)
theory Robin_Hood
  imports Hashmap
begin

text \<open>
  The table invariant of the Robin Hood hash map and what its loops do to a table: every
  occupied bucket is at its home plus its distance, and distances grow by at most one from a
  bucket to the next (cyclically). The second property is what makes searches that stop at an
  empty bucket, replacement during insertion and the backward shift of deletion correct.
\<close>

section \<open>The invariant\<close>

abbreviation dib_at :: "bucket list \<Rightarrow> nat \<Rightarrow> nat" where
  "dib_at t i \<equiv> bk_dib (t ! (i mod length t))"

definition homes_ok :: "bucket list \<Rightarrow> bool" where
  "homes_ok t \<longleftrightarrow> (\<forall>i < length t. 0 < bk_dib (t ! i) \<longrightarrow>
     (bk_hash (t ! i) + bk_dib (t ! i) - 1) mod length t = i)"

definition steps_ok :: "bucket list \<Rightarrow> bool" where
  "steps_ok t \<longleftrightarrow> (\<forall>i < length t. dib_at t (Suc i) \<le> bk_dib (t ! i) + 1)"

definition rh_table :: "bucket list \<Rightarrow> bool" where
  "rh_table t \<longleftrightarrow> (\<exists>k. length t = 2 ^ k) \<and> 16 \<le> length t \<and> length t \<le> 2 ^ 15 \<and> homes_ok t \<and> steps_ok t"

text \<open>The entries of a table, as a multiset of hash and item.\<close>

definition bk_key :: "bucket \<Rightarrow> nat \<times> item" where
  "bk_key b = (bk_hash b, bk_item b)"

definition bk_one :: "bucket \<Rightarrow> (nat \<times> item) multiset" where
  "bk_one b = (if bk_dib b = 0 then {#} else {#bk_key b#})"

definition bag :: "bucket list \<Rightarrow> (nat \<times> item) multiset" where
  "bag t = (\<Sum>b\<leftarrow>t. bk_one b)"

lemma bag_Nil [simp]: "bag [] = {#}"
  and bag_Cons [simp]: "bag (b # t) = bk_one b + bag t"
  by (simp_all add: bag_def)

lemma bag_update: "i < length t \<Longrightarrow> bag (t[i := b]) + bk_one (t ! i) = bag t + bk_one b"
proof (induction t arbitrary: i)
  case (Cons x t)
  then show ?case by (cases i) (auto simp: ac_simps)
qed simp

lemma in_bag_iff: "k \<in># bag t \<longleftrightarrow> (\<exists>i < length t. 0 < bk_dib (t ! i) \<and> bk_key (t ! i) = k)"
proof (induction t)
  case (Cons b t)
  have "(\<exists>i < length (b # t). 0 < bk_dib ((b # t) ! i) \<and> bk_key ((b # t) ! i) = k) \<longleftrightarrow>
      (0 < bk_dib b \<and> bk_key b = k) \<or> (\<exists>i < length t. 0 < bk_dib (t ! i) \<and> bk_key (t ! i) = k)"
    by (auto simp: less_Suc_eq_0_disj)
  then show ?case using Cons by (auto simp: bk_one_def)
qed simp

lemma size_bag: "size (bag t) = length (filter (\<lambda>b. bk_dib b \<noteq> 0) t)"
  by (induction t) (auto simp: bk_one_def)

lemma bag_empty_table [simp]: "bag (replicate n (empty_bucket e)) = {#}"
  by (induction n) (auto simp: bk_one_def empty_bucket_def)

lemma empty_slot:
  assumes "size (bag t) < length t"
  obtains q where "q < length t" "bk_dib (t ! q) = 0"
proof -
  have "filter (\<lambda>b. bk_dib b \<noteq> 0) t \<noteq> t" using assms by (auto simp: size_bag)
  then obtain b where "b \<in> set t" "bk_dib b = 0" by (auto simp: filter_id_conv)
  then show ?thesis using that by (metis in_set_conv_nth)
qed

text \<open>Every position is reached from every other in less than one turn.\<close>

lemma reach_mod:
  fixes i n q :: nat
  assumes "i < n" "q < n"
  obtains s where "s < n" "(i + s) mod n = q"
proof (cases "i \<le> q")
  case True
  then show ?thesis using assms that [of "q - i"] by simp
next
  case False
  then have "(i + (n - i + q)) mod n = q" using assms by (simp add: mod_add_left_eq)
  moreover have "n - i + q < n" using False assms by simp
  ultimately show ?thesis using that by blast
qed

lemma dib_chain:
  assumes "steps_ok t" "t \<noteq> []"
  shows "dib_at t (i + s) \<le> dib_at t i + s"
proof (induction s)
  case (Suc s)
  have "(i + s) mod length t < length t" using assms(2) by simp
  then have "dib_at t (Suc ((i + s) mod length t)) \<le> dib_at t (i + s) + 1"
    using assms(1) unfolding steps_ok_def by blast
  moreover have "Suc ((i + s) mod length t) mod length t = (i + Suc s) mod length t"
    by (simp add: mod_Suc_eq)
  ultimately show ?case using Suc by simp
qed simp

lemma dib_bound:
  assumes "steps_ok t" "q < length t" "bk_dib (t ! q) = 0" "i < length t"
  shows "bk_dib (t ! i) < length t"
proof -
  obtain s where s: "s < length t" "(q + s) mod length t = i" using reach_mod [OF assms(2,4)] .
  have "t \<noteq> []" using assms(2) by auto
  from dib_chain [OF assms(1) this, of q s] assms s show ?thesis by simp
qed

text \<open>From home to its position every bucket on the way is occupied and at least as far from home.\<close>

lemma dib_path:
  assumes "steps_ok t" "t \<noteq> []" "d \<le> dib_at t (h + d - 1)" "s < d"
  shows "s < dib_at t (h + s)"
proof -
  have "dib_at t (h + s + (d - 1 - s)) \<le> dib_at t (h + s) + (d - 1 - s)"
    by (rule dib_chain [OF assms(1,2)])
  moreover have "h + s + (d - 1 - s) = h + d - 1" using assms(4) by simp
  ultimately show ?thesis using assms(3,4) by simp
qed

section \<open>Uniqueness of keys\<close>

definition unique_keys :: "('k \<Rightarrow> 'k \<Rightarrow> bool) \<Rightarrow> 'k multiset \<Rightarrow> bool" where
  "unique_keys eqv M \<longleftrightarrow> (\<forall>a N. M = add_mset a N \<longrightarrow> (\<forall>b \<in># N. \<not> eqv a b))"

lemma unique_keys_empty [simp]: "unique_keys eqv {#}"
  by (simp add: unique_keys_def)

lemma unique_keys_subset: "unique_keys eqv M \<Longrightarrow> N \<subseteq># M \<Longrightarrow> unique_keys eqv N"
  unfolding unique_keys_def
  by (metis add_mset_add_single mset_subset_eq_exists_conv union_iff union_mset_add_mset_left)

lemma unique_keys_nth:
  assumes "unique_keys eqv (bag t)" "i < length t" "j < length t" "i \<noteq> j"
    "0 < bk_dib (t ! i)" "0 < bk_dib (t ! j)"
  shows "\<not> eqv (bk_key (t ! i)) (bk_key (t ! j))"
proof -
  let ?t = "t[i := (t ! i)\<lparr>bk_dib := 0\<rparr>]"
  have "bag ?t + bk_one (t ! i) = bag t + bk_one ((t ! i)\<lparr>bk_dib := 0\<rparr>)"
    using assms(2) by (rule bag_update)
  then have "bag t = add_mset (bk_key (t ! i)) (bag ?t)" using assms(5) by (simp add: bk_one_def)
  moreover have "bk_key (t ! j) \<in># bag ?t"
    using assms by (auto simp: in_bag_iff intro!: exI [of _ j])
  ultimately show ?thesis using assms(1) unfolding unique_keys_def by blast
qed

lemma unique_keys_add:
  assumes "unique_keys eqv M" "\<And>b. b \<in># M \<Longrightarrow> \<not> eqv a b" "\<And>b. b \<in># M \<Longrightarrow> \<not> eqv b a"
  shows "unique_keys eqv (add_mset a M)"
  unfolding unique_keys_def
proof (intro allI impI ballI)
  fix c N b assume *: "add_mset a M = add_mset c N" "b \<in># N"
  show "\<not> eqv c b"
  proof (cases "a = c")
    case True
    then show ?thesis using * assms by simp
  next
    case False
    then obtain K where K: "M = add_mset c K" "N = add_mset a K"
      using * by (metis add_eq_conv_ex)
    then show ?thesis using * assms by (auto simp: unique_keys_def)
  qed
qed

section \<open>Searching\<close>

lemma pow2_mask: "\<exists>k. n = 2 ^ k \<Longrightarrow> (x::nat) AND (n - 1) = x mod n"
  using and_mask_mod by auto

lemma rh_tableD:
  assumes "rh_table t"
  shows "0 < length t" "t \<noteq> []" "16 \<le> length t" "length t \<le> 2 ^ 15" "homes_ok t" "steps_ok t"
    "x AND (length t - 1) = x mod length t"
  using assms pow2_mask unfolding rh_table_def by auto

lemma probe_hit:
  assumes rh: "rh_table t" and p: "p < length t" "0 < bk_dib (t ! p)" "mtch (t ! p)" "bk_hash (t ! p) = h"
    and un: "\<And>j. j < length t \<Longrightarrow> 0 < bk_dib (t ! j) \<Longrightarrow> mtch (t ! j) \<Longrightarrow> j = p"
  shows "s < bk_dib (t ! p) \<Longrightarrow> bk_dib (t ! p) \<le> s + fuel \<Longrightarrow>
    probe_loop fuel mtch (length t - 1) t ((h + s) mod length t) = Some (Some p)"
proof (induction fuel arbitrary: s)
  case (Suc fuel)
  let ?d = "bk_dib (t ! p)" and ?i = "(h + s) mod length t"
  have pos: "(h + ?d - 1) mod length t = p" using rh p by (auto simp: rh_table_def homes_ok_def)
  then have ne: "0 < bk_dib (t ! ?i)"
    using dib_path [of t ?d h s] rh_tableD [OF rh] Suc.prems by simp
  have i: "?i < length t" using rh_tableD [OF rh] by simp
  have nx: "(?i + 1) AND (length t - 1) = (h + Suc s) mod length t"
    using rh_tableD(7) [OF rh] by (simp add: mod_Suc_eq)
  have sd: "Suc s < ?d" if "?i \<noteq> p"
  proof (rule ccontr)
    assume "\<not> Suc s < ?d"
    then have "h + s = h + ?d - 1" using Suc.prems by simp
    then show False using that pos by simp
  qed
  show ?case
  proof (cases "?i = p")
    case True
    then show ?thesis using p i by simp
  next
    case False
    then have "\<not> mtch (t ! ?i)" using un [OF i ne] by blast
    moreover have "probe_loop fuel mtch (length t - 1) t ((h + Suc s) mod length t) = Some (Some p)"
      using Suc.IH [of "Suc s"] sd [OF False] Suc.prems by simp
    ultimately show ?thesis
      using i ne nx by (simp only: probe_loop.simps if_True) simp
  qed
qed simp

lemma probe_miss:
  assumes rh: "rh_table t"
    and no: "\<And>j. j < length t \<Longrightarrow> 0 < bk_dib (t ! j) \<Longrightarrow> \<not> mtch (t ! j)"
  shows "i < length t \<Longrightarrow> dib_at t (i + u) = 0 \<Longrightarrow> u < fuel \<Longrightarrow>
    probe_loop fuel mtch (length t - 1) t i = Some None"
proof (induction fuel arbitrary: i u)
  case (Suc fuel)
  show ?case
  proof (cases "bk_dib (t ! i) = 0")
    case False
    then obtain v where v: "u = Suc v" using Suc.prems by (cases u) auto
    have nx: "(i + 1) AND (length t - 1) = Suc i mod length t" using rh_tableD(7) [OF rh] by simp
    have "dib_at t (Suc i mod length t + v) = 0"
      using Suc.prems(2) v by (simp add: mod_add_left_eq)
    then have "probe_loop fuel mtch (length t - 1) t (Suc i mod length t) = Some None"
      using Suc.IH [of "Suc i mod length t" v] Suc.prems v mod_less_divisor [OF rh_tableD(1) [OF rh]]
      by simp
    then show ?thesis using False Suc.prems no [of i] nx by simp
  qed (use Suc.prems in simp)
qed simp

section \<open>Placing an entry\<close>

text \<open>An entry on its way: at its distance from home, no farther than its predecessor allows.\<close>

definition pending :: "bucket list \<Rightarrow> bucket \<Rightarrow> nat \<Rightarrow> bool" where
  "pending t e i \<longleftrightarrow> 0 < bk_dib e \<and> i < length t \<and> (bk_hash e + bk_dib e - 1) mod length t = i \<and>
     (\<forall>j < length t. Suc j mod length t = i \<longrightarrow> bk_dib e \<le> bk_dib (t ! j) + 1)"

lemma pending_home:
  "0 < length t \<Longrightarrow> bk_dib e = 1 \<Longrightarrow> pending t e (bk_hash e mod length t)"
  by (simp add: pending_def)

lemma place_here:
  assumes rh: "rh_table t" and e: "pending t e i" and le: "bk_dib (t ! i) \<le> bk_dib e"
  shows "rh_table (t[i := e])"
proof -
  have n: "1 < length t" "i < length t" using rh e by (auto simp: rh_table_def pending_def)
  have ne: "Suc i mod length t \<noteq> i" using n Suc_mod_cases [of i "length t"] by auto
  have "homes_ok (t[i := e])"
    using rh e by (auto simp: rh_table_def homes_ok_def pending_def nth_list_update)
  moreover have "steps_ok (t[i := e])"
    unfolding steps_ok_def
  proof (intro allI impI)
    fix j assume "j < length (t[i := e])"
    then have j: "j < length t" by simp
    then have st: "bk_dib (t ! (Suc j mod length t)) \<le> bk_dib (t ! j) + 1"
      using rh by (simp add: rh_table_def steps_ok_def)
    consider "j = i" | "j \<noteq> i" "Suc j mod length t = i" | "j \<noteq> i" "Suc j mod length t \<noteq> i" by blast
    then show "dib_at (t[i := e]) (Suc j) \<le> bk_dib (t[i := e] ! j) + 1"
    proof cases
      case 1
      then show ?thesis using n ne st le by simp
    next
      case 2
      then show ?thesis using n j e by (simp add: pending_def)
    next
      case 3
      then show ?thesis using st by simp
    qed
  qed
  ultimately show ?thesis using rh by (simp add: rh_table_def)
qed

text \<open>Carrying an entry to the next bucket, behind one that is at least as far from home.\<close>

lemma pending_next:
  assumes e: "pending t e i" and n: "1 < length t" and ge: "bk_dib e \<le> bk_dib (t ! i)"
  shows "pending t (e\<lparr>bk_dib := bk_dib e + 1\<rparr>) (Suc i mod length t)"
proof -
  obtain d where d: "bk_dib e = Suc d" using e by (cases "bk_dib e") (auto simp: pending_def)
  have "(bk_hash e + bk_dib e) mod length t = Suc ((bk_hash e + bk_dib e - 1) mod length t) mod length t"
    unfolding d by (simp add: mod_Suc_eq)
  then have "(bk_hash e + bk_dib e) mod length t = Suc i mod length t" using e by (simp add: pending_def)
  moreover have "j = i" if "j < length t" "Suc j mod length t = Suc i mod length t" for j
    using that e n Suc_mod_cases [of j "length t"] Suc_mod_cases [of i "length t"]
    by (auto simp: pending_def split: if_splits)
  moreover have "Suc i mod length t < length t" using n by (intro mod_less_divisor) linarith
  ultimately show ?thesis using e ge by (auto simp: pending_def)
qed

lemma pending_bound:
  assumes "rh_table t" "pending t e i" "q < length t" "bk_dib (t ! q) = 0"
  shows "bk_dib e \<le> length t"
proof -
  have i: "i < length t" using assms(2) by (simp add: pending_def)
  have "Suc (i + (length t - 1)) = i + length t" using i by simp
  then have "Suc ((i + (length t - 1)) mod length t) mod length t = i" using i by (simp only: mod_Suc_eq) simp
  moreover have "(i + (length t - 1)) mod length t < length t" using i by (intro mod_less_divisor) linarith
  ultimately obtain j where j: "j < length t" "Suc j mod length t = i" by blast
  then have "bk_dib e \<le> bk_dib (t ! j) + 1" using assms(2) by (simp add: pending_def)
  moreover have "bk_dib (t ! j) < length t"
    using dib_bound [OF _ assms(3,4) j(1)] assms(1) by (simp add: rh_table_def)
  ultimately show ?thesis by linarith
qed

lemma swap_in_bag:
  assumes "i < length t" "0 < bk_dib (t ! i)" "0 < bk_dib e"
  shows "add_mset (bk_key (t ! i)) (bag (t[i := e])) = add_mset (bk_key e) (bag t)"
  using bag_update [OF assms(1), of e] assms(2,3) by (simp add: bk_one_def)

text \<open>
  An entry that matches nothing in the table is placed: the loop ends within the distance to
  an empty bucket, the table stays valid and gains exactly this entry.
\<close>

lemma place_new:
  assumes "rh_table t" "pending t e i" "dib_at t (i + u) = 0" "u < fuel"
    and "unique_keys eqv (add_mset (bk_key e) (bag t))"
    and mt: "\<And>a b. mtch a b \<Longrightarrow> eqv (bk_key a) (bk_key b)"
  shows "\<exists>t'. place_loop fuel mtch (length t - 1) t e i = Some (t', None) \<and> rh_table t' \<and>
    length t' = length t \<and> bag t' = add_mset (bk_key e) (bag t)"
  using assms(1-5)
proof (induction fuel arbitrary: t e i u)
  case (Suc fuel)
  note rh = Suc.prems(1) and e = Suc.prems(2)
  have n: "1 < length t" and i: "i < length t" and e0: "0 < bk_dib e"
    using rh e by (auto simp: rh_table_def pending_def)
  show ?case
  proof (cases "bk_dib (t ! i) = 0")
    case True
    then have "rh_table (t[i := e])" using place_here [OF rh e] by simp
    moreover have "bag (t[i := e]) = add_mset (bk_key e) (bag t)"
      using bag_update [OF i, of e] True e0 by (simp add: bk_one_def)
    ultimately show ?thesis using True i by simp
  next
    case False
    then have b0: "0 < bk_dib (t ! i)" by simp
    then have "bk_key (t ! i) \<in># bag t" using i by (auto simp: in_bag_iff)
    then have nm: "\<not> mtch e (t ! i)" using Suc.prems(5) mt unfolding unique_keys_def by blast
    obtain v where v: "u = Suc v" using False Suc.prems(3) i by (cases u) auto
    define t1 where "t1 = (if bk_dib (t ! i) < bk_dib e then t[i := e] else t)"
    define e1 where "e1 = (if bk_dib (t ! i) < bk_dib e then t ! i else e)"
    have len [simp]: "length t1 = length t" by (simp add: t1_def)
    have rh1: "rh_table t1" using rh place_here [OF rh e] by (simp add: t1_def)
    have e1: "pending t1 e1 i"
    proof (cases "bk_dib (t ! i) < bk_dib e")
      case True
      have "bk_dib (t ! i) \<le> bk_dib (t1 ! j) + 1" if j: "j < length t" "Suc j mod length t = i" for j
      proof -
        have "Suc i mod length t \<noteq> i" using n i Suc_mod_cases [of i "length t"] by auto
        then have "j \<noteq> i" using j(2) by blast
        then have "t1 ! j = t ! j" by (simp add: t1_def)
        moreover have "dib_at t (Suc j) \<le> bk_dib (t ! j) + 1"
          using rh_tableD(6) [OF rh] j(1) unfolding steps_ok_def by blast
        ultimately show ?thesis using j(2) by simp
      qed
      moreover have "(bk_hash (t ! i) + bk_dib (t ! i) - 1) mod length t = i"
        using rh_tableD(5) [OF rh] b0 i by (simp add: homes_ok_def)
      ultimately show ?thesis using True b0 i by (simp add: pending_def e1_def)
    qed (use e in \<open>simp add: t1_def e1_def\<close>)
    have ge: "bk_dib e1 \<le> bk_dib (t1 ! i)" using i by (auto simp: t1_def e1_def)
    have bg: "add_mset (bk_key e1) (bag t1) = add_mset (bk_key e) (bag t)"
      using swap_in_bag [OF i b0 e0] by (simp add: t1_def e1_def)
    have hole: "dib_at t1 (Suc i mod length t + v) = 0"
    proof -
      have "(i + u) mod length t \<noteq> i" using False Suc.prems(3) by auto
      moreover have "(Suc i mod length t + v) mod length t = (i + u) mod length t"
        by (simp add: v mod_add_left_eq)
      ultimately show ?thesis using Suc.prems(3) by (simp add: t1_def)
    qed
    have "bk_dib e1 \<le> length t"
      using pending_bound [OF rh1 e1, of "(i + u) mod length t"] hole v
        mod_less_divisor [OF rh_tableD(1) [OF rh]]
      by (simp add: mod_add_left_eq)
    then have nowrap: "(bk_dib e1 + 1) mod 2 ^ 16 = bk_dib e1 + 1" using rh_tableD(4) [OF rh] by simp
    let ?e2 = "e1\<lparr>bk_dib := bk_dib e1 + 1\<rparr>"
    have k2: "bk_key ?e2 = bk_key e1" by (simp add: bk_key_def)
    have "\<exists>t'. place_loop fuel mtch (length t1 - 1) t1 ?e2 (Suc i mod length t1) = Some (t', None) \<and> rh_table t' \<and>
        length t' = length t1 \<and> bag t' = add_mset (bk_key ?e2) (bag t1)"
      using Suc.IH [OF rh1 pending_next [OF e1 _ ge], of v] n hole Suc.prems(4,5) v bg k2 by simp
    moreover have "place_loop (Suc fuel) mtch (length t - 1) t e i =
        place_loop fuel mtch (length t - 1) t1 ?e2 (Suc i mod length t)"
      using i False nm nowrap rh_tableD(7) [OF rh, of "Suc i"]
      by (simp add: t1_def e1_def Let_def split: if_splits)
    ultimately show ?thesis using bg k2 by simp
  qed
qed simp

text \<open>
  An entry whose key is in the table replaces that bucket's item and nothing else: on the way
  there every bucket is at least as far from home, so nothing is displaced.
\<close>

lemma place_hit:
  assumes rh: "rh_table t" and p: "p < length t" "0 < bk_dib (t ! p)"
    and h: "bk_hash (t ! p) = bk_hash e" and m: "\<And>d. mtch (e\<lparr>bk_dib := d\<rparr>) (t ! p)"
    and un: "\<And>j d. j < length t \<Longrightarrow> 0 < bk_dib (t ! j) \<Longrightarrow> mtch (e\<lparr>bk_dib := d\<rparr>) (t ! j) \<Longrightarrow> j = p"
  shows "s < bk_dib (t ! p) \<Longrightarrow> bk_dib (t ! p) \<le> s + fuel \<Longrightarrow> bk_dib (t ! p) \<le> length t \<Longrightarrow>
    place_loop fuel mtch (length t - 1) t (e\<lparr>bk_dib := Suc s\<rparr>) ((bk_hash e + s) mod length t) =
      Some (t[p := (t ! p)\<lparr>bk_item := bk_item e\<rparr>], Some (bk_item (t ! p)))"
proof (induction fuel arbitrary: s)
  case (Suc fuel)
  let ?d = "bk_dib (t ! p)" and ?i = "(bk_hash e + s) mod length t"
  have pos: "(bk_hash e + ?d - 1) mod length t = p" using rh p h by (auto simp: rh_table_def homes_ok_def)
  then have ne: "Suc s \<le> bk_dib (t ! ?i)"
    using dib_path [of t ?d "bk_hash e" s] rh_tableD [OF rh] Suc.prems by simp
  have i: "?i < length t" using rh_tableD [OF rh] by simp
  have nx: "(?i + 1) AND (length t - 1) = (bk_hash e + Suc s) mod length t"
    using rh_tableD(7) [OF rh] by (simp add: mod_Suc_eq)
  show ?case
  proof (cases "?i = p")
    case True
    then show ?thesis using p i m [of "Suc s"] by (simp add: Let_def)
  next
    case False
    have "Suc s < ?d"
    proof (rule ccontr)
      assume "\<not> Suc s < ?d"
      then have "bk_hash e + s = bk_hash e + ?d - 1" using Suc.prems by simp
      then show False using False pos by simp
    qed
    then have IH: "place_loop fuel mtch (length t - 1) t (e\<lparr>bk_dib := Suc (Suc s)\<rparr>) ((bk_hash e + Suc s) mod length t) =
        Some (t[p := (t ! p)\<lparr>bk_item := bk_item e\<rparr>], Some (bk_item (t ! p)))"
      using Suc.IH [of "Suc s"] Suc.prems by simp
    have "\<not> mtch (e\<lparr>bk_dib := Suc s\<rparr>) (t ! ?i)" using un [OF i, of "Suc s"] ne False by auto
    moreover have "(Suc s + 1) mod 2 ^ 16 = Suc (Suc s)"
      using \<open>Suc s < ?d\<close> Suc.prems(3) rh_tableD(4) [OF rh] by simp
    ultimately have "place_loop (Suc fuel) mtch (length t - 1) t (e\<lparr>bk_dib := Suc s\<rparr>) ?i =
        place_loop fuel mtch (length t - 1) t (e\<lparr>bk_dib := Suc (Suc s)\<rparr>) ((?i + 1) AND (length t - 1))"
      using i ne by (simp add: Let_def)
    then show ?thesis using IH nx by simp
  qed
qed simp

lemma replace_item_rh:
  assumes "rh_table t" "p < length t" "bk_hash b = bk_hash (t ! p)" "bk_dib b = bk_dib (t ! p)"
  shows "rh_table (t[p := b])"
proof -
  have "bk_hash (t[p := b] ! i) = bk_hash (t ! i)" "bk_dib (t[p := b] ! i) = bk_dib (t ! i)" for i
    using assms by (auto simp: nth_list_update)
  then show ?thesis using assms(1) by (simp add: rh_table_def homes_ok_def steps_ok_def)
qed

section \<open>Closing the gap after a deletion\<close>

text \<open>
  A table with a gap at \<open>p\<close>: the bucket is empty, the step from it to its successor may be too
  large, but not larger than two from its predecessor.
\<close>

definition gap_table :: "bucket list \<Rightarrow> nat \<Rightarrow> bool" where
  "gap_table t p \<longleftrightarrow> (\<exists>k. length t = 2 ^ k) \<and> 16 \<le> length t \<and> length t \<le> 2 ^ 15 \<and> homes_ok t \<and>
     p < length t \<and> bk_dib (t ! p) = 0 \<and>
     (\<forall>j < length t. j \<noteq> p \<longrightarrow> dib_at t (Suc j) \<le> bk_dib (t ! j) + 1) \<and>
     (\<forall>j < length t. Suc j mod length t = p \<longrightarrow> dib_at t (Suc p) \<le> bk_dib (t ! j) + 2)"

lemma gap_closed:
  assumes "gap_table t p" "dib_at t (Suc p) \<le> 1"
  shows "rh_table t"
proof -
  have "dib_at t (Suc j) \<le> bk_dib (t ! j) + 1" if "j < length t" for j
    using assms that by (cases "j = p") (auto simp: gap_table_def)
  then show ?thesis using assms(1) by (simp add: gap_table_def rh_table_def steps_ok_def)
qed

lemma gap_open:
  assumes rh: "rh_table t" and p: "p < length t"
  shows "gap_table (t[p := (t ! p)\<lparr>bk_dib := 0\<rparr>]) p"
proof -
  let ?t = "t[p := (t ! p)\<lparr>bk_dib := 0\<rparr>]"
  have n: "2 < length t" using rh_tableD(3) [OF rh] by simp
  have ne: "Suc p mod length t \<noteq> p" using n p Suc_mod_cases [of p "length t"] by auto
  have st: "dib_at t (Suc j) \<le> bk_dib (t ! j) + 1" if "j < length t" for j
    using rh_tableD(6) [OF rh] that by (simp add: steps_ok_def)
  have le: "bk_dib (?t ! i) \<le> bk_dib (t ! i)" for i using p by (cases "i = p") auto
  have "dib_at ?t (Suc j) \<le> bk_dib (?t ! j) + 1" if "j < length t" "j \<noteq> p" for j
    using st [OF that(1)] le [of "Suc j mod length t"] that(2) by simp
  moreover have "dib_at ?t (Suc p) \<le> bk_dib (?t ! j) + 2" if j: "j < length t" "Suc j mod length t = p" for j
  proof -
    have "j \<noteq> p" using j ne by blast
    then show ?thesis using st [OF p] st [OF j(1)] j(2) le [of "Suc p mod length t"] by simp
  qed
  moreover have "homes_ok ?t" using rh_tableD(5) [OF rh] p by (auto simp: homes_ok_def nth_list_update)
  ultimately show ?thesis using rh p by (simp add: gap_table_def rh_table_def)
qed

lemma Suc_mod_inj:
  "(i::nat) < n \<Longrightarrow> j < n \<Longrightarrow> Suc i mod n = Suc j mod n \<longleftrightarrow> i = j"
  using Suc_mod_cases [of i n] Suc_mod_cases [of j n] by (auto split: if_splits)

lemma mod_add_neq: "(p::nat) < n \<Longrightarrow> 0 < u \<Longrightarrow> u < n \<Longrightarrow> (p + u) mod n \<noteq> p"
  by (cases "p + u < n") (auto simp: mod_if)

text \<open>Moving the successor into the gap moves the gap.\<close>

lemma gap_move:
  assumes g: "gap_table t p" and d: "2 \<le> dib_at t (Suc p)" and i_def: "i = Suc p mod length t"
  shows "gap_table (t[p := (t ! i)\<lparr>bk_dib := bk_dib (t ! i) - 1\<rparr>, i := (t ! i)\<lparr>bk_dib := 0\<rparr>]) i"
    (is "gap_table ?t i")
proof -
  have n: "2 < length t" and p: "p < length t" using g by (auto simp: gap_table_def)
  have i: "i < length t" "i \<noteq> p" "Suc i mod length t \<noteq> i" "Suc i mod length t \<noteq> p"
    using n p Suc_mod_cases [of p "length t"] Suc_mod_cases [of i "length t"]
    unfolding i_def by (auto split: if_splits)
  have other: "?t ! j = t ! j" if "j \<noteq> p" "j \<noteq> i" for j using that by simp
  have at_p: "bk_dib (?t ! p) = bk_dib (t ! i) - 1" and at_i: "bk_dib (?t ! i) = 0"
    and hp: "bk_hash (?t ! p) = bk_hash (t ! i)" using p i by auto
  have "homes_ok ?t"
    unfolding homes_ok_def
  proof (intro allI impI)
    fix j assume j: "j < length ?t" "0 < bk_dib (?t ! j)"
    show "(bk_hash (?t ! j) + bk_dib (?t ! j) - 1) mod length ?t = j"
    proof (cases "j = p")
      case True
      let ?x = "bk_hash (t ! i) + (bk_dib (t ! i) - 1) - 1"
      have "(bk_hash (t ! i) + bk_dib (t ! i) - 1) mod length t = i"
        using g i d i_def by (simp add: gap_table_def homes_ok_def)
      moreover have "bk_hash (t ! i) + bk_dib (t ! i) - 1 = Suc ?x" using d i_def by simp
      ultimately have "Suc (?x mod length t) mod length t = Suc p mod length t"
        using i_def by (simp only: mod_Suc_eq)
      moreover have "?x mod length t < length t" using p by (intro mod_less_divisor) linarith
      ultimately have "?x mod length t = p" using Suc_mod_inj [of "?x mod length t" "length t" p] p by blast
      then show ?thesis using True at_p hp by simp
    next
      case False
      then show ?thesis using j at_i other [of j] g by (cases "j = i") (auto simp: gap_table_def homes_ok_def)
    qed
  qed
  moreover have "dib_at ?t (Suc j) \<le> bk_dib (?t ! j) + 1" if j: "j < length t" "j \<noteq> i" for j
  proof -
    have si: "Suc j mod length t = i \<longleftrightarrow> j = p" using Suc_mod_inj [OF j(1) p] i_def by simp
    consider "j = p" | "j \<noteq> p" "Suc j mod length t = p" | "j \<noteq> p" "Suc j mod length t \<noteq> p" by blast
    then show ?thesis
    proof cases
      case 1
      then show ?thesis using at_i i_def by simp
    next
      case 2
      have "dib_at t (Suc p) \<le> bk_dib (t ! j) + 2" using g j 2 by (simp add: gap_table_def)
      then show ?thesis using 2 at_p other [of j] j i_def by simp
    next
      case 3
      then show ?thesis using other [of j] other [of "Suc j mod length t"] si j g by (simp add: gap_table_def)
    qed
  qed
  moreover have "dib_at ?t (Suc i) \<le> bk_dib (?t ! j) + 2" if j: "j < length t" "Suc j mod length t = i" for j
  proof -
    have "j = p" using Suc_mod_inj [OF j(1) p] j(2) i_def by simp
    moreover have "dib_at t (Suc i) \<le> bk_dib (t ! i) + 1" using g i by (simp add: gap_table_def)
    ultimately show ?thesis using at_p other [of "Suc i mod length t"] i d i_def by simp
  qed
  ultimately show ?thesis using g i at_i by (simp add: gap_table_def)
qed

lemma shift_ok:
  assumes "gap_table (t[p := (t ! p)\<lparr>bk_dib := 0\<rparr>]) p" "dib_at (t[p := (t ! p)\<lparr>bk_dib := 0\<rparr>]) (p + u) = 0"
    "0 < u" "u < length t" "u \<le> fuel"
  shows "\<exists>t'. shift_loop fuel (length t - 1) t p = Some t' \<and> rh_table t' \<and> length t' = length t \<and>
    bag t' = bag (t[p := (t ! p)\<lparr>bk_dib := 0\<rparr>])"
  using assms
proof (induction fuel arbitrary: t p u)
  case (Suc fuel)
  let ?v = "t[p := (t ! p)\<lparr>bk_dib := 0\<rparr>]" and ?i = "Suc p mod length t"
  have g: "gap_table ?v p" by fact
  then have p: "p < length t" and n: "2 < length t" and pw: "\<exists>k. length t = 2 ^ k" by (auto simp: gap_table_def)
  have i: "?i < length t" "?i \<noteq> p" using n p Suc_mod_cases [of p "length t"] by auto
  have nx: "(p + 1) AND (length t - 1) = ?i" using pow2_mask [OF pw] by simp
  show ?case
  proof (cases "bk_dib (t ! ?i) \<le> 1")
    case True
    then have "rh_table ?v" using gap_closed [OF g] i by simp
    then show ?thesis using True p i nx by (simp add: Let_def)
  next
    case False
    let ?t1 = "t[p := (t ! ?i)\<lparr>bk_dib := bk_dib (t ! ?i) - 1\<rparr>]"
    have v1: "?t1[?i := (?t1 ! ?i)\<lparr>bk_dib := 0\<rparr>] =
        ?v[p := (?v ! ?i)\<lparr>bk_dib := bk_dib (?v ! ?i) - 1\<rparr>, ?i := (?v ! ?i)\<lparr>bk_dib := 0\<rparr>]"
      using i by simp
    let ?v1 = "?t1[?i := (?t1 ! ?i)\<lparr>bk_dib := 0\<rparr>]"
    have d2: "2 \<le> dib_at ?v (Suc p)" using False i by simp
    have g1: "gap_table ?v1 ?i"
      unfolding v1 by (rule gap_move [OF g d2]) simp
    have u2: "u \<noteq> 1" using False Suc.prems(2) i by auto
    then obtain w where w: "u = Suc w" "0 < w" using Suc.prems(3) by (cases u) auto
    have q: "(?i + w) mod length t = (p + u) mod length t" using w by (simp add: mod_add_left_eq)
    have "(p + u) mod length t \<noteq> p" using mod_add_neq [OF p Suc.prems(3,4)] .
    moreover have "(p + u) mod length t \<noteq> ?i" using False Suc.prems(2) i by auto
    ultimately have "dib_at ?v1 (?i + w) = 0" using Suc.prems(2) q by simp
    then have "\<exists>t'. shift_loop fuel (length ?t1 - 1) ?t1 ?i = Some t' \<and> rh_table t' \<and> length t' = length ?t1 \<and> bag t' = bag ?v1"
      using Suc.IH [OF g1, of w] w Suc.prems(4,5) by simp
    moreover have "bag ?v1 = bag ?v"
    proof -
      have e1: "bag ?v1 + bk_one (t ! ?i) = bag ?t1"
        using bag_update [of ?i ?t1 "(?t1 ! ?i)\<lparr>bk_dib := 0\<rparr>"] i by (simp add: bk_one_def [of "_\<lparr>bk_dib := 0\<rparr>"])
      have e2: "bag ?t1 + bk_one (t ! p) = bag t + bk_one (t ! ?i)"
        using bag_update [OF p, of "(t ! ?i)\<lparr>bk_dib := bk_dib (t ! ?i) - 1\<rparr>"] False
        by (simp add: bk_one_def bk_key_def)
      have e3: "bag ?v + bk_one (t ! p) = bag t"
        using bag_update [OF p, of "(t ! p)\<lparr>bk_dib := 0\<rparr>"] by (simp add: bk_one_def [of "_\<lparr>bk_dib := 0\<rparr>"])
      have "bag ?v1 + bk_one (t ! ?i) + bk_one (t ! p) = bag ?v + bk_one (t ! ?i) + bk_one (t ! p)"
        unfolding e1 e2 e3 [symmetric] by (simp add: ac_simps)
      then show ?thesis by (simp only: add_right_cancel)
    qed
    ultimately show ?thesis using False p i nx by (simp add: Let_def)
  qed
qed simp

end
