(* ===== verification/Hashmap_Spec.thy ===== *)
theory Hashmap_Spec
  imports Robin_Hood
begin

text \<open>
  What the hash map promises its clients. The locale \<open>keyed_store\<close> is the interface: the map
  holds a multiset of entries with pairwise different keys; get, put and delete act on it. The
  hash map of theory Hashmap is its interpretation, for every comparison callback that is an
  equivalence and every map of at most \<open>2 ^ 15\<close> buckets (the largest power of two for which the
  16-bit distance cannot wrap).
\<close>

section \<open>The interface\<close>

locale keyed_store =
  fixes inv :: "'m \<Rightarrow> bool"
    and entries :: "'m \<Rightarrow> ('h \<times> 'i) multiset"
    and eqv :: "'m \<Rightarrow> 'h \<times> 'i \<Rightarrow> 'h \<times> 'i \<Rightarrow> bool"
    and norm :: "'h \<times> 'i \<Rightarrow> 'h \<times> 'i"
    and room :: "'m \<Rightarrow> bool"
    and get :: "'m \<Rightarrow> 'h \<times> 'i \<Rightarrow> 'i option option"
    and put :: "'m \<Rightarrow> 'h \<times> 'i \<Rightarrow> ('m \<times> 'i option) option"
    and del :: "'m \<Rightarrow> 'h \<times> 'i \<Rightarrow> ('m \<times> 'i option) option"
  assumes eqv_refl: "inv m \<Longrightarrow> eqv m a a"
    and eqv_sym: "inv m \<Longrightarrow> eqv m a b \<Longrightarrow> eqv m b a"
    and eqv_trans: "inv m \<Longrightarrow> eqv m a b \<Longrightarrow> eqv m b c \<Longrightarrow> eqv m a c"
    and unique: "inv m \<Longrightarrow> unique_keys (eqv m) (entries m)"
    and get_hit: "inv m \<Longrightarrow> e \<in># entries m \<Longrightarrow> eqv m (norm k) e \<Longrightarrow> get m k = Some (Some (snd e))"
    and get_miss: "inv m \<Longrightarrow> (\<And>e. e \<in># entries m \<Longrightarrow> \<not> eqv m (norm k) e) \<Longrightarrow> get m k = Some None"
    and put_ok: "inv m \<Longrightarrow> room m \<Longrightarrow> \<exists>m'. put m k = Some (m', the (get m k)) \<and> inv m' \<and> eqv m' = eqv m \<and>
          entries m' = add_mset (norm k) {#e \<in># entries m. \<not> eqv m (norm k) e#}"
    and del_ok: "inv m \<Longrightarrow> \<exists>m'. del m k = Some (m', the (get m k)) \<and> inv m' \<and> eqv m' = eqv m \<and>
          entries m' = {#e \<in># entries m. \<not> eqv m (norm k) e#}"
begin

lemma get_cases:
  assumes "inv m"
  obtains e where "e \<in># entries m" "eqv m (norm k) e" "get m k = Some (Some (snd e))"
  | "\<And>e. e \<in># entries m \<Longrightarrow> \<not> eqv m (norm k) e" "get m k = Some None"
  using get_hit [OF assms] get_miss [OF assms] by blast

lemma get_total: "inv m \<Longrightarrow> \<exists>r. get m k = Some r"
  by (rule get_cases [of m k]) auto

text \<open>Two maps with the same entries for a key answer alike.\<close>

lemma get_cong:
  assumes "inv m" "inv m'" "eqv m' = eqv m"
    and "\<And>e. eqv m (norm k) e \<Longrightarrow> e \<in># entries m' \<longleftrightarrow> e \<in># entries m"
  shows "get m' k = get m k"
proof (cases rule: get_cases [OF assms(1), of k])
  case (1 e)
  then show ?thesis using get_hit [OF assms(2), of e k] assms(3,4) by simp
next
  case 2
  then show ?thesis using get_miss [OF assms(2), of k] assms(3,4) by metis
qed

theorem get_put:
  assumes "inv m" "put m k = Some (m', old)" "room m"
  shows "get m' k' = (if eqv m (norm k) (norm k') then Some (Some (snd (norm k))) else get m k')"
proof -
  have m': "inv m'" "eqv m' = eqv m" "entries m' = add_mset (norm k) {#e \<in># entries m. \<not> eqv m (norm k) e#}"
    using put_ok [OF assms(1,3), of k] assms(2) by auto
  show ?thesis
  proof (cases "eqv m (norm k) (norm k')")
    case True
    then show ?thesis
      using get_hit [OF m'(1), of "norm k" k'] m' eqv_sym [OF assms(1)] by simp
  next
    case False
    have "get m' k' = get m k'"
    proof (rule get_cong [OF assms(1) m'(1,2)])
      fix e assume "eqv m (norm k') e"
      then have "\<not> eqv m (norm k) e" "e \<noteq> norm k"
        using False eqv_trans [OF assms(1)] eqv_sym [OF assms(1)] by blast+
      then show "e \<in># entries m' \<longleftrightarrow> e \<in># entries m" using m'(3) by auto
    qed
    with False show ?thesis by simp
  qed
qed

theorem get_del:
  assumes "inv m" "del m k = Some (m', old)"
  shows "get m' k' = (if eqv m (norm k) (norm k') then Some None else get m k')"
proof -
  have m': "inv m'" "eqv m' = eqv m" "entries m' = {#e \<in># entries m. \<not> eqv m (norm k) e#}"
    using del_ok [OF assms(1), of k] assms(2) by auto
  show ?thesis
  proof (cases "eqv m (norm k) (norm k')")
    case True
    have "\<not> eqv m' (norm k') e" if "e \<in># entries m'" for e
      using that m' eqv_trans [OF assms(1) True, of e] by auto
    then show ?thesis using True get_miss [OF m'(1), of k'] by simp
  next
    case False
    have "get m' k' = get m k'"
    proof (rule get_cong [OF assms(1) m'(1,2)])
      fix e assume "eqv m (norm k') e"
      then have "\<not> eqv m (norm k) e"
        using False eqv_trans [OF assms(1)] eqv_sym [OF assms(1)] by blast
      then show "e \<in># entries m' \<longleftrightarrow> e \<in># entries m" using m'(3) by auto
    qed
    with False show ?thesis by simp
  qed
qed

end

lemma unique_filter:
  assumes "unique_keys eqv (add_mset a N)" "eqv k a"
    and "\<And>a b. eqv a b \<Longrightarrow> eqv b a" "\<And>a b c. eqv a b \<Longrightarrow> eqv b c \<Longrightarrow> eqv a c"
  shows "{#e \<in># add_mset a N. \<not> eqv k e#} = N"
proof -
  have "\<not> eqv k b" if "b \<in># N" for b
    using assms that unfolding unique_keys_def by blast
  then have "{#e \<in># N. \<not> eqv k e#} = N" by (simp add: filter_mset_eq_conv)
  then show ?thesis using assms(2) by simp
qed

lemma unique_filter_none: "(\<And>e. e \<in># M \<Longrightarrow> \<not> P e) \<Longrightarrow> {#e \<in># M. \<not> P e#} = M"
  by (simp add: filter_mset_eq_conv)

section \<open>The capacity of a new map\<close>

lemma round_cap_pow2:
  "j \<le> c \<Longrightarrow> c < 64 \<Longrightarrow> c - j \<le> fuel \<Longrightarrow> round_cap fuel (2 ^ c) (2 ^ j) = Some (2 ^ c)"
proof (induction fuel arbitrary: j)
  case (Suc fuel)
  show ?case
  proof (cases "j = c")
    case False
    then have "2 ^ j * 2 mod 2 ^ 64 = (2::nat) ^ Suc j"
      using Suc.prems power_strict_increasing [of "Suc j" 64 "2::nat"] by simp
    then show ?thesis
      using Suc.IH [of "Suc j"] Suc.prems False power_strict_increasing [of j c "2::nat"]
      by (subst round_cap.simps) simp
  qed (simp add: round_cap.simps)
qed (simp add: round_cap.simps)

lemma round_cap_least:
  assumes "c < 64" "2 ^ j < cap" "cap \<le> 2 ^ c" "2 ^ (c - 1) < cap" "c - j \<le> fuel" "j < c"
  shows "round_cap fuel cap (2 ^ j) = Some (2 ^ c)"
  using assms
proof (induction fuel arbitrary: j)
  case (Suc fuel)
  have st: "2 ^ j * 2 mod 2 ^ 64 = (2::nat) ^ Suc j"
    using Suc.prems power_strict_increasing [of "Suc j" 64 "2::nat"] by simp
  show ?case
  proof (cases "Suc j = c")
    case True
    then show ?thesis using Suc.prems st by (subst round_cap.simps) (simp add: round_cap.simps [of fuel])
  next
    case False
    have "(2::nat) ^ Suc j \<le> 2 ^ (c - 1)" using False Suc.prems by (intro power_increasing) auto
    then have "2 ^ Suc j < cap" using Suc.prems(4) by simp
    then show ?thesis
      using Suc.IH [of "Suc j"] Suc.prems False st by (subst round_cap.simps) simp
  qed
qed simp

lemma round_cap_diverges:
  assumes "2 ^ 63 < cap" "ncap = 0 \<or> (\<exists>j < 64. ncap = 2 ^ j)"
  shows "round_cap fuel cap ncap = None"
proof -
  have pow63: "ncap \<le> 2 ^ 63" if "ncap = 0 \<or> (\<exists>j < 64. ncap = 2 ^ j)" for ncap :: nat
  proof -
    have "(2::nat) ^ j \<le> 2 ^ 63" if "j < 64" for j :: nat using that by (intro power_increasing) auto
    then show ?thesis using that by blast
  qed
  from assms(2) show ?thesis
proof (induction fuel arbitrary: ncap)
  case (Suc fuel)
  have "ncap \<le> 2 ^ 63" using Suc.prems pow63 by blast
  moreover have "ncap * 2 mod 2 ^ 64 = 0 \<or> (\<exists>j < 64. ncap * 2 mod 2 ^ 64 = 2 ^ j)"
    using Suc.prems
  proof (elim disjE exE conjE)
    fix j :: nat assume j: "j < 64" "ncap = 2 ^ j"
    show ?thesis
    proof (cases "j = 63")
      case False
      then have "ncap * 2 mod 2 ^ 64 = 2 ^ Suc j"
        using j power_strict_increasing [of "Suc j" 64 "2::nat"] by simp
      then show ?thesis using False j by (intro disjI2 exI [of _ "Suc j"]) auto
    qed (use j in simp)
  qed simp
  ultimately show ?case using Suc.IH assms(1) by (subst round_cap.simps) simp
next
  case 0
  have "ncap \<le> 2 ^ 63" using 0 pow63 by blast
  then show ?case using assms(1) by (subst round_cap.simps) simp
qed
qed

section \<open>The invariant of a map\<close>

definition hm_eqv :: "hashmap \<Rightarrow> nat \<times> item \<Rightarrow> nat \<times> item \<Rightarrow> bool" where
  "hm_eqv m a b \<longleftrightarrow> fst a = fst b \<and>
     (case hm_compare m of None \<Rightarrow> True | Some c \<Rightarrow> c (snd a) (snd b) = 0)"

text \<open>The comparison callback is an equivalence: what the header asks of a qsort-style compare.\<close>

definition cmp_equiv :: "(item \<Rightarrow> item \<Rightarrow> int) option \<Rightarrow> bool" where
  "cmp_equiv co \<longleftrightarrow> (case co of None \<Rightarrow> True | Some c \<Rightarrow> equivp (\<lambda>x y. c x y = 0))"

definition hm_entries :: "hashmap \<Rightarrow> (nat \<times> item) multiset" where
  "hm_entries m = bag (hm_buckets m)"

definition hm_inv :: "hashmap \<Rightarrow> bool" where
  "hm_inv m \<longleftrightarrow> rh_table (hm_buckets m) \<and> length (hm_buckets m) = hm_nbuckets m \<and>
     hm_mask m = hm_nbuckets m - 1 \<and> unique_keys (hm_eqv m) (hm_entries m) \<and>
     hm_count m = size (hm_entries m) \<and> hm_count m \<le> hm_growat m \<and>
     (hm_growat m = hm_nbuckets m * 3 div 5 \<or> hm_growat m = hm_nbuckets m * 3 div 4) \<and>
     hm_shrinkat m = hm_nbuckets m div 10 \<and> (\<exists>c. hm_cap m = 2 ^ c) \<and> 16 \<le> hm_cap m \<and>
     hm_cap m \<le> hm_nbuckets m \<and> 1 \<le> hm_growpower m \<and> hm_growpower m \<le> 16 \<and> cmp_equiv (hm_compare m)"

text \<open>There is room for one more entry, possibly after growing.\<close>

definition hm_room :: "hashmap \<Rightarrow> bool" where
  "hm_room m \<longleftrightarrow> hm_count m < hm_growat m \<or> hm_nbuckets m * 2 ^ hm_growpower m \<le> 2 ^ 15"

lemma hm_eqv_equivp:
  assumes "cmp_equiv (hm_compare m)"
  shows "equivp (hm_eqv m)"
proof (cases "hm_compare m")
  case None
  then show ?thesis by (auto simp: hm_eqv_def intro!: equivpI reflpI sympI transpI)
next
  case (Some c)
  define R where "R x y \<longleftrightarrow> c x y = 0" for x y
  have r: "equivp R" using assms Some by (simp add: cmp_equiv_def R_def [abs_def])
  have e: "hm_eqv m a b \<longleftrightarrow> fst a = fst b \<and> R (snd a) (snd b)" for a b
    using Some by (simp add: hm_eqv_def R_def)
  show ?thesis
  proof (rule equivpI)
    show "reflp (hm_eqv m)" using equivp_reflp [OF r] by (intro reflpI) (simp only: e simp_thms)
    show "symp (hm_eqv m)"
    proof (rule sympI)
      fix a b assume "hm_eqv m a b"
      then show "hm_eqv m b a" unfolding e using equivp_symp [OF r, of "snd a" "snd b"] by simp
    qed
    show "transp (hm_eqv m)"
    proof (rule transpI)
      fix a b d assume "hm_eqv m a b" "hm_eqv m b d"
      then show "hm_eqv m a d"
        unfolding e using equivp_transp [OF r, of "snd a" "snd b" "snd d"] by simp
    qed
  qed
qed

lemma hm_eqv_refl: "cmp_equiv (hm_compare m) \<Longrightarrow> hm_eqv m a a"
  using hm_eqv_equivp equivp_reflp by metis

lemma hm_eqv_sym: "cmp_equiv (hm_compare m) \<Longrightarrow> hm_eqv m a b \<Longrightarrow> hm_eqv m b a"
  using hm_eqv_equivp equivp_symp by metis

lemma hm_eqv_trans: "cmp_equiv (hm_compare m) \<Longrightarrow> hm_eqv m a b \<Longrightarrow> hm_eqv m b c \<Longrightarrow> hm_eqv m a c"
  using hm_eqv_equivp equivp_transp by metis

lemma same_key_eqv: "same_key m e b \<longleftrightarrow> hm_eqv m (bk_key e) (bk_key b)"
  by (cases "hm_compare m") (simp_all add: same_key_def hm_eqv_def bk_key_def)

lemma hm_eqv_cong: "hm_compare m' = hm_compare m \<Longrightarrow> hm_eqv m' = hm_eqv m"
  by (simp add: hm_eqv_def fun_eq_iff)

lemma growat_less:
  assumes "16 \<le> n" "g = n * 3 div 5 \<or> g = n * 3 div 4"
  shows "g < (n::nat)"
  using assms by auto

lemma hm_inv_empty_slot:
  assumes "hm_inv m"
  obtains q where "q < length (hm_buckets m)" "bk_dib (hm_buckets m ! q) = 0"
proof -
  have "16 \<le> hm_nbuckets m" using assms rh_tableD(3) by (auto simp: hm_inv_def)
  then have "size (bag (hm_buckets m)) < length (hm_buckets m)"
    using assms growat_less [of "hm_nbuckets m" "hm_growat m"] by (simp add: hm_inv_def hm_entries_def)
  then show ?thesis using empty_slot that by blast
qed

lemma hm_inv_dib_bound:
  assumes "hm_inv m" "i < length (hm_buckets m)"
  shows "bk_dib (hm_buckets m ! i) < length (hm_buckets m)"
  using assms hm_inv_empty_slot [OF assms(1)] dib_bound [OF rh_tableD(6)] by (metis hm_inv_def)

lemma hm_unique_index:
  assumes "hm_inv m" "i < length (hm_buckets m)" "j < length (hm_buckets m)"
    "0 < bk_dib (hm_buckets m ! i)" "0 < bk_dib (hm_buckets m ! j)"
    "hm_eqv m k (bk_key (hm_buckets m ! i))" "hm_eqv m k (bk_key (hm_buckets m ! j))"
  shows "i = j"
proof (rule ccontr)
  assume "i \<noteq> j"
  have c: "cmp_equiv (hm_compare m)" using assms(1) by (simp add: hm_inv_def)
  then have "hm_eqv m (bk_key (hm_buckets m ! i)) (bk_key (hm_buckets m ! j))"
    using assms(6,7) hm_eqv_sym hm_eqv_trans by blast
  then show False
    using unique_keys_nth [of "hm_eqv m" "hm_buckets m" i j] assms(1-5) \<open>i \<noteq> j\<close>
    by (simp add: hm_inv_def hm_entries_def)
qed

section \<open>Searching a map\<close>

lemma hashmap_find_hit:
  assumes inv: "hm_inv m" and p: "p < length (hm_buckets m)" "0 < bk_dib (hm_buckets m ! p)"
    "hm_eqv m (h, key) (bk_key (hm_buckets m ! p))"
  shows "hashmap_find m key h = Some (Some p)"
proof -
  let ?t = "hm_buckets m" and ?e = "\<lparr> bk_hash = h, bk_dib = 1, bk_item = key \<rparr>"
  have rh: "rh_table ?t" and n: "length ?t = hm_nbuckets m" "hm_mask m = length ?t - 1"
    using inv by (auto simp: hm_inv_def)
  have k: "bk_key ?e = (h, key)" by (simp add: bk_key_def)
  have "probe_loop (hm_nbuckets m) (same_key m ?e) (length ?t - 1) ?t ((h + 0) mod length ?t) = Some (Some p)"
  proof (rule probe_hit [OF rh p(1,2)])
    show "same_key m ?e (?t ! p)" using p(3) k by (simp add: same_key_eqv)
    show "bk_hash (?t ! p) = h" using p(3) by (simp add: hm_eqv_def bk_key_def)
    show "j = p" if "j < length ?t" "0 < bk_dib (?t ! j)" "same_key m ?e (?t ! j)" for j
      using hm_unique_index [OF inv that(1) p(1) that(2) p(2) _ p(3)] that(3) k by (simp add: same_key_eqv)
    show "bk_dib (?t ! p) \<le> 0 + hm_nbuckets m" using hm_inv_dib_bound [OF inv p(1)] n by simp
  qed (use p in simp)
  then show ?thesis using n rh_tableD(7) [OF rh, of h] by (simp add: hashmap_find_def)
qed

lemma hashmap_find_miss:
  assumes inv: "hm_inv m" and no: "\<And>e. e \<in># hm_entries m \<Longrightarrow> \<not> hm_eqv m (h, key) e"
  shows "hashmap_find m key h = Some None"
proof -
  let ?t = "hm_buckets m" and ?e = "\<lparr> bk_hash = h, bk_dib = 1, bk_item = key \<rparr>"
  have rh: "rh_table ?t" and n: "length ?t = hm_nbuckets m" "hm_mask m = length ?t - 1"
    using inv by (auto simp: hm_inv_def)
  have k: "bk_key ?e = (h, key)" by (simp add: bk_key_def)
  have i: "h mod length ?t < length ?t" using rh_tableD(1) [OF rh] by simp
  obtain q where q: "q < length ?t" "bk_dib (?t ! q) = 0" using hm_inv_empty_slot [OF inv] .
  obtain u where u: "u < length ?t" "(h mod length ?t + u) mod length ?t = q" using reach_mod [OF i q(1)] .
  have "probe_loop (hm_nbuckets m) (same_key m ?e) (length ?t - 1) ?t (h mod length ?t) = Some None"
  proof (rule probe_miss [OF rh _ i])
    show "\<not> same_key m ?e (?t ! j)" if "j < length ?t" "0 < bk_dib (?t ! j)" for j
      using that no [of "bk_key (?t ! j)"] k by (auto simp: same_key_eqv hm_entries_def in_bag_iff)
    show "dib_at ?t (h mod length ?t + u) = 0" using u q by simp
    show "u < hm_nbuckets m" using u n by simp
  qed
  then show ?thesis using n rh_tableD(7) [OF rh, of h] by (simp add: hashmap_find_def)
qed

lemma hm_entry_index:
  assumes "e \<in># hm_entries m"
  obtains p where "p < length (hm_buckets m)" "0 < bk_dib (hm_buckets m ! p)" "bk_key (hm_buckets m ! p) = e"
  using assms by (auto simp: hm_entries_def in_bag_iff)

lemma hm_get_hit:
  assumes "hm_inv m" "e \<in># hm_entries m" "hm_eqv m (clip_hash h, key) e"
  shows "hashmap_get_with_hash m key h = Some (Some (snd e))"
proof -
  obtain p where p: "p < length (hm_buckets m)" "0 < bk_dib (hm_buckets m ! p)" "bk_key (hm_buckets m ! p) = e"
    using hm_entry_index [OF assms(2)] .
  then show ?thesis
    using hashmap_find_hit [OF assms(1) p(1,2), of "clip_hash h" key] assms(3)
    by (auto simp: hashmap_get_with_hash_def bk_key_def)
qed

lemma hm_get_miss:
  assumes "hm_inv m" "\<And>e. e \<in># hm_entries m \<Longrightarrow> \<not> hm_eqv m (clip_hash h, key) e"
  shows "hashmap_get_with_hash m key h = Some None"
  using hashmap_find_miss [OF assms] by (simp add: hashmap_get_with_hash_def)

section \<open>Resizing\<close>

lemma resize_loop_ok:
  assumes "rh_table t2" "size (bag t2) + size (bag bs) < length t2"
  shows "\<exists>t'. resize_loop (length t2) (length t2 - 1) bs t2 = Some t' \<and> rh_table t' \<and>
    length t' = length t2 \<and> bag t' = bag bs + bag t2"
  using assms
proof (induction bs arbitrary: t2)
  case (Cons b bs)
  show ?case
  proof (cases "bk_dib b = 0")
    case True
    then show ?thesis using Cons by (simp add: bk_one_def)
  next
    case False
    let ?e = "b\<lparr>bk_dib := 1\<rparr>" and ?i = "bk_hash b mod length t2"
    have sz: "size (bag t2) < length t2" using Cons.prems(2) by simp
    obtain q where q: "q < length t2" "bk_dib (t2 ! q) = 0" using empty_slot [OF sz] .
    have i: "?i < length t2" using q by (intro mod_less_divisor) linarith
    obtain u where u: "u < length t2" "(?i + u) mod length t2 = q" using reach_mod [OF i q(1)] .
    have "pending t2 ?e ?i" using pending_home [of t2 ?e] rh_tableD(1) [OF Cons.prems(1)] by simp
    then obtain t1 where t1: "place_loop (length t2) (\<lambda>_ _. False) (length t2 - 1) t2 ?e ?i = Some (t1, None)"
      "rh_table t1" "length t1 = length t2" "bag t1 = add_mset (bk_key ?e) (bag t2)"
      using place_new [OF Cons.prems(1), of ?e ?i u "length t2" "\<lambda>_ _. False" "\<lambda>_ _. False"] q u
      by (auto simp: unique_keys_def)
    have one: "bk_one b = {#bk_key ?e#}" using False by (simp add: bk_one_def bk_key_def)
    obtain t' where "resize_loop (length t1) (length t1 - 1) bs t1 = Some t'" "rh_table t'"
      "length t' = length t1" "bag t' = bag bs + bag t1"
      using Cons.IH [OF t1(2)] Cons.prems(2) t1(3,4) one by auto
    then show ?thesis
      using False t1 one rh_tableD(7) [OF Cons.prems(1), of "bk_hash b"] by simp
  qed
qed simp

lemma homes_steps_empty: "rh_table (replicate (2 ^ c) (empty_bucket e))" if "16 \<le> (2::nat) ^ c" "(2::nat) ^ c \<le> 2 ^ 15"
  using that by (auto simp: rh_table_def homes_ok_def steps_ok_def empty_bucket_def)

lemma pow2_exp_less_64:
  assumes "(2::nat) ^ c \<le> 2 ^ 15"
  shows "c < 64"
proof -
  have "c \<le> 15" using assms power_le_imp_le_exp [of "2::nat" c 15] by simp
  then show ?thesis by simp
qed

lemma hashmap_new_pow2:
  assumes "16 \<le> (2::nat) ^ c" "(2::nat) ^ c \<le> 2 ^ 15"
  shows "\<exists>m. hashmap_new True es (2 ^ c) s0 s1 hf cf ef = Some (Some m) \<and>
    hm_buckets m = replicate (2 ^ c) (empty_bucket es) \<and> hm_nbuckets m = 2 ^ c \<and> hm_mask m = 2 ^ c - 1 \<and>
    hm_growat m = 2 ^ c * 3 div 5 \<and> hm_shrinkat m = 2 ^ c div 10 \<and> hm_cap m = 2 ^ c \<and>
    hm_count m = 0 \<and> hm_growpower m = 1 \<and> hm_compare m = cf"
proof -
  have "4 \<le> c" using assms(1) power_le_imp_le_exp [of "2::nat" 4 c] by simp
  then have "round_cap 64 (2 ^ c) 16 = Some (2 ^ c)"
    using round_cap_pow2 [of 4 c 64] pow2_exp_less_64 [OF assms(2)] by simp
  then show ?thesis using assms(1) by (simp add: hashmap_new_def)
qed

lemma hashmap_new_fails:
  assumes "16 \<le> (2::nat) ^ c" "(2::nat) ^ c \<le> 2 ^ 15"
  shows "hashmap_new False es (2 ^ c) s0 s1 hf cf ef = Some None"
proof -
  have "4 \<le> c" using assms(1) power_le_imp_le_exp [of "2::nat" 4 c] by simp
  then have "round_cap 64 (2 ^ c) 16 = Some (2 ^ c)"
    using round_cap_pow2 [of 4 c 64] pow2_exp_less_64 [OF assms(2)] by simp
  then show ?thesis using assms(1) by (simp add: hashmap_new_def)
qed

text \<open>A resize rebuilds the table with the same entries; a failed one changes nothing.\<close>

lemma resize_ok:
  assumes "16 \<le> (2::nat) ^ c" "(2::nat) ^ c \<le> 2 ^ 15" "size (hm_entries m) < 2 ^ c"
  shows "\<exists>t. resize True m (2 ^ c) = Some (m\<lparr> hm_buckets := t, hm_nbuckets := 2 ^ c, hm_mask := 2 ^ c - 1,
       hm_growat := 2 ^ c * 3 div 5, hm_shrinkat := 2 ^ c div 10 \<rparr>, True) \<and>
     rh_table t \<and> length t = 2 ^ c \<and> bag t = hm_entries m"
proof -
  let ?t = "replicate (2 ^ c) (empty_bucket (hm_elsize m))"
  obtain m2 where m2: "hashmap_new True (hm_elsize m) (2 ^ c) (hm_seed0 m) (hm_seed1 m) (hm_hash m)
      (hm_compare m) (hm_elfree m) = Some (Some m2)" "hm_buckets m2 = ?t" "hm_nbuckets m2 = 2 ^ c"
    "hm_mask m2 = 2 ^ c - 1" "hm_growat m2 = 2 ^ c * 3 div 5" "hm_shrinkat m2 = 2 ^ c div 10"
    using hashmap_new_pow2 [OF assms(1,2)] by metis
  obtain t where "resize_loop (2 ^ c) (2 ^ c - 1) (hm_buckets m) ?t = Some t" "rh_table t"
    "length t = 2 ^ c" "bag t = hm_entries m"
    using resize_loop_ok [OF homes_steps_empty [OF assms(1,2)], of "hm_elsize m" "hm_buckets m"] assms(3)
    by (auto simp: hm_entries_def)
  then show ?thesis using m2 by (intro exI [of _ t]) (simp add: resize_def)
qed

lemma resize_fails:
  assumes "16 \<le> (2::nat) ^ c" "(2::nat) ^ c \<le> 2 ^ 15"
  shows "resize False m (2 ^ c) = Some (m, False)"
  using hashmap_new_fails [OF assms] by (simp add: resize_def)

section \<open>Setting an entry\<close>

lemma hm_oom_simps [simp]:
  "hm_inv (m\<lparr>hm_oom := b\<rparr>) = hm_inv m" "hm_eqv (m\<lparr>hm_oom := b\<rparr>) = hm_eqv m"
  "hm_entries (m\<lparr>hm_oom := b\<rparr>) = hm_entries m" "same_key (m\<lparr>hm_oom := b\<rparr>) = same_key m"
proof -
  show e: "hm_eqv (m\<lparr>hm_oom := b\<rparr>) = hm_eqv m" by (rule hm_eqv_cong) simp
  show n: "hm_entries (m\<lparr>hm_oom := b\<rparr>) = hm_entries m" by (simp add: hm_entries_def)
  show "hm_inv (m\<lparr>hm_oom := b\<rparr>) = hm_inv m" unfolding hm_inv_def e n by simp
  show "same_key (m\<lparr>hm_oom := b\<rparr>) = same_key m" by (simp add: same_key_def fun_eq_iff)
qed

text \<open>Replacing the table, its geometry and the count keeps the callbacks and with them the keys.\<close>

lemma hm_inv_update:
  assumes "hm_inv m" "rh_table t" "length t = n" "unique_keys (hm_eqv m) (bag t)" "c = size (bag t)" "c \<le> g"
    "g = n * 3 div 5 \<or> g = n * 3 div 4" "hm_cap m \<le> n"
  shows "hm_inv (m\<lparr> hm_buckets := t, hm_nbuckets := n, hm_mask := n - 1, hm_growat := g, hm_shrinkat := n div 10,
    hm_count := c \<rparr>)" (is "hm_inv ?m")
proof -
  have "hm_eqv ?m = hm_eqv m" by (rule hm_eqv_cong) simp
  moreover have "hm_entries ?m = bag t" by (simp add: hm_entries_def)
  ultimately show ?thesis unfolding hm_inv_def using assms by (simp add: hm_inv_def)
qed

lemma hm_inv_table:
  assumes "hm_inv m" "rh_table t" "length t = hm_nbuckets m" "unique_keys (hm_eqv m) (bag t)"
    "c = size (bag t)" "c \<le> hm_growat m"
  shows "hm_inv (m\<lparr> hm_buckets := t, hm_count := c \<rparr>)"
proof -
  have "m\<lparr> hm_buckets := t, hm_nbuckets := hm_nbuckets m, hm_mask := hm_nbuckets m - 1, hm_growat := hm_growat m,
    hm_shrinkat := hm_nbuckets m div 10, hm_count := c \<rparr> = m\<lparr> hm_buckets := t, hm_count := c \<rparr>"
    using assms(1) by (simp add: hm_inv_def)
  moreover have "hm_growat m = hm_nbuckets m * 3 div 5 \<or> hm_growat m = hm_nbuckets m * 3 div 4"
    "hm_cap m \<le> hm_nbuckets m" using assms(1) by (simp_all add: hm_inv_def)
  ultimately show ?thesis using hm_inv_update [OF assms] by metis
qed

lemma place_in_map:
  assumes inv: "hm_inv m" and lt: "hm_count m < hm_growat m"
  shows "\<exists>t old. place_loop (hm_nbuckets m) (same_key m) (hm_mask m) (hm_buckets m)
        \<lparr> bk_hash = h, bk_dib = 1, bk_item = it \<rparr> (h AND hm_mask m) = Some (t, old) \<and>
     hm_inv (m\<lparr> hm_buckets := t, hm_count := (if old = None then hm_count m + 1 else hm_count m) \<rparr>) \<and>
     bag t = add_mset (h, it) {#e \<in># hm_entries m. \<not> hm_eqv m (h, it) e#} \<and>
     old = the (map_option (map_option (\<lambda>i. bk_item (hm_buckets m ! i))) (hashmap_find m it h))"
proof -
  let ?t = "hm_buckets m" and ?e = "\<lparr> bk_hash = h, bk_dib = 1, bk_item = it \<rparr>"
  have rh: "rh_table ?t" and n: "length ?t = hm_nbuckets m" "hm_mask m = length ?t - 1"
    and un: "unique_keys (hm_eqv m) (bag ?t)" and ce: "cmp_equiv (hm_compare m)"
    and cnt: "hm_count m = size (bag ?t)"
    and gr: "hm_growat m = hm_nbuckets m * 3 div 5 \<or> hm_growat m = hm_nbuckets m * 3 div 4" "hm_cap m \<le> hm_nbuckets m"
    using inv by (auto simp: hm_inv_def hm_entries_def)
  have k: "bk_key ?e = (h, it)" by (simp add: bk_key_def)
  have i: "h AND hm_mask m = h mod length ?t" "h mod length ?t < length ?t"
    using rh_tableD(1,7) [OF rh] n by auto
  show ?thesis
  proof (cases "\<exists>e. e \<in># hm_entries m \<and> hm_eqv m (h, it) e")
    case True
    then obtain p where p: "p < length ?t" "0 < bk_dib (?t ! p)" "hm_eqv m (h, it) (bk_key (?t ! p))"
      using hm_entry_index by metis
    let ?b = "(?t ! p)\<lparr>bk_item := it\<rparr>"
    have f: "hashmap_find m it h = Some (Some p)" by (rule hashmap_find_hit [OF inv p])
    have hp: "bk_hash (?t ! p) = h" using p(3) by (simp add: hm_eqv_def bk_key_def)
    have "place_loop (hm_nbuckets m) (same_key m) (length ?t - 1) ?t (?e\<lparr>bk_dib := Suc 0\<rparr>) ((bk_hash ?e + 0) mod length ?t)
        = Some (?t[p := (?t ! p)\<lparr>bk_item := bk_item ?e\<rparr>], Some (bk_item (?t ! p)))"
    proof (rule place_hit [OF rh p(1,2)])
      show "same_key m (?e\<lparr>bk_dib := d\<rparr>) (?t ! p)" for d
        using p(3) by (simp add: same_key_eqv bk_key_def)
      show "j = p" if "j < length ?t" "0 < bk_dib (?t ! j)" "same_key m (?e\<lparr>bk_dib := d\<rparr>) (?t ! j)" for j d
        using hm_unique_index [OF inv that(1) p(1) that(2) p(2) _ p(3)] that(3)
        by (simp add: same_key_eqv) (simp add: bk_key_def)
    qed (use p hp hm_inv_dib_bound [OF inv p(1)] n in auto)
    then have pl: "place_loop (hm_nbuckets m) (same_key m) (hm_mask m) ?t ?e (h AND hm_mask m) =
        Some (?t[p := ?b], Some (bk_item (?t ! p)))" using n i by simp
    have b1: "bk_one (?t ! p) = {#bk_key (?t ! p)#}" "bk_one ?b = {#(h, it)#}"
      using p(2) hp by (simp_all add: bk_one_def bk_key_def)
    then have up: "add_mset (bk_key (?t ! p)) (bag (?t[p := ?b])) = add_mset (h, it) (bag ?t)"
      using bag_update [OF p(1), of ?b] by simp
    have "bk_key (?t ! p) \<in># bag ?t" using p by (auto simp: in_bag_iff)
    then obtain N where N: "bag ?t = add_mset (bk_key (?t ! p)) N" by (metis mset_add)
    have bt: "bag (?t[p := ?b]) = add_mset (h, it) N" using up N by (simp add: add_mset_commute)
    have fl: "{#e \<in># hm_entries m. \<not> hm_eqv m (h, it) e#} = N"
      unfolding hm_entries_def N
      by (rule unique_filter [OF un [unfolded N] p(3)]) (use hm_eqv_sym [OF ce] hm_eqv_trans [OF ce] in blast)+
    have "unique_keys (hm_eqv m) (add_mset (h, it) N)"
    proof (rule unique_keys_add)
      show "unique_keys (hm_eqv m) N" using un N unique_keys_subset by (metis mset_subset_eq_add_mset_cancel subset_mset.order_refl mset_subset_eq_insertD subset_mset.less_imp_le)
      fix b assume "b \<in># N"
      then have "b \<in># {#e \<in># hm_entries m. \<not> hm_eqv m (h, it) e#}" using fl by simp
      then show "\<not> hm_eqv m (h, it) b" by simp
      then show "\<not> hm_eqv m b (h, it)" using hm_eqv_sym [OF ce] by blast
    qed
    then have "hm_inv (m\<lparr> hm_buckets := ?t[p := ?b], hm_count := hm_count m \<rparr>)"
      using hm_inv_table [OF inv replace_item_rh [OF rh p(1), of ?b], of "hm_count m"] n bt N cnt lt by simp
    then show ?thesis using pl bt fl f by simp
  next
    case False
    then have no: "\<And>e. e \<in># hm_entries m \<Longrightarrow> \<not> hm_eqv m (h, it) e" by blast
    obtain q where q: "q < length ?t" "bk_dib (?t ! q) = 0" using hm_inv_empty_slot [OF inv] .
    obtain u where u: "u < length ?t" "(h mod length ?t + u) mod length ?t = q" using reach_mod [OF i(2) q(1)] .
    have un': "unique_keys (hm_eqv m) (add_mset (bk_key ?e) (bag ?t))"
      unfolding k
    proof (rule unique_keys_add [OF un])
      fix b assume b: "b \<in># bag ?t"
      then show "\<not> hm_eqv m (h, it) b" using no by (simp add: hm_entries_def)
      then show "\<not> hm_eqv m b (h, it)" using hm_eqv_sym [OF ce] by blast
    qed
    have "pending ?t ?e (h mod length ?t)" using pending_home [of ?t ?e] rh_tableD(1) [OF rh] by simp
    then obtain t' where t': "place_loop (hm_nbuckets m) (same_key m) (length ?t - 1) ?t ?e (h mod length ?t) = Some (t', None)"
      "rh_table t'" "length t' = length ?t" "bag t' = add_mset (bk_key ?e) (bag ?t)"
      using place_new [OF rh _ _ _ un', of "h mod length ?t" u "hm_nbuckets m" "same_key m"] q u n
      by (auto simp: same_key_eqv)
    have "hm_inv (m\<lparr> hm_buckets := t', hm_count := hm_count m + 1 \<rparr>)"
      using hm_inv_table [OF inv t'(2), of "hm_count m + 1"] t'(3,4) un' n cnt lt by simp
    then show ?thesis
      using t' i n no k hashmap_find_miss [OF inv no] by (simp add: unique_filter_none hm_entries_def)
  qed
qed

lemma hm_nbuckets_pow2:
  assumes "hm_inv m"
  obtains k where "hm_nbuckets m = 2 ^ k" "16 \<le> (2::nat) ^ k" "(2::nat) ^ k \<le> 2 ^ 15"
  using assms by (auto simp: hm_inv_def rh_table_def)

text \<open>The growth step of hashmap_set_with_hash leaves room for the entry.\<close>

lemma grow_step:
  assumes inv: "hm_inv m" and room: "hm_room m"
  shows "\<exists>m'. (if hm_count m = hm_growat m then resize True m (hm_nbuckets m * 2 ^ hm_growpower m)
       else Some (m, True)) = Some (m', True) \<and> hm_inv m' \<and> hm_count m' < hm_growat m' \<and>
     hm_entries m' = hm_entries m \<and> hm_eqv m' = hm_eqv m"
proof (cases "hm_count m = hm_growat m")
  case True
  obtain k where k: "hm_nbuckets m = 2 ^ k" "16 \<le> (2::nat) ^ k" "(2::nat) ^ k \<le> 2 ^ 15" using hm_nbuckets_pow2 [OF inv] .
  let ?c = "k + hm_growpower m"
  have nc: "hm_nbuckets m * 2 ^ hm_growpower m = 2 ^ ?c" using k by (simp add: power_add)
  have dbl: "2 * (2::nat) ^ k \<le> 2 ^ ?c"
    using inv power_increasing [of "Suc k" ?c "2::nat"] by (simp add: hm_inv_def)
  have up: "(2::nat) ^ ?c \<le> 2 ^ 15" using room True nc by (simp add: hm_room_def)
  have sz: "size (hm_entries m) < 2 ^ k" and cg: "hm_count m = size (hm_entries m)"
    using inv growat_less [of "2 ^ k" "hm_growat m"] k by (auto simp: hm_inv_def)
  obtain t where t: "resize True m (2 ^ ?c) = Some (m\<lparr> hm_buckets := t, hm_nbuckets := 2 ^ ?c, hm_mask := 2 ^ ?c - 1,
       hm_growat := 2 ^ ?c * 3 div 5, hm_shrinkat := 2 ^ ?c div 10 \<rparr>, True)"
     "rh_table t" "length t = 2 ^ ?c" "bag t = hm_entries m"
    using resize_ok [of ?c m] k(2) dbl up sz by auto
  let ?m = "m\<lparr> hm_buckets := t, hm_nbuckets := 2 ^ ?c, hm_mask := 2 ^ ?c - 1,
       hm_growat := 2 ^ ?c * 3 div 5, hm_shrinkat := 2 ^ ?c div 10 \<rparr>"
  have lt: "hm_count m < 2 ^ ?c * 3 div 5" using sz cg dbl by linarith
  have "hm_inv (?m\<lparr> hm_count := hm_count m \<rparr>)"
    using hm_inv_update [OF inv t(2,3), of "hm_count m" "2 ^ ?c * 3 div 5"] t(4) inv lt dbl k(1)
    by (auto simp: hm_inv_def)
  then have "hm_inv ?m" by simp
  then show ?thesis
    using True t nc lt by (auto simp: hm_entries_def intro: hm_eqv_cong)
next
  case False
  then show ?thesis using inv by (auto simp: hm_inv_def)
qed

lemma hm_set_ok:
  assumes inv: "hm_inv m" and room: "hm_room m"
  shows "\<exists>m'. hashmap_set_with_hash True m it h = Some (m', the (hashmap_get_with_hash m it h)) \<and> hm_inv m' \<and>
     hm_eqv m' = hm_eqv m \<and>
     hm_entries m' = add_mset (clip_hash h, it) {#e \<in># hm_entries m. \<not> hm_eqv m (clip_hash h, it) e#}"
proof -
  let ?m0 = "m\<lparr>hm_oom := False\<rparr>" and ?h = "clip_hash h"
  have "hm_inv ?m0" "hm_room ?m0" using inv room by (auto simp: hm_room_def)
  from grow_step [OF this] obtain m1 where m1:
    "(if hm_count ?m0 = hm_growat ?m0 then resize True ?m0 (hm_nbuckets ?m0 * 2 ^ hm_growpower ?m0)
       else Some (?m0, True)) = Some (m1, True)" "hm_inv m1" "hm_count m1 < hm_growat m1"
    "hm_entries m1 = hm_entries m" "hm_eqv m1 = hm_eqv m" by auto
  obtain t old where t: "place_loop (hm_nbuckets m1) (same_key m1) (hm_mask m1) (hm_buckets m1)
        \<lparr> bk_hash = ?h, bk_dib = 1, bk_item = it \<rparr> (?h AND hm_mask m1) = Some (t, old)"
    "hm_inv (m1\<lparr> hm_buckets := t, hm_count := (if old = None then hm_count m1 + 1 else hm_count m1) \<rparr>)"
    "bag t = add_mset (?h, it) {#e \<in># hm_entries m1. \<not> hm_eqv m1 (?h, it) e#}"
    "old = the (map_option (map_option (\<lambda>i. bk_item (hm_buckets m1 ! i))) (hashmap_find m1 it ?h))"
    using place_in_map [OF m1(2,3)] by blast
  have "old = the (hashmap_get_with_hash m1 it h)"
  proof (cases "hashmap_find m1 it ?h")
    case None
    then show ?thesis
      using hashmap_find_hit [OF m1(2)] hashmap_find_miss [OF m1(2)] hm_entry_index by (metis option.distinct(1))
  qed (use t(4) in \<open>simp add: hashmap_get_with_hash_def\<close>)
  moreover have "hashmap_get_with_hash m1 it h = hashmap_get_with_hash m it h"
    using hm_get_hit [OF m1(2)] hm_get_hit [OF inv] hm_get_miss [OF m1(2)] hm_get_miss [OF inv] m1(4,5) by metis
  moreover have "hm_eqv (m1\<lparr> hm_buckets := t, hm_count := c \<rparr>) = hm_eqv m" for c
    using m1(5) hm_eqv_cong [of "m1\<lparr> hm_buckets := t, hm_count := c \<rparr>" m1] by simp
  ultimately show ?thesis
    using m1 t by (simp add: hashmap_set_with_hash_def Let_def hm_entries_def)
qed

text \<open>When growing fails nothing changes but the flag.\<close>

lemma hm_set_oom:
  assumes inv: "hm_inv m" and "hm_count m = hm_growat m" "hm_nbuckets m * 2 ^ hm_growpower m \<le> 2 ^ 15"
  shows "hashmap_set_with_hash False m it h = Some (m\<lparr>hm_oom := True\<rparr>, None)"
proof -
  obtain k where k: "hm_nbuckets m = 2 ^ k" "16 \<le> (2::nat) ^ k" using hm_nbuckets_pow2 [OF inv] .
  have "(16::nat) \<le> 2 ^ (k + hm_growpower m)"
    using k(2) power_increasing [of k "k + hm_growpower m" "2::nat"] by linarith
  then have "resize False (m\<lparr>hm_oom := False\<rparr>) (2 ^ (k + hm_growpower m)) = Some (m\<lparr>hm_oom := False\<rparr>, False)"
    using assms(3) k(1) by (intro resize_fails) (auto simp: power_add)
  then show ?thesis using assms(2) k(1) by (simp add: hashmap_set_with_hash_def Let_def power_add)
qed

section \<open>Deleting an entry\<close>

text \<open>The shrink step after a deletion keeps the entries, whether or not it succeeds.\<close>

lemma shrink_step:
  assumes inv: "hm_inv m"
  shows "\<exists>m' b. (if hm_cap m < hm_nbuckets m \<and> hm_count m \<le> hm_shrinkat m
        then resize ok m (hm_nbuckets m div 2) else Some (m, True)) = Some (m', b) \<and>
      hm_inv m' \<and> hm_eqv m' = hm_eqv m \<and> hm_entries m' = hm_entries m"
proof (cases "hm_cap m < hm_nbuckets m \<and> hm_count m \<le> hm_shrinkat m")
  case True
  obtain k where k: "hm_nbuckets m = 2 ^ k" "16 \<le> (2::nat) ^ k" "(2::nat) ^ k \<le> 2 ^ 15" using hm_nbuckets_pow2 [OF inv] .
  obtain c where c: "hm_cap m = 2 ^ c" "16 \<le> (2::nat) ^ c" using inv by (auto simp: hm_inv_def)
  have ck: "c < k" using True c(1) k(1) power_less_imp_less_exp [of "2::nat" c k] by simp
  then obtain j where j: "k = Suc j" "c \<le> j" by (cases k) auto
  have half: "hm_nbuckets m div 2 = 2 ^ j" "hm_nbuckets m = 2 * 2 ^ j" using k(1) j(1) by simp_all
  have cj: "hm_cap m \<le> 2 ^ j" using c(1) j(2) by (simp add: power_increasing)
  have b: "16 \<le> (2::nat) ^ j" "(2::nat) ^ j \<le> 2 ^ 15"
    using cj c k(3) j(1) by (linarith, simp)
  have cnt: "hm_count m = size (hm_entries m)" "hm_count m \<le> 2 * 2 ^ j div 10"
    using inv True half by (auto simp: hm_inv_def)
  then have sz: "size (hm_entries m) < 2 ^ j" "hm_count m \<le> 2 ^ j * 3 div 5" using b(1) by linarith+
  show ?thesis
  proof (cases ok)
    case False
    then show ?thesis using True half resize_fails [OF b, of m] inv by (intro exI [of _ m] exI [of _ False]) simp
  next
    case ok: True
    obtain t where t: "resize True m (2 ^ j) = Some (m\<lparr> hm_buckets := t, hm_nbuckets := 2 ^ j, hm_mask := 2 ^ j - 1,
         hm_growat := 2 ^ j * 3 div 5, hm_shrinkat := 2 ^ j div 10 \<rparr>, True)"
       "rh_table t" "length t = 2 ^ j" "bag t = hm_entries m"
      using resize_ok [OF b sz(1)] by blast
    let ?m = "m\<lparr> hm_buckets := t, hm_nbuckets := 2 ^ j, hm_mask := 2 ^ j - 1,
         hm_growat := 2 ^ j * 3 div 5, hm_shrinkat := 2 ^ j div 10 \<rparr>"
    have "hm_inv (?m\<lparr> hm_count := hm_count m \<rparr>)"
      using hm_inv_update [OF inv t(2,3), of "hm_count m" "2 ^ j * 3 div 5"] t(4) inv sz cnt cj
      by (auto simp: hm_inv_def)
    then have "hm_inv ?m" by simp
    then show ?thesis
      using True ok half t by (auto simp: hm_entries_def intro: hm_eqv_cong)
  qed
qed (use inv in auto)

lemma hm_delete_ok:
  assumes inv: "hm_inv m"
  shows "\<exists>m'. hashmap_delete_with_hash ok m key h = Some (m', the (hashmap_get_with_hash m key h)) \<and> hm_inv m' \<and>
     hm_eqv m' = hm_eqv m \<and> hm_entries m' = {#e \<in># hm_entries m. \<not> hm_eqv m (clip_hash h, key) e#}"
proof -
  let ?t = "hm_buckets m" and ?h = "clip_hash h" and ?m0 = "m\<lparr>hm_oom := False\<rparr>"
  have rh: "rh_table ?t" and n: "length ?t = hm_nbuckets m" "hm_mask m = length ?t - 1"
    and un: "unique_keys (hm_eqv m) (bag ?t)" and ce: "cmp_equiv (hm_compare m)"
    and cnt: "hm_count m = size (bag ?t)" "hm_count m \<le> hm_growat m" "hm_shrinkat m = hm_nbuckets m div 10"
    and gr: "hm_growat m = hm_nbuckets m * 3 div 5 \<or> hm_growat m = hm_nbuckets m * 3 div 4"
      "hm_cap m \<le> hm_nbuckets m" "16 \<le> hm_cap m"
    using inv by (auto simp: hm_inv_def hm_entries_def)
  have fm: "hashmap_find ?m0 key ?h = hashmap_find m key ?h" by (simp add: hashmap_find_def)
  show ?thesis
  proof (cases "\<exists>e. e \<in># hm_entries m \<and> hm_eqv m (?h, key) e")
    case False
    then have no: "\<And>e. e \<in># hm_entries m \<Longrightarrow> \<not> hm_eqv m (?h, key) e" by blast
    then have "hashmap_find m key ?h = Some None" "hashmap_get_with_hash m key h = Some None"
      using hashmap_find_miss [OF inv no] hm_get_miss [OF inv no] by auto
    then show ?thesis using inv fm no by (simp add: hashmap_delete_with_hash_def Let_def unique_filter_none)
  next
    case True
    then obtain p where p: "p < length ?t" "0 < bk_dib (?t ! p)" "hm_eqv m (?h, key) (bk_key (?t ! p))"
      using hm_entry_index by metis
    have f: "hashmap_find m key ?h = Some (Some p)" by (rule hashmap_find_hit [OF inv p])
    have g: "hashmap_get_with_hash m key h = Some (Some (bk_item (?t ! p)))"
      using f by (simp add: hashmap_get_with_hash_def)
    let ?v = "?t[p := (?t ! p)\<lparr>bk_dib := 0\<rparr>]"
    have vv: "?v[p := (?v ! p)\<lparr>bk_dib := 0\<rparr>] = ?v" using p(1) by simp
    obtain q where q: "q < length ?t" "bk_dib (?t ! q) = 0" using hm_inv_empty_slot [OF inv] .
    then have qp: "q \<noteq> p" using p(2) by auto
    obtain u where u: "u < length ?t" "(p + u) mod length ?t = q" using reach_mod [OF p(1) q(1)] .
    have u0: "0 < u" using u qp p(1) by (cases u) auto
    obtain t' where t': "shift_loop (hm_nbuckets m) (length ?t - 1) ?v p = Some t'" "rh_table t'"
      "length t' = length ?t" "bag t' = bag ?v"
      using shift_ok [of ?v p u "hm_nbuckets m"] gap_open [OF rh p(1)] vv q u qp u0 n by auto
    define N where "N = bag ?v"
    have N: "bag ?t = add_mset (bk_key (?t ! p)) N" "bag ?v = N"
      using bag_update [OF p(1), of "(?t ! p)\<lparr>bk_dib := 0\<rparr>"] p(2) by (simp_all add: bk_one_def N_def)
    have fl: "{#e \<in># hm_entries m. \<not> hm_eqv m (?h, key) e#} = N"
      unfolding hm_entries_def N(1)
      by (rule unique_filter [OF un [unfolded N(1)] p(3)]) (use hm_eqv_sym [OF ce] hm_eqv_trans [OF ce] in blast)+
    have unN: "unique_keys (hm_eqv m) N" using un N(1) unique_keys_subset [of "hm_eqv m" "bag ?t" N] by simp
    let ?m1 = "?m0\<lparr> hm_buckets := t', hm_count := hm_count m - 1 \<rparr>"
    have "hm_inv (m\<lparr> hm_buckets := t', hm_count := hm_count m - 1 \<rparr>)"
      using hm_inv_table [OF inv t'(2), of "hm_count m - 1"] t' n cnt N unN by simp
    moreover have "?m1 = (m\<lparr> hm_buckets := t', hm_count := hm_count m - 1 \<rparr>)\<lparr>hm_oom := False\<rparr>" by simp
    ultimately have i1: "hm_inv ?m1" by (simp only: hm_oom_simps)
    have e1: "hm_eqv ?m1 = hm_eqv m" by (rule hm_eqv_cong) simp
    have n1: "hm_entries ?m1 = N" using t' N by (simp add: hm_entries_def)
    have "\<exists>m' b. (if hm_cap ?m1 < hm_nbuckets ?m1 \<and> hm_count ?m1 \<le> hm_shrinkat ?m1
        then resize ok ?m1 (hm_nbuckets ?m1 div 2) else Some (?m1, True)) = Some (m', b) \<and>
        hm_inv m' \<and> hm_eqv m' = hm_eqv m \<and> hm_entries m' = N"
      using shrink_step [OF i1, of ok] e1 n1 by simp
    then show ?thesis
      using f g fm t'(1) fl n by (auto simp: hashmap_delete_with_hash_def Let_def)
  qed
qed

section \<open>The hash map is a keyed store\<close>

interpretation hm: keyed_store hm_inv hm_entries hm_eqv "\<lambda>(h, i). (clip_hash h, i)" hm_room
  "\<lambda>m (h, i). hashmap_get_with_hash m i h" "\<lambda>m (h, i). hashmap_set_with_hash True m i h"
  "\<lambda>m (h, i). hashmap_delete_with_hash ok m i h" for ok
proof (unfold_locales, goal_cases)
  case (1 m a)
  then show ?case by (simp add: hm_inv_def hm_eqv_refl)
next
  case (2 m a b)
  then show ?case by (simp add: hm_inv_def hm_eqv_sym)
next
  case (3 m a b c)
  then show ?case using hm_eqv_trans [of m a b c] by (simp add: hm_inv_def)
next
  case (4 m)
  then show ?case by (simp add: hm_inv_def)
next
  case (5 m e k)
  then show ?case using hm_get_hit [of m e] by (cases k) simp
next
  case (6 m k)
  then show ?case using hm_get_miss [of m] by (cases k) simp
next
  case (7 m k)
  then show ?case using hm_set_ok [of m] by (cases k) simp
next
  case (8 m k)
  then show ?case using hm_delete_ok [of m] by (cases k) simp
qed

lemma hashmap_new_inv:
  assumes "cmp_equiv cf"
  obtains m where "hashmap_new True es 16 s0 s1 hf cf ef = Some (Some m)" "hm_inv m" "hm_entries m = {#}" "hm_room m"
proof -
  have b: "16 \<le> (2::nat) ^ 4" "(2::nat) ^ 4 \<le> 2 ^ 15" by simp_all
  obtain m where m: "hashmap_new True es (2 ^ 4) s0 s1 hf cf ef = Some (Some m)"
    "hm_buckets m = replicate (2 ^ 4) (empty_bucket es)" "hm_nbuckets m = 2 ^ 4" "hm_mask m = 2 ^ 4 - 1"
    "hm_growat m = 2 ^ 4 * 3 div 5" "hm_shrinkat m = 2 ^ 4 div 10" "hm_cap m = 2 ^ 4"
    "hm_count m = 0" "hm_growpower m = 1" "hm_compare m = cf"
    using hashmap_new_pow2 [OF b] by metis
  have e: "hm_entries m = {#}" unfolding hm_entries_def m(2) by simp
  have r: "rh_table (hm_buckets m)" unfolding m(2) by (rule homes_steps_empty [OF b])
  have c: "\<exists>c. hm_cap m = 2 ^ c" using m(7) by blast
  have "hm_inv m" unfolding hm_inv_def e using m(2-6,8-) assms r c m(7) by simp
  moreover have "hm_room m" using m(5,8) by (simp add: hm_room_def)
  ultimately show ?thesis using that e m(1) by simp
qed

text \<open>Every clear leaves a valid empty map.\<close>

lemma hashmap_clear_ok:
  assumes inv: "hm_inv m"
  shows "hm_inv (fst (hashmap_clear m u)) \<and> hm_entries (fst (hashmap_clear m u)) = {#}"
proof -
  let ?n = "if u then hm_nbuckets m else hm_cap m"
  let ?m = "fst (hashmap_clear m u)"
  obtain k where k: "hm_nbuckets m = 2 ^ k" "16 \<le> (2::nat) ^ k" "(2::nat) ^ k \<le> 2 ^ 15" using hm_nbuckets_pow2 [OF inv] .
  obtain c where c: "hm_cap m = 2 ^ c" "16 \<le> (2::nat) ^ c" "(2::nat) ^ c \<le> 2 ^ k" using inv k by (auto simp: hm_inv_def)
  have c15: "(2::nat) ^ c \<le> 2 ^ 15" using c(3) k(3) by (rule order_trans)
  obtain j where j: "?n = 2 ^ j" "16 \<le> (2::nat) ^ j" "(2::nat) ^ j \<le> 2 ^ 15"
  proof (cases u)
    case True
    then show ?thesis using k that [of k] by simp
  next
    case False
    then show ?thesis using c c15 that [of c] by simp
  qed
  have f: "hm_buckets ?m = replicate ?n (empty_bucket (hm_elsize m))" "hm_nbuckets ?m = ?n" "hm_mask ?m = ?n - 1"
    "hm_growat ?m = ?n * 3 div 4" "hm_shrinkat ?m = ?n div 10" "hm_count ?m = 0" "hm_cap ?m = ?n"
    "hm_growpower ?m = hm_growpower m" "hm_compare ?m = hm_compare m"
    by (auto simp: hashmap_clear_def Let_def)
  have e: "hm_entries ?m = {#}" unfolding hm_entries_def f(1) by simp
  have r: "rh_table (hm_buckets ?m)" unfolding f(1) j(1) by (rule homes_steps_empty [OF j(2,3)])
  have "hm_inv ?m"
    unfolding hm_inv_def e using f r j inv by (simp add: hm_inv_def)
  then show ?thesis using e by blast
qed

section \<open>Iteration\<close>

definition hm_items :: "hashmap \<Rightarrow> item list" where
  "hm_items m = map bk_item (filter (\<lambda>b. bk_dib b \<noteq> 0) (hm_buckets m))"

lemma hm_items_entries: "mset (hm_items m) = image_mset snd (hm_entries m)"
proof -
  have "mset (map bk_item (filter (\<lambda>b. bk_dib b \<noteq> 0) t)) = image_mset snd (bag t)" for t
    by (induction t) (auto simp: bk_one_def bk_key_def)
  then show ?thesis by (simp add: hm_items_def hm_entries_def)
qed

lemma scan_loop_collect:
  "scan_loop (\<lambda>it s. (s @ [it], True)) t acc = (acc @ map bk_item (filter (\<lambda>b. bk_dib b \<noteq> 0) t), True)"
  by (induction t arbitrary: acc) auto

text \<open>The loop of a client of hashmap_iter: \<open>while (hashmap_iter(map, &i, &item)) ...\<close>.\<close>

fun iter_all :: "nat \<Rightarrow> hashmap \<Rightarrow> nat \<Rightarrow> item list option" where
  "iter_all 0 m i = None"
| "iter_all (Suc fuel) m i =
     (case hashmap_iter m i of
        None \<Rightarrow> Some []
      | Some (j, it) \<Rightarrow> map_option ((#) it) (iter_all fuel m j))"

lemma iter_all_ok:
  assumes len: "length (hm_buckets m) = hm_nbuckets m"
  shows "i \<le> hm_nbuckets m \<Longrightarrow> hm_nbuckets m - i < fuel \<Longrightarrow>
    iter_all fuel m i = Some (map bk_item (filter (\<lambda>b. bk_dib b \<noteq> 0) (drop i (hm_buckets m))))"
proof (induction fuel arbitrary: i)
  case (Suc fuel)
  let ?p = "\<lambda>j. bk_dib (hm_buckets m ! j) \<noteq> 0" and ?f = "filter (\<lambda>b. bk_dib b \<noteq> 0)" and ?t = "hm_buckets m"
  show ?case
  proof (cases "first_from ?p i (hm_nbuckets m)")
    case None
    then have "\<forall>b \<in> set (drop i ?t). bk_dib b = 0"
      unfolding first_from_None_iff using len by (auto simp: in_set_conv_nth)
    then have "?f (drop i ?t) = []" by (simp add: filter_empty_conv)
    then show ?thesis using None by (simp add: hashmap_iter_def)
  next
    case (Some j)
    then have j: "i \<le> j" "j < hm_nbuckets m" "?p j" "\<forall>k. i \<le> k \<and> k < j \<longrightarrow> \<not> ?p k"
      by (auto simp: first_from_Some_iff)
    have eq: "drop i ?t = take (j - i) (drop i ?t) @ ?t ! j # drop (Suc j) ?t"
    proof -
      have "drop i ?t = take (j - i) (drop i ?t) @ drop (j - i) (drop i ?t)"
        by (rule append_take_drop_id [symmetric])
      also have "drop (j - i) (drop i ?t) = drop j ?t" using j(1) by simp
      also have "drop j ?t = ?t ! j # drop (Suc j) ?t" using j(2) len by (simp add: Cons_nth_drop_Suc)
      finally show ?thesis .
    qed
    have nil: "?f (take (j - i) (drop i ?t)) = []"
      using j len by (auto simp: filter_empty_conv in_set_conv_nth)
    have "?f (drop i ?t) = ?t ! j # ?f (drop (Suc j) ?t)" by (subst eq) (use nil j(3) in simp)
    moreover have "iter_all fuel m (Suc j) = Some (map bk_item (?f (drop (Suc j) ?t)))"
      using Suc.IH [of "Suc j"] Suc.prems j by simp
    ultimately show ?thesis using Some by (simp add: hashmap_iter_def)
  qed
qed simp


section \<open>Properties\<close>

definition bytes_compare :: "item \<Rightarrow> item \<Rightarrow> int" where
  "bytes_compare a b = (if a = b then 0 else 1)"

lemma bytes_compare_equiv: "cmp_equiv (Some bytes_compare)"
  by (auto simp: cmp_equiv_def bytes_compare_def intro!: equivpI reflpI sympI transpI split: if_splits)

text \<open>
  Property C2: setting an item in a valid map with room (after growing if the table is at its
  load limit) returns the item it replaces, keeps every invariant of the table, and afterwards
  a lookup with any key and hash finds the new item exactly when the key is the same (equal
  48-bit hash and equal under the compare callback); every other lookup is unchanged.
\<close>

theorem hashmap_get_after_set:
  assumes "hm_inv m" "hm_room m"
  shows "\<exists>m' old. hashmap_set_with_hash True m it h = Some (m', old) \<and> hm_inv m' \<and>
     hashmap_get_with_hash m it h = Some old \<and>
     hashmap_count m' = hashmap_count m + (if old = None then 1 else 0) \<and>
     (\<forall>key h'. hashmap_get_with_hash m' key h' =
        (if hm_eqv m (clip_hash h, it) (clip_hash h', key) then Some (Some it)
         else hashmap_get_with_hash m key h'))"
proof -
  obtain m' where m': "hashmap_set_with_hash True m it h = Some (m', the (hashmap_get_with_hash m it h))"
    "hm_inv m'" "hm_eqv m' = hm_eqv m"
    "hm_entries m' = add_mset (clip_hash h, it) {#e \<in># hm_entries m. \<not> hm_eqv m (clip_hash h, it) e#}"
    using hm_set_ok [OF assms] by blast
  obtain old where old: "hashmap_get_with_hash m it h = Some old"
    using hm.get_total [OF assms(1), of "(h, it)"] by auto
  have "hashmap_count m' = hashmap_count m + (if old = None then 1 else 0)"
  proof (cases rule: hm.get_cases [OF assms(1), of "(h, it)"])
    case (1 e)
    then obtain N where N: "hm_entries m = add_mset e N" by (metis mset_add)
    have eq: "hm_eqv m (clip_hash h, it) e" using 1 by simp
    have "unique_keys (hm_eqv m) (add_mset e N)" using assms(1) N by (simp add: hm_inv_def)
    then have "{#e \<in># hm_entries m. \<not> hm_eqv m (clip_hash h, it) e#} = N"
      unfolding N using eq hm.eqv_sym [OF assms(1)] hm.eqv_trans [OF assms(1)]
      by (intro unique_filter [of "hm_eqv m" e N "(clip_hash h, it)"]) blast+
    then show ?thesis using m'(2,4) N 1(3) old assms(1) by (simp add: hashmap_count_def hm_inv_def)
  next
    case 2
    then have "{#e \<in># hm_entries m. \<not> hm_eqv m (clip_hash h, it) e#} = hm_entries m"
      by (intro unique_filter_none) auto
    then show ?thesis using m'(2,4) 2(2) old assms(1) by (simp add: hashmap_count_def hm_inv_def)
  qed
  moreover have "hashmap_get_with_hash m' key h' =
        (if hm_eqv m (clip_hash h, it) (clip_hash h', key) then Some (Some it)
         else hashmap_get_with_hash m key h')" for key h'
    using hm.get_put [OF assms(1), of "(h, it)" m' "the (hashmap_get_with_hash m it h)" "(h', key)"] m'(1) assms(2)
    by simp
  ultimately show ?thesis using m'(1,2) old by auto
qed

theorem hashmap_get_after_set_witness:
  "\<exists>m m'. hashmap_new True 1 16 0 0 (\<lambda>i _ _. 5) (Some bytes_compare) False = Some (Some m) \<and>
     hashmap_set_with_hash True m [7] 5 = Some (m', None) \<and> hashmap_get_with_hash m' [7] 5 = Some (Some [7])"
proof -
  obtain m where m: "hashmap_new True 1 16 0 0 (\<lambda>i _ _. 5) (Some bytes_compare) False = Some (Some m)"
    "hm_inv m" "hm_entries m = {#}" "hm_room m"
    using hashmap_new_inv [OF bytes_compare_equiv] by metis
  have "hashmap_get_with_hash m [7] 5 = Some None" using hm_get_miss [OF m(2)] m(3) by simp
  then show ?thesis
    using hashmap_get_after_set [OF m(2,4), of "[7]" 5] m(1) hm.eqv_refl [OF m(2)] by auto
qed

text \<open>
  Property C8: deleting returns the item stored under the key (if any), and afterwards a lookup
  of that key finds nothing while every other lookup is unchanged; the backward shift and the
  shrinking of the table (successful or not) keep the invariants.
\<close>

theorem hashmap_get_after_delete:
  assumes "hm_inv m"
  shows "\<exists>m' old. hashmap_delete_with_hash ok m key h = Some (m', old) \<and> hm_inv m' \<and>
     hashmap_get_with_hash m key h = Some old \<and>
     (\<forall>key' h'. hashmap_get_with_hash m' key' h' =
        (if hm_eqv m (clip_hash h, key) (clip_hash h', key') then Some None
         else hashmap_get_with_hash m key' h'))"
proof -
  obtain m' where m': "hashmap_delete_with_hash ok m key h = Some (m', the (hashmap_get_with_hash m key h))" "hm_inv m'"
    using hm_delete_ok [OF assms] by blast
  obtain old where old: "hashmap_get_with_hash m key h = Some old"
    using hm.get_total [OF assms, of "(h, key)"] by auto
  have "hashmap_get_with_hash m' key' h' =
        (if hm_eqv m (clip_hash h, key) (clip_hash h', key') then Some None
         else hashmap_get_with_hash m key' h')" for key' h'
    using hm.get_del [OF assms, of ok "(h, key)" m' "the (hashmap_get_with_hash m key h)" "(h', key')"] m'(1)
    by simp
  then show ?thesis using m' old by auto
qed

theorem hashmap_get_after_delete_witness:
  "\<exists>m m'. hashmap_new True 1 16 0 0 (\<lambda>i _ _. 5) (Some bytes_compare) False = Some (Some m) \<and>
     hashmap_delete_with_hash True m [7] 5 = Some (m', None)"
proof -
  obtain m where m: "hashmap_new True 1 16 0 0 (\<lambda>i _ _. 5) (Some bytes_compare) False = Some (Some m)"
    "hm_inv m" "hm_entries m = {#}"
    using hashmap_new_inv [OF bytes_compare_equiv] by metis
  have "hashmap_get_with_hash m [7] 5 = Some None" using hm_get_miss [OF m(2)] m(3) by simp
  then show ?thesis using hashmap_get_after_delete [OF m(2), of True "[7]" 5] m(1) by auto
qed

text \<open>
  The capacity loop of a new map ends with the least power of two that is at least
  16 and at least the requested capacity, for every request up to \<open>2 ^ 63\<close>; for a larger request
  it never ends, whatever the number of steps.
\<close>

theorem hashmap_new_capacity:
  assumes "16 < cap"
  shows "(cap \<le> 2 ^ 63 \<longrightarrow> (\<exists>c. round_cap 64 cap 16 = Some (2 ^ c) \<and> cap \<le> 2 ^ c \<and> 2 ^ (c - 1) < cap))
     \<and> (2 ^ 63 < cap \<longrightarrow> (\<forall>fuel. round_cap fuel cap 16 = None))"
proof (intro conjI impI allI)
  assume le: "cap \<le> 2 ^ 63"
  define c where "c = (LEAST c. cap \<le> 2 ^ c)"
  have ex: "cap \<le> 2 ^ c" unfolding c_def by (rule LeastI [where P = "\<lambda>c. cap \<le> 2 ^ c", OF le])
  have lt: "2 ^ j < cap" if "j < c" for j using not_less_Least [of j "\<lambda>c. cap \<le> 2 ^ c"] that c_def by simp
  have c63: "c \<le> 63" unfolding c_def by (rule Least_le [where P = "\<lambda>c. cap \<le> 2 ^ c", OF le])
  have c4: "4 < c" using ex assms power_increasing [of c 4 "2::nat"] by (cases "c \<le> 4") auto
  have "2 ^ (c - 1) < cap" using lt [of "c - 1"] c4 by simp
  moreover have "round_cap 64 cap (2 ^ 4) = Some (2 ^ c)"
    using assms c63 c4 ex calculation by (intro round_cap_least) auto
  ultimately show "\<exists>c. round_cap 64 cap 16 = Some (2 ^ c) \<and> cap \<le> 2 ^ c \<and> 2 ^ (c - 1) < cap" using ex by auto
next
  fix fuel assume "2 ^ 63 < cap"
  then show "round_cap fuel cap 16 = None"
    by (rule round_cap_diverges) (intro disjI2 exI [of _ 4], simp)
qed

theorem hashmap_new_capacity_witness: "\<exists>c. round_cap 64 100 16 = Some (2 ^ c) \<and> 100 \<le> (2::nat) ^ c"
  using hashmap_new_capacity [of 100] by auto

text \<open>
  Property C28: scanning with a callback that never stops and iterating with a cursor both visit
  every stored item exactly once, in bucket order, and both end.
\<close>

theorem hashmap_iteration_complete:
  assumes "hm_inv m"
  shows "hashmap_scan m (\<lambda>it s. (s @ [it], True)) [] = (hm_items m, True) \<and>
     iter_all (hm_nbuckets m + 1) m 0 = Some (hm_items m) \<and>
     mset (hm_items m) = image_mset snd (hm_entries m) \<and> hashmap_count m = length (hm_items m)"
proof -
  have "hashmap_scan m (\<lambda>it s. (s @ [it], True)) [] = (hm_items m, True)"
    by (simp add: hashmap_scan_def scan_loop_collect hm_items_def)
  moreover have "iter_all (hm_nbuckets m + 1) m 0 = Some (hm_items m)"
    using iter_all_ok [of m 0 "hm_nbuckets m + 1"] assms by (simp add: hm_items_def hm_inv_def)
  moreover have "hashmap_count m = length (hm_items m)"
    using assms hm_items_entries [of m] by (metis hashmap_count_def hm_inv_def size_image_mset size_mset)
  ultimately show ?thesis using hm_items_entries by blast
qed

theorem hashmap_iteration_complete_witness:
  "\<exists>m. hashmap_new True 1 16 0 0 (\<lambda>i _ _. 5) (Some bytes_compare) False = Some (Some m) \<and>
     hashmap_scan m (\<lambda>it s. (s @ [it], True)) [] = ([], True)"
proof -
  obtain m where m: "hashmap_new True 1 16 0 0 (\<lambda>i _ _. 5) (Some bytes_compare) False = Some (Some m)"
    "hm_inv m" "hm_entries m = {#}"
    using hashmap_new_inv [OF bytes_compare_equiv] by metis
  then show ?thesis using hashmap_iteration_complete [OF m(2)] by auto
qed

text \<open>
  Clearing a valid map hands every stored item to \<open>elfree\<close> (when there is one),
  leaves a valid map that finds nothing, and sets the load limit to three quarters of the
  buckets instead of the three fifths of a new map.
\<close>

theorem hashmap_clear_empties:
  assumes "hm_inv m"
  shows "\<exists>m'. hashmap_clear m u = (m', if hm_elfree m then hm_items m else []) \<and> hm_inv m' \<and>
     hashmap_count m' = 0 \<and> hashmap_get_with_hash m' key h = Some None \<and>
     hm_growat m' = hm_nbuckets m' * 3 div 4"
proof -
  obtain m' fr where c: "hashmap_clear m u = (m', fr)" by (cases "hashmap_clear m u")
  then have m': "hm_inv m'" "hm_entries m' = {#}" using hashmap_clear_ok [OF assms, of u] by auto
  have "hashmap_get_with_hash m' key h = Some None" using hm_get_miss [OF m'(1)] m'(2) by simp
  moreover have "hashmap_count m' = 0" using m' by (simp add: hashmap_count_def hm_inv_def)
  moreover have "fr = (if hm_elfree m then hm_items m else [])" "hm_growat m' = hm_nbuckets m' * 3 div 4"
    using c by (auto simp: hashmap_clear_def Let_def free_elements_def hm_items_def)
  ultimately show ?thesis using c m' by auto
qed

theorem hashmap_clear_empties_witness:
  "\<exists>m m'. hashmap_new True 1 16 0 0 (\<lambda>i _ _. 5) (Some bytes_compare) False = Some (Some m) \<and>
     hashmap_clear m True = (m', []) \<and> hashmap_count m' = 0"
proof -
  obtain m where m: "hashmap_new True 1 16 0 0 (\<lambda>i _ _. 5) (Some bytes_compare) False = Some (Some m)"
    "hm_inv m" "hm_entries m = {#}"
    using hashmap_new_inv [OF bytes_compare_equiv] by metis
  have "hm_items m = []" using hm_items_entries [of m] m(3) by simp
  then show ?thesis using hashmap_clear_empties [OF m(2), of True "[7]" 5] m(1) by auto
qed

end
