(* ===== verification/Crc.thy ===== *)
theory Crc
  imports Prelude
begin

text \<open>
  The checksums of src/src/ld_crc.c with the tables of src/include/ld_crc.h. A message is the
  list of bytes from \<open>start\<close> to \<open>cur\<close>. Both table-driven loops are shown equal to the bit-serial
  division by the polynomial, and from that the two guarantees a frame relies on follow:
  appending the checksum gives residue zero, and changing any single byte is detected.
\<close>

section \<open>Tables and loops\<close>

definition crc8_table :: "u8 list" where
  "crc8_table =
    [0x00, 0x97, 0xB9, 0x2E, 0xE5, 0x72, 0x5C, 0xCB, 0x5D, 0xCA, 0xE4, 0x73, 0xB8, 0x2F, 0x01, 0x96,
     0xBA, 0x2D, 0x03, 0x94, 0x5F, 0xC8, 0xE6, 0x71, 0xE7, 0x70, 0x5E, 0xC9, 0x02, 0x95, 0xBB, 0x2C,
     0xE3, 0x74, 0x5A, 0xCD, 0x06, 0x91, 0xBF, 0x28, 0xBE, 0x29, 0x07, 0x90, 0x5B, 0xCC, 0xE2, 0x75,
     0x59, 0xCE, 0xE0, 0x77, 0xBC, 0x2B, 0x05, 0x92, 0x04, 0x93, 0xBD, 0x2A, 0xE1, 0x76, 0x58, 0xCF,
     0x51, 0xC6, 0xE8, 0x7F, 0xB4, 0x23, 0x0D, 0x9A, 0x0C, 0x9B, 0xB5, 0x22, 0xE9, 0x7E, 0x50, 0xC7,
     0xEB, 0x7C, 0x52, 0xC5, 0x0E, 0x99, 0xB7, 0x20, 0xB6, 0x21, 0x0F, 0x98, 0x53, 0xC4, 0xEA, 0x7D,
     0xB2, 0x25, 0x0B, 0x9C, 0x57, 0xC0, 0xEE, 0x79, 0xEF, 0x78, 0x56, 0xC1, 0x0A, 0x9D, 0xB3, 0x24,
     0x08, 0x9F, 0xB1, 0x26, 0xED, 0x7A, 0x54, 0xC3, 0x55, 0xC2, 0xEC, 0x7B, 0xB0, 0x27, 0x09, 0x9E,
     0xA2, 0x35, 0x1B, 0x8C, 0x47, 0xD0, 0xFE, 0x69, 0xFF, 0x68, 0x46, 0xD1, 0x1A, 0x8D, 0xA3, 0x34,
     0x18, 0x8F, 0xA1, 0x36, 0xFD, 0x6A, 0x44, 0xD3, 0x45, 0xD2, 0xFC, 0x6B, 0xA0, 0x37, 0x19, 0x8E,
     0x41, 0xD6, 0xF8, 0x6F, 0xA4, 0x33, 0x1D, 0x8A, 0x1C, 0x8B, 0xA5, 0x32, 0xF9, 0x6E, 0x40, 0xD7,
     0xFB, 0x6C, 0x42, 0xD5, 0x1E, 0x89, 0xA7, 0x30, 0xA6, 0x31, 0x1F, 0x88, 0x43, 0xD4, 0xFA, 0x6D,
     0xF3, 0x64, 0x4A, 0xDD, 0x16, 0x81, 0xAF, 0x38, 0xAE, 0x39, 0x17, 0x80, 0x4B, 0xDC, 0xF2, 0x65,
     0x49, 0xDE, 0xF0, 0x67, 0xAC, 0x3B, 0x15, 0x82, 0x14, 0x83, 0xAD, 0x3A, 0xF1, 0x66, 0x48, 0xDF,
     0x10, 0x87, 0xA9, 0x3E, 0xF5, 0x62, 0x4C, 0xDB, 0x4D, 0xDA, 0xF4, 0x63, 0xA8, 0x3F, 0x11, 0x86,
     0xAA, 0x3D, 0x13, 0x84, 0x4F, 0xD8, 0xF6, 0x61, 0xF7, 0x60, 0x4E, 0xD9, 0x12, 0x85, 0xAB, 0x3C]"

definition crc32_table :: "u32 list" where
  "crc32_table =
    [0x00000000, 0xcea9c3d2, 0x69ff7cb7, 0xa756bf65, 0xd3fef96e, 0x1d573abc, 0xba0185d9, 0x74a8460b,
     0x535109cf, 0x9df8ca1d, 0x3aae7578, 0xf407b6aa, 0x80aff0a1, 0x4e063373, 0xe9508c16, 0x27f94fc4,
     0xa6a2139e, 0x680bd04c, 0xcf5d6f29, 0x01f4acfb, 0x755ceaf0, 0xbbf52922, 0x1ca39647, 0xd20a5595,
     0xf5f31a51, 0x3b5ad983, 0x9c0c66e6, 0x52a5a534, 0x260de33f, 0xe8a420ed, 0x4ff29f88, 0x815b5c5a,
     0xb9e8dc2f, 0x77411ffd, 0xd017a098, 0x1ebe634a, 0x6a162541, 0xa4bfe693, 0x03e959f6, 0xcd409a24,
     0xeab9d5e0, 0x24101632, 0x8346a957, 0x4def6a85, 0x39472c8e, 0xf7eeef5c, 0x50b85039, 0x9e1193eb,
     0x1f4acfb1, 0xd1e30c63, 0x76b5b306, 0xb81c70d4, 0xccb436df, 0x021df50d, 0xa54b4a68, 0x6be289ba,
     0x4c1bc67e, 0x82b205ac, 0x25e4bac9, 0xeb4d791b, 0x9fe53f10, 0x514cfcc2, 0xf61a43a7, 0x38b38075,
     0x877d434d, 0x49d4809f, 0xee823ffa, 0x202bfc28, 0x5483ba23, 0x9a2a79f1, 0x3d7cc694, 0xf3d50546,
     0xd42c4a82, 0x1a858950, 0xbdd33635, 0x737af5e7, 0x07d2b3ec, 0xc97b703e, 0x6e2dcf5b, 0xa0840c89,
     0x21df50d3, 0xef769301, 0x48202c64, 0x8689efb6, 0xf221a9bd, 0x3c886a6f, 0x9bded50a, 0x557716d8,
     0x728e591c, 0xbc279ace, 0x1b7125ab, 0xd5d8e679, 0xa170a072, 0x6fd963a0, 0xc88fdcc5, 0x06261f17,
     0x3e959f62, 0xf03c5cb0, 0x576ae3d5, 0x99c32007, 0xed6b660c, 0x23c2a5de, 0x84941abb, 0x4a3dd969,
     0x6dc496ad, 0xa36d557f, 0x043bea1a, 0xca9229c8, 0xbe3a6fc3, 0x7093ac11, 0xd7c51374, 0x196cd0a6,
     0x98378cfc, 0x569e4f2e, 0xf1c8f04b, 0x3f613399, 0x4bc97592, 0x8560b640, 0x22360925, 0xec9fcaf7,
     0xcb668533, 0x05cf46e1, 0xa299f984, 0x6c303a56, 0x18987c5d, 0xd631bf8f, 0x716700ea, 0xbfcec338,
     0xfa567d89, 0x34ffbe5b, 0x93a9013e, 0x5d00c2ec, 0x29a884e7, 0xe7014735, 0x4057f850, 0x8efe3b82,
     0xa9077446, 0x67aeb794, 0xc0f808f1, 0x0e51cb23, 0x7af98d28, 0xb4504efa, 0x1306f19f, 0xddaf324d,
     0x5cf46e17, 0x925dadc5, 0x350b12a0, 0xfba2d172, 0x8f0a9779, 0x41a354ab, 0xe6f5ebce, 0x285c281c,
     0x0fa567d8, 0xc10ca40a, 0x665a1b6f, 0xa8f3d8bd, 0xdc5b9eb6, 0x12f25d64, 0xb5a4e201, 0x7b0d21d3,
     0x43bea1a6, 0x8d176274, 0x2a41dd11, 0xe4e81ec3, 0x904058c8, 0x5ee99b1a, 0xf9bf247f, 0x3716e7ad,
     0x10efa869, 0xde466bbb, 0x7910d4de, 0xb7b9170c, 0xc3115107, 0x0db892d5, 0xaaee2db0, 0x6447ee62,
     0xe51cb238, 0x2bb571ea, 0x8ce3ce8f, 0x424a0d5d, 0x36e24b56, 0xf84b8884, 0x5f1d37e1, 0x91b4f433,
     0xb64dbbf7, 0x78e47825, 0xdfb2c740, 0x111b0492, 0x65b34299, 0xab1a814b, 0x0c4c3e2e, 0xc2e5fdfc,
     0x7d2b3ec4, 0xb382fd16, 0x14d44273, 0xda7d81a1, 0xaed5c7aa, 0x607c0478, 0xc72abb1d, 0x098378cf,
     0x2e7a370b, 0xe0d3f4d9, 0x47854bbc, 0x892c886e, 0xfd84ce65, 0x332d0db7, 0x947bb2d2, 0x5ad27100,
     0xdb892d5a, 0x1520ee88, 0xb27651ed, 0x7cdf923f, 0x0877d434, 0xc6de17e6, 0x6188a883, 0xaf216b51,
     0x88d82495, 0x4671e747, 0xe1275822, 0x2f8e9bf0, 0x5b26ddfb, 0x958f1e29, 0x32d9a14c, 0xfc70629e,
     0xc4c3e2eb, 0x0a6a2139, 0xad3c9e5c, 0x63955d8e, 0x173d1b85, 0xd994d857, 0x7ec26732, 0xb06ba4e0,
     0x9792eb24, 0x593b28f6, 0xfe6d9793, 0x30c45441, 0x446c124a, 0x8ac5d198, 0x2d936efd, 0xe33aad2f,
     0x6261f175, 0xacc832a7, 0x0b9e8dc2, 0xc5374e10, 0xb19f081b, 0x7f36cbc9, 0xd86074ac, 0x16c9b77e,
     0x3130f8ba, 0xff993b68, 0x58cf840d, 0x966647df, 0xe2ce01d4, 0x2c67c206, 0x8b317d63, 0x4598beb1]"

definition crc8_step :: "u8 \<Rightarrow> u8 \<Rightarrow> u8" where
  "crc8_step b crc = crc8_table ! unat ((crc XOR b) AND 0xFF)"

definition cal_crc_8bits :: "u8 list \<Rightarrow> u8" where
  "cal_crc_8bits msg = fold crc8_step msg 0"

definition crc32_step :: "u8 \<Rightarrow> u32 \<Rightarrow> u32" where
  "crc32_step b crc = drop_bit 8 crc XOR crc32_table ! unat ((crc XOR ucast b) AND 0xFF)"

definition cal_crc_32bits :: "u8 list \<Rightarrow> u32" where
  "cal_crc_32bits msg = fold crc32_step msg 0 XOR 0xFFFFFFFF"


section \<open>The polynomials, bit by bit\<close>

text \<open>One bit of the division by 0x97, most significant bit first.\<close>

definition crc8_bit :: "u8 \<Rightarrow> u8" where
  "crc8_bit c = (if bit c 7 then push_bit 1 c XOR 0x97 else push_bit 1 c)"

text \<open>One bit of the division by 0xFA567D89, least significant bit first.\<close>

definition crc32_bit :: "u32 \<Rightarrow> u32" where
  "crc32_bit c = (if bit c 0 then drop_bit 1 c XOR 0xFA567D89 else drop_bit 1 c)"

definition crc8_ref :: "u8 list \<Rightarrow> u8" where
  "crc8_ref msg = fold (\<lambda>b c. (crc8_bit ^^ 8) (c XOR b)) msg 0"

definition crc32_ref :: "u8 list \<Rightarrow> u32" where
  "crc32_ref msg = fold (\<lambda>b c. (crc32_bit ^^ 8) (c XOR ucast b)) msg 0 XOR 0xFFFFFFFF"

text \<open>The tables, entry by entry.\<close>

fun table_ok :: "('a::len word \<Rightarrow> 'a word) \<Rightarrow> 'a word \<Rightarrow> 'a word list \<Rightarrow> bool" where
  "table_ok f n [] = True"
| "table_ok f n (x # xs) = (f n = x \<and> table_ok f (n + 1) xs)"


lemma table_ok_nth:
  "table_ok f n xs \<Longrightarrow> i < length xs \<Longrightarrow> xs ! i = f (n + of_nat i)"
proof (induction xs arbitrary: n i)
  case (Cons x xs)
  then show ?case by (cases i) (auto simp: add.assoc)
qed simp

lemma funpow_8: "(f ^^ 8) c = f (f (f (f (f (f (f (f c)))))))"
  by (simp add: numeral_eq_Suc)

lemma crc8_table_ok: "table_ok (crc8_bit ^^ 8) 0 crc8_table"
  unfolding crc8_table_def by (simp add: funpow_8 crc8_bit_def)

lemma crc32_table_ok: "table_ok (crc32_bit ^^ 8) 0 crc32_table"
  unfolding crc32_table_def by (simp add: funpow_8 crc32_bit_def)

lemma length_crc_tables [simp]: "length crc8_table = 256" "length crc32_table = 256"
  by (simp_all add: crc8_table_def crc32_table_def)

section \<open>The table-driven steps are eight bits of division\<close>

lemma crc8_step_bits: "crc8_step b c = (crc8_bit ^^ 8) (c XOR b)"
proof -
  have all: "(0xFF :: u8) = - 1" by simp
  have "(c XOR b) AND 0xFF = c XOR b" unfolding all by (rule and.right_neutral)
  then show ?thesis
    using table_ok_nth [OF crc8_table_ok, of "unat (c XOR b)"] by (simp add: crc8_step_def)
qed

lemma crc32_bit_xor: "crc32_bit (a XOR b) = crc32_bit a XOR crc32_bit b"
  by (auto simp: crc32_bit_def drop_bit_xor bit_simps xor.assoc xor.left_commute xor.commute)

lemma crc32_bits_xor: "(crc32_bit ^^ k) (a XOR b) = (crc32_bit ^^ k) a XOR (crc32_bit ^^ k) b"
  by (induction k) (auto simp: crc32_bit_xor)

lemma crc32_bits_low_zero:
  "(\<And>i. i < k \<Longrightarrow> \<not> bit x i) \<Longrightarrow> (crc32_bit ^^ k) x = drop_bit k x"
proof (induction k)
  case (Suc k)
  then have "(crc32_bit ^^ k) x = drop_bit k x" by simp
  moreover have "\<not> bit (drop_bit k x) 0" using Suc.prems [of k] by (simp add: bit_drop_bit_eq)
  then have "crc32_bit (drop_bit k x) = drop_bit (Suc k) x"
    by (simp add: crc32_bit_def drop_bit_drop_bit add.commute)
  ultimately show ?case by simp
qed simp

lemma crc32_step_bits: "crc32_step b c = (crc32_bit ^^ 8) (c XOR ucast b)"
proof -
  let ?x = "c XOR ucast b :: u32"
  have split: "?x = (?x AND NOT 0xFF) XOR (?x AND 0xFF)"
    by (rule bit_word_eqI) (auto simp: bit_simps)
  have m: "(0xFF :: u32) = mask 8" by (simp add: mask_eq_exp_minus_1)
  have hi: "(crc32_bit ^^ 8) (?x AND NOT 0xFF) = drop_bit 8 (?x AND NOT 0xFF)"
    unfolding m by (rule crc32_bits_low_zero) (auto simp: bit_simps)
  have dr: "drop_bit 8 (?x AND NOT 0xFF) = drop_bit 8 c"
    unfolding m by (rule bit_word_eqI) (auto simp: bit_simps dest: bit_imp_le_length)
  have "unat (?x AND 0xFF) < 256"
    using and_mask_less_size [of 8 ?x] by (simp add: m [symmetric] word_less_nat_alt word_size)
  then have "crc32_table ! unat (?x AND 0xFF) = (crc32_bit ^^ 8) (?x AND 0xFF)"
    using table_ok_nth [OF crc32_table_ok, of "unat (?x AND 0xFF)"] by simp
  then have "crc32_step b c = (crc32_bit ^^ 8) (?x AND NOT 0xFF) XOR (crc32_bit ^^ 8) (?x AND 0xFF)"
    unfolding hi dr by (simp add: crc32_step_def)
  also have "\<dots> = (crc32_bit ^^ 8) ((?x AND NOT 0xFF) XOR (?x AND 0xFF))" by (simp only: crc32_bits_xor)
  finally show ?thesis using split by simp
qed


section \<open>Every step can be undone\<close>

lemma xor_cancel_word: "(a::'a::len word) XOR c = b XOR c \<longleftrightarrow> a = b"
  by (metis xor.assoc xor.right_neutral xor_self_eq)

lemma crc8_bit_inj: "crc8_bit a = crc8_bit b \<Longrightarrow> a = b"
proof -
  assume e: "crc8_bit a = crc8_bit b"
  have p: "bit (0x97::u8) 0" by simp
  have b0: "bit (crc8_bit c) 0 = bit c 7" for c using p by (simp add: crc8_bit_def bit_simps bit_0 even_xor_iff)
  have eq7: "bit a 7 = bit b 7" using b0 [of a] b0 [of b] e by simp
  then have sh: "push_bit 1 a = push_bit 1 b"
    using e by (auto simp: crc8_bit_def xor_cancel_word split: if_splits)
  show "a = b"
  proof (rule bit_word_eqI)
    fix n assume n: "n < LENGTH(8)"
    show "bit a n = bit b n"
    proof (cases "n = 7")
      case False
      then have "bit (push_bit 1 c) (Suc n) = bit c n" for c :: u8
        using n by (subst bit_push_bit_iff) simp
      then show ?thesis using sh by metis
    qed (use eq7 in simp)
  qed
qed

lemma crc32_bit_inj: "crc32_bit a = crc32_bit b \<Longrightarrow> a = b"
proof -
  assume e: "crc32_bit a = crc32_bit b"
  have p: "bit (0xFA567D89::u32) 31" by simp
  have b31: "bit (crc32_bit c) 31 = bit c 0" for c
    using p by (auto simp: crc32_bit_def bit_simps dest: bit_imp_le_length)
  have eq0: "bit a 0 = bit b 0" using b31 [of a] b31 [of b] e by simp
  then have sh: "drop_bit 1 a = drop_bit 1 b"
    using e by (auto simp: crc32_bit_def xor_cancel_word split: if_splits)
  show "a = b"
  proof (rule bit_word_eqI)
    fix n assume n: "n < LENGTH(32)"
    show "bit a n = bit b n"
    proof (cases n)
      case (Suc k)
      then have "bit (drop_bit 1 a) k = bit a n" "bit (drop_bit 1 b) k = bit b n" by (auto simp: bit_simps)
      then show ?thesis using sh by simp
    qed (use eq0 in simp)
  qed
qed

lemma funpow_inj: fixes f :: "'a \<Rightarrow> 'a" shows "(\<And>a b. f a = f b \<Longrightarrow> a = b) \<Longrightarrow> (f ^^ k) a = (f ^^ k) b \<Longrightarrow> a = b"
  by (induction k) auto

lemma crc8_step_inj: "crc8_step b c = crc8_step b d \<longleftrightarrow> c = d" "crc8_step a c = crc8_step b c \<longleftrightarrow> a = b"
proof -
  have i: "(crc8_bit ^^ 8) x = (crc8_bit ^^ 8) y \<longleftrightarrow> x = y" for x y
    using funpow_inj [OF crc8_bit_inj, where k = 8 and a = x and b = y] by auto
  show "crc8_step b c = crc8_step b d \<longleftrightarrow> c = d" by (simp add: crc8_step_bits i xor_cancel_word)
  show "crc8_step a c = crc8_step b c \<longleftrightarrow> a = b"
    by (simp add: crc8_step_bits i xor.commute [of c] xor_cancel_word)
qed

lemma crc32_step_inj: "crc32_step b c = crc32_step b d \<longleftrightarrow> c = d" "crc32_step a c = crc32_step b c \<longleftrightarrow> a = b"
proof -
  have i: "(crc32_bit ^^ 8) x = (crc32_bit ^^ 8) y \<longleftrightarrow> x = y" for x y
    using funpow_inj [OF crc32_bit_inj, where k = 8 and a = x and b = y] by auto
  show "crc32_step b c = crc32_step b d \<longleftrightarrow> c = d" by (simp add: crc32_step_bits i xor_cancel_word)
  have "ucast (ucast a :: u32) = a" for a :: u8
    by (rule bit_word_eqI) (auto simp: bit_simps)
  then have "(ucast a :: u32) = ucast b \<longleftrightarrow> a = b" for a b :: u8 by metis
  then show "crc32_step a c = crc32_step b c \<longleftrightarrow> a = b"
    by (simp add: crc32_step_bits i xor.commute [of c] xor_cancel_word)
qed

lemma fold_step_inj:
  "(\<And>b c d. step b c = step b d \<longleftrightarrow> c = d) \<Longrightarrow> fold step ys c = fold step ys d \<longleftrightarrow> c = d"
  by (induction ys arbitrary: c d) auto


section \<open>Properties\<close>

text \<open>
  Property C20: both table-driven checksums equal the bit-serial reference on every message: the
  8-bit one divides by 0x97 most significant bit first, the 32-bit one by 0xFA567D89 least
  significant bit first with the result complemented; all 512 table entries are right.
\<close>

theorem crc_tables_divide:
  "cal_crc_8bits msg = crc8_ref msg \<and> cal_crc_32bits msg = crc32_ref msg"
  by (simp add: cal_crc_8bits_def crc8_ref_def cal_crc_32bits_def crc32_ref_def
      crc8_step_bits [abs_def] crc32_step_bits [abs_def])

text \<open>
  A message followed by its 8-bit checksum has checksum zero, and either checksum
  of a message changes whenever exactly one byte of it changes.
\<close>

theorem crc_detects_byte_errors:
  "cal_crc_8bits (msg @ [cal_crc_8bits msg]) = 0
   \<and> (cal_crc_8bits (xs @ a # ys) = cal_crc_8bits (xs @ b # ys) \<longleftrightarrow> a = b)
   \<and> (cal_crc_32bits (xs @ a # ys) = cal_crc_32bits (xs @ b # ys) \<longleftrightarrow> a = b)"
proof (intro conjI)
  show "cal_crc_8bits (msg @ [cal_crc_8bits msg]) = 0"
    by (simp add: cal_crc_8bits_def crc8_step_def crc8_table_def)
  show "cal_crc_8bits (xs @ a # ys) = cal_crc_8bits (xs @ b # ys) \<longleftrightarrow> a = b"
    by (simp add: cal_crc_8bits_def fold_step_inj [of crc8_step] crc8_step_inj)
  show "cal_crc_32bits (xs @ a # ys) = cal_crc_32bits (xs @ b # ys) \<longleftrightarrow> a = b"
    by (simp add: cal_crc_32bits_def xor_cancel_word fold_step_inj [of crc32_step] crc32_step_inj)
qed

end
