(* ===== verification/Hashes.thy ===== *)
theory Hashes
  imports Hashmap_Spec
begin

text \<open>
  The hash functions that src/src/ld_hashmap.c offers for the map: SipHash-2-4, Murmur3 (x86,
  128 bits, of which the first 64 are returned) and xxHash. They work on the bytes of the key;
  multi-byte reads are little endian, as on the targets of the SDK. Reading past the end of the
  key is the result \<open>None\<close>, and the theorems show that none of the three does.
\<close>

section \<open>Reading and rotating\<close>

fun le_word :: "u8 list \<Rightarrow> 'a::len word" where
  "le_word [] = 0"
| "le_word (b # bs) = ucast b OR push_bit 8 (le_word bs)"

definition read_le :: "nat \<Rightarrow> u8 list \<Rightarrow> nat \<Rightarrow> 'a::len word option" where
  "read_le n d off = map_option le_word (mem_read d off n)"

definition rotl :: "nat \<Rightarrow> 'a::len word \<Rightarrow> 'a word" where
  "rotl r x = push_bit r x OR drop_bit (LENGTH('a) - r) x"


section \<open>SipHash\<close>

type_synonym sip = "u64 \<times> u64 \<times> u64 \<times> u64"

definition sipround :: "sip \<Rightarrow> sip" where
  "sipround s = (case s of (v0, v1, v2, v3) \<Rightarrow>
     let v0 = v0 + v1; v1 = rotl 13 v1;
         v1 = v1 XOR v0; v0 = rotl 32 v0;
         v2 = v2 + v3; v3 = rotl 16 v3;
         v3 = v3 XOR v2;
         v0 = v0 + v3; v3 = rotl 21 v3;
         v3 = v3 XOR v0;
         v2 = v2 + v1; v1 = rotl 17 v1;
         v1 = v1 XOR v2; v2 = rotl 32 v2
     in (v0, v1, v2, v3))"

definition sip_absorb :: "u64 \<Rightarrow> sip \<Rightarrow> sip" where
  "sip_absorb m s = (case s of (v0, v1, v2, v3) \<Rightarrow>
     (case sipround (sipround (v0, v1, v2, v3 XOR m)) of (v0, v1, v2, v3) \<Rightarrow> (v0 XOR m, v1, v2, v3)))"

text \<open>The loop over whole 8-byte blocks, \<open>n\<close> of them, from offset \<open>off\<close>.\<close>

fun sip_blocks :: "nat \<Rightarrow> u8 list \<Rightarrow> nat \<Rightarrow> sip \<Rightarrow> sip option" where
  "sip_blocks 0 d off s = Some s"
| "sip_blocks (Suc n) d off s = do { m \<leftarrow> read_le 8 d off; sip_blocks n d (off + 8) (sip_absorb m s) }"

text \<open>
  The switch on the remaining bytes reads \<open>in[left - 1]\<close> down to \<open>in[0]\<close> into the low bytes of
  the last block, whose top byte is the length.
\<close>

definition SIP64 :: "u8 list \<Rightarrow> nat \<Rightarrow> u64 \<Rightarrow> u64 \<Rightarrow> u64 option" where
  "SIP64 d inlen seed0 seed1 = do {
     let v3 = 0x7465646279746573 XOR seed1;
     let v2 = 0x6c7967656e657261 XOR seed0;
     let v1 = 0x646f72616e646f6d XOR seed1;
     let v0 = 0x736f6d6570736575 XOR seed0;
     let end_off = inlen - inlen mod 8;
     s \<leftarrow> sip_blocks (inlen div 8) d 0 (v0, v1, v2, v3);
     tail \<leftarrow> (read_le (inlen AND 7) d end_off :: u64 option);
     let b = push_bit 56 (of_nat inlen) OR tail;
     (case sip_absorb b s of (v0, v1, v2, v3) \<Rightarrow>
       (case sipround (sipround (sipround (sipround (v0, v1, v2 XOR 0xff, v3)))) of (v0, v1, v2, v3) \<Rightarrow>
         Some (v0 XOR v1 XOR v2 XOR v3))) }"

definition hashmap_sip :: "u8 list \<Rightarrow> nat \<Rightarrow> u64 \<Rightarrow> u64 \<Rightarrow> u64 option" where
  "hashmap_sip d n seed0 seed1 = SIP64 d n seed0 seed1"


section \<open>Murmur3\<close>

type_synonym mur = "u32 \<times> u32 \<times> u32 \<times> u32"

definition fmix32 :: "u32 \<Rightarrow> u32" where
  "fmix32 h =
     (let h = h XOR drop_bit 16 h; h = h * 0x85ebca6b;
          h = h XOR drop_bit 13 h; h = h * 0xc2b2ae35
      in h XOR drop_bit 16 h)"

definition mm_k :: "u32 \<Rightarrow> nat \<Rightarrow> u32 \<Rightarrow> u32 \<Rightarrow> u32" where
  "mm_k c r c' k = rotl r (k * c) * c'"

abbreviation "mm_c1 \<equiv> 0x239b961b :: u32"
abbreviation "mm_c2 \<equiv> 0xab0e9789 :: u32"
abbreviation "mm_c3 \<equiv> 0x38b34ae5 :: u32"
abbreviation "mm_c4 \<equiv> 0xa1e38b93 :: u32"

definition mm_block :: "u32 \<Rightarrow> u32 \<Rightarrow> u32 \<Rightarrow> u32 \<Rightarrow> mur \<Rightarrow> mur" where
  "mm_block k1 k2 k3 k4 s = (case s of (h1, h2, h3, h4) \<Rightarrow>
     let h1 = h1 XOR mm_k mm_c1 15 mm_c2 k1; h1 = rotl 19 h1; h1 = h1 + h2; h1 = h1 * 5 + 0x561ccd1b;
         h2 = h2 XOR mm_k mm_c2 16 mm_c3 k2; h2 = rotl 17 h2; h2 = h2 + h3; h2 = h2 * 5 + 0x0bcaa747;
         h3 = h3 XOR mm_k mm_c3 17 mm_c4 k3; h3 = rotl 15 h3; h3 = h3 + h4; h3 = h3 * 5 + 0x96cd1c35;
         h4 = h4 XOR mm_k mm_c4 18 mm_c1 k4; h4 = rotl 13 h4; h4 = h4 + h1; h4 = h4 * 5 + 0x32ac3b17
     in (h1, h2, h3, h4))"

fun mm_blocks :: "nat \<Rightarrow> u8 list \<Rightarrow> nat \<Rightarrow> mur \<Rightarrow> mur option" where
  "mm_blocks 0 d off s = Some s"
| "mm_blocks (Suc n) d off s = do {
     k1 \<leftarrow> read_le 4 d off;
     k2 \<leftarrow> read_le 4 d (off + 4);
     k3 \<leftarrow> read_le 4 d (off + 8);
     k4 \<leftarrow> read_le 4 d (off + 12);
     mm_blocks n d (off + 16) (mm_block k1 k2 k3 k4 s) }"

text \<open>
  The falling-through switch on the last \<open>len & 15\<close> bytes: lane \<open>j\<close> (of four) takes the bytes
  from \<open>4 * j\<close> on, and is mixed in only when it has a byte.
\<close>

definition mm_lane :: "u8 list \<Rightarrow> nat \<Rightarrow> u32 \<Rightarrow> nat \<Rightarrow> u32 \<Rightarrow> u32 \<Rightarrow> u32" where
  "mm_lane tail j c r c' h =
     (if 4 * j < length tail then h XOR mm_k c r c' (le_word (take 4 (drop (4 * j) tail))) else h)"

definition mm_mix :: "mur \<Rightarrow> mur" where
  "mm_mix s = (case s of (h1, h2, h3, h4) \<Rightarrow>
     let h1 = h1 + h2; h1 = h1 + h3; h1 = h1 + h4 in (h1, h2 + h1, h3 + h1, h4 + h1))"

definition MM86128 :: "u8 list \<Rightarrow> nat \<Rightarrow> u32 \<Rightarrow> u64 option" where
  "MM86128 key n seed = do {
     let nblocks = n div 16;
     (h1, h2, h3, h4) \<leftarrow> mm_blocks nblocks key 0 (seed, seed, seed, seed);
     tail \<leftarrow> mem_read key (nblocks * 16) (n AND 15);
     let h4 = mm_lane tail 3 mm_c4 18 mm_c1 h4;
     let h3 = mm_lane tail 2 mm_c3 17 mm_c4 h3;
     let h2 = mm_lane tail 1 mm_c2 16 mm_c3 h2;
     let h1 = mm_lane tail 0 mm_c1 15 mm_c2 h1;
     let ln = of_nat n;
     (case mm_mix (h1 XOR ln, h2 XOR ln, h3 XOR ln, h4 XOR ln) of (h1, h2, h3, h4) \<Rightarrow>
       (case mm_mix (fmix32 h1, fmix32 h2, fmix32 h3, fmix32 h4) of (h1, h2, h3, h4) \<Rightarrow>
         Some (push_bit 32 (ucast h2) OR ucast h1))) }"

text \<open>
  MM86128 takes the length as an \<open>int\<close>. From 2^31 on the conversion no longer keeps the value
  and the block loop would run on a wrong count; the model gives no result there.
\<close>

definition hashmap_murmur :: "u8 list \<Rightarrow> nat \<Rightarrow> u64 \<Rightarrow> u64 \<Rightarrow> u64 option" where
  "hashmap_murmur d n seed0 seed1 = (if n < 2 ^ 31 then MM86128 d n (ucast seed0) else None)"


section \<open>xxHash\<close>

abbreviation "XXH_PRIME_1 \<equiv> 11400714785074694791 :: u64"
abbreviation "XXH_PRIME_2 \<equiv> 14029467366897019727 :: u64"
abbreviation "XXH_PRIME_3 \<equiv> 1609587929392839161 :: u64"
abbreviation "XXH_PRIME_4 \<equiv> 9650029242287828579 :: u64"
abbreviation "XXH_PRIME_5 \<equiv> 2870177450012600261 :: u64"

definition xxh_round :: "u64 \<Rightarrow> u64 \<Rightarrow> u64" where
  "xxh_round v x = rotl 31 (v + x * XXH_PRIME_2) * XXH_PRIME_1"

text \<open>The do-while loop over 32-byte stripes: \<open>n + 1\<close> of them.\<close>

fun xxh_stripes :: "nat \<Rightarrow> u8 list \<Rightarrow> nat \<Rightarrow> sip \<Rightarrow> sip option" where
  "xxh_stripes n d off (v1, v2, v3, v4) = do {
     a \<leftarrow> read_le 8 d off;
     b \<leftarrow> read_le 8 d (off + 8);
     c \<leftarrow> read_le 8 d (off + 16);
     e \<leftarrow> read_le 8 d (off + 24);
     let s = (xxh_round v1 a, xxh_round v2 b, xxh_round v3 c, xxh_round v4 e);
     (case n of 0 \<Rightarrow> Some s | Suc n \<Rightarrow> xxh_stripes n d (off + 32) s) }"

declare xxh_stripes.simps [simp del]

definition xxh_merge :: "u64 \<Rightarrow> u64 \<Rightarrow> u64" where
  "xxh_merge h v = (h XOR xxh_round 0 v) * XXH_PRIME_1 + XXH_PRIME_4"

fun xxh_words :: "nat \<Rightarrow> u8 list \<Rightarrow> nat \<Rightarrow> u64 \<Rightarrow> u64 option" where
  "xxh_words 0 d off h = Some h"
| "xxh_words (Suc n) d off h = do {
     k1 \<leftarrow> read_le 8 d off;
     let h = h XOR xxh_round 0 k1;
     xxh_words n d (off + 8) (rotl 27 h * XXH_PRIME_1 + XXH_PRIME_4) }"

fun xxh_bytes :: "u8 list \<Rightarrow> u64 \<Rightarrow> u64" where
  "xxh_bytes [] h = h"
| "xxh_bytes (b # bs) h = xxh_bytes bs (rotl 11 (h XOR (ucast b * XXH_PRIME_5)) * XXH_PRIME_1)"

definition xxh_final :: "u64 \<Rightarrow> u64" where
  "xxh_final h =
     (let h = h XOR drop_bit 33 h; h = h * XXH_PRIME_2;
          h = h XOR drop_bit 29 h; h = h * XXH_PRIME_3
      in h XOR drop_bit 32 h)"

text \<open>The first part of xxh3: the stripes, if there is one, and the offset behind them.\<close>

definition xxh_init :: "u8 list \<Rightarrow> nat \<Rightarrow> u64 \<Rightarrow> (u64 \<times> nat) option" where
  "xxh_init d n seed =
     (if 32 \<le> n then do {
        (v1, v2, v3, v4) \<leftarrow> xxh_stripes (n div 32 - 1) d 0
           (seed + XXH_PRIME_1 + XXH_PRIME_2, seed + XXH_PRIME_2, seed + 0, seed - XXH_PRIME_1);
        let h = rotl 1 v1 + rotl 7 v2 + rotl 12 v3 + rotl 18 v4;
        Some (xxh_merge (xxh_merge (xxh_merge (xxh_merge h v1) v2) v3) v4, 32 * (n div 32)) }
      else Some (seed + XXH_PRIME_5, 0))"

definition xxh3 :: "u8 list \<Rightarrow> nat \<Rightarrow> u64 \<Rightarrow> u64 option" where
  "xxh3 d n seed = do {
     (h, p) \<leftarrow> xxh_init d n seed;
     let h = h + of_nat n;
     let w = (n - p) div 8;
     h \<leftarrow> xxh_words w d p h;
     let p = p + 8 * w;
     (h, p) \<leftarrow>
       (if p + 4 \<le> n then do {
          x \<leftarrow> (read_le 4 d p :: u32 option);
          let h = h XOR (ucast x * XXH_PRIME_1);
          Some (rotl 23 h * XXH_PRIME_2 + XXH_PRIME_3, p + 4) }
        else Some (h, p));
     rest \<leftarrow> mem_read d p (n - p);
     Some (xxh_final (xxh_bytes rest h)) }"

definition hashmap_xxhash3 :: "u8 list \<Rightarrow> nat \<Rightarrow> u64 \<Rightarrow> u64 \<Rightarrow> u64 option" where
  "hashmap_xxhash3 d n seed0 seed1 = xxh3 d n seed0"


section \<open>No hash reads outside the key\<close>

lemma read_le_ok: "off + n \<le> length d \<Longrightarrow> \<exists>w. read_le n d off = Some w"
  by (simp add: read_le_def mem_read_def)

lemma sip_blocks_ok: "off + 8 * n \<le> length d \<Longrightarrow> \<exists>s'. sip_blocks n d off s = Some s'"
proof (induction n arbitrary: off s)
  case (Suc n)
  obtain m where "(read_le 8 d off :: u64 option) = Some m" using read_le_ok [of off 8 d] Suc.prems by auto
  then show ?case using Suc.IH [of "off + 8"] Suc.prems by simp
qed auto

lemma SIP64_ok:
  assumes "n \<le> length d"
  shows "\<exists>h. SIP64 d n s0 s1 = Some h"
proof -
  have m: "n AND 7 = n mod 8" using and_mask_mod [of n 3] by simp
  have e: "n - n mod 8 + n mod 8 = n" by simp
  obtain t where t: "(read_le (n AND 7) d (n - n mod 8) :: u64 option) = Some t"
    using read_le_ok [of "n - n mod 8" "n AND 7" d] assms by (auto simp: m e)
  have "8 * (n div 8) \<le> length d" using assms by (metis le_trans times_div_less_eq_dividend)
  then have "\<exists>s'. sip_blocks (n div 8) d 0 s = Some s'" for s using sip_blocks_ok [of 0 "n div 8" d s] by simp
  then obtain s where "sip_blocks (n div 8) d 0 (0x736f6d6570736575 XOR s0, 0x646f72616e646f6d XOR s1,
      0x6c7967656e657261 XOR s0, 0x7465646279746573 XOR s1) = Some s" by blast
  then show ?thesis using t by (simp add: SIP64_def Let_def split: prod.splits)
qed

lemma mm_blocks_ok: "off + 16 * n \<le> length d \<Longrightarrow> \<exists>s'. mm_blocks n d off s = Some s'"
proof (induction n arbitrary: off s)
  case (Suc n)
  have r: "\<exists>k. (read_le 4 d (off + j) :: u32 option) = Some k" if "j \<le> 12" for j
    using that Suc.prems by (intro read_le_ok) simp
  obtain k1 k2 k3 k4 where "(read_le 4 d off :: u32 option) = Some k1" "(read_le 4 d (off + 4) :: u32 option) = Some k2"
    "(read_le 4 d (off + 8) :: u32 option) = Some k3" "(read_le 4 d (off + 12) :: u32 option) = Some k4"
    using r [of 0] r [of 4] r [of 8] r [of 12] by auto
  then show ?case using Suc.IH [of "off + 16"] Suc.prems by simp
qed auto

lemma MM86128_ok:
  assumes "n \<le> length d"
  shows "\<exists>h. MM86128 d n s = Some h"
proof -
  have m: "n AND 15 = n mod 16" using and_mask_mod [of n 4] by simp
  have "n div 16 * 16 + n mod 16 = n" by simp
  then obtain t where t: "mem_read d (n div 16 * 16) (n AND 15) = Some t"
    using assms by (simp add: mem_read_def m)
  have "16 * (n div 16) \<le> length d" using assms by (metis le_trans times_div_less_eq_dividend)
  then obtain h where "mm_blocks (n div 16) d 0 (s, s, s, s) = Some h"
    using mm_blocks_ok [of 0 "n div 16" d "(s, s, s, s)"] by auto
  then show ?thesis using t by (cases h) (simp add: MM86128_def Let_def split: prod.splits)
qed

lemma xxh_stripes_ok: "off + 32 * (n + 1) \<le> length d \<Longrightarrow> \<exists>s'. xxh_stripes n d off s = Some s'"
proof (induction n arbitrary: off s)
  case 0
  have "\<exists>k. (read_le 8 d (off + j) :: u64 option) = Some k" if "j \<le> 24" for j
    using that 0 by (intro read_le_ok) simp
  from this [of 0] this [of 8] this [of 16] this [of 24] show ?case
    by (cases s) (auto simp: xxh_stripes.simps Let_def)
next
  case (Suc n)
  have "\<exists>k. (read_le 8 d (off + j) :: u64 option) = Some k" if "j \<le> 24" for j
    using that Suc.prems by (intro read_le_ok) simp
  from this [of 0] this [of 8] this [of 16] this [of 24] Suc.IH [of "off + 32"] Suc.prems show ?case
    by (cases s) (auto simp: xxh_stripes.simps [of "Suc n"] Let_def)
qed

lemma xxh_words_ok: "off + 8 * n \<le> length d \<Longrightarrow> \<exists>h'. xxh_words n d off h = Some h'"
proof (induction n arbitrary: off h)
  case (Suc n)
  obtain m where "(read_le 8 d off :: u64 option) = Some m" using read_le_ok [of off 8 d] Suc.prems by auto
  then show ?case using Suc.IH [of "off + 8"] Suc.prems by (simp add: Let_def)
qed simp

lemma xxh_init_ok:
  assumes "n \<le> length d"
  shows "\<exists>h p. xxh_init d n seed = Some (h, p) \<and> p \<le> n"
proof (cases "32 \<le> n")
  case True
  have "32 * (n div 32) \<le> n" "0 < n div 32" using True by (simp_all add: div_greater_zero_iff)
  then have "0 + 32 * (n div 32 - 1 + 1) \<le> length d" using assms by simp
  then obtain v where "xxh_stripes (n div 32 - 1) d 0
      (seed + XXH_PRIME_1 + XXH_PRIME_2, seed + XXH_PRIME_2, seed + 0, seed - XXH_PRIME_1) = Some v"
    using xxh_stripes_ok by blast
  then show ?thesis using True \<open>32 * (n div 32) \<le> n\<close> unfolding xxh_init_def by (cases v) (simp add: Let_def)
qed (simp add: xxh_init_def)

lemma xxh3_ok:
  assumes "n \<le> length d"
  shows "\<exists>h. xxh3 d n seed = Some h"
proof -
  obtain h1 p where h1: "xxh_init d n seed = Some (h1, p)" "p \<le> n" using xxh_init_ok [OF assms] by blast
  define q where "q = p + 8 * ((n - p) div 8)"
  have "8 * ((n - p) div 8) \<le> n - p" by simp
  then have q: "q \<le> n" using h1(2) unfolding q_def by linarith
  have rest: "\<exists>r. mem_read d k (n - k) = Some r" if "k \<le> n" for k
    using that assms by (simp add: mem_read_def)
  obtain h2 where h2: "xxh_words ((n - p) div 8) d p (h1 + of_nat n) = Some h2"
    using xxh_words_ok [of p "(n - p) div 8" d "h1 + of_nat n"] q assms by (auto simp: q_def)
  show ?thesis
  proof (cases "q + 4 \<le> n")
    case True
    then obtain x where "(read_le 4 d q :: u32 option) = Some x" using read_le_ok [of q 4 d] assms by auto
    then show ?thesis using True h1 h2 rest [of "q + 4"] by (auto simp: xxh3_def Let_def q_def)
  next
    case False
    then show ?thesis using h1 h2 rest [OF q] by (auto simp: xxh3_def Let_def q_def)
  qed
qed


section \<open>The reference value of SipHash, round by round\<close>

lemma sip_v0: "(0x736f6d6570736575 XOR 0x706050403020100, 0x646f72616e646f6d XOR 0xf0e0d0c0b0a0908, 0x6c7967656e657261 XOR 0x706050403020100, 0x7465646279746573 XOR 0xf0e0d0c0b0a0908) = ((0x7469686173716475, 0x6b617f6d656e6665, 0x6b7f62616d677361, 0x7b6b696e727e6c7b) :: sip)"
  by code_simp

lemma sip_v1: "sip_absorb 0x706050403020100 (0x7469686173716475, 0x6b617f6d656e6665, 0x6b7f62616d677361, 0x7b6b696e727e6c7b) = (0x4a017198de0a59e0, 0xd52f6f62a4f59a4, 0x634cb3577b01fd3d, 0xa5224d6f55c7d9c8)"
  by code_simp

lemma sip_v2: "sip_absorb 0xf0e0d0c0b0a0908 (0x4a017198de0a59e0, 0xd52f6f62a4f59a4, 0x634cb3577b01fd3d, 0xa5224d6f55c7d9c8) = (0x3c85b3ab6f55be51, 0x414fc3fb98efe374, 0xccf13ea527b9f4bd, 0x5293f5da84008f82)"
  by code_simp

lemma sip_v3: "sipround (0x3c85b3ab6f55be51, 0x414fc3fb98efe374, 0xccf13ea527b9f442, 0x5293f5da84008f82) = (0xf2a55244a20e48fe, 0xac5ad16ccc3ca6e4, 0x9fe5adb0a52f393a, 0xfd41d55e88f30308)"
  by code_simp

lemma sip_v4: "sipround (0xf2a55244a20e48fe, 0xac5ad16ccc3ca6e4, 0x9fe5adb0a52f393a, 0xfd41d55e88f30308) = (0xb6c3fbdecc2ae4b4, 0x1638c86adc6b3cf0, 0x28b8b6ab62553d46, 0xc9465e86ec43eb95)"
  by code_simp

lemma sip_v5: "sipround (0xb6c3fbdecc2ae4b4, 0x1638c86adc6b3cf0, 0x28b8b6ab62553d46, 0xc9465e86ec43eb95) = (0x58101b167209a5e6, 0xf8792ae75b66e7dd, 0x1da14c3ec7f0b4f7, 0x7624ba8a41bc4ad9)"
  by code_simp

lemma sip_v6: "sipround (0x58101b167209a5e6, 0xf8792ae75b66e7dd, 0x1da14c3ec7f0b4f7, 0x7624ba8a41bc4ad9) = (0xf6bcd53893fecff1, 0x54b9964c7ea0d937, 0x1b38329c099bb55a, 0x1814bb89ad7be679)"
  by code_simp


lemma sip_r: 
  "(read_le 8 [0, 1, 2, 3, 4, 5, 6, 7, 8, 9, 10, 11, 12, 13, 14] 0 :: u64 option) = Some 0x0706050403020100"
  "(read_le 7 [0, 1, 2, 3, 4, 5, 6, 7, 8, 9, 10, 11, 12, 13, 14] 8 :: u64 option) = Some 0x0e0d0c0b0a0908"
  by code_simp+

lemma sip_b: "push_bit 56 (of_nat 15) OR 0x0e0d0c0b0a0908 = (0xf0e0d0c0b0a0908 :: u64)"
  by code_simp

lemma sip_x: "0xccf13ea527b9f4bd XOR 0xff = (0xccf13ea527b9f442 :: u64)"
  by code_simp

lemma sip_x2: "0xf6bcd53893fecff1 XOR 0x54b9964c7ea0d937 XOR 0x1b38329c099bb55a XOR 0x1814bb89ad7be679 = (0xa129ca6149be45e5::u64)"
  by code_simp

lemma sip_vector: "hashmap_sip [0, 1, 2, 3, 4, 5, 6, 7, 8, 9, 10, 11, 12, 13, 14] 15 0x0706050403020100 0x0f0e0d0c0b0a0908
     = Some 0xa129ca6149be45e5"
proof -
  have n: "(15::nat) mod 8 = 7" "15 - 7 = (8::nat)" "15 div 8 = Suc 0" "(15::nat) AND 7 = 7" by simp_all
  show ?thesis
    unfolding hashmap_sip_def SIP64_def Let_def n sip_blocks.simps sip_r bind_simps bind.bind_lunit sip_v0 sip_v1 sip_b
     sip_v2 sip_x sip_v3 sip_v4 sip_v5 sip_v6 prod.case sip_x2 ..
qed


section \<open>Properties\<close>

text \<open>
  None of the three hash functions reads past the \<open>n\<close> bytes it is given, whatever
  the length (zero, tails of every size, whole blocks), so each returns a hash; Murmur3 for lengths that fit its \<open>int\<close> parameter.
\<close>

theorem hashes_stay_in_bounds:
  assumes "n \<le> length d"
  shows "(\<exists>h. hashmap_sip d n s0 s1 = Some h) \<and> (n < 2 ^ 31 \<longrightarrow> (\<exists>h. hashmap_murmur d n s0 s1 = Some h)) \<and>
     (\<exists>h. hashmap_xxhash3 d n s0 s1 = Some h)"
  using SIP64_ok [OF assms] MM86128_ok [OF assms] xxh3_ok [OF assms]
  by (simp add: hashmap_sip_def hashmap_murmur_def hashmap_xxhash3_def)

theorem hashes_stay_in_bounds_witness:
  "(\<exists>h. hashmap_xxhash3 [1, 2, 3] 3 7 0 = Some h) \<and> (\<exists>h. hashmap_murmur [1, 2, 3] 3 7 0 = Some h)"
  using hashes_stay_in_bounds [of 3 "[1, 2, 3]" 7 0] by simp

text \<open>
  Published test values. The SipHash of the message 00 01 .. 0e under the key
  00 01 .. 0f is a129ca6149be45e5, the value in the SipHash paper; Murmur3 of the empty key
  with seed 0 is 0; the function called xxhash3 gives on the empty key and on the one-byte key
  61 the values of XXH64, not of XXH3.
\<close>

theorem hash_test_vectors:
  "hashmap_sip [0, 1, 2, 3, 4, 5, 6, 7, 8, 9, 10, 11, 12, 13, 14] 15 0x0706050403020100 0x0f0e0d0c0b0a0908
     = Some 0xa129ca6149be45e5 \<and>
   hashmap_murmur [] 0 0 0 = Some 0 \<and>
   hashmap_xxhash3 [] 0 0 0 = Some 0xef46db3751d8e999 \<and>
   hashmap_xxhash3 [0x61] 1 0 0 = Some 0xd24ec4f1a98c6e5b"
proof (intro conjI)
  have "MM86128 [] 0 0 = Some 0" by code_simp
  then show "hashmap_murmur [] 0 0 0 = Some 0" by (simp add: hashmap_murmur_def)
  show "hashmap_xxhash3 [] 0 0 0 = Some 0xef46db3751d8e999" by code_simp
  show "hashmap_xxhash3 [0x61] 1 0 0 = Some 0xd24ec4f1a98c6e5b" by code_simp
qed (rule sip_vector)

end
