(* ===== verification/Bits.thy ===== *)
theory Bits
  imports Prelude
begin

text \<open>
  The bit-packing routines at the bottom of the packet codec, src/src/ld_santilizer.c, and
  \<open>bytes_len\<close> of src/src/ld_utils.c.

  The packet is a byte list, the cursor an index into it. A bit of the packet is addressed by
  its position counted from the first bit on the wire: position \<open>k\<close> is bit \<open>7 - k mod 8\<close> of
  byte \<open>k div 8\<close> (\<open>mbit\<close>). The lemmas say what \<open>append_bits\<close> and \<open>detach_bits\<close> do to these
  positions; everything above them only uses that.
\<close>

section \<open>The routines\<close>

text \<open>
  \<open>append_bits\<close>: \<open>to_shift\<close> is an \<open>int\<close> and runs down in steps of eight until it is at most
  \<open>-8\<close>. A shift of the 64-bit value by 64 or more is undefined.
\<close>

function append_bits :: "int \<Rightarrow> u64 \<Rightarrow> u8 list \<Rightarrow> nat \<Rightarrow> (u8 list \<times> nat) option" where
  "append_bits to_shift n mem cur =
     (if to_shift > - 8 then
        if \<not> cur < length mem \<or> 64 \<le> to_shift then None
        else if to_shift \<ge> 0 then
          append_bits (to_shift - 8) n
            (mem[cur := mem ! cur OR ucast (drop_bit (nat to_shift) n AND 0xFF)]) (cur + 1)
        else
          append_bits (to_shift - 8) n
            (mem[cur := mem ! cur OR ucast (push_bit (nat (- to_shift)) n AND 0xFF)]) cur
      else Some (mem, cur))"
  by pat_completeness auto
termination
  by (relation "measure (\<lambda>(t, _). nat (t + 8))") auto

declare append_bits.simps [simp del]

text \<open>
  \<open>detach_bits\<close> shifts a \<open>uint8_t\<close>, which is promoted to a 32-bit \<open>int\<close>: the result is cut
  to 32 bits and sign-extended when it is combined with the 64-bit mask (the definition GCC
  gives to a left shift into the sign bit), and a shift by 32 or more is undefined.
\<close>

definition shl_int :: "u8 \<Rightarrow> nat \<Rightarrow> u64 option" where
  "shl_int b k = (if k < 32 then Some (scast (push_bit k (ucast b :: u32))) else None)"

function detach_bits :: "int \<Rightarrow> u64 \<Rightarrow> u8 list \<Rightarrow> nat \<Rightarrow> nat \<Rightarrow> (u64 \<times> nat) option" where
  "detach_bits to_shift n mem cur pre_unavil =
     (if to_shift > - 8 then
        if \<not> cur < length mem then None
        else let specific = (if pre_unavil \<noteq> 0 then mem ! cur AND drop_bit pre_unavil 0xFF else mem ! cur) in
          if to_shift \<ge> 0 then do {
            s \<leftarrow> shl_int specific (nat to_shift);
            detach_bits (to_shift - 8) (n OR s) mem (cur + 1) 0 }
          else
            detach_bits (to_shift - 8) (n OR ucast (drop_bit (nat (- to_shift)) specific)) mem cur 0
      else Some (n, cur))"
  by pat_completeness auto
termination
  by (relation "measure (\<lambda>(t, _). nat (t + 8))") auto

declare detach_bits.simps [simp del]

fun append_str :: "u8 list \<Rightarrow> nat \<Rightarrow> nat \<Rightarrow> u8 list \<Rightarrow> nat \<Rightarrow> (u8 list \<times> nat \<times> nat) option" where
  "append_str mem cur bit_size src 0 = Some (mem, cur, bit_size)"
| "append_str mem cur bit_size [] (Suc sz) = None"
| "append_str mem cur bit_size (c # src) (Suc sz) = do {
     (mem, cur) \<leftarrow> append_bits (int (bit_size mod 8)) (ucast c) mem cur;
     append_str mem cur (bit_size + 8) src sz }"

text \<open>\<open>detach_str\<close> returns the bytes it stores through \<open>dst\<close>.\<close>

fun detach_str :: "u8 list \<Rightarrow> nat \<Rightarrow> nat \<Rightarrow> nat \<Rightarrow> (u8 list \<times> nat \<times> nat) option" where
  "detach_str mem cur bit_size 0 = Some ([], cur, bit_size)"
| "detach_str mem cur bit_size (Suc sz) = do {
     (n, cur) \<leftarrow> detach_bits (int (bit_size mod 8)) 0 mem cur (bit_size mod 8);
     (bs, cur, bit_size) \<leftarrow> detach_str mem cur (bit_size + 8) sz;
     Some (ucast n # bs, cur, bit_size) }"

text \<open>
  \<open>int2byte\<close> shifts a \<open>uint32_t\<close> right, which is undefined from 32 on, so it writes at most
  four bytes; \<open>byte2int\<close> adds the bytes, each shifted left as an \<open>int\<close>.
\<close>

definition int2byte :: "u32 \<Rightarrow> nat \<Rightarrow> u8 list option" where
  "int2byte val sz =
     (if sz \<le> 4 then Some (map (\<lambda>i. ucast (drop_bit (8 * (sz - i - 1)) val)) [0..<sz]) else None)"

definition byte2int :: "u32 \<Rightarrow> u8 list \<Rightarrow> nat \<Rightarrow> u32 option" where
  "byte2int val bytes sz =
     (if sz \<le> 4 \<and> sz \<le> length bytes
      then Some (foldl (\<lambda>v i. v + push_bit (8 * (sz - i - 1)) (ucast (bytes ! i))) val [0..<sz])
      else None)"

definition is_equal :: "u8 list \<Rightarrow> u8 list \<Rightarrow> nat \<Rightarrow> bool" where
  "is_equal src contrast sz = (first_from (\<lambda>i. src ! i \<noteq> contrast ! i) 0 sz = None)"

text \<open>
  \<open>bytes_len\<close> looks for the first shift that makes \<open>n - 1\<close> zero. The decrement wraps around
  for 0, and then the search runs into a shift by 64.
\<close>

definition bytes_len :: "nat \<Rightarrow> nat option" where
  "bytes_len n = first_from (\<lambda>i. drop_bit i ((of_nat n :: u64) - 1) = 0) 0 64"


section \<open>Bits of the packet\<close>

definition mbit :: "u8 list \<Rightarrow> nat \<Rightarrow> bool" where
  "mbit mem k = (k < 8 * length mem \<and> bit (mem ! (k div 8)) (7 - k mod 8))"

lemma mbit_outside [simp]: "8 * length mem \<le> k \<Longrightarrow> \<not> mbit mem k"
  by (simp add: mbit_def)

lemma mbit_byte: "cur < length mem \<Longrightarrow> b < 8 \<Longrightarrow> mbit mem (8 * cur + (7 - b)) = bit (mem ! cur) b"
proof -
  assume a: "cur < length mem" "b < 8"
  then have "(8 * cur + (7 - b)) div 8 = cur" by linarith
  moreover have "(8 * cur + (7 - b)) mod 8 = 7 - b" by (simp only: mod_mult_self4) simp
  moreover have "8 * cur + (7 - b) < 8 * length mem" using a by linarith
  ultimately show ?thesis using a by (simp add: mbit_def)
qed

lemma bit_byte: "cur < length mem \<Longrightarrow> bit (mem ! cur) b = (b < 8 \<and> mbit mem (8 * cur + (7 - b)))"
  using mbit_byte [of cur mem b] bit_imp_le_length [of "mem ! cur" b] by auto

lemma low_byte_mask: "(0xFF :: 'a::len word) = mask 8"
  by (simp add: mask_eq_exp_minus_1)

lemma mbit_eqI:
  assumes "length m = length m'" "\<And>k. k < 8 * length m \<Longrightarrow> mbit m k = mbit m' k"
  shows "m = m'"
proof (rule nth_equalityI)
  fix i assume i: "i < length m"
  show "m ! i = m' ! i"
  proof (rule bit_word_eqI)
    fix b assume "b < LENGTH(8)"
    then show "bit (m ! i) b = bit (m' ! i) b"
      using i assms by (simp add: bit_byte)
  qed
qed (rule assms(1))

lemma mbit_update_or:
  assumes "cur < length mem"
  shows "mbit (mem[cur := mem ! cur OR v]) k \<longleftrightarrow>
     mbit mem k \<or> (8 * cur \<le> k \<and> k < 8 * cur + 8 \<and> bit v (7 - (k - 8 * cur)))"
proof (cases "k div 8 = cur")
  case True
  then have k: "8 * cur \<le> k" "k < 8 * cur + 8" "k mod 8 = k - 8 * cur"
    using div_mult_mod_eq [of k 8] by (auto simp: minus_mult_div_eq_mod [symmetric])
  then show ?thesis using True assms by (auto simp: mbit_def bit_or_iff)
next
  case False
  then have "\<not> (8 * cur \<le> k \<and> k < 8 * cur + 8)" by auto
  then show ?thesis using False by (auto simp: mbit_def)
qed


section \<open>What append and detach do to the bits\<close>

text \<open>
  Appending ORs the low bits of \<open>n\<close> into the packet so that the last one lands at position
  \<open>8 * cur + to_shift + 7\<close>.
\<close>

lemma append_bits_spec:
  assumes "to_shift > - 8" "to_shift < 64" "8 * int cur + to_shift + 7 < 8 * int (length mem)"
  shows "\<exists>mem'. append_bits to_shift n mem cur = Some (mem', nat ((8 * int cur + to_shift + 8) div 8)) \<and>
     length mem' = length mem \<and>
     (\<forall>k. mbit mem' k \<longleftrightarrow> mbit mem k \<or>
        (8 * cur \<le> k \<and> int k \<le> 8 * int cur + to_shift + 7 \<and> bit n (nat (8 * int cur + to_shift + 7 - int k))))"
  using assms
proof (induction to_shift n mem cur rule: append_bits.induct)
  case (1 ts n mem cur)
  have cur: "cur < length mem" using "1.prems" by linarith
  show ?case
  proof (cases "ts \<ge> 0")
    case False
    define v where "v = (ucast (push_bit (nat (- ts)) n AND 0xFF) :: u8)"
    have v: "bit v b \<longleftrightarrow> b < 8 \<and> nat (- ts) \<le> b \<and> bit n (b - nat (- ts))" for b
      using False "1.prems"(1) by (auto simp: v_def low_byte_mask bit_simps)
    have "append_bits ts n mem cur = Some (mem[cur := mem ! cur OR v], cur)"
      using False "1.prems" cur by (simp add: append_bits.simps [of ts] append_bits.simps [of "ts - 8"] v_def)
    moreover have "nat ((8 * int cur + ts + 8) div 8) = cur" using False "1.prems" by auto
    moreover have "mbit (mem[cur := mem ! cur OR v]) k \<longleftrightarrow> mbit mem k \<or>
        (8 * cur \<le> k \<and> int k \<le> 8 * int cur + ts + 7 \<and> bit n (nat (8 * int cur + ts + 7 - int k)))" for k
    proof -
      have "7 - (k - 8 * cur) - nat (- ts) = nat (8 * int cur + ts + 7 - int k)"
        if "8 * cur \<le> k" "int k \<le> 8 * int cur + ts + 7" using that False by linarith
      then show ?thesis using False cur by (auto simp: mbit_update_or v)
    qed
    ultimately show ?thesis by simp
  next
    case True
    define v where "v = (ucast (drop_bit (nat ts) n AND 0xFF) :: u8)"
    have v: "bit v b \<longleftrightarrow> b < 8 \<and> bit n (nat ts + b)" for b
      by (auto simp: v_def low_byte_mask bit_simps)
    define m1 where "m1 = mem[cur := mem ! cur OR v]"
    have step: "append_bits ts n mem cur = append_bits (ts - 8) n m1 (cur + 1)"
      using True "1.prems" cur by (simp add: append_bits.simps [of ts] v_def m1_def)
    have m1: "mbit m1 k \<longleftrightarrow> mbit mem k \<or> (8 * cur \<le> k \<and> k < 8 * cur + 8 \<and> bit n (nat (8 * int cur + ts + 7 - int k)))" for k
    proof -
      have "nat ts + (7 - (k - 8 * cur)) = nat (8 * int cur + ts + 7 - int k)"
        if "8 * cur \<le> k" "k < 8 * cur + 8" using that True by linarith
      then show ?thesis using cur by (auto simp: m1_def mbit_update_or v)
    qed
    show ?thesis
    proof (cases "ts - 8 > - 8")
      case False
      with True have "ts = 0" by simp
      have "append_bits ts n mem cur = Some (m1, cur + 1)" using step \<open>ts = 0\<close> by (simp add: append_bits.simps [of "- 8"])
      moreover have "length m1 = length mem" by (simp add: m1_def)
      moreover have "nat ((8 * int cur + ts + 8) div 8) = cur + 1" using \<open>ts = 0\<close> by simp
      moreover have "k < 8 * cur + 8 \<longleftrightarrow> int k \<le> 8 * int cur + ts + 7" for k using \<open>ts = 0\<close> by auto
      ultimately show ?thesis using m1 by simp
    next
      case ts8: True
      have "\<exists>mem'. append_bits (ts - 8) n m1 (cur + 1) = Some (mem', nat ((8 * int (cur + 1) + (ts - 8) + 8) div 8)) \<and>
         length mem' = length m1 \<and>
         (\<forall>k. mbit mem' k \<longleftrightarrow> mbit m1 k \<or>
            (8 * (cur + 1) \<le> k \<and> int k \<le> 8 * int (cur + 1) + (ts - 8) + 7 \<and>
             bit n (nat (8 * int (cur + 1) + (ts - 8) + 7 - int k))))"
      proof (rule "1.IH"(1) [folded v_def, folded m1_def])
        show "\<not> (\<not> cur < length mem \<or> 64 \<le> ts)" "ts - 8 < 64" using cur "1.prems"(2) by linarith+
        show "8 * int (cur + 1) + (ts - 8) + 7 < 8 * int (length m1)" using "1.prems"(3) by (simp add: m1_def)
      qed (fact "1.prems"(1) True ts8)+
      then obtain mem' where mem': "append_bits (ts - 8) n m1 (cur + 1) = Some (mem', nat ((8 * int cur + ts + 8) div 8))"
        "length mem' = length mem"
        "\<And>k. mbit mem' k \<longleftrightarrow> mbit m1 k \<or>
            (8 * cur + 8 \<le> k \<and> int k \<le> 8 * int cur + ts + 7 \<and> bit n (nat (8 * int cur + ts + 7 - int k)))"
        by (auto simp: m1_def algebra_simps)
      have "mbit mem' k \<longleftrightarrow> mbit mem k \<or>
        (8 * cur \<le> k \<and> int k \<le> 8 * int cur + ts + 7 \<and> bit n (nat (8 * int cur + ts + 7 - int k)))" for k
        unfolding mem'(3) m1 using True by (cases "k < 8 * cur + 8") auto
      then show ?thesis using step mem'(1,2) by auto
    qed
  qed
qed


lemma shl_int_bits:
  assumes "k < 32"
  obtains w where "shl_int b k = Some w"
    "\<And>j. bit w j \<longleftrightarrow> j < 64 \<and> k \<le> min 31 j \<and> bit b (min 31 j - k)"
proof
  show "shl_int b k = Some (scast (push_bit k (ucast b :: u32)))" using assms by (simp add: shl_int_def)
  show "bit (scast (push_bit k (ucast b :: u32)) :: u64) j \<longleftrightarrow> j < 64 \<and> k \<le> min 31 j \<and> bit b (min 31 j - k)" for j
    using bit_imp_le_length [of b] by (auto simp: bit_simps min_def)
qed

lemma detach_bits_tail:
  assumes "to_shift > - 8" "to_shift \<le> 23" "8 * int cur + to_shift + 7 < 8 * int (length mem)"
  shows "\<exists>n'. detach_bits to_shift n mem cur 0 = Some (n', nat ((8 * int cur + to_shift + 8) div 8)) \<and>
     (\<forall>j. bit n' j \<longleftrightarrow> bit n j \<or> (int j \<le> to_shift + 7 \<and> mbit mem (nat (8 * int cur + to_shift + 7 - int j))))"
  using assms
proof (induction "nat (to_shift + 8)" arbitrary: to_shift n cur rule: less_induct)
  case (less ts n cur)
  have cur: "cur < length mem" using less.prems by linarith
  show ?case
  proof (cases "ts \<ge> 0")
    case False
    define n' where "n' = n OR (ucast (drop_bit (nat (- ts)) (mem ! cur)) :: u64)"
    have d: "detach_bits ts n mem cur 0 = Some (n', cur)"
      using False less.prems cur by (simp add: detach_bits.simps [of ts] detach_bits.simps [of "ts - 8"] n'_def)
    have c: "nat ((8 * int cur + ts + 8) div 8) = cur" using False less.prems by auto
    have "bit n' j \<longleftrightarrow> bit n j \<or> (int j \<le> ts + 7 \<and> mbit mem (nat (8 * int cur + ts + 7 - int j)))" for j
    proof -
      have "8 * cur + (7 - (nat (- ts) + j)) = nat (8 * int cur + ts + 7 - int j)" if "nat (- ts) + j < 8"
        using that False by linarith
      moreover have "nat (- ts) + j < 8 \<longleftrightarrow> int j \<le> ts + 7" using False by linarith
      ultimately show ?thesis using False cur
        by (auto simp: n'_def bit_or_iff bit_unsigned_iff bit_drop_bit_eq bit_byte)
    qed
    with d c show ?thesis by simp
  next
    case True
    then have "nat ts < 32" using less.prems by linarith
    then obtain w where w: "shl_int (mem ! cur) (nat ts) = Some w"
      "\<And>j. bit w j \<longleftrightarrow> j < 64 \<and> nat ts \<le> min 31 j \<and> bit (mem ! cur) (min 31 j - nat ts)"
      by (rule shl_int_bits [of _ "mem ! cur"]) blast
    have w': "bit w j \<longleftrightarrow> ts \<le> int j \<and> int j \<le> ts + 7 \<and> mbit mem (nat (8 * int cur + ts + 7 - int j))" for j
    proof (cases "j < 31")
      case j: True
      have "8 * cur + (7 - (j - nat ts)) = nat (8 * int cur + ts + 7 - int j)" if "nat ts \<le> j" "j - nat ts < 8"
        using that True by linarith
      moreover have "j - nat ts < 8 \<longleftrightarrow> int j \<le> ts + 7" if "nat ts \<le> j" using that True by linarith
      ultimately show ?thesis using j True cur by (auto simp: w(2) bit_byte)
    next
      case False
      have "\<not> 31 - nat ts < 8" "\<not> int j \<le> ts + 7" using False True less.prems by linarith+
      then show ?thesis using cur False by (auto simp: w(2) bit_byte)
    qed
    have step: "detach_bits ts n mem cur 0 = detach_bits (ts - 8) (n OR w) mem (cur + 1) 0"
      using True less.prems cur w(1) by (simp add: detach_bits.simps [of ts])
    show ?thesis
    proof (cases "ts - 8 > - 8")
      case False
      with True have ts: "ts = 0" by simp
      have "detach_bits ts n mem cur 0 = Some (n OR w, cur + 1)" using step ts by (simp add: detach_bits.simps [of "- 8"])
      moreover have "nat ((8 * int cur + ts + 8) div 8) = cur + 1" using ts by simp
      ultimately show ?thesis using w' ts by (simp add: bit_or_iff)
    next
      case ts8: True
      obtain n' where n': "detach_bits (ts - 8) (n OR w) mem (cur + 1) 0 = Some (n', nat ((8 * int (cur + 1) + (ts - 8) + 8) div 8))"
        "\<And>j. bit n' j \<longleftrightarrow> bit (n OR w) j \<or> (int j \<le> ts - 8 + 7 \<and> mbit mem (nat (8 * int (cur + 1) + (ts - 8) + 7 - int j)))"
      proof -
        have "nat (ts - 8 + 8) < nat (ts + 8)" "ts - 8 \<le> 23" "8 * int (cur + 1) + (ts - 8) + 7 < 8 * int (length mem)"
          using True less.prems by simp_all
        from less.hyps [OF this(1) ts8 this(2,3), of "n OR w"] show thesis using that by blast
      qed
      have e: "8 * int (cur + 1) + (ts - 8) + x = 8 * int cur + ts + x" for x by simp
      have "bit n' j \<longleftrightarrow> bit n j \<or> (int j \<le> ts + 7 \<and> mbit mem (nat (8 * int cur + ts + 7 - int j)))" for j
        unfolding n'(2) e bit_or_iff w' by (cases "ts \<le> int j") auto
      with n'(1) show ?thesis unfolding step e by blast
    qed
  qed
qed

lemma masked_byte_bits:
  assumes "cur < length mem" "pre < 8"
  shows "bit (if pre \<noteq> 0 then mem ! cur AND drop_bit pre 0xFF else mem ! cur) b \<longleftrightarrow>
     b < 8 - pre \<and> mbit mem (8 * cur + (7 - b))"
  using assms by (auto simp: bit_simps low_byte_mask bit_byte)

text \<open>
  A field of \<open>i\<close> bits, at most 32, that begins \<open>pre\<close> bits into the byte at the cursor, is read
  back exactly. Below 32 bits the value has no other bits; at 32 bits the sign extension may
  set the upper half.
\<close>

lemma detach_bits_spec:
  assumes "0 < i" "i \<le> 32" "pre < 8" "8 * cur + pre + i \<le> 8 * length mem"
  shows "\<exists>n. detach_bits (int i + int pre - 8) 0 mem cur pre = Some (n, (8 * cur + pre + i) div 8) \<and>
     (\<forall>j < i. bit n j = mbit mem (8 * cur + pre + i - 1 - j)) \<and> (i < 32 \<longrightarrow> (\<forall>j \<ge> i. \<not> bit n j))"
proof -
  define ts where "ts = int i + int pre - 8"
  define sp where "sp = (if pre \<noteq> 0 then mem ! cur AND drop_bit pre 0xFF else mem ! cur)"
  have ts: "ts > - 8" "ts \<le> 31" "ts < int i" using assms by (auto simp: ts_def)
  have cur: "cur < length mem" using assms by linarith
  have sp: "bit sp b \<longleftrightarrow> b < 8 - pre \<and> mbit mem (8 * cur + (7 - b))" for b
    unfolding sp_def using cur assms(3) by (rule masked_byte_bits)
  show ?thesis
  proof (cases "ts \<ge> 0")
    case False
    define n where "n = (ucast (drop_bit (nat (- ts)) sp) :: u64)"
    have "detach_bits ts 0 mem cur pre = Some (n, cur)"
      using False ts cur by (simp add: detach_bits.simps [of ts] detach_bits.simps [of "ts - 8"] n_def sp_def Let_def)
    moreover have "(8 * cur + pre + i) div 8 = cur" using False by (simp add: ts_def)
    moreover have b: "bit n j \<longleftrightarrow> nat (- ts) + j < 8 - pre \<and> mbit mem (8 * cur + (7 - (nat (- ts) + j)))" for j
      by (auto simp: n_def bit_unsigned_iff bit_drop_bit_eq sp)
    moreover have "nat (- ts) + j < 8 - pre \<longleftrightarrow> j < i" for j using False by (auto simp: ts_def)
    moreover have "8 * cur + (7 - (nat (- ts) + j)) = 8 * cur + pre + i - 1 - j" if "j < i" for j
      using that False by (auto simp: ts_def)
    ultimately show ?thesis unfolding ts_def [symmetric] by auto
  next
    case True
    then have "nat ts < 32" using ts by linarith
    then obtain w where w: "shl_int sp (nat ts) = Some w"
      "\<And>j. bit w j \<longleftrightarrow> j < 64 \<and> nat ts \<le> min 31 j \<and> bit sp (min 31 j - nat ts)"
      by (rule shl_int_bits [of _ sp]) blast
    have step: "detach_bits ts 0 mem cur pre = detach_bits (ts - 8) w mem (cur + 1) 0"
      using True ts cur w(1) by (simp add: detach_bits.simps [of ts] sp_def Let_def)
    have wlo: "bit w j \<longleftrightarrow> ts \<le> int j \<and> mbit mem (8 * cur + pre + i - 1 - j)" if "j < i" for j
    proof -
      have "min 31 j = j" "j < 64" using that assms by simp_all
      then have "bit w j \<longleftrightarrow> nat ts \<le> j \<and> bit sp (j - nat ts)" by (simp add: w(2))
      moreover have "8 * cur + (7 - (j - nat ts)) = 8 * cur + pre + i - 1 - j" if "nat ts \<le> j"
        using that \<open>j < i\<close> True unfolding ts_def by linarith
      then have "bit sp (j - nat ts) \<longleftrightarrow> mbit mem (8 * cur + pre + i - 1 - j)" if "nat ts \<le> j"
        using that \<open>j < i\<close> True assms(3) unfolding sp by (auto simp: ts_def)
      moreover have "nat ts \<le> j \<longleftrightarrow> ts \<le> int j" using True by linarith
      ultimately show ?thesis by blast
    qed
    have whi: "\<not> bit w j" if "i \<le> j" "i < 32" for j
    proof -
      have "\<not> min 31 j - nat ts < 8 - pre" using that True by (auto simp: ts_def min_def)
      then show ?thesis by (simp add: w(2) sp)
    qed
    show ?thesis
    proof (cases "ts - 8 > - 8")
      case False
      with True have z: "ts = 0" by simp
      have "detach_bits ts 0 mem cur pre = Some (w, cur + 1)" using step z by (simp add: detach_bits.simps [of "- 8"])
      moreover have "(8 * cur + pre + i) div 8 = cur + 1" using z by (simp add: ts_def)
      ultimately show ?thesis unfolding ts_def [symmetric] using wlo whi z by auto
    next
      case ts8: True
      obtain n where n: "detach_bits (ts - 8) w mem (cur + 1) 0 = Some (n, nat ((8 * int (cur + 1) + (ts - 8) + 8) div 8))"
        "\<And>j. bit n j \<longleftrightarrow> bit w j \<or> (int j \<le> ts - 8 + 7 \<and> mbit mem (nat (8 * int (cur + 1) + (ts - 8) + 7 - int j)))"
        using detach_bits_tail [of "ts - 8" "cur + 1" mem w] ts8 ts assms(4) by (auto simp: ts_def)
      have "nat ((8 * int (cur + 1) + (ts - 8) + 8) div 8) = (8 * cur + pre + i) div 8"
        by (simp add: ts_def nat_div_distrib' nat_div_distrib)
      moreover have "nat (8 * int (cur + 1) + (ts - 8) + 7 - int j) = 8 * cur + pre + i - 1 - j" for j
        by (simp add: ts_def)
      ultimately show ?thesis unfolding ts_def [symmetric] step using n wlo whi ts(3) by auto
    qed
  qed
qed


section \<open>Fields and strings at a bit position\<close>

definition field_at :: "u8 list \<Rightarrow> nat \<Rightarrow> nat \<Rightarrow> u64 \<Rightarrow> bool" where
  "field_at mem P i n \<longleftrightarrow> P + i \<le> 8 * length mem \<and> (\<forall>j < i. bit n j = mbit mem (P + i - 1 - j))"

fun str_at :: "u8 list \<Rightarrow> nat \<Rightarrow> u8 list \<Rightarrow> bool" where
  "str_at mem P [] = True"
| "str_at mem P (b # bs) = (field_at mem P 8 (ucast b) \<and> str_at mem (P + 8) bs)"

text \<open>\<open>same_bits mem mem' a b\<close>: the packets agree on the positions from \<open>a\<close> up to \<open>b\<close>.\<close>

definition same_bits :: "u8 list \<Rightarrow> u8 list \<Rightarrow> nat \<Rightarrow> nat \<Rightarrow> bool" where
  "same_bits mem mem' a b \<longleftrightarrow> length mem' = length mem \<and> (\<forall>k. a \<le> k \<and> k < b \<longrightarrow> mbit mem' k = mbit mem k)"

definition zero_bits :: "u8 list \<Rightarrow> nat \<Rightarrow> bool" where
  "zero_bits mem a \<longleftrightarrow> (\<forall>k \<ge> a. \<not> mbit mem k)"

lemma same_bits_refl: "same_bits m m a b"
  by (simp add: same_bits_def)

lemma same_bits_trans: "same_bits m m' a b \<Longrightarrow> same_bits m' m'' a b \<Longrightarrow> same_bits m m'' a b"
  by (simp add: same_bits_def)

lemma same_bits_mono: "same_bits m m' a b \<Longrightarrow> a \<le> a' \<Longrightarrow> b' \<le> b \<Longrightarrow> same_bits m m' a' b'"
  by (auto simp: same_bits_def)

lemma same_bits_length: "same_bits m m' a b \<Longrightarrow> length m' = length m"
  by (simp add: same_bits_def)

lemma zero_bits_mono: "zero_bits m a \<Longrightarrow> a \<le> b \<Longrightarrow> zero_bits m b"
  by (simp add: zero_bits_def)

lemma field_at_same:
  assumes "same_bits m m' a b" "a \<le> P" "P + i \<le> b"
  shows "field_at m' P i n = field_at m P i n"
proof -
  have "mbit m' (P + i - 1 - j) = mbit m (P + i - 1 - j)" if "j < i" for j
  proof -
    have "a \<le> P + i - 1 - j" "P + i - 1 - j < b" using assms(2,3) that by linarith+
    then show ?thesis using assms(1) unfolding same_bits_def by blast
  qed
  then show ?thesis using assms(1) by (simp add: field_at_def same_bits_def)
qed

lemma str_at_same:
  "same_bits m m' a b \<Longrightarrow> a \<le> P \<Longrightarrow> P + 8 * length bs \<le> b \<Longrightarrow> str_at m' P bs = str_at m P bs"
proof (induction bs arbitrary: P)
  case (Cons c bs)
  have "field_at m' P 8 (ucast c) = field_at m P 8 (ucast c)"
    using Cons.prems by (intro field_at_same) auto
  moreover have "str_at m' (P + 8) bs = str_at m (P + 8) bs" using Cons.prems by (intro Cons.IH) auto
  ultimately show ?case by simp
qed simp

lemma str_at_bound: "str_at mem P bs \<Longrightarrow> P \<le> 8 * length mem \<Longrightarrow> P + 8 * length bs \<le> 8 * length mem"
proof (induction bs arbitrary: P)
  case (Cons c bs)
  then have "P + 8 \<le> 8 * length mem" "str_at mem (P + 8) bs" by (simp_all add: field_at_def)
  then show ?case using Cons.IH [of "P + 8"] by simp
qed simp

lemma fits_bits: "take_bit i n = n \<Longrightarrow> i \<le> j \<Longrightarrow> \<not> bit (n :: 'a::len word) j"
  by (metis bit_take_bit_iff not_le)

text \<open>Writing a field that fits into zero bits, and reading it back.\<close>

lemma append_field_or:
  assumes "0 < i" "i \<le> 64" "P = 8 * cur + pre" "pre < 8" "P + i \<le> 8 * length mem"
    and fits: "\<And>j. i \<le> j \<Longrightarrow> \<not> bit n j"
  shows "\<exists>mem'. append_bits (int i - (8 - int pre)) n mem cur = Some (mem', (P + i) div 8) \<and>
     length mem' = length mem \<and>
     (\<forall>k. mbit mem' k \<longleftrightarrow> mbit mem k \<or> (P \<le> k \<and> k < P + i \<and> bit n (P + i - 1 - k)))"
proof -
  define ts where "ts = int i - (8 - int pre)"
  have "- 8 < ts" "ts < 64" "8 * int cur + ts + 7 < 8 * int (length mem)" using assms(1-5) unfolding ts_def by linarith+
  then obtain mem' where a: "append_bits ts n mem cur = Some (mem', nat ((8 * int cur + ts + 8) div 8))"
    and len: "length mem' = length mem"
    and b: "\<And>k. mbit mem' k \<longleftrightarrow> mbit mem k \<or>
        (8 * cur \<le> k \<and> int k \<le> 8 * int cur + ts + 7 \<and> bit n (nat (8 * int cur + ts + 7 - int k)))"
    using append_bits_spec by blast
  have e: "8 * int cur + ts + 7 = int (P + i - 1)" using assms(1,3) unfolding ts_def by linarith
  have c: "nat ((8 * int cur + ts + 8) div 8) = (P + i) div 8"
  proof -
    have "8 * int cur + ts + 8 = int (P + i)" using assms(1,3) unfolding ts_def by linarith
    then show ?thesis by (simp only: nat_int zdiv_int [of _ 8, symmetric, simplified])
  qed
  have "mbit mem' k \<longleftrightarrow> mbit mem k \<or> (P \<le> k \<and> k < P + i \<and> bit n (P + i - 1 - k))" for k
  proof -
    have n: "nat (int (P + i - 1) - int k) = P + i - 1 - k" by linarith
    have "P \<le> k" if "8 * cur \<le> k" "k \<le> P + i - 1" "bit n (P + i - 1 - k)"
    proof (rule ccontr)
      assume "\<not> P \<le> k"
      then have "i \<le> P + i - 1 - k" using assms(1) by linarith
      then show False using fits that(3) by blast
    qed
    moreover have "8 * cur \<le> P" using assms(3) by simp
    ultimately show ?thesis unfolding b e n using assms(1) by auto
  qed
  then show ?thesis using a c len unfolding ts_def [symmetric] by auto
qed

lemma field_at_written:
  assumes "P + i \<le> 8 * length mem" "\<And>k. P \<le> k \<Longrightarrow> k < P + i \<Longrightarrow> \<not> mbit mem k"
    and "length mem' = length mem"
    and b: "\<And>k. mbit mem' k \<longleftrightarrow> mbit mem k \<or> (P \<le> k \<and> k < P + i \<and> bit n (P + i - 1 - k))"
  shows "field_at mem' P i n"
  unfolding field_at_def
proof (intro conjI allI impI)
  fix j assume j: "j < i"
  then have "P \<le> P + i - 1 - j" "P + i - 1 - j < P + i" "P + i - 1 - (P + i - 1 - j) = j" by linarith+
  then show "bit n j = mbit mem' (P + i - 1 - j)" using assms(2) unfolding b by simp
qed (use assms(1,3) in simp)

lemma append_field:
  assumes "0 < i" "i \<le> 64" "P = 8 * cur + pre" "pre < 8" "P + i \<le> 8 * length mem" "zero_bits mem P"
    and fits: "\<And>j. i \<le> j \<Longrightarrow> \<not> bit n j"
  shows "\<exists>mem'. append_bits (int i - (8 - int pre)) n mem cur = Some (mem', (P + i) div 8) \<and>
     same_bits mem mem' 0 P \<and> zero_bits mem' (P + i) \<and> field_at mem' P i n"
proof -
  obtain mem' where a: "append_bits (int i - (8 - int pre)) n mem cur = Some (mem', (P + i) div 8)"
    and len: "length mem' = length mem"
    and b: "\<And>k. mbit mem' k \<longleftrightarrow> mbit mem k \<or> (P \<le> k \<and> k < P + i \<and> bit n (P + i - 1 - k))"
    using append_field_or [OF assms(1-5) fits] by blast
  have "field_at mem' P i n" using assms(5,6) len b by (intro field_at_written) (auto simp: zero_bits_def)
  moreover have "same_bits mem mem' 0 P" using len b by (auto simp: same_bits_def)
  moreover have "zero_bits mem' (P + i)" using assms(6) b by (auto simp: zero_bits_def)
  ultimately show ?thesis using a by blast
qed

text \<open>Filling a field that was left zero, in the middle of a packet.\<close>

lemma fill_field:
  assumes "0 < i" "i \<le> 64" "P = 8 * cur + pre" "pre < 8" "field_at mem P i 0"
    and fits: "\<And>j. i \<le> j \<Longrightarrow> \<not> bit n j"
  shows "\<exists>mem'. append_bits (int i - (8 - int pre)) n mem cur = Some (mem', (P + i) div 8) \<and>
     same_bits mem mem' 0 P \<and> same_bits mem mem' (P + i) (8 * length mem) \<and> field_at mem' P i n"
proof -
  have P: "P + i \<le> 8 * length mem" using assms(5) by (simp add: field_at_def)
  obtain mem' where a: "append_bits (int i - (8 - int pre)) n mem cur = Some (mem', (P + i) div 8)"
    and len: "length mem' = length mem"
    and b: "\<And>k. mbit mem' k \<longleftrightarrow> mbit mem k \<or> (P \<le> k \<and> k < P + i \<and> bit n (P + i - 1 - k))"
    using append_field_or [OF assms(1-4) P fits] by blast
  have "\<not> mbit mem k" if "P \<le> k" "k < P + i" for k
  proof -
    have "P + i - 1 - k < i" "P + i - 1 - (P + i - 1 - k) = k" using that assms(1) by linarith+
    then show ?thesis using assms(5) unfolding field_at_def by (metis bit_0_eq bot_apply bot_bool_def)
  qed
  then have "field_at mem' P i n" using P len b by (intro field_at_written) auto
  moreover have "same_bits mem mem' 0 P" "same_bits mem mem' (P + i) (8 * length mem)"
    using len b by (auto simp: same_bits_def)
  ultimately show ?thesis using a by blast
qed

lemma detach_field:
  assumes "0 < i" "i \<le> 32" "P = 8 * cur + pre" "pre < 8" "field_at mem P i n"
  shows "\<exists>m. detach_bits (int i + int pre - 8) 0 mem cur pre = Some (m, (P + i) div 8) \<and>
     (\<forall>j < i. bit m j = bit n j) \<and> (i < 32 \<longrightarrow> (\<forall>j \<ge> i. \<not> bit m j))"
  using detach_bits_spec [of i pre cur mem] assms by (auto simp: field_at_def)

lemma detach_field_value:
  assumes "0 < i" "i \<le> 31" "P = 8 * cur + pre" "pre < 8" "field_at mem P i n" and "\<And>j. i \<le> j \<Longrightarrow> \<not> bit n j"
  shows "detach_bits (int i + int pre - 8) 0 mem cur pre = Some (n, (P + i) div 8)"
proof -
  obtain m where m: "detach_bits (int i + int pre - 8) 0 mem cur pre = Some (m, (P + i) div 8)"
    "\<forall>j < i. bit m j = bit n j" "\<forall>j \<ge> i. \<not> bit m j"
    using detach_field [of i P cur pre mem n] assms by auto
  have "m = n" by (rule bit_word_eqI) (use m assms(6) in \<open>metis not_le\<close>)
  with m show ?thesis by simp
qed

lemma ucast_u64_id [simp]:
  "ucast (ucast (c :: u8) :: u64) = c" "ucast (ucast (h :: u16) :: u64) = h" "ucast (ucast (w :: u32) :: u64) = w"
  by (rule bit_word_eqI, simp add: bit_simps)+

lemma pos_advance_byte: "8 * ((8 * cur + b mod 8 + 8) div 8) + (b + 8) mod 8 = 8 * cur + b mod 8 + (8::nat)"
proof -
  have "b mod 8 < 8" by simp
  then have "(8 * cur + b mod 8 + 8) div 8 = cur + 1" by linarith
  then show ?thesis by simp
qed

lemma append_str_spec:
  assumes "zero_bits mem (8 * cur + bit_size mod 8)" "8 * cur + bit_size mod 8 + 8 * length src \<le> 8 * length mem"
  shows "\<exists>mem'. append_str mem cur bit_size (src @ rest) (length src) =
       Some (mem', (8 * cur + bit_size mod 8 + 8 * length src) div 8, bit_size + 8 * length src) \<and>
     same_bits mem mem' 0 (8 * cur + bit_size mod 8) \<and>
     zero_bits mem' (8 * cur + bit_size mod 8 + 8 * length src) \<and> str_at mem' (8 * cur + bit_size mod 8) src"
  using assms
proof (induction src arbitrary: mem cur bit_size)
  case Nil
  have "(8 * cur + bit_size mod 8) div 8 = cur" by simp
  then show ?case using Nil by (simp add: same_bits_refl)
next
  case (Cons c src)
  define P where "P = 8 * cur + bit_size mod 8"
  have "\<not> bit (ucast c :: u64) j" if "8 \<le> j" for j using that bit_imp_le_length [of c j] by (auto simp: bit_unsigned_iff)
  then obtain m1 where a: "append_bits (int (bit_size mod 8)) (ucast c) mem cur = Some (m1, (P + 8) div 8)"
    and m1: "same_bits mem m1 0 P" "zero_bits m1 (P + 8)" "field_at m1 P 8 (ucast c)"
    using append_field [of 8 P cur "bit_size mod 8" mem "ucast c"] Cons.prems P_def by auto
  have P8: "8 * ((P + 8) div 8) + (bit_size + 8) mod 8 = P + 8"
    unfolding P_def by (rule pos_advance_byte)
  have len: "length m1 = length mem" using m1(1) by (rule same_bits_length)
  obtain m2 where m2: "append_str m1 ((P + 8) div 8) (bit_size + 8) (src @ rest) (length src) =
       Some (m2, (P + 8 + 8 * length src) div 8, bit_size + 8 + 8 * length src)"
     "same_bits m1 m2 0 (P + 8)" "zero_bits m2 (P + 8 + 8 * length src)" "str_at m2 (P + 8) src"
    using Cons.IH [of m1 "(P + 8) div 8" "bit_size + 8", unfolded P8] m1(2) Cons.prems(2) len P_def by auto
  have "same_bits mem m2 0 P" using m1(1) same_bits_mono [OF m2(2), of 0 P] by (auto intro: same_bits_trans)
  moreover have "field_at m2 P 8 (ucast c)" using m1(3) field_at_same [OF m2(2), of P 8] by simp
  ultimately show ?case using a m2 unfolding P_def [symmetric] by (simp add: algebra_simps)
qed

lemma detach_str_spec:
  assumes "str_at mem (8 * cur + bit_size mod 8) bs"
  shows "detach_str mem cur bit_size (length bs) =
     Some (bs, (8 * cur + bit_size mod 8 + 8 * length bs) div 8, bit_size + 8 * length bs)"
  using assms
proof (induction bs arbitrary: cur bit_size)
  case Nil
  have "(8 * cur + bit_size mod 8) div 8 = cur" by simp
  then show ?case by simp
next
  case (Cons c bs)
  define P where "P = 8 * cur + bit_size mod 8"
  have "\<not> bit (ucast c :: u64) j" if "8 \<le> j" for j using that bit_imp_le_length [of c j] by (auto simp: bit_unsigned_iff)
  then have a: "detach_bits (int (bit_size mod 8)) 0 mem cur (bit_size mod 8) = Some (ucast c, (P + 8) div 8)"
    using detach_field_value [of 8 P cur "bit_size mod 8" mem "ucast c"] Cons.prems P_def by auto
  have P8: "8 * ((P + 8) div 8) + (bit_size + 8) mod 8 = P + 8"
    unfolding P_def by (rule pos_advance_byte)
  have "detach_str mem ((P + 8) div 8) (bit_size + 8) (length bs) =
     Some (bs, (P + 8 + 8 * length bs) div 8, bit_size + 8 + 8 * length bs)"
    using Cons.IH [of "(P + 8) div 8" "bit_size + 8", unfolded P8] Cons.prems P_def by simp
  then show ?case using a unfolding P_def [symmetric] by (simp add: algebra_simps)
qed


section \<open>Widths and byte arrays\<close>

lemma bytes_len_Some_iff:
  assumes "0 < n" "n \<le> 2 ^ 63"
  shows "bytes_len n = Some k \<longleftrightarrow> k < 64 \<and> n \<le> 2 ^ k \<and> (\<forall>i < k. 2 ^ i < n)"
proof -
  have n: "(of_nat n :: u64) - 1 = of_nat (n - 1)" using assms by simp
  have "n - 1 < 2 ^ 64" using assms by simp
  then have u: "unat (of_nat (n - 1) :: u64) = n - 1" by (intro unat_of_nat_small) simp
  have z: "drop_bit i ((of_nat n :: u64) - 1) = 0 \<longleftrightarrow> n \<le> 2 ^ i" for i
  proof -
    have "drop_bit i ((of_nat n :: u64) - 1) = 0 \<longleftrightarrow> unat (drop_bit i (of_nat (n - 1) :: u64)) = 0"
      unfolding n by (rule unat_eq_zero [symmetric])
    also have "\<dots> \<longleftrightarrow> (n - 1) div 2 ^ i = 0" by (simp only: unat_drop_bit_eq u) (simp only: drop_bit_eq_div)
    also have "\<dots> \<longleftrightarrow> n \<le> 2 ^ i" using assms(1) by (auto simp: div_eq_0_iff)
    finally show ?thesis .
  qed
  show ?thesis unfolding bytes_len_def first_from_Some_iff z by (auto simp: not_le)
qed

text \<open>The widths by which the codec chooses the C type of a member.\<close>

lemma bytes_len_widths:
  "0 < n \<Longrightarrow> n \<le> 8 \<Longrightarrow> \<exists>k \<le> 3. bytes_len n = Some k"
  "8 < n \<Longrightarrow> n \<le> 16 \<Longrightarrow> bytes_len n = Some 4"
  "16 < n \<Longrightarrow> n \<le> 32 \<Longrightarrow> bytes_len n = Some 5"
  "32 < n \<Longrightarrow> n \<le> 64 \<Longrightarrow> bytes_len n = Some 6"
proof -
  show "\<exists>k \<le> 3. bytes_len n = Some k" if "0 < n" "n \<le> 8"
  proof -
    have "n \<le> 2 ^ (3 :: nat)" using that by simp
    define k where "k = (LEAST k. n \<le> 2 ^ k)"
    have k: "n \<le> 2 ^ k" unfolding k_def by (rule LeastI) fact
    have l: "k \<le> 3" unfolding k_def by (rule Least_le) fact
    have m: "\<forall>i < k. 2 ^ i < n" using not_less_Least [of _ "\<lambda>k. n \<le> 2 ^ k"] unfolding k_def by (auto simp: not_le)
    have "bytes_len n = Some k" using k l m that by (subst bytes_len_Some_iff) auto
    then show ?thesis using l by blast
  qed
  have lt: "2 ^ i < n" if "i < Suc k" "2 ^ k < n" for i k
  proof -
    have "2 ^ i \<le> (2 ^ k :: nat)" using that(1) by (intro power_increasing) auto
    then show ?thesis using that(2) by linarith
  qed
  show "bytes_len n = Some 4" if "8 < n" "n \<le> 16"
    using that lt [of _ 3] by (subst bytes_len_Some_iff) auto
  show "bytes_len n = Some 5" if "16 < n" "n \<le> 32"
    using that lt [of _ 4] by (subst bytes_len_Some_iff) auto
  show "bytes_len n = Some 6" if "32 < n" "n \<le> 64"
    using that lt [of _ 5] by (subst bytes_len_Some_iff) auto
qed

lemma is_equal_iff:
  "sz \<le> length a \<Longrightarrow> sz \<le> length b \<Longrightarrow> is_equal a b sz \<longleftrightarrow> take sz a = take sz b"
  by (auto simp: is_equal_def first_from_None_iff list_eq_iff_nth_eq)

end
