(* ===== verification/Santilizer.thy ===== *)
theory Santilizer
  imports Bits Buffer Crc
begin

text \<open>
  The packet codec of src/src/ld_santilizer.c and src/include/ld_santilizer.h: a descriptor
  (\<open>field_desc\<close>) drives \<open>out_struct\<close>, which packs the members of a struct into a bit stream, and
  \<open>in_struct\<close>, which unpacks them again.

  A packed C struct is the list of its members (\<open>slot\<close>); the walking pointers \<open>inp\<close> and \<open>outp\<close>
  are indices into it. A read or write with a width other than the member's is \<open>None\<close>. The
  packet memory is a byte list, every pointer into it an index. The loop variables of the two C
  functions are the fields of \<open>out_state\<close> and \<open>in_state\<close>. \<open>time(NULL)\<close> is the argument \<open>now\<close>.
\<close>

section \<open>Descriptors, members and streams\<close>

datatype field_type =
    ft_mbz | ft_set | ft_enum | ft_plen | ft_p_raw | ft_slen | ft_fix | ft_sqn | ft_mac | ft_time
  | ft_dl_str | ft_fl_str | ft_pad | ft_crc | ft_end

text \<open>The chain of value ranges of an enumeration, as a list; NULL is the empty list.\<close>

record enum_range =
  en_first :: u64
  en_last :: u64
  en_names :: "string option list"

datatype fix_type = NUMBER | STRING

record fix_desc_t =
  fix_kind :: fix_type
  fix_num :: u64
  fix_str :: "u8 list"

text \<open>What the untyped \<open>desc\<close> pointer of a field can point to.\<close>

datatype fd_info =
    No_Desc | Enum_Desc "enum_range list" | Fix_Desc fix_desc_t | Len_Desc nat | Raw_Desc nat

record field_desc =
  fd_type :: field_type
  fd_size :: nat
  fd_name :: string
  fd_desc :: fd_info

record struct_desc_t =
  sd_name :: string
  sd_fields :: "field_desc list"

datatype slot = U8 u8 | U16 u16 | U32 u32 | U64 u64 | BufPtr "buffer_t option"

record pb_stream =
  pbs_desc :: "struct_desc_t option"
  pbs_name :: string
  pbs_start :: "nat option"
  pbs_cur :: nat
  pbs_roof :: nat
  slen_fld :: "nat option"
  plen_fld :: "nat option"
  crc_fld :: "nat option"
  pld_fld :: "nat option"
  slento_shift :: int
  plento_shift :: int
  crc_size :: nat
  bitsize :: nat

definition init_pbs :: "nat option \<Rightarrow> nat \<Rightarrow> string \<Rightarrow> pb_stream option" where
  "init_pbs start n name =
     map_option (\<lambda>s. \<lparr>pbs_desc = None, pbs_name = name, pbs_start = Some s, pbs_cur = s, pbs_roof = s + n,
        slen_fld = None, plen_fld = None, crc_fld = None, pld_fld = None,
        slento_shift = 0, plento_shift = 0, crc_size = 0, bitsize = 0\<rparr>) start"

text \<open>\<open>pbs_offset\<close>: the bytes between start and cursor, as an unsigned difference.\<close>

definition pbs_offset :: "pb_stream \<Rightarrow> u64 option" where
  "pbs_offset pbs = map_option (\<lambda>s. of_nat (pbs_cur pbs) - of_nat s) (pbs_start pbs)"

fun field_sizes :: "field_desc list \<Rightarrow> nat option" where
  "field_sizes [] = None"
| "field_sizes (fp # fps) =
     (if fd_type fp = ft_end then Some 0 else map_option (\<lambda>n. fd_size fp + n) (field_sizes fps))"

definition ret_len :: "field_desc list \<Rightarrow> nat option" where
  "ret_len fd = field_sizes fd"

definition sizeof_struct :: "field_desc list \<Rightarrow> nat option" where
  "sizeof_struct fd = map_option (\<lambda>ret. if ret mod 8 = 0 then ret div 8 else ret div 8 + 1) (field_sizes fd)"

fun enum_name_default :: "enum_range list \<Rightarrow> u64 \<Rightarrow> string option \<Rightarrow> string option option" where
  "enum_name_default [] val def = Some def"
| "enum_name_default (p # ps) val def =
     (if en_first p \<le> val \<and> val \<le> en_last p then
        let k = unat (val - en_first p) in
        if k < length (en_names p) then Some (en_names p ! k) else None
      else enum_name_default ps val def)"

definition enum_name :: "enum_range list \<Rightarrow> u64 \<Rightarrow> string option option" where
  "enum_name ed val = enum_name_default ed val None"

fun dec_digits :: "nat \<Rightarrow> string" where
  "dec_digits n =
     (if n < 10 then [char_of (48 + n)] else dec_digits (n div 10) @ [char_of (48 + n mod 10)])"

declare dec_digits.simps [simp del]

definition enum_show :: "enum_range list \<Rightarrow> u64 \<Rightarrow> string option" where
  "enum_show ed val =
     map_option (\<lambda>p. case p of Some s \<Rightarrow> s | None \<Rightarrow> take 11 (dec_digits (unat val) @ ''??'')) (enum_name ed val)"


section \<open>Members of the struct\<close>

text \<open>
  The switch on \<open>bytes_len\<close>: the width of the member that a field of \<open>i\<close> bits is stored in.
  Above 64 bits no member is touched.
\<close>

fun load_slot :: "nat \<Rightarrow> slot \<Rightarrow> u64 option" where
  "load_slot k (U8 v) = (if k \<le> 3 then Some (ucast v) else None)"
| "load_slot k (U16 v) = (if k = 4 then Some (ucast v) else None)"
| "load_slot k (U32 v) = (if k = 5 then Some (ucast v) else None)"
| "load_slot k (U64 v) = (if k = 6 then Some v else None)"
| "load_slot k (BufPtr b) = None"

fun store_slot :: "nat \<Rightarrow> u64 \<Rightarrow> slot \<Rightarrow> slot option" where
  "store_slot k n (U8 v) = (if k \<le> 3 then Some (U8 (ucast n)) else None)"
| "store_slot k n (U16 v) = (if k = 4 then Some (U16 (ucast n)) else None)"
| "store_slot k n (U32 v) = (if k = 5 then Some (U32 (ucast n)) else None)"
| "store_slot k n (U64 v) = (if k = 6 then Some (U64 n) else None)"
| "store_slot k n (BufPtr b) = None"

definition slot_at :: "slot list \<Rightarrow> nat \<Rightarrow> slot option" where
  "slot_at s p = (if p < length s then Some (s ! p) else None)"

fun slot_buf :: "slot \<Rightarrow> buffer_t option option" where
  "slot_buf (BufPtr b) = Some b"
| "slot_buf _ = None"

definition numeric :: "field_type \<Rightarrow> bool" where
  "numeric t \<longleftrightarrow> t \<in> {ft_mbz, ft_enum, ft_slen, ft_plen, ft_fix, ft_time, ft_sqn, ft_set}"


section \<open>Writing\<close>

record out_state =
  o_mem :: "u8 list"
  o_cur :: nat
  o_inp :: nat
  o_outs :: pb_stream
  o_obj :: pb_stream
  o_pay :: "nat option"

text \<open>The final value of the shift counter that \<open>append_bits\<close> runs down.\<close>

function spent_shift :: "int \<Rightarrow> int" where
  "spent_shift t = (if t > - 8 then spent_shift (t - 8) else t)"
  by pat_completeness auto
termination
  by (relation "measure (\<lambda>t. nat (t + 8))") auto

declare spent_shift.simps [simp del]

text \<open>
  \<open>close_output_pbs\<close> fills in the length fields and the checksum. \<open>cont\<close> is the stream the
  \<open>container\<close> pointer refers to.
\<close>

definition close_slen :: "u8 list \<Rightarrow> pb_stream \<Rightarrow> (u8 list \<times> pb_stream) option" where
  "close_slen mem pbs =
     (case slen_fld pbs of
        None \<Rightarrow> Some (mem, pbs)
      | Some f \<Rightarrow> do {
          slen \<leftarrow> pbs_offset pbs;
          (mem, f) \<leftarrow> append_bits (slento_shift pbs) slen mem f;
          Some (mem, pbs\<lparr>slen_fld := Some f, slento_shift := spent_shift (slento_shift pbs)\<rparr>) })"

definition close_plen :: "u8 list \<Rightarrow> pb_stream \<Rightarrow> (u8 list \<times> pb_stream) option" where
  "close_plen mem pbs =
     (case plen_fld pbs of
        None \<Rightarrow> Some (mem, pbs)
      | Some f \<Rightarrow> do {
          plen \<leftarrow> pbs_offset pbs;
          (mem, f) \<leftarrow> append_bits (plento_shift pbs) plen mem f;
          Some (mem, pbs\<lparr>plen_fld := Some f, plento_shift := spent_shift (plento_shift pbs)\<rparr>) })"

definition crc32_bytes :: "u32 \<Rightarrow> u8 list" where
  "crc32_bytes crc = [ucast (drop_bit 24 crc), ucast (drop_bit 16 crc), ucast (drop_bit 8 crc), ucast crc]"

definition pbs_bytes :: "u8 list \<Rightarrow> pb_stream \<Rightarrow> nat \<Rightarrow> u8 list option" where
  "pbs_bytes mem pbs fin =
     (case pbs_start pbs of
        None \<Rightarrow> None
      | Some s \<Rightarrow> if s \<le> fin then mem_read mem s (fin - s) else None)"

definition close_crc :: "u8 list \<Rightarrow> pb_stream \<Rightarrow> (u8 list \<times> pb_stream) option" where
  "close_crc mem pbs =
     (case crc_fld pbs of
        None \<Rightarrow> Some (mem, pbs)
      | Some f \<Rightarrow>
          if crc_size pbs = 8 then do {
            d \<leftarrow> pbs_bytes mem pbs f;
            mem \<leftarrow> mem_write mem f [cal_crc_8bits d];
            Some (mem, pbs\<lparr>crc_fld := Some (f + 1)\<rparr>) }
          else if crc_size pbs = 32 then do {
            d \<leftarrow> pbs_bytes mem pbs f;
            mem \<leftarrow> mem_write mem f (crc32_bytes (cal_crc_32bits d));
            Some (mem, pbs\<lparr>crc_fld := Some (f + 4)\<rparr>) }
          else Some (mem, pbs))"

definition close_output_pbs ::
  "u8 list \<Rightarrow> pb_stream \<Rightarrow> pb_stream option \<Rightarrow> (u8 list \<times> pb_stream \<times> pb_stream option) option" where
  "close_output_pbs mem pbs cont = do {
     (mem, pbs) \<leftarrow> close_slen mem pbs;
     let cont = map_option (\<lambda>c. c\<lparr>pbs_cur := pbs_cur pbs\<rparr>) cont;
     (mem, pbs) \<leftarrow> close_plen mem pbs;
     (mem, pbs) \<leftarrow> close_crc mem pbs;
     Some (mem, pbs, cont) }"

text \<open>One field of the loop in \<open>out_struct\<close>; the Boolean is \<open>ugh == NULL\<close>.\<close>

definition out_load :: "slot list \<Rightarrow> nat \<Rightarrow> nat \<Rightarrow> (u64 \<times> nat) option" where
  "out_load src i p = do {
     k \<leftarrow> bytes_len i;
     (if k \<le> 6 then do { s \<leftarrow> slot_at src p; n \<leftarrow> load_slot k s; Some (n, p + 1) }
      else Some (0, p)) }"

definition out_num :: "u64 \<Rightarrow> slot list \<Rightarrow> field_desc \<Rightarrow> out_state \<Rightarrow> (bool \<times> out_state) option" where
  "out_num now src fp st = do {
     let i = fd_size fp;
     (n, p) \<leftarrow> out_load src i (o_inp st);
     let to_shift = int i - (8 - int (bitsize (o_outs st) mod 8));
     let st = st\<lparr>o_inp := p\<rparr>;
     (ok, n, st) \<leftarrow>
       (case fd_type fp of
          ft_enum \<Rightarrow> do {
            nm \<leftarrow> enum_name (case fd_desc fp of Enum_Desc ed \<Rightarrow> ed | _ \<Rightarrow> []) n;
            Some (nm \<noteq> None, n, st) }
        | ft_slen \<Rightarrow> Some (True, n, st\<lparr>o_obj := (o_obj st)\<lparr>slen_fld := Some (o_cur st), slento_shift := to_shift\<rparr>\<rparr>)
        | ft_plen \<Rightarrow> Some (True, n, st\<lparr>o_outs := (o_outs st)\<lparr>plen_fld := Some (o_cur st), plento_shift := to_shift\<rparr>\<rparr>)
        | ft_fix \<Rightarrow> (case fd_desc fp of Fix_Desc f \<Rightarrow> Some (True, fix_num f, st) | _ \<Rightarrow> None)
        | ft_time \<Rightarrow> Some (True, now, st)
        | _ \<Rightarrow> Some (True, n, st));
     (mem, cur) \<leftarrow> append_bits to_shift n (o_mem st) (o_cur st);
     Some (ok, st\<lparr>o_mem := mem, o_cur := cur, o_outs := (o_outs st)\<lparr>bitsize := bitsize (o_outs st) + i\<rparr>\<rparr>) }"

definition out_pad :: "out_state \<Rightarrow> out_state" where
  "out_pad st =
     (let cur = (if bitsize (o_outs st) mod 8 \<noteq> 0 then o_cur st + 1 else o_cur st) in
      st\<lparr>o_cur := cur, o_outs := (o_outs st)\<lparr>bitsize := 0\<rparr>, o_pay := Some cur\<rparr>)"

definition out_crc :: "field_desc \<Rightarrow> out_state \<Rightarrow> out_state" where
  "out_crc fp st =
     st\<lparr>o_outs := (o_outs st)\<lparr>crc_fld := Some (o_cur st), crc_size := fd_size fp\<rparr>,
        o_cur := o_cur st + fd_size fp div 8\<rparr>"

definition out_str :: "slot list \<Rightarrow> out_state \<Rightarrow> out_state option" where
  "out_str src st = do {
     s \<leftarrow> slot_at src (o_inp st);
     b \<leftarrow> slot_buf s;
     (case b of
        None \<Rightarrow> Some (st\<lparr>o_inp := o_inp st + 1\<rparr>)
      | Some b \<Rightarrow> do {
          (mem, cur, bs) \<leftarrow> append_str (o_mem st) (o_cur st) (bitsize (o_outs st)) (ptr_bytes (buf_ptr b)) (buf_len b);
          Some (st\<lparr>o_mem := mem, o_cur := cur, o_outs := (o_outs st)\<lparr>bitsize := bs\<rparr>, o_inp := o_inp st + 1\<rparr>) }) }"

definition out_field :: "u64 \<Rightarrow> slot list \<Rightarrow> field_desc \<Rightarrow> out_state \<Rightarrow> (bool \<times> out_state) option" where
  "out_field now src fp st =
     (if numeric (fd_type fp) then out_num now src fp st
      else if fd_type fp = ft_pad then Some (True, out_pad st)
      else if fd_type fp = ft_crc then Some (True, out_crc fp st)
      else if fd_type fp \<in> {ft_fl_str, ft_dl_str, ft_p_raw} then map_option (Pair True) (out_str src st)
      else None)"

fun out_loop :: "u64 \<Rightarrow> slot list \<Rightarrow> field_desc list \<Rightarrow> out_state \<Rightarrow> (bool \<times> out_state) option" where
  "out_loop now src [] st = None"
| "out_loop now src (fp # fps) st =
     (if fd_type fp = ft_end then Some (True, st)
      else do {
        (ok, st) \<leftarrow> out_field now src fp st;
        (if ok then out_loop now src fps st else Some (False, st)) })"

text \<open>The room test compares a pointer difference, converted to an unsigned value, with a size.\<close>

definition no_room :: "pb_stream \<Rightarrow> nat \<Rightarrow> bool" where
  "no_room pbs sz \<longleftrightarrow> pbs_cur pbs \<le> pbs_roof pbs \<and> pbs_roof pbs - pbs_cur pbs < sz"

text \<open>
  \<open>want_obj\<close> says whether the caller passes a sub-stream \<open>obj_pbs\<close>, which is then returned. The
  members of the local \<open>obj\<close> that C leaves uninitialised are never read.
\<close>

definition out_struct ::
  "u64 \<Rightarrow> slot list \<Rightarrow> struct_desc_t \<Rightarrow> u8 list \<Rightarrow> pb_stream \<Rightarrow> bool \<Rightarrow>
   (bool \<times> u8 list \<times> pb_stream \<times> pb_stream option) option" where
  "out_struct now src sd mem outs want_obj = do {
     sz \<leftarrow> sizeof_struct (sd_fields sd);
     (if no_room outs sz then Some (False, mem, outs, None)
      else do {
        let obj = outs\<lparr>slen_fld := None, plen_fld := None, crc_fld := None, pld_fld := None\<rparr>;
        (ok, st) \<leftarrow> out_loop now src (sd_fields sd)
           \<lparr>o_mem = mem, o_cur = pbs_cur outs, o_inp = 0, o_outs = outs, o_obj = obj, o_pay = None\<rparr>;
        let outs = o_outs st;
        (if \<not> ok then Some (False, o_mem st, outs, None)
         else do {
           let obj = (o_obj st)\<lparr>pbs_desc := Some sd, pbs_name := sd_name sd, pbs_start := o_pay st,
                        pbs_cur := o_cur st, pbs_roof := pbs_roof outs, bitsize := 0\<rparr>;
           (if want_obj then Some (True, o_mem st, outs\<lparr>pbs_cur := pbs_roof outs\<rparr>, Some obj)
            else do {
              (mem, obj, c) \<leftarrow> close_output_pbs (o_mem st) obj (Some outs);
              outs \<leftarrow> c;
              Some (True, mem, outs, None) }) }) }) }"

text \<open>\<open>calc_hmac\<close> is the cipher library's function: key, data and length to the tag bytes.\<close>

definition pb_out_mac ::
  "('k \<Rightarrow> u8 list \<Rightarrow> nat \<Rightarrow> u8 list) \<Rightarrow> 'k \<Rightarrow> u8 list \<Rightarrow> pb_stream \<Rightarrow> nat \<Rightarrow> (u8 list \<times> pb_stream) option" where
  "pb_out_mac calc_hmac key mem outs mac_len = do {
     d \<leftarrow> pbs_bytes mem outs (pbs_cur outs);
     mem \<leftarrow> mem_write mem (pbs_cur outs) (calc_hmac key d mac_len);
     Some (mem, outs\<lparr>pbs_cur := pbs_cur outs + mac_len\<rparr>) }"

definition gen_pdu :: "bool \<Rightarrow> u64 \<Rightarrow> slot list \<Rightarrow> struct_desc_t \<Rightarrow> string \<Rightarrow> buffer_t option" where
  "gen_pdu ok now objs desc name = do {
     let out_stream = replicate 4096 0;
     pbs \<leftarrow> init_pbs (Some 0) 4096 name;
     (_, mem, pbs, _) \<leftarrow> out_struct now objs desc out_stream pbs False;
     (mem, pbs, _) \<leftarrow> close_output_pbs mem pbs None;
     n \<leftarrow> pbs_offset pbs;
     clone_to_chunk ok init_buffer_unptr (Some mem) (unat n) }"


section \<open>Reading\<close>

record in_state =
  i_cur :: nat
  i_out :: "slot list"
  i_outp :: nat
  i_slen :: u64
  i_plen :: u64
  i_pay :: "nat option"
  i_ins :: pb_stream

definition in_store :: "u64 \<Rightarrow> nat \<Rightarrow> in_state \<Rightarrow> in_state option" where
  "in_store n i st = do {
     k \<leftarrow> bytes_len i;
     (if k \<le> 6 then do {
        s \<leftarrow> slot_at (i_out st) (i_outp st);
        s \<leftarrow> store_slot k n s;
        Some (st\<lparr>i_out := (i_out st)[i_outp st := s], i_outp := i_outp st + 1\<rparr>) }
      else Some st) }"

definition in_num :: "u8 list \<Rightarrow> field_desc \<Rightarrow> in_state \<Rightarrow> (bool \<times> in_state) option" where
  "in_num mem fp st = do {
     let i = fd_size fp;
     let pre = bitsize (i_ins st) mod 8;
     (n, cur) \<leftarrow> detach_bits (int i + int pre - 8) 0 mem (i_cur st) pre;
     st \<leftarrow> in_store n i (st\<lparr>i_cur := cur\<rparr>);
     (ok, st) \<leftarrow>
       (case fd_type fp of
          ft_enum \<Rightarrow> do {
            nm \<leftarrow> enum_name (case fd_desc fp of Enum_Desc ed \<Rightarrow> ed | _ \<Rightarrow> []) n;
            Some (nm \<noteq> None, st) }
        | ft_slen \<Rightarrow> Some (True, st\<lparr>i_slen := n\<rparr>)
        | ft_plen \<Rightarrow> Some (True, st\<lparr>i_plen := n\<rparr>)
        | ft_fix \<Rightarrow> (case fd_desc fp of Fix_Desc f \<Rightarrow> Some (n = fix_num f, st) | _ \<Rightarrow> None)
        | _ \<Rightarrow> Some (True, st));
     Some (ok, st\<lparr>i_ins := (i_ins st)\<lparr>bitsize := bitsize (i_ins st) + i\<rparr>\<rparr>) }"

definition in_pad :: "in_state \<Rightarrow> in_state" where
  "in_pad st =
     (let st = (if bitsize (i_ins st) mod 8 \<noteq> 0
                then st\<lparr>i_cur := i_cur st + 1, i_ins := (i_ins st)\<lparr>bitsize := 0\<rparr>\<rparr> else st)
      in st\<lparr>i_pay := Some (i_cur st)\<rparr>)"

text \<open>The four checksum bytes, added up after a left shift of each as an \<open>int\<close>.\<close>

definition be32 :: "u8 list \<Rightarrow> u32" where
  "be32 bs = foldl (\<lambda>v p. v + push_bit ((3 - p) * 8) (ucast (bs ! p))) 0 [0..<4]"

definition in_crc :: "u8 list \<Rightarrow> field_desc \<Rightarrow> in_state \<Rightarrow> (bool \<times> in_state) option" where
  "in_crc mem fp st = do {
     let cur = i_cur st;
     let st = st\<lparr>i_ins := (i_ins st)\<lparr>crc_fld := Some cur\<rparr>\<rparr>;
     (if fd_size fp = 8 then do {
        d \<leftarrow> pbs_bytes mem (i_ins st) cur;
        bs \<leftarrow> mem_read mem cur 1;
        Some (cal_crc_8bits d = bs ! 0, st\<lparr>i_cur := cur + 1\<rparr>) }
      else if fd_size fp = 32 then do {
        d \<leftarrow> pbs_bytes mem (i_ins st) cur;
        bs \<leftarrow> mem_read mem cur 4;
        Some (cal_crc_32bits d = be32 bs, st\<lparr>i_cur := cur + 4\<rparr>) }
      else Some (True, st)) }"

text \<open>\<open>temp\<close> is a stack array of 8192 bytes; a longer string is written past its end.\<close>

definition MAX_INPUT_BUFFER_SIZE :: nat where
  "MAX_INPUT_BUFFER_SIZE = 8192"

definition in_detach :: "u8 list \<Rightarrow> nat \<Rightarrow> in_state \<Rightarrow> (u8 list \<times> in_state) option" where
  "in_detach mem n st =
     (if n > MAX_INPUT_BUFFER_SIZE then None
      else do {
        (temp, cur, bs) \<leftarrow> detach_str mem (i_cur st) (bitsize (i_ins st)) n;
        Some (temp, st\<lparr>i_cur := cur, i_ins := (i_ins st)\<lparr>bitsize := bs\<rparr>\<rparr>) })"

definition in_put_buf :: "buffer_t \<Rightarrow> in_state \<Rightarrow> in_state" where
  "in_put_buf b st = st\<lparr>i_out := (i_out st)[i_outp st := BufPtr (Some b)], i_outp := i_outp st + 1\<rparr>"

definition in_fl_str :: "bool \<Rightarrow> u8 list \<Rightarrow> field_desc \<Rightarrow> in_state \<Rightarrow> in_state option" where
  "in_fl_str ok mem fp st = do {
     n \<leftarrow> (case fd_desc fp of Len_Desc n \<Rightarrow> Some n | _ \<Rightarrow> None);
     let b = init_buffer_ptr ok n;
     s \<leftarrow> slot_at (i_out st) (i_outp st);
     _ \<leftarrow> slot_buf s;
     (temp, st) \<leftarrow> in_detach mem (buf_free b) st;
     (b, _) \<leftarrow> cat_to_buffer ok b temp (buf_free b);
     Some (in_put_buf b st) }"

definition in_dl_str :: "bool \<Rightarrow> u8 list \<Rightarrow> in_state \<Rightarrow> in_state option" where
  "in_dl_str ok mem st = do {
     s \<leftarrow> slot_at (i_out st) (i_outp st);
     b \<leftarrow> slot_buf s;
     (case b of
        None \<Rightarrow> Some (st\<lparr>i_outp := i_outp st + 1\<rparr>)
      | Some b \<Rightarrow> do {
          (temp, st) \<leftarrow> in_detach mem (buf_free b) st;
          (b, _) \<leftarrow> cat_to_buffer ok b temp (buf_free b);
          Some (in_put_buf b st) }) }"

text \<open>The length of a raw payload is an unsigned difference and wraps around.\<close>

definition in_p_raw :: "bool \<Rightarrow> u8 list \<Rightarrow> field_desc \<Rightarrow> in_state \<Rightarrow> in_state option" where
  "in_p_raw ok mem fp st = do {
     let st = st\<lparr>i_ins := (i_ins st)\<lparr>pld_fld := Some (i_cur st)\<rparr>\<rparr>;
     start \<leftarrow> pbs_start (i_ins st);
     r \<leftarrow> (case fd_desc fp of Raw_Desc r \<Rightarrow> Some r | _ \<Rightarrow> None);
     let slen = i_plen st - (of_nat (i_cur st) - of_nat start) - of_nat (r div 8);
     s \<leftarrow> slot_at (i_out st) (i_outp st);
     _ \<leftarrow> slot_buf s;
     (temp, st) \<leftarrow> in_detach mem (unat slen) st;
     b \<leftarrow> clone_to_chunk ok init_buffer_unptr (Some temp) (unat slen);
     Some (in_put_buf b st) }"

text \<open>One field of the loop in \<open>in_struct\<close>; unknown field types are skipped.\<close>

definition in_field :: "bool \<Rightarrow> u8 list \<Rightarrow> field_desc \<Rightarrow> in_state \<Rightarrow> (bool \<times> in_state) option" where
  "in_field ok mem fp st =
     (if numeric (fd_type fp) then in_num mem fp st
      else if fd_type fp = ft_pad then Some (True, in_pad st)
      else if fd_type fp = ft_crc then in_crc mem fp st
      else if fd_type fp = ft_fl_str then map_option (Pair True) (in_fl_str ok mem fp st)
      else if fd_type fp = ft_dl_str then map_option (Pair True) (in_dl_str ok mem st)
      else if fd_type fp = ft_p_raw then map_option (Pair True) (in_p_raw ok mem fp st)
      else Some (True, st))"

fun in_loop :: "bool \<Rightarrow> u8 list \<Rightarrow> field_desc list \<Rightarrow> in_state \<Rightarrow> (bool \<times> in_state) option" where
  "in_loop ok mem [] st = None"
| "in_loop ok mem (fp # fps) st =
     (if fd_type fp = ft_end then Some (True, st)
      else do {
        (good, st) \<leftarrow> in_field ok mem fp st;
        (if good then in_loop ok mem fps st else Some (False, st)) })"

definition in_struct ::
  "bool \<Rightarrow> slot list \<Rightarrow> struct_desc_t \<Rightarrow> u8 list \<Rightarrow> pb_stream \<Rightarrow> bool \<Rightarrow>
   (bool \<times> slot list \<times> pb_stream \<times> pb_stream option) option" where
  "in_struct ok dst sd mem ins want_obj = do {
     sz \<leftarrow> sizeof_struct (sd_fields sd);
     (if no_room ins sz then Some (False, dst, ins, None)
      else do {
        (good, st) \<leftarrow> in_loop ok mem (sd_fields sd)
           \<lparr>i_cur = pbs_cur ins, i_out = dst, i_outp = 0, i_slen = 0, i_plen = 0, i_pay = None, i_ins = ins\<rparr>;
        let ins = i_ins st;
        (if \<not> good then Some (False, i_out st, ins, None)
         else if want_obj then do {
           obj \<leftarrow> init_pbs (i_pay st) (unat (i_slen st)) (sd_name sd);
           Some (True, i_out st, ins\<lparr>pbs_cur := i_cur st + unat (i_slen st)\<rparr>,
                 Some (obj\<lparr>pbs_desc := Some sd, pbs_cur := i_cur st\<rparr>)) }
         else Some (True, i_out st, ins\<lparr>pbs_cur := i_cur st\<rparr>, None)) }) }"

text \<open>\<open>verify_hmac\<close> is the cipher library's function: key, tag and data to the verdict.\<close>

definition pb_in_mac ::
  "('k \<Rightarrow> u8 list \<Rightarrow> u8 list \<Rightarrow> bool) \<Rightarrow> 'k \<Rightarrow> u8 list \<Rightarrow> pb_stream \<Rightarrow> nat \<Rightarrow> (bool \<times> pb_stream) option" where
  "pb_in_mac verify_hmac key mem ins mac_len = do {
     d \<leftarrow> pbs_bytes mem ins (pbs_cur ins);
     tag \<leftarrow> mem_read mem (pbs_cur ins) mac_len;
     Some (if verify_hmac key tag d then (True, ins\<lparr>pbs_cur := pbs_cur ins + mac_len\<rparr>) else (False, ins)) }"

text \<open>
  \<open>parse_sdu\<close> unpacks into a fresh allocation; \<open>fresh\<close> is what that memory holds, seen with the
  layout of the struct. NULL is the result \<open>Some None\<close>.
\<close>

definition parse_sdu ::
  "bool \<Rightarrow> slot list \<Rightarrow> buffer_t \<Rightarrow> struct_desc_t \<Rightarrow> slot list option option" where
  "parse_sdu ok fresh buf desc = do {
     pbs \<leftarrow> init_pbs (Some 0) (buf_len buf) ''parse sdu'';
     (if \<not> ok then Some None
      else do {
        (good, dst, _, _) \<leftarrow> in_struct ok fresh desc (ptr_bytes (buf_ptr buf)) pbs False;
        Some (if good then Some dst else None) }) }"

end
