(* ===== verification/Santilizer_Spec.thy ===== *)
theory Santilizer_Spec
  imports Santilizer
begin

text \<open>
  What the codec promises: for a descriptor and a struct that fit together, \<open>gen_pdu\<close> and
  \<open>parse_sdu\<close> are inverse. \<open>codec_ok\<close> is the fit, \<open>enc\<close> says of a packet that it holds the struct
  at a bit position. The writer establishes \<open>enc\<close> field by field, the length field and the
  checksum are filled in without disturbing it, and the reader gets the struct back from it.
\<close>

section \<open>Descriptors and structs that fit\<close>

definition wire :: "u64 \<Rightarrow> u64 \<Rightarrow> field_desc \<Rightarrow> u64 \<Rightarrow> u64" where
  "wire now pv fp n =
     (case fd_type fp of
        ft_fix \<Rightarrow> (case fd_desc fp of Fix_Desc f \<Rightarrow> fix_num f | _ \<Rightarrow> 0)
      | ft_time \<Rightarrow> now
      | ft_plen \<Rightarrow> pv
      | _ \<Rightarrow> n)"

definition member :: "field_desc \<Rightarrow> slot \<Rightarrow> (nat \<times> u64) option" where
  "member fp s = do { k \<leftarrow> bytes_len (fd_size fp); n \<leftarrow> load_slot k s; Some (k, n) }"

definition num_ok :: "u64 \<Rightarrow> u64 \<Rightarrow> field_desc \<Rightarrow> slot \<Rightarrow> slot \<Rightarrow> bool" where
  "num_ok now T fp s d \<longleftrightarrow>
     0 < fd_size fp \<and> fd_size fp \<le> 32 \<and> fd_type fp \<noteq> ft_slen \<and>
     (case member fp s of
        None \<Rightarrow> False
      | Some (k, n) \<Rightarrow>
          load_slot k d \<noteq> None \<and> take_bit (fd_size fp) (wire now T fp n) = wire now T fp n \<and>
          (fd_type fp = ft_enum \<longrightarrow> fd_size fp \<le> 31 \<and>
             (case fd_desc fp of Enum_Desc ed \<Rightarrow> (case enum_name ed n of Some (Some _) \<Rightarrow> True | _ \<Rightarrow> False) | _ \<Rightarrow> False)) \<and>
          (fd_type fp = ft_fix \<longrightarrow> fd_size fp \<le> 31 \<and> (case fd_desc fp of Fix_Desc f \<Rightarrow> True | _ \<Rightarrow> False)) \<and>
          (fd_type fp = ft_plen \<longrightarrow> fd_size fp \<le> 31 \<and> n = 0))"

definition str_ok :: "nat \<Rightarrow> bool \<Rightarrow> nat \<Rightarrow> field_desc \<Rightarrow> buffer_t \<Rightarrow> slot \<Rightarrow> bool" where
  "str_ok T seen P fp b d \<longleftrightarrow>
     buf_wf b \<and> buf_len b \<le> MAX_INPUT_BUFFER_SIZE \<and>
     (case d of
        BufPtr c \<Rightarrow>
          (case fd_type fp of
             ft_fl_str \<Rightarrow> (case fd_desc fp of Len_Desc n \<Rightarrow> buf_len b = n | _ \<Rightarrow> False)
           | ft_dl_str \<Rightarrow> (case c of Some c \<Rightarrow> buf_wf c \<and> buf_len c = 0 \<and> buf_free c = buf_len b | None \<Rightarrow> False)
           | _ \<Rightarrow> (case fd_desc fp of Raw_Desc r \<Rightarrow> seen \<and> T = P div 8 + r div 8 + buf_len b | _ \<Rightarrow> False))
      | _ \<Rightarrow> False)"

text \<open>
  \<open>codec_ok now T seen P fps ss ds\<close>: the fields \<open>fps\<close> (without checksum and end mark), starting
  at bit \<open>P\<close> of a packet of \<open>T\<close> bytes, fit the members \<open>ss\<close> of the struct to send and the members
  \<open>ds\<close> of the struct to fill; \<open>seen\<close> says that the length field is already behind.
\<close>

fun codec_ok :: "u64 \<Rightarrow> nat \<Rightarrow> bool \<Rightarrow> nat \<Rightarrow> field_desc list \<Rightarrow> slot list \<Rightarrow> slot list \<Rightarrow> bool" where
  "codec_ok now T seen P [] ss ds = (ss = [] \<and> ds = [])"
| "codec_ok now T seen P (fp # fps) ss ds =
     (if numeric (fd_type fp) then
        (case (ss, ds) of
           (s # ss, d # ds) \<Rightarrow> num_ok now (of_nat T) fp s d \<and>
             codec_ok now T (seen \<or> fd_type fp = ft_plen) (P + fd_size fp) fps ss ds
         | _ \<Rightarrow> False)
      else if fd_type fp = ft_pad then codec_ok now T seen (8 * ((P + 7) div 8)) fps ss ds
      else if fd_type fp \<in> {ft_fl_str, ft_dl_str, ft_p_raw} then
        (case (ss, ds) of
           (BufPtr (Some b) # ss, d # ds) \<Rightarrow> str_ok T seen P fp b d \<and>
             codec_ok now T seen (P + 8 * buf_len b) fps ss ds
         | _ \<Rightarrow> False)
      else False)"

fun body_end :: "nat \<Rightarrow> field_desc list \<Rightarrow> slot list \<Rightarrow> nat" where
  "body_end P [] ss = P"
| "body_end P (fp # fps) ss =
     (if numeric (fd_type fp) then body_end (P + fd_size fp) fps (tl ss)
      else if fd_type fp = ft_pad then body_end (8 * ((P + 7) div 8)) fps ss
      else (case ss of BufPtr (Some b) # ss \<Rightarrow> body_end (P + 8 * buf_len b) fps ss | _ \<Rightarrow> P))"

fun enc :: "u64 \<Rightarrow> u64 \<Rightarrow> u8 list \<Rightarrow> nat \<Rightarrow> field_desc list \<Rightarrow> slot list \<Rightarrow> bool" where
  "enc now pv mem P [] ss = True"
| "enc now pv mem P (fp # fps) ss =
     (if numeric (fd_type fp) then
        (case ss of
           s # ss \<Rightarrow> (case member fp s of
              Some (k, n) \<Rightarrow> field_at mem P (fd_size fp) (wire now pv fp n) | None \<Rightarrow> False) \<and>
             enc now pv mem (P + fd_size fp) fps ss
         | [] \<Rightarrow> False)
      else if fd_type fp = ft_pad then enc now pv mem (8 * ((P + 7) div 8)) fps ss
      else (case ss of
              BufPtr (Some b) # ss \<Rightarrow> str_at mem P (buf_bytes b) \<and> enc now pv mem (P + 8 * buf_len b) fps ss
            | _ \<Rightarrow> False))"

text \<open>The last length field, with its position and size: the one \<open>close_output_pbs\<close> fills in.\<close>

fun plen_pos :: "nat \<Rightarrow> field_desc list \<Rightarrow> slot list \<Rightarrow> (nat \<times> nat) option" where
  "plen_pos P [] ss = None"
| "plen_pos P (fp # fps) ss =
     (if numeric (fd_type fp) then
        (case plen_pos (P + fd_size fp) fps (tl ss) of
           Some r \<Rightarrow> Some r
         | None \<Rightarrow> if fd_type fp = ft_plen then Some (P, fd_size fp) else None)
      else if fd_type fp = ft_pad then plen_pos (8 * ((P + 7) div 8)) fps ss
      else (case ss of BufPtr (Some b) # ss \<Rightarrow> plen_pos (P + 8 * buf_len b) fps ss | _ \<Rightarrow> None))"

definition one_plen :: "field_desc list \<Rightarrow> bool" where
  "one_plen fps \<longleftrightarrow> length (filter (\<lambda>fp. fd_type fp = ft_plen) fps) \<le> 1"

text \<open>What the receiver should find: the member that holds the value sent.\<close>

definition delivered :: "u64 \<Rightarrow> u64 \<Rightarrow> field_desc \<Rightarrow> slot \<Rightarrow> slot" where
  "delivered now T fp s =
     (case member fp s of
        Some (k, n) \<Rightarrow> (case store_slot k (wire now T fp n) s of Some s' \<Rightarrow> s' | None \<Rightarrow> s)
      | None \<Rightarrow> s)"

fun delivery :: "u64 \<Rightarrow> u64 \<Rightarrow> field_desc list \<Rightarrow> slot list \<Rightarrow> slot list" where
  "delivery now T [] ss = ss"
| "delivery now T (fp # fps) ss =
     (if numeric (fd_type fp) then (case ss of s # ss \<Rightarrow> delivered now T fp s # delivery now T fps ss | [] \<Rightarrow> [])
      else if fd_type fp = ft_pad then delivery now T fps ss
      else (case ss of s # ss \<Rightarrow> s # delivery now T fps ss | [] \<Rightarrow> []))"

fun same_member :: "slot \<Rightarrow> slot \<Rightarrow> bool" where
  "same_member (BufPtr (Some a)) (BufPtr (Some b)) = (buf_bytes a = buf_bytes b \<and> buf_len a = buf_len b)"
| "same_member a b = (a = b)"


section \<open>Positions\<close>

text \<open>The three shapes of a fitting field list, as one case rule and one induction rule.\<close>

lemma codec_ok_cases [consumes 1, case_names Nil Num Pad Str]:
  assumes "codec_ok now T seen P fps ss ds"
  obtains "fps = []" "ss = []" "ds = []"
  | fp fps' s ss' d ds' where "fps = fp # fps'" "ss = s # ss'" "ds = d # ds'" "numeric (fd_type fp)"
      "num_ok now (of_nat T) fp s d"
      "codec_ok now T (seen \<or> fd_type fp = ft_plen) (P + fd_size fp) fps' ss' ds'"
  | fp fps' where "fps = fp # fps'" "fd_type fp = ft_pad" "codec_ok now T seen (8 * ((P + 7) div 8)) fps' ss ds"
  | fp fps' b ss' d ds' where "fps = fp # fps'" "ss = BufPtr (Some b) # ss'" "ds = d # ds'"
      "fd_type fp \<in> {ft_fl_str, ft_dl_str, ft_p_raw}" "str_ok T seen P fp b d"
      "codec_ok now T seen (P + 8 * buf_len b) fps' ss' ds'"
proof (cases fps)
  case Nil
  then show ?thesis using assms that(1) by simp
next
  case (Cons fp fps')
  consider "numeric (fd_type fp)" | "\<not> numeric (fd_type fp)" "fd_type fp = ft_pad"
    | "\<not> numeric (fd_type fp)" "fd_type fp \<noteq> ft_pad" by blast
  then show ?thesis
  proof cases
    case 1
    then show ?thesis using assms Cons that(2) by (auto split: list.splits)
  next
    case 2
    then show ?thesis using assms Cons that(3) by (auto split: if_splits)
  next
    case 3
    then have t: "fd_type fp \<in> {ft_fl_str, ft_dl_str, ft_p_raw}" using assms Cons by (auto split: if_splits)
    then obtain b ss' d ds' where "ss = BufPtr (Some b) # ss'" "ds = d # ds'"
      using assms Cons 3 by (cases ds) (auto split: list.splits slot.splits option.splits)
    then show ?thesis using assms Cons 3 t that(4) by auto
  qed
qed

lemma numeric_simps [simp]:
  "numeric ft_pad = False" "numeric ft_fl_str = False" "numeric ft_dl_str = False" "numeric ft_p_raw = False"
  "numeric ft_crc = False" "numeric ft_end = False" "numeric ft_mac = False" "numeric ft_plen"
  by (simp_all add: numeric_def)

lemma str_types:
  "t \<in> {ft_fl_str, ft_dl_str, ft_p_raw} \<Longrightarrow> \<not> numeric t \<and> t \<noteq> ft_pad \<and> t \<noteq> ft_end \<and> t \<noteq> ft_crc \<and> t \<noteq> ft_plen"
  by (auto simp: numeric_def)

lemma codec_ok_induct [consumes 1, case_names Nil Num Pad Str]:
  assumes "codec_ok now T seen P fps ss ds"
    and "\<And>seen P. Q seen P [] [] []"
    and "\<And>seen P fp fps s ss d ds. numeric (fd_type fp) \<Longrightarrow> num_ok now (of_nat T) fp s d \<Longrightarrow>
       codec_ok now T (seen \<or> fd_type fp = ft_plen) (P + fd_size fp) fps ss ds \<Longrightarrow>
       Q (seen \<or> fd_type fp = ft_plen) (P + fd_size fp) fps ss ds \<Longrightarrow> Q seen P (fp # fps) (s # ss) (d # ds)"
    and "\<And>seen P fp fps ss ds. fd_type fp = ft_pad \<Longrightarrow> codec_ok now T seen (8 * ((P + 7) div 8)) fps ss ds \<Longrightarrow>
       Q seen (8 * ((P + 7) div 8)) fps ss ds \<Longrightarrow> Q seen P (fp # fps) ss ds"
    and "\<And>seen P fp fps b ss d ds. fd_type fp \<in> {ft_fl_str, ft_dl_str, ft_p_raw} \<Longrightarrow> str_ok T seen P fp b d \<Longrightarrow>
       codec_ok now T seen (P + 8 * buf_len b) fps ss ds \<Longrightarrow>
       Q seen (P + 8 * buf_len b) fps ss ds \<Longrightarrow> Q seen P (fp # fps) (BufPtr (Some b) # ss) (d # ds)"
  shows "Q seen P fps ss ds"
  using assms(1)
proof (induction fps arbitrary: seen P ss ds)
  case Nil
  then show ?case using assms(2) by simp
next
  case (Cons fp fps)
  from Cons.prems show ?case
    by (cases rule: codec_ok_cases) (use assms(3-5) Cons.IH in \<open>auto\<close>)
qed

lemma pad_pos: "P \<le> 8 * ((P + 7) div 8)" for P :: nat
  by presburger

lemma body_end_ge: "codec_ok now T seen P fps ss ds \<Longrightarrow> P \<le> body_end P fps ss"
proof (induction rule: codec_ok_induct)
  case (Pad seen P fp fps ss ds)
  then show ?case using pad_pos [of P] by simp
next
  case (Str seen P fp fps b ss d ds)
  then show ?case using str_types [OF Str(1)] by simp
qed simp_all

lemma plen_pos_bounds:
  "codec_ok now T seen P fps ss ds \<Longrightarrow> plen_pos P fps ss = Some (q, i) \<Longrightarrow> P \<le> q \<and> q + i \<le> body_end P fps ss \<and> 0 < i \<and> i \<le> 31"
proof (induction rule: codec_ok_induct)
  case (Num seen P fp fps s ss d ds)
  show ?case
  proof (cases "plen_pos (P + fd_size fp) fps ss")
    case None
    then show ?thesis using Num body_end_ge [OF Num(3)] by (auto simp: num_ok_def split: if_splits option.splits)
  next
    case (Some r)
    then show ?thesis using Num by auto
  qed
next
  case (Pad seen P fp fps ss ds)
  then show ?case using pad_pos [of P] by auto
next
  case (Str seen P fp fps b ss d ds)
  then show ?case using str_types [OF Str(1)] by auto
qed simp

lemma no_plen_pos: "one_plen (fp # fps) \<Longrightarrow> fd_type fp = ft_plen \<Longrightarrow> codec_ok now T seen P fps ss ds \<Longrightarrow>
  plen_pos P fps ss = None \<and> enc now pv mem P fps ss = enc now pv' mem P fps ss"
proof -
  assume "one_plen (fp # fps)" "fd_type fp = ft_plen" and ok: "codec_ok now T seen P fps ss ds"
  then have "\<forall>fp \<in> set fps. fd_type fp \<noteq> ft_plen" by (auto simp: one_plen_def filter_empty_conv)
  with ok show ?thesis
  proof (induction rule: codec_ok_induct)
    case (Num seen P fp fps s ss d ds)
    then show ?case by (auto simp: wire_def split: option.splits field_type.splits)
  next
    case (Str seen P fp fps b ss d ds)
    then show ?case using str_types [OF Str(1)] by simp
  qed simp_all
qed

lemma wire_no_plen: "fd_type fp \<noteq> ft_plen \<Longrightarrow> wire now pv fp n = wire now pv' fp n"
  by (simp add: wire_def split: field_type.splits)

lemma one_plen_tail: "one_plen (fp # fps) \<Longrightarrow> one_plen fps"
  by (auto simp: one_plen_def split: if_splits)


lemma num_ok_member:
  assumes "num_ok now T fp s d"
  obtains k n where "bytes_len (fd_size fp) = Some k" "load_slot k s = Some n" "member fp s = Some (k, n)"
  using assms by (auto simp: num_ok_def member_def split: option.splits bind_splits)

lemma str_ok_wf: "str_ok T seen P fp b d \<Longrightarrow> buf_wf b \<and> buf_len b \<le> MAX_INPUT_BUFFER_SIZE"
  by (simp add: str_ok_def)

lemma enc_same:
  "codec_ok now T seen P fps ss ds \<Longrightarrow> same_bits m m' a b \<Longrightarrow> a \<le> P \<Longrightarrow> body_end P fps ss \<le> b \<Longrightarrow>
   enc now pv m' P fps ss = enc now pv m P fps ss"
proof (induction rule: codec_ok_induct)
  case (Num seen P fp fps s ss d ds)
  have "P + fd_size fp \<le> b" using body_end_ge [OF Num(3)] Num by simp
  then have "field_at m' P (fd_size fp) n = field_at m P (fd_size fp) n" for n
    using Num.prems by (intro field_at_same) auto
  then show ?case using Num by (simp split: option.splits)
next
  case (Pad seen P fp fps ss ds)
  then show ?case using pad_pos [of P] by simp
next
  case (Str seen P fp fps b' ss d ds)
  note t = str_types [OF Str(1)]
  have "P + 8 * buf_len b' \<le> b" using body_end_ge [OF Str(3)] Str t by simp
  then have "str_at m' P (buf_bytes b') = str_at m P (buf_bytes b')"
    using Str.prems str_ok_wf [OF Str(2)] by (intro str_at_same) (auto simp: length_buf_bytes)
  then show ?case using Str t by simp
qed simp


section \<open>Filling in the length\<close>

lemma enc_fill:
  assumes "codec_ok now T seen P fps ss ds" "one_plen fps" "plen_pos P fps ss = Some (q, i)"
    and "enc now 0 m P fps ss" "same_bits m m' 0 q" "same_bits m m' (q + i) (8 * length m)"
    and "field_at m' q i pv" "body_end P fps ss \<le> 8 * length m"
  shows "enc now pv m' P fps ss"
  using assms
proof (induction rule: codec_ok_induct)
  case (Num seen P fp fps s ss d ds)
  note be = body_end_ge [OF Num(3)]
  show ?case
  proof (cases "fd_type fp = ft_plen")
    case True
    then have np: "plen_pos (P + fd_size fp) fps ss = None" and ep: "\<And>pv pv' m. enc now pv m (P + fd_size fp) fps ss = enc now pv' m (P + fd_size fp) fps ss"
      using no_plen_pos [OF Num.prems(1) True Num(3)] by blast+
    then have q: "q = P" "i = fd_size fp" using Num True by auto
    have "enc now 0 m' (P + fd_size fp) fps ss = enc now 0 m (P + fd_size fp) fps ss"
      using Num q by (intro enc_same [OF Num(3) Num.prems(5)]) auto
    then show ?thesis using Num True q ep [of pv m' 0] by (auto simp: wire_def split: option.splits)
  next
    case False
    then have pp: "plen_pos (P + fd_size fp) fps ss = Some (q, i)" using Num by (auto split: option.splits if_splits)
    have "P + fd_size fp \<le> q" using plen_pos_bounds [OF Num(3) pp] by simp
    then have "field_at m' P (fd_size fp) n = field_at m P (fd_size fp) n" for n
      using Num.prems(4) by (intro field_at_same) auto
    moreover have "enc now pv m' (P + fd_size fp) fps ss"
      using Num pp one_plen_tail by (intro Num.IH) auto
    moreover note wire_no_plen [OF False, of now pv _ 0]
    ultimately show ?thesis using Num by (auto split: option.splits)
  qed
next
  case (Pad seen P fp fps ss ds)
  then show ?case using one_plen_tail by auto
next
  case (Str seen P fp fps b ss d ds)
  note t = str_types [OF Str(1)]
  have pp: "plen_pos (P + 8 * buf_len b) fps ss = Some (q, i)" using Str t by simp
  have "P + 8 * buf_len b \<le> q" using plen_pos_bounds [OF Str(3) pp] by simp
  then have "str_at m' P (buf_bytes b) = str_at m P (buf_bytes b)"
    using Str.prems(4) str_ok_wf [OF Str(2)] by (intro str_at_same) (auto simp: length_buf_bytes)
  moreover have "enc now pv m' (P + 8 * buf_len b) fps ss"
    using Str pp t one_plen_tail by (intro Str.IH) auto
  ultimately show ?case using Str t by simp
qed simp

lemma enc_plen_zero:
  assumes "codec_ok now T seen P fps ss ds" "plen_pos P fps ss = Some (q, i)" "enc now 0 m P fps ss"
  shows "field_at m q i 0"
  using assms
proof (induction rule: codec_ok_induct)
  case (Num seen P fp fps s ss d ds)
  then show ?case by (auto simp: wire_def split: option.splits if_splits)
next
  case (Str seen P fp fps b ss d ds)
  then show ?case using str_types [OF Str(1)] by simp
qed simp_all


section \<open>The writer\<close>

definition o_pos :: "out_state \<Rightarrow> nat" where
  "o_pos st = 8 * o_cur st + bitsize (o_outs st) mod 8"

definition out_keeps :: "out_state \<Rightarrow> out_state \<Rightarrow> bool" where
  "out_keeps st st' \<longleftrightarrow> o_obj st' = o_obj st \<and> pbs_start (o_outs st') = pbs_start (o_outs st) \<and>
     crc_fld (o_outs st') = crc_fld (o_outs st) \<and> slen_fld (o_outs st') = slen_fld (o_outs st)"

lemma out_keeps_trans: "out_keeps a b \<Longrightarrow> out_keeps b c \<Longrightarrow> out_keeps a c"
  by (simp add: out_keeps_def)

definition plen_note :: "out_state \<Rightarrow> (nat \<times> nat) option \<Rightarrow> out_state \<Rightarrow> bool" where
  "plen_note st r st' \<longleftrightarrow>
     (case r of
        None \<Rightarrow> plen_fld (o_outs st') = plen_fld (o_outs st) \<and> plento_shift (o_outs st') = plento_shift (o_outs st)
      | Some (q, i) \<Rightarrow> plen_fld (o_outs st') = Some (q div 8) \<and> plento_shift (o_outs st') = int i - (8 - int (q mod 8)))"

lemma pos_advance:
  assumes "(P::nat) = 8 * cur + b mod 8"
  shows "8 * ((P + i) div 8) + (b + i) mod 8 = P + i"
proof -
  have "(b + i) mod 8 = (P + i) mod 8" unfolding assms by (metis mod_add_left_eq mod_mult_self4 add.commute mod_mult_self2)
  then show ?thesis by simp
qed

lemma out_load_member: "member fp s = Some (k, n) \<Longrightarrow> fd_size fp \<le> 32 \<Longrightarrow> 0 < fd_size fp \<Longrightarrow> slot_at src p = Some s \<Longrightarrow>
  out_load src (fd_size fp) p = Some (n, p + 1)"
proof -
  assume m: "member fp s = Some (k, n)" and sz: "fd_size fp \<le> 32" "0 < fd_size fp" and "slot_at src p = Some s"
  have "bytes_len (fd_size fp) = Some k" "load_slot k s = Some n" using m by (auto simp: member_def split: bind_splits)
  moreover have "k \<le> 6" using calculation(2) by (cases s) (auto split: if_splits)
  ultimately show ?thesis using \<open>slot_at src p = Some s\<close> by (simp add: out_load_def)
qed

lemma out_num_step:
  assumes "numeric (fd_type fp)" "num_ok now T fp s d" "slot_at src (o_inp st) = Some s" "o_pos st = P"
    and "zero_bits (o_mem st) P" "P + fd_size fp \<le> 8 * length (o_mem st)"
  obtains st' k n where "out_num now src fp st = Some (True, st')" "o_pos st' = P + fd_size fp" "o_inp st' = o_inp st + 1"
    "same_bits (o_mem st) (o_mem st') 0 P" "zero_bits (o_mem st') (P + fd_size fp)"
    "member fp s = Some (k, n)" "field_at (o_mem st') P (fd_size fp) (wire now 0 fp n)"
    "out_keeps st st'" "plen_note st (if fd_type fp = ft_plen then Some (P, fd_size fp) else None) st'"
proof -
  define i where "i = fd_size fp"
  have i: "0 < i" "i \<le> 32" and nslen: "fd_type fp \<noteq> ft_slen" using assms(2) by (auto simp: num_ok_def i_def)
  obtain k n where kn: "member fp s = Some (k, n)" using num_ok_member [OF assms(2)] by blast
  have fits: "take_bit i (wire now 0 fp n) = wire now 0 fp n"
    using assms(2) kn unfolding i_def num_ok_def by (cases "fd_type fp = ft_plen") (auto simp: wire_def split: field_type.splits)
  obtain mem' where a: "append_bits (int i - (8 - int (bitsize (o_outs st) mod 8))) (wire now 0 fp n) (o_mem st) (o_cur st) =
       Some (mem', (P + i) div 8)"
    and m: "same_bits (o_mem st) mem' 0 P" "zero_bits mem' (P + i)" "field_at mem' P i (wire now 0 fp n)"
    using append_field [of i P "o_cur st" "bitsize (o_outs st) mod 8" "o_mem st" "wire now 0 fp n"]
      i assms(4-6) fits_bits [OF fits] by (auto simp: o_pos_def i_def)
  have pos: "8 * ((P + i) div 8) + (bitsize (o_outs st) + i) mod 8 = P + i"
    using pos_advance [of P "o_cur st" "bitsize (o_outs st)" i] assms(4) by (simp add: o_pos_def)
  have P: "o_cur st = P div 8" "bitsize (o_outs st) mod 8 = P mod 8" using assms(4) by (auto simp: o_pos_def)
  have ld: "out_load src i (o_inp st) = Some (n, o_inp st + 1)"
    using out_load_member [OF kn] i assms(3) by (simp add: i_def)
  define outs' where "outs' = (if fd_type fp = ft_plen
    then (o_outs st)\<lparr>plen_fld := Some (o_cur st), plento_shift := int i - (8 - int (bitsize (o_outs st) mod 8))\<rparr> else o_outs st)"
  define st' where "st' = st\<lparr>o_inp := o_inp st + 1, o_mem := mem', o_cur := (P + i) div 8,
     o_outs := outs'\<lparr>bitsize := bitsize (o_outs st) + i\<rparr>\<rparr>"
  have "out_num now src fp st = Some (True, st')"
  proof (cases "fd_type fp")
    case ft_enum
    then have w: "wire now 0 fp n = n" by (simp add: wire_def)
    obtain ed nm where "fd_desc fp = Enum_Desc ed" "enum_name ed n = Some (Some nm)"
      using assms(2) ft_enum kn by (auto simp: num_ok_def split: option.splits fd_info.splits)
    then show ?thesis using ft_enum a ld by (simp add: out_num_def Let_def w i_def [symmetric] st'_def outs'_def)
  next
    case ft_fix
    then obtain f where "fd_desc fp = Fix_Desc f" using assms(2) kn by (auto simp: num_ok_def split: fd_info.splits)
    moreover from this ft_fix have w: "wire now 0 fp n = fix_num f" by (simp add: wire_def)
    ultimately show ?thesis using ft_fix a ld by (simp add: out_num_def Let_def i_def [symmetric] st'_def outs'_def)
  next
    case ft_plen
    then have "n = 0" "wire now 0 fp n = n" using assms(2) kn by (auto simp: num_ok_def wire_def)
    then show ?thesis using ft_plen a ld by (simp add: out_num_def Let_def i_def [symmetric] st'_def outs'_def)
  next
    case ft_time
    then have "wire now 0 fp n = now" by (simp add: wire_def)
    then show ?thesis using ft_time a ld by (simp add: out_num_def Let_def i_def [symmetric] st'_def outs'_def)
  qed (use assms(1) nslen a ld in \<open>simp_all add: numeric_def out_num_def wire_def Let_def i_def [symmetric] st'_def outs'_def\<close>)
  moreover have "o_pos st' = P + i" using pos by (simp add: o_pos_def st'_def)
  moreover have "out_keeps st st'" by (simp add: out_keeps_def st'_def outs'_def)
  moreover have "plen_note st (if fd_type fp = ft_plen then Some (P, i) else None) st'"
    using P by (simp add: plen_note_def st'_def outs'_def)
  moreover have "o_inp st' = o_inp st + 1" "o_mem st' = mem'" by (simp_all add: st'_def)
  ultimately show thesis using m kn by (intro that [of st' k n, folded i_def]) auto
qed

lemma out_str_step:
  assumes "buf_wf b" "slot_at src (o_inp st) = Some (BufPtr (Some b))" "o_pos st = P"
    and "zero_bits (o_mem st) P" "P + 8 * buf_len b \<le> 8 * length (o_mem st)"
  obtains st' where "out_str src st = Some st'" "o_pos st' = P + 8 * buf_len b" "o_inp st' = o_inp st + 1"
    "same_bits (o_mem st) (o_mem st') 0 P" "zero_bits (o_mem st') (P + 8 * buf_len b)"
    "str_at (o_mem st') P (buf_bytes b)" "out_keeps st st'" "plen_note st None st'"
proof -
  define rest where "rest = drop (buf_len b) (ptr_bytes (buf_ptr b))"
  have bytes: "ptr_bytes (buf_ptr b) = buf_bytes b @ rest" by (simp add: buf_bytes_def rest_def)
  note len = length_buf_bytes [OF assms(1)]
  obtain mem' where a: "append_str (o_mem st) (o_cur st) (bitsize (o_outs st)) (ptr_bytes (buf_ptr b)) (buf_len b) =
       Some (mem', (P + 8 * buf_len b) div 8, bitsize (o_outs st) + 8 * buf_len b)"
    and m: "same_bits (o_mem st) mem' 0 P" "zero_bits mem' (P + 8 * buf_len b)" "str_at mem' P (buf_bytes b)"
    using append_str_spec [of "o_mem st" "o_cur st" "bitsize (o_outs st)" "buf_bytes b" rest]
      assms(3-5) by (auto simp: o_pos_def len bytes)
  define st' where "st' = st\<lparr>o_mem := mem', o_cur := (P + 8 * buf_len b) div 8,
     o_outs := (o_outs st)\<lparr>bitsize := bitsize (o_outs st) + 8 * buf_len b\<rparr>, o_inp := o_inp st + 1\<rparr>"
  have "out_str src st = Some st'" using a assms(2) by (simp add: out_str_def st'_def)
  moreover have "bitsize (o_outs st) mod 8 = P mod 8" using assms(3) by (auto simp: o_pos_def)
  then have "o_pos st' = P + 8 * buf_len b" by (simp add: o_pos_def st'_def)
  ultimately show thesis using that [of st'] m by (simp add: st'_def out_keeps_def plen_note_def)
qed

lemma out_pad_step:
  assumes "o_pos st = P" "zero_bits (o_mem st) P"
  shows "o_pos (out_pad st) = 8 * ((P + 7) div 8)" "o_mem (out_pad st) = o_mem st" "o_inp (out_pad st) = o_inp st"
    "zero_bits (o_mem st) (8 * ((P + 7) div 8))" "out_keeps st (out_pad st)" "plen_note st None (out_pad st)"
proof -
  have c: "o_cur st = P div 8" "bitsize (o_outs st) mod 8 = P mod 8" using assms(1) by (auto simp: o_pos_def)
  have "(P + 7) div 8 = (if P mod 8 \<noteq> 0 then P div 8 + 1 else P div 8)" by presburger
  then show "o_pos (out_pad st) = 8 * ((P + 7) div 8)" by (auto simp: out_pad_def o_pos_def c Let_def)
  show "zero_bits (o_mem st) (8 * ((P + 7) div 8))" using assms(2) pad_pos by (rule zero_bits_mono)
qed (simp_all add: out_pad_def out_keeps_def plen_note_def Let_def)


lemma slot_at_drop: "drop p src = s # r \<Longrightarrow> slot_at src p = Some s \<and> drop (p + 1) src = r"
proof -
  assume a: "drop p src = s # r"
  then have "p < length src" by (metis drop_all list.distinct(1) not_le)
  with a show ?thesis by (auto simp: slot_at_def Cons_nth_drop_Suc [symmetric])
qed

lemma plen_note_trans:
  "plen_note st r st1 \<Longrightarrow> plen_note st1 r' st2 \<Longrightarrow> plen_note st (case r' of Some x \<Rightarrow> Some x | None \<Rightarrow> r) st2"
  by (auto simp: plen_note_def split: option.splits)

lemma out_body:
  assumes "codec_ok now T seen P fps ss ds" "o_pos st = P" "zero_bits (o_mem st) P"
    and "body_end P fps ss \<le> 8 * length (o_mem st)" "drop (o_inp st) src = ss @ rest"
  shows "\<exists>st'. (\<forall>tl. out_loop now src (fps @ tl) st = out_loop now src tl st') \<and>
     o_pos st' = body_end P fps ss \<and> same_bits (o_mem st) (o_mem st') 0 P \<and>
     zero_bits (o_mem st') (body_end P fps ss) \<and> enc now 0 (o_mem st') P fps ss \<and>
     out_keeps st st' \<and> plen_note st (plen_pos P fps ss) st'"
  using assms
proof (induction arbitrary: st rule: codec_ok_induct)
  case (Nil seen P)
  then show ?case by (intro exI [of _ st]) (simp add: same_bits_refl out_keeps_def plen_note_def)
next
  case (Num seen P fp fps s ss d ds)
  let ?i = "fd_size fp"
  have sl: "slot_at src (o_inp st) = Some s" "drop (o_inp st + 1) src = ss @ rest"
    using slot_at_drop Num.prems(4) by fastforce+
  have "P + ?i \<le> 8 * length (o_mem st)" using body_end_ge [OF Num(3)] Num.prems(3) Num(1) by simp
  from out_num_step [OF Num(1,2) sl(1) Num.prems(1,2) this] obtain st1 k n where
    st1: "out_num now src fp st = Some (True, st1)" "o_pos st1 = P + ?i" "o_inp st1 = o_inp st + 1"
    "same_bits (o_mem st) (o_mem st1) 0 P" "zero_bits (o_mem st1) (P + ?i)"
    "member fp s = Some (k, n)" "field_at (o_mem st1) P ?i (wire now 0 fp n)"
    "out_keeps st st1" "plen_note st (if fd_type fp = ft_plen then Some (P, ?i) else None) st1" by metis
  have len: "length (o_mem st1) = length (o_mem st)" using st1(4) by (rule same_bits_length)
  from Num.IH [of st1] obtain st2 where
    st2: "\<And>tl. out_loop now src (fps @ tl) st1 = out_loop now src tl st2"
    "o_pos st2 = body_end (P + ?i) fps ss" "same_bits (o_mem st1) (o_mem st2) 0 (P + ?i)"
    "zero_bits (o_mem st2) (body_end (P + ?i) fps ss)" "enc now 0 (o_mem st2) (P + ?i) fps ss"
    "out_keeps st1 st2" "plen_note st1 (plen_pos (P + ?i) fps ss) st2"
    using st1 sl Num.prems Num(1) len by auto
  have ne: "fd_type fp \<noteq> ft_end" using Num(1) by auto
  have "field_at (o_mem st2) P ?i (wire now 0 fp n)" using st1(7) field_at_same [OF st2(3), of P ?i] by simp
  moreover have "same_bits (o_mem st) (o_mem st2) 0 P"
    using st1(4) same_bits_mono [OF st2(3), of 0 P] by (auto intro: same_bits_trans)
  moreover have "out_loop now src ((fp # fps) @ tl) st = out_loop now src tl st2" for tl
    using st1(1) st2(1) Num(1) ne by (simp add: out_field_def)
  ultimately show ?case using st1 st2 Num(1) plen_note_trans [OF st1(9) st2(7)] out_keeps_trans [OF st1(8) st2(6)]
    by (intro exI [of _ st2]) simp
next
  case (Pad seen P fp fps ss ds)
  note p = out_pad_step [OF Pad.prems(1,2)]
  from Pad.IH [of "out_pad st"] obtain st2 where
    st2: "\<And>tl. out_loop now src (fps @ tl) (out_pad st) = out_loop now src tl st2"
    "o_pos st2 = body_end (8 * ((P + 7) div 8)) fps ss" "same_bits (o_mem st) (o_mem st2) 0 (8 * ((P + 7) div 8))"
    "zero_bits (o_mem st2) (body_end (8 * ((P + 7) div 8)) fps ss)" "enc now 0 (o_mem st2) (8 * ((P + 7) div 8)) fps ss"
    "out_keeps (out_pad st) st2" "plen_note (out_pad st) (plen_pos (8 * ((P + 7) div 8)) fps ss) st2"
    using p Pad.prems Pad(1) by auto
  have "plen_note st (plen_pos (8 * ((P + 7) div 8)) fps ss) st2"
    using plen_note_trans [OF p(6) st2(7)] by (cases "plen_pos (8 * ((P + 7) div 8)) fps ss") simp_all
  then show ?case using st2 Pad(1) out_keeps_trans [OF p(5) st2(6)] same_bits_mono [OF st2(3) _ pad_pos, of 0]
    by (intro exI [of _ st2]) (simp add: out_field_def)
next
  case (Str seen P fp fps b ss d ds)
  let ?i = "8 * buf_len b"
  note t = str_types [OF Str(1)] and wf = str_ok_wf [OF Str(2), THEN conjunct1]
  have sl: "slot_at src (o_inp st) = Some (BufPtr (Some b))" "drop (o_inp st + 1) src = ss @ rest"
    using slot_at_drop Str.prems(4) by fastforce+
  have "P + ?i \<le> 8 * length (o_mem st)" using body_end_ge [OF Str(3)] Str.prems(3) t by simp
  from out_str_step [OF wf sl(1) Str.prems(1,2) this] obtain st1 where
    st1: "out_str src st = Some st1" "o_pos st1 = P + ?i" "o_inp st1 = o_inp st + 1"
    "same_bits (o_mem st) (o_mem st1) 0 P" "zero_bits (o_mem st1) (P + ?i)"
    "str_at (o_mem st1) P (buf_bytes b)" "out_keeps st st1" "plen_note st None st1" by metis
  have len: "length (o_mem st1) = length (o_mem st)" using st1(4) by (rule same_bits_length)
  from Str.IH [of st1] obtain st2 where
    st2: "\<And>tl. out_loop now src (fps @ tl) st1 = out_loop now src tl st2"
    "o_pos st2 = body_end (P + ?i) fps ss" "same_bits (o_mem st1) (o_mem st2) 0 (P + ?i)"
    "zero_bits (o_mem st2) (body_end (P + ?i) fps ss)" "enc now 0 (o_mem st2) (P + ?i) fps ss"
    "out_keeps st1 st2" "plen_note st1 (plen_pos (P + ?i) fps ss) st2"
    using st1 sl Str.prems t len by auto
  have "str_at (o_mem st2) P (buf_bytes b)"
    using st1(6) str_at_same [OF st2(3), of P "buf_bytes b"] length_buf_bytes [OF wf] by simp
  moreover have "same_bits (o_mem st) (o_mem st2) 0 P"
    using st1(4) same_bits_mono [OF st2(3), of 0 P] by (auto intro: same_bits_trans)
  moreover have "out_loop now src ((fp # fps) @ tl) st = out_loop now src tl st2" for tl
    using st1(1) st2(1) Str(1) t by (simp add: out_field_def)
  moreover have "plen_note st (plen_pos (P + ?i) fps ss) st2"
    using plen_note_trans [OF st1(8) st2(7)] by (cases "plen_pos (P + ?i) fps ss") simp_all
  ultimately show ?case using st1 st2 t out_keeps_trans [OF st1(7) st2(6)]
    by (intro exI [of _ st2]) simp
qed


section \<open>The reader\<close>

definition i_pos :: "in_state \<Rightarrow> nat" where
  "i_pos st = 8 * i_cur st + bitsize (i_ins st) mod 8"

lemma store_slot_low: "load_slot k d \<noteq> None \<Longrightarrow> (\<And>j. j < 32 \<Longrightarrow> bit m j = bit n j) \<Longrightarrow> k \<noteq> 6 \<Longrightarrow>
  store_slot k m d = store_slot k n d"
  by (cases d) (auto split: if_splits intro!: bit_word_eqI simp: bit_unsigned_iff)

lemma store_slot_kind: "load_slot k s \<noteq> None \<Longrightarrow> load_slot k d \<noteq> None \<Longrightarrow> store_slot k n s = store_slot k n d \<and> store_slot k n d \<noteq> None"
  by (cases s; cases d) (auto split: if_splits)

lemma same_member_refl [simp]: "same_member a a"
proof (cases a)
  case (BufPtr b)
  then show ?thesis by (cases b) simp_all
qed simp_all

lemma small_width: "0 < i \<Longrightarrow> i \<le> 32 \<Longrightarrow> bytes_len i = Some k \<Longrightarrow> k < 6"
  using bytes_len_widths(1,2,3) [of i] by (cases "i \<le> 8"; cases "i \<le> 16") auto

lemma in_num_step:
  assumes "numeric (fd_type fp)" "num_ok now (of_nat T) fp s d" "i_pos st = P"
    and "member fp s = Some (k, n)" "field_at mem P (fd_size fp) (wire now (of_nat T) fp n)"
    and "i_out st = pre @ d # post" "length pre = i_outp st"
  obtains st' where "in_num mem fp st = Some (True, st')" "i_pos st' = P + fd_size fp" "i_outp st' = i_outp st + 1"
    "i_out st' = pre @ delivered now (of_nat T) fp s # post" "pbs_start (i_ins st') = pbs_start (i_ins st)"
    "i_plen st' = (if fd_type fp = ft_plen then of_nat T else i_plen st)"
proof -
  define i w where "i = fd_size fp" and "w = wire now (of_nat T) fp n"
  have i: "0 < i" "i \<le> 32" and nslen: "fd_type fp \<noteq> ft_slen" using assms(2) by (auto simp: num_ok_def i_def)
  have kn: "bytes_len i = Some k" "load_slot k s = Some n" using assms(4) by (auto simp: member_def i_def split: bind_splits)
  have fits: "take_bit i w = w" and ld: "load_slot k d \<noteq> None" using assms(2,4) by (auto simp: num_ok_def i_def w_def)
  obtain m where m: "detach_bits (int i + int (bitsize (i_ins st) mod 8) - 8) 0 mem (i_cur st) (bitsize (i_ins st) mod 8) =
       Some (m, (P + i) div 8)" "\<forall>j < i. bit m j = bit w j" "i < 32 \<longrightarrow> (\<forall>j \<ge> i. \<not> bit m j)"
    using detach_field [of i P "i_cur st" "bitsize (i_ins st) mod 8" mem w] i assms(3,5) by (auto simp: i_pos_def i_def w_def)
  have mw: "m = w" if "i \<le> 31"
  proof (rule bit_word_eqI)
    fix j
    show "bit m j = bit w j" using m(2,3) that fits_bits [OF fits, of j] by (cases "j < i") auto
  qed
  have low: "bit m j = bit w j" if "j < 32" for j
    using m(2,3) fits_bits [OF fits] that i(2) by (cases "j < i") auto
  have k: "k < 6" using small_width [OF i kn(1)] .
  have "store_slot k m d = store_slot k w d" using ld low k by (intro store_slot_low) auto
  moreover have "delivered now (of_nat T) fp s = the (store_slot k w s)"
    using store_slot_kind [of k s d w] kn ld assms(4) by (auto simp: delivered_def w_def)
  ultimately have sd: "store_slot k m d = Some (delivered now (of_nat T) fp s)"
    using store_slot_kind [of k s d w] kn ld by auto
  define st1 where "st1 = st\<lparr>i_cur := (P + i) div 8, i_out := pre @ delivered now (of_nat T) fp s # post, i_outp := i_outp st + 1\<rparr>"
  have store: "in_store m i (st\<lparr>i_cur := (P + i) div 8\<rparr>) = Some st1"
    using kn k sd assms(6,7) by (simp add: in_store_def slot_at_def st1_def nth_append list_update_append)
  define st' where "st' = st1\<lparr>i_plen := (if fd_type fp = ft_plen then of_nat T else i_plen st),
     i_ins := (i_ins st)\<lparr>bitsize := bitsize (i_ins st) + i\<rparr>\<rparr>"
  have "in_num mem fp st = Some (True, st')"
  proof (cases "fd_type fp")
    case ft_enum
    then have "i \<le> 31" "w = n" using assms(2,4) by (auto simp: num_ok_def i_def w_def wire_def)
    moreover obtain ed nm where "fd_desc fp = Enum_Desc ed" "enum_name ed n = Some (Some nm)"
      using assms(2,4) ft_enum by (auto simp: num_ok_def split: option.splits fd_info.splits)
    ultimately show ?thesis using ft_enum m(1) store mw by (simp add: in_num_def Let_def i_def [symmetric] st'_def st1_def)
  next
    case ft_fix
    then obtain f where "fd_desc fp = Fix_Desc f" "i \<le> 31" using assms(2,4) by (auto simp: num_ok_def i_def split: fd_info.splits)
    then show ?thesis using ft_fix m(1) store mw
      by (simp add: in_num_def Let_def i_def [symmetric] st'_def st1_def w_def wire_def)
  next
    case ft_plen
    then have "i \<le> 31" "w = of_nat T" using assms(2,4) by (auto simp: num_ok_def i_def w_def wire_def)
    then show ?thesis using ft_plen m(1) store mw by (simp add: in_num_def Let_def i_def [symmetric] st'_def st1_def)
  qed (use assms(1) nslen m(1) store in \<open>simp_all add: numeric_def in_num_def Let_def i_def [symmetric] st'_def st1_def\<close>)
  moreover have "i_pos st' = P + i"
    using pos_advance [of P "i_cur st" "bitsize (i_ins st)" i] assms(3) by (simp add: i_pos_def st'_def st1_def)
  ultimately show thesis by (intro that [of st', folded i_def]) (simp_all add: st'_def st1_def)
qed


lemma in_detach_step:
  assumes "str_at mem P bs" "length bs \<le> MAX_INPUT_BUFFER_SIZE" "i_pos st = P"
  obtains st' where "in_detach mem (length bs) st = Some (bs, st')" "i_pos st' = P + 8 * length bs"
    "i_out st' = i_out st" "i_outp st' = i_outp st" "i_plen st' = i_plen st" "pbs_start (i_ins st') = pbs_start (i_ins st)"
proof -
  define st' where "st' = st\<lparr>i_cur := (P + 8 * length bs) div 8, i_ins := (i_ins st)\<lparr>bitsize := bitsize (i_ins st) + 8 * length bs\<rparr>\<rparr>"
  have "in_detach mem (length bs) st = Some (bs, st')"
    using detach_str_spec [of mem "i_cur st" "bitsize (i_ins st)" bs] assms by (simp add: in_detach_def st'_def i_pos_def)
  moreover have "bitsize (i_ins st) mod 8 = P mod 8" using assms(3) by (auto simp: i_pos_def)
  then have "i_pos st' = P + 8 * length bs" by (simp add: i_pos_def st'_def)
  ultimately show thesis by (intro that [of st']) (simp_all add: st'_def)
qed

text \<open>Replacing the member at \<open>outp\<close>.\<close>

lemma in_put_buf_out:
  "i_out st = pre @ d # post \<Longrightarrow> length pre = i_outp st \<Longrightarrow> i_out (in_put_buf b st) = pre @ BufPtr (Some b) # post"
  by (simp add: in_put_buf_def list_update_append)

lemma in_put_buf_rest:
  "i_pos (in_put_buf b st) = i_pos st" "i_outp (in_put_buf b st) = i_outp st + 1"
  "i_plen (in_put_buf b st) = i_plen st" "i_ins (in_put_buf b st) = i_ins st"
  by (simp_all add: in_put_buf_def i_pos_def)

lemma in_str_step:
  assumes ty: "fd_type fp \<in> {ft_fl_str, ft_dl_str, ft_p_raw}" and ok: "str_ok T seen P fp b d" and P: "i_pos st = P"
    and str: "str_at mem P (buf_bytes b)" and out: "i_out st = pre @ d # post" "length pre = i_outp st"
    and pl: "seen \<longrightarrow> i_plen st = of_nat T" "T \<le> 4096" "pbs_start (i_ins st) = Some 0"
  obtains st' b' where "in_field True mem fp st = Some (True, st')" "i_pos st' = P + 8 * buf_len b" "i_outp st' = i_outp st + 1"
    "i_out st' = pre @ BufPtr (Some b') # post" "same_member (BufPtr (Some b)) (BufPtr (Some b'))"
    "pbs_start (i_ins st') = Some 0" "i_plen st' = i_plen st"
proof -
  note result = that
  have wf: "buf_wf b" and len: "length (buf_bytes b) = buf_len b" "buf_len b \<le> MAX_INPUT_BUFFER_SIZE"
    using ok by (auto simp: str_ok_def length_buf_bytes)
  obtain c where d: "d = BufPtr c" using ok by (auto simp: str_ok_def split: slot.splits)
  have slot: "slot_at (i_out st) (i_outp st) = Some (BufPtr c)" using out d by (simp add: slot_at_def nth_append)
  define st0 where "st0 = (if fd_type fp = ft_p_raw then st\<lparr>i_ins := (i_ins st)\<lparr>pld_fld := Some (i_cur st)\<rparr>\<rparr> else st)"
  have st0: "i_pos st0 = P" "i_out st0 = pre @ d # post" "i_outp st0 = i_outp st" "i_plen st0 = i_plen st"
    "pbs_start (i_ins st0) = Some 0" "i_cur st0 = i_cur st"
    using P out pl(3) by (auto simp: st0_def i_pos_def)
  obtain st1 where st1: "in_detach mem (buf_len b) st0 = Some (buf_bytes b, st1)" "i_pos st1 = P + 8 * buf_len b"
    "i_out st1 = i_out st0" "i_outp st1 = i_outp st0" "i_plen st1 = i_plen st0" "pbs_start (i_ins st1) = pbs_start (i_ins st0)"
    using in_detach_step [OF str, of st0] len st0(1) by auto
  have fin: thesis if "in_field True mem fp st = Some (True, in_put_buf b' st1)" "buf_wf b'" "buf_bytes b' = buf_bytes b" for b'
  proof -
    have o: "i_out st1 = pre @ d # post" "length pre = i_outp st1" using st0 st1 out by simp_all
    have "same_member (BufPtr (Some b)) (BufPtr (Some b'))" using that len length_buf_bytes [OF that(2)] by simp
    then show thesis using that(1) in_put_buf_out [OF o, of b'] st0 st1
      by (intro result [of "in_put_buf b' st1" b']) (simp_all add: in_put_buf_rest)
  qed
  consider "fd_type fp = ft_fl_str" | "fd_type fp = ft_dl_str" | "fd_type fp = ft_p_raw" using ty by blast
  then show thesis
  proof cases
    case 1
    then have n: "fd_desc fp = Len_Desc (buf_len b)" using ok d by (auto simp: str_ok_def split: fd_info.splits)
    define b0 where "b0 = init_buffer_ptr True (buf_len b)"
    have free: "buf_free b0 = buf_len b" by (simp add: b0_def init_buffer_ptr_def init_buffer_unptr_def)
    obtain b' where b': "cat_to_buffer True b0 (buf_bytes b) (buf_len b) = Some (b', LD_OK)" "buf_wf b'" "buf_bytes b' = buf_bytes b"
      using cat_to_bufferE [OF buf_wf_init_ptr, of "buf_len b" "buf_bytes b"] len by (auto simp: b0_def buf_bytes_init_ptr)
    have "in_field True mem fp st = Some (True, in_put_buf b' st1)"
      using 1 n slot st1(1) b'(1) free by (simp add: in_field_def in_fl_str_def Let_def b0_def [symmetric] st0_def)
    then show thesis using fin b' by blast
  next
    case 2
    then obtain c' where c: "c = Some c'" "buf_wf c'" "buf_len c' = 0" "buf_free c' = buf_len b"
      using ok d by (auto simp: str_ok_def split: option.splits)
    obtain b' where b': "cat_to_buffer True c' (buf_bytes b) (buf_len b) = Some (b', LD_OK)" "buf_wf b'" "buf_bytes b' = buf_bytes b"
      using cat_to_bufferE [OF c(2), of "buf_bytes b"] len c(3) by (auto simp: buf_bytes_def)
    have "in_field True mem fp st = Some (True, in_put_buf b' st1)"
      using 2 c slot st1(1) b'(1) by (simp add: in_field_def in_dl_str_def st0_def)
    then show thesis using fin b' by blast
  next
    case 3
    then obtain r where r: "fd_desc fp = Raw_Desc r" "seen" "T = P div 8 + r div 8 + buf_len b"
      using ok d by (auto simp: str_ok_def split: fd_info.splits)
    have cur: "i_cur st = P div 8" using P by (auto simp: i_pos_def)
    have "buf_len b < 2 ^ 64" using r(3) pl(2) by simp
    then have ub: "unat (of_nat (buf_len b) :: u64) = buf_len b" by (intro unat_of_nat_small) simp
    have u: "i_plen st - (of_nat (i_cur st) - of_nat 0) - of_nat (r div 8) = of_nat (buf_len b)"
      using pl(1) r cur by simp
    define b' where "b' = \<lparr>buf_len = buf_len b, buf_total = buf_len b, buf_free = 0, buf_ptr = Some (buf_bytes b @ [0])\<rparr>"
    have "clone_to_chunk True init_buffer_unptr (Some (buf_bytes b)) (buf_len b) = Some b'"
      using clone_to_chunk_bytes [of "buf_len b" "buf_bytes b"] len by (simp add: b'_def)
    then have "in_field True mem fp st = Some (True, in_put_buf b' st1)"
      using 3 r slot st1(1) st0 u pl(3) ub by (simp add: in_field_def in_p_raw_def Let_def st0_def)
    moreover have "buf_wf b'" "buf_bytes b' = buf_bytes b" using len by (simp_all add: b'_def buf_wf_def buf_bytes_def)
    ultimately show thesis using fin by blast
  qed
qed

lemma in_pad_step:
  assumes "i_pos st = P"
  shows "i_pos (in_pad st) = 8 * ((P + 7) div 8)" "i_out (in_pad st) = i_out st" "i_outp (in_pad st) = i_outp st"
    "i_plen (in_pad st) = i_plen st" "pbs_start (i_ins (in_pad st)) = pbs_start (i_ins st)"
proof -
  have c: "i_cur st = P div 8" "bitsize (i_ins st) mod 8 = P mod 8" using assms by (auto simp: i_pos_def)
  have "(P + 7) div 8 = (if P mod 8 \<noteq> 0 then P div 8 + 1 else P div 8)" by presburger
  then show "i_pos (in_pad st) = 8 * ((P + 7) div 8)" by (auto simp: in_pad_def i_pos_def c Let_def)
qed (simp_all add: in_pad_def Let_def)

lemma in_body:
  assumes "codec_ok now T seen P fps ss ds" "enc now (of_nat T) mem P fps ss" "i_pos st = P"
    and "i_out st = pre @ ds @ post" "length pre = i_outp st" "pbs_start (i_ins st) = Some 0"
    and "seen \<longrightarrow> i_plen st = of_nat T" "T \<le> 4096"
  shows "\<exists>st' ds'. (\<forall>tl. in_loop True mem (fps @ tl) st = in_loop True mem tl st') \<and> i_pos st' = body_end P fps ss \<and>
     i_out st' = pre @ ds' @ post \<and> pbs_start (i_ins st') = Some 0 \<and>
     list_all2 same_member (delivery now (of_nat T) fps ss) ds'"
  using assms
proof (induction arbitrary: st pre rule: codec_ok_induct)
  case (Nil seen P)
  then show ?case by (intro exI [of _ st]) auto
next
  case (Num seen P fp fps s ss d ds)
  obtain k n where kn: "member fp s = Some (k, n)" "field_at mem P (fd_size fp) (wire now (of_nat T) fp n)"
    and en: "enc now (of_nat T) mem (P + fd_size fp) fps ss" using Num(1) Num.prems(1) by (auto split: option.splits)
  from in_num_step [OF Num(1,2) Num.prems(2) kn, of pre "ds @ post"] obtain st1 where
    st1: "in_num mem fp st = Some (True, st1)" "i_pos st1 = P + fd_size fp" "i_outp st1 = i_outp st + 1"
    "i_out st1 = pre @ delivered now (of_nat T) fp s # ds @ post" "pbs_start (i_ins st1) = pbs_start (i_ins st)"
    "i_plen st1 = (if fd_type fp = ft_plen then of_nat T else i_plen st)" using Num.prems by auto
  have pl: "seen \<or> fd_type fp = ft_plen \<longrightarrow> i_plen st1 = of_nat T" using st1(6) Num.prems(6) by simp
  from Num.IH [OF en st1(2) _ _ _ pl Num.prems(7), of "pre @ [delivered now (of_nat T) fp s]"] obtain st2 ds' where
    st2: "\<And>tl. in_loop True mem (fps @ tl) st1 = in_loop True mem tl st2" "i_pos st2 = body_end (P + fd_size fp) fps ss"
    "i_out st2 = (pre @ [delivered now (of_nat T) fp s]) @ ds' @ post" "pbs_start (i_ins st2) = Some 0"
    "list_all2 same_member (delivery now (of_nat T) fps ss) ds'" using st1(3-5) Num.prems(4,5) by auto
  have "in_loop True mem ((fp # fps) @ tl) st = in_loop True mem tl st2" for tl
    using st1(1) st2(1) Num(1) by (auto simp: in_field_def)
  then show ?case using st2 Num(1)
    by (intro exI [of _ st2] exI [of _ "delivered now (of_nat T) fp s # ds'"]) simp
next
  case (Pad seen P fp fps ss ds)
  note p = in_pad_step [OF Pad.prems(2)]
  from Pad.IH [of "in_pad st" pre] obtain st2 ds' where
    st2: "\<And>tl. in_loop True mem (fps @ tl) (in_pad st) = in_loop True mem tl st2" "i_pos st2 = body_end (8 * ((P + 7) div 8)) fps ss"
    "i_out st2 = pre @ ds' @ post" "pbs_start (i_ins st2) = Some 0"
    "list_all2 same_member (delivery now (of_nat T) fps ss) ds'" using p Pad.prems Pad(1) by auto
  then show ?case using Pad(1) by (intro exI [of _ st2] exI [of _ ds']) (simp add: in_field_def)
next
  case (Str seen P fp fps b ss d ds)
  note t = str_types [OF Str(1)]
  have se: "str_at mem P (buf_bytes b)" "enc now (of_nat T) mem (P + 8 * buf_len b) fps ss" using Str.prems(1) t by auto
  from in_str_step [OF Str(1,2) Str.prems(2) se(1), of pre "ds @ post"] obtain st1 b' where
    st1: "in_field True mem fp st = Some (True, st1)" "i_pos st1 = P + 8 * buf_len b" "i_outp st1 = i_outp st + 1"
    "i_out st1 = pre @ BufPtr (Some b') # ds @ post" "same_member (BufPtr (Some b)) (BufPtr (Some b'))"
    "pbs_start (i_ins st1) = Some 0" "i_plen st1 = i_plen st" using Str.prems by auto
  from Str.IH [OF se(2) st1(2), of "pre @ [BufPtr (Some b')]"] obtain st2 ds' where
    st2: "\<And>tl. in_loop True mem (fps @ tl) st1 = in_loop True mem tl st2" "i_pos st2 = body_end (P + 8 * buf_len b) fps ss"
    "i_out st2 = (pre @ [BufPtr (Some b')]) @ ds' @ post" "pbs_start (i_ins st2) = Some 0"
    "list_all2 same_member (delivery now (of_nat T) fps ss) ds'" using st1 Str.prems by auto
  have "in_loop True mem ((fp # fps) @ tl) st = in_loop True mem tl st2" for tl
    using st1(1) st2(1) t by simp
  then show ?case using st1(5) st2 t by (intro exI [of _ st2] exI [of _ "BufPtr (Some b') # ds'"]) simp
qed


section \<open>Checksum and end mark\<close>

text \<open>The fields behind the body: the end mark, with or without a checksum, whose length this is.\<close>

fun tail_len :: "field_desc list \<Rightarrow> nat option" where
  "tail_len [e] = (if fd_type e = ft_end then Some 0 else None)"
| "tail_len [c, e] =
     (if fd_type c = ft_crc \<and> fd_type e = ft_end then
        if fd_size c = 8 then Some 1 else if fd_size c = 32 then Some 4 else None
      else None)"
| "tail_len _ = None"

definition crc_bytes :: "nat \<Rightarrow> u8 list \<Rightarrow> u8 list" where
  "crc_bytes c d = (if c = 0 then [] else if c = 1 then [cal_crc_8bits d] else crc32_bytes (cal_crc_32bits d))"

lemma tail_cases:
  assumes "tail_len ts = Some c"
  obtains e where "ts = [e]" "fd_type e = ft_end" "c = 0"
  | f e where "ts = [f, e]" "fd_type f = ft_crc" "fd_type e = ft_end" "fd_size f = 8 * c" "c = 1 \<or> c = 4"
proof (cases ts rule: tail_len.cases)
  case (1 e)
  then show ?thesis using assms that(1) by (simp split: if_splits)
next
  case (2 f e)
  then show ?thesis using assms that(2) [of f e] by (simp split: if_splits)
qed (use assms in simp_all)

lemma length_crc_bytes: "c \<in> {0, 1, 4} \<Longrightarrow> length (crc_bytes c d) = c"
  by (auto simp: crc_bytes_def crc32_bytes_def)

lemma be32_crc32_bytes: "be32 (crc32_bytes v) = v"
proof -
  have "push_bit 24 (ucast (ucast (drop_bit 24 v) :: u8)) OR push_bit 16 (ucast (ucast (drop_bit 16 v) :: u8)) OR
        push_bit 8 (ucast (ucast (drop_bit 8 v) :: u8)) OR ucast (ucast v :: u8) = v"
  proof (rule bit_word_eqI)
    fix n assume "n < LENGTH(32)"
    then consider "n < 8" | "8 \<le> n" "n < 16" | "16 \<le> n" "n < 24" | "24 \<le> n" "n < 32" by fastforce
    then show "bit (push_bit 24 (ucast (ucast (drop_bit 24 v) :: u8)) OR push_bit 16 (ucast (ucast (drop_bit 16 v) :: u8)) OR
        push_bit 8 (ucast (ucast (drop_bit 8 v) :: u8)) OR ucast (ucast v :: u8) :: u32) n = bit v n"
      by cases (auto simp: bit_simps)
  qed
  moreover have "be32 (crc32_bytes v) = push_bit 24 (ucast (ucast (drop_bit 24 v) :: u8)) + push_bit 16 (ucast (ucast (drop_bit 16 v) :: u8)) +
        push_bit 8 (ucast (ucast (drop_bit 8 v) :: u8)) + ucast (ucast v :: u8)"
    by (simp add: be32_def crc32_bytes_def upt_rec)
  moreover have "push_bit 24 (ucast (ucast (drop_bit 24 v) :: u8)) + push_bit 16 (ucast (ucast (drop_bit 16 v) :: u8)) =
     push_bit 24 (ucast (ucast (drop_bit 24 v) :: u8)) OR push_bit 16 (ucast (ucast (drop_bit 16 v) :: u8) :: u32)"
    by (rule disjunctive_add) (auto simp: bit_simps)
  moreover have "(push_bit 24 (ucast (ucast (drop_bit 24 v) :: u8)) OR push_bit 16 (ucast (ucast (drop_bit 16 v) :: u8))) +
      push_bit 8 (ucast (ucast (drop_bit 8 v) :: u8)) = (push_bit 24 (ucast (ucast (drop_bit 24 v) :: u8)) OR
      push_bit 16 (ucast (ucast (drop_bit 16 v) :: u8))) OR push_bit 8 (ucast (ucast (drop_bit 8 v) :: u8) :: u32)"
    by (rule disjunctive_add) (auto simp: bit_simps)
  moreover have "(push_bit 24 (ucast (ucast (drop_bit 24 v) :: u8)) OR push_bit 16 (ucast (ucast (drop_bit 16 v) :: u8)) OR
      push_bit 8 (ucast (ucast (drop_bit 8 v) :: u8))) + ucast (ucast v :: u8) = (push_bit 24 (ucast (ucast (drop_bit 24 v) :: u8)) OR
      push_bit 16 (ucast (ucast (drop_bit 16 v) :: u8)) OR push_bit 8 (ucast (ucast (drop_bit 8 v) :: u8))) OR (ucast (ucast v :: u8) :: u32)"
    by (rule disjunctive_add) (auto simp: bit_simps)
  ultimately show ?thesis by (simp add: or.assoc)
qed

lemma mbit_write_before:
  "mem_write m f bs = Some m' \<Longrightarrow> k < 8 * f \<Longrightarrow> mbit m' k = mbit m k"
  by (auto simp: mem_write_Some_iff mbit_def nth_append)

lemma mbit_prefix: "k < 8 * T \<Longrightarrow> T \<le> length m \<Longrightarrow> mbit (take T m @ z) k = mbit m k"
  by (auto simp: mbit_def nth_append)

lemma field_at_prefix: "field_at m P i n \<Longrightarrow> P + i \<le> 8 * T \<Longrightarrow> T \<le> length m \<Longrightarrow> field_at (take T m @ z) P i n"
  by (auto simp: field_at_def mbit_prefix)

lemma str_at_prefix: "str_at m P bs \<Longrightarrow> P + 8 * length bs \<le> 8 * T \<Longrightarrow> T \<le> length m \<Longrightarrow> str_at (take T m @ z) P bs"
proof (induction bs arbitrary: P)
  case (Cons c bs)
  then show ?case using field_at_prefix [of m P 8 "ucast c" T z] by simp
qed simp

lemma enc_prefix:
  "codec_ok now T' seen P fps ss ds \<Longrightarrow> enc now pv m P fps ss \<Longrightarrow> body_end P fps ss \<le> 8 * T \<Longrightarrow> T \<le> length m \<Longrightarrow>
   enc now pv (take T m @ z) P fps ss"
proof (induction rule: codec_ok_induct)
  case (Num seen P fp fps s ss d ds)
  have "P + fd_size fp \<le> 8 * T" using body_end_ge [OF Num(3)] Num by simp
  then show ?case using Num field_at_prefix [of m P "fd_size fp" _ T z] by (auto split: option.splits)
next
  case (Str seen P fp fps b ss d ds)
  note t = str_types [OF Str(1)]
  have "P + 8 * buf_len b \<le> 8 * T" using body_end_ge [OF Str(3)] Str t by simp
  then show ?case using Str t str_at_prefix [of m P "buf_bytes b" T z] length_buf_bytes str_ok_wf [OF Str(2)] by auto
qed simp_all


section \<open>The generated packet\<close>

text \<open>A packet of \<open>T\<close> bytes that holds the struct and, behind it, the checksum of what precedes.\<close>

definition is_pdu :: "u64 \<Rightarrow> nat \<Rightarrow> nat \<Rightarrow> field_desc list \<Rightarrow> slot list \<Rightarrow> u8 list \<Rightarrow> bool" where
  "is_pdu now T c fps ss m \<longleftrightarrow> T \<le> length m \<and> enc now (of_nat T) m 0 fps ss \<and>
     take c (drop (T - c) m) = crc_bytes c (take (T - c) m)"

lemma close_plen_fill:
  assumes ok: "codec_ok now T seen 0 fps ss ds" "one_plen fps" and e: "enc now 0 m 0 fps ss"
    and be: "body_end 0 fps ss \<le> 8 * length m"
    and off: "pbs_offset pbs = Some (of_nat T)"
    and pp: "case plen_pos 0 fps ss of None \<Rightarrow> plen_fld pbs = None
        | Some (q, i) \<Rightarrow> plen_fld pbs = Some (q div 8) \<and> plento_shift pbs = int i - (8 - int (q mod 8)) \<and>
            take_bit i (of_nat T :: u64) = of_nat T"
  obtains m' pbs' where "close_plen m pbs = Some (m', pbs')" "length m' = length m" "enc now (of_nat T) m' 0 fps ss"
    "crc_fld pbs' = crc_fld pbs" "crc_size pbs' = crc_size pbs" "pbs_start pbs' = pbs_start pbs" "pbs_cur pbs' = pbs_cur pbs"
proof (cases "plen_pos 0 fps ss")
  case None
  have "enc now (of_nat T) m 0 fps ss" using ok(1) None e
  proof (induction rule: codec_ok_induct)
    case (Num seen P fp fps s ss d ds)
    then have "fd_type fp \<noteq> ft_plen" "plen_pos (P + fd_size fp) fps ss = None" by (auto split: option.splits if_splits)
    then show ?case using Num wire_no_plen [of fp now "of_nat T" _ 0] by (auto split: option.splits)
  next
    case (Str seen P fp fps b ss d ds)
    then show ?case using str_types [OF Str(1)] by simp
  qed simp_all
  then show ?thesis using None pp by (intro that [of m pbs]) (simp_all add: close_plen_def)
next
  case (Some r)
  obtain q i where r: "r = (q, i)" by (cases r)
  have b: "q + i \<le> body_end 0 fps ss" "0 < i" "i \<le> 31" using plen_pos_bounds [OF ok(1)] Some r by auto
  have z: "field_at m q i 0" using enc_plen_zero [OF ok(1) _ e] Some r by simp
  have f: "plen_fld pbs = Some (q div 8)" "plento_shift pbs = int i - (8 - int (q mod 8))" "take_bit i (of_nat T :: u64) = of_nat T"
    using pp Some r by auto
  obtain m' where m': "append_bits (plento_shift pbs) (of_nat T) m (q div 8) = Some (m', (q + i) div 8)"
    "same_bits m m' 0 q" "same_bits m m' (q + i) (8 * length m)" "field_at m' q i (of_nat T)"
  proof -
    have "i \<le> 64" "q = 8 * (q div 8) + q mod 8" "q mod 8 < 8" using b(3) by auto
    from fill_field [OF b(2) this z fits_bits [OF f(3)]] show thesis using that f(2) by auto
  qed
  have "enc now (of_nat T) m' 0 fps ss" by (rule enc_fill [OF ok _ e m'(2,3,4) be]) (simp add: Some r)
  then show ?thesis using f m' off same_bits_length [OF m'(2)]
    by (intro that [of m' "pbs\<lparr>plen_fld := Some ((q + i) div 8), plento_shift := spent_shift (plento_shift pbs)\<rparr>"])
       (simp_all add: close_plen_def)
qed

lemma close_crc_write:
  assumes ok: "codec_ok now T seen 0 fps ss ds" and e: "enc now pv m 0 fps ss" and c: "c \<in> {0, 1, 4}"
    and be: "body_end 0 fps ss = 8 * f" "f + c \<le> length m"
    and fld: "if c = 0 then crc_fld pbs = None else crc_fld pbs = Some f \<and> crc_size pbs = 8 * c" "pbs_start pbs = Some 0"
  obtains m' pbs' where "close_crc m pbs = Some (m', pbs')" "length m' = length m" "enc now pv m' 0 fps ss"
    "take c (drop f m') = crc_bytes c (take f m')" "pbs_start pbs' = Some 0" "pbs_cur pbs' = pbs_cur pbs"
proof (cases "c = 0")
  case True
  then show ?thesis using fld e by (intro that [of m pbs]) (simp_all add: close_crc_def crc_bytes_def)
next
  case False
  define bs where "bs = crc_bytes c (take f m)"
  have lb: "length bs = c" using c by (simp add: bs_def length_crc_bytes)
  obtain m' where w: "mem_write m f bs = Some m'" using be(2) lb by (auto simp: mem_write_def)
  have m': "m' = take f m @ bs @ drop (f + c) m" "length m' = length m"
    using w lb mem_write_length [OF w] by (auto simp: mem_write_Some_iff)
  have "take f m' = take f m" "take c (drop f m') = bs" using m' lb be(2) by simp_all
  moreover have "same_bits m m' 0 (8 * f)" using mbit_write_before [OF w] m'(2) by (simp add: same_bits_def)
  then have "enc now pv m' 0 fps ss" using enc_same [OF ok] e be(1) by auto
  moreover have "pbs_bytes m pbs f = Some (take f m)" using fld(2) be(2) by (simp add: pbs_bytes_def mem_read_def)
  then have "close_crc m pbs = Some (m', pbs\<lparr>crc_fld := Some (f + c)\<rparr>)"
    using False fld(1) c w by (auto simp: close_crc_def bs_def crc_bytes_def)
  ultimately show ?thesis using m'(2) fld(2) by (intro that [of m' "pbs\<lparr>crc_fld := Some (f + c)\<rparr>"]) (simp_all add: bs_def)
qed


lemma plen_fits:
  "codec_ok now T seen P fps ss ds \<Longrightarrow> plen_pos P fps ss = Some (q, i) \<Longrightarrow> take_bit i (of_nat T :: u64) = of_nat T"
proof (induction rule: codec_ok_induct)
  case (Num seen P fp fps s ss d ds)
  then show ?case by (auto simp: num_ok_def wire_def split: option.splits if_splits)
next
  case (Str seen P fp fps b ss d ds)
  then show ?case using str_types [OF Str(1)] by simp
qed simp_all

text \<open>The tail of the field list, on both sides.\<close>

lemma out_tail:
  assumes "tail_len ts = Some c"
  obtains st' where "out_loop now src ts st = Some (True, st')" "o_mem st' = o_mem st" "o_cur st' = o_cur st + c"
    "o_obj st' = o_obj st" "pbs_start (o_outs st') = pbs_start (o_outs st)" "slen_fld (o_outs st') = slen_fld (o_outs st)"
    "plen_fld (o_outs st') = plen_fld (o_outs st)" "plento_shift (o_outs st') = plento_shift (o_outs st)"
    "if c = 0 then crc_fld (o_outs st') = crc_fld (o_outs st)
     else crc_fld (o_outs st') = Some (o_cur st) \<and> crc_size (o_outs st') = 8 * c" "c \<in> {0, 1, 4}"
  using assms
proof (cases rule: tail_cases)
  case (1 e)
  then show ?thesis using assms by (intro that [of st]) simp_all
next
  case (2 f e)
  then show ?thesis by (intro that [of "out_crc f st"]) (auto simp: out_field_def out_crc_def)
qed

lemma gen_pdu_is_pdu:
  assumes ok: "codec_ok now T False 0 fps ss ds" "one_plen fps" "tail_len ts = Some c"
    and al: "body_end 0 fps ss = 8 * f" and T: "T = f + c" "T \<le> 4096"
    and sz: "sizeof_struct (fps @ ts) = Some z" "z \<le> T"
  obtains m where "gen_pdu True now ss \<lparr>sd_name = nm, sd_fields = fps @ ts\<rparr> str =
      Some \<lparr>buf_len = T, buf_total = T, buf_free = 0, buf_ptr = Some (take T m @ [0])\<rparr>" "is_pdu now T c fps ss m"
proof -
  define mem :: "u8 list" where "mem = replicate 4096 0"
  obtain pbs0 where pbs0: "init_pbs (Some 0) 4096 str = Some pbs0" "pbs_start pbs0 = Some 0" "pbs_cur pbs0 = 0" "pbs_roof pbs0 = 4096"
    "slen_fld pbs0 = None" "plen_fld pbs0 = None" "crc_fld pbs0 = None" "bitsize pbs0 = 0" by (auto simp: init_pbs_def)
  define st where "st = \<lparr>o_mem = mem, o_cur = pbs_cur pbs0, o_inp = 0, o_outs = pbs0,
     o_obj = pbs0\<lparr>slen_fld := None, plen_fld := None, crc_fld := None, pld_fld := None\<rparr>, o_pay = None\<rparr>"
  have "zero_bits mem 0" by (auto simp: zero_bits_def mbit_def mem_def)
  moreover have "body_end 0 fps ss \<le> 8 * length mem" using al T by (simp add: mem_def)
  ultimately obtain st1 where st1: "\<And>ts. out_loop now ss (fps @ ts) st = out_loop now ss ts st1" "o_pos st1 = 8 * f"
    "length (o_mem st1) = 4096" "enc now 0 (o_mem st1) 0 fps ss" "out_keeps st st1" "plen_note st (plen_pos 0 fps ss) st1"
    using out_body [OF ok(1), of st ss "[]"] al pbs0 by (auto simp: st_def o_pos_def mem_def same_bits_def)
  have cur1: "o_cur st1 = f" using st1(2) by (auto simp: o_pos_def)
  from out_tail [OF ok(3), of now ss st1] obtain st2 where
    st2: "out_loop now ss ts st1 = Some (True, st2)" "o_mem st2 = o_mem st1" "o_cur st2 = f + c"
    "o_obj st2 = o_obj st1" "pbs_start (o_outs st2) = pbs_start (o_outs st1)" "slen_fld (o_outs st2) = slen_fld (o_outs st1)"
    "plen_fld (o_outs st2) = plen_fld (o_outs st1)" "plento_shift (o_outs st2) = plento_shift (o_outs st1)"
    "if c = 0 then crc_fld (o_outs st2) = crc_fld (o_outs st1)
     else crc_fld (o_outs st2) = Some (o_cur st1) \<and> crc_size (o_outs st2) = 8 * c" "c \<in> {0, 1, 4}" using cur1 by metis
  define pbs where "pbs = (o_outs st2)\<lparr>pbs_cur := T\<rparr>"
  have obj: "slen_fld (o_obj st2) = None" "plen_fld (o_obj st2) = None" "crc_fld (o_obj st2) = None"
    using st1(5) st2(4) by (auto simp: out_keeps_def st_def)
  have room: "\<not> no_room pbs0 z" using pbs0 sz T by (simp add: no_room_def)
  have outs: "out_struct now ss \<lparr>sd_name = nm, sd_fields = fps @ ts\<rparr> mem pbs0 False = Some (True, o_mem st2, pbs, None)"
    using sz room st1(1) st2(1,3) obj T(1)
    by (simp add: out_struct_def Let_def st_def [symmetric] close_output_pbs_def close_slen_def close_plen_def close_crc_def pbs_def)
  have p: "pbs_start pbs = Some 0" "slen_fld pbs = None" "pbs_cur pbs = T"
    "if c = 0 then crc_fld pbs = None else crc_fld pbs = Some f \<and> crc_size pbs = 8 * c"
    using st1(5) st2 pbs0 cur1 by (auto simp: pbs_def out_keeps_def st_def)
  have off: "pbs_offset pbs = Some (of_nat T)" using p by (simp add: pbs_offset_def)
  have "case plen_pos 0 fps ss of None \<Rightarrow> plen_fld pbs = None
        | Some (q, i) \<Rightarrow> plen_fld pbs = Some (q div 8) \<and> plento_shift pbs = int i - (8 - int (q mod 8)) \<and>
            take_bit i (of_nat T :: u64) = of_nat T"
    using st1(6) st2(7,8) pbs0 plen_fits [OF ok(1)] by (auto simp: plen_note_def pbs_def st_def split: option.splits)
  then obtain m1 pbs1 where m1: "close_plen (o_mem st2) pbs = Some (m1, pbs1)" "length m1 = 4096" "enc now (of_nat T) m1 0 fps ss"
    "crc_fld pbs1 = crc_fld pbs" "crc_size pbs1 = crc_size pbs" "pbs_start pbs1 = pbs_start pbs" "pbs_cur pbs1 = pbs_cur pbs"
    using close_plen_fill [OF ok(1,2) _ _ off, of "o_mem st2"] st1(3,4) st2(2) al T by auto
  have fc: "f + c \<le> length m1" using m1(2) T by simp
  have fl: "if c = 0 then crc_fld pbs1 = None else crc_fld pbs1 = Some f \<and> crc_size pbs1 = 8 * c" "pbs_start pbs1 = Some 0"
    using m1 p(1,4) by auto
  obtain m pbs2 where m: "close_crc m1 pbs1 = Some (m, pbs2)" "length m = 4096" "enc now (of_nat T) m 0 fps ss"
    "take c (drop f m) = crc_bytes c (take f m)" "pbs_start pbs2 = Some 0" "pbs_cur pbs2 = T"
    using close_crc_write [OF ok(1) m1(3) st2(10) al fc fl] m1(2,7) p(3) by metis
  have "close_output_pbs (o_mem st2) pbs None = Some (m, pbs2, None)"
    using m1(1) m(1) p(2) by (simp add: close_output_pbs_def close_slen_def)
  moreover have "pbs_offset pbs2 = Some (of_nat T)" "unat (of_nat T :: u64) = T"
    using m T by (simp add: pbs_offset_def, intro unat_of_nat_small) simp
  ultimately have "gen_pdu True now ss \<lparr>sd_name = nm, sd_fields = fps @ ts\<rparr> str =
      Some \<lparr>buf_len = T, buf_total = T, buf_free = 0, buf_ptr = Some (take T m @ [0])\<rparr>"
    using pbs0(1) outs m(2) T by (simp add: gen_pdu_def mem_def [symmetric] clone_to_chunk_bytes)
  moreover have "is_pdu now T c fps ss m" using m T by (simp add: is_pdu_def)
  ultimately show thesis using that by blast
qed

lemma in_tail:
  assumes "tail_len ts = Some c" "i_cur st = f" "pbs_start (i_ins st) = Some 0" "f + c \<le> length mem"
    and "take c (drop f mem) = crc_bytes c (take f mem)"
  obtains st' where "in_loop ok mem ts st = Some (True, st')" "i_out st' = i_out st"
  using assms(1)
proof (cases rule: tail_cases)
  case (1 e)
  then show ?thesis by (intro that [of st]) simp_all
next
  case (2 g e)
  have d: "pbs_bytes mem ((i_ins st)\<lparr>crc_fld := Some f\<rparr>) f = Some (take f mem)" using assms by (simp add: pbs_bytes_def mem_read_def)
  have r: "mem_read mem f c = Some (crc_bytes c (take f mem))" using assms by (simp add: mem_read_def)
  define st' where "st' = st\<lparr>i_ins := (i_ins st)\<lparr>crc_fld := Some f\<rparr>, i_cur := f + c\<rparr>"
  have "in_crc mem g st = Some (True, st')"
    using 2(4,5) d r assms(2) by (auto simp: in_crc_def Let_def st'_def crc_bytes_def be32_crc32_bytes)
  then have "in_loop ok mem ts st = Some (True, st')" using 2(1,2,3) by (simp add: in_field_def)
  then show ?thesis by (intro that [of st']) (simp_all add: st'_def)
qed

lemma parse_is_pdu:
  assumes ok: "codec_ok now T False 0 fps ss ds" "tail_len ts = Some c" and al: "body_end 0 fps ss = 8 * f"
    and T: "T = f + c" "T \<le> 4096" and sz: "sizeof_struct (fps @ ts) = Some z" "z \<le> T"
    and pdu: "is_pdu now T c fps ss m"
    and b: "b = \<lparr>buf_len = T, buf_total = T, buf_free = 0, buf_ptr = Some (take T m @ [0])\<rparr>"
  obtains ds' where "parse_sdu True ds b \<lparr>sd_name = nm, sd_fields = fps @ ts\<rparr> = Some (Some ds')"
    "list_all2 same_member (delivery now (of_nat T) fps ss) ds'"
proof -
  define mem where "mem = take T m @ [0]"
  have len: "T \<le> length m" and crc: "take c (drop f m) = crc_bytes c (take f m)" and e: "enc now (of_nat T) m 0 fps ss"
    using pdu T by (auto simp: is_pdu_def)
  have em: "enc now (of_nat T) mem 0 fps ss" unfolding mem_def using enc_prefix [OF ok(1) e] al T len by simp
  have cm: "take c (drop f mem) = crc_bytes c (take f mem)" "f + c \<le> length mem"
    using crc len T by (auto simp: mem_def take_drop min_def)
  obtain pbs0 where pbs0: "init_pbs (Some 0) T ''parse sdu'' = Some pbs0" "pbs_start pbs0 = Some 0" "pbs_cur pbs0 = 0" "pbs_roof pbs0 = T"
    "bitsize pbs0 = 0" by (auto simp: init_pbs_def)
  define st where "st = \<lparr>i_cur = pbs_cur pbs0, i_out = ds, i_outp = 0, i_slen = 0, i_plen = 0, i_pay = None, i_ins = pbs0\<rparr>"
  obtain st1 ds' where st1: "\<And>ts. in_loop True mem (fps @ ts) st = in_loop True mem ts st1" "i_pos st1 = 8 * f"
    "i_out st1 = ds'" "pbs_start (i_ins st1) = Some 0" "list_all2 same_member (delivery now (of_nat T) fps ss) ds'"
    using in_body [OF ok(1) em, of st "[]" "[]"] pbs0 T(2) al by (auto simp: st_def i_pos_def)
  have "i_cur st1 = f" using st1(2) by (auto simp: i_pos_def)
  from in_tail [OF ok(2) this st1(4) cm(2,1), of True] obtain st2 where
    st2: "in_loop True mem ts st1 = Some (True, st2)" "i_out st2 = i_out st1" by blast
  have "\<not> no_room pbs0 z" using pbs0 sz by (simp add: no_room_def)
  then have "parse_sdu True ds b \<lparr>sd_name = nm, sd_fields = fps @ ts\<rparr> = Some (Some ds')"
    using pbs0(1) sz(1) st1(1,3) st2
    by (simp add: parse_sdu_def b in_struct_def Let_def mem_def [symmetric] st_def [symmetric])
  then show thesis using that st1(5) by blast
qed


section \<open>Round trip\<close>

lemma codec_rt:
  assumes "codec_ok now T False 0 fps ss ds" "one_plen fps" "tail_len ts = Some c"
    and "body_end 0 fps ss = 8 * f" "T = f + c" "T \<le> 4096"
    and "sizeof_struct (fps @ ts) = Some z" "z \<le> T"
  shows "\<exists>pdu dst. gen_pdu True now ss \<lparr>sd_name = nm, sd_fields = fps @ ts\<rparr> str = Some pdu \<and> buf_len pdu = T \<and>
     parse_sdu True ds pdu \<lparr>sd_name = nm, sd_fields = fps @ ts\<rparr> = Some (Some dst) \<and>
     list_all2 same_member (delivery now (of_nat T) fps ss) dst"
proof -
  obtain m where m: "gen_pdu True now ss \<lparr>sd_name = nm, sd_fields = fps @ ts\<rparr> str =
      Some \<lparr>buf_len = T, buf_total = T, buf_free = 0, buf_ptr = Some (take T m @ [0])\<rparr>" "is_pdu now T c fps ss m"
    using gen_pdu_is_pdu [OF assms] by blast
  obtain dst where "parse_sdu True ds \<lparr>buf_len = T, buf_total = T, buf_free = 0, buf_ptr = Some (take T m @ [0])\<rparr>
      \<lparr>sd_name = nm, sd_fields = fps @ ts\<rparr> = Some (Some dst)" "list_all2 same_member (delivery now (of_nat T) fps ss) dst"
    using parse_is_pdu [OF assms(1,3-8) m(2) refl] by blast
  then show ?thesis using m(1) by auto
qed

section \<open>Lengths the codec does not check\<close>

lemma append_str_overflow:
  assumes "bit_size mod 8 = 0" "length mem < cur + n" "n \<le> length src" "cur \<le> length mem"
  shows "append_str mem cur bit_size src n = None"
  using assms
proof (induction n arbitrary: mem cur bit_size src)
  case (Suc n)
  obtain c src' where src: "src = c # src'" using Suc.prems(3) by (cases src) auto
  show ?case
  proof (cases "cur < length mem")
    case True
    then obtain mem' where "append_bits 0 (ucast c) mem cur = Some (mem', cur + 1)" "length mem' = length mem"
      using append_bits_spec [of 0 cur mem "ucast c"] by auto
    moreover have "append_str mem' (cur + 1) (bit_size + 8) src' n = None"
      using Suc.prems src calculation(2) True by (intro Suc.IH) auto
    ultimately show ?thesis using src Suc.prems(1) by simp
  next
    case False
    then show ?thesis using src Suc.prems(1) by (simp add: append_bits.simps)
  qed
qed simp

definition str_desc :: "struct_desc_t" where
  "str_desc = \<lparr>sd_name = ''str'', sd_fields =
     [\<lparr>fd_type = ft_dl_str, fd_size = 0, fd_name = ''s'', fd_desc = No_Desc\<rparr>,
      \<lparr>fd_type = ft_end, fd_size = 0, fd_name = [], fd_desc = No_Desc\<rparr>]\<rparr>"

lemma gen_pdu_overflow:
  assumes "buf_wf b" "4096 < buf_len b"
  shows "gen_pdu ok now [BufPtr (Some b)] str_desc nm = None"
proof -
  have "append_str (replicate 4096 0) 0 0 (ptr_bytes (buf_ptr b)) (buf_len b) = None"
    using assms buf_wf_len by (intro append_str_overflow) auto
  then show ?thesis
    by (simp add: gen_pdu_def init_pbs_def out_struct_def str_desc_def sizeof_struct_def no_room_def out_field_def
        out_str_def slot_at_def Let_def)
qed

lemma in_p_raw_underflow:
  assumes "fd_desc fp = Raw_Desc r" "pbs_start (i_ins st) = Some s" "s \<le> i_cur st"
    and "unat (i_plen st) < i_cur st - s + r div 8" "i_cur st - s + r div 8 < 2 ^ 32"
  shows "in_p_raw ok mem fp st = None"
proof -
  define h where "h = i_cur st - s + r div 8"
  have e: "i_plen st - (of_nat (i_cur st) - of_nat s) - of_nat (r div 8) = i_plen st - of_nat h"
    using assms(3) by (simp add: h_def of_nat_diff)
  have uh: "unat (of_nat h :: u64) = h" using assms(5) by (intro unat_of_nat_small) (simp add: h_def)
  have hp: "unat (i_plen st) < h" "h < 2 ^ 32" using assms(4,5) by (auto simp: h_def)
  have "unat (i_plen st - of_nat h) = 2 ^ 64 + unat (i_plen st) - h"
    using hp uh unat_sub_if' [of "i_plen st" "of_nat h"] by simp
  then have "MAX_INPUT_BUFFER_SIZE < unat (i_plen st - (of_nat (i_cur st) - of_nat s) - of_nat (r div 8))"
    using hp unfolding e by (simp add: MAX_INPUT_BUFFER_SIZE_def)
  then show ?thesis using assms(1,2) by (simp add: in_p_raw_def in_detach_def Let_def split: bind_splits)
qed


section \<open>Properties\<close>

text \<open>
  Property C3: generating a packet and parsing it gives the struct back. For every descriptor
  whose fields fit the struct (\<open>codec_ok\<close>: numeric fields of 1 to 32 bits whose values fit,
  padding, fixed, dynamic and raw strings), with at most one length field and an optional CRC-8 or
  CRC-32 at a byte boundary, \<open>gen_pdu\<close> returns a packet of the computed length and \<open>parse_sdu\<close>
  accepts it; the members it stores are those that were sent, the length field holding the length
  of the packet.
\<close>

theorem codec_round_trip:
  assumes "codec_ok now T False 0 fps ss ds" "one_plen fps" "tail_len ts = Some c"
    and "body_end 0 fps ss = 8 * f" "T = f + c" "T \<le> 4096"
    and "sizeof_struct (fps @ ts) = Some z" "z \<le> T"
  shows "\<exists>pdu dst. gen_pdu True now ss \<lparr>sd_name = nm, sd_fields = fps @ ts\<rparr> str = Some pdu \<and> buf_len pdu = T \<and>
     parse_sdu True ds pdu \<lparr>sd_name = nm, sd_fields = fps @ ts\<rparr> = Some (Some dst) \<and>
     list_all2 same_member (delivery now (of_nat T) fps ss) dst"
  using codec_rt [OF assms] .

definition demo_fields :: "field_desc list" where
  "demo_fields =
     [\<lparr>fd_type = ft_set, fd_size = 4, fd_name = ''type'', fd_desc = No_Desc\<rparr>,
      \<lparr>fd_type = ft_plen, fd_size = 12, fd_name = ''len'', fd_desc = No_Desc\<rparr>,
      \<lparr>fd_type = ft_fix, fd_size = 3, fd_name = ''ver'', fd_desc = Fix_Desc \<lparr>fix_kind = NUMBER, fix_num = 5, fix_str = []\<rparr>\<rparr>,
      \<lparr>fd_type = ft_pad, fd_size = 0, fd_name = ''pad'', fd_desc = No_Desc\<rparr>,
      \<lparr>fd_type = ft_p_raw, fd_size = 0, fd_name = ''sdu'', fd_desc = Raw_Desc 8\<rparr>]"

definition demo_tail :: "field_desc list" where
  "demo_tail =
     [\<lparr>fd_type = ft_crc, fd_size = 8, fd_name = ''crc'', fd_desc = No_Desc\<rparr>,
      \<lparr>fd_type = ft_end, fd_size = 0, fd_name = [], fd_desc = No_Desc\<rparr>]"

definition demo_buf :: buffer_t where
  "demo_buf = \<lparr>buf_len = 2, buf_total = 2, buf_free = 0, buf_ptr = Some [0xAB, 0xCD, 0]\<rparr>"

lemma bytes_len_demo: "bytes_len 4 = Some 2" "bytes_len 12 = Some 4" "bytes_len 3 = Some 2"
  by (simp_all add: bytes_len_def first_from.simps)

theorem codec_round_trip_witness:
  "\<exists>pdu dst. gen_pdu True 0 [U8 9, U16 0, U8 0, BufPtr (Some demo_buf)] \<lparr>sd_name = ''demo'', sd_fields = demo_fields @ demo_tail\<rparr> ''out'' = Some pdu \<and>
     buf_len pdu = 6 \<and>
     parse_sdu True [U8 0, U16 0, U8 0, BufPtr None] pdu \<lparr>sd_name = ''demo'', sd_fields = demo_fields @ demo_tail\<rparr> = Some (Some dst) \<and>
     list_all2 same_member [U8 9, U16 6, U8 5, BufPtr (Some demo_buf)] dst"
proof -
  have ok: "codec_ok 0 6 False 0 demo_fields [U8 9, U16 0, U8 0, BufPtr (Some demo_buf)] [U8 0, U16 0, U8 0, BufPtr None]"
    by (simp add: demo_fields_def numeric_def num_ok_def member_def bytes_len_demo wire_def take_bit_numeral_numeral
        str_ok_def demo_buf_def buf_wf_def MAX_INPUT_BUFFER_SIZE_def)
  have tl: "one_plen demo_fields" "tail_len demo_tail = Some 1" "sizeof_struct (demo_fields @ demo_tail) = Some 4"
    by (simp_all add: one_plen_def demo_fields_def demo_tail_def sizeof_struct_def)
  have be: "body_end 0 demo_fields [U8 9, U16 0, U8 0, BufPtr (Some demo_buf)] = 8 * 5"
    by (simp add: demo_fields_def numeric_def demo_buf_def)
  have dv: "delivery 0 (of_nat 6) demo_fields [U8 9, U16 0, U8 0, BufPtr (Some demo_buf)] =
     [U8 9, U16 6, U8 5, BufPtr (Some demo_buf)]"
    by (simp add: demo_fields_def numeric_def delivered_def member_def bytes_len_demo wire_def)
  from codec_round_trip [OF ok tl(1,2) be _ _ tl(3), of "''demo''" "''out''"]
  show ?thesis unfolding dv by simp
qed


text \<open>
  Property C29: two lengths are taken on trust. A string longer than the 4096 bytes of the array in
  \<open>gen_pdu\<close> is written past its end (the room test only counts the fixed fields), and a packet
  whose length field is smaller than its own header makes the unsigned length of the raw payload
  wrap around, so that \<open>in_struct\<close> copies past its 8192-byte array.
\<close>

theorem codec_trusts_lengths:
  assumes "buf_wf b" "4096 < buf_len b" "fd_desc fp = Raw_Desc r" "pbs_start (i_ins st) = Some s" "s \<le> i_cur st"
    and "unat (i_plen st) < i_cur st - s + r div 8" "i_cur st - s + r div 8 < 2 ^ 32"
  shows "gen_pdu ok now [BufPtr (Some b)] str_desc nm = None \<and> in_p_raw ok mem fp st = None"
  using gen_pdu_overflow [OF assms(1,2)] in_p_raw_underflow [OF assms(3-7)] by blast

definition raw_state :: in_state where
  "raw_state = \<lparr>i_cur = 3, i_out = [BufPtr None], i_outp = 0, i_slen = 0, i_plen = 2, i_pay = Some 3,
     i_ins = the (init_pbs (Some 0) 3 ''p'')\<rparr>"

theorem codec_trusts_lengths_witness:
  "gen_pdu True 0 [BufPtr (Some \<lparr>buf_len = 5000, buf_total = 5000, buf_free = 0, buf_ptr = Some (replicate 5001 0)\<rparr>)] str_desc ''p'' = None \<and>
   in_p_raw True [1, 2, 3] \<lparr>fd_type = ft_p_raw, fd_size = 0, fd_name = ''sdu'', fd_desc = Raw_Desc 0\<rparr> raw_state = None"
  using codec_trusts_lengths [of "\<lparr>buf_len = 5000, buf_total = 5000, buf_free = 0, buf_ptr = Some (replicate 5001 0)\<rparr>"
    "\<lparr>fd_type = ft_p_raw, fd_size = 0, fd_name = ''sdu'', fd_desc = Raw_Desc 0\<rparr>" 0 raw_state 0 True 0 "''p''" "[1, 2, 3]"]
  by (simp add: buf_wf_def raw_state_def init_pbs_def)

text \<open>
  Closing a stream twice is not the same as closing it once, although the comment on
  \<open>close_output_pbs\<close> says it may be repeated with the last call winning: the checksum pointer has
  moved on, so the second call writes another checksum byte behind the first, and the length
  counter is spent, so it fills in nothing.
\<close>

theorem close_output_pbs_twice:
  assumes "slen_fld pbs = None" "plen_fld pbs = None" "pbs_start pbs = Some 0"
    and "crc_fld pbs = Some f" "crc_size pbs = 8" "f + 2 \<le> length mem"
  shows "\<exists>mem1 pbs1 mem2 pbs2. close_output_pbs mem pbs None = Some (mem1, pbs1, None) \<and>
     close_output_pbs mem1 pbs1 None = Some (mem2, pbs2, None) \<and> crc_fld pbs2 = Some (f + 2) \<and>
     mem2 = mem1[f + 1 := cal_crc_8bits (take (f + 1) mem1)] \<and> spent_shift (spent_shift t) = spent_shift t"
proof -
  have "spent_shift t \<le> - 8"
    by (induction t rule: spent_shift.induct) (subst spent_shift.simps, auto)
  then have s: "spent_shift (spent_shift t) = spent_shift t" by (subst spent_shift.simps) simp
  define m1 where "m1 = take f mem @ [cal_crc_8bits (take f mem)] @ drop (f + 1) mem"
  have len: "length m1 = length mem" using assms(6) by (simp add: m1_def)
  have c1: "close_output_pbs mem pbs None = Some (m1, pbs\<lparr>crc_fld := Some (f + 1)\<rparr>, None)"
    using assms by (simp add: close_output_pbs_def close_slen_def close_plen_def close_crc_def pbs_bytes_def mem_read_def
        mem_write_def m1_def)
  have "close_output_pbs m1 (pbs\<lparr>crc_fld := Some (f + 1)\<rparr>) None =
     Some (m1[f + 1 := cal_crc_8bits (take (f + 1) m1)], pbs\<lparr>crc_fld := Some (f + 2)\<rparr>, None)"
    using assms len by (simp add: close_output_pbs_def close_slen_def close_plen_def close_crc_def pbs_bytes_def mem_read_def
        mem_write_def upd_conv_take_nth_drop)
  with c1 s show ?thesis by auto
qed

theorem close_output_pbs_twice_witness:
  "\<exists>mem1 pbs1 mem2 pbs2. close_output_pbs [7, 0, 0] ((the (init_pbs (Some 0) 3 ''p''))\<lparr>crc_fld := Some 1, crc_size := 8\<rparr>) None =
       Some (mem1, pbs1, None) \<and>
     close_output_pbs mem1 pbs1 None = Some (mem2, pbs2, None) \<and> crc_fld pbs2 = Some 3"
  using close_output_pbs_twice [of "(the (init_pbs (Some 0) 3 ''p''))\<lparr>crc_fld := Some 1, crc_size := 8\<rparr>" 1 "[7, 0, 0]" 0]
  by (auto simp: init_pbs_def)

end
