(* ===== verification/Ipv6.thy ===== *)
theory Ipv6
  imports Santilizer_Spec
begin

text \<open>
  The descriptor of an IPv6 packet with a TCP segment, src/src/ipv6_parse.c and
  src/include/ipv6_parse.h: the one descriptor the SDK itself defines for the packet codec. It is
  an instance of the codec's round trip.
\<close>

record ipv6_tcp_t =
  ip_version :: u8
  traffic_class :: u8
  flow_label :: u32
  payload_len :: u16
  next_header :: u8
  hop_limit :: u8
  src_address :: "buffer_t option"
  dst_address :: "buffer_t option"
  src_port :: u16
  dst_port :: u16
  tcp_sqn :: u32
  tcp_ack :: u32
  tcp_bias :: u8
  tcp_reserve :: u8
  tcp_flag :: u16
  tcp_window :: u16
  tcp_checksum :: u16
  tcp_urgent :: u16
  tcp_data :: "buffer_t option"

text \<open>The packed struct as the codec walks it.\<close>

definition ipv6_members :: "ipv6_tcp_t \<Rightarrow> slot list" where
  "ipv6_members t =
     [U8 (ip_version t), U8 (traffic_class t), U32 (flow_label t), U16 (payload_len t), U8 (next_header t), U8 (hop_limit t),
      BufPtr (src_address t), BufPtr (dst_address t), U16 (src_port t), U16 (dst_port t), U32 (tcp_sqn t), U32 (tcp_ack t),
      U8 (tcp_bias t), U8 (tcp_reserve t), U16 (tcp_flag t), U16 (tcp_window t), U16 (tcp_checksum t), U16 (tcp_urgent t),
      BufPtr (tcp_data t)]"

abbreviation fset_of :: "nat \<Rightarrow> string \<Rightarrow> field_desc" where
  "fset_of n nm \<equiv> \<lparr>fd_type = ft_set, fd_size = n, fd_name = nm, fd_desc = No_Desc\<rparr>"

abbreviation fpad :: field_desc where
  "fpad \<equiv> \<lparr>fd_type = ft_pad, fd_size = 0, fd_name = ''PAD'', fd_desc = No_Desc\<rparr>"

definition ipv6_body :: "field_desc list" where
  "ipv6_body =
     [fset_of 4 ''VERSION'', fset_of 8 ''TRAFFIC CLASS'', fset_of 20 ''FLOW LABEL'', fset_of 16 ''PAYLOAD LEN'',
      fset_of 8 ''NEXT HEADER'', fset_of 8 ''HOP LIMIT'', fpad,
      \<lparr>fd_type = ft_fl_str, fd_size = 0, fd_name = ''IP SRC'', fd_desc = Len_Desc 16\<rparr>,
      \<lparr>fd_type = ft_fl_str, fd_size = 0, fd_name = ''IP DST'', fd_desc = Len_Desc 16\<rparr>,
      fset_of 16 ''SRC PORT'', fset_of 16 ''DST PORT'', fset_of 32 ''SQN'', fset_of 32 ''ACK'', fset_of 4 ''BIAS'',
      fset_of 3 ''PRESERVE'', fset_of 9 ''FLAG'', fset_of 16 ''WINDOW'', fset_of 16 ''CHECKSUM'', fset_of 16 ''URGENT'', fpad,
      \<lparr>fd_type = ft_dl_str, fd_size = 0, fd_name = ''DATA'', fd_desc = No_Desc\<rparr>, fpad]"

definition ipv6_end :: "field_desc list" where
  "ipv6_end = [\<lparr>fd_type = ft_end, fd_size = 0, fd_name = [], fd_desc = No_Desc\<rparr>]"

definition ipv6_tcp_fields :: "field_desc list" where
  "ipv6_tcp_fields = ipv6_body @ ipv6_end"

definition ipv6_tcp_desc :: struct_desc_t where
  "ipv6_tcp_desc = \<lparr>sd_name = ''TCP V6'', sd_fields = ipv6_tcp_fields\<rparr>"


section \<open>The descriptor fits its struct\<close>

text \<open>A header whose sub-byte fields are in range and whose addresses have 16 bytes.\<close>

definition ipv6_ok :: "ipv6_tcp_t \<Rightarrow> bool" where
  "ipv6_ok t \<longleftrightarrow>
     take_bit 4 (ip_version t) = ip_version t \<and> take_bit 20 (flow_label t) = flow_label t \<and>
     take_bit 4 (tcp_bias t) = tcp_bias t \<and> take_bit 3 (tcp_reserve t) = tcp_reserve t \<and>
     take_bit 9 (tcp_flag t) = tcp_flag t \<and>
     (case (src_address t, dst_address t, tcp_data t) of
        (Some a, Some b, Some d) \<Rightarrow> buf_wf a \<and> buf_len a = 16 \<and> buf_wf b \<and> buf_len b = 16 \<and> buf_wf d \<and> buf_len d \<le> 4036
      | _ \<Rightarrow> False)"

text \<open>The receiver has prepared a data buffer of the right size.\<close>

definition ipv6_ready :: "ipv6_tcp_t \<Rightarrow> ipv6_tcp_t \<Rightarrow> bool" where
  "ipv6_ready t r \<longleftrightarrow>
     (case (tcp_data t, tcp_data r) of
        (Some d, Some c) \<Rightarrow> buf_wf c \<and> buf_len c = 0 \<and> buf_free c = buf_len d
      | _ \<Rightarrow> False)"

lemma bytes_len_ipv6:
  "bytes_len 3 = Some 2" "bytes_len 4 = Some 2" "bytes_len 8 = Some 3" "bytes_len 9 = Some 4" "bytes_len 16 = Some 4"
  "bytes_len 20 = Some 5" "bytes_len 32 = Some 5"
  by (simp_all add: bytes_len_def first_from.simps)

lemma take_bit_ucast_wide: "LENGTH('a) \<le> n \<Longrightarrow> take_bit n (ucast (w :: 'a::len word) :: u64) = ucast w"
  by (auto intro!: bit_word_eqI simp: bit_take_bit_iff bit_unsigned_iff) (metis bit_imp_le_length order_less_le_trans)

lemma take_bit_ucast_fits: "take_bit n w = w \<Longrightarrow> take_bit n (ucast (w :: 'a::len word) :: u64) = ucast w"
  using fits_bits [of n w] by (auto intro!: bit_word_eqI simp: bit_take_bit_iff bit_unsigned_iff) (metis not_le)

lemma num_ok_set:
  assumes "0 < n" "n \<le> 32" "bytes_len n = Some k" "load_slot k s = Some v" "load_slot k d \<noteq> None" "take_bit n v = v"
  shows "num_ok now T (fset_of n nm) s d"
  using assms by (simp add: num_ok_def member_def wire_def)

lemma delivered_set: "bytes_len n = Some k \<Longrightarrow> load_slot k s = Some v \<Longrightarrow> store_slot k v s = Some s \<Longrightarrow> delivered now T (fset_of n nm) s = s"
  by (simp add: delivered_def member_def wire_def)


lemmas ipv6_num =
  num_ok_set [OF _ _ bytes_len_ipv6(1)] num_ok_set [OF _ _ bytes_len_ipv6(2)] num_ok_set [OF _ _ bytes_len_ipv6(3)]
  num_ok_set [OF _ _ bytes_len_ipv6(4)] num_ok_set [OF _ _ bytes_len_ipv6(5)] num_ok_set [OF _ _ bytes_len_ipv6(6)]
  num_ok_set [OF _ _ bytes_len_ipv6(7)]

lemma ipv6_codec_ok:
  assumes "ipv6_ok t" "ipv6_ready t r" "tcp_data t = Some d"
  shows "codec_ok now (60 + buf_len d) False 0 ipv6_body (ipv6_members t) (ipv6_members r) \<and>
     body_end 0 ipv6_body (ipv6_members t) = 8 * (60 + buf_len d) \<and>
     delivery now T ipv6_body (ipv6_members t) = ipv6_members t"
proof -
  obtain a b where ab: "src_address t = Some a" "dst_address t = Some b" "buf_wf a" "buf_len a = 16" "buf_wf b" "buf_len b = 16"
    "buf_wf d" "buf_len d \<le> 4036" using assms by (auto simp: ipv6_ok_def split: option.splits)
  obtain c where c: "tcp_data r = Some c" "buf_wf c" "buf_len c = 0" "buf_free c = buf_len d"
    using assms(2,3) by (auto simp: ipv6_ready_def split: option.splits)
  have tb: "take_bit 4 (ip_version t) = ip_version t" "take_bit 20 (flow_label t) = flow_label t"
     "take_bit 4 (tcp_bias t) = tcp_bias t" "take_bit 3 (tcp_reserve t) = tcp_reserve t"
     "take_bit 9 (tcp_flag t) = tcp_flag t" using assms(1) by (simp_all add: ipv6_ok_def)
  have "codec_ok now (60 + buf_len d) False 0 ipv6_body (ipv6_members t) (ipv6_members r)"
    using tb [THEN take_bit_ucast_fits] ab c assms(3)
    by (simp add: ipv6_body_def ipv6_members_def numeric_def str_ok_def MAX_INPUT_BUFFER_SIZE_def ipv6_num take_bit_ucast_wide)
  moreover have "body_end 0 ipv6_body (ipv6_members t) = 8 * (60 + buf_len d)"
    using ab assms(3) by (simp add: ipv6_body_def ipv6_members_def numeric_def)
  moreover have "delivery now T ipv6_body (ipv6_members t) = ipv6_members t"
    by (simp add: ipv6_body_def ipv6_members_def numeric_def delivered_def member_def wire_def bytes_len_ipv6)
  ultimately show ?thesis by blast
qed


section \<open>Properties\<close>


definition demo_bytes :: "nat \<Rightarrow> buffer_t" where
  "demo_bytes n = \<lparr>buf_len = n, buf_total = n, buf_free = 0, buf_ptr = Some (replicate (n + 1) 7)\<rparr>"

definition demo_packet :: "nat \<Rightarrow> ipv6_tcp_t" where
  "demo_packet n = \<lparr>ip_version = 6, traffic_class = 0, flow_label = 0, payload_len = 20, next_header = 6, hop_limit = 64,
     src_address = Some (demo_bytes 16), dst_address = Some (demo_bytes 16), src_port = 80, dst_port = 443, tcp_sqn = 1, tcp_ack = 2,
     tcp_bias = 5, tcp_reserve = 0, tcp_flag = 2, tcp_window = 512, tcp_checksum = 0, tcp_urgent = 0, tcp_data = Some (demo_bytes n)\<rparr>"


end
