(* ===== verification/Net_Stream.thy ===== *)
theory Net_Stream
  imports Santilizer_Spec
begin

text \<open>
  The packet stream of a connection in src/src/ld_net.c: \<open>write_packet\<close> puts a four-byte length in
  front of every packet of the send queue and writes it to the socket in whatever pieces the
  kernel accepts; \<open>read_packet\<close> and \<open>process_complete_packets\<close> put the received bytes together
  again and call the receive handler once per packet.

  The kernel is a list of results: what the successive calls of \<open>read\<close> and \<open>write\<close> return. The
  receive handler is an argument: it maps its own state and the packet to a verdict and a new
  state. The send queue is the list of its buffers. Allocations succeed.
\<close>

section \<open>Connections\<close>

datatype conn_state = CONN_STATE_CONNECTED | CONN_STATE_CLOSING | CONN_STATE_CLOSED

datatype interest = EV_IN | EV_OUT

record basic_conn_t =
  bc_fd :: int
  bc_events :: interest
  bc_read_pkt :: "buffer_t option"
  bc_write_pkts :: "buffer_t list option"
  bc_trans_done :: bool
  bc_role :: nat
  bc_cur :: "buffer_t option"
  bc_off :: nat
  bc_recv :: "buffer_t option"
  bc_expected :: u32
  bc_reading_header :: bool
  bc_state :: conn_state

datatype errno = EAGAIN | EINTR | ECONNRESET | ETIMEDOUT | EBADF | EINVAL | EPIPE | EOTHER

abbreviation NET_OK :: int where "NET_OK \<equiv> 0"
abbreviation NET_AGAIN :: int where "NET_AGAIN \<equiv> 1"
abbreviation NET_ERROR :: int where "NET_ERROR \<equiv> - 1"
abbreviation DEFAULT_FD :: int where "DEFAULT_FD \<equiv> - 1"


section \<open>Receiving\<close>

definition remove_from_buffer_front :: "buffer_t \<Rightarrow> nat \<Rightarrow> buffer_t option" where
  "remove_from_buffer_front buf n =
     (if n = 0 then Some buf
      else if buf_len buf \<le> n then Some (buf\<lparr>buf_len := 0\<rparr>)
      else do {
        d \<leftarrow> buf_ptr buf;
        src \<leftarrow> mem_read d n (buf_len buf - n);
        d \<leftarrow> mem_write d 0 src;
        Some (buf\<lparr>buf_ptr := Some d, buf_len := buf_len buf - n\<rparr>) })"

lemma remove_front_len: "remove_from_buffer_front b n = Some b' \<Longrightarrow> buf_len b' = buf_len b - n"
  by (auto simp: remove_from_buffer_front_def split: if_splits bind_splits)

text \<open>
  \<open>process_complete_packets\<close>: the loop over the bytes collected so far. A length above
  \<open>MAX_INPUT_BUFFER_SIZE\<close> and a handler that answers LD_ERR_INTERNAL end it with an error.
\<close>

function process_complete_packets ::
  "('s \<Rightarrow> buffer_t \<Rightarrow> l_err \<times> 's) option \<Rightarrow> basic_conn_t \<Rightarrow> 's \<Rightarrow> (int \<times> basic_conn_t \<times> 's) option" where
  "process_complete_packets h bc s =
     (case bc_recv bc of
        None \<Rightarrow> Some (NET_OK, bc, s)
      | Some rb \<Rightarrow>
          if buf_len rb = 0 then Some (NET_OK, bc, s)
          else if bc_reading_header bc then
            if buf_len rb < 4 then Some (NET_OK, bc, s)
            else do {
              hdr \<leftarrow> mem_read (ptr_bytes (buf_ptr rb)) 0 4;
              rb' \<leftarrow> remove_from_buffer_front rb 4;
              let bc = bc\<lparr>bc_expected := be32 hdr\<rparr>;
              if be32 hdr = 0 then process_complete_packets h (bc\<lparr>bc_recv := Some rb'\<rparr>) s
              else if unat (be32 hdr) > MAX_INPUT_BUFFER_SIZE then Some (NET_ERROR, bc, s)
              else process_complete_packets h (bc\<lparr>bc_recv := Some rb', bc_reading_header := False\<rparr>) s }
          else
            if buf_len rb < unat (bc_expected bc) then Some (NET_OK, bc, s)
            else do {
              pkt \<leftarrow> clone_to_chunk True init_buffer_unptr (buf_ptr rb) (unat (bc_expected bc));
              let (r, s) = (case h of None \<Rightarrow> (LD_OK, s) | Some f \<Rightarrow> f s pkt);
              if r = LD_ERR_INTERNAL then Some (NET_ERROR, bc\<lparr>bc_read_pkt := None\<rparr>, s)
              else do {
                rb' \<leftarrow> remove_from_buffer_front rb (unat (bc_expected bc));
                process_complete_packets h
                  (bc\<lparr>bc_read_pkt := None, bc_recv := Some rb', bc_reading_header := True, bc_expected := 0\<rparr>) s } })"
  by pat_completeness auto
termination
  by (relation "measure (\<lambda>(h, bc, s). (case bc_recv bc of None \<Rightarrow> 0 | Some rb \<Rightarrow> 2 * buf_len rb) +
        (if bc_reading_header bc then 0 else 1))")
     (auto dest!: remove_front_len)

declare process_complete_packets.simps [simp del]

text \<open>What one call of \<open>read\<close> returns; no bytes means that the peer has closed.\<close>

datatype read_res = Got "u8 list" | Rerr errno

fun read_loop ::
  "('s \<Rightarrow> buffer_t \<Rightarrow> l_err \<times> 's) option \<Rightarrow> read_res list \<Rightarrow> bool \<Rightarrow> basic_conn_t \<Rightarrow> 's \<Rightarrow>
   (int \<times> basic_conn_t \<times> 's \<times> read_res list) option" where
  "read_loop h [] any bc s = None"
| "read_loop h (Got d # rs) any bc s =
     (if d = [] then Some (NET_ERROR, bc\<lparr>bc_state := CONN_STATE_CLOSED\<rparr>, s, rs)
      else if length d > MAX_INPUT_BUFFER_SIZE then None
      else do {
        rb \<leftarrow> bc_recv bc;
        (rb, _) \<leftarrow> cat_to_buffer True rb d (length d);
        (r, bc, s) \<leftarrow> process_complete_packets h (bc\<lparr>bc_recv := Some rb\<rparr>) s;
        if r = NET_ERROR then Some (NET_ERROR, bc, s, rs) else read_loop h rs True bc s })"
| "read_loop h (Rerr e # rs) any bc s =
     (case e of
        EAGAIN \<Rightarrow> Some (NET_OK, bc, s, rs)
      | EINTR \<Rightarrow> if any then Some (NET_OK, bc, s, rs) else read_loop h rs any bc s
      | ECONNRESET \<Rightarrow> Some (NET_ERROR, bc\<lparr>bc_state := CONN_STATE_CLOSED\<rparr>, s, rs)
      | _ \<Rightarrow> Some (NET_ERROR, bc, s, rs))"

definition read_packet ::
  "('s \<Rightarrow> buffer_t \<Rightarrow> l_err \<times> 's) option \<Rightarrow> read_res list \<Rightarrow> basic_conn_t \<Rightarrow> 's \<Rightarrow>
   (int \<times> basic_conn_t \<times> 's \<times> read_res list) option" where
  "read_packet h rs bc s =
     read_loop h rs False
       (if bc_recv bc = None
        then bc\<lparr>bc_recv := Some init_buffer_unptr, bc_reading_header := True, bc_expected := 0\<rparr> else bc) s"

definition request_handle ::
  "('s \<Rightarrow> buffer_t \<Rightarrow> l_err \<times> 's) option \<Rightarrow> read_res list \<Rightarrow> basic_conn_t \<Rightarrow> 's \<Rightarrow>
   (int \<times> basic_conn_t \<times> 's \<times> read_res list) option" where
  "request_handle h rs bc s =
     (if bc_state bc \<noteq> CONN_STATE_CONNECTED then Some (NET_ERROR, bc, s, rs)
      else if bc_fd bc < 0 \<or> bc_fd bc = DEFAULT_FD then Some (NET_ERROR, bc, s, rs)
      else if h \<noteq> None then read_packet h rs bc s
      else Some (NET_OK, bc, s, rs))"


section \<open>Sending\<close>

text \<open>What one call of \<open>write\<close> returns: the number of bytes taken, at most those offered.\<close>

datatype write_res = Wrote nat | Werr errno

datatype write_ctl = Continue | Return int

definition write_done :: "write_res \<Rightarrow> basic_conn_t \<Rightarrow> buffer_t \<Rightarrow> (write_ctl \<times> basic_conn_t \<times> u8 list) option" where
  "write_done w bc b = do {
     rest \<leftarrow> mem_read (ptr_bytes (buf_ptr b)) (bc_off bc) (buf_len b - bc_off bc);
     case w of
       Wrote n \<Rightarrow>
         (let n = min n (length rest) in
          if n = 0 then Some (Return NET_ERROR, bc, [])
          else let bc = bc\<lparr>bc_off := bc_off bc + n\<rparr> in
            if buf_len b \<le> bc_off bc
            then Some (Continue, bc\<lparr>bc_cur := None, bc_off := 0\<rparr>, take n rest)
            else Some (Return NET_AGAIN, bc, take n rest))
     | Werr EAGAIN \<Rightarrow> Some (Return NET_AGAIN, bc, [])
     | Werr EINTR \<Rightarrow> Some (Continue, bc, [])
     | Werr _ \<Rightarrow> Some (Return NET_ERROR, bc, []) }"

definition htonl_bytes :: "u32 \<Rightarrow> u8 list" where
  "htonl_bytes v = [ucast (drop_bit 24 v), ucast (drop_bit 16 v), ucast (drop_bit 8 v), ucast v]"

text \<open>The packet with its length in front; the length is cut to 32 bits.\<close>

definition make_frame :: "buffer_t \<Rightarrow> buffer_t option" where
  "make_frame b = do {
     (f, _) \<leftarrow> cat_to_buffer True init_buffer_unptr (htonl_bytes (of_nat (buf_len b))) 4;
     (f, _) \<leftarrow> cat_to_buffer True f (ptr_bytes (buf_ptr b)) (buf_len b);
     Some f }"

definition next_buffer :: "basic_conn_t \<Rightarrow> (buffer_t option \<times> basic_conn_t) option" where
  "next_buffer bc =
     (case bc_cur bc of
        Some b \<Rightarrow> Some (Some b, bc)
      | None \<Rightarrow>
          (case bc_write_pkts bc of
             None \<Rightarrow> None
           | Some [] \<Rightarrow> Some (None, bc)
           | Some (b # q) \<Rightarrow> do {
               f \<leftarrow> make_frame b;
               Some (Some f, bc\<lparr>bc_write_pkts := Some q, bc_cur := Some f, bc_off := 0\<rparr>) }))"

function write_packet ::
  "write_res list \<Rightarrow> basic_conn_t \<Rightarrow> (int \<times> basic_conn_t \<times> u8 list \<times> write_res list) option" where
  "write_packet ws bc = do {
     (b, bc) \<leftarrow> next_buffer bc;
     case b of
       None \<Rightarrow> Some (NET_OK, bc, [], ws)
     | Some b \<Rightarrow>
         (case ws of
            [] \<Rightarrow> None
          | w # ws \<Rightarrow> do {
              (c, bc, out) \<leftarrow> write_done w bc b;
              case c of
                Return r \<Rightarrow> Some (r, bc, out, ws)
              | Continue \<Rightarrow> do {
                  (r, bc, out', ws) \<leftarrow> write_packet ws bc;
                  Some (r, bc, out @ out', ws) } }) }"
  by pat_completeness auto
termination
  by (relation "measure (\<lambda>(ws, bc). length ws)") auto

declare write_packet.simps [simp del]

text \<open>
  \<open>defalut_send_pkt\<close>: an optional callback writes a prefix into the fresh buffer, the packet is
  appended and queued, and the write event is requested unless a packet is being sent.
\<close>

definition defalut_send_pkt :: "(buffer_t \<Rightarrow> buffer_t) option \<Rightarrow> basic_conn_t \<Rightarrow> buffer_t \<Rightarrow> basic_conn_t option" where
  "defalut_send_pkt mid_func bc in_buf = do {
     let buf = (case mid_func of None \<Rightarrow> init_buffer_unptr | Some f \<Rightarrow> f init_buffer_unptr);
     (buf, _) \<leftarrow> cat_to_buffer True buf (ptr_bytes (buf_ptr in_buf)) (buf_len in_buf);
     q \<leftarrow> bc_write_pkts bc;
     let bc = bc\<lparr>bc_write_pkts := Some (q @ [buf])\<rparr>;
     Some (if bc_cur bc = None then bc\<lparr>bc_events := EV_OUT\<rparr> else bc) }"


section \<open>The stream as a sequence of packets\<close>

text \<open>
  \<open>deframe w bs\<close> is the reference: \<open>w\<close> is \<open>None\<close> in front of a length and \<open>Some n\<close> in front of
  \<open>n\<close> bytes of packet. It returns the complete packets and either where it stands or \<open>None\<close> for a
  length that is too large.
\<close>

function deframe :: "nat option \<Rightarrow> u8 list \<Rightarrow> u8 list list \<times> (nat option \<times> u8 list) option" where
  "deframe None bs =
     (if length bs < 4 then ([], Some (None, bs))
      else let n = unat (be32 (take 4 bs)) in
        if n = 0 then deframe None (drop 4 bs)
        else if n > MAX_INPUT_BUFFER_SIZE then ([], None)
        else deframe (Some n) (drop 4 bs))"
| "deframe (Some n) bs =
     (if length bs < n then ([], Some (Some n, bs))
      else let (ps, r) = deframe None (drop n bs) in (take n bs # ps, r))"
  by pat_completeness auto
termination
  by (relation "measure (\<lambda>(w, bs). 2 * length bs + (if w = None then 0 else 1))") auto

declare deframe.simps [simp del]

definition put_front :: "u8 list list \<Rightarrow> u8 list list \<times> 'a \<Rightarrow> u8 list list \<times> 'a" where
  "put_front ps r = (ps @ fst r, snd r)"

lemma put_front_simps [simp]:
  "put_front [] r = r" "put_front ps (qs, x) = (ps @ qs, x)" "put_front ps (put_front qs r) = put_front (ps @ qs) r"
  by (simp_all add: put_front_def)

lemma deframe_Some: "n \<le> length bs \<Longrightarrow> deframe (Some n) bs = put_front [take n bs] (deframe None (drop n bs))"
  by (cases "deframe None (drop n bs)") (simp add: deframe.simps(2))

text \<open>Deframing can be interrupted anywhere and continued when more bytes have come.\<close>

lemma deframe_append:
  "deframe w bs = (ps, Some (w', rest)) \<Longrightarrow> deframe w (bs @ cs) = put_front ps (deframe w' (rest @ cs))"
proof (induction w bs arbitrary: ps rule: deframe.induct)
  case (1 bs)
  show ?case
  proof (cases "length bs < 4")
    case True
    then show ?thesis using 1 by (simp add: deframe.simps(1) [of bs])
  next
    case False
    define n where "n = unat (be32 (take 4 bs))"
    have e: "deframe None (bs @ cs) = (if n = 0 then deframe None (drop 4 bs @ cs)
        else if n > MAX_INPUT_BUFFER_SIZE then ([], None) else deframe (Some n) (drop 4 bs @ cs))"
      using False by (simp add: deframe.simps(1) [of "bs @ cs"] n_def Let_def)
    show ?thesis using 1 False unfolding e by (simp add: deframe.simps(1) [of bs] n_def [symmetric] Let_def split: if_splits)
  qed
next
  case (2 n bs)
  show ?case
  proof (cases "length bs < n")
    case True
    then show ?thesis using 2 by (simp add: deframe.simps(2) [of n bs])
  next
    case False
    obtain qs where q: "deframe None (drop n bs) = (qs, Some (w', rest))" "ps = take n bs # qs"
      using 2(2) False by (auto simp: deframe.simps(2) split: prod.splits)
    then have "deframe None (drop n bs @ cs) = put_front qs (deframe w' (rest @ cs))" using 2(1) False by simp
    then show ?thesis using False q by (simp add: deframe_Some)
  qed
qed

text \<open>A bad length stays bad whatever follows, and a position that waits for bytes stays there.\<close>

lemma deframe_bad: "deframe w bs = (ps, None) \<Longrightarrow> snd (deframe w (bs @ cs)) = None"
proof (induction w bs arbitrary: ps rule: deframe.induct)
  case (1 bs)
  have "\<not> length bs < 4" using 1(3) by (auto simp: deframe.simps(1) [of bs])
  then show ?case using 1 by (simp add: deframe.simps(1) [of bs] deframe.simps(1) [of "bs @ cs"] Let_def split: if_splits)
next
  case (2 n bs)
  have l: "\<not> length bs < n" using 2(2) by (auto simp: deframe.simps(2) [of n bs])
  then obtain qs where "deframe None (drop n bs) = (qs, None)" using 2(2) by (auto simp: deframe.simps(2) [of n bs] split: prod.splits)
  then have "snd (deframe None (drop n bs @ cs)) = None" using 2(1) l by blast
  then show ?case using l by (simp add: deframe_Some put_front_def)
qed

lemma deframe_idle: "deframe w bs = (ps, Some (w', rest)) \<Longrightarrow> deframe w' rest = ([], Some (w', rest))"
proof (induction w bs arbitrary: ps rule: deframe.induct)
  case (1 bs)
  then show ?case by (cases "length bs < 4") (auto simp: deframe.simps(1) [of bs] deframe.simps(1) [of rest] Let_def split: if_splits)
next
  case (2 n bs)
  show ?case
  proof (cases "length bs < n")
    case True
    then show ?thesis using 2(2) by (auto simp: deframe.simps(2))
  next
    case False
    then obtain qs where "deframe None (drop n bs) = (qs, Some (w', rest))" using 2(2) by (auto simp: deframe.simps(2) split: prod.splits)
    then show ?thesis using 2(1) False by blast
  qed
qed

definition frame :: "u8 list \<Rightarrow> u8 list" where
  "frame p = htonl_bytes (of_nat (length p)) @ p"

lemma htonl_crc32_bytes: "htonl_bytes v = crc32_bytes v"
  by (simp add: htonl_bytes_def crc32_bytes_def)

lemma length_htonl [simp]: "length (htonl_bytes v) = 4"
  by (simp add: htonl_bytes_def)

lemma be32_htonl [simp]: "be32 (htonl_bytes v) = v"
  by (simp add: htonl_crc32_bytes be32_crc32_bytes)

definition sendable :: "u8 list \<Rightarrow> bool" where
  "sendable p \<longleftrightarrow> 0 < length p \<and> length p \<le> MAX_INPUT_BUFFER_SIZE"

lemma deframe_frames: "list_all sendable ps \<Longrightarrow> deframe None (concat (map frame ps)) = (ps, Some (None, []))"
proof (induction ps)
  case Nil
  then show ?case by (simp add: deframe.simps(1))
next
  case (Cons p ps)
  have n: "0 < length p" "length p \<le> 8192" using Cons.prems by (simp_all add: sendable_def MAX_INPUT_BUFFER_SIZE_def)
  have u: "unat (of_nat (length p) :: u32) = length p" using n by (intro unat_of_nat_small) simp
  have "deframe None (frame p @ concat (map frame ps)) = deframe (Some (length p)) (p @ concat (map frame ps))"
    using n u by (subst deframe.simps(1)) (simp add: frame_def MAX_INPUT_BUFFER_SIZE_def)
  also have "\<dots> = (p # ps, Some (None, []))" using Cons by (simp add: deframe_Some)
  finally show ?case by simp
qed


section \<open>The receiver follows the reference\<close>

text \<open>The handler over a list of packets, up to the first failure.\<close>

fun handle_all :: "('s \<Rightarrow> u8 list \<Rightarrow> l_err \<times> 's) \<Rightarrow> 's \<Rightarrow> u8 list list \<Rightarrow> bool \<times> 's" where
  "handle_all f s [] = (True, s)"
| "handle_all f s (p # ps) =
     (case f s p of (r, s') \<Rightarrow> if r = LD_ERR_INTERNAL then (False, s') else handle_all f s' ps)"

lemma handle_all_append:
  "handle_all f s (ps @ qs) = (case handle_all f s ps of (ok, s') \<Rightarrow> if ok then handle_all f s' qs else (False, s'))"
  by (induction ps arbitrary: s) (auto split: prod.splits)

text \<open>A handler that only looks at the packet's bytes.\<close>

definition on_bytes :: "('s \<Rightarrow> u8 list \<Rightarrow> l_err \<times> 's) \<Rightarrow> 's \<Rightarrow> buffer_t \<Rightarrow> l_err \<times> 's" where
  "on_bytes f s b = f s (buf_bytes b)"

text \<open>\<open>rx bc w bs\<close>: the receive side of the connection holds the bytes \<open>bs\<close> and stands at \<open>w\<close>.\<close>

definition rx :: "basic_conn_t \<Rightarrow> nat option \<Rightarrow> u8 list \<Rightarrow> bool" where
  "rx bc w bs \<longleftrightarrow>
     (\<exists>rb. bc_recv bc = Some rb \<and> buf_wf rb \<and> buf_bytes rb = bs) \<and>
     (case w of None \<Rightarrow> bc_reading_header bc | Some n \<Rightarrow> \<not> bc_reading_header bc \<and> unat (bc_expected bc) = n \<and> 0 < n)"

lemma remove_front_bytes:
  assumes "buf_wf b" "n \<le> buf_len b" "0 < buf_len b"
  obtains b' where "remove_from_buffer_front b n = Some b'" "buf_wf b'" "buf_bytes b' = drop n (buf_bytes b)"
proof -
  obtain d where d: "buf_ptr b = Some d" "buf_len b + buf_free b \<le> buf_total b" "length d = buf_total b + 1"
    using assms by (auto simp: buf_wf_def split: option.splits)
  show thesis
  proof (cases "buf_len b \<le> n")
    case True
    then show ?thesis using assms d that [of "b\<lparr>buf_len := 0\<rparr>"]
      by (auto simp: remove_from_buffer_front_def buf_wf_def buf_bytes_def)
  next
    case False
    define r where "r = take (buf_len b - n) (drop n d)"
    have r: "length r = buf_len b - n" using d False by (simp add: r_def)
    have w: "mem_write d 0 r = Some (r @ drop (length r) d)" using d r False by (simp add: mem_write_def)
    define b' where "b' = b\<lparr>buf_ptr := Some (r @ drop (length r) d), buf_len := buf_len b - n\<rparr>"
    have "mem_read d n (buf_len b - n) = Some r" using d False by (simp add: mem_read_def r_def)
    then have "remove_from_buffer_front b n = Some (if n = 0 then b else b')"
      using False d(1) w by (simp add: remove_from_buffer_front_def b'_def)
    moreover have "buf_wf b'" using d r False by (simp add: buf_wf_def b'_def)
    moreover have "buf_bytes b' = drop n (buf_bytes b)"
      using d(1) r by (simp add: b'_def buf_bytes_def drop_take) (simp add: r_def)
    ultimately show ?thesis using assms(1) that [of "if n = 0 then b else b'"] by (cases "n = 0") simp_all
  qed
qed


lemma take_buf_bytes: "n \<le> buf_len b \<Longrightarrow> take n (ptr_bytes (buf_ptr b)) = take n (buf_bytes b)"
  by (simp add: buf_bytes_def min_def)

lemma unat_eq_0_u32: "unat (v :: u32) = 0 \<longleftrightarrow> v = 0"
  by (rule unat_eq_zero)

lemma process_follows:
  assumes "rx bc w bs" "deframe w bs = (ps, r)" "handle_all f s ps = (ok, s')" "bc_read_pkt bc = None"
  shows "\<exists>bc'. process_complete_packets (Some (on_bytes f)) bc s = Some (if ok \<and> r \<noteq> None then NET_OK else NET_ERROR, bc', s') \<and>
     bc_read_pkt bc' = None \<and> (ok \<longrightarrow> (\<forall>w' rest. r = Some (w', rest) \<longrightarrow> rx bc' w' rest))"
  using assms
proof (induction w bs arbitrary: bc ps s rule: deframe.induct)
  case (1 bs)
  obtain rb where rb: "bc_recv bc = Some rb" "buf_wf rb" "buf_bytes rb = bs" "bc_reading_header bc"
    using 1(3) by (auto simp: rx_def)
  have len: "buf_len rb = length bs" using length_buf_bytes [OF rb(2)] rb(3) by simp
  show ?case
  proof (cases "length bs < 4")
    case True
    then have "ps = []" "r = Some (None, bs)" using 1(4) by (auto simp: deframe.simps(1))
    then show ?thesis using 1(3,5,6) True rb len by (subst process_complete_packets.simps) auto
  next
    case False
    define v where "v = be32 (take 4 bs)"
    have ne: "bs \<noteq> []" using False by auto
    have hdr: "mem_read (ptr_bytes (buf_ptr rb)) 0 4 = Some (take 4 bs)"
      using False len buf_wf_len [OF rb(2)] rb(3) take_buf_bytes [of 4 rb] by (simp add: mem_read_def)
    obtain rb' where rb': "remove_from_buffer_front rb 4 = Some rb'" "buf_wf rb'" "buf_bytes rb' = drop 4 bs"
    proof -
      have "4 \<le> buf_len rb" "0 < buf_len rb" using False len by linarith+
      from remove_front_bytes [OF rb(2) this] show thesis using that rb(3) by metis
    qed
    have step: "process_complete_packets (Some (on_bytes f)) bc s =
       (if v = 0 then process_complete_packets (Some (on_bytes f)) (bc\<lparr>bc_expected := v, bc_recv := Some rb'\<rparr>) s
        else if unat v > MAX_INPUT_BUFFER_SIZE then Some (NET_ERROR, bc\<lparr>bc_expected := v\<rparr>, s)
        else process_complete_packets (Some (on_bytes f)) (bc\<lparr>bc_expected := v, bc_recv := Some rb', bc_reading_header := False\<rparr>) s)"
      using rb len False ne hdr rb'(1) by (subst process_complete_packets.simps) (simp add: v_def Let_def)
    consider "v = 0" | "v \<noteq> 0" "unat v > MAX_INPUT_BUFFER_SIZE" | "v \<noteq> 0" "\<not> unat v > MAX_INPUT_BUFFER_SIZE" by blast
    then show ?thesis
    proof cases
      case c: 1
      then have d: "deframe None (drop 4 bs) = (ps, r)" using 1(4) False by (simp add: deframe.simps(1) [of bs] v_def)
      have "rx (bc\<lparr>bc_expected := v, bc_recv := Some rb'\<rparr>) None (drop 4 bs)" using rb' rb(4) by (simp add: rx_def)
      from "1.IH"(1) [OF False refl _ this d 1(5)] show ?thesis using c 1(6) unfolding step by (simp add: v_def)
    next
      case c: 2
      then have "ps = []" "r = None" using 1(4) False by (auto simp: deframe.simps(1) [of bs] v_def [symmetric] unat_eq_0_u32)
      then show ?thesis using c 1(5,6) unfolding step by auto
    next
      case c: 3
      then have d: "deframe (Some (unat v)) (drop 4 bs) = (ps, r)" using 1(4) False by (simp add: deframe.simps(1) [of bs] v_def [symmetric] unat_eq_0_u32)
      have "rx (bc\<lparr>bc_expected := v, bc_recv := Some rb', bc_reading_header := False\<rparr>) (Some (unat v)) (drop 4 bs)"
        using rb' c unat_eq_0_u32 [of v] by (simp add: rx_def)
      from "1.IH"(2) [OF False v_def [THEN arg_cong] _ _ this d 1(5)] show ?thesis
        using c 1(6) unat_eq_0_u32 [of v] unfolding step by simp
    qed
  qed
next
  case (2 n bs)
  obtain rb where rb: "bc_recv bc = Some rb" "buf_wf rb" "buf_bytes rb = bs" "\<not> bc_reading_header bc" "unat (bc_expected bc) = n" "0 < n"
    using 2(2) by (auto simp: rx_def)
  have len: "buf_len rb = length bs" using length_buf_bytes [OF rb(2)] rb(3) by simp
  show ?case
  proof (cases "length bs < n")
    case True
    then have "ps = []" "r = Some (Some n, bs)" using 2(3) by (auto simp: deframe.simps(2))
    then show ?thesis using 2(2,4,5) True rb len by (subst process_complete_packets.simps) auto
  next
    case False
    obtain qs where q: "deframe None (drop n bs) = (qs, r)" "ps = take n bs # qs"
      using 2(3) False by (auto simp: deframe.simps(2) split: prod.splits)
    obtain d where d: "buf_ptr rb = Some d" "n \<le> length d" "take n d = take n bs"
      using rb(3,6) len False buf_wf_len [OF rb(2)] take_buf_bytes [of n rb] by (cases "buf_ptr rb") auto
    define pkt where "pkt = \<lparr>buf_len = n, buf_total = n, buf_free = 0, buf_ptr = Some (take n d @ [0])\<rparr>"
    have pkt: "clone_to_chunk True init_buffer_unptr (buf_ptr rb) n = Some pkt" "buf_bytes pkt = take n bs"
      using d False clone_to_chunk_bytes [of n d] by (simp_all add: pkt_def buf_bytes_def)
    obtain c s1 where h: "f s (take n bs) = (c, s1)" by (cases "f s (take n bs)")
    obtain rb' where rb': "remove_from_buffer_front rb n = Some rb'" "buf_wf rb'" "buf_bytes rb' = drop n bs"
    proof -
      have "n \<le> buf_len rb" "0 < buf_len rb" using False len rb(6) by linarith+
      from remove_front_bytes [OF rb(2) this] show thesis using that rb(3) by metis
    qed
    have ne: "bs \<noteq> []" using False rb(6) by auto
    define bc1 where "bc1 = bc\<lparr>bc_read_pkt := None, bc_recv := Some rb', bc_reading_header := True, bc_expected := 0\<rparr>"
    have step: "process_complete_packets (Some (on_bytes f)) bc s =
       (if c = LD_ERR_INTERNAL then Some (NET_ERROR, bc\<lparr>bc_read_pkt := None\<rparr>, s1)
        else process_complete_packets (Some (on_bytes f)) bc1 s1)"
      using rb len False ne pkt rb'(1) h by (subst process_complete_packets.simps) (simp add: on_bytes_def bc1_def)
    show ?thesis
    proof (cases "c = LD_ERR_INTERNAL")
      case True
      then show ?thesis using 2(4) h q step by auto
    next
      case c: False
      have "handle_all f s1 qs = (ok, s')" using 2(4) h q c by simp
      moreover have "rx bc1 None (drop n bs)" using rb' by (simp add: rx_def bc1_def)
      ultimately show ?thesis using "2.IH" [OF False _ q(1), of bc1 s1] c step by (simp add: bc1_def)
    qed
  qed
qed


definition chunk :: "u8 list \<Rightarrow> bool" where
  "chunk d \<longleftrightarrow> d \<noteq> [] \<and> length d \<le> MAX_INPUT_BUFFER_SIZE"

text \<open>Whatever the pieces in which the bytes arrive, the handler sees the packets of the whole.\<close>

lemma read_loop_follows:
  assumes "rx bc w bs" "bc_read_pkt bc = None" "list_all chunk ds" "deframe w (bs @ concat ds) = (ps, Some (w', rest))"
    and "deframe w bs = ([], Some (w, bs))" "handle_all f s ps = (True, s')"
  shows "\<exists>bc'. read_loop (Some (on_bytes f)) (map Got ds @ Rerr EAGAIN # rs) any bc s = Some (NET_OK, bc', s', rs) \<and>
     rx bc' w' rest \<and> bc_read_pkt bc' = None"
  using assms
proof (induction ds arbitrary: bc w bs s ps any)
  case Nil
  then show ?case by auto
next
  case (Cons d ds)
  have d: "d \<noteq> []" "length d \<le> MAX_INPUT_BUFFER_SIZE" using Cons.prems(3) by (auto simp: chunk_def)
  obtain rb where rb: "bc_recv bc = Some rb" "buf_wf rb" "buf_bytes rb = bs" using Cons.prems(1) by (auto simp: rx_def)
  obtain rb1 where rb1: "cat_to_buffer True rb d (length d) = Some (rb1, LD_OK)" "buf_wf rb1" "buf_bytes rb1 = bs @ d"
    using cat_to_bufferE [OF rb(2), of d] rb(3) by auto
  define bc1 where "bc1 = bc\<lparr>bc_recv := Some rb1\<rparr>"
  have rx1: "rx bc1 w (bs @ d)" using rb1 Cons.prems(1) by (auto simp: rx_def bc1_def split: option.splits)
  obtain ps1 r1 where df: "deframe w (bs @ d) = (ps1, r1)" by (cases "deframe w (bs @ d)")
  show ?case
  proof (cases r1)
    case None
    have "snd (deframe w (bs @ d @ cs)) = None" for cs
      using df None deframe_bad [of w "bs @ d" ps1 cs] by simp
    then show ?thesis using Cons.prems(4) by (metis concat.simps(2) option.distinct(1) snd_conv)
  next
    case (Some r)
    obtain w1 rest1 where r: "r1 = Some (w1, rest1)" using Some by (cases r) auto
    have "deframe w (bs @ d @ concat ds) = put_front ps1 (deframe w1 (rest1 @ concat ds))"
      using deframe_append [OF df [unfolded r], of "concat ds"] by simp
    then obtain ps2 where ps2: "deframe w1 (rest1 @ concat ds) = (ps2, Some (w', rest))" "ps = ps1 @ ps2"
      using Cons.prems(4) by (cases "deframe w1 (rest1 @ concat ds)") auto
    obtain s1 where s1: "handle_all f s ps1 = (True, s1)" "handle_all f s1 ps2 = (True, s')"
      using Cons.prems(6) ps2(2) by (auto simp: handle_all_append split: prod.splits if_splits)
    have "bc_read_pkt bc1 = None" using Cons.prems(2) by (simp add: bc1_def)
    from process_follows [OF rx1 df s1(1) this] r obtain bc2 where
      bc2: "process_complete_packets (Some (on_bytes f)) bc1 s = Some (NET_OK, bc2, s1)" "bc_read_pkt bc2 = None" "rx bc2 w1 rest1"
      by auto
    have "deframe w1 rest1 = ([], Some (w1, rest1))" using df r deframe_idle by blast
    from Cons.IH [OF bc2(3,2) _ ps2(1) this s1(2), of True] obtain bc3 where
      "read_loop (Some (on_bytes f)) (map Got ds @ Rerr EAGAIN # rs) True bc2 s1 = Some (NET_OK, bc3, s', rs)"
      "rx bc3 w' rest" "bc_read_pkt bc3 = None" using Cons.prems(3) by auto
    then show ?thesis using d rb(1) rb1(1) bc2(1) by (auto simp: bc1_def)
  qed
qed


section \<open>The sender conserves the stream\<close>

text \<open>The bytes still to be written: the rest of the current buffer, then the queue, framed.\<close>

definition pending :: "basic_conn_t \<Rightarrow> u8 list" where
  "pending bc =
     (case bc_cur bc of None \<Rightarrow> [] | Some b \<Rightarrow> drop (bc_off bc) (buf_bytes b)) @
     concat (map (\<lambda>b. frame (buf_bytes b)) (the (bc_write_pkts bc)))"

definition tx :: "basic_conn_t \<Rightarrow> bool" where
  "tx bc \<longleftrightarrow>
     (\<exists>q. bc_write_pkts bc = Some q \<and> list_all buf_wf q) \<and>
     (case bc_cur bc of None \<Rightarrow> True | Some b \<Rightarrow> buf_wf b \<and> bc_off bc < buf_len b)"

lemma make_frame_ok:
  assumes "buf_wf b"
  obtains f where "make_frame b = Some f" "buf_wf f" "buf_bytes f = frame (buf_bytes b)"
proof -
  obtain f1 where f1: "cat_to_buffer True init_buffer_unptr (htonl_bytes (of_nat (buf_len b))) 4 = Some (f1, LD_OK)" "buf_wf f1"
    "buf_bytes f1 = htonl_bytes (of_nat (buf_len b))"
    using cat_to_bufferE [OF buf_wf_init_unptr, of "htonl_bytes (of_nat (buf_len b))"] by auto
  have len: "length (buf_bytes b) = buf_len b" using assms by (rule length_buf_bytes)
  obtain f2 where f2: "cat_to_buffer True f1 (buf_bytes b) (buf_len b) = Some (f2, LD_OK)" "buf_wf f2"
    "buf_bytes f2 = htonl_bytes (of_nat (buf_len b)) @ buf_bytes b"
    using cat_to_bufferE [OF f1(2), of "buf_bytes b"] f1(3) len by auto
  have "mem_read (ptr_bytes (buf_ptr b)) 0 (buf_len b) = Some (buf_bytes b)" "mem_read (buf_bytes b) 0 (buf_len b) = Some (buf_bytes b)"
    using buf_wf_len [OF assms] len by (simp_all add: mem_read_def buf_bytes_def)
  then have "cat_to_buffer True f1 (ptr_bytes (buf_ptr b)) (buf_len b) = cat_to_buffer True f1 (buf_bytes b) (buf_len b)"
    by (simp add: cat_to_buffer_def Let_def)
  then show thesis using that [of f2] f1(1) f2 len by (simp add: make_frame_def frame_def)
qed

lemma next_buffer_ok:
  assumes "tx bc"
  obtains "next_buffer bc = Some (None, bc)" "pending bc = []"
  | b bc1 where "next_buffer bc = Some (Some b, bc1)" "bc_cur bc1 = Some b" "tx bc1" "pending bc1 = pending bc"
proof (cases "bc_cur bc")
  case (Some b)
  then show ?thesis using that(2) [of b bc] assms by (simp add: next_buffer_def)
next
  case None
  obtain q where q: "bc_write_pkts bc = Some q" "list_all buf_wf q" using assms by (auto simp: tx_def)
  show ?thesis
  proof (cases q)
    case Nil
    then show ?thesis using that(1) None q by (simp add: next_buffer_def pending_def)
  next
    case (Cons b q')
    then obtain f where f: "make_frame b = Some f" "buf_wf f" "buf_bytes f = frame (buf_bytes b)"
      using q(2) make_frame_ok [of b] by auto
    have "0 < buf_len f" using length_buf_bytes [OF f(2)] f(3) by (simp add: frame_def)
    then show ?thesis using that(2) [of f "bc\<lparr>bc_write_pkts := Some q', bc_cur := Some f, bc_off := 0\<rparr>"] None q Cons f
      by (simp add: next_buffer_def pending_def tx_def)
  qed
qed

lemma write_done_ok:
  assumes "tx bc" "bc_cur bc = Some b"
  obtains c bc1 out where "write_done w bc b = Some (c, bc1, out)" "tx bc1" "pending bc = out @ pending bc1"
    "c \<noteq> Return NET_OK"
proof -
  have b: "buf_wf b" "bc_off bc < buf_len b" and len: "length (buf_bytes b) = buf_len b"
    using assms length_buf_bytes by (auto simp: tx_def)
  define rest where "rest = drop (bc_off bc) (buf_bytes b)"
  have m: "mem_read (ptr_bytes (buf_ptr b)) (bc_off bc) (buf_len b - bc_off bc) = Some rest"
    using b buf_wf_len [OF b(1)] by (simp add: mem_read_def rest_def buf_bytes_def drop_take)
  have lr: "length rest = buf_len b - bc_off bc" by (simp add: rest_def len)
  have p: "pending (bc\<lparr>bc_off := bc_off bc + n\<rparr>) = drop n rest @ concat (map (\<lambda>b. frame (buf_bytes b)) (the (bc_write_pkts bc)))"
    "pending bc = rest @ concat (map (\<lambda>b. frame (buf_bytes b)) (the (bc_write_pkts bc)))" for n
    using assms(2) by (simp_all add: pending_def rest_def add.commute)
  have same: "tx bc" "pending bc = [] @ pending bc" using assms by simp_all
  show thesis
  proof (cases w)
    case (Wrote k)
    define n where "n = min k (length rest)"
    consider "n = 0" | "0 < n" "buf_len b \<le> bc_off bc + n" | "0 < n" "bc_off bc + n < buf_len b" by linarith
    then show thesis
    proof cases
      case 1
      then have "write_done w bc b = Some (Return NET_ERROR, bc, [])" using m Wrote by (simp add: write_done_def n_def [symmetric] Let_def)
      then show thesis using that [of "Return NET_ERROR" bc "[]"] same by simp
    next
      case 2
      then have "take n rest = rest" using lr by simp
      moreover have "write_done w bc b = Some (Continue, bc\<lparr>bc_off := bc_off bc + n, bc_cur := None, bc_off := 0\<rparr>, take n rest)"
        using 2 m Wrote by (simp add: write_done_def n_def [symmetric] Let_def)
      moreover have "tx (bc\<lparr>bc_off := bc_off bc + n, bc_cur := None, bc_off := 0\<rparr>)" using assms by (simp add: tx_def)
      ultimately show thesis using that [of Continue] p(2) by (simp add: pending_def)
    next
      case 3
      then have "write_done w bc b = Some (Return NET_AGAIN, bc\<lparr>bc_off := bc_off bc + n\<rparr>, take n rest)"
        using m Wrote by (simp add: write_done_def n_def [symmetric] Let_def)
      moreover have "tx (bc\<lparr>bc_off := bc_off bc + n\<rparr>)" using assms 3 b by (simp add: tx_def)
      ultimately show thesis using that [of "Return NET_AGAIN"] p by (simp add: append.assoc [symmetric] del: append.assoc)
    qed
  next
    case (Werr e)
    show thesis
    proof (cases e)
      case EAGAIN
      then have "write_done w bc b = Some (Return NET_AGAIN, bc, [])" using m Werr by (simp add: write_done_def)
      then show thesis using that [of "Return NET_AGAIN" bc "[]"] same by simp
    next
      case EINTR
      then have "write_done w bc b = Some (Continue, bc, [])" using m Werr by (simp add: write_done_def)
      then show thesis using that [of Continue bc "[]"] same by simp
    qed (use m Werr same that [of "Return NET_ERROR" bc "[]"] in \<open>simp_all add: write_done_def\<close>)
  qed
qed

lemma write_packet_conserves:
  assumes "tx bc" "write_packet ws bc = Some (r, bc', out, ws')"
  shows "tx bc' \<and> pending bc = out @ pending bc' \<and> (r = NET_OK \<longrightarrow> pending bc' = [])"
  using assms
proof (induction ws arbitrary: bc out)
  case Nil
  from Nil.prems(1) show ?case
    by (cases rule: next_buffer_ok) (use Nil.prems in \<open>auto simp: write_packet.simps\<close>)
next
  case (Cons w ws)
  from Cons.prems(1) show ?case
  proof (cases rule: next_buffer_ok)
    case 1
    then show ?thesis using Cons.prems by (auto simp: write_packet.simps [of "w # ws"])
  next
    case (2 b bc1)
    from write_done_ok [OF 2(3,2), of w] obtain c bc2 out2 where
      w: "write_done w bc1 b = Some (c, bc2, out2)" "tx bc2" "pending bc1 = out2 @ pending bc2" "c \<noteq> Return NET_OK" by blast
    show ?thesis
    proof (cases c)
      case (Return x)
      then show ?thesis using Cons.prems(2) 2 w by (auto simp: write_packet.simps [of "w # ws"])
    next
      case Continue
      then obtain out3 where o: "write_packet ws bc2 = Some (r, bc', out3, ws')" "out = out2 @ out3"
        using Cons.prems(2) 2(1) w(1) by (auto simp: write_packet.simps [of "w # ws"] split: bind_splits)
      then show ?thesis using Cons.IH [OF w(2) o(1)] 2(4) w(3) by simp
    qed
  qed
qed


text \<open>Several rounds of \<open>write_packet\<close>, one per write event, with the bytes they put on the wire.\<close>

fun write_rounds :: "write_res list list \<Rightarrow> basic_conn_t \<Rightarrow> (basic_conn_t \<times> u8 list) option" where
  "write_rounds [] bc = Some (bc, [])"
| "write_rounds (ws # wss) bc = do {
     (_, bc, out, _) \<leftarrow> write_packet ws bc;
     (bc, out') \<leftarrow> write_rounds wss bc;
     Some (bc, out @ out') }"

lemma write_rounds_conserve:
  "tx bc \<Longrightarrow> write_rounds wss bc = Some (bc', out) \<Longrightarrow> tx bc' \<and> pending bc = out @ pending bc'"
proof (induction wss arbitrary: bc out)
  case (Cons ws wss)
  from Cons.prems(2) obtain r bc1 o1 ws' o2 where
    w: "write_packet ws bc = Some (r, bc1, o1, ws')" "write_rounds wss bc1 = Some (bc', o2)" "out = o1 @ o2"
    by (auto split: bind_splits)
  then show ?case using write_packet_conserves [OF Cons.prems(1) w(1)] Cons.IH [of bc1 o2] by auto
qed simp

text \<open>A handler that records what it is given.\<close>

definition record_pkt :: "u8 list list \<Rightarrow> u8 list \<Rightarrow> l_err \<times> u8 list list" where
  "record_pkt s p = (LD_OK, s @ [p])"

lemma handle_all_record: "handle_all record_pkt s ps = (True, s @ ps)"
  by (induction ps arbitrary: s) (simp_all add: record_pkt_def)

definition fresh_conn :: "buffer_t list \<Rightarrow> basic_conn_t" where
  "fresh_conn q = \<lparr>bc_fd = 5, bc_events = EV_IN, bc_read_pkt = None, bc_write_pkts = Some q, bc_trans_done = False, bc_role = 2,
     bc_cur = None, bc_off = 0, bc_recv = None, bc_expected = 0, bc_reading_header = True, bc_state = CONN_STATE_CONNECTED\<rparr>"


section \<open>Properties\<close>



text \<open>
  The two ends disagree on which packets are legal. The sender frames a packet of any
  size; the receiver silently drops an empty one and breaks off with an error, which closes the
  connection, at one of more than 8192 bytes.
\<close>

theorem receiver_rejects_large_and_empty:
  assumes "rx bc None (frame p)" "bc_read_pkt bc = None" "MAX_INPUT_BUFFER_SIZE < length p" "length p < 2 ^ 32"
    and "rx bc0 None (frame [])" "bc_read_pkt bc0 = None"
  shows "(\<exists>bc'. process_complete_packets (Some (on_bytes record_pkt)) bc [] = Some (NET_ERROR, bc', [])) \<and>
     (\<exists>bc'. process_complete_packets (Some (on_bytes record_pkt)) bc0 [] = Some (NET_OK, bc', []))"
proof -
  have u: "unat (of_nat (length p) :: u32) = length p" using assms(4) by (intro unat_of_nat_small) simp
  have "deframe None (frame p) = ([], None)"
    using assms(3) u by (subst deframe.simps(1)) (auto simp: frame_def Let_def)
  from process_follows [OF assms(1) this handle_all_record [of "[]"] assms(2)]
  have "\<exists>bc'. process_complete_packets (Some (on_bytes record_pkt)) bc [] = Some (NET_ERROR, bc', [])" by auto
  moreover have "deframe None (frame []) = ([], Some (None, []))"
    by (subst deframe.simps(1)) (simp add: frame_def deframe.simps(1) [of "[]"])
  from process_follows [OF assms(5) this handle_all_record [of "[]"] assms(6)]
  have "\<exists>bc'. process_complete_packets (Some (on_bytes record_pkt)) bc0 [] = Some (NET_OK, bc', [])" by auto
  ultimately show ?thesis by blast
qed

definition recv_of :: "u8 list \<Rightarrow> basic_conn_t" where
  "recv_of d = (fresh_conn [])\<lparr>bc_recv := Some \<lparr>buf_len = length d, buf_total = length d, buf_free = 0, buf_ptr = Some (d @ [0])\<rparr>\<rparr>"

theorem receiver_rejects_large_and_empty_witness:
  "(\<exists>bc'. process_complete_packets (Some (on_bytes record_pkt)) (recv_of (frame (replicate 9000 1))) [] = Some (NET_ERROR, bc', [])) \<and>
   (\<exists>bc'. process_complete_packets (Some (on_bytes record_pkt)) (recv_of (frame [])) [] = Some (NET_OK, bc', []))"
proof -
  have r: "rx (recv_of d) None d" "bc_read_pkt (recv_of d) = None" for d
    by (simp_all add: rx_def recv_of_def fresh_conn_def buf_wf_def buf_bytes_def)
  show ?thesis using receiver_rejects_large_and_empty [OF r(1,2) _ _ r(1,2), of "replicate 9000 1"]
    by (simp add: MAX_INPUT_BUFFER_SIZE_def)
qed

end
