(* ===== verification/Net_Conn.thy ===== *)
theory Net_Conn
  imports Net_Stream Heap
begin

text \<open>
  The connection manager of src/src/ld_net.c: connections are kept in the heap of
  \<open>Heap\<close>, ordered by the time of their last activity, and the server prunes those that have been
  idle for too long. The theory models registration, closing, expiry, the write side of a
  connection and the handling of one epoll event.

  \<open>epoll_ctl\<close> changes the events of an open socket and fails on a closed one. The close handler
  does not touch the manager.

  A connection is an address in the store \<open>nc_conns\<close>; \<open>nc_closed\<close> records the calls of the close
  handler. System calls that only have a status take it as an argument; \<open>now\<close> is \<open>time(NULL)\<close>.
\<close>

section \<open>Sockets and roles\<close>

abbreviation LD_TCP_CLIENT :: nat where "LD_TCP_CLIENT \<equiv> 2"
abbreviation LD_TCPV6_CLIENT :: nat where "LD_TCPV6_CLIENT \<equiv> 3"
abbreviation LD_TCP_SERVER :: nat where "LD_TCP_SERVER \<equiv> 4"
abbreviation LD_TCPV6_SERVER :: nat where "LD_TCPV6_SERVER \<equiv> 5"

definition RECONNECT :: nat where
  "RECONNECT = 20"

text \<open>
  \<open>make_std_tcp_connect\<close>: \<open>fd\<close> is what \<open>socket\<close> returns, \<open>bind_ok\<close> the status of binding the
  local port, \<open>conn i\<close> the status of attempt number \<open>i\<close>.
\<close>

definition make_std_tcp_connect :: "int \<Rightarrow> nat \<Rightarrow> bool \<Rightarrow> (nat \<Rightarrow> bool) \<Rightarrow> int" where
  "make_std_tcp_connect fd local_port bind_ok conn =
     (if fd = NET_ERROR then NET_ERROR
      else if local_port \<noteq> 0 \<and> \<not> bind_ok then - 1
      else case first_from conn 0 RECONNECT of Some _ \<Rightarrow> fd | None \<Rightarrow> NET_ERROR)"

definition make_std_tcpv6_connect :: "int \<Rightarrow> nat \<Rightarrow> bool \<Rightarrow> (nat \<Rightarrow> bool) \<Rightarrow> int" where
  "make_std_tcpv6_connect fd local_port bind_ok conn =
     (if fd = NET_ERROR then NET_ERROR
      else if local_port \<noteq> 0 \<and> \<not> bind_ok then - 1
      else case first_from conn 0 RECONNECT of Some _ \<Rightarrow> fd | None \<Rightarrow> NET_ERROR)"

definition make_std_tcp_server :: "int \<Rightarrow> bool \<Rightarrow> bool \<Rightarrow> int" where
  "make_std_tcp_server fd bind_ok listen_ok =
     (if fd = NET_ERROR \<or> \<not> bind_ok \<or> \<not> listen_ok then NET_ERROR else fd)"

definition make_std_tcpv6_server :: "int \<Rightarrow> bool \<Rightarrow> bool \<Rightarrow> int" where
  "make_std_tcpv6_server fd bind_ok listen_ok =
     (if fd = NET_ERROR \<or> \<not> bind_ok \<or> \<not> listen_ok then NET_ERROR else fd)"

text \<open>The accept loops spin until \<open>accept\<close> succeeds; \<open>None\<close> when it never does.\<close>

fun make_std_tcp_accept :: "int \<Rightarrow> int list \<Rightarrow> int option" where
  "make_std_tcp_accept server_fd rs =
     (if server_fd = DEFAULT_FD then Some DEFAULT_FD
      else (case rs of [] \<Rightarrow> None | fd # rs \<Rightarrow> if fd = NET_ERROR then make_std_tcp_accept server_fd rs else Some fd))"

fun make_std_tcpv6_accept :: "int \<Rightarrow> int list \<Rightarrow> int option" where
  "make_std_tcpv6_accept server_fd rs =
     (if server_fd = DEFAULT_FD then Some DEFAULT_FD
      else (case rs of [] \<Rightarrow> None | fd # rs \<Rightarrow> if fd = NET_ERROR then make_std_tcpv6_accept server_fd rs else Some fd))"

text \<open>The role table: role, whether it has a server constructor, whether it speaks IPv6.\<close>

datatype conn_init = TCP_CONN | TCPV6_CONN | TCP_ACCEPT | TCPV6_ACCEPT

record role_propt =
  rp_s_r :: nat
  rp_server_make :: bool
  rp_handler :: conn_init

definition role_propts :: "role_propt list" where
  "role_propts =
     [\<lparr>rp_s_r = LD_TCP_CLIENT, rp_server_make = False, rp_handler = TCP_CONN\<rparr>,
      \<lparr>rp_s_r = LD_TCPV6_CLIENT, rp_server_make = False, rp_handler = TCPV6_CONN\<rparr>,
      \<lparr>rp_s_r = LD_TCP_SERVER, rp_server_make = True, rp_handler = TCP_ACCEPT\<rparr>,
      \<lparr>rp_s_r = LD_TCPV6_SERVER, rp_server_make = True, rp_handler = TCPV6_ACCEPT\<rparr>]"

definition get_role_propt :: "nat \<Rightarrow> role_propt option" where
  "get_role_propt s_r =
     map_option (\<lambda>i. role_propts ! i) (first_from (\<lambda>i. rp_s_r (role_propts ! i) = s_r) 0 (length role_propts))"


text \<open>
  \<open>server_entity_setup\<close> leaves the new server socket in the context or aborts; roles without a
  server constructor are a call of NULL. \<open>fd\<close> is the result of that constructor.
\<close>

definition server_entity_setup :: "int \<Rightarrow> bool \<Rightarrow> bool \<Rightarrow> nat \<Rightarrow> int option" where
  "server_entity_setup fd has_accept_handler add_ok s_r = do {
     rp \<leftarrow> get_role_propt s_r;
     (if \<not> rp_server_make rp \<or> \<not> has_accept_handler \<or> fd = NET_ERROR \<or> \<not> add_ok then None else Some fd) }"

section \<open>The connection manager\<close>

record net_ctx_t =
  nc_epoll_fd :: int
  nc_server_fd :: int
  nc_timeout :: int
  nc_heap :: heap_desc_t
  nc_conns :: "addr \<rightharpoonup> basic_conn_t"
  nc_closed :: "addr list"

definition net_epoll_out :: "basic_conn_t \<Rightarrow> basic_conn_t" where
  "net_epoll_out bc = (if bc_fd bc = DEFAULT_FD then bc else bc\<lparr>bc_events := EV_OUT\<rparr>)"

definition net_epoll_in :: "basic_conn_t \<Rightarrow> basic_conn_t" where
  "net_epoll_in bc = (if bc_fd bc = DEFAULT_FD then bc else bc\<lparr>bc_events := EV_IN\<rparr>)"

definition heap_node :: "net_ctx_t \<Rightarrow> addr \<Rightarrow> (addr \<times> heap_t) option" where
  "heap_node c bc = do { p \<leftarrow> get_heap (nc_heap c) bc; nd \<leftarrow> hd_nodes (nc_heap c) p; Some (p, nd) }"

definition connecion_is_expired :: "int \<Rightarrow> net_ctx_t \<Rightarrow> addr \<Rightarrow> bool option" where
  "connecion_is_expired now c bc = do {
     (p, nd) \<leftarrow> heap_node c bc;
     Some (nc_timeout c \<noteq> 0 \<and> now - hp_factor nd > nc_timeout c) }"

definition set_factor :: "heap_desc_t \<Rightarrow> addr \<Rightarrow> int \<Rightarrow> heap_desc_t" where
  "set_factor h p f = h\<lparr>hd_nodes := (hd_nodes h)(p := map_option (\<lambda>nd. nd\<lparr>hp_factor := f\<rparr>) (hd_nodes h p))\<rparr>"

text \<open>\<open>bc->rp->s_r & 1\<close>; a role that is not in the table has left \<open>bc->rp\<close> NULL.\<close>

definition role_odd :: "net_ctx_t \<Rightarrow> addr \<Rightarrow> bool option" where
  "role_odd c bc = do {
     b \<leftarrow> nc_conns c bc;
     rp \<leftarrow> get_role_propt (bc_role b);
     Some (rp_s_r rp AND 1 \<noteq> 0) }"

definition connecion_set_reactivated :: "int \<Rightarrow> net_ctx_t \<Rightarrow> addr \<Rightarrow> net_ctx_t option" where
  "connecion_set_reactivated now c bc =
     (case heap_node c bc of
        None \<Rightarrow> Some c
      | Some (p, nd) \<Rightarrow> do {
          let h = set_factor (nc_heap c) p now;
          odd \<leftarrow> role_odd c bc;
          h \<leftarrow> (if odd then heap_bubble_down h (hp_heap_idx nd) else Some h);
          Some (c\<lparr>nc_heap := h\<rparr>) })"

definition connection_register :: "net_ctx_t \<Rightarrow> addr option \<Rightarrow> addr \<Rightarrow> int \<Rightarrow> (bool \<times> net_ctx_t) option" where
  "connection_register c node bc factor =
     (if MAX_HEAP \<le> heap_size (nc_heap c) then Some (False, c)
      else do { h \<leftarrow> heap_insert (nc_heap c) node bc factor; Some (True, c\<lparr>nc_heap := h\<rparr>) })"

text \<open>
  \<open>connection_unregister\<close>: the last heap slot takes the place of the removed one and is moved
  down; an unregistered connection is a NULL dereference.
\<close>

definition heap_remove_at :: "heap_desc_t \<Rightarrow> nat \<Rightarrow> heap_desc_t option" where
  "heap_remove_at h idx = do {
     let lst = hd_hps h ! (heap_size h - 1);
     m \<leftarrow> set_heap_idx (hd_nodes h) lst idx;
     heap_bubble_down (h\<lparr>hd_hps := butlast ((hd_hps h)[idx := lst]), hd_nodes := m\<rparr>) idx }"

definition connection_unregister :: "net_ctx_t \<Rightarrow> addr \<Rightarrow> net_ctx_t option" where
  "connection_unregister c bc = do {
     (p, nd) \<leftarrow> heap_node c bc;
     h \<leftarrow> heap_remove_at (nc_heap c) (hp_heap_idx nd);
     Some (c\<lparr>nc_heap := h, nc_closed := nc_closed c @ [bc]\<rparr>) }"

text \<open>The part of \<open>connection_close\<close> that works on the connection itself.\<close>

definition close_fields :: "basic_conn_t \<Rightarrow> basic_conn_t" where
  "close_fields b =
     b\<lparr>bc_fd := (if bc_fd b \<noteq> DEFAULT_FD \<and> bc_fd b \<ge> 0 then DEFAULT_FD else bc_fd b),
       bc_recv := None, bc_read_pkt := None, bc_cur := None, bc_write_pkts := None,
       bc_reading_header := True, bc_expected := 0, bc_off := 0, bc_trans_done := False, bc_state := CONN_STATE_CLOSED\<rparr>"

definition connection_close :: "net_ctx_t \<Rightarrow> addr \<Rightarrow> net_ctx_t option" where
  "connection_close c bc = do {
     b \<leftarrow> nc_conns c bc;
     connection_unregister (c\<lparr>nc_conns := (nc_conns c)(bc \<mapsto> close_fields b)\<rparr>) bc }"

definition connecion_set_expired :: "net_ctx_t \<Rightarrow> addr \<Rightarrow> net_ctx_t option" where
  "connecion_set_expired c bc =
     (case heap_node c bc of
        None \<Rightarrow> Some c
      | Some (p, nd) \<Rightarrow> do {
          let h = set_factor (nc_heap c) p 0;
          odd \<leftarrow> role_odd c bc;
          h \<leftarrow> (if odd then heap_bubble_up h (hp_heap_idx nd) else Some h);
          connection_close (c\<lparr>nc_heap := h\<rparr>) bc })"

text \<open>The loop of \<open>server_connection_prune\<close>; the first argument is the rest of the budget of 100.\<close>

fun prune_loop :: "nat \<Rightarrow> int \<Rightarrow> net_ctx_t \<Rightarrow> net_ctx_t option" where
  "prune_loop 0 now c = Some c"
| "prune_loop (Suc n) now c =
     (if heap_size (nc_heap c) = 0 \<or> nc_timeout c = 0 then Some c
      else do {
        nd \<leftarrow> heap_at (nc_heap c) 0;
        if now - hp_factor nd \<ge> nc_timeout c then do {
          c \<leftarrow> connection_close c (hp_obj nd);
          prune_loop n now c }
        else Some c })"

definition server_connection_prune :: "int \<Rightarrow> net_ctx_t \<Rightarrow> net_ctx_t option" where
  "server_connection_prune now c = prune_loop 100 now c"

text \<open>
  \<open>init_basic_conn\<close>: \<open>node\<close> is the heap node malloc returns; the Booleans are the status of making
  the socket non-blocking, of creating the queue and of adding the socket to the epoll set.
\<close>

definition init_fields :: "basic_conn_t \<Rightarrow> basic_conn_t" where
  "init_fields b =
     b\<lparr>bc_write_pkts := Some [], bc_recv := None, bc_read_pkt := None, bc_reading_header := True, bc_expected := 0,
       bc_cur := None, bc_off := 0, bc_trans_done := False, bc_state := CONN_STATE_CONNECTED, bc_events := EV_IN\<rparr>"

definition init_basic_conn ::
  "int \<Rightarrow> addr option \<Rightarrow> bool \<Rightarrow> bool \<Rightarrow> bool \<Rightarrow> net_ctx_t \<Rightarrow> addr \<Rightarrow> (bool \<times> net_ctx_t) option" where
  "init_basic_conn now node nonblock_ok queue_ok add_ok c bc =
     (if nc_epoll_fd c = 0 \<or> nc_epoll_fd c = NET_ERROR then None
      else do {
        b \<leftarrow> nc_conns c bc;
        (registered, c) \<leftarrow> connection_register c node bc now;
        (if \<not> registered \<or> \<not> nonblock_ok then do { c \<leftarrow> connection_close c bc; Some (False, c) }
         else if \<not> queue_ok then do {
           let c = c\<lparr>nc_conns := (nc_conns c)(bc \<mapsto> b\<lparr>bc_write_pkts := None\<rparr>)\<rparr>;
           c \<leftarrow> connection_close c bc;
           Some (False, c) }
         else do {
           let c = c\<lparr>nc_conns := (nc_conns c)(bc \<mapsto> init_fields b)\<rparr>;
           (if add_ok then Some (True, c)
            else do { c \<leftarrow> connection_close c bc; Some (False, c) }) }) })"

definition init_basic_conn_server ::
  "int \<Rightarrow> addr option \<Rightarrow> bool \<Rightarrow> bool \<Rightarrow> bool \<Rightarrow> net_ctx_t \<Rightarrow> addr \<Rightarrow> nat \<Rightarrow> int \<Rightarrow> (bool \<times> net_ctx_t) option" where
  "init_basic_conn_server now node nonblock_ok queue_ok add_ok c bc role fd = do {
     b \<leftarrow> nc_conns c bc;
     let c = c\<lparr>nc_conns := (nc_conns c)(bc \<mapsto> b\<lparr>bc_role := role, bc_fd := fd\<rparr>)\<rparr>;
     (if fd < 0 then Some (False, c) else init_basic_conn now node nonblock_ok queue_ok add_ok c bc) }"

definition init_basic_conn_client ::
  "int \<Rightarrow> addr option \<Rightarrow> bool \<Rightarrow> bool \<Rightarrow> bool \<Rightarrow> net_ctx_t \<Rightarrow> addr \<Rightarrow> nat \<Rightarrow> int \<Rightarrow> (bool \<times> net_ctx_t) option" where
  "init_basic_conn_client now node nonblock_ok queue_ok add_ok c bc role fd = do {
     _ \<leftarrow> get_role_propt role;
     b \<leftarrow> nc_conns c bc;
     init_basic_conn now node nonblock_ok queue_ok add_ok
       (c\<lparr>nc_conns := (nc_conns c)(bc \<mapsto> b\<lparr>bc_role := role, bc_fd := fd\<rparr>)\<rparr>) bc }"


section \<open>Events\<close>

definition upd_conn :: "net_ctx_t \<Rightarrow> addr \<Rightarrow> (basic_conn_t \<Rightarrow> basic_conn_t) \<Rightarrow> net_ctx_t" where
  "upd_conn c bc f = c\<lparr>nc_conns := (nc_conns c)(bc := map_option f (nc_conns c bc))\<rparr>"

text \<open>The last component is what goes onto the wire.\<close>

definition response_send_buffer :: "write_res list \<Rightarrow> net_ctx_t \<Rightarrow> addr \<Rightarrow> (int \<times> net_ctx_t \<times> u8 list) option" where
  "response_send_buffer ws c bc = do {
     b \<leftarrow> nc_conns c bc;
     (status, b, out, _) \<leftarrow> write_packet ws b;
     let c = c\<lparr>nc_conns := (nc_conns c)(bc \<mapsto> b)\<rparr>;
     (if status = NET_OK then
        Some (status,
          (if bc_write_pkts b = Some [] \<and> bc_cur b = None
           then upd_conn c bc (\<lambda>b. net_epoll_in (b\<lparr>bc_trans_done := True\<rparr>))
           else upd_conn c bc (\<lambda>b. net_epoll_out (b\<lparr>bc_trans_done := False\<rparr>))), out)
      else if status = NET_AGAIN then Some (status, upd_conn c bc (\<lambda>b. b\<lparr>bc_trans_done := False\<rparr>), out)
      else do {
        c \<leftarrow> connecion_set_expired (upd_conn c bc (\<lambda>b. b\<lparr>bc_trans_done := True\<rparr>)) bc;
        Some (status, c, out) }) }"

definition response_handle :: "write_res list \<Rightarrow> net_ctx_t \<Rightarrow> addr \<Rightarrow> (int \<times> net_ctx_t \<times> u8 list) option" where
  "response_handle ws c bc = do {
     (status, c, out) \<leftarrow> response_send_buffer ws c bc;
     b \<leftarrow> nc_conns c bc;
     (if status = NET_OK then Some (status, if bc_trans_done b then upd_conn c bc net_epoll_in else c, out)
      else if status = NET_AGAIN then Some (status, c, out)
      else do { c \<leftarrow> connecion_set_expired c bc; Some (status, c, out) }) }"

text \<open>
  The body of the event loop in \<open>net_setup\<close> for one connection. \<open>ev_in\<close> and \<open>ev_out\<close> say which
  events are reported; the receive handler and its state are passed through.
\<close>

definition handle_event ::
  "int \<Rightarrow> ('s \<Rightarrow> buffer_t \<Rightarrow> l_err \<times> 's) option \<Rightarrow> bool \<Rightarrow> bool \<Rightarrow> read_res list \<Rightarrow> write_res list \<Rightarrow> net_ctx_t \<Rightarrow> addr \<Rightarrow> 's \<Rightarrow>
   (net_ctx_t \<times> 's \<times> u8 list) option" where
  "handle_event now h ev_in ev_out rs ws c bc s = do {
     expired \<leftarrow> connecion_is_expired now c bc;
     (if expired then Some (c, s, [])
      else do {
        (in_ok, c, s) \<leftarrow>
          (if ev_in then do {
             b \<leftarrow> nc_conns c bc;
             (r, b, s, _) \<leftarrow> request_handle h rs b s;
             Some (r = NET_OK, c\<lparr>nc_conns := (nc_conns c)(bc \<mapsto> b)\<rparr>, s) }
           else Some (True, c, s));
        (out_ok, c, out) \<leftarrow>
          (if ev_out then do { (r, c, out) \<leftarrow> response_handle ws c bc; Some (r = NET_OK, c, out) }
           else Some (True, c, []));
        (if \<not> in_ok \<or> \<not> out_ok then do {
           c \<leftarrow> connecion_set_expired c bc;
           Some (upd_conn c bc net_epoll_in, s, out) }
         else if ev_in \<or> ev_out then do { c \<leftarrow> connecion_set_reactivated now c bc; Some (c, s, out) }
         else Some (c, s, out)) }) }"

text \<open>
  The accept loop for the listening socket: what successive calls of \<open>accept\<close> return. The
  caller's accept handler is an argument.
\<close>

datatype accept_res = Accepted int | Aerr errno

fun accept_loop :: "('c \<Rightarrow> int \<Rightarrow> 'c) \<Rightarrow> accept_res list \<Rightarrow> 'c \<Rightarrow> 'c option" where
  "accept_loop h [] c = None"
| "accept_loop h (Accepted fd # rs) c = accept_loop h rs (h c fd)"
| "accept_loop h (Aerr e # rs) c = (if e = EINTR then accept_loop h rs c else Some c)"

text \<open>
  One round of \<open>net_setup\<close>: the reported descriptors in order, then pruning. A descriptor is the
  listening socket or a connection with its events and the results of its system calls.
\<close>

datatype ready = Listening "accept_res list" | Ready addr bool bool "read_res list" "write_res list"

fun net_events ::
  "int \<Rightarrow> (net_ctx_t \<times> 's \<Rightarrow> int \<Rightarrow> net_ctx_t \<times> 's) \<Rightarrow> ('s \<Rightarrow> buffer_t \<Rightarrow> l_err \<times> 's) option \<Rightarrow> ready list \<Rightarrow> net_ctx_t \<Rightarrow> 's \<Rightarrow>
   (net_ctx_t \<times> 's \<times> (addr \<times> u8 list) list) option" where
  "net_events now acc h [] c s = Some (c, s, [])"
| "net_events now acc h (Listening rs # es) c s = do {
     (c, s) \<leftarrow> accept_loop acc rs (c, s);
     net_events now acc h es c s }"
| "net_events now acc h (Ready bc ev_in ev_out rs ws # es) c s = do {
     (c, s, out) \<leftarrow> handle_event now h ev_in ev_out rs ws c bc s;
     (c, s, outs) \<leftarrow> net_events now acc h es c s;
     Some (c, s, (bc, out) # outs) }"

definition net_round ::
  "int \<Rightarrow> (net_ctx_t \<times> 's \<Rightarrow> int \<Rightarrow> net_ctx_t \<times> 's) \<Rightarrow> ('s \<Rightarrow> buffer_t \<Rightarrow> l_err \<times> 's) option \<Rightarrow> ready list \<Rightarrow> net_ctx_t \<Rightarrow> 's \<Rightarrow>
   (net_ctx_t \<times> 's \<times> (addr \<times> u8 list) list) option" where
  "net_round now acc h es c s = do {
     (c, s, outs) \<leftarrow> net_events now acc h es c s;
     c \<leftarrow> server_connection_prune now c;
     Some (c, s, outs) }"

definition get_port :: "u8 list \<Rightarrow> u16" where
  "get_port sin_port = push_bit 8 (ucast (sin_port ! 0)) OR ucast (sin_port ! 1)"

text \<open>\<open>set_basic_conn_addr\<close> stores an address byte by byte, the least significant byte first.\<close>

definition set_basic_conn_addr :: "u64 \<Rightarrow> u8 list" where
  "set_basic_conn_addr addr_int = map (\<lambda>i. ucast (drop_bit (8 * i) addr_int)) [0..<8]"


section \<open>Removing from the heap\<close>

lemma remove_slot:
  assumes "i < length xs" "distinct xs"
  shows "mset (butlast (xs[i := xs ! (length xs - 1)])) = mset xs - {#xs ! i#}"
    "distinct (butlast (xs[i := xs ! (length xs - 1)]))"
    "j < length xs - 1 \<Longrightarrow> butlast (xs[i := xs ! (length xs - 1)]) ! j = (if j = i then xs ! (length xs - 1) else xs ! j)"
proof -
  obtain ys z where xs: "xs = ys @ [z]" using assms(1) by (metis length_greater_0_conv less_nat_zero_code rev_exhaust list.size(3))
  have e: "butlast (xs[i := xs ! (length xs - 1)]) = (if i = length ys then ys else ys[i := z])"
    using assms(1) xs by (auto simp: list_update_append)
  show m: "mset (butlast (xs[i := xs ! (length xs - 1)])) = mset xs - {#xs ! i#}"
    using assms(1) unfolding e by (auto simp: xs mset_update nth_append)
  have "z \<notin> set ys" "distinct ys" using assms(2) xs by auto
  then show "distinct (butlast (xs[i := xs ! (length xs - 1)]))"
    unfolding e by (auto intro: distinct_list_update)
  show "butlast (xs[i := xs ! (length xs - 1)]) ! j = (if j = i then xs ! (length xs - 1) else xs ! j)" if "j < length xs - 1"
    using that unfolding e by (auto simp: xs nth_append nth_list_update)
qed

text \<open>Moving a node down or up always ends in a well-formed heap with the same nodes.\<close>

lemma heap_bubble_down_total:
  assumes "heap_wf h"
  shows "\<exists>h'. heap_bubble_down h idx = Some h' \<and> heap_wf h' \<and> heap_same h h'"
  using assms
proof (induction h idx rule: heap_bubble_down.induct)
  case (1 h idx)
  show ?case
  proof (cases rule: proper_child_ok [OF 1(2), of idx])
    case 1
    then show ?thesis using \<open>heap_wf h\<close> by (subst heap_bubble_down.simps) simp
  next
    case (2 c)
    have i: "idx < heap_size h" using 2 by simp
    obtain a b where ab: "heap_at h idx = Some a" "heap_at h c = Some b"
      using heap_wf_at [OF 1(2) i] heap_wf_at [OF 1(2) 2(4)] by metis
    show ?thesis
    proof (cases "hp_factor a \<le> hp_factor b")
      case True
      then show ?thesis using 2(1) ab 1(2) by (subst heap_bubble_down.simps) simp
    next
      case False
      obtain h1 where s: "c_swap h idx c = Some h1" "heap_wf h1" "heap_same h h1"
        using c_swap_ok [OF 1(2) i 2(4)] 2(5) by (metis less_irrefl)
      from 1(1) [OF 2(1) refl ab False s(1,2)] obtain h2 where "heap_bubble_down h1 c = Some h2" "heap_wf h2" "heap_same h1 h2" by blast
      then show ?thesis using 2(1) ab False s heap_same_trans by (subst heap_bubble_down.simps) auto
    qed
  qed
qed

lemma heap_bubble_up_total:
  assumes "heap_wf h" "idx < heap_size h"
  shows "\<exists>h'. heap_bubble_up h idx = Some h' \<and> heap_wf h' \<and> heap_same h h'"
  using assms
proof (induction h idx rule: heap_bubble_up.induct)
  case (1 h idx)
  show ?case
  proof (cases "idx = 0")
    case True
    then show ?thesis using 1 by (subst heap_bubble_up.simps) simp
  next
    case False
    have f: "PARENT idx < heap_size h" "PARENT idx \<noteq> idx" using 1(3) False by (auto simp: PARENT_def)
    obtain a b where ab: "heap_at h idx = Some a" "heap_at h (PARENT idx) = Some b"
      using heap_wf_at [OF 1(2,3)] heap_wf_at [OF 1(2) f(1)] by metis
    show ?thesis
    proof (cases "hp_factor b \<le> hp_factor a")
      case True
      then show ?thesis using False ab 1(2) by (subst heap_bubble_up.simps) simp
    next
      case nle: False
      obtain h1 where s: "c_swap h idx (PARENT idx) = Some h1" "heap_wf h1" "heap_same h h1"
        using c_swap_ok [OF 1(2,3) f(1)] f(2) by metis
      have "PARENT idx < heap_size h1" using f(1) heap_same_size [OF s(3)] by simp
      from 1(1) [OF False refl ab nle s(1,2) this] obtain h2 where "heap_bubble_up h1 (PARENT idx) = Some h2" "heap_wf h2" "heap_same h1 h2" by blast
      then show ?thesis using False ab nle s heap_same_trans by (subst heap_bubble_up.simps) auto
    qed
  qed
qed

text \<open>The heap after the last slot has taken the place of slot \<open>idx\<close>, before it is moved down.\<close>

definition pulled :: "heap_desc_t \<Rightarrow> nat \<Rightarrow> heap_desc_t" where
  "pulled h idx =
     h\<lparr>hd_hps := butlast ((hd_hps h)[idx := hd_hps h ! (heap_size h - 1)]),
       hd_nodes := (hd_nodes h)(hd_hps h ! (heap_size h - 1) := map_option (\<lambda>nd. nd\<lparr>hp_heap_idx := idx\<rparr>) (hd_nodes h (hd_hps h ! (heap_size h - 1))))\<rparr>"

lemma pulled_ok:
  assumes "heap_wf h" "idx < heap_size h"
  shows "heap_remove_at h idx = heap_bubble_down (pulled h idx) idx" "heap_wf (pulled h idx)"
    "mset (hd_hps (pulled h idx)) = mset (hd_hps h) - {#hd_hps h ! idx#}" "heap_view (pulled h idx) = heap_view h"
    "heap_size (pulled h idx) = heap_size h - 1"
    "j < heap_size h - 1 \<Longrightarrow> hfactor (pulled h idx) j = hfactor h (if j = idx then heap_size h - 1 else j)"
proof -
  let ?n = "heap_size h" and ?l = "hd_hps h ! (heap_size h - 1)"
  have d: "distinct (hd_hps h)" using assms(1) by (simp add: heap_wf_def)
  have l: "?n - 1 < ?n" using assms(2) by simp
  obtain nd where nd: "hd_nodes h ?l = Some nd" using heap_wf_at [OF assms(1) l] by metis
  note r = remove_slot [OF assms(2) d]
  show "heap_remove_at h idx = heap_bubble_down (pulled h idx) idx"
    using nd by (simp add: heap_remove_at_def pulled_def set_heap_idx_def Let_def)
  show "mset (hd_hps (pulled h idx)) = mset (hd_hps h) - {#hd_hps h ! idx#}" using r(1) by (simp add: pulled_def)
  show sz: "heap_size (pulled h idx) = heap_size h - 1" by (simp add: pulled_def)
  show "heap_view (pulled h idx) = heap_view h"
    using nd by (auto simp: heap_view_def pulled_def fun_eq_iff)
  have at: "hd_nodes (pulled h idx) (hd_hps (pulled h idx) ! j) =
      (if j = idx then Some (nd\<lparr>hp_heap_idx := idx\<rparr>) else hd_nodes h (hd_hps h ! j))" if "j < ?n - 1" for j
  proof -
    have "hd_hps h ! j \<noteq> ?l" if "j \<noteq> idx" using \<open>j < ?n - 1\<close> d l by (metis less_imp_diff_less nth_eq_iff_index_eq nat_less_le order_less_trans)
    then show ?thesis using r(3) [OF that] nd by (simp add: pulled_def)
  qed
  have "\<exists>x. hd_nodes (pulled h idx) (hd_hps (pulled h idx) ! j) = Some x \<and> hp_heap_idx x = j" if "j < ?n - 1" for j
  proof -
    have "j < ?n" using that by simp
    then obtain x where "hd_nodes h (hd_hps h ! j) = Some x" "hp_heap_idx x = j" using heap_wf_at [OF assms(1)] by metis
    then show ?thesis using at [OF that] by simp
  qed
  then show "heap_wf (pulled h idx)"
    using r(2) sz assms(1) unfolding heap_wf_def [of "pulled h idx"] by (auto simp: pulled_def heap_wf_def)
  show "hfactor (pulled h idx) j = hfactor h (if j = idx then ?n - 1 else j)" if "j < ?n - 1"
    using at [OF that] that sz nd l by (auto simp: hfactor_def heap_at_def)
qed

lemma heap_remove_at_total:
  assumes "heap_wf h" "idx < heap_size h"
  shows "\<exists>h'. heap_remove_at h idx = Some h' \<and> heap_wf h' \<and> mset (hd_hps h') = mset (hd_hps h) - {#hd_hps h ! idx#} \<and>
     heap_view h' = heap_view h"
  using heap_bubble_down_total [OF pulled_ok(2) [OF assms], of idx] pulled_ok(1,3,4) [OF assms]
  by (auto simp: heap_same_def)

text \<open>Removing the root keeps the order.\<close>

lemma heap_remove_root:
  assumes "heap_inv h" "0 < heap_size h"
  shows "\<exists>h'. heap_remove_at h 0 = Some h' \<and> heap_inv h' \<and> mset (hd_hps h') = mset (hd_hps h) - {#hd_hps h ! 0#} \<and>
     heap_view h' = heap_view h"
proof -
  have wf: "heap_wf h" and ord: "hp.heap_ordered (hfactor h) (heap_size h)" using assms(1) by (auto simp: heap_inv_def)
  note pl = pulled_ok [OF wf assms(2)]
  have "hfactor (pulled h 0) (PARENT j) \<le> hfactor (pulled h 0) j" if "0 < j" "j < heap_size h - 1" "PARENT j \<noteq> 0" for j
  proof -
    have "PARENT j < heap_size h - 1" using that by (auto simp: PARENT_def)
    then show ?thesis using that ord pl(6) by (simp add: hp.heap_ordered_def)
  qed
  then have "hp.down_ok (hfactor (pulled h 0)) (heap_size (pulled h 0)) 0"
    using pl(5) by (simp add: hp.down_ok_def)
  from heap_bubble_down_ok [OF pl(2) this] show ?thesis using pl(1,3,4) by (auto simp: heap_same_def)
qed


section \<open>Pruning\<close>

text \<open>Every registered node belongs to a connection in the store.\<close>

definition ctx_wf :: "net_ctx_t \<Rightarrow> bool" where
  "ctx_wf c \<longleftrightarrow> heap_wf (nc_heap c) \<and>
     (\<forall>p \<in> set (hd_hps (nc_heap c)). \<forall>bc f. heap_view (nc_heap c) p = Some (bc, f) \<longrightarrow> nc_conns c bc \<noteq> None)"

lemma get_heap_root:
  assumes "heap_wf h" "0 < heap_size h" "heap_at h 0 = Some nd"
  shows "get_heap h (hp_obj nd) = Some (hd_hps h ! 0)"
  using assms(2,3) by (simp add: get_heap_def first_from.simps [of _ 0])

lemma close_root:
  assumes "heap_inv (nc_heap c)" "ctx_wf c" "0 < heap_size (nc_heap c)" "heap_at (nc_heap c) 0 = Some nd"
  obtains c' where "connection_close c (hp_obj nd) = Some c'" "heap_inv (nc_heap c')" "ctx_wf c'"
    "mset (hd_hps (nc_heap c')) = mset (hd_hps (nc_heap c)) - {#hd_hps (nc_heap c) ! 0#}"
    "heap_view (nc_heap c') = heap_view (nc_heap c)" "nc_timeout c' = nc_timeout c"
    "nc_closed c' = nc_closed c @ [hp_obj nd]"
proof -
  let ?h = "nc_heap c"
  have wf: "heap_wf ?h" using assms(1) by (simp add: heap_inv_def)
  have root: "hd_nodes ?h (hd_hps ?h ! 0) = Some nd" "hp_heap_idx nd = 0"
    using heap_wf_at [OF wf assms(3)] assms(4) by (metis option.inject)+
  then have v: "heap_view ?h (hd_hps ?h ! 0) = Some (hp_obj nd, hp_factor nd)" by (simp add: heap_view_def)
  then obtain b where b: "nc_conns c (hp_obj nd) = Some b" using assms(2,3) by (fastforce simp: ctx_wf_def)
  obtain h' where h': "heap_remove_at ?h 0 = Some h'" "heap_inv h'" "mset (hd_hps h') = mset (hd_hps ?h) - {#hd_hps ?h ! 0#}"
    "heap_view h' = heap_view ?h" using heap_remove_root [OF assms(1,3)] by blast
  define c' where "c' = c\<lparr>nc_conns := (nc_conns c)(hp_obj nd \<mapsto> close_fields b), nc_heap := h', nc_closed := nc_closed c @ [hp_obj nd]\<rparr>"
  have "connection_close c (hp_obj nd) = Some c'"
    using b root h'(1) get_heap_root [OF wf assms(3,4)]
    by (simp add: connection_close_def connection_unregister_def heap_node_def c'_def)
  moreover have "set (hd_hps h') \<subseteq> set (hd_hps ?h)" by (metis h'(3) in_diffD set_mset_mset subsetI)
  then have "ctx_wf c'" using assms(2) h'(2,4) by (auto simp: ctx_wf_def c'_def heap_inv_def)
  ultimately show thesis using h' by (intro that [of c']) (simp_all add: c'_def)
qed

definition idle_too_long :: "int \<Rightarrow> net_ctx_t \<Rightarrow> addr \<Rightarrow> bool" where
  "idle_too_long now c p = (case heap_view (nc_heap c) p of Some (bc, f) \<Rightarrow> now - f \<ge> nc_timeout c | None \<Rightarrow> False)"

lemma prune_loop_ok:
  assumes "heap_inv (nc_heap c)" "ctx_wf c" "nc_timeout c \<noteq> 0"
  shows "\<exists>c' gone. prune_loop n now c = Some c' \<and> heap_inv (nc_heap c') \<and> ctx_wf c' \<and>
     mset (hd_hps (nc_heap c)) = gone + mset (hd_hps (nc_heap c')) \<and> heap_view (nc_heap c') = heap_view (nc_heap c) \<and>
     (\<forall>p \<in># gone. idle_too_long now c p) \<and>
     (size gone = n \<or> (size gone < n \<and> (\<forall>p \<in> set (hd_hps (nc_heap c')). \<not> idle_too_long now c p)))"
  using assms
proof (induction n arbitrary: c)
  case 0
  then show ?case by (intro exI [of _ c] exI [of _ "{#}"]) simp
next
  case (Suc n)
  let ?h = "nc_heap c"
  have wf: "heap_wf ?h" using Suc.prems(1) by (simp add: heap_inv_def)
  show ?case
  proof (cases "heap_size ?h = 0")
    case True
    then show ?thesis using Suc.prems by (intro exI [of _ c] exI [of _ "{#}"]) simp
  next
    case False
    then have n0: "0 < heap_size ?h" by simp
    obtain nd where nd: "heap_at ?h 0 = Some nd" "hd_nodes ?h (hd_hps ?h ! 0) = Some nd" "hfactor ?h 0 = hp_factor nd"
      using heap_wf_at [OF wf n0] by metis
    then have v: "heap_view ?h (hd_hps ?h ! 0) = Some (hp_obj nd, hp_factor nd)" by (simp add: heap_view_def)
    show ?thesis
    proof (cases "now - hp_factor nd \<ge> nc_timeout c")
      case True
      from close_root [OF Suc.prems(1,2) n0 nd(1)] obtain c1 where
        c1: "connection_close c (hp_obj nd) = Some c1" "heap_inv (nc_heap c1)" "ctx_wf c1"
        "mset (hd_hps (nc_heap c1)) = mset (hd_hps ?h) - {#hd_hps ?h ! 0#}" "heap_view (nc_heap c1) = heap_view ?h"
        "nc_timeout c1 = nc_timeout c" by metis
      from Suc.IH [OF c1(2,3)] c1(6) Suc.prems(3) obtain c2 gone where
        c2: "prune_loop n now c1 = Some c2" "heap_inv (nc_heap c2)" "ctx_wf c2"
        "mset (hd_hps (nc_heap c1)) = gone + mset (hd_hps (nc_heap c2))" "heap_view (nc_heap c2) = heap_view (nc_heap c1)"
        "\<forall>p \<in># gone. idle_too_long now c1 p"
        "size gone = n \<or> (size gone < n \<and> (\<forall>p \<in> set (hd_hps (nc_heap c2)). \<not> idle_too_long now c1 p))" by auto
      have it: "idle_too_long now c1 = idle_too_long now c" by (intro ext) (simp only: idle_too_long_def c1(5,6))
      have "hd_hps ?h ! 0 \<in># mset (hd_hps ?h)" using n0 by simp
      then have "mset (hd_hps ?h) = add_mset (hd_hps ?h ! 0) gone + mset (hd_hps (nc_heap c2))"
        using c1(4) c2(4) by (metis add_mset_add_single insert_DiffM union_mset_add_mset_left)
      moreover have "idle_too_long now c (hd_hps ?h ! 0)" using v True by (simp add: idle_too_long_def)
      moreover have "prune_loop (Suc n) now c = Some c2" using False Suc.prems(3) nd(1) True c1(1) c2(1) by simp
      ultimately show ?thesis using c1(5) c2 it
        by (intro exI [of _ c2] exI [of _ "add_mset (hd_hps ?h ! 0) gone"]) auto
    next
      case fresh: False
      have "\<not> idle_too_long now c p" if "p \<in> set (hd_hps ?h)" for p
        using heap_root_min [OF Suc.prems(1) that] fresh nd(3) by (force simp: idle_too_long_def split: option.splits)
      then show ?thesis using False Suc.prems nd(1) fresh by (intro exI [of _ c] exI [of _ "{#}"]) simp
    qed
  qed
qed


section \<open>Expiring a connection\<close>

lemma get_heap_registered:
  assumes "heap_wf h"
  shows "get_heap h bc \<noteq> None \<longleftrightarrow> (\<exists>p \<in> set (hd_hps h). map_option fst (heap_view h p) = Some bc)"
proof
  assume "get_heap h bc \<noteq> None"
  then obtain p where "get_heap h bc = Some p" by auto
  then show "\<exists>p \<in> set (hd_hps h). map_option fst (heap_view h p) = Some bc"
    using get_heap_Some [OF assms] by (metis fst_conv nth_mem option.simps(9))
next
  assume "\<exists>p \<in> set (hd_hps h). map_option fst (heap_view h p) = Some bc"
  then obtain i where i: "i < heap_size h" "map_option fst (heap_view h (hd_hps h ! i)) = Some bc" by (metis in_set_conv_nth)
  show "get_heap h bc \<noteq> None"
  proof
    assume "get_heap h bc = None"
    with get_heap_None [OF assms this i(1)] i(2) show False by auto
  qed
qed

lemma heap_node_registered:
  assumes "heap_wf (nc_heap c)" "get_heap (nc_heap c) bc \<noteq> None"
  obtains p nd where "heap_node c bc = Some (p, nd)" "p \<in> set (hd_hps (nc_heap c))" "hd_nodes (nc_heap c) p = Some nd"
    "hp_heap_idx nd < heap_size (nc_heap c)" "hd_hps (nc_heap c) ! hp_heap_idx nd = p"
proof -
  obtain p where p: "get_heap (nc_heap c) bc = Some p" using assms(2) by blast
  then obtain i where i: "i < heap_size (nc_heap c)" "p = hd_hps (nc_heap c) ! i" using get_heap_Some [OF assms(1)] by metis
  obtain nd where "hd_nodes (nc_heap c) p = Some nd" "hp_heap_idx nd = i" using heap_wf_at [OF assms(1) i(1)] i(2) by metis
  then show thesis using p i by (intro that [of p nd]) (simp_all add: heap_node_def)
qed

lemma set_factor_wf:
  assumes "heap_wf h"
  shows "heap_wf (set_factor h p f)" "hd_hps (set_factor h p f) = hd_hps h"
    "map_option fst (heap_view (set_factor h p f) q) = map_option fst (heap_view h q)"
  using assms by (auto simp: heap_wf_def set_factor_def heap_view_def map_option_case split: option.splits)

lemma close_registered:
  assumes "heap_wf (nc_heap c)" "get_heap (nc_heap c) bc \<noteq> None" "nc_conns c bc = Some b"
  obtains c' where "connection_close c bc = Some c'" "nc_conns c' = (nc_conns c)(bc \<mapsto> close_fields b)"
    "nc_closed c' = nc_closed c @ [bc]" "heap_wf (nc_heap c')" "heap_size (nc_heap c') = heap_size (nc_heap c) - 1"
proof -
  from heap_node_registered [OF assms(1,2)] obtain p nd where
    n: "heap_node c bc = Some (p, nd)" "hp_heap_idx nd < heap_size (nc_heap c)" by metis
  obtain h' where h': "heap_remove_at (nc_heap c) (hp_heap_idx nd) = Some h'" "heap_wf h'"
    "mset (hd_hps h') = mset (hd_hps (nc_heap c)) - {#hd_hps (nc_heap c) ! hp_heap_idx nd#}"
    using heap_remove_at_total [OF assms(1) n(2)] by blast
  have "size (mset (hd_hps h')) = heap_size (nc_heap c) - 1" using n(2) h'(3) by (simp add: size_Diff_singleton)
  then have sz: "heap_size h' = heap_size (nc_heap c) - 1" by simp
  have node: "heap_node (c\<lparr>nc_conns := x\<rparr>) bc = Some (p, nd)" for x using n(1) by (simp add: heap_node_def)
  define c' where "c' = c\<lparr>nc_conns := (nc_conns c)(bc \<mapsto> close_fields b), nc_heap := h', nc_closed := nc_closed c @ [bc]\<rparr>"
  have "connection_close c bc = Some c'"
    using assms(3) h'(1) node by (simp add: connection_close_def connection_unregister_def c'_def)
  then show thesis by (rule that) (simp_all add: c'_def h'(2) sz)
qed

lemma get_role_s_r: "get_role_propt s_r = Some rp \<Longrightarrow> rp_s_r rp = s_r"
  by (auto simp: get_role_propt_def first_from_Some_iff)

lemma get_role_ipv4_server: "get_role_propt LD_TCP_SERVER = Some (role_propts ! 2)"
  by (simp add: get_role_propt_def role_propts_def first_from.simps)

lemma get_role_ipv4_client: "get_role_propt LD_TCP_CLIENT = Some (role_propts ! 0)"
  by (simp add: get_role_propt_def role_propts_def first_from.simps)

lemma set_expired_closes:
  assumes "heap_wf (nc_heap c)" "get_heap (nc_heap c) bc \<noteq> None" "nc_conns c bc = Some b" "get_role_propt (bc_role b) = Some rp"
  obtains c' where "connecion_set_expired c bc = Some c'" "nc_conns c' = (nc_conns c)(bc \<mapsto> close_fields b)"
    "nc_closed c' = nc_closed c @ [bc]"
proof -
  from heap_node_registered [OF assms(1,2)] obtain p nd where
    n: "heap_node c bc = Some (p, nd)" "hp_heap_idx nd < heap_size (nc_heap c)" by metis
  define h1 where "h1 = set_factor (nc_heap c) p 0"
  have h1: "heap_wf h1" "hd_hps h1 = hd_hps (nc_heap c)" "map_option fst (heap_view h1 q) = map_option fst (heap_view (nc_heap c) q)" for q
    using set_factor_wf [OF assms(1)] by (simp_all add: h1_def)
  obtain h2 where h2: "(if bc_role b AND 1 \<noteq> 0 then heap_bubble_up h1 (hp_heap_idx nd) else Some h1) = Some h2" "heap_wf h2" "heap_same h1 h2"
    using heap_bubble_up_total [OF h1(1)] h1(1,2) n(2) heap_same_refl by (cases "bc_role b AND 1 \<noteq> 0") auto
  have "get_heap h2 bc \<noteq> None"
    using assms(2) h1(2,3) h2(3) heap_same_set [OF h2(3)]
    unfolding get_heap_registered [OF h2(2)] get_heap_registered [OF assms(1)] by (simp add: heap_same_def)
  from close_registered [of "c\<lparr>nc_heap := h2\<rparr>" bc b] h2(2) this assms(3) obtain c' where
    c': "connection_close (c\<lparr>nc_heap := h2\<rparr>) bc = Some c'" "nc_conns c' = (nc_conns c)(bc \<mapsto> close_fields b)" "nc_closed c' = nc_closed c @ [bc]"
    by auto
  have "connecion_set_expired c bc = Some c'"
    using n(1) assms(3,4) h2(1) c'(1) get_role_s_r [OF assms(4)] by (auto simp: connecion_set_expired_def role_odd_def h1_def [symmetric] Let_def split: if_splits)
  then show thesis using c'(2,3) by (rule that)
qed


section \<open>Properties\<close>


definition ctx_of :: "heap_desc_t \<Rightarrow> net_ctx_t" where
  "ctx_of h = \<lparr>nc_epoll_fd = 4, nc_server_fd = 3, nc_timeout = 60, nc_heap = h, nc_conns = (\<lambda>_. Some (fresh_conn [])), nc_closed = []\<rparr>"

definition one_heap :: heap_desc_t where
  "one_heap = \<lparr>hd_hps = [1], hd_nodes = [1 \<mapsto> \<lparr>hp_heap_idx = 0, hp_factor = 5, hp_obj = 7\<rparr>]\<rparr>"

lemma one_heap_inv: "heap_inv one_heap"
  by (simp add: heap_inv_def heap_wf_def one_heap_def MAX_HEAP_def hp.heap_ordered_def)


text \<open>
  A write that the socket takes only in part closes the connection. \<open>write_packet\<close>
  answers AGAIN, which \<open>response_handle\<close> means to keep waiting for; the event loop treats
  everything but OK as an error, expires the connection and drops what was still to be sent.
\<close>

theorem partial_write_closes_connection:
  assumes "heap_wf (nc_heap c)" "nc_conns c bc = Some b" "connecion_is_expired now c bc = Some False"
    and "write_packet ws b = Some (NET_AGAIN, b', out, ws')" "get_role_propt (bc_role b') = Some rp"
  shows "\<exists>c' b''. handle_event now h False True rs ws c bc s = Some (c', s, out) \<and> nc_conns c' bc = Some b'' \<and>
     bc_state b'' = CONN_STATE_CLOSED \<and> bc_write_pkts b'' = None \<and> bc_cur b'' = None \<and> nc_closed c' = nc_closed c @ [bc]"
proof -
  have reg: "get_heap (nc_heap c) bc \<noteq> None" using assms(3) by (auto simp: connecion_is_expired_def heap_node_def split: bind_splits)
  define b1 where "b1 = b'\<lparr>bc_trans_done := False\<rparr>"
  define c1 where "c1 = c\<lparr>nc_conns := (nc_conns c)(bc \<mapsto> b1)\<rparr>"
  have rh: "response_handle ws c bc = Some (NET_AGAIN, c1, out)"
    using assms(2,4) by (simp add: response_handle_def response_send_buffer_def upd_conn_def Let_def c1_def b1_def)
  obtain c2 where c2: "connecion_set_expired c1 bc = Some c2" "nc_conns c2 = (nc_conns c1)(bc \<mapsto> close_fields b1)"
    "nc_closed c2 = nc_closed c1 @ [bc]"
    using set_expired_closes [of c1 bc b1 rp] assms(1,5) reg by (auto simp: c1_def b1_def)
  have "handle_event now h False True rs ws c bc s = Some (upd_conn c2 bc net_epoll_in, s, out)"
    using assms(3) rh c2(1) by (simp add: handle_event_def)
  then show ?thesis using c2 by (auto simp: upd_conn_def net_epoll_in_def close_fields_def c1_def)
qed

definition busy_conn :: basic_conn_t where
  "busy_conn = (fresh_conn [])\<lparr>bc_cur := Some \<lparr>buf_len = 2, buf_total = 2, buf_free = 0, buf_ptr = Some [1, 2, 0]\<rparr>\<rparr>"

theorem partial_write_closes_connection_witness:
  "\<exists>c' b''. handle_event 10 None False True [] [Wrote 1] ((ctx_of one_heap)\<lparr>nc_conns := [7 \<mapsto> busy_conn]\<rparr>) 7 () = Some (c', (), [1]) \<and>
     nc_conns c' 7 = Some b'' \<and> bc_state b'' = CONN_STATE_CLOSED"
proof -
  have w: "write_packet [Wrote 1] busy_conn = Some (NET_AGAIN, busy_conn\<lparr>bc_off := 1\<rparr>, [1], [])"
    by (simp add: write_packet.simps next_buffer_def busy_conn_def fresh_conn_def write_done_def mem_read_def)
  have e: "connecion_is_expired 10 ((ctx_of one_heap)\<lparr>nc_conns := [7 \<mapsto> busy_conn]\<rparr>) 7 = Some False"
    by (simp add: connecion_is_expired_def heap_node_def get_heap_def first_from.simps ctx_of_def one_heap_def heap_at_def)
  have "heap_wf (nc_heap ((ctx_of one_heap)\<lparr>nc_conns := [7 \<mapsto> busy_conn]\<rparr>))"
    using one_heap_inv by (simp add: ctx_of_def heap_inv_def)
  from partial_write_closes_connection [OF this _ e w, of "role_propts ! 0" None "[]" "()"] get_role_ipv4_client show ?thesis
    by (auto simp: busy_conn_def fresh_conn_def)
qed

definition ipv4_pair :: "int \<Rightarrow> int \<Rightarrow> int \<Rightarrow> net_ctx_t" where
  "ipv4_pair timeout t1 t2 =
     \<lparr>nc_epoll_fd = 4, nc_server_fd = 3, nc_timeout = timeout,
      nc_heap = \<lparr>hd_hps = [11, 12], hd_nodes = [11 \<mapsto> \<lparr>hp_heap_idx = 0, hp_factor = t1, hp_obj = 1\<rparr>, 12 \<mapsto> \<lparr>hp_heap_idx = 1, hp_factor = t2, hp_obj = 2\<rparr>]\<rparr>,
      nc_conns = (\<lambda>_. Some ((fresh_conn [])\<lparr>bc_role := LD_TCP_SERVER\<rparr>)), nc_closed = []\<rparr>"

lemma ipv4_pair_inv: "t1 \<le> t2 \<Longrightarrow> heap_inv (nc_heap (ipv4_pair timeout t1 t2))"
  by (auto simp: ipv4_pair_def heap_inv_def heap_wf_def MAX_HEAP_def hp.heap_ordered_def hfactor_def heap_at_def PARENT_def
      less_Suc_eq numeral_2_eq_2)

lemma prune_loop_fresh:
  assumes "heap_at (nc_heap c) 0 = Some nd" "now - hp_factor nd < nc_timeout c"
  shows "prune_loop n now c = Some c"
  using assms by (cases n) simp_all

text \<open>
  Reactivating a connection restores the heap order only for odd role numbers, which
  are the IPv6 roles. For an IPv4 server whose ordered heap has connection 1 at the root, activity
  on connection 1 leaves its new time at the root, and pruning does not see that connection 2
  below it has been idle for longer than the timeout.
\<close>

theorem idle_ipv4_connection_survives:
  assumes "t1 \<le> t2" "timeout \<le> now - t2" "now - t3 < timeout"
  shows "heap_inv (nc_heap (ipv4_pair timeout t1 t2)) \<and>
     (\<exists>c. connecion_set_reactivated t3 (ipv4_pair timeout t1 t2) 1 = Some c \<and> server_connection_prune now c = Some c \<and>
        get_heap (nc_heap c) 2 = Some 12 \<and> idle_too_long now c 12)"
proof -
  define c where "c = (ipv4_pair timeout t1 t2)\<lparr>nc_heap := set_factor (nc_heap (ipv4_pair timeout t1 t2)) 11 t3\<rparr>"
  have "connecion_set_reactivated t3 (ipv4_pair timeout t1 t2) 1 = Some c"
    by (simp add: connecion_set_reactivated_def heap_node_def get_heap_def first_from.simps heap_at_def role_odd_def c_def
        ipv4_pair_def fresh_conn_def Let_def get_role_ipv4_server) (simp add: role_propts_def)
  moreover have "server_connection_prune now c = Some c"
    using assms(3) unfolding server_connection_prune_def
    by (intro prune_loop_fresh [where nd = "\<lparr>hp_heap_idx = 0, hp_factor = t3, hp_obj = 1\<rparr>"])
      (simp_all add: c_def ipv4_pair_def set_factor_def heap_at_def)
  moreover have "get_heap (nc_heap c) 2 = Some 12" "idle_too_long now c 12"
    using assms(2) by (simp_all add: c_def ipv4_pair_def set_factor_def get_heap_def first_from.simps heap_at_def idle_too_long_def heap_view_def)
  ultimately show ?thesis using ipv4_pair_inv [OF assms(1)] by blast
qed

theorem idle_ipv4_connection_survives_witness:
  "\<exists>c. connecion_set_reactivated 90 (ipv4_pair 60 0 0) 1 = Some c \<and> server_connection_prune 100 c = Some c \<and>
     idle_too_long 100 c 12"
  using idle_ipv4_connection_survives [of 0 0 60 100 90] by auto

text \<open>
  When the heap is full, setting up one more connection dereferences NULL, whatever
  the outcome of the system calls: the failed registration is followed by an unregistration.
\<close>

theorem init_on_full_heap_undefined:
  assumes "MAX_HEAP \<le> heap_size (nc_heap c)" "get_heap (nc_heap c) bc = None"
  shows "init_basic_conn now node nonblock_ok queue_ok add_ok c bc = None"
  using assms by (simp add: init_basic_conn_def connection_register_def connection_close_def connection_unregister_def heap_node_def
      split: bind_splits)

definition full_heap :: heap_desc_t where
  "full_heap = \<lparr>hd_hps = [0..<8192], hd_nodes = (\<lambda>p. Some \<lparr>hp_heap_idx = p, hp_factor = 0, hp_obj = 9\<rparr>)\<rparr>"

theorem init_on_full_heap_undefined_witness:
  "init_basic_conn 0 None True True True (ctx_of full_heap) 7 = None"
  by (rule init_on_full_heap_undefined)
    (simp_all add: ctx_of_def full_heap_def MAX_HEAP_def get_heap_def first_from_None_iff heap_at_def)

end
