(* ===== verification/Event_System.thy ===== *)
theory Event_System
  imports Prelude
begin

text \<open>
  Systems that move in labelled steps, with the invariant rule the stateful components share.
  \<open>ev_runs step s ls s'\<close> says that the labels \<open>ls\<close> lead from \<open>s\<close> to \<open>s'\<close>. The locale
  \<open>event_system\<close> is the contract of such a component: an invariant that holds at the start and is
  kept by every step.
\<close>

inductive ev_runs :: "('s \<Rightarrow> 'l \<Rightarrow> 's \<Rightarrow> bool) \<Rightarrow> 's \<Rightarrow> 'l list \<Rightarrow> 's \<Rightarrow> bool" for step where
  runs_Nil: "ev_runs step s [] s"
| runs_Cons: "step s l s1 \<Longrightarrow> ev_runs step s1 ls s2 \<Longrightarrow> ev_runs step s (l # ls) s2"

inductive_simps ev_runs_Nil [simp]: "ev_runs step s [] s'"
inductive_simps ev_runs_Cons [simp]: "ev_runs step s (l # ls) s'"

lemma ev_runs_append: "ev_runs step s (ls @ ls') s2 \<longleftrightarrow> (\<exists>s1. ev_runs step s ls s1 \<and> ev_runs step s1 ls' s2)"
  by (induction ls arbitrary: s) auto

locale event_system =
  fixes init :: "'s \<Rightarrow> bool"
    and step :: "'s \<Rightarrow> 'l \<Rightarrow> 's \<Rightarrow> bool"
    and inv :: "'s \<Rightarrow> bool"
  assumes inv_init: "init s \<Longrightarrow> inv s"
    and inv_step: "inv s \<Longrightarrow> step s l s' \<Longrightarrow> inv s'"
begin

lemma runs_inv: "ev_runs step s ls s' \<Longrightarrow> inv s \<Longrightarrow> inv s'"
  by (induction rule: ev_runs.induct) (auto intro: inv_step)

lemma reachable_inv: "init s \<Longrightarrow> ev_runs step s ls s' \<Longrightarrow> inv s'"
  using runs_inv inv_init by blast

end

text \<open>
  A system whose steps are matched by the steps of a specification on a related abstract state.
\<close>

locale simulating_system =
  fixes step :: "'s \<Rightarrow> 'l \<Rightarrow> 's \<Rightarrow> bool"
    and rel :: "'s \<Rightarrow> 'a \<Rightarrow> bool"
    and spec :: "'a \<Rightarrow> 'l \<Rightarrow> 'a \<Rightarrow> bool"
  assumes rel_step: "rel s a \<Longrightarrow> step s l s' \<Longrightarrow> \<exists>a'. rel s' a' \<and> spec a l a'"
begin

lemma runs_simulate: "ev_runs step s ls s' \<Longrightarrow> rel s a \<Longrightarrow> \<exists>a'. rel s' a' \<and> ev_runs spec a ls a'"
proof (induction arbitrary: a rule: ev_runs.induct)
  case (runs_Cons s l s1 ls s2)
  then obtain a1 where "rel s1 a1" "spec a l a1" using rel_step by blast
  with runs_Cons.IH [of a1] show ?case by auto
qed auto

end

text \<open>
  A system that in addition implements an abstract one: every step is a step of the specification
  on the abstraction, or leaves the abstraction alone.
\<close>

locale refining_system = event_system init step inv
  for init :: "'s \<Rightarrow> bool" and step :: "'s \<Rightarrow> 'l \<Rightarrow> 's \<Rightarrow> bool" and inv :: "'s \<Rightarrow> bool" +
  fixes absn :: "'s \<Rightarrow> 'a"
    and vis :: "'l \<Rightarrow> 'v option"
    and astep :: "'a \<Rightarrow> 'v \<Rightarrow> 'a \<Rightarrow> bool"
  assumes refine_vis: "inv s \<Longrightarrow> step s l s' \<Longrightarrow> vis l = Some v \<Longrightarrow> astep (absn s) v (absn s')"
    and refine_tau: "inv s \<Longrightarrow> step s l s' \<Longrightarrow> vis l = None \<Longrightarrow> absn s' = absn s"
begin

lemma runs_refine: "ev_runs step s ls s' \<Longrightarrow> inv s \<Longrightarrow> ev_runs astep (absn s) (List.map_filter vis ls) (absn s')"
proof (induction rule: ev_runs.induct)
  case (runs_Cons s l s1 ls s2)
  then have "ev_runs astep (absn s1) (List.map_filter vis ls) (absn s2)" using inv_step by blast
  then show ?case
  proof (cases "vis l")
    case None
    then show ?thesis using refine_tau [OF runs_Cons.prems runs_Cons.hyps(1)] \<open>ev_runs astep (absn s1) _ _\<close>
      by (simp add: List.map_filter_simps)
  next
    case (Some v)
    have "ev_runs astep (absn s) (v # List.map_filter vis ls) (absn s2)"
      using refine_vis [OF runs_Cons.prems runs_Cons.hyps(1) Some] \<open>ev_runs astep (absn s1) _ _\<close> by (rule ev_runs.runs_Cons)
    then show ?thesis using Some by (simp add: List.map_filter_simps)
  qed
qed (simp add: List.map_filter_simps)

end

end
