(* ===== verification/Statemachine.thy ===== *)
theory Statemachine
  imports Event_System
begin

text \<open>
  The hierarchical state machine of src/src/ld_statemachine.c and src/include/ld_statemachine.h.
  States and their transitions live in a store indexed by their addresses; a state machine holds
  the addresses of its current, previous and error state. The actions and guards of the user are
  functions in the store: actions work on the state \<open>'s\<close> of the application, and, as the header
  demands, do not touch the machine. \<open>'v\<close> is what a \<open>void *\<close> points to in states and conditions,
  \<open>'e\<close> the payload of an event.
\<close>

section \<open>Data\<close>

record 'e sm_event_t =
  ev_type :: int
  ev_data :: 'e

record ('v, 'e, 's) sm_transition_t =
  tr_eventType :: int
  tr_condition :: 'v
  tr_guard :: "('v \<Rightarrow> 'e sm_event_t \<Rightarrow> bool) option"
  tr_action :: "('v \<Rightarrow> 'e sm_event_t \<Rightarrow> 'v \<Rightarrow> 's \<Rightarrow> 's) option"
  tr_nextState :: "addr option"

record ('v, 'e, 's) sm_state_t =
  st_parentState :: "addr option"
  st_entryState :: "addr option"
  st_transitions :: "('v, 'e, 's) sm_transition_t list"
  st_data :: 'v
  st_entryAction :: "('v \<Rightarrow> 'e sm_event_t \<Rightarrow> 's \<Rightarrow> l_err \<times> 's) option"
  st_exitAction :: "('v \<Rightarrow> 'e sm_event_t \<Rightarrow> 's \<Rightarrow> l_err \<times> 's) option"

record sm_statemachine_t =
  sm_currentState :: "addr option"
  sm_previousState :: "addr option"
  sm_errorState :: "addr option"

type_synonym ('v, 'e, 's) sm_store = "addr \<rightharpoonup> ('v, 'e, 's) sm_state_t"

abbreviation numTransitions :: "('v, 'e, 's) sm_state_t \<Rightarrow> nat" where
  "numTransitions st \<equiv> length (st_transitions st)"


section \<open>Operations\<close>

definition stateM_init :: "addr option \<Rightarrow> addr option \<Rightarrow> sm_statemachine_t option \<Rightarrow> sm_statemachine_t option" where
  "stateM_init initialState errorState fsm =
     (case fsm of
        None \<Rightarrow> None
      | Some f \<Rightarrow> Some (f\<lparr>sm_currentState := initialState, sm_previousState := None, sm_errorState := errorState\<rparr>))"

definition tr_enabled :: "'e sm_event_t \<Rightarrow> ('v, 'e, 's) sm_transition_t \<Rightarrow> bool" where
  "tr_enabled ev t \<longleftrightarrow> tr_eventType t = ev_type ev \<and> (case tr_guard t of None \<Rightarrow> True | Some g \<Rightarrow> g (tr_condition t) ev)"

definition getTransition :: "('v, 'e, 's) sm_state_t \<Rightarrow> 'e sm_event_t \<Rightarrow> ('v, 'e, 's) sm_transition_t option" where
  "getTransition st ev =
     map_option (\<lambda>i. st_transitions st ! i) (first_from (\<lambda>i. tr_enabled ev (st_transitions st ! i)) 0 (numTransitions st))"

definition run_entry :: "('v, 'e, 's) sm_state_t \<Rightarrow> 'e sm_event_t \<Rightarrow> 's \<Rightarrow> l_err \<times> 's" where
  "run_entry st ev w = (case st_entryAction st of None \<Rightarrow> (LD_OK, w) | Some f \<Rightarrow> f (st_data st) ev w)"

definition run_exit :: "('v, 'e, 's) sm_state_t \<Rightarrow> 'e sm_event_t \<Rightarrow> 's \<Rightarrow> 's" where
  "run_exit st ev w = (case st_exitAction st of None \<Rightarrow> w | Some f \<Rightarrow> snd (f (st_data st) ev w))"

definition run_action :: "('v, 'e, 's) sm_transition_t \<Rightarrow> 'v \<Rightarrow> 'e sm_event_t \<Rightarrow> 'v \<Rightarrow> 's \<Rightarrow> 's" where
  "run_action t cur ev nxt w = (case tr_action t of None \<Rightarrow> w | Some f \<Rightarrow> f cur ev nxt w)"

definition goToErrorState ::
  "('v, 'e, 's) sm_store \<Rightarrow> sm_statemachine_t \<Rightarrow> 'e sm_event_t \<Rightarrow> 's \<Rightarrow> (sm_statemachine_t \<times> 's) option" where
  "goToErrorState m fsm ev w =
     (let fsm = fsm\<lparr>sm_previousState := sm_currentState fsm, sm_currentState := sm_errorState fsm\<rparr> in
      case sm_currentState fsm of
        None \<Rightarrow> Some (fsm, w)
      | Some e \<Rightarrow> do { st \<leftarrow> m e; Some (fsm, snd (run_entry st ev w)) })"

text \<open>
  \<open>while (nextState->entryState) nextState = nextState->entryState;\<close> -- no value when the chain
  never ends or runs into an invalid pointer.
\<close>

partial_function (option) enter_loop :: "('v, 'e, 's) sm_store \<Rightarrow> addr \<Rightarrow> addr option" where
  "enter_loop m s = Option.bind (m s) (\<lambda>st. case st_entryState st of None \<Rightarrow> Some s | Some e \<Rightarrow> enter_loop m e)"

text \<open>What follows once a transition has been found, for the current state \<open>c\<close>.\<close>

definition sm_fire ::
  "('v, 'e, 's) sm_store \<Rightarrow> sm_statemachine_t \<Rightarrow> addr \<Rightarrow> 'e sm_event_t \<Rightarrow> 's \<Rightarrow> ('v, 'e, 's) sm_transition_t \<Rightarrow>
   (l_err \<times> sm_statemachine_t \<times> 's) option" where
  "sm_fire m fsm c ev w t =
     (case tr_nextState t of
        None \<Rightarrow> do { (fsm, w) \<leftarrow> goToErrorState m fsm ev w; Some (LD_ERR_INVAL_STATE_REACHED, fsm, w) }
      | Some n \<Rightarrow> do {
          n \<leftarrow> enter_loop m n;
          cst \<leftarrow> m c;
          nst \<leftarrow> m n;
          let w = (if n \<noteq> c then run_exit cst ev w else w);
          let w = run_action t (st_data cst) ev (st_data nst) w;
          let (r, w) = (if n \<noteq> c then run_entry nst ev w else (LD_OK, w));
          if r \<noteq> LD_OK then Some (LD_ERR_NO_STATE_CHANGE, fsm, w)
          else Some
            (if n = c then LD_ERR_STATE_LOOP
             else if sm_errorState fsm = Some n then LD_ERR_INVAL_STATE_REACHED
             else if numTransitions nst = 0 then LD_FINAL_STATE_REACHD
             else LD_OK,
             fsm\<lparr>sm_previousState := sm_currentState fsm, sm_currentState := Some n\<rparr>, w) })"

text \<open>The search for a transition in the state \<open>s\<close> and, failing that, in its ancestors.\<close>

partial_function (option) search_loop ::
  "('v, 'e, 's) sm_store \<Rightarrow> 'e sm_event_t \<Rightarrow> addr \<Rightarrow> ('v, 'e, 's) sm_transition_t option option" where
  "search_loop m ev s = Option.bind (m s) (\<lambda>st.
     case getTransition st ev of
       Some t \<Rightarrow> Some (Some t)
     | None \<Rightarrow> (case st_parentState st of None \<Rightarrow> Some None | Some p \<Rightarrow> search_loop m ev p))"

definition stateM_handleEvent ::
  "('v, 'e, 's) sm_store \<Rightarrow> sm_statemachine_t option \<Rightarrow> 'e sm_event_t option \<Rightarrow> 's \<Rightarrow>
   (l_err \<times> sm_statemachine_t option \<times> 's) option" where
  "stateM_handleEvent m fsm ev w =
     (case (fsm, ev) of
        (Some fsm, Some ev) \<Rightarrow>
          (case sm_currentState fsm of
             None \<Rightarrow> do { (fsm, w) \<leftarrow> goToErrorState m fsm ev w; Some (LD_ERR_INVAL_STATE_REACHED, Some fsm, w) }
           | Some c \<Rightarrow> do {
               cst \<leftarrow> m c;
               if numTransitions cst = 0 then Some (LD_ERR_NO_STATE_CHANGE, Some fsm, w)
               else do {
                 r \<leftarrow> search_loop m ev c;
                 case r of
                   None \<Rightarrow> Some (LD_ERR_NO_STATE_CHANGE, Some fsm, w)
                 | Some t \<Rightarrow> do { (e, fsm, w) \<leftarrow> sm_fire m fsm c ev w t; Some (e, Some fsm, w) } } })
      | _ \<Rightarrow> Some (LD_ERR_WRONG_PARA, fsm, w))"

definition stateM_currentState :: "sm_statemachine_t option \<Rightarrow> addr option" where
  "stateM_currentState fsm = (case fsm of None \<Rightarrow> None | Some f \<Rightarrow> sm_currentState f)"

definition stateM_previousState :: "sm_statemachine_t option \<Rightarrow> addr option" where
  "stateM_previousState fsm = (case fsm of None \<Rightarrow> None | Some f \<Rightarrow> sm_previousState f)"

definition stateM_stopped :: "('v, 'e, 's) sm_store \<Rightarrow> sm_statemachine_t option \<Rightarrow> bool option" where
  "stateM_stopped m fsm =
     (case fsm of
        None \<Rightarrow> Some True
      | Some f \<Rightarrow> do { c \<leftarrow> sm_currentState f; st \<leftarrow> m c; Some (numTransitions st = 0) })"


section \<open>State names\<close>

text \<open>
  The convention of the SDK: the data of a state is its name, an event carries the name of the
  state it asks for, together with an entry and an exit function of its own.
\<close>

record ('a, 's) fsm_event_t =
  fe_state_str :: string
  fe_entry_event :: "('a \<Rightarrow> 's \<Rightarrow> l_err \<times> 's) option"
  fe_exit_event :: "('a \<Rightarrow> 's \<Rightarrow> l_err \<times> 's) option"

record ('a, 's) fsm_event_data_t =
  fd_fev :: "('a, 's) fsm_event_t"
  fd_args :: 'a

definition default_guard :: "string \<Rightarrow> ('a, 's) fsm_event_data_t sm_event_t \<Rightarrow> bool" where
  "default_guard condition ev \<longleftrightarrow> condition = fe_state_str (fd_fev (ev_data ev))"

definition sm_default_entry_action :: "string \<Rightarrow> ('a, 's) fsm_event_data_t sm_event_t \<Rightarrow> 's \<Rightarrow> l_err \<times> 's" where
  "sm_default_entry_action stateData ev w =
     (case fe_entry_event (fd_fev (ev_data ev)) of None \<Rightarrow> (LD_OK, w) | Some f \<Rightarrow> f (fd_args (ev_data ev)) w)"

definition sm_default_exit_action :: "string \<Rightarrow> ('a, 's) fsm_event_data_t sm_event_t \<Rightarrow> 's \<Rightarrow> l_err \<times> 's" where
  "sm_default_exit_action stateData ev w =
     (case fe_exit_event (fd_fev (ev_data ev)) of None \<Rightarrow> (LD_OK, w) | Some f \<Rightarrow> f (fd_args (ev_data ev)) w)"

definition change_state ::
  "('v, 'e, 's) sm_store \<Rightarrow> sm_statemachine_t option \<Rightarrow> int \<Rightarrow> 'e \<Rightarrow> 's \<Rightarrow> (l_err \<times> sm_statemachine_t option \<times> 's) option" where
  "change_state m fsm ty to_state w = stateM_handleEvent m fsm (Some \<lparr>ev_type = ty, ev_data = to_state\<rparr>) w"

definition in_state :: "(string, 'e, 's) sm_store \<Rightarrow> sm_statemachine_t option \<Rightarrow> string \<Rightarrow> bool option" where
  "in_state m fsm dest_state = do { c \<leftarrow> stateM_currentState fsm; st \<leftarrow> m c; Some (st_data st = dest_state) }"


section \<open>The two chains\<close>

text \<open>The \<open>k\<close>-th ancestor of a state and the \<open>k\<close>-th state down its chain of entry states.\<close>

primrec ancestor :: "('v, 'e, 's) sm_store \<Rightarrow> nat \<Rightarrow> addr \<Rightarrow> addr option" where
  "ancestor m 0 s = Some s"
| "ancestor m (Suc k) s = do { st \<leftarrow> m s; p \<leftarrow> st_parentState st; ancestor m k p }"

primrec descend :: "('v, 'e, 's) sm_store \<Rightarrow> nat \<Rightarrow> addr \<Rightarrow> addr option" where
  "descend m 0 s = Some s"
| "descend m (Suc k) s = do { st \<leftarrow> m s; e \<leftarrow> st_entryState st; descend m k e }"

definition is_leaf :: "('v, 'e, 's) sm_store \<Rightarrow> addr \<Rightarrow> bool" where
  "is_leaf m s \<longleftrightarrow> (case m s of None \<Rightarrow> False | Some st \<Rightarrow> st_entryState st = None)"

lemma getTransition_Some_iff:
  "getTransition st ev = Some t \<longleftrightarrow>
     (\<exists>i < numTransitions st. st_transitions st ! i = t \<and> tr_enabled ev t \<and> (\<forall>j < i. \<not> tr_enabled ev (st_transitions st ! j)))"
  by (auto simp: getTransition_def first_from_Some_iff)

lemma getTransition_None_iff: "getTransition st ev = None \<longleftrightarrow> (\<forall>t \<in> set (st_transitions st). \<not> tr_enabled ev t)"
  by (auto simp: getTransition_def first_from_None_iff all_set_conv_all_nth)

lemma enter_loop_sound: "enter_loop m s = Some l \<Longrightarrow> \<exists>k. descend m k s = Some l \<and> is_leaf m l"
proof (rule enter_loop.raw_induct [where P = "\<lambda>m s l. \<exists>k. descend m k s = Some l \<and> is_leaf m l"])
  fix f m s l
  assume IH: "\<And>m s l. f m s = Some l \<Longrightarrow> \<exists>k. descend m k s = Some l \<and> is_leaf m l"
    and eq: "Option.bind (m s) (\<lambda>st. case st_entryState st of None \<Rightarrow> Some s | Some e \<Rightarrow> f m e) = Some l"
  then obtain st where st: "m s = Some st" by (auto split: bind_splits)
  show "\<exists>k. descend m k s = Some l \<and> is_leaf m l"
  proof (cases "st_entryState st")
    case None
    then have "descend m 0 s = Some l" "is_leaf m l" using eq st by (auto simp: is_leaf_def)
    then show ?thesis by blast
  next
    case (Some e)
    then have "f m e = Some l" using eq st by simp
    from IH [OF this] obtain k where "descend m k e = Some l" "is_leaf m l" by blast
    then have "descend m (Suc k) s = Some l" using st Some by simp
    then show ?thesis using \<open>is_leaf m l\<close> by blast
  qed
qed

lemma enter_loop_complete: "descend m k s = Some l \<Longrightarrow> is_leaf m l \<Longrightarrow> enter_loop m s = Some l"
proof (induction k arbitrary: s)
  case 0
  then show ?case by (subst enter_loop.simps) (auto simp: is_leaf_def split: option.splits)
next
  case (Suc k)
  then show ?case by (subst enter_loop.simps) (auto split: bind_splits)
qed

lemma enter_loop_iff: "enter_loop m s = Some l \<longleftrightarrow> (\<exists>k. descend m k s = Some l \<and> is_leaf m l)"
  using enter_loop_sound enter_loop_complete by blast

text \<open>A state that passes the event on to its parent.\<close>

definition passes_on :: "('v, 'e, 's) sm_store \<Rightarrow> 'e sm_event_t \<Rightarrow> nat \<Rightarrow> addr \<Rightarrow> bool" where
  "passes_on m ev k s \<longleftrightarrow> (\<forall>j < k. \<exists>q st. ancestor m j s = Some q \<and> m q = Some st \<and> getTransition st ev = None)"

lemma passes_on_Suc:
  "m s = Some st \<Longrightarrow> st_parentState st = Some p \<Longrightarrow>
   passes_on m ev (Suc k) s \<longleftrightarrow> getTransition st ev = None \<and> passes_on m ev k p"
  by (auto simp: passes_on_def All_less_Suc2)

lemma search_loop_sound:
  "search_loop m ev s = Some r \<Longrightarrow>
   \<exists>k p st. ancestor m k s = Some p \<and> passes_on m ev k s \<and> m p = Some st \<and> getTransition st ev = r \<and> (r = None \<longrightarrow> st_parentState st = None)"
proof (rule search_loop.raw_induct [where P = "\<lambda>m ev s r. \<exists>k p st. ancestor m k s = Some p \<and> passes_on m ev k s \<and> m p = Some st \<and>
    getTransition st ev = r \<and> (r = None \<longrightarrow> st_parentState st = None)"])
  fix f m ev s r
  assume IH: "\<And>m ev s r. f m ev s = Some r \<Longrightarrow> \<exists>k p st. ancestor m k s = Some p \<and> passes_on m ev k s \<and> m p = Some st \<and>
      getTransition st ev = r \<and> (r = None \<longrightarrow> st_parentState st = None)"
    and eq: "Option.bind (m s) (\<lambda>st. case getTransition st ev of
         Some t \<Rightarrow> Some (Some t)
       | None \<Rightarrow> (case st_parentState st of None \<Rightarrow> Some None | Some p \<Rightarrow> f m ev p)) = Some r"
  then obtain st where st: "m s = Some st" by (auto split: bind_splits)
  show "\<exists>k p st. ancestor m k s = Some p \<and> passes_on m ev k s \<and> m p = Some st \<and> getTransition st ev = r \<and> (r = None \<longrightarrow> st_parentState st = None)"
  proof (cases "getTransition st ev = None \<and> st_parentState st \<noteq> None")
    case True
    then obtain p where p: "st_parentState st = Some p" "f m ev p = Some r" using eq st by auto
    from IH [OF p(2)] obtain k q sq where
      "ancestor m k p = Some q" "passes_on m ev k p" "m q = Some sq" "getTransition sq ev = r" "r = None \<longrightarrow> st_parentState sq = None"
      by metis
    moreover from this have "ancestor m (Suc k) s = Some q" "passes_on m ev (Suc k) s"
      using st p(1) True by (simp_all add: passes_on_Suc)
    ultimately show ?thesis by metis
  next
    case False
    then have "getTransition st ev = r \<and> (r = None \<longrightarrow> st_parentState st = None)"
      using eq st by (auto split: option.splits)
    moreover have "ancestor m 0 s = Some s" "passes_on m ev 0 s" by (simp_all add: passes_on_def)
    ultimately show ?thesis using st by metis
  qed
qed

lemma search_loop_complete:
  "ancestor m k s = Some p \<Longrightarrow> passes_on m ev k s \<Longrightarrow> m p = Some st \<Longrightarrow> getTransition st ev = Some t \<Longrightarrow>
   search_loop m ev s = Some (Some t)"
proof (induction k arbitrary: s)
  case 0
  then show ?case by (subst search_loop.simps) simp
next
  case (Suc k)
  then obtain st' q where "m s = Some st'" "st_parentState st' = Some q" "ancestor m k q = Some p" by (auto split: bind_splits)
  then show ?case using Suc by (subst search_loop.simps) (auto simp: passes_on_Suc)
qed


section \<open>Well-formed machines\<close>

definition parent_rel :: "('v, 'e, 's) sm_store \<Rightarrow> (addr \<times> addr) set" where
  "parent_rel m = {(p, s). \<exists>st. m s = Some st \<and> st_parentState st = Some p}"

definition entry_rel :: "('v, 'e, 's) sm_store \<Rightarrow> (addr \<times> addr) set" where
  "entry_rel m = {(e, s). \<exists>st. m s = Some st \<and> st_entryState st = Some e}"

definition closed_state :: "('v, 'e, 's) sm_store \<Rightarrow> ('v, 'e, 's) sm_state_t \<Rightarrow> bool" where
  "closed_state m st \<longleftrightarrow>
     pred_option (\<lambda>p. m p \<noteq> None) (st_parentState st) \<and> pred_option (\<lambda>e. m e \<noteq> None) (st_entryState st) \<and>
     (\<forall>t \<in> set (st_transitions st). pred_option (\<lambda>n. m n \<noteq> None) (tr_nextState t))"

text \<open>Every pointer is valid, and neither the parents nor the entry states form a cycle.\<close>

definition sm_wf :: "('v, 'e, 's) sm_store \<Rightarrow> bool" where
  "sm_wf m \<longleftrightarrow> (\<forall>s st. m s = Some st \<longrightarrow> closed_state m st) \<and> wf (parent_rel m) \<and> wf (entry_rel m)"

definition sm_ok :: "('v, 'e, 's) sm_store \<times> sm_statemachine_t \<times> 's \<Rightarrow> bool" where
  "sm_ok = (\<lambda>(m, fsm, w). sm_wf m \<and> pred_option (\<lambda>c. m c \<noteq> None) (sm_currentState fsm) \<and>
     pred_option (\<lambda>e. m e \<noteq> None) (sm_errorState fsm))"

lemma sm_wf_closed: "sm_wf m \<Longrightarrow> m s = Some st \<Longrightarrow> closed_state m st"
  by (auto simp: sm_wf_def)

lemma enter_loop_total:
  assumes "sm_wf m" "m s \<noteq> None"
  shows "\<exists>l st. enter_loop m s = Some l \<and> m l = Some st"
proof -
  have "wf (entry_rel m)" using assms(1) by (simp add: sm_wf_def)
  then show ?thesis using assms(2)
  proof (induction s rule: wf_induct_rule)
    case (less s)
    then obtain st where st: "m s = Some st" by auto
    show ?case
    proof (cases "st_entryState st")
      case None
      then show ?thesis using st by (simp add: enter_loop.simps [of m s])
    next
      case (Some e)
      then have "(e, s) \<in> entry_rel m" "m e \<noteq> None"
        using st sm_wf_closed [OF assms(1) st] by (auto simp: entry_rel_def closed_state_def)
      from less.IH [OF this] show ?thesis using st Some by (simp add: enter_loop.simps [of m s])
    qed
  qed
qed

lemma search_loop_total:
  assumes "sm_wf m" "m s \<noteq> None"
  shows "\<exists>r. search_loop m ev s = Some r"
proof -
  have "wf (parent_rel m)" using assms(1) by (simp add: sm_wf_def)
  then show ?thesis using assms(2)
  proof (induction s rule: wf_induct_rule)
    case (less s)
    then obtain st where st: "m s = Some st" by auto
    show ?case
    proof (cases "getTransition st ev = None \<and> st_parentState st \<noteq> None")
      case False
      then show ?thesis using st by (auto simp: search_loop.simps [of m ev s] split: option.splits)
    next
      case True
      then obtain p where p: "st_parentState st = Some p" by auto
      then have "(p, s) \<in> parent_rel m" "m p \<noteq> None"
        using st sm_wf_closed [OF assms(1) st] by (auto simp: parent_rel_def closed_state_def)
      from less.IH [OF this] show ?thesis using st True p by (simp add: search_loop.simps [of m ev s])
    qed
  qed
qed

lemma search_loop_target:
  assumes "sm_wf m" "search_loop m ev c = Some (Some t)"
  shows "pred_option (\<lambda>n. m n \<noteq> None) (tr_nextState t)"
proof -
  obtain p st where "m p = Some st" "getTransition st ev = Some t" using search_loop_sound [OF assms(2)] by metis
  then show ?thesis using sm_wf_closed [OF assms(1)] by (metis closed_state_def getTransition_Some_iff nth_mem)
qed

lemma goToErrorState_ok:
  assumes "sm_ok (m, fsm, w)"
  shows "\<exists>fsm' w'. goToErrorState m fsm ev w = Some (fsm', w') \<and> sm_ok (m, fsm', w')"
  using assms by (auto simp: goToErrorState_def sm_ok_def Let_def split: option.splits)

lemma sm_fire_ok:
  assumes "sm_ok (m, fsm, w)" "m c = Some cst" "pred_option (\<lambda>n. m n \<noteq> None) (tr_nextState t)"
  shows "\<exists>r fsm' w'. sm_fire m fsm c ev w t = Some (r, fsm', w') \<and> sm_ok (m, fsm', w')"
proof (cases "tr_nextState t")
  case None
  then show ?thesis using goToErrorState_ok [OF assms(1), of ev] by (auto simp: sm_fire_def)
next
  case (Some n)
  then obtain l lst where "enter_loop m n = Some l" "m l = Some lst"
    using assms enter_loop_total [of m n] by (auto simp: sm_ok_def)
  then show ?thesis using assms Some by (auto simp: sm_fire_def sm_ok_def Let_def split: prod.splits)
qed

lemma handleEvent_ok:
  assumes "sm_ok (m, fsm, w)"
  shows "\<exists>r fsm' w'. stateM_handleEvent m (Some fsm) (Some ev) w = Some (r, Some fsm', w') \<and> sm_ok (m, fsm', w')"
proof (cases "sm_currentState fsm")
  case None
  then show ?thesis using goToErrorState_ok [OF assms, of ev] by (auto simp: stateM_handleEvent_def)
next
  case (Some c)
  then obtain cst where c: "m c = Some cst" using assms by (auto simp: sm_ok_def)
  have wf: "sm_wf m" using assms by (simp add: sm_ok_def)
  obtain r where r: "search_loop m ev c = Some r" using search_loop_total [OF wf, of c ev] c by auto
  show ?thesis
  proof (cases r)
    case None
    then show ?thesis using Some c r assms by (simp add: stateM_handleEvent_def)
  next
    case t: (Some t)
    obtain e fsm' w' where "sm_fire m fsm c ev w t = Some (e, fsm', w')" "sm_ok (m, fsm', w')"
      using sm_fire_ok [OF assms c search_loop_target [OF wf]] r t by metis
    then show ?thesis using Some c r t assms by (simp add: stateM_handleEvent_def)
  qed
qed

text \<open>The machine as a system of labelled steps; a label is an event with its answer.\<close>

definition sm_start :: "('v, 'e, 's) sm_store \<times> sm_statemachine_t \<times> 's \<Rightarrow> bool" where
  "sm_start = (\<lambda>(m, fsm, w). sm_wf m \<and>
     (\<exists>i e f. m i \<noteq> None \<and> pred_option (\<lambda>e. m e \<noteq> None) e \<and> stateM_init (Some i) e (Some f) = Some fsm))"

definition sm_event :: "('v, 'e, 's) sm_store \<times> sm_statemachine_t \<times> 's \<Rightarrow> 'e sm_event_t \<times> l_err \<Rightarrow>
    ('v, 'e, 's) sm_store \<times> sm_statemachine_t \<times> 's \<Rightarrow> bool" where
  "sm_event = (\<lambda>(m, fsm, w) (ev, r) (m', fsm', w'). m' = m \<and> stateM_handleEvent m (Some fsm) (Some ev) w = Some (r, Some fsm', w'))"

lemma sm_event_ok:
  assumes "sm_ok s" "sm_event s l s'"
  shows "sm_ok s'"
proof -
  obtain m fsm w where s: "s = (m, fsm, w)" by (cases s) auto
  obtain ev r where l: "l = (ev, r)" by (cases l)
  show ?thesis using handleEvent_ok [of m fsm w ev] assms s l by (auto simp: sm_event_def)
qed

interpretation sm: event_system sm_start sm_event sm_ok
proof
  show "sm_ok s" if "sm_start s" for s :: "('v, 'e, 's) sm_store \<times> sm_statemachine_t \<times> 's"
    using that by (auto simp: sm_start_def sm_ok_def stateM_init_def)
  show "sm_ok s'" if "sm_ok s" "sm_event s l s'" for s s' :: "('v, 'e, 's) sm_store \<times> sm_statemachine_t \<times> 's" and l
    using that(2,1) sm_event_ok by blast
qed


section \<open>Cycles\<close>

lemma descend_add: "descend m (i + j) s = Option.bind (descend m i s) (descend m j)"
  by (induction i arbitrary: s) (auto split: bind_splits)

lemma descend_leaf: "is_leaf m l \<Longrightarrow> 0 < k \<Longrightarrow> descend m k l = None"
  by (cases k) (auto simp: is_leaf_def split: option.splits bind_splits)

lemma descend_cycle: "descend m k s = Some s \<Longrightarrow> descend m (j * k) s = Some s"
  by (induction j) (simp_all add: descend_add)

lemma entry_cycle_None:
  assumes "descend m k s = Some s" "0 < k"
  shows "enter_loop m s = None"
proof (rule ccontr)
  assume "enter_loop m s \<noteq> None"
  then obtain j l where l: "descend m j s = Some l" "is_leaf m l" using enter_loop_sound by blast
  have "descend m (j + (Suc j * k - j)) s = Some s"
    using descend_cycle [OF assms(1), of "Suc j"] assms(2) by (simp add: trans_le_add2)
  then have "descend m (Suc j * k - j) l = Some s" using l(1) by (simp add: descend_add)
  moreover have "0 < Suc j * k - j" using assms(2) by (cases k) auto
  ultimately show False using descend_leaf [OF l(2)] by (metis option.distinct(1))
qed


section \<open>Properties\<close>

text \<open>
  An example: the group 0 with the entry state 1, a state 3 beside it and the final state 2. An
  event of type 7 asks for a state by its name.
\<close>

definition named_tr :: "string \<Rightarrow> addr \<Rightarrow> (string, (unit, nat) fsm_event_data_t, nat) sm_transition_t" where
  "named_tr cond n = \<lparr>tr_eventType = 7, tr_condition = cond, tr_guard = Some default_guard, tr_action = None, tr_nextState = Some n\<rparr>"

definition named_st :: "addr option \<Rightarrow> addr option \<Rightarrow> string \<Rightarrow> (string, (unit, nat) fsm_event_data_t, nat) sm_transition_t list \<Rightarrow>
    (string, (unit, nat) fsm_event_data_t, nat) sm_state_t" where
  "named_st p e nm ts = \<lparr>st_parentState = p, st_entryState = e, st_transitions = ts, st_data = nm,
     st_entryAction = Some sm_default_entry_action, st_exitAction = Some sm_default_exit_action\<rparr>"

definition sm_example :: "(string, (unit, nat) fsm_event_data_t, nat) sm_store" where
  "sm_example =
     [0 \<mapsto> named_st None (Some 1) ''G'' [named_tr ''C'' 2],
      1 \<mapsto> named_st (Some 0) None ''A'' [named_tr ''B'' 3],
      2 \<mapsto> named_st None None ''C'' [],
      3 \<mapsto> named_st None None ''B'' [named_tr ''A'' 0]]"

definition ask_for :: "string \<Rightarrow> (unit, nat) fsm_event_data_t" where
  "ask_for nm = \<lparr>fd_fev = \<lparr>fe_state_str = nm, fe_entry_event = Some (\<lambda>_ w. (LD_OK, w + 1)), fe_exit_event = Some (\<lambda>_ w. (LD_OK, 10 * w))\<rparr>, fd_args = ()\<rparr>"

abbreviation fsm_at :: "addr \<Rightarrow> sm_statemachine_t" where
  "fsm_at c \<equiv> \<lparr>sm_currentState = Some c, sm_previousState = None, sm_errorState = None\<rparr>"

lemmas sm_example_defs = sm_example_def named_st_def named_tr_def ask_for_def default_guard_def tr_enabled_def

lemma sm_example_rels: "parent_rel sm_example = {(0, 1)}" "entry_rel sm_example = {(1, 0)}"
  by (auto simp: parent_rel_def entry_rel_def sm_example_defs split: if_splits)

lemma sm_example_wf: "sm_wf sm_example"
proof -
  have "closed_state sm_example st" if "sm_example s = Some st" for s st
    using that by (auto simp: closed_state_def sm_example_defs split: if_splits)
  moreover have "wf (parent_rel sm_example)" "wf (entry_rel sm_example)"
    unfolding sm_example_rels by (auto simp: wf_insert)
  ultimately show ?thesis by (simp add: sm_wf_def)
qed

text \<open>
  Property C31: which transition is taken and what it does. The event goes to the nearest ancestor
  of the current state that has an enabled transition, and there to the first enabled one; the
  target is the last state of the chain of entry states that starts at the transition's next
  state. The exit action, the transition action and the entry action run in this order, the first
  and the last only if the state changes. If the entry action refuses, the machine stays where it
  was and the code LD_ERR_NO_STATE_CHANGE is returned, although the actions have been performed.
\<close>

theorem handleEvent_dispatch:
  assumes "sm_currentState fsm = Some c" "m c = Some cst" "st_transitions cst \<noteq> []"
    and "ancestor m k c = Some p" "passes_on m ev k c" "m p = Some pst"
    and "i < numTransitions pst" "st_transitions pst ! i = t" "tr_enabled ev t" "\<forall>j < i. \<not> tr_enabled ev (st_transitions pst ! j)"
    and "tr_nextState t = Some n" "descend m d n = Some l" "is_leaf m l" "m l = Some lst"
    and "w2 = run_action t (st_data cst) ev (st_data lst) (if l = c then w else run_exit cst ev w)"
    and "(r, w3) = (if l = c then (LD_OK, w2) else run_entry lst ev w2)"
  shows "stateM_handleEvent m (Some fsm) (Some ev) w =
     Some (if r \<noteq> LD_OK then (LD_ERR_NO_STATE_CHANGE, Some fsm, w3)
           else (if l = c then LD_ERR_STATE_LOOP else if sm_errorState fsm = Some l then LD_ERR_INVAL_STATE_REACHED
                 else if st_transitions lst = [] then LD_FINAL_STATE_REACHD else LD_OK,
                 Some (fsm\<lparr>sm_previousState := Some c, sm_currentState := Some l\<rparr>), w3))"
proof -
  have "getTransition pst ev = Some t" using assms(7-10) by (auto simp: getTransition_Some_iff)
  then have "search_loop m ev c = Some (Some t)" using search_loop_complete assms(4-6) by blast
  moreover have "enter_loop m n = Some l" using enter_loop_complete assms(12,13) by blast
  ultimately show ?thesis
    using assms(1-3,11,14-16) by (auto simp: stateM_handleEvent_def sm_fire_def Let_def split: prod.splits if_splits)
qed

theorem handleEvent_dispatch_witness:
  "stateM_handleEvent sm_example (Some (fsm_at 3)) (Some \<lparr>ev_type = 7, ev_data = ask_for ''A''\<rparr>) 2 =
   Some (LD_OK, Some \<lparr>sm_currentState = Some 1, sm_previousState = Some 3, sm_errorState = None\<rparr>, 21)"
  using handleEvent_dispatch [of "fsm_at 3" 3 sm_example "named_st None None ''B'' [named_tr ''A'' 0]" 0 3 "\<lparr>ev_type = 7, ev_data = ask_for ''A''\<rparr>"
      "named_st None None ''B'' [named_tr ''A'' 0]" 0 "named_tr ''A'' 0" 0 1 1 "named_st (Some 0) None ''A'' [named_tr ''B'' 3]" 20 2 LD_OK 21]
  by (simp add: sm_example_defs passes_on_def is_leaf_def run_action_def run_exit_def run_entry_def sm_default_exit_action_def sm_default_entry_action_def)

text \<open>
  Property C12: a state machine whose pointers are valid and whose parent and entry chains have no
  cycle never gets stuck. From every state that any sequence of events leads to, handling the next
  event returns, and the current state is NULL or a state of the machine.
\<close>

theorem statemachine_never_stuck:
  assumes "sm_start (m, fsm, w)" "ev_runs sm_event (m, fsm, w) evs (m', fsm', w')"
  shows "pred_option (\<lambda>c. m' c \<noteq> None) (sm_currentState fsm') \<and>
     (\<exists>r fsm'' w''. stateM_handleEvent m' (Some fsm') (Some ev) w' = Some (r, Some fsm'', w''))"
proof -
  have "sm_ok (m', fsm', w')" by (rule sm.reachable_inv [OF assms])
  moreover from handleEvent_ok [OF this, of ev]
  have "\<exists>r fsm'' w''. stateM_handleEvent m' (Some fsm') (Some ev) w' = Some (r, Some fsm'', w'')" by metis
  ultimately show ?thesis by (simp add: sm_ok_def)
qed

theorem statemachine_never_stuck_witness:
  "\<exists>r fsm'' w''. stateM_handleEvent sm_example (Some (fsm_at 1)) (Some \<lparr>ev_type = 7, ev_data = ask_for ''C''\<rparr>) 0 = Some (r, Some fsm'', w'')"
proof -
  have "sm_example 1 \<noteq> None \<and> pred_option (\<lambda>e. sm_example e \<noteq> None) None \<and> stateM_init (Some 1) None (Some (fsm_at 1)) = Some (fsm_at 1)"
    by (simp add: stateM_init_def sm_example_def)
  then have "sm_start (sm_example, fsm_at 1, 0)" unfolding sm_start_def prod.case using sm_example_wf by blast
  from statemachine_never_stuck [OF this ev_runs.runs_Nil] show ?thesis by blast
qed

text \<open>
  The documented limit of the machine. If the state a transition leads to lies on a
  cycle of entry states, handling the event does not return.
\<close>

theorem entry_cycle_never_returns:
  assumes "sm_currentState fsm = Some c" "m c = Some cst" "st_transitions cst \<noteq> []"
    and "getTransition cst ev = Some t" "tr_nextState t = Some n" "descend m k n = Some n" "0 < k"
  shows "stateM_handleEvent m (Some fsm) (Some ev) w = None"
  using assms(1-5) entry_cycle_None [OF assms(6,7)] search_loop.simps [of m ev c]
  by (simp add: stateM_handleEvent_def sm_fire_def)

definition cyclic_example :: "(string, (unit, nat) fsm_event_data_t, nat) sm_store" where
  "cyclic_example = [0 \<mapsto> named_st None (Some 1) ''G'' [], 1 \<mapsto> named_st None (Some 0) ''A'' [named_tr ''G'' 0]]"

theorem entry_cycle_never_returns_witness:
  "stateM_handleEvent cyclic_example (Some (fsm_at 1)) (Some \<lparr>ev_type = 7, ev_data = ask_for ''G''\<rparr>) 0 = None"
  by (rule entry_cycle_never_returns [of _ 1 _ "named_st None (Some 0) ''A'' [named_tr ''G'' 0]" _ "named_tr ''G'' 0" 0 2])
    (simp_all add: cyclic_example_def sm_example_defs getTransition_def first_from.simps numeral_2_eq_2)

definition guarded_by_name :: "(string, ('a, 's) fsm_event_data_t, 's) sm_store \<Rightarrow> bool" where
  "guarded_by_name m \<longleftrightarrow> (\<forall>s st t n l lst. m s = Some st \<longrightarrow> t \<in> set (st_transitions st) \<longrightarrow> tr_nextState t = Some n \<longrightarrow>
     enter_loop m n = Some l \<longrightarrow> m l = Some lst \<longrightarrow> tr_guard t = Some default_guard \<and> tr_condition t = st_data lst)"

text \<open>
  Property C32: \<open>change_state\<close> and \<open>in_state\<close> agree. In a machine that guards every transition with
  \<open>default_guard\<close> on the name of the state it ends in, a successful change of state ends in the
  state whose name was asked for.
\<close>

theorem change_state_reaches_named_state:
  assumes "guarded_by_name m" "change_state m (Some fsm) ty d w = Some (r, Some fsm', w')"
    and "r = LD_OK \<or> r = LD_FINAL_STATE_REACHD \<or> r = LD_ERR_STATE_LOOP"
  shows "in_state m (Some fsm') (fe_state_str (fd_fev d)) = Some True"
proof -
  define ev where "ev = \<lparr>ev_type = ty, ev_data = d\<rparr>"
  obtain c cst t where c: "sm_currentState fsm = Some c" "search_loop m ev c = Some (Some t)" "sm_fire m fsm c ev w t = Some (r, fsm', w')"
    using assms(2,3) by (auto simp: change_state_def stateM_handleEvent_def ev_def [symmetric] split: option.splits bind_splits if_splits)
  obtain p pst where t: "m p = Some pst" "t \<in> set (st_transitions pst)" "tr_enabled ev t"
    using search_loop_sound [OF c(2)] by (metis getTransition_Some_iff nth_mem)
  obtain n l lst where l: "tr_nextState t = Some n" "enter_loop m n = Some l" "m l = Some lst" "sm_currentState fsm' = Some l"
    using c(3) assms(3) by (auto simp: sm_fire_def Let_def split: option.splits bind_splits if_splits prod.splits)
  have "tr_guard t = Some default_guard \<and> tr_condition t = st_data lst"
    using assms(1) t l unfolding guarded_by_name_def by blast
  then show ?thesis using t(3) l by (simp add: in_state_def stateM_currentState_def tr_enabled_def default_guard_def ev_def)
qed

lemma sm_example_guarded: "guarded_by_name sm_example"
  unfolding guarded_by_name_def
  by (auto simp: sm_example_def named_st_def named_tr_def enter_loop.simps split: if_splits)

theorem change_state_reaches_named_state_witness:
  "\<exists>fsm' w'. change_state sm_example (Some (fsm_at 3)) 7 (ask_for ''A'') 2 = Some (LD_OK, Some fsm', w') \<and>
     in_state sm_example (Some fsm') ''A'' = Some True"
proof -
  have "change_state sm_example (Some (fsm_at 3)) 7 (ask_for ''A'') 2 =
     Some (LD_OK, Some \<lparr>sm_currentState = Some 1, sm_previousState = Some 3, sm_errorState = None\<rparr>, 21)"
    by (simp add: change_state_def stateM_handleEvent_def sm_example_defs search_loop.simps getTransition_def first_from.simps sm_fire_def
        enter_loop.simps run_action_def run_exit_def run_entry_def sm_default_exit_action_def sm_default_entry_action_def)
  with change_state_reaches_named_state [OF sm_example_guarded this] show ?thesis by (simp add: ask_for_def)
qed

end
