(* ===== verification/Window.thy ===== *)
theory Window
  imports Buffer
begin

text \<open>
  The selective-repeat window of src/src/ld_window.c. One type serves the sending side (put,
  check_get, ack) and the receiving side (put_ctx, in_get). Positions are \<open>uint8_t\<close> and the item
  offset is too: the model takes every stored position and offset modulo 256. The count of free
  slots is a \<open>size_t\<close> that the code decrements without a test, so it is a 64-bit word.
  Allocations of items succeed.
\<close>

section \<open>Data\<close>

record window_item_t =
  wi_cos :: nat
  wi_offset :: nat
  wi_buf :: "buffer_t option"
  wi_is_ack :: bool
  wi_is_processed :: bool
  wi_all_recv :: bool

record window_ctx_t =
  wc_buf :: buffer_t
  wc_pid :: nat
  wc_cos :: nat
  wc_offset :: nat
  wc_is_rst :: bool
  wc_is_lfr :: bool

record window_t =
  w_items :: "window_item_t list"
  w_seq_sz :: nat
  w_avail_size :: u64
  w_win_size :: nat
  w_to_ack_start :: nat
  w_to_send_start :: nat
  w_to_recv_start :: nat
  w_avail_start :: nat

definition zero_item :: window_item_t where
  "zero_item = \<lparr>wi_cos = 0, wi_offset = 0, wi_buf = None, wi_is_ack = False, wi_is_processed = False, wi_all_recv = False\<rparr>"

text \<open>\<open>n % w->seq_sz\<close>, stored into a \<open>uint8_t\<close>; a division by zero has no value.\<close>

definition wpos :: "window_t \<Rightarrow> nat \<Rightarrow> nat option" where
  "wpos w n = (if w_seq_sz w = 0 then None else Some (n mod w_seq_sz w mod 256))"

definition item_at :: "window_t \<Rightarrow> nat \<Rightarrow> window_item_t option" where
  "item_at w i = (if i < length (w_items w) then Some (w_items w ! i) else None)"

definition set_item :: "window_t \<Rightarrow> nat \<Rightarrow> window_item_t \<Rightarrow> window_t" where
  "set_item w i it = w\<lparr>w_items := (w_items w)[i := it]\<rparr>"


section \<open>Operations\<close>

definition window_end :: "window_t \<Rightarrow> nat option" where
  "window_end w = wpos w (w_to_ack_start w + w_win_size w)"

definition init_window :: "bool \<Rightarrow> bool \<Rightarrow> nat \<Rightarrow> window_t option" where
  "init_window mutex_ok cond_ok seq_size =
     (if mutex_ok \<and> cond_ok then
        Some \<lparr>w_items = replicate seq_size zero_item, w_seq_sz = seq_size, w_avail_size = of_nat seq_size, w_win_size = drop_bit 1 seq_size,
              w_to_ack_start = 0, w_to_send_start = 0, w_to_recv_start = 0, w_avail_start = 0\<rparr>
      else None)"

definition window_destory :: "window_t option \<Rightarrow> l_err" where
  "window_destory w = (case w of None \<Rightarrow> LD_ERR_NULL | Some _ \<Rightarrow> LD_OK)"

text \<open>
  \<open>window_put\<close> waits once when there is no free slot. \<open>wake\<close> is what the other threads do to the
  window until the wait returns, \<open>None\<close> if it never does. The result carries the sequence number.
\<close>

definition window_put :: "(window_t \<Rightarrow> window_t option) \<Rightarrow> window_t \<Rightarrow> nat \<Rightarrow> buffer_t \<Rightarrow> (window_t \<times> nat \<times> l_err) option" where
  "window_put wake w cos buf = do {
     w \<leftarrow> (if w_avail_size w = 0 then wake w else Some w);
     it \<leftarrow> item_at w (w_avail_start w);
     b \<leftarrow> clone_by_buffer True init_buffer_unptr buf;
     nxt \<leftarrow> wpos w (w_avail_start w + 1);
     Some ((set_item w (w_avail_start w) (it\<lparr>wi_cos := cos, wi_buf := Some b, wi_is_ack := False\<rparr>))
             \<lparr>w_avail_start := nxt, w_avail_size := w_avail_size w - 1\<rparr>,
           w_avail_start w, LD_OK) }"

definition in_recv_window :: "window_t \<Rightarrow> nat \<Rightarrow> nat \<Rightarrow> bool" where
  "in_recv_window w win_end pid \<longleftrightarrow>
     (w_to_recv_start w \<le> pid \<and> pid < win_end) \<or>
     (win_end < w_to_recv_start w \<and> (pid < win_end \<or> w_to_recv_start w \<le> pid))"

definition window_put_ctx :: "bool \<Rightarrow> window_t \<Rightarrow> window_ctx_t \<Rightarrow> (window_t \<times> l_err) option" where
  "window_put_ctx ok w ctx = do {
     win_end \<leftarrow> wpos w (w_to_recv_start w + w_win_size w);
     if \<not> in_recv_window w win_end (wc_pid ctx) then Some (w, LD_ERR_INVALID)
     else do {
       it \<leftarrow> item_at w (wc_pid ctx);
       let it = it\<lparr>wi_offset := wc_offset ctx mod 256, wi_cos := wc_cos ctx\<rparr>;
       (it, err) \<leftarrow>
         (if wc_is_rst ctx then do {
            b \<leftarrow> clone_to_chunk True init_buffer_unptr (buf_ptr (wc_buf ctx)) (buf_len (wc_buf ctx));
            Some (it\<lparr>wi_buf := Some b\<rparr>, LD_OK) }
          else (case wi_buf it of
                  None \<Rightarrow> Some (it, LD_ERR_NULL)
                | Some b \<Rightarrow> do {
                    (b, e) \<leftarrow> cat_to_buffer ok b (ptr_bytes (buf_ptr (wc_buf ctx))) (buf_len (wc_buf ctx));
                    Some (it\<lparr>wi_buf := Some b\<rparr>, if e = LD_OK then LD_OK else LD_ERR_INTERNAL) }));
       if err \<noteq> LD_OK then Some (set_item w (wc_pid ctx) it, err)
       else Some ((set_item w (wc_pid ctx) (it\<lparr>wi_all_recv := wc_is_lfr ctx, wi_is_processed := False\<rparr>))
                    \<lparr>w_avail_size := w_avail_size w - 1\<rparr>, LD_OK) } }"

text \<open>The loop that slides the receiving window over the processed items.\<close>

function recv_slide :: "window_t \<Rightarrow> nat \<Rightarrow> window_t option" where
  "recv_slide w to_recv =
     (if to_recv < length (w_items w) then
        if wi_is_processed (w_items w ! to_recv) then
          (case wpos w (to_recv + 1) of
             None \<Rightarrow> None
           | Some p \<Rightarrow> recv_slide ((set_item w to_recv zero_item)\<lparr>w_to_recv_start := p\<rparr>) p)
        else Some w
      else None)"
  by pat_completeness auto

lemma filter_update_less:
  assumes "i < length xs" "P (xs ! i)" "\<not> P y"
  shows "length (filter P (xs[i := y])) < length (filter P xs)"
proof -
  have "xs = take i xs @ xs ! i # drop (Suc i) xs" using assms(1) by (simp add: id_take_nth_drop)
  then have "filter P xs = filter P (take i xs) @ xs ! i # filter P (drop (Suc i) xs)"
    using assms(2) by (metis filter.simps(2) filter_append)
  moreover have "filter P (xs[i := y]) = filter P (take i xs) @ filter P (drop (Suc i) xs)"
    using assms by (simp add: upd_conv_take_nth_drop)
  ultimately show ?thesis by simp
qed

termination recv_slide
  by (relation "measure (\<lambda>(w, _). length (filter wi_is_processed (w_items w)))")
    (auto simp: set_item_def zero_item_def intro!: filter_update_less)

definition window_in_get :: "window_t \<Rightarrow> (window_t \<times> buffer_t option) option" where
  "window_in_get w = do {
     let slot = (\<lambda>i. (w_to_recv_start w + i) mod w_seq_sz w);
     (w, buf) \<leftarrow>
       (case first_from (\<lambda>i. wi_all_recv (w_items w ! slot i) \<and> \<not> wi_is_processed (w_items w ! slot i)) 0 (w_win_size w) of
          None \<Rightarrow> Some (w, None)
        | Some i \<Rightarrow> do {
            it \<leftarrow> item_at w (slot i);
            ib \<leftarrow> wi_buf it;
            b \<leftarrow> clone_by_buffer True init_buffer_unptr ib;
            Some ((set_item w (slot i) (it\<lparr>wi_is_processed := True\<rparr>))\<lparr>w_avail_size := w_avail_size w + 1\<rparr>, Some b) });
     w \<leftarrow> recv_slide w (w_to_recv_start w);
     Some (w, buf) }"

definition window_out_get :: "window_t \<Rightarrow> (window_t \<times> window_item_t option) option" where
  "window_out_get w =
     (if w_avail_size w = of_nat (w_seq_sz w) then Some (w, None)
      else if w_seq_sz w = 0 then None
      else do {
        let i = w_to_send_start w mod w_seq_sz w;
        it \<leftarrow> item_at w i;
        b \<leftarrow> wi_buf it;
        let it = it\<lparr>wi_offset := buf_len b mod 256\<rparr>;
        c \<leftarrow> clone_by_buffer True init_buffer_unptr b;
        nxt \<leftarrow> wpos w (w_to_send_start w + 1);
        Some ((set_item w i it)\<lparr>w_to_send_start := nxt, w_avail_size := w_avail_size w + 1\<rparr>, Some (it\<lparr>wi_buf := Some c\<rparr>)) })"

definition window_out_get_frag :: "window_t \<Rightarrow> nat \<Rightarrow> (window_t \<times> window_item_t option) option" where
  "window_out_get_frag w sz =
     (if w_avail_size w = of_nat (w_seq_sz w) then Some (w, None)
      else if w_seq_sz w = 0 then None
      else do {
        let i = w_to_send_start w mod w_seq_sz w;
        it \<leftarrow> item_at w i;
        b \<leftarrow> wi_buf it;
        c \<leftarrow> clone_to_chunk True (init_buffer_ptr True sz) (map_option (drop (wi_offset it)) (buf_ptr b)) sz;
        let off = (wi_offset it + sz) mod 256;
        Some (set_item w i (it\<lparr>wi_offset := off\<rparr>), Some (zero_item\<lparr>wi_cos := wi_cos it, wi_buf := Some c, wi_offset := off\<rparr>)) })"

text \<open>
  \<open>window_check_get\<close>: \<open>avail_buf_sz\<close> is an \<open>int64_t\<close> that the comparison converts to unsigned.
\<close>

definition window_check_get :: "window_t \<Rightarrow> int \<Rightarrow> (window_t \<times> window_ctx_t option \<times> int) option" where
  "window_check_get w avail_buf_sz =
     (if w_seq_sz w = 0 then None
      else do {
        p_item \<leftarrow> item_at w (w_to_send_start w mod w_seq_sz w);
        (case wi_buf p_item of
           None \<Rightarrow> Some (w, None, avail_buf_sz)
         | Some pb \<Rightarrow> do {
             let fits = ((of_nat (buf_len pb) :: u64) \<le> of_int avail_buf_sz);
             (w', item) \<leftarrow> (if fits then window_out_get w else window_out_get_frag w (unat (of_int avail_buf_sz :: u64)));
             (case item of
                None \<Rightarrow> Some (w', None, avail_buf_sz)
              | Some it \<Rightarrow> do {
                  ib \<leftarrow> wi_buf it;
                  c \<leftarrow> clone_by_buffer True init_buffer_unptr ib;
                  Some (w', Some \<lparr>wc_buf = c, wc_pid = w_to_send_start w, wc_cos = wi_cos it, wc_offset = wi_offset it,
                                  wc_is_rst = (wi_offset p_item = 0), wc_is_lfr = fits\<rparr>,
                        if fits then avail_buf_sz - int (buf_len ib) else avail_buf_sz) }) }) })"

function window_slide :: "window_t \<Rightarrow> window_t option" where
  "window_slide w =
     (if w_to_ack_start w < w_to_send_start w \<or>
         (w_to_send_start w < w_to_ack_start w \<and> w_to_ack_start w > w_to_send_start w + w_win_size w) then
        if w_to_ack_start w < length (w_items w) then
          if wi_is_ack (w_items w ! w_to_ack_start w) then
            (case wpos w (w_to_ack_start w + 1) of
               None \<Rightarrow> None
             | Some p \<Rightarrow> window_slide ((set_item w (w_to_ack_start w) zero_item)\<lparr>w_to_ack_start := p\<rparr>))
          else Some w
        else None
      else Some w)"
  by pat_completeness auto
termination window_slide
  by (relation "measure (\<lambda>w. length (filter wi_is_ack (w_items w)))")
    (auto simp: set_item_def zero_item_def intro!: filter_update_less)

declare recv_slide.simps [simp del] window_slide.simps [simp del]

definition window_ack_item :: "window_t \<Rightarrow> nat \<Rightarrow> (window_t \<times> l_err) option" where
  "window_ack_item w PID =
     (if (w_to_ack_start w \<le> PID \<and> PID < w_to_send_start w) \<or>
         (w_to_send_start w < w_to_ack_start w \<and> (w_to_ack_start w \<le> PID \<or> PID < w_to_send_start w)) then do {
        it \<leftarrow> item_at w PID;
        w \<leftarrow> window_slide (set_item w PID (it\<lparr>wi_is_ack := True\<rparr>));
        Some (w, LD_OK) }
      else Some (w, LD_ERR_INVALID))"

definition window_set_send_start :: "window_t option \<Rightarrow> nat \<Rightarrow> window_t option \<times> l_err" where
  "window_set_send_start w pos =
     (case w of
        None \<Rightarrow> (None, LD_ERR_NULL)
      | Some w \<Rightarrow> (Some (w\<lparr>w_to_send_start := pos, w_avail_start := pos, w_to_ack_start := pos\<rparr>), LD_OK))"


section \<open>Slots of a window\<close>

text \<open>
  \<open>slots S p its\<close> is the item array in which the items \<open>its\<close> occupy the positions from \<open>p\<close> on,
  cyclically, and all others are empty.
\<close>

definition slots :: "nat \<Rightarrow> nat \<Rightarrow> window_item_t list \<Rightarrow> window_item_t list" where
  "slots S p its = map (\<lambda>j. let d = (j + S - p) mod S in if d < length its then its ! d else zero_item) [0..<S]"

lemma length_slots [simp]: "length (slots S p its) = S"
  by (simp add: slots_def)

lemma slot_pos:
  assumes "p < S" "j < S"
  shows "(p + (j + S - p) mod S) mod S = (j :: nat)"
proof (cases "p \<le> j")
  case True
  then have "(j + S - p) mod S = j - p" using assms by (simp add: mod_if)
  then show ?thesis using True assms by simp
next
  case False
  then have "(j + S - p) mod S = j + S - p" using assms by simp
  then show ?thesis using False assms by simp
qed

lemma slots_nth: "p < S \<Longrightarrow> i < S \<Longrightarrow> slots S p its ! ((p + i) mod S) = (if i < length its then its ! i else zero_item)"
  by (simp add: slots_def slot_dist Let_def)

lemma slots_eqI:
  assumes "p < S" "length xs = S" "\<And>i. i < S \<Longrightarrow> xs ! ((p + i) mod S) = (if i < length its then its ! i else zero_item)"
  shows "xs = slots S p its"
proof (rule nth_equalityI)
  fix j assume "j < length xs"
  then show "xs ! j = slots S p its ! j"
    using assms(3) [of "(j + S - p) mod S"] slots_nth [OF assms(1), of "(j + S - p) mod S" its] assms(1,2) by (simp add: slot_pos)
qed (simp add: assms(2))

lemma slots_update:
  assumes "p < S" "i < length its" "length its \<le> S"
  shows "(slots S p its)[(p + i) mod S := x] = slots S p (its[i := x])"
proof (rule slots_eqI [OF assms(1)])
  fix j assume j: "j < S"
  have "(p + i) mod S = (p + j) mod S \<longleftrightarrow> i = j" using slot_inj [OF assms(1) _ j] assms(2,3) by auto
  then show "(slots S p its)[(p + i) mod S := x] ! ((p + j) mod S) = (if j < length (its[i := x]) then its[i := x] ! j else zero_item)"
    using j assms by (simp add: nth_list_update slots_nth)
qed simp

lemma slots_append_zero: "slots S p (its @ [zero_item]) = slots S p its"
  by (auto simp: slots_def Let_def nth_append less_Suc_eq)

lemma slots_append:
  assumes "p < S" "length its < S"
  shows "(slots S p its)[(p + length its) mod S := x] = slots S p (its @ [x])"
  using slots_update [OF assms(1), of "length its" "its @ [zero_item]" x] assms by (simp add: slots_append_zero)

lemma slots_Cons_zero:
  assumes "p < S" "length its < S"
  shows "slots S p (zero_item # its) = slots S (Suc p mod S) its"
proof (rule slots_eqI)
  fix i assume i: "i < S"
  have e: "(Suc p mod S + i) mod S = (p + Suc i) mod S" by (simp add: mod_add_left_eq)
  show "slots S p (zero_item # its) ! ((Suc p mod S + i) mod S) = (if i < length its then its ! i else zero_item)"
  proof (cases "Suc i < S")
    case True
    then show ?thesis unfolding e using slots_nth [OF assms(1), of "Suc i" "zero_item # its"] by simp
  next
    case False
    then have "(p + Suc i) mod S = (p + 0) mod S" using i by (metis Suc_lessI add.right_neutral mod_add_self2)
    then show ?thesis unfolding e using slots_nth [OF assms(1), of 0 "zero_item # its"] assms False i by simp
  qed
qed (use assms in simp_all)

lemma slots_Nil: "slots S p [] = replicate S zero_item"
  by (simp add: slots_def map_replicate_const)

lemma slots_replicate_zero: "slots S p (replicate n zero_item) = replicate S zero_item"
  by (simp add: slots_def map_replicate_const Let_def if_distrib cong: if_cong)


section \<open>A batch of messages\<close>

definition copy_of :: "buffer_t \<Rightarrow> buffer_t" where
  "copy_of b = \<lparr>buf_len = buf_len b, buf_total = buf_len b, buf_free = 0, buf_ptr = Some (buf_bytes b @ [0])\<rparr>"

lemma clone_copy: "buf_wf b \<Longrightarrow> clone_by_buffer True ch b = Some (copy_of b)"
proof (cases "buf_ptr b")
  case None
  then show "buf_wf b \<Longrightarrow> clone_by_buffer True ch b = Some (copy_of b)"
    by (cases ch) (simp add: clone_by_buffer_def clone_to_chunk_def clone_to_buffer_def buf_wf_def copy_of_def buf_bytes_def buffer_clear_def)
qed (simp add: clone_by_buffer_wf copy_of_def)

lemma copy_of_wf [simp]: "buf_wf b \<Longrightarrow> buf_wf (copy_of b)"
  using length_buf_bytes [of b] by (simp add: copy_of_def buf_wf_def)

lemma buf_bytes_copy [simp]: "buf_wf b \<Longrightarrow> buf_bytes (copy_of b) = buf_bytes b"
  using length_buf_bytes [of b] by (simp add: copy_of_def buf_bytes_def [of "\<lparr>buf_len = _, buf_total = _, buf_free = _, buf_ptr = _\<rparr>"])

lemma copy_of_len [simp]: "buf_len (copy_of b) = buf_len b"
  by (simp add: copy_of_def)

lemma copy_of_copy [simp]: "buf_wf b \<Longrightarrow> copy_of (copy_of b) = copy_of b"
  using buf_bytes_copy [of b] unfolding copy_of_def by simp

text \<open>The states of a sending and a receiving window during a batch that starts at position \<open>p\<close>.\<close>

definition idle_window :: "nat \<Rightarrow> nat \<Rightarrow> nat \<Rightarrow> window_t" where
  "idle_window S a r = \<lparr>w_items = replicate S zero_item, w_seq_sz = S, w_avail_size = of_nat S, w_win_size = S div 2,
     w_to_ack_start = a, w_to_send_start = a, w_to_recv_start = r, w_avail_start = a\<rparr>"

definition sending :: "nat \<Rightarrow> nat \<Rightarrow> nat \<Rightarrow> window_item_t list \<Rightarrow> nat \<Rightarrow> window_t" where
  "sending S p r its j = \<lparr>w_items = slots S p its, w_seq_sz = S, w_avail_size = of_nat (S + j - length its), w_win_size = S div 2,
     w_to_ack_start = p, w_to_send_start = (p + j) mod S, w_to_recv_start = r, w_avail_start = (p + length its) mod S\<rparr>"

definition receiving :: "nat \<Rightarrow> nat \<Rightarrow> nat \<Rightarrow> window_item_t list \<Rightarrow> nat \<Rightarrow> window_t" where
  "receiving S a p its n = \<lparr>w_items = slots S p its, w_seq_sz = S, w_avail_size = of_nat (S - n), w_win_size = S div 2,
     w_to_ack_start = a, w_to_send_start = a, w_to_recv_start = p, w_avail_start = a\<rparr>"

lemma init_window_idle: "init_window True True S = Some (idle_window S 0 0)"
  by (simp add: init_window_def idle_window_def drop_bit_Suc)

lemma sending_Nil: "p < S \<Longrightarrow> sending S p r [] 0 = idle_window S p r"
  by (simp add: sending_def idle_window_def slots_Nil)

lemma receiving_zero: "receiving S a p (replicate k zero_item) 0 = idle_window S a p"
  by (simp add: receiving_def idle_window_def slots_replicate_zero)

definition put_item :: "nat \<times> buffer_t \<Rightarrow> window_item_t" where
  "put_item m = zero_item\<lparr>wi_cos := fst m, wi_buf := Some (copy_of (snd m))\<rparr>"

definition sent_item :: "nat \<times> buffer_t \<Rightarrow> window_item_t" where
  "sent_item m = (put_item m)\<lparr>wi_offset := buf_len (snd m) mod 256\<rparr>"

definition sent_ctx :: "nat \<Rightarrow> nat \<Rightarrow> nat \<times> buffer_t \<Rightarrow> window_ctx_t" where
  "sent_ctx S q m = \<lparr>wc_buf = copy_of (snd m), wc_pid = q mod S, wc_cos = fst m, wc_offset = buf_len (snd m) mod 256, wc_is_rst = True, wc_is_lfr = True\<rparr>"

lemma of_nat_u64_neq: "m < n \<Longrightarrow> n < 2 ^ 64 \<Longrightarrow> (of_nat m :: u64) \<noteq> of_nat n"
  using unat_of_nat_small [where 'a = 64, of m] unat_of_nat_small [where 'a = 64, of n] by auto

lemma put_step:
  assumes "p < S" "S \<le> 256" "length its < S" "buf_wf (snd m)"
  shows "window_put wake (sending S p r its 0) (fst m) (snd m) =
     Some (sending S p r (its @ [put_item m]) 0, (p + length its) mod S, LD_OK)"
proof -
  have "(of_nat (S - length its) :: u64) \<noteq> 0" using of_nat_u64_neq [of 0 "S - length its"] assms by simp
  moreover have "(of_nat (S - length its) :: u64) - 1 = of_nat (S - Suc (length its))" using assms(3) by (simp add: of_nat_diff)
  moreover have "slots S p its ! ((p + length its) mod S) = zero_item" using slots_nth [OF assms(1,3)] by simp
  ultimately show ?thesis
    using assms slots_append [OF assms(1,3)] less_le_trans [OF mod_less_divisor [of S "Suc (p + length its)"] assms(2)]
    by (simp add: window_put_def sending_def item_at_def set_item_def wpos_def clone_copy put_item_def zero_item_def mod_Suc_eq)
qed

lemma get_step:
  assumes "p < S" "S \<le> 256" "length its \<le> S" "j < length its" "its ! j = put_item m" "buf_wf (snd m)"
    and "int (buf_len (snd m)) \<le> avail" "avail < 2 ^ 63"
  shows "window_check_get (sending S p r its j) avail =
     Some (sending S p r (its[j := sent_item m]) (Suc j), Some (sent_ctx S (p + j) m), avail - int (buf_len (snd m)))"
proof -
  have nz: "(of_nat (S + j - length its) :: u64) \<noteq> of_nat S" using of_nat_u64_neq [of "S + j - length its" S] assms by auto
  have fits: "(of_nat (buf_len (snd m)) :: u64) \<le> of_int avail"
  proof -
    have "unat (of_int avail :: u64) = nat avail" using unat_of_nat_small [where 'a = 64, of "nat avail"] assms(7,8) by simp
    moreover have "unat (of_nat (buf_len (snd m)) :: u64) = buf_len (snd m)" using assms(7,8) by (intro unat_of_nat_small) simp
    ultimately show ?thesis using assms(7) by (simp add: word_le_nat_alt)
  qed
  have it: "slots S p its ! ((p + j) mod S) = put_item m" using slots_nth [OF assms(1), of j its] assms(3-5) by simp
  have av: "(of_nat (S + j - length its) :: u64) + 1 = of_nat (S + Suc j - length its)" using assms(3) by (simp add: of_nat_diff)
  show ?thesis
    using assms nz fits it av slots_update [OF assms(1,4,3)] less_le_trans [OF mod_less_divisor [of S "Suc (p + j)"] assms(2)]
    by (simp add: window_check_get_def window_out_get_def sending_def item_at_def set_item_def wpos_def put_item_def sent_item_def sent_ctx_def
        clone_copy zero_item_def mod_Suc_eq Let_def)
qed

definition arr_item :: "nat \<times> buffer_t \<Rightarrow> window_item_t" where
  "arr_item m = \<lparr>wi_cos = fst m, wi_offset = buf_len (snd m) mod 256, wi_buf = Some (copy_of (snd m)), wi_is_ack = False,
     wi_is_processed = False, wi_all_recv = True\<rparr>"

lemma in_recv_windowI:
  assumes "p < S" "i < S div 2" "w_to_recv_start w = p"
  shows "in_recv_window w ((p + S div 2) mod S) ((p + i) mod S)"
proof (cases "p + S div 2 < S")
  case True
  then show ?thesis using assms by (simp add: in_recv_window_def)
next
  case False
  have "p + S div 2 < 2 * S" using assms(1) by linarith
  then have e: "(p + S div 2) mod S = p + S div 2 - S" using False by (simp add: mod_if)
  have "p + S div 2 - S < p" "p + S div 2 - S = p - (S - S div 2)" using assms(1,2) False by linarith+
  show ?thesis
  proof (cases "p + i < S")
    case True
    then show ?thesis using assms(3) \<open>p + S div 2 - S < p\<close> by (simp add: in_recv_window_def e)
  next
    case wrap: False
    have "p + i < 2 * S" using assms(1,2) by linarith
    then have "(p + i) mod S = p + i - S" using wrap by (simp add: mod_if)
    moreover have "p + i - S < p + S div 2 - S" using assms(2) wrap by linarith
    ultimately show ?thesis using assms(3) \<open>p + S div 2 - S < p\<close> by (simp add: in_recv_window_def e)
  qed
qed

lemma mod_less_256: "0 < S \<Longrightarrow> S \<le> 256 \<Longrightarrow> x mod S < (256::nat)"
  by (meson mod_less_divisor less_le_trans)

lemma arrive_step:
  assumes "p < S" "S \<le> 256" "length its \<le> S div 2" "i < length its" "n < S" "its ! i = zero_item" "buf_wf (snd m)"
  shows "window_put_ctx ok (receiving S a p its n) (sent_ctx S (p + i) m) = Some (receiving S a p (its[i := arr_item m]) (Suc n), LD_OK)"
proof -
  have le: "length its \<le> S" "i < S" using assms(3,4) by auto
  have "(p + S div 2) mod S mod 256 = (p + S div 2) mod S" using assms(1,2) by (intro mod_less mod_less_256) auto
  moreover have "slots S p its ! ((p + i) mod S) = zero_item" using slots_nth [OF assms(1) le(2), of its] assms(4,6) by simp
  moreover have "(of_nat (S - n) :: u64) - 1 = of_nat (S - Suc n)" using assms(5) by (simp add: of_nat_diff)
  moreover have "clone_to_chunk True init_buffer_unptr (buf_ptr (copy_of (snd m))) (buf_len (snd m)) = Some (copy_of (snd m))"
    using clone_copy [of "copy_of (snd m)" init_buffer_unptr] assms(7) by (simp add: clone_by_buffer_def)
  ultimately show ?thesis
    using assms(1-6) slots_update [OF assms(1,4) le(1)] in_recv_windowI [OF assms(1), of i "receiving S a p its n"]
    by (simp add: window_put_ctx_def receiving_def sent_ctx_def wpos_def item_at_def set_item_def arr_item_def zero_item_def)
qed

lemma in_get_step:
  assumes "p < S" "S \<le> 256" "Suc (length its) \<le> S div 2" "n < S" "buf_wf ib" "\<forall>it \<in> set its. \<not> wi_is_processed it"
    and it: "wi_all_recv it" "\<not> wi_is_processed it" "wi_buf it = Some ib"
  shows "window_in_get (receiving S a p (it # its) (Suc n)) = Some (receiving S a (Suc p mod S) its n, Some (copy_of ib))"
proof -
  define its1 where "its1 = it\<lparr>wi_is_processed := True\<rparr> # its"
  have S: "1 < S" "length its < S" using assms(1,3) by linarith+
  have at0: "slots S p (it # its) ! p = it" "slots S p its1 ! p = it\<lparr>wi_is_processed := True\<rparr>"
    using slots_nth [of p S 0 "it # its"] slots_nth [of p S 0 its1] assms(1) S(1) by (simp_all add: its1_def)
  have upd: "(slots S p (it # its))[p := x] = slots S p (x # its)" "(slots S p its1)[p := x] = slots S p (x # its)" for x
    using slots_update [of p S 0 "it # its" x] slots_update [of p S 0 its1 x] assms(1) S(2) by (simp_all add: its1_def)
  have p1: "Suc p mod S < S" "Suc p mod S < 256" using S(1) assms(2) by (simp_all add: mod_less_256)
  have av: "(of_nat (S - Suc n) :: u64) + 1 = of_nat (S - n)" using assms(4) by (simp add: of_nat_diff)
  have nxt: "\<not> wi_is_processed (slots S (Suc p mod S) its ! (Suc p mod S))"
    using slots_nth [of "Suc p mod S" S 0 its] p1(1) assms(6) S by (cases its) (auto simp: zero_item_def)
  have "first_from (\<lambda>i. wi_all_recv (slots S p (it # its) ! ((p + i) mod S)) \<and> \<not> wi_is_processed (slots S p (it # its) ! ((p + i) mod S)))
     0 (S div 2) = Some 0"
    using S(1) at0(1) assms(1) it(1,2) by (subst first_from.simps) auto
  then show ?thesis
    using assms(1,5) S p1 at0 upd av nxt slots_Cons_zero [OF assms(1) S(2)]
    by (simp add: window_in_get_def receiving_def item_at_def set_item_def it clone_copy its1_def recv_slide.simps wpos_def Let_def)
qed

lemma window_slide_stop:
  "w_to_ack_start w < length (w_items w) \<Longrightarrow> \<not> wi_is_ack (w_items w ! w_to_ack_start w) \<Longrightarrow> window_slide w = Some w"
  by (simp add: window_slide.simps [of w])

lemma window_slide_step:
  assumes "w_to_ack_start w < w_to_send_start w \<or> (w_to_send_start w < w_to_ack_start w \<and> w_to_ack_start w > w_to_send_start w + w_win_size w)"
    and "w_to_ack_start w < length (w_items w)" "wi_is_ack (w_items w ! w_to_ack_start w)" "wpos w (w_to_ack_start w + 1) = Some q"
  shows "window_slide w = window_slide ((set_item w (w_to_ack_start w) zero_item)\<lparr>w_to_ack_start := q\<rparr>)"
  using assms by (simp add: window_slide.simps [of w])

lemma ack_step:
  assumes "p < S" "S \<le> 256" "Suc (length its) < S - S div 2" "\<forall>it \<in> set its. \<not> wi_is_ack it"
  shows "window_ack_item (sending S p r (sent_item m # its) (Suc (length its))) p = Some (sending S (Suc p mod S) r its (length its), LD_OK)"
proof -
  define its1 where "its1 = (sent_item m)\<lparr>wi_is_ack := True\<rparr> # its"
  have S: "1 < S" "length its < S" using assms(1,3) by linarith+
  have at0: "slots S p (sent_item m # its) ! p = sent_item m" "slots S p its1 ! p = (sent_item m)\<lparr>wi_is_ack := True\<rparr>"
    using slots_nth [of p S 0 "sent_item m # its"] slots_nth [of p S 0 its1] assms(1) S(1) by (simp_all add: its1_def)
  have upd: "(slots S p (sent_item m # its))[p := x] = slots S p (x # its)" "(slots S p its1)[p := x] = slots S p (x # its)" for x
    using slots_update [of p S 0 "sent_item m # its" x] slots_update [of p S 0 its1 x] assms(1) S(2) by (simp_all add: its1_def)
  have p1: "Suc p mod S < S" "Suc p mod S < 256" using S(1) assms(2) by (simp_all add: mod_less_256)
  have nxt: "\<not> wi_is_ack (slots S (Suc p mod S) its ! (Suc p mod S))"
    using slots_nth [of "Suc p mod S" S 0 its] p1(1) assms(4) S by (cases its) (auto simp: zero_item_def)
  define q where "q = (p + Suc (length its)) mod S"
  have cond: "p < q \<or> (q < p \<and> p > q + S div 2)"
  proof (cases "p + Suc (length its) < S")
    case False
    have "p + Suc (length its) < 2 * S" using assms(1,3) by linarith
    then have "q = p + Suc (length its) - S" using False by (simp add: q_def mod_if)
    then show ?thesis using assms(3) False by linarith
  qed (simp add: q_def)
  have q': "(Suc p mod S + length its) mod S = q" by (simp add: q_def mod_add_left_eq)
  define w1 where "w1 = sending S p r its1 (Suc (length its))"
  define w2 where "w2 = sending S (Suc p mod S) r its (length its)"
  have "(set_item w1 p zero_item)\<lparr>w_to_ack_start := Suc p mod S\<rparr> = w2"
    using upd(2) slots_Cons_zero [OF assms(1) S(2)] q' by (simp add: w1_def w2_def sending_def set_item_def its1_def q_def)
  moreover have "window_slide w1 = window_slide ((set_item w1 p zero_item)\<lparr>w_to_ack_start := Suc p mod S\<rparr>)"
    using window_slide_step [of w1 "Suc p mod S"] cond at0(2) p1 S(1) assms(1) by (simp add: w1_def sending_def wpos_def q_def)
  moreover have "window_slide w2 = Some w2"
    by (rule window_slide_stop) (use p1 nxt in \<open>simp_all add: w2_def sending_def\<close>)
  ultimately have "window_slide w1 = Some w2" by simp
  moreover have "set_item (sending S p r (sent_item m # its) (Suc (length its))) p ((sent_item m)\<lparr>wi_is_ack := True\<rparr>) = w1"
    using upd(1) by (simp add: w1_def sending_def set_item_def its1_def)
  moreover have "item_at (sending S p r (sent_item m # its) (Suc (length its))) p = Some (sent_item m)"
    using at0(1) assms(1) by (simp add: sending_def item_at_def)
  moreover have "w_to_ack_start (sending S p r (sent_item m # its) (Suc (length its))) = p"
    "w_to_send_start (sending S p r (sent_item m # its) (Suc (length its))) = q" by (simp_all add: sending_def q_def)
  ultimately show ?thesis using cond by (auto simp: window_ack_item_def w2_def)
qed

text \<open>The operations applied to every message of a batch.\<close>

fun window_puts :: "window_t \<Rightarrow> (nat \<times> buffer_t) list \<Rightarrow> window_t option" where
  "window_puts w [] = Some w"
| "window_puts w (m # ms) = do { (w, _, _) \<leftarrow> window_put (\<lambda>_. None) w (fst m) (snd m); window_puts w ms }"

fun window_gets :: "int \<Rightarrow> nat \<Rightarrow> window_t \<Rightarrow> (window_t \<times> window_ctx_t list) option" where
  "window_gets avail 0 w = Some (w, [])"
| "window_gets avail (Suc n) w = do {
     (w, c, _) \<leftarrow> window_check_get w avail;
     c \<leftarrow> c;
     (w, cs) \<leftarrow> window_gets avail n w;
     Some (w, c # cs) }"

fun window_arrivals :: "window_t \<Rightarrow> window_ctx_t list \<Rightarrow> window_t option" where
  "window_arrivals w [] = Some w"
| "window_arrivals w (c # cs) = do { (w, e) \<leftarrow> window_put_ctx True w c; if e = LD_OK then window_arrivals w cs else None }"

fun window_in_gets :: "nat \<Rightarrow> window_t \<Rightarrow> (window_t \<times> buffer_t list) option" where
  "window_in_gets 0 w = Some (w, [])"
| "window_in_gets (Suc n) w = do {
     (w, b) \<leftarrow> window_in_get w;
     b \<leftarrow> b;
     (w, bs) \<leftarrow> window_in_gets n w;
     Some (w, b # bs) }"

fun window_acks :: "window_t \<Rightarrow> nat list \<Rightarrow> window_t option" where
  "window_acks w [] = Some w"
| "window_acks w (q # qs) = do { (w, e) \<leftarrow> window_ack_item w q; if e = LD_OK then window_acks w qs else None }"

lemma puts_all:
  assumes "p < S" "S \<le> 256"
  shows "length its + length ms \<le> S \<Longrightarrow> \<forall>m \<in> set ms. buf_wf (snd m) \<Longrightarrow>
    window_puts (sending S p r its 0) ms = Some (sending S p r (its @ map put_item ms) 0)"
  by (induction ms arbitrary: its) (simp_all add: put_step [OF assms])

lemma gets_all:
  assumes "p < S" "S \<le> 256" "avail < 2 ^ 63"
  shows "length ms1 + length ms2 \<le> S \<Longrightarrow> \<forall>m \<in> set ms2. buf_wf (snd m) \<and> int (buf_len (snd m)) \<le> avail \<Longrightarrow>
    window_gets avail (length ms2) (sending S p r (map sent_item ms1 @ map put_item ms2) (length ms1)) =
      Some (sending S p r (map sent_item (ms1 @ ms2)) (length (ms1 @ ms2)),
            map (\<lambda>(i, m). sent_ctx S (p + i) m) (enumerate (length ms1) ms2))"
proof (induction ms2 arbitrary: ms1)
  case (Cons m ms2)
  have "window_check_get (sending S p r (map sent_item ms1 @ map put_item (m # ms2)) (length ms1)) avail =
      Some (sending S p r (map sent_item (ms1 @ [m]) @ map put_item ms2) (Suc (length ms1)), Some (sent_ctx S (p + length ms1) m), avail - int (buf_len (snd m)))"
    using Cons.prems get_step [OF assms(1,2), of "map sent_item ms1 @ map put_item (m # ms2)" "length ms1" m] assms(3)
    by (simp add: nth_append list_update_append)
  then show ?case using Cons.IH [of "ms1 @ [m]"] Cons.prems by simp
qed simp

lemma arrivals_all:
  assumes "p < S" "S \<le> 256" "\<forall>m \<in> set ms. buf_wf (snd m)" "length ms \<le> S div 2"
  shows "distinct is \<Longrightarrow> length its = length ms \<Longrightarrow> \<forall>i \<in> set is. i < length ms \<and> its ! i = zero_item \<Longrightarrow> n + length is \<le> S \<Longrightarrow>
    window_arrivals (receiving S a p its n) (map (\<lambda>i. sent_ctx S (p + i) (ms ! i)) is) =
      Some (receiving S a p (fold (\<lambda>i its. its[i := arr_item (ms ! i)]) is its) (n + length is))"
proof (induction "is" arbitrary: its n)
  case (Cons i "is")
  have "window_put_ctx True (receiving S a p its n) (sent_ctx S (p + i) (ms ! i)) = Some (receiving S a p (its[i := arr_item (ms ! i)]) (Suc n), LD_OK)"
    using Cons.prems assms by (intro arrive_step) auto
  moreover have "\<forall>j \<in> set is. j < length ms \<and> its[i := arr_item (ms ! i)] ! j = zero_item"
    using Cons.prems by (auto simp: nth_list_update)
  ultimately show ?case using Cons.IH [of "its[i := arr_item (ms ! i)]" "Suc n"] Cons.prems by simp
qed simp

lemma fold_updates:
  "length (fold (\<lambda>i xs. xs[i := g i]) is xs) = length xs"
  "j < length xs \<Longrightarrow> fold (\<lambda>i xs. xs[i := g i]) is xs ! j = (if j \<in> set is then g j else xs ! j)"
  by (induction "is" arbitrary: xs) (auto simp: nth_list_update)

lemma fold_all: "set is = {..<length ms} \<Longrightarrow> fold (\<lambda>i xs. xs[i := arr_item (ms ! i)]) is (replicate (length ms) zero_item) = map arr_item ms"
  by (rule nth_equalityI) (simp_all add: fold_updates)

lemma in_gets_all:
  assumes "S \<le> 256"
  shows "p < S \<Longrightarrow> length ms \<le> S div 2 \<Longrightarrow> \<forall>m \<in> set ms. buf_wf (snd m) \<Longrightarrow>
    window_in_gets (length ms) (receiving S a p (map arr_item ms) (length ms)) =
      Some (receiving S a ((p + length ms) mod S) [] 0, map (\<lambda>m. copy_of (snd m)) ms)"
proof (induction ms arbitrary: p)
  case (Cons m ms)
  have "Suc (length ms) \<le> S div 2" using Cons.prems(2) by simp
  then have "length ms < S" "0 < S" by linarith+
  then have "window_in_get (receiving S a p (arr_item m # map arr_item ms) (Suc (length ms))) = Some (receiving S a (Suc p mod S) (map arr_item ms) (length ms), Some (copy_of (snd m)))"
    using Cons.prems assms in_get_step [OF Cons.prems(1) assms, of "map arr_item ms" "length ms" "copy_of (snd m)" "arr_item m" a] by (auto simp: arr_item_def)
  then show ?case using Cons.IH [of "Suc p mod S"] Cons.prems \<open>0 < S\<close> by (simp add: mod_add_left_eq)
qed simp

lemma acks_all:
  assumes "S \<le> 256"
  shows "p < S \<Longrightarrow> length ms < S - S div 2 \<Longrightarrow>
    window_acks (sending S p r (map sent_item ms) (length ms)) (map (\<lambda>i. (p + i) mod S) [0..<length ms]) = Some (sending S ((p + length ms) mod S) r [] 0)"
proof (induction ms arbitrary: p)
  case (Cons m ms)
  have "window_ack_item (sending S p r (sent_item m # map sent_item ms) (Suc (length ms))) p = Some (sending S (Suc p mod S) r (map sent_item ms) (length ms), LD_OK)"
    using ack_step [OF Cons.prems(1) assms, of "map sent_item ms" r m] Cons.prems(2) by (simp add: sent_item_def put_item_def zero_item_def)
  moreover have "map (\<lambda>i. (p + i) mod S) [0..<length (m # ms)] = p # map (\<lambda>i. (Suc p mod S + i) mod S) [0..<length ms]"
    using Cons.prems(1) by (simp add: upt_conv_Cons map_Suc_upt [symmetric] mod_add_left_eq del: upt_Suc)
  ultimately show ?case using Cons.IH [of "Suc p mod S"] Cons.prems by (simp add: mod_add_left_eq del: upt_Suc)
qed simp


section \<open>Properties\<close>

text \<open>
  Property C14: the window transports a batch of messages, wherever in the sequence space it
  starts. When a sender with an idle window of three to 256 slots puts fewer messages than half a
  window (rounded up) and each of them fits the room it is given, the packets may arrive in any
  order: the receiver then hands out every message once, in the order in which they were put, with
  its bytes unchanged, and after the acknowledgements both windows are idle again, the batch
  further on.
\<close>

theorem window_batch_in_order:
  assumes "3 \<le> S" "S \<le> 256" "p < S" "length ms \<le> S div 2" "length ms < S - S div 2" "avail < 2 ^ 63"
    and "\<forall>m \<in> set ms. buf_wf (snd m) \<and> int (buf_len (snd m)) \<le> avail"
    and "distinct is" "set is = {..<length ms}"
  shows "\<exists>s1 s2 ctxs r1 bs. window_puts (idle_window S p r) ms = Some s1 \<and> window_gets avail (length ms) s1 = Some (s2, ctxs) \<and>
     window_arrivals (idle_window S a p) (map (\<lambda>i. ctxs ! i) is) = Some r1 \<and>
     window_in_gets (length ms) r1 = Some (idle_window S a ((p + length ms) mod S), bs) \<and>
     map buf_bytes bs = map (\<lambda>m. buf_bytes (snd m)) ms \<and>
     window_acks s2 (map wc_pid ctxs) = Some (idle_window S ((p + length ms) mod S) r)"
proof -
  define k where "k = length ms"
  define ctxs where "ctxs = map (\<lambda>(i, m). sent_ctx S (p + i) m) (enumerate 0 ms)"
  have kS: "k \<le> S" "0 < S" using assms(1,4) by (simp_all add: k_def)
  have ctx: "ctxs ! i = sent_ctx S (p + i) (ms ! i)" if "i < k" for i using that by (simp add: ctxs_def k_def nth_enumerate_eq)
  have len: "length is = k" using distinct_card [OF assms(8)] assms(9) by (simp add: k_def)
  have puts: "window_puts (idle_window S p r) ms = Some (sending S p r (map put_item ms) 0)"
    using puts_all [OF assms(3,2), of "[]" ms r] sending_Nil [OF assms(3)] assms(7) kS by (simp add: k_def)
  have gets: "window_gets avail (length ms) (sending S p r (map put_item ms) 0) = Some (sending S p r (map sent_item ms) k, ctxs)"
    using gets_all [OF assms(3,2,6), of "[]" ms r] assms(7) kS by (simp add: ctxs_def k_def)
  have ctxs: "map (\<lambda>i. ctxs ! i) is = map (\<lambda>i. sent_ctx S (p + i) (ms ! i)) is" using ctx assms(9) by (auto simp: k_def)
  have arr: "window_arrivals (idle_window S a p) (map (\<lambda>i. ctxs ! i) is) = Some (receiving S a p (map arr_item ms) k)"
    using arrivals_all [OF assms(3,2), of ms "is" "replicate k zero_item" 0 a] assms(4,7-9) kS len fold_all [OF assms(9)]
    unfolding ctxs by (simp add: receiving_zero k_def)
  have ins: "window_in_gets (length ms) (receiving S a p (map arr_item ms) k) = Some (idle_window S a ((p + length ms) mod S), map (\<lambda>m. copy_of (snd m)) ms)"
    using in_gets_all [OF assms(2,3,4), of a] assms(7) receiving_zero [of S a _ 0] by (simp add: k_def)
  have bytes: "map buf_bytes (map (\<lambda>m. copy_of (snd m)) ms) = map (\<lambda>m. buf_bytes (snd m)) ms" using assms(7) by simp
  have "map wc_pid ctxs = map (\<lambda>i. (p + i) mod S) [0..<length ms]"
    by (rule nth_equalityI) (simp_all add: ctxs_def sent_ctx_def nth_enumerate_eq)
  then have acks: "window_acks (sending S p r (map sent_item ms) k) (map wc_pid ctxs) = Some (idle_window S ((p + length ms) mod S) r)"
    using acks_all [OF assms(2,3,5), of r] sending_Nil [of _ S r] kS(2) by (simp add: k_def)
  show ?thesis by (intro exI conjI) (rule puts, rule gets, rule arr, rule ins, rule bytes, rule acks)
qed

definition msg :: "u8 list \<Rightarrow> buffer_t" where
  "msg d = \<lparr>buf_len = length d, buf_total = length d, buf_free = 0, buf_ptr = Some (d @ [0])\<rparr>"

lemma msg_wf [simp]: "buf_wf (msg d)" and msg_bytes [simp]: "buf_bytes (msg d) = d" and msg_len [simp]: "buf_len (msg d) = length d"
  and msg_ptr [simp]: "buf_ptr (msg d) = Some (d @ [0])"
  by (simp_all add: msg_def buf_wf_def buf_bytes_def)

lemma copy_of_msg [simp]: "copy_of (msg d) = msg d"
  by (simp add: copy_of_def) (simp add: msg_def)

lemma clone_msg: "n \<le> length d \<Longrightarrow> clone_to_chunk True ch (Some (d @ [0])) n = Some (msg (take n d))"
  by (simp add: clone_to_chunk_bytes msg_def)

lemma cat_msg: "d \<noteq> [] \<Longrightarrow> cat_to_buffer True (msg x) (d @ [0]) (length d) = Some (msg (x @ d), LD_OK)"
  by (simp add: cat_to_buffer_def msg_def mem_read_def mem_write_def Let_def)

theorem window_batch_in_order_witness:
  "\<exists>s1 s2 ctxs r1 r2 bs. window_puts (idle_window 8 6 0) [(1, msg [10, 11]), (1, msg []), (2, msg [12])] = Some s1 \<and>
     window_gets 100 3 s1 = Some (s2, ctxs) \<and> window_arrivals (idle_window 8 0 6) (map (\<lambda>i. ctxs ! i) [2, 0, 1]) = Some r1 \<and>
     window_in_gets 3 r1 = Some (r2, bs) \<and> map buf_bytes bs = [[10, 11], [], [12]]"
proof -
  have "set [2, 0, 1 :: nat] = {..<length [(1 :: nat, msg [10, 11]), (1, msg []), (2, msg [12])]}" by (auto simp: numeral_3_eq_3)
  from window_batch_in_order [OF _ _ _ _ _ _ _ _ this, of 8 6 100 0 0] show ?thesis by (auto simp: numeral_3_eq_3)
qed

text \<open>The two packets of a cut message, and the receiver's slot after each of them.\<close>

definition frag_ctx :: "nat \<Rightarrow> nat \<Rightarrow> nat \<Rightarrow> u8 list \<Rightarrow> bool \<Rightarrow> window_ctx_t" where
  "frag_ctx p cos off d first = \<lparr>wc_buf = msg d, wc_pid = p, wc_cos = cos, wc_offset = off, wc_is_rst = first, wc_is_lfr = (\<not> first)\<rparr>"

definition frag_item :: "nat \<Rightarrow> nat \<Rightarrow> u8 list \<Rightarrow> bool \<Rightarrow> window_item_t" where
  "frag_item cos off d done = zero_item\<lparr>wi_cos := cos, wi_offset := off, wi_buf := Some (msg d), wi_all_recv := done\<rparr>"

lemma slot0 [simp]: "p < S \<Longrightarrow> slots S p [x] ! p = x" "p < S \<Longrightarrow> (slots S p [x])[p := y] = slots S p [y]"
  using slots_nth [of p S 0 "[x]"] slots_update [of p S 0 "[x]" y] by simp_all

lemma first_fragment:
  assumes "p < S" "S \<le> 256" "0 < room" "room < length d" "length d < 256"
  shows "window_check_get (sending S p r [put_item (cos, msg d)] 0) (int room) =
     Some (sending S p r [(put_item (cos, msg d))\<lparr>wi_offset := room\<rparr>] 0, Some (frag_ctx p cos room (take room d) True), int room)"
proof -
  have "(of_nat (S - 1) :: u64) \<noteq> of_nat S" using of_nat_u64_neq [of "S - 1" S] assms by auto
  moreover have "unat (of_nat (length d) :: u64) = length d" "unat (of_nat room :: u64) = room"
    using assms(4,5) by (intro unat_of_nat_small; simp)+
  ultimately show ?thesis
    using assms by (simp add: window_check_get_def window_out_get_frag_def sending_def item_at_def set_item_def put_item_def zero_item_def
        word_le_nat_alt clone_msg clone_copy frag_ctx_def Let_def)
qed

lemma second_packet:
  assumes "p < S" "S \<le> 256" "0 < room" "room < length d" "length d < 256" "length d \<le> room'" "room' < 2 ^ 63"
  shows "\<exists>s. window_check_get (sending S p r [(put_item (cos, msg d))\<lparr>wi_offset := room\<rparr>] 0) (int room') =
     Some (s, Some (frag_ctx p cos (length d) d False), int room' - int (length d))"
proof -
  have "(of_nat (S - 1) :: u64) \<noteq> of_nat S" using of_nat_u64_neq [of "S - 1" S] assms by auto
  moreover have "unat (of_nat (length d) :: u64) = length d" "unat (of_nat room' :: u64) = room'"
    using assms(5,7) by (intro unat_of_nat_small; simp)+
  ultimately show ?thesis
    using assms by (simp add: window_check_get_def window_out_get_def sending_def item_at_def set_item_def put_item_def zero_item_def
        word_le_nat_alt wpos_def clone_copy frag_ctx_def Let_def)
qed

lemma first_arrival:
  assumes "p < S" "S \<le> 256" "3 \<le> S" "room < 256"
  shows "window_put_ctx True (idle_window S a p) (frag_ctx p cos room d True) = Some (receiving S a p [frag_item cos room d False] 1, LD_OK)"
proof -
  have "in_recv_window (idle_window S a p) ((p + S div 2) mod S) p"
    using in_recv_windowI [OF assms(1), of 0 "idle_window S a p"] assms(1,3) by (simp add: idle_window_def)
  moreover have "(replicate S zero_item)[p := x] = slots S p [x]" for x using slots_append [of p S "[]" x] assms(1) by (simp add: slots_Nil)
  ultimately show ?thesis
    using assms mod_less_256 [of S "p + S div 2"] clone_msg [of "length d" d]
    by (simp add: window_put_ctx_def idle_window_def receiving_def frag_ctx_def wpos_def item_at_def set_item_def frag_item_def zero_item_def of_nat_diff)
qed

lemma second_arrival:
  assumes "p < S" "S \<le> 256" "3 \<le> S" "off < 256" "d' \<noteq> []"
  shows "window_put_ctx True (receiving S a p [frag_item cos room d False] 1) (frag_ctx p cos off d' False) =
     Some (receiving S a p [frag_item cos off (d @ d') True] 2, LD_OK)"
proof -
  have "in_recv_window (receiving S a p [frag_item cos room d False] 1) ((p + S div 2) mod S) p"
    using in_recv_windowI [OF assms(1), of 0 "receiving S a p [frag_item cos room d False] 1"] assms(1,3) by (simp add: receiving_def)
  then show ?thesis
    using assms mod_less_256 [of S "p + S div 2"] cat_msg [OF assms(5), of d]
    by (simp add: window_put_ctx_def receiving_def frag_ctx_def wpos_def item_at_def set_item_def frag_item_def zero_item_def of_nat_diff)
qed

text \<open>
  Fragments do not add up. A message that does not fit is cut: the first packet carries
  its first \<open>room\<close> bytes. If there is enough room for the message the next time, the window sends
  the whole message again, marked as a continuation, and the receiver appends it to the fragment.
\<close>

theorem window_fragment_duplicates:
  assumes "3 \<le> S" "S \<le> 256" "p < S" "0 < room" "room < length d" "length d < 256" "length d \<le> room'" "room' < 2 ^ 63"
  shows "\<exists>s1 s2 s3 c1 c2 r1 r2 r3 b. window_put wake (idle_window S p r) cos (msg d) = Some (s1, p, LD_OK) \<and>
     window_check_get s1 (int room) = Some (s2, Some c1, int room) \<and> window_check_get s2 (int room') = Some (s3, Some c2, int room' - int (length d)) \<and>
     window_put_ctx True (idle_window S a p) c1 = Some (r1, LD_OK) \<and> window_put_ctx True r1 c2 = Some (r2, LD_OK) \<and>
     window_in_get r2 = Some (r3, Some b) \<and> buf_bytes b = take room d @ d"
proof -
  have put: "window_put wake (idle_window S p r) cos (msg d) = Some (sending S p r [put_item (cos, msg d)] 0, p, LD_OK)"
    using put_step [OF assms(3,2), of "[]" "(cos, msg d)" wake r] sending_Nil [OF assms(3)] assms(3) by simp
  note get1 = first_fragment [OF assms(3,2,4-6), of r cos]
  obtain s3 where get2: "window_check_get (sending S p r [(put_item (cos, msg d))\<lparr>wi_offset := room\<rparr>] 0) (int room') =
     Some (s3, Some (frag_ctx p cos (length d) d False), int room' - int (length d))"
    using second_packet [OF assms(3,2,4-8)] by blast
  have arr1: "window_put_ctx True (idle_window S a p) (frag_ctx p cos room (take room d) True) = Some (receiving S a p [frag_item cos room (take room d) False] 1, LD_OK)"
    using assms by (intro first_arrival) auto
  have arr2: "window_put_ctx True (receiving S a p [frag_item cos room (take room d) False] 1) (frag_ctx p cos (length d) d False) =
     Some (receiving S a p [frag_item cos (length d) (take room d @ d) True] 2, LD_OK)"
    using assms by (intro second_arrival) auto
  have "window_in_get (receiving S a p [frag_item cos (length d) (take room d @ d) True] (Suc 1)) =
     Some (receiving S a (Suc p mod S) [] 1, Some (copy_of (msg (take room d @ d))))"
    using assms(1) by (intro in_get_step assms(2,3)) (auto simp: frag_item_def zero_item_def)
  then have get: "window_in_get (receiving S a p [frag_item cos (length d) (take room d @ d) True] 2) =
     Some (receiving S a (Suc p mod S) [] 1, Some (msg (take room d @ d)))" by (simp add: numeral_2_eq_2)
  show ?thesis by (intro exI conjI) (rule put, rule get1, rule get2, rule arr1, rule arr2, rule get, rule msg_bytes)
qed

theorem window_fragment_duplicates_witness:
  "\<exists>s1 s2 s3 c1 c2 r1 r2 r3 b. window_put (\<lambda>_. None) (idle_window 8 0 0) 1 (msg [1, 2, 3]) = Some (s1, 0, LD_OK) \<and>
     window_check_get s1 2 = Some (s2, Some c1, 2) \<and> window_check_get s2 3 = Some (s3, Some c2, 0) \<and>
     window_put_ctx True (idle_window 8 0 0) c1 = Some (r1, LD_OK) \<and> window_put_ctx True r1 c2 = Some (r2, LD_OK) \<and>
     window_in_get r2 = Some (r3, Some b) \<and> buf_bytes b = [1, 2, 1, 2, 3]"
  using window_fragment_duplicates [of 8 0 2 "[1, 2, 3]" 3 "\<lambda>_. None" 0 1 0] by simp

text \<open>
  The position in a received packet or acknowledgement is not checked against the
  number of slots. When the window wraps around the end of the array, every position up to 255
  beyond its start counts as inside, and the item behind the end of the array is written.
\<close>

theorem window_pid_out_of_bounds:
  assumes "S \<le> pid" "length (w_items w) = S" "w_seq_sz w = S" "S \<le> 256"
    and "w_to_recv_start w < S" "S < w_to_recv_start w + w_win_size w" "w_win_size w < S" "wc_pid ctx = pid"
    and "w_to_send_start v < w_to_ack_start v" "w_to_ack_start v < S" "length (w_items v) = S"
  shows "window_put_ctx ok w ctx = None \<and> window_ack_item v pid = None"
proof -
  have "(w_to_recv_start w + w_win_size w) mod S = w_to_recv_start w + w_win_size w - S"
    using assms(5-7) by (simp add: mod_if)
  then have "wpos w (w_to_recv_start w + w_win_size w) = Some (w_to_recv_start w + w_win_size w - S)"
    using assms(3-7) by (simp add: wpos_def)
  moreover have "w_to_recv_start w + w_win_size w - S < w_to_recv_start w" using assms(5-7) by linarith
  ultimately show ?thesis using assms by (simp add: window_put_ctx_def in_recv_window_def item_at_def window_ack_item_def)
qed

theorem window_pid_out_of_bounds_witness:
  "window_put_ctx True (idle_window 8 0 6) (frag_ctx 200 0 0 [] True) = None \<and> window_ack_item ((idle_window 8 6 0)\<lparr>w_to_send_start := 1\<rparr>) 200 = None"
  by (rule window_pid_out_of_bounds [of 8 200]) (simp_all add: idle_window_def frag_ctx_def)

lemma full_batch_ack:
  assumes "0 < h" "h < p" "p < 2 * h" "w_win_size w = h" "w_to_ack_start w = p" "w_to_send_start w = p - h" "length (w_items w) = 2 * h"
    and "p \<le> pid \<or> pid < p - h" "pid < 2 * h"
  shows "window_ack_item w pid = Some (set_item w pid ((w_items w ! pid)\<lparr>wi_is_ack := True\<rparr>), LD_OK)"
proof -
  have "window_slide (set_item w pid it) = Some (set_item w pid it)" for it
    using assms by (subst window_slide.simps) (auto simp: set_item_def)
  then show ?thesis using assms by (auto simp: window_ack_item_def item_at_def)
qed

text \<open>
  With an even number of slots, a full half window of packets that crosses the end of
  the array is never released: whichever of them are acknowledged, and in whatever order, every
  acknowledgement is recorded but the window does not slide.
\<close>

theorem window_full_batch_never_slides:
  assumes "0 < h" "h < p" "p < 2 * h" "w_win_size w = h" "w_to_ack_start w = p" "w_to_send_start w = p - h" "length (w_items w) = 2 * h"
    and "\<forall>q \<in> set qs. (p \<le> q \<or> q < p - h) \<and> q < 2 * h"
  shows "\<exists>w'. window_acks w qs = Some w' \<and> w_to_ack_start w' = p \<and>
     (\<forall>q < 2 * h. wi_is_ack (w_items w' ! q) \<longleftrightarrow> q \<in> set qs \<or> wi_is_ack (w_items w ! q))"
  using assms(4-8)
proof (induction qs arbitrary: w)
  case (Cons q qs)
  define w1 where "w1 = set_item w q ((w_items w ! q)\<lparr>wi_is_ack := True\<rparr>)"
  have "window_ack_item w q = Some (w1, LD_OK)"
    using full_batch_ack [OF assms(1-3) Cons.prems(1-4), of q] Cons.prems(5) by (simp add: w1_def)
  moreover have "\<exists>w'. window_acks w1 qs = Some w' \<and> w_to_ack_start w' = p \<and>
     (\<forall>q < 2 * h. wi_is_ack (w_items w' ! q) \<longleftrightarrow> q \<in> set qs \<or> wi_is_ack (w_items w1 ! q))"
    using Cons.prems by (intro Cons.IH) (simp_all add: w1_def set_item_def)
  moreover have "wi_is_ack (w_items w1 ! j) \<longleftrightarrow> j = q \<or> wi_is_ack (w_items w ! j)" if "j < 2 * h" for j
    using that Cons.prems(4,5) by (auto simp: w1_def set_item_def nth_list_update)
  ultimately show ?case by auto
qed simp

theorem window_full_batch_never_slides_witness:
  "\<exists>w'. window_acks ((idle_window 8 6 0)\<lparr>w_to_send_start := 2\<rparr>) [6, 7, 0, 1] = Some w' \<and> w_to_ack_start w' = 6"
  using window_full_batch_never_slides [of 4 6 "(idle_window 8 6 0)\<lparr>w_to_send_start := 2\<rparr>" "[6, 7, 0, 1]"] by (auto simp: idle_window_def)

end
