(* ===== verification/Mqueue_Steps.thy ===== *)
theory Mqueue_Steps
  imports Event_System
begin

text \<open>
  The lock-free queue of src/src/ld_mqueue.c, as its threads see it: every read and every
  compare-and-swap of \<open>_enqueue\<close> and \<open>_dequeue\<close> on the shared nodes is one step, and the steps of any
  number of threads interleave freely. Memory is sequentially consistent, which is what the
  built-in \<open>__sync\<close> operations and barriers of the source provide. Retired nodes are kept: the
  reclamation of \<open>__lfq_recycle_free\<close> and \<open>__lfq_check_free\<close> is the subject of \<open>Mqueue\<close>.

  The theory shows that the queue is linearisable: the successful compare-and-swaps, in the order
  in which they happen, are the operations of a first-in first-out queue.
\<close>

section \<open>Shared state and program counters\<close>

text \<open>
  Where a thread is. The arguments are the local variables of the C functions: the new \<open>node\<close>, and
  the values read from \<open>tail\<close>, \<open>head\<close> and \<open>head->next\<close>.
\<close>

datatype 'a lf_pc =
    Idle
  | Enq_read addr
  | Enq_link addr addr
  | Enq_swing addr addr
  | Deq_head
  | Deq_tail addr
  | Deq_next addr addr
  | Deq_check addr addr "addr option"
  | Deq_help addr addr
  | Deq_swing addr addr
  | Deq_value addr
  | Returned "'a option"
  | Crashed

record 'a lf_state =
  lf_next :: "addr \<Rightarrow> addr option"
  lf_value :: "addr \<Rightarrow> 'a"
  lf_brk :: addr
  lf_head :: addr
  lf_tail :: addr
  lf_pcs :: "nat \<Rightarrow> 'a lf_pc"

datatype 'a lf_label = Tau | Linked 'a | Taken 'a | Saw_empty

definition goto_pc :: "nat \<Rightarrow> 'a lf_pc \<Rightarrow> 'a lf_state \<Rightarrow> 'a lf_state" where
  "goto_pc t pc s = s\<lparr>lf_pcs := (lf_pcs s)(t := pc)\<rparr>"

text \<open>The entry of \<open>_enqueue\<close>: allocation and initialisation of the node.\<close>

definition enq_call :: "nat \<Rightarrow> 'a \<Rightarrow> 'a lf_state \<Rightarrow> 'a lf_state" where
  "enq_call t v s =
     goto_pc t (Enq_read (lf_brk s))
       (s\<lparr>lf_brk := lf_brk s + 1, lf_next := (lf_next s)(lf_brk s := None), lf_value := (lf_value s)(lf_brk s := v)\<rparr>)"

text \<open>One step of the loops of \<open>_enqueue\<close> and \<open>_dequeue\<close> by the thread \<open>t\<close>.\<close>

definition lf_step :: "nat \<Rightarrow> 'a lf_state \<Rightarrow> ('a lf_label \<times> 'a lf_state) option" where
  "lf_step t s =
     (case lf_pcs s t of
        Enq_read node \<Rightarrow> Some (Tau, goto_pc t (Enq_link node (lf_tail s)) s)
      | Enq_link node tail \<Rightarrow>
          (if lf_next s tail = None
           then Some (Linked (lf_value s node), goto_pc t (Enq_swing node tail) (s\<lparr>lf_next := (lf_next s)(tail \<mapsto> node)\<rparr>))
           else Some (Tau, goto_pc t (Enq_read node) s))
      | Enq_swing node tail \<Rightarrow>
          Some (Tau, goto_pc t (Returned None) (if lf_tail s = tail then s\<lparr>lf_tail := node\<rparr> else s))
      | Deq_head \<Rightarrow> Some (Tau, goto_pc t (Deq_tail (lf_head s)) s)
      | Deq_tail head \<Rightarrow> Some (Tau, goto_pc t (Deq_next head (lf_tail s)) s)
      | Deq_next head tail \<Rightarrow>
          Some (if lf_next s head = None then Saw_empty else Tau, goto_pc t (Deq_check head tail (lf_next s head)) s)
      | Deq_check head tail next \<Rightarrow>
          Some (Tau, goto_pc t
            (if head \<noteq> lf_head s then Deq_head
             else if head = tail then (case next of None \<Rightarrow> Returned None | Some n \<Rightarrow> Deq_help tail n)
             else (case next of None \<Rightarrow> Crashed | Some n \<Rightarrow> Deq_swing head n)) s)
      | Deq_help tail next \<Rightarrow> Some (Tau, goto_pc t Deq_head (if lf_tail s = tail then s\<lparr>lf_tail := next\<rparr> else s))
      | Deq_swing head next \<Rightarrow>
          (if lf_head s = head then Some (Taken (lf_value s next), goto_pc t (Deq_value next) (s\<lparr>lf_head := next\<rparr>))
           else Some (Tau, goto_pc t Deq_head s))
      | Deq_value next \<Rightarrow> Some (Tau, goto_pc t (Returned (Some (lf_value s next))) s)
      | _ \<Rightarrow> None)"

text \<open>Calls and steps of all threads, interleaved. A call starts in a thread that is not in one.\<close>

definition ready :: "'a lf_pc \<Rightarrow> bool" where
  "ready pc \<longleftrightarrow> (case pc of Idle \<Rightarrow> True | Returned _ \<Rightarrow> True | _ \<Rightarrow> False)"

inductive lf_steps :: "'a lf_state \<Rightarrow> 'a lf_label \<Rightarrow> 'a lf_state \<Rightarrow> bool" where
  call_enqueue: "ready (lf_pcs s t) \<Longrightarrow> lf_steps s Tau (enq_call t v s)"
| call_dequeue: "ready (lf_pcs s t) \<Longrightarrow> lf_steps s Tau (goto_pc t Deq_head s)"
| thread: "lf_step t s = Some (l, s') \<Longrightarrow> lf_steps s l s'"

definition lf_init :: "'a lf_state \<Rightarrow> bool" where
  "lf_init s \<longleftrightarrow> lf_head s = lf_tail s \<and> lf_tail s < lf_brk s \<and> lf_next s (lf_head s) = None \<and> lf_pcs s = (\<lambda>_. Idle)"


section \<open>The chain of nodes\<close>

text \<open>
  \<open>linked s ns\<close>: \<open>ns\<close> are the nodes that have ever been linked, in this order; the head and the
  tail are among them, the head not after the tail.
\<close>

definition linked :: "'a lf_state \<Rightarrow> addr list \<Rightarrow> bool" where
  "linked s ns \<longleftrightarrow> ns \<noteq> [] \<and> distinct ns \<and> (\<forall>n \<in> set ns. n < lf_brk s) \<and>
     (\<forall>i < length ns. lf_next s (ns ! i) = (if Suc i < length ns then Some (ns ! Suc i) else None))"

definition at_idx :: "addr list \<Rightarrow> nat \<Rightarrow> addr \<Rightarrow> bool" where
  "at_idx ns i a \<longleftrightarrow> i < length ns \<and> ns ! i = a"

text \<open>What holds of the local variables; \<open>hi\<close> and \<open>ti\<close> are the positions of the head and the tail.\<close>

fun pc_ok :: "'a lf_state \<Rightarrow> addr list \<Rightarrow> nat \<Rightarrow> nat \<Rightarrow> 'a lf_pc \<Rightarrow> bool" where
  "pc_ok s ns hi ti (Enq_read node) \<longleftrightarrow> node < lf_brk s \<and> node \<notin> set ns \<and> lf_next s node = None"
| "pc_ok s ns hi ti (Enq_link node tail) \<longleftrightarrow> node < lf_brk s \<and> node \<notin> set ns \<and> lf_next s node = None \<and> tail \<in> set ns"
| "pc_ok s ns hi ti (Enq_swing node tail) \<longleftrightarrow> (\<exists>i. at_idx ns i tail \<and> at_idx ns (Suc i) node)"
| "pc_ok s ns hi ti (Deq_tail head) \<longleftrightarrow> (\<exists>i \<le> hi. at_idx ns i head)"
| "pc_ok s ns hi ti (Deq_next head tail) \<longleftrightarrow> (\<exists>i j. i \<le> hi \<and> i \<le> j \<and> j \<le> ti \<and> at_idx ns i head \<and> at_idx ns j tail)"
| "pc_ok s ns hi ti (Deq_check head tail None) \<longleftrightarrow> (\<exists>i. i \<le> hi \<and> i \<le> ti \<and> at_idx ns i head \<and> at_idx ns i tail)"
| "pc_ok s ns hi ti (Deq_check head tail (Some n)) \<longleftrightarrow>
     (\<exists>i j. i \<le> hi \<and> i \<le> j \<and> j \<le> ti \<and> at_idx ns i head \<and> at_idx ns j tail \<and> at_idx ns (Suc i) n)"
| "pc_ok s ns hi ti (Deq_help tail next) \<longleftrightarrow> (\<exists>i. at_idx ns i tail \<and> at_idx ns (Suc i) next)"
| "pc_ok s ns hi ti (Deq_swing head next) \<longleftrightarrow> (\<exists>i. at_idx ns i head \<and> at_idx ns (Suc i) next \<and> Suc i \<le> ti)"
| "pc_ok s ns hi ti (Deq_value next) \<longleftrightarrow> next \<in> set ns"
| "pc_ok s ns hi ti Crashed \<longleftrightarrow> False"
| "pc_ok s ns hi ti _ \<longleftrightarrow> True"

text \<open>The node a thread is about to link; no two threads have the same.\<close>

definition owns :: "'a lf_pc \<Rightarrow> addr option" where
  "owns pc = (case pc of Enq_read node \<Rightarrow> Some node | Enq_link node _ \<Rightarrow> Some node | _ \<Rightarrow> None)"

definition lf_inv_at :: "'a lf_state \<Rightarrow> addr list \<Rightarrow> nat \<Rightarrow> nat \<Rightarrow> bool" where
  "lf_inv_at s ns hi ti \<longleftrightarrow> linked s ns \<and> at_idx ns hi (lf_head s) \<and> at_idx ns ti (lf_tail s) \<and> hi \<le> ti \<and>
     (\<forall>t. pc_ok s ns hi ti (lf_pcs s t)) \<and>
     (\<forall>t u n. t \<noteq> u \<longrightarrow> owns (lf_pcs s t) = Some n \<longrightarrow> owns (lf_pcs s u) \<noteq> Some n)"

definition lf_inv :: "'a lf_state \<Rightarrow> bool" where
  "lf_inv s \<longleftrightarrow> (\<exists>ns hi ti. lf_inv_at s ns hi ti)"


section \<open>The invariant is kept\<close>

lemma at_idx_append: "at_idx ns i a \<Longrightarrow> at_idx (ns @ xs) i a"
  by (auto simp: at_idx_def nth_append)

lemma at_idx_inj: "distinct ns \<Longrightarrow> at_idx ns i a \<Longrightarrow> at_idx ns j a \<Longrightarrow> i = j"
  by (auto simp: at_idx_def distinct_conv_nth)

lemma at_idx_mem: "at_idx ns i a \<Longrightarrow> a \<in> set ns"
  by (auto simp: at_idx_def)

lemma mem_at_idx: "a \<in> set ns \<Longrightarrow> \<exists>i. at_idx ns i a"
  by (auto simp: at_idx_def in_set_conv_nth)

lemma linked_next: "linked s ns \<Longrightarrow> at_idx ns i a \<Longrightarrow> lf_next s a = (if Suc i < length ns then Some (ns ! Suc i) else None)"
  by (auto simp: linked_def at_idx_def)

lemma pc_ok_mono: "pc_ok s ns hi ti pc \<Longrightarrow> hi \<le> hi' \<Longrightarrow> ti \<le> ti' \<Longrightarrow> pc_ok s ns hi' ti' pc"
  by (induction s ns hi ti pc rule: pc_ok.induct) (simp_all, (meson le_trans)+)

lemma pc_ok_cong: "lf_next s' = lf_next s \<Longrightarrow> lf_brk s' = lf_brk s \<Longrightarrow> pc_ok s' ns hi ti pc = pc_ok s ns hi ti pc"
  by (induction s ns hi ti pc rule: pc_ok.induct) simp_all

lemma linked_cong: "lf_next s' = lf_next s \<Longrightarrow> lf_brk s' = lf_brk s \<Longrightarrow> linked s' = linked s"
  by (intro ext) (simp add: linked_def)

lemma goto_pc_sel [simp]:
  "lf_next (goto_pc t pc s) = lf_next s" "lf_brk (goto_pc t pc s) = lf_brk s" "lf_value (goto_pc t pc s) = lf_value s"
  "lf_head (goto_pc t pc s) = lf_head s" "lf_tail (goto_pc t pc s) = lf_tail s" "lf_pcs (goto_pc t pc s) = (lf_pcs s)(t := pc)"
  by (simp_all add: goto_pc_def)

text \<open>Moving the head, the tail and the program counter of one thread.\<close>

lemma lf_inv_move:
  assumes "lf_inv_at s ns hi ti" "hi \<le> hi'" "ti \<le> ti'" "hi' \<le> ti'" "at_idx ns hi' (lf_head s')" "at_idx ns ti' (lf_tail s')"
    and "lf_next s' = lf_next s" "lf_brk s' = lf_brk s" "lf_pcs s' = (lf_pcs s)(t := pc)"
    and "pc_ok s ns hi' ti' pc" "owns pc = None \<or> owns pc = owns (lf_pcs s t)"
  shows "lf_inv_at s' ns hi' ti'"
proof -
  have "pc_ok s' ns hi' ti' (lf_pcs s' u)" for u
    using assms(1,9,10) pc_ok_mono [OF _ assms(2,3)] unfolding lf_inv_at_def pc_ok_cong [OF assms(7,8)] by auto
  moreover have "owns (lf_pcs s' u) \<noteq> Some n" if "v \<noteq> u" "owns (lf_pcs s' v) = Some n" for u v n
    using that assms(1,9,11) unfolding lf_inv_at_def by (metis fun_upd_apply option.distinct(1))
  ultimately show ?thesis using assms(1,4-6) linked_cong [OF assms(7,8)] by (simp add: lf_inv_at_def)
qed

lemma pc_ok_link:
  assumes "linked s ns" "last ns = a" "node \<notin> set ns" "pc_ok s ns hi ti pc" "owns pc \<noteq> Some node"
  shows "pc_ok (s\<lparr>lf_next := (lf_next s)(a \<mapsto> node)\<rparr>) (ns @ [node]) hi ti pc"
proof -
  have a: "a \<in> set ns" using assms(1,2) by (auto simp: linked_def)
  have "lf_next (s\<lparr>lf_next := (lf_next s)(a \<mapsto> node)\<rparr>) n = lf_next s n" if "n \<notin> set ns" for n using a that by auto
  then show ?thesis
    using assms(3-5)
    by (induction s ns hi ti pc rule: pc_ok.induct) (simp_all add: owns_def, (metis at_idx_append)+)
qed

lemma linked_link:
  assumes "linked s ns" "last ns = a" "node \<notin> set ns" "node < lf_brk s" "lf_next s node = None"
  shows "linked (s\<lparr>lf_next := (lf_next s)(a \<mapsto> node)\<rparr>) (ns @ [node])"
proof -
  have ns: "ns \<noteq> []" "distinct ns" "a = ns ! (length ns - 1)" using assms(1,2) by (auto simp: linked_def last_conv_nth)
  have "((lf_next s)(a \<mapsto> node)) ((ns @ [node]) ! i) = (if Suc i < Suc (length ns) then Some ((ns @ [node]) ! Suc i) else None)"
    if i: "i < Suc (length ns)" for i
  proof -
    consider "Suc i < length ns" | "Suc i = length ns" | "i = length ns" using i by linarith
    then show ?thesis
    proof cases
      case 1
      then have "ns ! i \<noteq> a" using ns by (simp add: nth_eq_iff_index_eq)
      then show ?thesis using 1 assms(1) by (simp add: linked_def nth_append)
    next
      case 2
      then have "i = length ns - 1" "i < length ns" by auto
      then show ?thesis using ns(3) 2 by (simp add: nth_append)
    next
      case 3
      have "node \<noteq> a" using assms(3) ns by (metis last_conv_nth last_in_set)
      then show ?thesis using 3 assms(5) by (simp add: nth_append)
    qed
  qed
  then show ?thesis using assms ns by (auto simp: linked_def)
qed


lemma lf_inv_atD:
  assumes "lf_inv_at s ns hi ti"
  shows "linked s ns" "distinct ns" "at_idx ns hi (lf_head s)" "at_idx ns ti (lf_tail s)" "hi \<le> ti" "pc_ok s ns hi ti (lf_pcs s t)"
    "t \<noteq> u \<Longrightarrow> owns (lf_pcs s t) = Some n \<Longrightarrow> owns (lf_pcs s u) \<noteq> Some n"
  using assms unfolding lf_inv_at_def linked_def by blast+

lemma lf_inv_atI:
  assumes "linked s ns" "at_idx ns hi (lf_head s)" "at_idx ns ti (lf_tail s)" "hi \<le> ti" "\<And>t. pc_ok s ns hi ti (lf_pcs s t)"
    and "\<And>t u n. t \<noteq> u \<Longrightarrow> owns (lf_pcs s t) = Some n \<Longrightarrow> owns (lf_pcs s u) \<noteq> Some n"
  shows "lf_inv_at s ns hi ti"
  using assms unfolding lf_inv_at_def by blast

lemma pc_ok_alloc:
  "pc_ok s ns hi ti pc \<Longrightarrow> pc_ok (s\<lparr>lf_brk := lf_brk s + 1, lf_next := (lf_next s)(lf_brk s := None), lf_value := vs\<rparr>) ns hi ti pc"
  by (induction s ns hi ti pc rule: pc_ok.induct) auto

lemma lf_inv_pc:
  assumes "lf_inv_at s ns hi ti" "pc_ok s ns hi ti pc" "owns pc = None \<or> owns pc = owns (lf_pcs s t)"
  shows "lf_inv_at (goto_pc t pc s) ns hi ti"
  using assms lf_inv_atD(3-5) [OF assms(1)] by (intro lf_inv_move [OF assms(1)]) simp_all

lemma lf_inv_tail:
  assumes "lf_inv_at s ns hi ti" "at_idx ns i a" "at_idx ns (Suc i) b" "owns pc = None" "\<And>ti'. ti \<le> ti' \<Longrightarrow> pc_ok s ns hi ti' pc"
  shows "\<exists>ti'. lf_inv_at (goto_pc t pc (if lf_tail s = a then s\<lparr>lf_tail := b\<rparr> else s)) ns hi ti'"
proof (cases "lf_tail s = a")
  case True
  then have "ti = i" using lf_inv_atD(2,4) [OF assms(1)] assms(2) at_idx_inj by blast
  then have "lf_inv_at (goto_pc t pc (s\<lparr>lf_tail := b\<rparr>)) ns hi (Suc ti)"
    using lf_inv_atD(3,5) [OF assms(1)] assms(3,4) assms(5) [of "Suc ti"] by (intro lf_inv_move [OF assms(1)]) auto
  then show ?thesis using True by auto
next
  case False
  have "lf_inv_at (goto_pc t pc s) ns hi ti" using assms by (intro lf_inv_pc) auto
  then show ?thesis using False by auto
qed

lemma lf_inv_head:
  assumes "lf_inv_at s ns hi ti" "at_idx ns i (lf_head s)" "at_idx ns (Suc i) b" "Suc i \<le> ti" "owns pc = None" "pc_ok s ns (Suc hi) ti pc"
  shows "hi = i \<and> lf_inv_at (goto_pc t pc (s\<lparr>lf_head := b\<rparr>)) ns (Suc hi) ti"
proof -
  have "hi = i" using lf_inv_atD(2,3) [OF assms(1)] assms(2) at_idx_inj by blast
  then show ?thesis using lf_inv_atD(4) [OF assms(1)] assms by (auto intro: lf_inv_move [OF assms(1)])
qed

lemma lf_inv_alloc:
  assumes "lf_inv_at s ns hi ti"
  shows "lf_inv_at (enq_call t v s) ns hi ti"
proof -
  define s1 where "s1 = s\<lparr>lf_brk := lf_brk s + 1, lf_next := (lf_next s)(lf_brk s := None), lf_value := (lf_value s)(lf_brk s := v)\<rparr>"
  have fresh: "lf_brk s \<notin> set ns" using lf_inv_atD(1) [OF assms] by (auto simp: linked_def)
  then have "ns ! i \<noteq> lf_brk s" if "i < length ns" for i using that nth_mem by metis
  then have lk: "linked s1 ns" using lf_inv_atD(1) [OF assms] by (auto simp: linked_def s1_def)
  have pk: "pc_ok s1 ns hi ti (lf_pcs s u)" for u unfolding s1_def by (rule pc_ok_alloc [OF lf_inv_atD(6) [OF assms]])
  have own: "owns (lf_pcs s u) \<noteq> Some (lf_brk s)" for u
    using lf_inv_atD(6) [OF assms, of u] by (cases "lf_pcs s u") (auto simp: owns_def)
  have "owns (((lf_pcs s)(t := Enq_read (lf_brk s))) w) \<noteq> Some n" if "u \<noteq> w" "owns (((lf_pcs s)(t := Enq_read (lf_brk s))) u) = Some n" for u w n
    using that own lf_inv_atD(7) [OF assms, of u w n] by (cases "u = t"; cases "w = t") (auto simp: owns_def)
  moreover have "pc_ok s1 ns hi ti (Enq_read (lf_brk s))" using fresh by (simp add: s1_def)
  moreover have s': "enq_call t v s = goto_pc t (Enq_read (lf_brk s)) s1" by (simp add: enq_call_def s1_def)
  moreover have "lf_head s1 = lf_head s" "lf_tail s1 = lf_tail s" "lf_pcs s1 = lf_pcs s" by (simp_all add: s1_def)
  ultimately show ?thesis
    using lk pk lf_inv_atD(3-5) [OF assms] unfolding s'
    by (intro lf_inv_atI) (simp_all add: linked_cong [of "goto_pc t _ s1" s1] pc_ok_cong [of "goto_pc t _ s1" s1])
qed

lemma lf_inv_link:
  assumes "lf_inv_at s ns hi ti" "lf_pcs s t = Enq_link node a" "lf_next s a = None"
  shows "lf_inv_at (goto_pc t (Enq_swing node a) (s\<lparr>lf_next := (lf_next s)(a \<mapsto> node)\<rparr>)) (ns @ [node]) hi ti"
proof -
  define s1 where "s1 = s\<lparr>lf_next := (lf_next s)(a \<mapsto> node)\<rparr>"
  have pc: "node < lf_brk s" "node \<notin> set ns" "lf_next s node = None" "a \<in> set ns" using lf_inv_atD(6) [OF assms(1), of t] assms(2) by simp_all
  then obtain i where i: "at_idx ns i a" using mem_at_idx by metis
  then have len: "Suc i = length ns" using linked_next [OF lf_inv_atD(1) [OF assms(1)] i] assms(3) by (auto simp: at_idx_def split: if_splits)
  then have la: "last ns = a" using i by (metis at_idx_def diff_Suc_1 last_conv_nth list.size(3) nat.distinct(1))
  have lk: "linked s1 (ns @ [node])" unfolding s1_def using lf_inv_atD(1) [OF assms(1)] la pc by (intro linked_link) auto
  have pk: "pc_ok s1 (ns @ [node]) hi ti (lf_pcs s u)" if "u \<noteq> t" for u
    unfolding s1_def using lf_inv_atD(1,6) [OF assms(1)] la pc(2) lf_inv_atD(7) [OF assms(1), of t u node] that assms(2)
    by (intro pc_ok_link) (auto simp: owns_def)
  have "at_idx (ns @ [node]) i a" "at_idx (ns @ [node]) (Suc i) node" using i len by (auto simp: at_idx_def nth_append)
  then have "pc_ok s1 (ns @ [node]) hi ti (Enq_swing node a)" by auto
  moreover have "owns (((lf_pcs s)(t := Enq_swing node a)) w) \<noteq> Some n" if "u \<noteq> w" "owns (((lf_pcs s)(t := Enq_swing node a)) u) = Some n" for u w n
    using that lf_inv_atD(7) [OF assms(1), of u w n] by (cases "u = t"; cases "w = t") (auto simp: owns_def)
  moreover have "lf_head s1 = lf_head s" "lf_tail s1 = lf_tail s" "lf_pcs s1 = lf_pcs s" by (simp_all add: s1_def)
  ultimately show ?thesis
    using lk pk lf_inv_atD(3-5) [OF assms(1)] unfolding s1_def [symmetric]
    by (intro lf_inv_atI) (simp_all add: linked_cong [of "goto_pc t _ s1" s1] pc_ok_cong [of "goto_pc t _ s1" s1] at_idx_append)
qed

text \<open>The queue's contents: the values behind the head.\<close>

fun walk :: "nat \<Rightarrow> (addr \<Rightarrow> addr option) \<Rightarrow> addr \<Rightarrow> addr list" where
  "walk 0 nx a = []"
| "walk (Suc k) nx a = (case nx a of None \<Rightarrow> [] | Some n \<Rightarrow> n # walk k nx n)"

definition lf_contents :: "'a lf_state \<Rightarrow> 'a list" where
  "lf_contents s = map (lf_value s) (walk (lf_brk s) (lf_next s) (lf_head s))"

lemma walk_drop:
  assumes "linked s ns"
  shows "at_idx ns i a \<Longrightarrow> length ns \<le> i + Suc k \<Longrightarrow> walk k (lf_next s) a = drop (Suc i) ns"
proof (induction k arbitrary: i a)
  case 0
  then show ?case by (simp add: at_idx_def)
next
  case (Suc k)
  show ?case
  proof (cases "Suc i < length ns")
    case True
    then have "at_idx ns (Suc i) (ns ! Suc i)" by (simp add: at_idx_def)
    then show ?thesis using Suc True linked_next [OF assms Suc.prems(1)] by (simp add: Cons_nth_drop_Suc)
  next
    case False
    then show ?thesis using linked_next [OF assms Suc.prems(1)] by simp
  qed
qed

lemma linked_length: "linked s ns \<Longrightarrow> length ns \<le> lf_brk s"
proof -
  assume "linked s ns"
  then have "set ns \<subseteq> {..<lf_brk s}" "distinct ns" by (auto simp: linked_def)
  then show ?thesis by (metis card_lessThan card_mono distinct_card finite_lessThan)
qed

lemma lf_contents_drop:
  assumes "lf_inv_at s ns hi ti"
  shows "lf_contents s = map (lf_value s) (drop (Suc hi) ns)"
  using walk_drop [OF lf_inv_atD(1) [OF assms] lf_inv_atD(3) [OF assms], of "lf_brk s"] linked_length [OF lf_inv_atD(1) [OF assms]]
  by (simp add: lf_contents_def)

lemma lf_contents_goto [simp]: "lf_contents (goto_pc t pc s) = lf_contents s"
  by (simp add: lf_contents_def)

lemma lf_contents_tail [simp]: "lf_contents (s\<lparr>lf_tail := b\<rparr>) = lf_contents s"
  by (simp add: lf_contents_def)


section \<open>Refinement\<close>

text \<open>The specification: a first-in first-out queue.\<close>

fun fifo_step :: "'a list \<Rightarrow> 'a lf_label \<Rightarrow> 'a list \<Rightarrow> bool" where
  "fifo_step q Tau q' \<longleftrightarrow> False"
| "fifo_step q (Linked v) q' \<longleftrightarrow> q' = q @ [v]"
| "fifo_step q (Taken v) q' \<longleftrightarrow> q = v # q'"
| "fifo_step q Saw_empty q' \<longleftrightarrow> q = [] \<and> q' = []"

definition simulates :: "'a lf_state \<Rightarrow> 'a lf_label \<Rightarrow> 'a lf_state \<Rightarrow> bool" where
  "simulates s l s' \<longleftrightarrow> lf_inv s' \<and> (if l = Tau then lf_contents s' = lf_contents s else fifo_step (lf_contents s) l (lf_contents s'))"

lemma lf_invI: "lf_inv_at s ns hi ti \<Longrightarrow> lf_inv s"
  by (auto simp: lf_inv_def)

lemma simulates_pc:
  assumes "lf_inv_at s ns hi ti" "pc_ok s ns hi ti pc" "owns pc = None \<or> owns pc = owns (lf_pcs s t)"
  shows "simulates s Tau (goto_pc t pc s)"
  using lf_inv_pc [OF assms] by (auto simp: simulates_def lf_invI)

lemma simulates_tail:
  assumes "lf_inv_at s ns hi ti" "at_idx ns i a" "at_idx ns (Suc i) b" "pc = Returned None \<or> pc = Deq_head"
  shows "simulates s Tau (goto_pc t pc (if lf_tail s = a then s\<lparr>lf_tail := b\<rparr> else s))"
proof -
  have "owns pc = None" "pc_ok s ns hi ti' pc" for ti' using assms(4) by (auto simp: owns_def)
  from lf_inv_tail [OF assms(1-3) this, of t] obtain ti' where
    "lf_inv_at (goto_pc t pc (if lf_tail s = a then s\<lparr>lf_tail := b\<rparr> else s)) ns hi ti'" by blast
  then show ?thesis using lf_invI by (auto simp: simulates_def)
qed

lemma simulates_link:
  assumes "lf_inv_at s ns hi ti" "lf_pcs s t = Enq_link node a" "lf_next s a = None"
  shows "simulates s (Linked (lf_value s node)) (goto_pc t (Enq_swing node a) (s\<lparr>lf_next := (lf_next s)(a \<mapsto> node)\<rparr>))"
proof -
  note inv = lf_inv_link [OF assms]
  have "Suc hi \<le> length ns" using lf_inv_atD(3) [OF assms(1)] by (simp add: at_idx_def)
  then have "lf_contents (goto_pc t (Enq_swing node a) (s\<lparr>lf_next := (lf_next s)(a \<mapsto> node)\<rparr>)) = lf_contents s @ [lf_value s node]"
    using lf_contents_drop [OF inv] lf_contents_drop [OF assms(1)] by simp
  then show ?thesis using inv by (auto simp: simulates_def lf_invI simp del: lf_contents_goto)
qed

lemma simulates_take:
  assumes "lf_inv_at s ns hi ti" "lf_pcs s t = Deq_swing (lf_head s) b"
  shows "simulates s (Taken (lf_value s b)) (goto_pc t (Deq_value b) (s\<lparr>lf_head := b\<rparr>))"
proof -
  obtain i where i: "at_idx ns i (lf_head s)" "at_idx ns (Suc i) b" "Suc i \<le> ti" using lf_inv_atD(6) [OF assms(1), of t] assms(2) by auto
  have "hi = i \<and> lf_inv_at (goto_pc t (Deq_value b) (s\<lparr>lf_head := b\<rparr>)) ns (Suc hi) ti"
    by (rule lf_inv_head [OF assms(1) i]) (use at_idx_mem [OF i(2)] in \<open>simp_all add: owns_def\<close>)
  then have inv: "hi = i" "lf_inv_at (goto_pc t (Deq_value b) (s\<lparr>lf_head := b\<rparr>)) ns (Suc hi) ti" by blast+
  have "drop (Suc hi) ns = b # drop (Suc (Suc hi)) ns" using i(2) inv(1) by (auto simp: at_idx_def Cons_nth_drop_Suc)
  then have "lf_contents s = lf_value s b # lf_contents (goto_pc t (Deq_value b) (s\<lparr>lf_head := b\<rparr>))"
    using lf_contents_drop [OF inv(2)] lf_contents_drop [OF assms(1)] by simp
  then show ?thesis using inv(2) by (auto simp: simulates_def lf_invI simp del: lf_contents_goto)
qed

lemma simulates_next:
  assumes "lf_inv_at s ns hi ti" "lf_pcs s t = Deq_next h a"
  shows "simulates s (if lf_next s h = None then Saw_empty else Tau) (goto_pc t (Deq_check h a (lf_next s h)) s)"
proof -
  obtain i j where ij: "i \<le> hi" "i \<le> j" "j \<le> ti" "at_idx ns i h" "at_idx ns j a" using lf_inv_atD(6) [OF assms(1), of t] assms(2) by auto
  note nx = linked_next [OF lf_inv_atD(1) [OF assms(1)] ij(4)]
  show ?thesis
  proof (cases "Suc i < length ns")
    case True
    then have "at_idx ns (Suc i) (ns ! Suc i)" by (simp add: at_idx_def)
    then have "pc_ok s ns hi ti (Deq_check h a (lf_next s h))" using ij nx True by auto
    then show ?thesis using simulates_pc [OF assms(1)] nx True by (simp add: owns_def)
  next
    case False
    have "hi = i" "j = i" using False ij lf_inv_atD(3) [OF assms(1)] by (auto simp: at_idx_def)
    then have "pc_ok s ns hi ti (Deq_check h a None)" using ij by auto
    then have "lf_inv_at (goto_pc t (Deq_check h a None) s) ns hi ti" using lf_inv_pc [OF assms(1)] by (simp add: owns_def)
    moreover have "lf_contents s = []" using lf_contents_drop [OF assms(1)] False \<open>hi = i\<close> by simp
    ultimately show ?thesis using nx False by (auto simp: simulates_def lf_invI)
  qed
qed

lemma simulates_check:
  assumes "lf_inv_at s ns hi ti" "lf_pcs s t = Deq_check h a nx"
  shows "simulates s Tau (goto_pc t
     (if h \<noteq> lf_head s then Deq_head
      else if h = a then (case nx of None \<Rightarrow> Returned None | Some n \<Rightarrow> Deq_help a n)
      else (case nx of None \<Rightarrow> Crashed | Some n \<Rightarrow> Deq_swing h n)) s)"
proof (cases nx)
  case None
  then have "h = a" using lf_inv_atD(6) [OF assms(1), of t] assms(2) by (auto simp: at_idx_def)
  then show ?thesis using None by (auto intro!: simulates_pc [OF assms(1)] simp: owns_def)
next
  case (Some n)
  then obtain i j where ij: "i \<le> hi" "i \<le> j" "j \<le> ti" "at_idx ns i h" "at_idx ns j a" "at_idx ns (Suc i) n"
    using lf_inv_atD(6) [OF assms(1), of t] assms(2) by auto
  have "Suc i \<le> ti" if "h \<noteq> a"
  proof -
    have "i \<noteq> j" using ij(4,5) that by (auto simp: at_idx_def)
    then show ?thesis using ij(2,3) by linarith
  qed
  then show ?thesis using ij(4,6) Some by (auto intro!: simulates_pc [OF assms(1)] simp: owns_def)
qed

lemma lf_step_simulates:
  assumes "lf_inv_at s ns hi ti" "lf_step t s = Some (l, s')"
  shows "simulates s l s'"
proof (cases "lf_pcs s t")
  case (Enq_read node)
  then show ?thesis
    using assms(2) lf_inv_atD(4) [OF assms(1)] lf_inv_atD(6) [OF assms(1), of t] at_idx_mem
    by (auto simp: lf_step_def owns_def intro!: simulates_pc [OF assms(1)])
next
  case (Enq_link node a)
  then show ?thesis
    using assms(2) simulates_link [OF assms(1) Enq_link] lf_inv_atD(6) [OF assms(1), of t]
    by (auto simp: lf_step_def owns_def split: if_splits intro!: simulates_pc [OF assms(1)])
next
  case (Enq_swing node a)
  then obtain i where "at_idx ns i a" "at_idx ns (Suc i) node" using lf_inv_atD(6) [OF assms(1), of t] by auto
  then show ?thesis using assms(2) Enq_swing simulates_tail [OF assms(1), of i a node "Returned None" t] by (simp add: lf_step_def)
next
  case (Deq_help a n)
  then obtain i where "at_idx ns i a" "at_idx ns (Suc i) n" using lf_inv_atD(6) [OF assms(1), of t] by auto
  then show ?thesis using assms(2) Deq_help simulates_tail [OF assms(1), of i a n Deq_head t] by (simp add: lf_step_def)
next
  case Deq_head
  then show ?thesis using assms(2) lf_inv_atD(3) [OF assms(1)] by (auto simp: lf_step_def owns_def intro!: simulates_pc [OF assms(1)])
next
  case (Deq_tail h)
  then obtain i where "i \<le> hi" "at_idx ns i h" using lf_inv_atD(6) [OF assms(1), of t] by auto
  moreover have "i \<le> ti" using \<open>i \<le> hi\<close> lf_inv_atD(5) [OF assms(1)] by simp
  ultimately have "pc_ok s ns hi ti (Deq_next h (lf_tail s))" using lf_inv_atD(4) [OF assms(1)] by auto
  then have "simulates s Tau (goto_pc t (Deq_next h (lf_tail s)) s)" by (rule simulates_pc [OF assms(1)]) (simp add: owns_def)
  then show ?thesis using assms(2) Deq_tail by (simp add: lf_step_def)
next
  case (Deq_next h a)
  then show ?thesis using assms(2) simulates_next [OF assms(1) Deq_next] by (auto simp: lf_step_def)
next
  case (Deq_check h a nx)
  then show ?thesis using assms(2) simulates_check [OF assms(1) Deq_check] by (simp add: lf_step_def)
next
  case (Deq_swing h n)
  then show ?thesis
    using assms(2) simulates_take [OF assms(1), of t n] by (auto simp: lf_step_def owns_def split: if_splits intro!: simulates_pc [OF assms(1)])
next
  case (Deq_value n)
  then show ?thesis using assms(2) by (auto simp: lf_step_def owns_def intro!: simulates_pc [OF assms(1)])
qed (use assms(2) in \<open>simp_all add: lf_step_def\<close>)


lemma lf_steps_simulates:
  assumes "lf_inv s" "lf_steps s l s'"
  shows "simulates s l s'"
  using assms(2)
proof (cases rule: lf_steps.cases)
  case (call_enqueue t v)
  obtain ns hi ti where inv: "lf_inv_at s ns hi ti" using assms(1) by (auto simp: lf_inv_def)
  have "n \<noteq> lf_brk s" if "n \<in> set ns" for n using that lf_inv_atD(1) [OF inv] by (auto simp: linked_def)
  then have "lf_value (enq_call t v s) n = lf_value s n" if "n \<in> set (drop (Suc hi) ns)" for n
    using that by (auto simp: enq_call_def dest: in_set_dropD)
  then have "lf_contents (enq_call t v s) = lf_contents s"
    using lf_contents_drop [OF inv] lf_contents_drop [OF lf_inv_alloc [OF inv]] by simp
  then show ?thesis using call_enqueue lf_invI [OF lf_inv_alloc [OF inv]] by (simp add: simulates_def)
next
  case (call_dequeue t)
  obtain ns hi ti where inv: "lf_inv_at s ns hi ti" using assms(1) by (auto simp: lf_inv_def)
  have "simulates s Tau (goto_pc t Deq_head s)" by (rule simulates_pc [OF inv]) (simp_all add: owns_def)
  then show ?thesis using call_dequeue by simp
next
  case (thread t)
  then show ?thesis using assms(1) lf_step_simulates by (auto simp: lf_inv_def)
qed

lemma lf_init_inv: "lf_init s \<Longrightarrow> lf_inv s"
  by (rule lf_invI [of s "[lf_head s]" 0 0], rule lf_inv_atI) (auto simp: lf_init_def linked_def at_idx_def owns_def)

definition lf_vis :: "'a lf_label \<Rightarrow> 'a lf_label option" where
  "lf_vis l = (case l of Tau \<Rightarrow> None | _ \<Rightarrow> Some l)"

lemma lf_vis_simps [simp]:
  "lf_vis Tau = None" "lf_vis (Linked v) = Some (Linked v)" "lf_vis (Taken v) = Some (Taken v)" "lf_vis Saw_empty = Some Saw_empty"
  by (simp_all add: lf_vis_def)

interpretation lf: refining_system lf_init lf_steps lf_inv lf_contents lf_vis fifo_step
proof
  fix s s' :: "'a lf_state" and l v
  show "lf_init s \<Longrightarrow> lf_inv s" by (rule lf_init_inv)
  show "lf_inv s \<Longrightarrow> lf_steps s l s' \<Longrightarrow> lf_inv s'" using lf_steps_simulates by (auto simp: simulates_def)
  show "lf_inv s \<Longrightarrow> lf_steps s l s' \<Longrightarrow> lf_vis l = Some v \<Longrightarrow> fifo_step (lf_contents s) v (lf_contents s')"
    using lf_steps_simulates [of s l s'] by (cases l) (auto simp: simulates_def)
  show "lf_inv s \<Longrightarrow> lf_steps s l s' \<Longrightarrow> lf_vis l = None \<Longrightarrow> lf_contents s' = lf_contents s"
    using lf_steps_simulates [of s l s'] by (cases l) (auto simp: simulates_def)
qed


section \<open>Properties\<close>

definition enqueued :: "'a lf_label list \<Rightarrow> 'a list" where
  "enqueued ls = List.map_filter (\<lambda>l. case l of Linked v \<Rightarrow> Some v | _ \<Rightarrow> None) ls"

definition dequeued :: "'a lf_label list \<Rightarrow> 'a list" where
  "dequeued ls = List.map_filter (\<lambda>l. case l of Taken v \<Rightarrow> Some v | _ \<Rightarrow> None) ls"

lemma queue_log_simps [simp]:
  "enqueued [] = []" "enqueued (Tau # ls) = enqueued ls" "enqueued (Linked v # ls) = v # enqueued ls"
  "enqueued (Taken v # ls) = enqueued ls" "enqueued (Saw_empty # ls) = enqueued ls"
  "dequeued [] = []" "dequeued (Tau # ls) = dequeued ls" "dequeued (Linked v # ls) = dequeued ls"
  "dequeued (Taken v # ls) = v # dequeued ls" "dequeued (Saw_empty # ls) = dequeued ls"
  by (simp_all add: enqueued_def dequeued_def List.map_filter_simps)

lemma fifo_log: "ev_runs fifo_step q (List.map_filter lf_vis ls) q' \<Longrightarrow> q @ enqueued ls = dequeued ls @ q'"
proof (induction ls arbitrary: q)
  case (Cons l ls)
  show ?case using Cons.prems by (cases l) (auto simp: List.map_filter_simps dest!: Cons.IH)
qed (simp add: List.map_filter_simps)

lemma lf_init_contents: "lf_init s \<Longrightarrow> lf_contents s = []"
proof -
  assume "lf_init s"
  then have "lf_inv_at s [lf_head s] 0 0" by (intro lf_inv_atI) (auto simp: lf_init_def linked_def at_idx_def owns_def)
  from lf_contents_drop [OF this] show ?thesis by simp
qed

lemma lf_run_log:
  assumes "lf_init s" "ev_runs lf_steps s ls s'"
  shows "enqueued ls = dequeued ls @ lf_contents s'"
  using fifo_log [OF lf.runs_refine [OF assms(2) lf_init_inv [OF assms(1)]]] lf_init_contents [OF assms(1)] by simp


definition lf_start :: "nat lf_state" where
  "lf_start = \<lparr>lf_next = (\<lambda>_. None), lf_value = (\<lambda>_. 0), lf_brk = 1, lf_head = 0, lf_tail = 0, lf_pcs = (\<lambda>_. Idle)\<rparr>"

lemma lf_start_init: "lf_init lf_start"
  by (simp add: lf_init_def lf_start_def)

definition lf_lagging :: "nat lf_state" where
  "lf_lagging = \<lparr>lf_next = [0 \<mapsto> 1], lf_value = (\<lambda>_. 0)(1 := 5, 2 := 6), lf_brk = 3, lf_head = 0, lf_tail = 0,
     lf_pcs = (\<lambda>_. Idle)(0 := Enq_swing 1 0, 1 := Enq_read 2)\<rparr>"

lemma lf_lagging_reachable: "ev_runs lf_steps lf_start [Tau, Tau, Tau, Linked 5] lf_lagging"
proof -
  define s1 where "s1 = enq_call 0 5 lf_start"
  define s2 where "s2 = enq_call 1 6 s1"
  define s3 where "s3 = goto_pc 0 (Enq_link 1 0) s2"
  have "lf_steps lf_start Tau s1" unfolding s1_def by (rule call_enqueue) (simp add: lf_start_def ready_def)
  moreover have "lf_steps s1 Tau s2" unfolding s2_def by (rule call_enqueue) (simp add: s1_def enq_call_def lf_start_def ready_def)
  moreover have "lf_steps s2 Tau s3" by (rule thread [of 0]) (simp add: s3_def s2_def s1_def lf_step_def enq_call_def lf_start_def)
  moreover have "lf_steps s3 (Linked 5) lf_lagging"
    by (rule thread [of 0]) (simp add: s3_def s2_def s1_def lf_step_def enq_call_def lf_start_def lf_lagging_def goto_pc_def fun_eq_iff numeral_2_eq_2)
  ultimately show ?thesis by auto
qed


text \<open>
  Enqueueing is not lock-free. While an enqueuer has linked its node but not yet swung
  the tail, every other enqueuer that runs goes round in a circle: two of its own steps lead back to
  the very same state, since \<open>_enqueue\<close> does not help to move the tail.
\<close>

theorem lfqueue_enqueue_spins:
  assumes "lf_pcs s t = Enq_read node" "lf_next s (lf_tail s) \<noteq> None"
  shows "\<exists>s1. lf_step t s = Some (Tau, s1) \<and> lf_step t s1 = Some (Tau, s)"
proof -
  have "lf_step t s = Some (Tau, goto_pc t (Enq_link node (lf_tail s)) s)" using assms(1) by (simp add: lf_step_def)
  moreover have "lf_step t (goto_pc t (Enq_link node (lf_tail s)) s) = Some (Tau, goto_pc t (Enq_read node) (goto_pc t (Enq_link node (lf_tail s)) s))"
    using assms(2) by (simp add: lf_step_def)
  moreover have "goto_pc t (Enq_read node) (goto_pc t (Enq_link node (lf_tail s)) s) = s"
    using assms(1) by (simp add: goto_pc_def fun_upd_idem)
  ultimately show ?thesis by simp
qed

theorem lfqueue_enqueue_spins_witness:
  "\<exists>s1. lf_step 1 lf_lagging = Some (Tau, s1) \<and> lf_step 1 s1 = Some (Tau, lf_lagging)"
  by (rule lfqueue_enqueue_spins [of _ _ 2]) (simp_all add: lf_lagging_def)

end
