(* ===== verification/Fifo_Spec.thy ===== *)
theory Fifo_Spec
  imports Prelude
begin

text \<open>
  The contract of a first-in first-out queue, shared by the two queues of the SDK. \<open>holds q vs\<close> says
  that the queue \<open>q\<close> is in order and contains \<open>vs\<close>; \<open>cap\<close> bounds the number of elements, if there
  is a bound. Every call takes what it needs from outside, such as the time, as its first argument.
\<close>

definition has_room :: "nat option \<Rightarrow> nat \<Rightarrow> bool" where
  "has_room cap n \<longleftrightarrow> (case cap of None \<Rightarrow> True | Some c \<Rightarrow> n \<le> c)"

locale fifo_queue =
  fixes holds :: "'q \<Rightarrow> 'a list \<Rightarrow> bool"
    and put :: "'e \<Rightarrow> 'q \<Rightarrow> 'a \<Rightarrow> 'q option"
    and get :: "'e \<Rightarrow> 'q \<Rightarrow> ('q \<times> 'a option) option"
    and cap :: "nat option"
  assumes put_holds: "holds q vs \<Longrightarrow> has_room cap (Suc (length vs)) \<Longrightarrow> \<exists>q'. put e q v = Some q' \<and> holds q' (vs @ [v])"
    and get_holds: "holds q (v # vs) \<Longrightarrow> \<exists>q'. get e q = Some (q', Some v) \<and> holds q' vs"
    and get_empty: "holds q [] \<Longrightarrow> \<exists>q'. get e q = Some (q', None) \<and> holds q' []"
begin

fun put_all :: "'q \<Rightarrow> ('e \<times> 'a) list \<Rightarrow> 'q option" where
  "put_all q [] = Some q"
| "put_all q (x # xs) = do { q \<leftarrow> put (fst x) q (snd x); put_all q xs }"

fun get_all :: "'e list \<Rightarrow> 'q \<Rightarrow> ('q \<times> 'a option list) option" where
  "get_all [] q = Some (q, [])"
| "get_all (e # es) q = do { (q, v) \<leftarrow> get e q; (q, vs) \<leftarrow> get_all es q; Some (q, v # vs) }"

lemma has_room_less: "has_room cap n \<Longrightarrow> m \<le> n \<Longrightarrow> has_room cap m"
  by (auto simp: has_room_def split: option.splits)

lemma put_all_holds:
  "holds q vs \<Longrightarrow> has_room cap (length vs + length xs) \<Longrightarrow> \<exists>q'. put_all q xs = Some q' \<and> holds q' (vs @ map snd xs)"
proof (induction xs arbitrary: q vs)
  case (Cons x xs)
  have "has_room cap (Suc (length vs))" using Cons.prems(2) by (rule has_room_less) simp
  from put_holds [OF Cons.prems(1) this, of "fst x" "snd x"] obtain q1 where
    q1: "put (fst x) q (snd x) = Some q1" "holds q1 (vs @ [snd x])" by blast
  from Cons.IH [OF q1(2)] Cons.prems(2) q1(1) show ?case by simp
qed auto

lemma get_all_holds:
  "holds q (vs @ ws) \<Longrightarrow> length es = length vs \<Longrightarrow> \<exists>q'. get_all es q = Some (q', map Some vs) \<and> holds q' ws"
proof (induction vs arbitrary: q es)
  case (Cons v vs)
  then obtain e es' where es: "es = e # es'" "length es' = length vs" by (cases es) auto
  from get_holds [of q v "vs @ ws" e] Cons.prems(1) obtain q1 where q1: "get e q = Some (q1, Some v)" "holds q1 (vs @ ws)" by auto
  from Cons.IH [OF q1(2) es(2)] q1(1) es(1) show ?case by auto
qed simp

text \<open>What is put comes out, in the same order; one more call finds the queue empty.\<close>

lemma put_all_get_all:
  assumes "holds q []" "has_room cap (length xs)" "length es = length xs"
  shows "\<exists>q1 q2 q3. put_all q xs = Some q1 \<and> get_all es q1 = Some (q2, map (\<lambda>x. Some (snd x)) xs) \<and> get e q2 = Some (q3, None) \<and> holds q3 []"
proof -
  obtain q1 where q1: "put_all q xs = Some q1" "holds q1 (map snd xs @ [])" using put_all_holds [OF assms(1), of xs] assms(2) by auto
  from get_all_holds [OF q1(2), of es] assms(3) obtain q2 where q2: "get_all es q1 = Some (q2, map Some (map snd xs))" "holds q2 []" by auto
  from get_empty [OF q2(2), of e] obtain q3 where "get e q2 = Some (q3, None)" "holds q3 []" by auto
  then show ?thesis using q1(1) q2(1) by (simp add: comp_def)
qed

end

end
