(* ===== verification/Mqueue.thy ===== *)
theory Mqueue
  imports Fifo_Spec
begin

text \<open>
  The functions of src/src/ld_mqueue.c as a thread that runs alone executes them, with the node store
  and the reclamation of retired nodes: \<open>_dequeue\<close> appends the old head to a list of retired
  nodes, and \<open>__lfq_check_free\<close> frees those of them that were retired at least a second ago, at most
  500 at a time and never the last. A compare-and-swap of a thread that runs alone succeeds exactly
  if the values agree; a retry loop that cannot make progress never returns. \<open>now\<close> is the current
  time in seconds. The interleavings of several threads are treated in \<open>Mqueue_Steps\<close>.
\<close>

section \<open>Data\<close>

record 'a lfqueue_cas_node_t =
  cn_value :: "'a option"
  cn_next :: "addr option"
  cn_nextfree :: "addr option"
  cn_deactivate_tm :: int

record 'a lfqueue_t =
  lq_mem :: "addr \<rightharpoonup> 'a lfqueue_cas_node_t"
  lq_brk :: addr
  lq_head :: addr
  lq_tail :: addr
  lq_root_free :: "addr option"
  lq_move_free :: addr
  lq_size :: u64
  lq_in_free_mode :: bool


section \<open>Operations\<close>

definition recycle_free :: "int \<Rightarrow> 'a lfqueue_t \<Rightarrow> addr \<Rightarrow> 'a lfqueue_t option" where
  "recycle_free now q freenode = do {
     fd \<leftarrow> lq_mem q (lq_move_free q);
     (if cn_nextfree fd \<noteq> None then None
      else do {
        let m = (lq_mem q)(lq_move_free q \<mapsto> fd\<lparr>cn_nextfree := Some freenode\<rparr>);
        nd \<leftarrow> m freenode;
        Some (q\<lparr>lq_mem := m(freenode \<mapsto> nd\<lparr>cn_deactivate_tm := now\<rparr>), lq_move_free := freenode\<rparr>) }) }"

text \<open>The loop of \<open>__lfq_check_free\<close>; a difference in whole seconds exceeds 0.5 if it is positive.\<close>

fun check_loop :: "nat \<Rightarrow> int \<Rightarrow> addr \<Rightarrow> (addr \<rightharpoonup> 'a lfqueue_cas_node_t) \<Rightarrow> addr option \<Rightarrow>
    ((addr \<rightharpoonup> 'a lfqueue_cas_node_t) \<times> addr option) option" where
  "check_loop 0 now move m rt = Some (m, rt)"
| "check_loop (Suc n) now move m rt =
     (case rt of
        None \<Rightarrow> Some (m, rt)
      | Some r \<Rightarrow>
          if r = move then Some (m, rt)
          else do {
            nd \<leftarrow> m r;
            if 2 * (now - cn_deactivate_tm nd) > 1 then check_loop n now move (m(r := None)) (cn_nextfree nd)
            else Some (m, rt) })"

definition check_free :: "int \<Rightarrow> 'a lfqueue_t \<Rightarrow> 'a lfqueue_t option" where
  "check_free now q =
     (if lq_in_free_mode q then Some q
      else do {
        (m, rt) \<leftarrow> check_loop 500 now (lq_move_free q) (lq_mem q) (lq_root_free q);
        Some (q\<lparr>lq_mem := m, lq_root_free := rt, lq_in_free_mode := False\<rparr>) })"

definition enqueue :: "bool \<Rightarrow> int \<Rightarrow> 'a lfqueue_t \<Rightarrow> 'a option \<Rightarrow> ('a lfqueue_t \<times> bool) option" where
  "enqueue ok now q v =
     (if \<not> ok then Some (q, False)
      else do {
        let node = lq_brk q;
        let m = (lq_mem q)(node \<mapsto> \<lparr>cn_value = v, cn_next = None, cn_nextfree = None, cn_deactivate_tm = 0\<rparr>);
        td \<leftarrow> m (lq_tail q);
        (if cn_next td \<noteq> None then None
         else do {
           q \<leftarrow> check_free now (q\<lparr>lq_brk := node + 1, lq_mem := m(lq_tail q \<mapsto> td\<lparr>cn_next := Some node\<rparr>), lq_tail := node\<rparr>);
           Some (q, True) }) })"

definition dequeue_take :: "int \<Rightarrow> 'a lfqueue_t \<Rightarrow> ('a lfqueue_t \<times> 'a option) option" where
  "dequeue_take now q = do {
     hd \<leftarrow> lq_mem q (lq_head q);
     n \<leftarrow> cn_next hd;
     nd \<leftarrow> lq_mem q n;
     q \<leftarrow> recycle_free now (q\<lparr>lq_head := n\<rparr>) (lq_head q);
     q \<leftarrow> check_free now q;
     Some (q, cn_value nd) }"

definition dequeue :: "int \<Rightarrow> 'a lfqueue_t \<Rightarrow> ('a lfqueue_t \<times> 'a option) option" where
  "dequeue now q = do {
     hd \<leftarrow> lq_mem q (lq_head q);
     (if lq_head q = lq_tail q then
        (case cn_next hd of
           None \<Rightarrow> Some (q, None)
         | Some n \<Rightarrow> if n = lq_head q then None else dequeue_take now (q\<lparr>lq_tail := n\<rparr>))
      else dequeue_take now q) }"

text \<open>The version for a single consumer frees the old head at once.\<close>

definition single_dequeue :: "'a lfqueue_t \<Rightarrow> ('a lfqueue_t \<times> 'a option) option" where
  "single_dequeue q = do {
     hd \<leftarrow> lq_mem q (lq_head q);
     (if lq_tail q = lq_head q then (if cn_next hd = None then Some (q, None) else None)
      else (case cn_next hd of
              None \<Rightarrow> Some (q, None)
            | Some n \<Rightarrow> do {
                nd \<leftarrow> lq_mem q n;
                Some (q\<lparr>lq_head := n, lq_mem := (lq_mem q)(lq_head q := None)\<rparr>, cn_value nd) })) }"

definition lfqueue_init_mf :: "bool \<Rightarrow> bool \<Rightarrow> 'a lfqueue_t option" where
  "lfqueue_init_mf base_ok freebase_ok =
     (if base_ok \<and> freebase_ok then
        Some \<lparr>lq_mem = (\<lambda>_. None)(0 \<mapsto> \<lparr>cn_value = None, cn_next = None, cn_nextfree = None, cn_deactivate_tm = 0\<rparr>,
                                 1 \<mapsto> \<lparr>cn_value = None, cn_next = None, cn_nextfree = None, cn_deactivate_tm = 0\<rparr>),
              lq_brk = 2, lq_head = 0, lq_tail = 0, lq_root_free = Some 1, lq_move_free = 1, lq_size = 0, lq_in_free_mode = False\<rparr>
      else None)"

definition lfqueue_put :: "bool \<Rightarrow> int \<Rightarrow> 'a lfqueue_t \<Rightarrow> 'a option \<Rightarrow> ('a lfqueue_t \<times> l_err) option" where
  "lfqueue_put ok now q v = do {
     (q, done) \<leftarrow> enqueue ok now q v;
     Some (if done then (q\<lparr>lq_size := lq_size q + 1\<rparr>, LD_OK) else (q, LD_ERR_QUEUE)) }"

definition lfqueue_deq :: "int \<Rightarrow> 'a lfqueue_t \<Rightarrow> ('a lfqueue_t \<times> 'a option) option" where
  "lfqueue_deq now q = do {
     (q, v) \<leftarrow> dequeue now q;
     Some (if v = None then (q, None) else (q\<lparr>lq_size := lq_size q - 1\<rparr>, v)) }"

definition lfqueue_get :: "int \<Rightarrow> 'a lfqueue_t \<Rightarrow> ('a lfqueue_t \<times> 'a option \<times> l_err) option" where
  "lfqueue_get now q = do {
     (q, v) \<leftarrow> lfqueue_deq now q;
     Some (q, v, if v = None then LD_ERR_QUEUE else LD_OK) }"

text \<open>
  The waiting versions retry until a value is there; the list holds what the other threads do to the
  queue during each pause.
\<close>

fun lfqueue_wait_while :: "int \<Rightarrow> ('a lfqueue_t \<Rightarrow> 'a lfqueue_t) list \<Rightarrow> 'a lfqueue_t \<Rightarrow> ('a lfqueue_t \<times> 'a option) option" where
  "lfqueue_wait_while now others q = do {
     (q, v) \<leftarrow> dequeue now q;
     (if v \<noteq> None then Some (q\<lparr>lq_size := lq_size q - 1\<rparr>, v)
      else (case others of [] \<Rightarrow> None | f # fs \<Rightarrow> lfqueue_wait_while now fs (f q))) }"

definition lfqueue_get_wait :: "int \<Rightarrow> ('a lfqueue_t \<Rightarrow> 'a lfqueue_t) list \<Rightarrow> 'a lfqueue_t \<Rightarrow> ('a lfqueue_t \<times> 'a option \<times> l_err) option" where
  "lfqueue_get_wait now others q = do {
     (q, v) \<leftarrow> lfqueue_wait_while now others q;
     Some (q, v, if v = None then LD_ERR_QUEUE else LD_OK) }"

definition lfqueue_single_deq :: "'a lfqueue_t \<Rightarrow> ('a lfqueue_t \<times> 'a option) option" where
  "lfqueue_single_deq q = do {
     (q, v) \<leftarrow> single_dequeue q;
     Some (if v = None then (q, None) else (q\<lparr>lq_size := lq_size q - 1\<rparr>, v)) }"

fun lfqueue_single_deq_must :: "('a lfqueue_t \<Rightarrow> 'a lfqueue_t) list \<Rightarrow> 'a lfqueue_t \<Rightarrow> ('a lfqueue_t \<times> 'a option) option" where
  "lfqueue_single_deq_must others q = do {
     (q, v) \<leftarrow> single_dequeue q;
     (if v \<noteq> None then Some (q\<lparr>lq_size := lq_size q - 1\<rparr>, v)
      else (case others of [] \<Rightarrow> None | f # fs \<Rightarrow> lfqueue_single_deq_must fs (f q))) }"

definition lfqueue_size :: "'a lfqueue_t \<Rightarrow> u64" where
  "lfqueue_size q = lq_size q"

text \<open>
  \<open>lfqueue_destroy\<close>: the values that are left are handed to the free function, then the retired
  nodes and the last node are freed. The drain loop runs at most once per node.
\<close>

fun drain :: "nat \<Rightarrow> int \<Rightarrow> 'a lfqueue_t \<Rightarrow> ('a lfqueue_t \<times> 'a list) option" where
  "drain 0 now q = None"
| "drain (Suc k) now q = do {
     (q, v) \<leftarrow> lfqueue_deq now q;
     (case v of
        None \<Rightarrow> Some (q, [])
      | Some p \<Rightarrow> do { (q, ps) \<leftarrow> drain k now q; Some (q, p # ps) }) }"

fun free_retired :: "nat \<Rightarrow> addr \<Rightarrow> (addr \<rightharpoonup> 'a lfqueue_cas_node_t) \<Rightarrow> addr option \<Rightarrow> (addr \<rightharpoonup> 'a lfqueue_cas_node_t) option" where
  "free_retired 0 move m rt = None"
| "free_retired (Suc k) move m rt =
     (case rt of
        None \<Rightarrow> Some m
      | Some r \<Rightarrow> if r = move then Some (m(r := None))
                  else do { nd \<leftarrow> m r; free_retired k move (m(r := None)) (cn_nextfree nd) })"

definition lfqueue_destroy :: "int \<Rightarrow> 'a lfqueue_t \<Rightarrow> ('a lfqueue_t \<times> 'a list) option" where
  "lfqueue_destroy now q = do {
     (q, ps) \<leftarrow> drain (Suc (lq_brk q)) now q;
     m \<leftarrow> free_retired (Suc (lq_brk q)) (lq_move_free q) (lq_mem q) (lq_root_free q);
     Some (q\<lparr>lq_mem := m(lq_tail q := None), lq_size := 0\<rparr>, ps) }"



section \<open>Chains of nodes\<close>

text \<open>\<open>links m f as\<close>: the pointer \<open>f\<close> leads from each of the nodes \<open>as\<close> to the next, and ends there.\<close>

fun links :: "(addr \<rightharpoonup> 'n) \<Rightarrow> ('n \<Rightarrow> addr option) \<Rightarrow> addr list \<Rightarrow> bool" where
  "links m f [] \<longleftrightarrow> True"
| "links m f [a] \<longleftrightarrow> map_option f (m a) = Some None"
| "links m f (a # b # as) \<longleftrightarrow> map_option f (m a) = Some (Some b) \<and> links m f (b # as)"

lemma links_cong: "(\<And>a. a \<in> set as \<Longrightarrow> map_option f (m a) = map_option f (m' a)) \<Longrightarrow> links m f as = links m' f as"
  by (induction m f as rule: links.induct) simp_all

lemma links_eqI: "links m f as \<Longrightarrow> (\<And>a. a \<in> set as \<Longrightarrow> m' a = m a) \<Longrightarrow> links m' f as"
  using links_cong [of as f m' m] by simp

lemma links_snoc:
  "links m f (as @ [t]) \<Longrightarrow> distinct (as @ [t, n]) \<Longrightarrow> map_option f (m' t) = Some (Some n) \<Longrightarrow> map_option f (m' n) = Some None \<Longrightarrow>
   (\<And>a. a \<in> set as \<Longrightarrow> map_option f (m' a) = map_option f (m a)) \<Longrightarrow> links m' f (as @ [t, n])"
proof (induction as)
  case (Cons a as)
  then have "links m f (as @ [t])" "links m' f (as @ [t, n])" by (cases as; simp)+
  then show ?case using Cons.prems(1,5) by (cases as) auto
qed simp

lemma links_tl: "links m f (a # as) \<Longrightarrow> links m f as"
  by (cases as) simp_all

lemma links_mem: "links m f as \<Longrightarrow> a \<in> set as \<Longrightarrow> m a \<noteq> None"
  by (induction m f as rule: links.induct) auto

lemma links_last: "links m f (as @ [t]) \<Longrightarrow> map_option f (m t) = Some None"
  by (induction m f "as @ [t]" arbitrary: as rule: links.induct) (auto simp: append_eq_Cons_conv Cons_eq_append_conv)

text \<open>The queue nodes \<open>qs\<close>, the first of them the dummy, and the retired nodes \<open>fs\<close>.\<close>

definition lq_rep :: "'a lfqueue_t \<Rightarrow> addr list \<Rightarrow> addr list \<Rightarrow> bool" where
  "lq_rep q qs fs \<longleftrightarrow> qs \<noteq> [] \<and> fs \<noteq> [] \<and> distinct (qs @ fs) \<and> (\<forall>a \<in> set (qs @ fs). a < lq_brk q) \<and>
     dom (lq_mem q) = set (qs @ fs) \<and>
     lq_head q = hd qs \<and> lq_tail q = last qs \<and> lq_root_free q = Some (hd fs) \<and> lq_move_free q = last fs \<and> \<not> lq_in_free_mode q \<and>
     links (lq_mem q) cn_next qs \<and> links (lq_mem q) cn_nextfree fs \<and> (\<forall>a \<in> set qs. map_option cn_nextfree (lq_mem q a) = Some None)"

definition node_value :: "'a lfqueue_t \<Rightarrow> addr \<Rightarrow> 'a option" where
  "node_value q a = Option.bind (lq_mem q a) cn_value"

definition lq_holds :: "'a lfqueue_t \<Rightarrow> 'a list \<Rightarrow> bool" where
  "lq_holds q vs \<longleftrightarrow> (\<exists>qs fs. lq_rep q qs fs \<and> map (node_value q) (tl qs) = map Some vs) \<and> lq_size q = of_nat (length vs)"

text \<open>\<open>__lfq_check_free\<close> removes a prefix of the retired nodes from the store and nothing else.\<close>

lemma restrict_map_UNIV [simp]: "m |` UNIV = m"
  by (simp add: restrict_map_def)

lemma check_loop_ok:
  assumes "distinct (fs @ [z])" "links m cn_nextfree (fs @ [z])"
  shows "\<exists>fs' m'. check_loop n now z m (Some (hd (fs @ [z]))) = Some (m', Some (hd (fs' @ [z]))) \<and>
     (\<exists>gone. fs = gone @ fs' \<and> m' = m |` (- set gone) \<and> length gone \<le> n) \<and> links m' cn_nextfree (fs' @ [z])"
  using assms
proof (induction n arbitrary: fs m)
  case 0
  then show ?case by (intro exI [of _ fs] exI [of _ m]) simp
next
  case (Suc n)
  show ?case
  proof (cases fs)
    case Nil
    then show ?thesis using Suc.prems by (intro exI [of _ "[]"] exI [of _ m]) simp
  next
    case (Cons r rs)
    then have r: "r \<noteq> z" "links m cn_nextfree (rs @ [z])" using Suc.prems links_tl by auto
    obtain nd where nd: "m r = Some nd" "cn_nextfree nd = Some (hd (rs @ [z]))"
      using Suc.prems(2) Cons by (cases rs) auto
    show ?thesis
    proof (cases "2 * (now - cn_deactivate_tm nd) > 1")
      case True
      have "links (m(r := None)) cn_nextfree (rs @ [z])"
        using r(2) by (rule links_eqI) (use Suc.prems(1) Cons in auto)
      moreover have "distinct (rs @ [z])" using Suc.prems(1) Cons by simp
      ultimately obtain fs' m' gone where
        *: "check_loop n now z (m(r := None)) (Some (hd (rs @ [z]))) = Some (m', Some (hd (fs' @ [z])))"
        "rs = gone @ fs'" "m' = (m(r := None)) |` (- set gone)" "length gone \<le> n" "links m' cn_nextfree (fs' @ [z])"
        using Suc.IH [of rs "m(r := None)"] by blast
      have "m' = m |` (- set (r # gone))" using *(3) by (auto simp: restrict_map_def fun_eq_iff)
      moreover have "check_loop (Suc n) now z m (Some (hd (fs @ [z]))) = Some (m', Some (hd (fs' @ [z])))"
        using *(1) Cons r(1) nd True by simp
      ultimately show ?thesis using *(2,4,5) Cons
        by (intro exI [of _ fs'] exI [of _ m'] conjI exI [of _ "r # gone"]) auto
    next
      case False
      then show ?thesis using Suc.prems Cons r(1) nd by (intro exI [of _ fs] exI [of _ m]) simp
    qed
  qed
qed


lemma check_free_ok:
  assumes "lq_rep q qs fs"
  shows "\<exists>q' fs'. check_free now q = Some q' \<and> lq_rep q' qs fs' \<and> (\<forall>a \<in> set qs. lq_mem q' a = lq_mem q a) \<and>
     lq_size q' = lq_size q \<and> lq_brk q' = lq_brk q"
proof -
  define gs z where "gs = butlast fs" and "z = last fs"
  have fs: "fs = gs @ [z]" using assms by (simp add: lq_rep_def gs_def z_def)
  from check_loop_ok [of gs z "lq_mem q" 500 now] assms fs obtain gs' m' gone where
    *: "check_loop 500 now z (lq_mem q) (Some (hd fs)) = Some (m', Some (hd (gs' @ [z])))"
    "gs = gone @ gs'" "m' = lq_mem q |` (- set gone)" "links m' cn_nextfree (gs' @ [z])" by (auto simp: lq_rep_def)
  define q' where "q' = q\<lparr>lq_mem := m', lq_root_free := Some (hd (gs' @ [z])), lq_in_free_mode := False\<rparr>"
  have m: "m' a = lq_mem q a" if "a \<in> set qs" for a using that assms fs *(2,3) by (auto simp: lq_rep_def restrict_map_def)
  have "check_free now q = Some q'" using *(1) assms by (simp add: check_free_def q'_def lq_rep_def fs)
  moreover have "lq_rep q' qs (gs' @ [z])"
    using assms * fs m links_eqI [of "lq_mem q" cn_next qs m'] by (auto simp: lq_rep_def q'_def)
  moreover have "lq_size q' = lq_size q" "lq_brk q' = lq_brk q" "\<forall>a \<in> set qs. lq_mem q' a = lq_mem q a" using m by (simp_all add: q'_def)
  ultimately show ?thesis by blast
qed

lemma enqueue_ok:
  assumes "lq_rep q qs fs"
  shows "\<exists>q' n fs'. enqueue True now q v = Some (q', True) \<and> lq_rep q' (qs @ [n]) fs' \<and> node_value q' n = v \<and>
     (\<forall>a \<in> set qs. node_value q' a = node_value q a) \<and> lq_size q' = lq_size q"
proof -
  define n where "n = lq_brk q"
  define ps t where "ps = butlast qs" and "t = last qs"
  have qs: "qs = ps @ [t]" using assms by (simp add: lq_rep_def ps_def t_def)
  have n: "n \<notin> set qs" "n \<notin> set fs" using assms by (auto simp: lq_rep_def n_def)
  obtain td where td: "lq_mem q t = Some td" "cn_next td = None" "cn_nextfree td = None"
    using links_last [of "lq_mem q" cn_next ps t] assms qs by (auto simp: lq_rep_def)
  define m where "m = (lq_mem q)(n \<mapsto> \<lparr>cn_value = v, cn_next = None, cn_nextfree = None, cn_deactivate_tm = 0\<rparr>, t \<mapsto> td\<lparr>cn_next := Some n\<rparr>)"
  define q1 where "q1 = q\<lparr>lq_brk := n + 1, lq_mem := m, lq_tail := n\<rparr>"
  have t: "t \<noteq> n" "t \<notin> set fs" "lq_tail q = t" using n assms qs by (auto simp: lq_rep_def)
  have "links m cn_next (ps @ [t, n])"
    using assms qs n t td by (intro links_snoc [of "lq_mem q"]) (auto simp: lq_rep_def m_def)
  moreover have "links (lq_mem q) cn_nextfree fs" using assms by (simp add: lq_rep_def)
  then have "links m cn_nextfree fs" by (rule links_eqI) (use n t in \<open>auto simp: m_def\<close>)
  moreover have "dom m = set (qs @ [n] @ fs)" using assms qs by (auto simp: lq_rep_def m_def)
  moreover have "\<forall>a \<in> set (qs @ [n]). map_option cn_nextfree (m a) = Some None" using assms td by (auto simp: lq_rep_def m_def)
  moreover have "hd (qs @ [n]) = hd qs" using qs by (cases ps) simp_all
  ultimately have "lq_rep q1 (qs @ [n]) fs" using assms n qs by (auto simp: lq_rep_def q1_def n_def less_SucI)
  from check_free_ok [OF this, of now] obtain q' fs' where q': "check_free now q1 = Some q'" "lq_rep q' (qs @ [n]) fs'"
    "\<forall>a \<in> set (qs @ [n]). lq_mem q' a = lq_mem q1 a" "lq_size q' = lq_size q1" by blast
  have "enqueue True now q v = Some (q', True)"
    using q'(1) t td by (simp add: enqueue_def Let_def n_def [symmetric] q1_def m_def fun_upd_twist)
  moreover have "node_value q' n = v" "\<forall>a \<in> set qs. node_value q' a = node_value q a"
    using q'(3) n t td by (auto simp: node_value_def q1_def m_def)
  ultimately show ?thesis using q'(2,4) by (auto simp: q1_def)
qed

lemma recycle_free_ok:
  assumes "lq_rep q (a # b # qs) fs"
  shows "\<exists>q'. recycle_free now (q\<lparr>lq_head := b\<rparr>) a = Some q' \<and> lq_rep q' (b # qs) (fs @ [a]) \<and>
     (\<forall>c \<in> set (b # qs). lq_mem q' c = lq_mem q c) \<and> lq_size q' = lq_size q"
proof -
  define gs z where "gs = butlast fs" and "z = last fs"
  have fs: "fs = gs @ [z]" using assms by (simp add: lq_rep_def gs_def z_def)
  obtain fd where fd: "lq_mem q z = Some fd" "cn_nextfree fd = None"
    using links_last [of "lq_mem q" cn_nextfree gs z] assms fs by (auto simp: lq_rep_def)
  have az: "a \<noteq> z" "a \<notin> set gs" "a \<notin> set (b # qs)" "z \<notin> set (b # qs)" using assms fs by (auto simp: lq_rep_def)
  obtain nd where nd: "lq_mem q a = Some nd" "cn_nextfree nd = None" using assms by (auto simp: lq_rep_def)
  define m where "m = (lq_mem q)(z \<mapsto> fd\<lparr>cn_nextfree := Some a\<rparr>, a \<mapsto> nd\<lparr>cn_deactivate_tm := now\<rparr>)"
  define q' where "q' = q\<lparr>lq_head := b, lq_mem := m, lq_move_free := a\<rparr>"
  have mv: "lq_move_free q = z" using assms fs by (simp add: lq_rep_def)
  have "recycle_free now (q\<lparr>lq_head := b\<rparr>) a = Some q'"
    using fd nd az(1) mv by (simp add: recycle_free_def q'_def m_def Let_def)
  moreover have same: "m c = lq_mem q c" if "c \<in> set (b # qs)" for c using that az by (auto simp: m_def)
  moreover have "lq_rep q' (b # qs) (fs @ [a])"
  proof -
    have "links m cn_nextfree (gs @ [z, a])"
      using assms fs az nd by (intro links_snoc [of "lq_mem q"]) (auto simp: lq_rep_def m_def)
    moreover have "links m cn_next (b # qs)"
      using assms same links_eqI [of "lq_mem q" cn_next "b # qs" m] by (auto simp: lq_rep_def)
    moreover have "dom m = set ((b # qs) @ fs @ [a])" using assms fs fd(1) nd(1) by (auto simp: lq_rep_def m_def)
    moreover have "hd (gs @ [z, a]) = hd fs" using fs by (cases gs) simp_all
    ultimately show ?thesis using assms fs same by (auto simp: lq_rep_def q'_def)
  qed
  ultimately show ?thesis by (auto simp: q'_def)
qed

lemma dequeue_ok:
  assumes "lq_rep q (a # b # qs) fs"
  shows "\<exists>q' fs'. dequeue now q = Some (q', node_value q b) \<and> lq_rep q' (b # qs) fs' \<and>
     (\<forall>c \<in> set (b # qs). node_value q' c = node_value q c) \<and> lq_size q' = lq_size q"
proof -
  obtain q1 where q1: "recycle_free now (q\<lparr>lq_head := b\<rparr>) a = Some q1" "lq_rep q1 (b # qs) (fs @ [a])"
    "\<forall>c \<in> set (b # qs). lq_mem q1 c = lq_mem q c" "lq_size q1 = lq_size q" using recycle_free_ok [OF assms] by blast
  obtain q' fs' where q': "check_free now q1 = Some q'" "lq_rep q' (b # qs) fs'" "\<forall>c \<in> set (b # qs). lq_mem q' c = lq_mem q1 c" "lq_size q' = lq_size q1"
    using check_free_ok [OF q1(2)] by blast
  obtain hd nd where nd: "lq_mem q a = Some hd" "cn_next hd = Some b" "lq_mem q b = Some nd" using assms by (auto simp: lq_rep_def)
  have "lq_head q = a" "lq_tail q \<noteq> a" using assms last_in_set [of "b # qs"] by (auto simp: lq_rep_def)
  then have "dequeue now q = Some (q', node_value q b)"
    using nd q1(1) q'(1) by (simp add: dequeue_def dequeue_take_def node_value_def)
  then show ?thesis using q1(3,4) q'(2-4) by (auto simp: node_value_def)
qed

lemma dequeue_empty: "lq_rep q [a] fs \<Longrightarrow> dequeue now q = Some (q, None)"
  by (auto simp: lq_rep_def dequeue_def)


section \<open>A first-in first-out queue\<close>

definition lq_put :: "int \<Rightarrow> 'a lfqueue_t \<Rightarrow> 'a \<Rightarrow> 'a lfqueue_t option" where
  "lq_put now q v = do { (q, e) \<leftarrow> lfqueue_put True now q (Some v); if e = LD_OK then Some q else None }"

definition lq_get :: "int \<Rightarrow> 'a lfqueue_t \<Rightarrow> ('a lfqueue_t \<times> 'a option) option" where
  "lq_get now q = do { (q, v, e) \<leftarrow> lfqueue_get now q; if (e = LD_OK) = (v \<noteq> None) then Some (q, v) else None }"

lemma lq_rep_size [simp]: "lq_rep (q\<lparr>lq_size := n\<rparr>) qs fs = lq_rep q qs fs" "node_value (q\<lparr>lq_size := n\<rparr>) = node_value q"
  by (simp_all add: lq_rep_def node_value_def fun_eq_iff)

interpretation lfq: fifo_queue lq_holds lq_put lq_get None
proof
  fix q :: "'a lfqueue_t" and vs v and now :: int
  show "\<exists>q'. lq_put now q v = Some q' \<and> lq_holds q' (vs @ [v])" if q: "lq_holds q vs" "has_room None (Suc (length vs))"
  proof -
    from q(1) obtain qs fs where r: "lq_rep q qs fs" "map (node_value q) (tl qs) = map Some vs" "lq_size q = of_nat (length vs)"
      by (auto simp: lq_holds_def)
    from enqueue_ok [OF r(1), of now "Some v"] obtain q' n fs' where e: "enqueue True now q (Some v) = Some (q', True)" "lq_rep q' (qs @ [n]) fs'"
      "node_value q' n = Some v" "\<forall>a \<in> set qs. node_value q' a = node_value q a" "lq_size q' = lq_size q" by blast
    have "qs \<noteq> []" using r(1) by (simp add: lq_rep_def)
    then have "map (node_value q') (tl (qs @ [n])) = map Some (vs @ [v])"
      using r(2) e(3,4) by (cases qs) (auto simp: list.map_comp [symmetric] cong: map_cong)
    then have "lq_holds (q'\<lparr>lq_size := lq_size q' + 1\<rparr>) (vs @ [v])" using e(2,5) r(3) by (auto simp: lq_holds_def)
    then show ?thesis using e(1) by (simp add: lq_put_def lfqueue_put_def)
  qed
  show "\<exists>q'. lq_get now q = Some (q', Some v) \<and> lq_holds q' vs" if q: "lq_holds q (v # vs)"
  proof -
    from q obtain ps fs where ps: "lq_rep q ps fs" "map (node_value q) (tl ps) = Some v # map Some vs" "lq_size q = of_nat (Suc (length vs))"
      by (auto simp: lq_holds_def)
    obtain b qs where b: "tl ps = b # qs" "node_value q b = Some v" "map (node_value q) qs = map Some vs" using ps(2) by (auto simp: map_eq_Cons_conv)
    moreover obtain a where "ps = a # b # qs" using ps(1) b(1) by (cases ps) (auto simp: lq_rep_def)
    ultimately have r: "lq_rep q (a # b # qs) fs" "node_value q b = Some v" "map (node_value q) qs = map Some vs" "lq_size q = of_nat (Suc (length vs))"
      using ps by simp_all
    from dequeue_ok [OF r(1), of now] obtain q' fs' where d: "dequeue now q = Some (q', node_value q b)" "lq_rep q' (b # qs) fs'"
      "\<forall>c \<in> set (b # qs). node_value q' c = node_value q c" "lq_size q' = lq_size q" by blast
    have "map (node_value q') qs = map Some vs" using r(3) d(3) by (metis list.set_intros(2) map_eq_conv)
    then have "lq_holds (q'\<lparr>lq_size := lq_size q' - 1\<rparr>) vs" using d(2,4) r(4) unfolding lq_holds_def
      by (intro conjI exI [of _ "b # qs"] exI [of _ fs']) simp_all
    then show ?thesis using d(1) r(2) by (simp add: lq_get_def lfqueue_get_def lfqueue_deq_def)
  qed
  show "\<exists>q'. lq_get now q = Some (q', None) \<and> lq_holds q' []" if q: "lq_holds q []"
  proof -
    from q obtain ps fs where ps: "lq_rep q ps fs" "tl ps = []" by (auto simp: lq_holds_def)
    moreover from ps obtain a where "ps = [a]" by (cases ps) (auto simp: lq_rep_def)
    ultimately have "lq_rep q [a] fs" by simp
    from dequeue_empty [OF this] q show ?thesis by (simp add: lq_get_def lfqueue_get_def lfqueue_deq_def)
  qed
qed



section \<open>Properties\<close>

lemma lfqueue_init_rep: "lfqueue_init_mf True True = Some q \<Longrightarrow> lq_rep q [0] [1] \<and> lq_size q = 0"
  by (auto simp: lfqueue_init_mf_def lq_rep_def split: if_splits)

lemma lfqueue_init_holds: "lfqueue_init_mf True True = Some q \<Longrightarrow> lq_holds q []"
  using lfqueue_init_rep [of q] unfolding lq_holds_def by fastforce

text \<open>
  Used by one thread at a time, the queue is first-in first-out, its size counter is
  exact and no operation touches a node that has been freed, whatever the times of the calls are
  and however many retired nodes they free: after putting a list of values, as many calls of get
  return them in order, and the next one reports an empty queue.
\<close>

theorem lfqueue_sequential_fifo:
  assumes "lfqueue_init_mf True True = Some q" "length es = length xs"
  shows "\<exists>q1 q2 q3. lfq.put_all q xs = Some q1 \<and> lfqueue_size q1 = of_nat (length xs) \<and>
     lfq.get_all es q1 = Some (q2, map (\<lambda>x. Some (snd x)) xs) \<and> lfqueue_get now q2 = Some (q3, None, LD_ERR_QUEUE)"
proof -
  note q = lfqueue_init_holds [OF assms(1)]
  from lfq.put_all_holds [OF q, of xs] obtain q1 where q1: "lfq.put_all q xs = Some q1" "lq_holds q1 (map snd xs)"
    by (auto simp: has_room_def)
  from lfq.put_all_get_all [OF q, of xs es now] assms(2) q1(1) obtain q2 q3 where
    "lfq.get_all es q1 = Some (q2, map (\<lambda>x. Some (snd x)) xs)" "lq_get now q2 = Some (q3, None)"
    by (auto simp: has_room_def)
  moreover have "lfqueue_size q1 = of_nat (length xs)" using q1(2) by (simp add: lq_holds_def lfqueue_size_def)
  ultimately show ?thesis using q1(1) by (auto simp: lq_get_def lfqueue_get_def split: bind_splits if_splits)
qed

theorem lfqueue_sequential_fifo_witness:
  "\<exists>q1 q2 q3. lfq.put_all (the (lfqueue_init_mf True True)) [(0, 5), (3, 6 :: nat)] = Some q1 \<and> lfqueue_size q1 = 2 \<and>
     lfq.get_all [4, 9] q1 = Some (q2, [Some 5, Some 6]) \<and> lfqueue_get 9 q2 = Some (q3, None, LD_ERR_QUEUE)"
  using lfqueue_sequential_fifo [of "the (lfqueue_init_mf True True)" "[4, 9]" "[(0, 5), (3, 6 :: nat)]" 9]
  by (simp add: lfqueue_init_mf_def)

text \<open>
  A null value corrupts the queue's size. Putting NULL succeeds and counts, but the get
  that removes it reports an empty queue and does not count it off: the size stays one too high for
  good, and a value behind it is missed by that call.
\<close>

theorem lfqueue_null_value_miscounts:
  assumes "lq_rep q qs fs" "tl qs = []"
  shows "\<exists>q1 q2. lfqueue_put True now q None = Some (q1, LD_OK) \<and> lfqueue_get now q1 = Some (q2, None, LD_ERR_QUEUE) \<and>
     (\<exists>a fs'. lq_rep q2 [a] fs') \<and> lfqueue_size q2 = lfqueue_size q + 1"
proof -
  obtain a where qs: "qs = [a]" using assms by (cases qs) (auto simp: lq_rep_def)
  from enqueue_ok [OF assms(1), of now None] qs obtain q1 n fs1 where e: "enqueue True now q None = Some (q1, True)" "lq_rep q1 [a, n] fs1"
    "node_value q1 n = None" "lq_size q1 = lq_size q" by auto
  define q1' where "q1' = q1\<lparr>lq_size := lq_size q1 + 1\<rparr>"
  have "lq_rep q1' [a, n] fs1" using e(2) by (simp add: q1'_def)
  from dequeue_ok [OF this, of now] obtain q2 fs2 where d: "dequeue now q1' = Some (q2, node_value q1' n)" "lq_rep q2 [n] fs2" "lq_size q2 = lq_size q1'" by blast
  have "lfqueue_put True now q None = Some (q1', LD_OK)" using e(1) by (simp add: lfqueue_put_def q1'_def)
  moreover have "lfqueue_get now q1' = Some (q2, None, LD_ERR_QUEUE)"
    using d(1) e(3) by (simp add: lfqueue_get_def lfqueue_deq_def q1'_def)
  ultimately show ?thesis using d(2,3) e(4) by (auto simp: lfqueue_size_def q1'_def)
qed

theorem lfqueue_null_value_miscounts_witness:
  "\<exists>q1 q2 :: nat lfqueue_t. lfqueue_put True 0 (the (lfqueue_init_mf True True)) None = Some (q1, LD_OK) \<and>
     lfqueue_get 0 q1 = Some (q2, None, LD_ERR_QUEUE) \<and> lfqueue_size q2 = 1"
proof -
  have "lq_rep (the (lfqueue_init_mf True True) :: nat lfqueue_t) [0] [1]"
    using lfqueue_init_rep [of "the (lfqueue_init_mf True True)"] by (simp add: lfqueue_init_mf_def)
  from lfqueue_null_value_miscounts [OF this, of 0] show ?thesis by (auto simp: lfqueue_size_def lfqueue_init_mf_def)
qed

end
