(* ===== verification/Aqueue.thy ===== *)
theory Aqueue
  imports Fifo_Spec
begin

text \<open>
  The bounded queue of src/src/ld_aqueue.c for many producers and one consumer, here as one thread
  at a time uses it. The counter and the head are \<open>size_t\<close>: the head is a ticket number that only
  grows, wraps around at 64 bits and is reduced modulo the capacity at every use, which is right
  exactly because the capacity is a power of two. The interleavings of producers are treated in
  \<open>Aqueue_Steps\<close>.
\<close>

section \<open>Data and operations\<close>

record 'a ld_aqueue_t =
  aq_count :: u64
  aq_head :: u64
  aq_tail :: nat
  aq_max :: nat
  aq_buffer :: "'a option list"
  aq_flags :: bool

definition ld_aqueue_create :: "bool \<Rightarrow> nat \<Rightarrow> 'a ld_aqueue_t" where
  "ld_aqueue_create given capacity =
     \<lparr>aq_count = 0, aq_head = 0, aq_tail = 0, aq_max = capacity, aq_buffer = replicate capacity None, aq_flags = (\<not> given)\<rparr>"

text \<open>\<open>ld_aqueue_destroy\<close> frees the buffer, and the queue itself if it was allocated by create.\<close>

definition ld_aqueue_destroy :: "'a ld_aqueue_t \<Rightarrow> bool" where
  "ld_aqueue_destroy q = aq_flags q"

definition ld_aqueue_enqueue :: "'a ld_aqueue_t \<Rightarrow> 'a option \<Rightarrow> ('a ld_aqueue_t \<times> bool) option" where
  "ld_aqueue_enqueue q obj =
     (let count = aq_count q; q = q\<lparr>aq_count := count + 1\<rparr> in
      if unat count \<ge> aq_max q then Some (q\<lparr>aq_count := aq_count q - 1\<rparr>, False)
      else let i = unat (aq_head q) mod aq_max q; q = q\<lparr>aq_head := aq_head q + 1\<rparr> in
        if \<not> i < length (aq_buffer q) \<or> aq_buffer q ! i \<noteq> None then None
        else Some (q\<lparr>aq_buffer := (aq_buffer q)[i := obj]\<rparr>, True))"

definition ld_aqueue_dequeue :: "'a ld_aqueue_t \<Rightarrow> ('a ld_aqueue_t \<times> 'a option) option" where
  "ld_aqueue_dequeue q =
     (if \<not> aq_tail q < length (aq_buffer q) then None
      else let ret = aq_buffer q ! aq_tail q; q = q\<lparr>aq_buffer := (aq_buffer q)[aq_tail q := None]\<rparr> in
        if ret = None then Some (q, None)
        else let q = q\<lparr>aq_tail := (if aq_max q \<le> aq_tail q + 1 then 0 else aq_tail q + 1)\<rparr> in
          if aq_count q = 0 then None
          else Some (q\<lparr>aq_count := aq_count q - 1\<rparr>, ret))"

definition ld_aqueue_count :: "'a ld_aqueue_t \<Rightarrow> u64" where
  "ld_aqueue_count q = aq_count q"

definition ld_aqueue_capacity :: "'a ld_aqueue_t \<Rightarrow> nat" where
  "ld_aqueue_capacity q = aq_max q"


section \<open>A bounded first-in first-out queue\<close>

text \<open>The capacity \<open>c\<close> is a power of two, at most \<open>2 ^ 63\<close>.\<close>

definition pow2_cap :: "nat \<Rightarrow> bool" where
  "pow2_cap c \<longleftrightarrow> (\<exists>k < 64. c = 2 ^ k)"

definition aq_holds :: "nat \<Rightarrow> 'a ld_aqueue_t \<Rightarrow> 'a list \<Rightarrow> bool" where
  "aq_holds c q vs \<longleftrightarrow> pow2_cap c \<and> aq_max q = c \<and> length (aq_buffer q) = c \<and> aq_tail q < c \<and> length vs \<le> c \<and>
     aq_count q = of_nat (length vs) \<and> unat (aq_head q) mod c = (aq_tail q + length vs) mod c \<and>
     (\<forall>i < c. aq_buffer q ! ((aq_tail q + i) mod c) = (if i < length vs then Some (vs ! i) else None))"

lemma pow2_cap_bounds: "pow2_cap c \<Longrightarrow> 0 < c \<and> c < 2 ^ 64"
  using power_strict_increasing [of _ 64 "2::nat"] by (auto simp: pow2_cap_def simp del: power_numeral)

lemma unat_Suc_mod: "pow2_cap c \<Longrightarrow> unat (w + 1 :: u64) mod c = Suc (unat w) mod c"
proof -
  assume "pow2_cap c"
  then obtain k where k: "k < 64" "c = 2 ^ k" by (auto simp: pow2_cap_def)
  then have "c dvd 2 ^ 64" using le_imp_power_dvd [of k 64 "2::nat"] by (metis less_imp_le_nat)
  then have "Suc (unat w) mod 2 ^ 64 mod c = Suc (unat w) mod c" by (rule mod_mod_cancel)
  moreover have "unat (w + 1) = Suc (unat w) mod 2 ^ 64" by (simp add: unat_word_ariths)
  ultimately show ?thesis by simp
qed

definition aq_put :: "unit \<Rightarrow> 'a ld_aqueue_t \<Rightarrow> 'a \<Rightarrow> 'a ld_aqueue_t option" where
  "aq_put _ q v = do { (q, ok) \<leftarrow> ld_aqueue_enqueue q (Some v); if ok then Some q else None }"

definition aq_get :: "unit \<Rightarrow> 'a ld_aqueue_t \<Rightarrow> ('a ld_aqueue_t \<times> 'a option) option" where
  "aq_get _ q = ld_aqueue_dequeue q"

lemma aq_enqueue_holds:
  assumes "aq_holds c q vs" "length vs < c"
  shows "\<exists>q'. ld_aqueue_enqueue q (Some v) = Some (q', True) \<and> aq_holds c q' (vs @ [v])"
proof -
  note h = assms(1) [unfolded aq_holds_def]
  have c: "0 < c" "c < 2 ^ 64" using h pow2_cap_bounds by auto
  define i where "i = unat (aq_head q) mod c"
  have i: "i = (aq_tail q + length vs) mod c" "i < c" using h c by (simp_all add: i_def)
  have free: "aq_buffer q ! i = None" using h assms(2) i(1) by simp
  have cnt: "unat (aq_count q) = length vs" using h c by (simp add: unat_of_nat_small)
  define q' where "q' = q\<lparr>aq_count := aq_count q + 1, aq_head := aq_head q + 1, aq_buffer := (aq_buffer q)[i := Some v]\<rparr>"
  have "ld_aqueue_enqueue q (Some v) = Some (q', True)"
    using h assms(2) cnt free i(2) by (simp add: ld_aqueue_enqueue_def Let_def q'_def i_def [symmetric])
  moreover have "unat (aq_head q + 1) mod c = (aq_tail q + length (vs @ [v])) mod c"
    using h unat_Suc_mod [of c "aq_head q"] by (metis add_Suc_right length_append_singleton mod_Suc_eq)
  moreover have "(aq_buffer q)[i := Some v] ! ((aq_tail q + j) mod c) = (if j < length (vs @ [v]) then Some ((vs @ [v]) ! j) else None)" if "j < c" for j
  proof (cases "j = length vs")
    case True
    then show ?thesis using i h by simp
  next
    case False
    then have "(aq_tail q + j) mod c \<noteq> i" using slot_inj [of "aq_tail q" c j "length vs"] that h assms(2) i(1) by auto
    then show ?thesis using False that h by (auto simp: nth_append)
  qed
  ultimately show ?thesis using h assms(2) by (auto simp: aq_holds_def q'_def add.commute)
qed

lemma aq_dequeue_holds:
  assumes "aq_holds c q (v # vs)"
  shows "\<exists>q'. ld_aqueue_dequeue q = Some (q', Some v) \<and> aq_holds c q' vs"
proof -
  note h = assms [unfolded aq_holds_def]
  have c: "0 < c" "c < 2 ^ 64" using h pow2_cap_bounds by auto
  have at0: "aq_buffer q ! aq_tail q = Some v" using h c(1) by (metis add.right_neutral length_greater_0_conv list.distinct(1) mod_less nth_Cons_0)
  have cnt: "aq_count q \<noteq> 0" "aq_count q - 1 = of_nat (length vs)"
  proof -
    have "unat (aq_count q) = Suc (length vs)" using h c unat_of_nat_small [where 'a = 64, of "Suc (length vs)"] by auto
    then show "aq_count q \<noteq> 0" by auto
  qed (use h in simp)
  define t where "t = Suc (aq_tail q) mod c"
  have t: "(if c \<le> aq_tail q + 1 then 0 else aq_tail q + 1) = t" using h by (auto simp: t_def mod_Suc)
  define q' where "q' = q\<lparr>aq_buffer := (aq_buffer q)[aq_tail q := None], aq_tail := t, aq_count := aq_count q - 1\<rparr>"
  have "ld_aqueue_dequeue q = Some (q', Some v)"
    using h at0 cnt(1) unfolding ld_aqueue_dequeue_def Let_def q'_def t [symmetric] by simp
  moreover have "unat (aq_head q) mod c = (t + length vs) mod c" using h by (simp add: t_def mod_add_left_eq)
  moreover have "(aq_buffer q)[aq_tail q := None] ! ((t + i) mod c) = (if i < length vs then Some (vs ! i) else None)" if i: "i < c" for i
  proof -
    have e: "(t + i) mod c = (aq_tail q + Suc i) mod c" by (simp add: t_def mod_add_left_eq)
    show ?thesis
    proof (cases "Suc i < c")
      case True
      then have "(aq_tail q + Suc i) mod c \<noteq> aq_tail q" using slot_inj [of "aq_tail q" c "Suc i" 0] h by auto
      moreover have "aq_buffer q ! ((aq_tail q + Suc i) mod c) = (if i < length vs then Some (vs ! i) else None)"
        using h True nth_Cons_Suc [of v vs i] by (metis (no_types, lifting) Suc_less_eq length_Cons)
      ultimately show ?thesis unfolding e by simp
    next
      case False
      then have "(aq_tail q + Suc i) mod c = aq_tail q" using i h by (metis Suc_lessI mod_add_self2 mod_less)
      then show ?thesis unfolding e using False i h by auto
    qed
  qed
  ultimately show ?thesis using h cnt(2) c(1) by (auto simp: aq_holds_def q'_def t_def)
qed

lemma aq_dequeue_empty:
  assumes "aq_holds c q []"
  shows "ld_aqueue_dequeue q = Some (q, None)"
proof -
  have "aq_buffer q ! aq_tail q = None" "aq_tail q < length (aq_buffer q)" using assms by (auto simp: aq_holds_def dest: spec [of _ 0])
  moreover from this have "(aq_buffer q)[aq_tail q := None] = aq_buffer q" by (metis list_update_id)
  ultimately show ?thesis by (simp add: ld_aqueue_dequeue_def Let_def)
qed

interpretation aq: fifo_queue "aq_holds c" aq_put aq_get "Some c" for c
proof
  fix q :: "'a ld_aqueue_t" and vs v and e :: unit
  show "aq_holds c q vs \<Longrightarrow> has_room (Some c) (Suc (length vs)) \<Longrightarrow> \<exists>q'. aq_put e q v = Some q' \<and> aq_holds c q' (vs @ [v])"
    using aq_enqueue_holds [of c q vs v] by (auto simp: aq_put_def has_room_def)
  show "aq_holds c q (v # vs) \<Longrightarrow> \<exists>q'. aq_get e q = Some (q', Some v) \<and> aq_holds c q' vs"
    using aq_dequeue_holds [of c q v vs] by (auto simp: aq_get_def)
  show "aq_holds c q [] \<Longrightarrow> \<exists>q'. aq_get e q = Some (q', None) \<and> aq_holds c q' []"
    using aq_dequeue_empty [of c q] by (auto simp: aq_get_def)
qed


section \<open>Properties\<close>

lemma aq_create_holds: "pow2_cap c \<Longrightarrow> aq_holds c (ld_aqueue_create given c) []"
  using pow2_cap_bounds [of c] by (simp add: aq_holds_def ld_aqueue_create_def)

lemma aq_enqueue_full: "aq_holds c q vs \<Longrightarrow> length vs = c \<Longrightarrow> ld_aqueue_enqueue q obj = Some (q, False)"
  using pow2_cap_bounds [of c] by (simp add: aq_holds_def ld_aqueue_enqueue_def Let_def unat_of_nat_small)

text \<open>
  Used by one thread at a time, the atomic queue is a bounded first-in first-out queue,
  over any number of operations and also after the 64-bit ticket counter has wrapped around: an
  empty queue accepts as many objects as its capacity, which must be a power of two, gives them back
  in the order they were put, then reports that it is empty, and is empty again; a full queue refuses
  the next object and is unchanged.
\<close>

theorem aqueue_sequential_fifo:
  assumes "aq_holds c q []" "length xs \<le> c"
  shows "\<exists>q1 q2 q3. aq.put_all q (map (Pair ()) xs) = Some q1 \<and>
     (length xs = c \<longrightarrow> (\<forall>obj. ld_aqueue_enqueue q1 obj = Some (q1, False))) \<and> ld_aqueue_count q1 = of_nat (length xs) \<and>
     aq.get_all (replicate (length xs) ()) q1 = Some (q2, map Some xs) \<and> ld_aqueue_dequeue q2 = Some (q3, None) \<and> aq_holds c q3 []"
proof -
  obtain q1 where q1: "aq.put_all q (map (Pair ()) xs) = Some q1" "aq_holds c q1 xs"
    using aq.put_all_holds [OF assms(1), of "map (Pair ()) xs"] assms(2) by (auto simp: has_room_def comp_def)
  obtain q2 where "aq.get_all (replicate (length xs) ()) q1 = Some (q2, map Some xs)" "aq_holds c q2 []"
    using aq.get_all_holds [of c q1 xs "[]" "replicate (length xs) ()"] q1(2) by auto
  then show ?thesis using q1 aq_enqueue_full [OF q1(2)] aq_dequeue_empty [of c q2] by (auto simp: ld_aqueue_count_def aq_holds_def)
qed

text \<open>An empty queue whose ticket counter is about to wrap around.\<close>

definition aq_worn :: "nat ld_aqueue_t" where
  "aq_worn = \<lparr>aq_count = 0, aq_head = 18446744073709551615, aq_tail = 1, aq_max = 2, aq_buffer = [None, None], aq_flags = True\<rparr>"

theorem aqueue_sequential_fifo_witness:
  "\<exists>q1 q2 q3. aq.put_all aq_worn (map (Pair ()) [7, 8]) = Some q1 \<and>
     (length [7, 8 :: nat] = 2 \<longrightarrow> (\<forall>obj. ld_aqueue_enqueue q1 obj = Some (q1, False))) \<and> ld_aqueue_count q1 = of_nat (length [7, 8 :: nat]) \<and>
     aq.get_all (replicate (length [7, 8 :: nat]) ()) q1 = Some (q2, map Some [7, 8]) \<and> ld_aqueue_dequeue q2 = Some (q3, None) \<and> aq_holds 2 q3 []"
proof (rule aqueue_sequential_fifo)
  have "pow2_cap 2" unfolding pow2_cap_def by (rule exI [of _ 1]) simp
  then show "aq_holds 2 aq_worn []" by (simp add: aq_holds_def aq_worn_def nth_Cons' less_2_cases_iff mod_less)
qed simp

end
