(* ===== verification/Aqueue_Steps.thy ===== *)
theory Aqueue_Steps
  imports Aqueue Event_System
begin

text \<open>
  The bounded queue of src/src/ld_aqueue.c with many producers and one consumer: every atomic
  operation of \<open>ld_aqueue_enqueue\<close> and \<open>ld_aqueue_dequeue\<close> is one step, and the steps interleave
  freely. An \<open>assert\<close> that fails leads to \<open>Aborted\<close>. The tail belongs to the consumer, so that its
  update is part of the step before it. The acquire and release orders of the source are taken as
  sequential consistency.

  The theory shows that the assertions never fail and that the objects come out in the order in
  which their producers drew their tickets, the increments of the head.
\<close>

section \<open>Program counters and steps\<close>

datatype 'a aq_pc =
    P_idle
  | Add_count 'a
  | Back_off
  | Add_head 'a
  | Assert_free u64 'a
  | Exchange u64 'a
  | P_done bool
  | P_aborted

datatype 'a aq_con = C_idle | C_exchange | C_sub 'a | C_done "'a option" | C_aborted

datatype 'a aq_label = Silent | Ticket 'a | Took 'a | Missed

record 'a aq_state =
  as_q :: "'a ld_aqueue_t"
  as_pcs :: "'a aq_pc list"
  as_con :: "'a aq_con"

definition put_pc :: "nat \<Rightarrow> 'a aq_pc \<Rightarrow> 'a ld_aqueue_t \<Rightarrow> 'a aq_state \<Rightarrow> 'a aq_state" where
  "put_pc t pc q s = s\<lparr>as_q := q, as_pcs := (as_pcs s)[t := pc]\<rparr>"

text \<open>One step of the producer \<open>t\<close> inside \<open>ld_aqueue_enqueue\<close>.\<close>

definition enqueue_step :: "nat \<Rightarrow> 'a aq_state \<Rightarrow> ('a aq_label \<times> 'a aq_state) option" where
  "enqueue_step t s =
     (let q = as_q s in
      case as_pcs s ! t of
        Add_count obj \<Rightarrow>
          Some (Silent, put_pc t (if unat (aq_count q) \<ge> aq_max q then Back_off else Add_head obj) (q\<lparr>aq_count := aq_count q + 1\<rparr>) s)
      | Back_off \<Rightarrow> Some (Silent, put_pc t (P_done False) (q\<lparr>aq_count := aq_count q - 1\<rparr>) s)
      | Add_head obj \<Rightarrow> Some (Ticket obj, put_pc t (Assert_free (aq_head q) obj) (q\<lparr>aq_head := aq_head q + 1\<rparr>) s)
      | Assert_free head obj \<Rightarrow>
          Some (Silent, put_pc t (if aq_buffer q ! (unat head mod aq_max q) = None then Exchange head obj else P_aborted) q s)
      | Exchange head obj \<Rightarrow>
          (let i = unat head mod aq_max q in
           Some (Silent, put_pc t (if aq_buffer q ! i = None then P_done True else P_aborted) (q\<lparr>aq_buffer := (aq_buffer q)[i := Some obj]\<rparr>) s))
      | _ \<Rightarrow> None)"

text \<open>One step of the consumer inside \<open>ld_aqueue_dequeue\<close>.\<close>

definition dequeue_step :: "'a aq_state \<Rightarrow> ('a aq_label \<times> 'a aq_state) option" where
  "dequeue_step s =
     (let q = as_q s in
      case as_con s of
        C_exchange \<Rightarrow>
          (let ret = aq_buffer q ! aq_tail q; q = q\<lparr>aq_buffer := (aq_buffer q)[aq_tail q := None]\<rparr> in
           case ret of
             None \<Rightarrow> Some (Missed, s\<lparr>as_q := q, as_con := C_done None\<rparr>)
           | Some obj \<Rightarrow>
               Some (Took obj, s\<lparr>as_q := q\<lparr>aq_tail := (if aq_max q \<le> aq_tail q + 1 then 0 else aq_tail q + 1)\<rparr>, as_con := C_sub obj\<rparr>))
      | C_sub obj \<Rightarrow>
          Some (Silent, s\<lparr>as_q := q\<lparr>aq_count := aq_count q - 1\<rparr>, as_con := (if aq_count q = 0 then C_aborted else C_done (Some obj))\<rparr>)
      | _ \<Rightarrow> None)"

definition p_ready :: "'a aq_pc \<Rightarrow> bool" where
  "p_ready pc \<longleftrightarrow> (case pc of P_idle \<Rightarrow> True | P_done _ \<Rightarrow> True | _ \<Rightarrow> False)"

definition c_ready :: "'a aq_con \<Rightarrow> bool" where
  "c_ready pc \<longleftrightarrow> (case pc of C_idle \<Rightarrow> True | C_done _ \<Rightarrow> True | _ \<Rightarrow> False)"

inductive aq_steps :: "'a aq_state \<Rightarrow> 'a aq_label \<Rightarrow> 'a aq_state \<Rightarrow> bool" where
  call_enqueue: "t < length (as_pcs s) \<Longrightarrow> p_ready (as_pcs s ! t) \<Longrightarrow> aq_steps s Silent (put_pc t (Add_count v) (as_q s) s)"
| call_dequeue: "c_ready (as_con s) \<Longrightarrow> aq_steps s Silent (s\<lparr>as_con := C_exchange\<rparr>)"
| producer: "t < length (as_pcs s) \<Longrightarrow> enqueue_step t s = Some (l, s') \<Longrightarrow> aq_steps s l s'"
| consumer: "dequeue_step s = Some (l, s') \<Longrightarrow> aq_steps s l s'"

text \<open>\<open>n\<close> idle producers and an idle consumer at a new queue.\<close>

definition aq_start :: "bool \<Rightarrow> nat \<Rightarrow> nat \<Rightarrow> 'a aq_state" where
  "aq_start given n c = \<lparr>as_q = ld_aqueue_create given c, as_pcs = replicate n P_idle, as_con = C_idle\<rparr>"


section \<open>The objects in the queue, in ticket order\<close>

text \<open>The slot and the object of a producer that has drawn a ticket and not stored its object yet.\<close>

definition pending :: "nat \<Rightarrow> 'a aq_pc \<Rightarrow> (nat \<times> 'a) option" where
  "pending c pc = (case pc of Assert_free h v \<Rightarrow> Some (unat h mod c, v) | Exchange h v \<Rightarrow> Some (unat h mod c, v) | _ \<Rightarrow> None)"

definition n_with :: "('a aq_pc \<Rightarrow> bool) \<Rightarrow> 'a aq_pc list \<Rightarrow> nat" where
  "n_with P ps = length (filter P ps)"

definition accepted :: "'a aq_pc \<Rightarrow> bool" where
  "accepted pc \<longleftrightarrow> (case pc of Add_head _ \<Rightarrow> True | _ \<Rightarrow> False)"

definition backing :: "'a aq_pc \<Rightarrow> bool" where
  "backing pc \<longleftrightarrow> (case pc of Back_off \<Rightarrow> True | _ \<Rightarrow> False)"

definition taking :: "'a aq_con \<Rightarrow> nat" where
  "taking pc = (case pc of C_sub _ \<Rightarrow> 1 | _ \<Rightarrow> 0)"

definition queue_ok :: "nat \<Rightarrow> 'a ld_aqueue_t \<Rightarrow> 'a aq_pc list \<Rightarrow> 'a list \<Rightarrow> bool" where
  "queue_ok c q ps vs \<longleftrightarrow> aq_max q = c \<and> length (aq_buffer q) = c \<and> aq_tail q < c \<and>
     unat (aq_head q) mod c = (aq_tail q + length vs) mod c \<and>
     (\<forall>i < c. let j = (aq_tail q + i) mod c in
        aq_buffer q ! j = (if i < length vs \<and> (\<forall>t < length ps. \<forall>v. pending c (ps ! t) \<noteq> Some (j, v)) then Some (vs ! i) else None))"

definition tickets_ok :: "nat \<Rightarrow> nat \<Rightarrow> 'a aq_pc list \<Rightarrow> 'a list \<Rightarrow> bool" where
  "tickets_ok c p ps vs \<longleftrightarrow>
     (\<forall>t < length ps. ps ! t \<noteq> P_aborted \<and> (\<forall>j v. pending c (ps ! t) = Some (j, v) \<longrightarrow> (\<exists>i < length vs. j = (p + i) mod c \<and> v = vs ! i))) \<and>
     (\<forall>t < length ps. \<forall>u < length ps. \<forall>j v w. pending c (ps ! t) = Some (j, v) \<longrightarrow> pending c (ps ! u) = Some (j, w) \<longrightarrow> t = u)"

definition count_ok :: "nat \<Rightarrow> u64 \<Rightarrow> 'a aq_pc list \<Rightarrow> nat \<Rightarrow> nat \<Rightarrow> bool" where
  "count_ok c cnt ps n k \<longleftrightarrow> pow2_cap c \<and> length ps + c < 2 ^ 64 \<and> n + n_with accepted ps + k \<le> c \<and>
     cnt = of_nat (n + n_with accepted ps + n_with backing ps + k)"

definition aq_sim :: "nat \<Rightarrow> 'a aq_state \<Rightarrow> 'a list \<Rightarrow> bool" where
  "aq_sim c s vs \<longleftrightarrow> as_con s \<noteq> C_aborted \<and> count_ok c (aq_count (as_q s)) (as_pcs s) (length vs) (taking (as_con s)) \<and>
     tickets_ok c (aq_tail (as_q s)) (as_pcs s) vs \<and> queue_ok c (as_q s) (as_pcs s) vs"

fun aq_spec :: "'a list \<Rightarrow> 'a aq_label \<Rightarrow> 'a list \<Rightarrow> bool" where
  "aq_spec vs (Ticket v) vs' \<longleftrightarrow> vs' = vs @ [v]"
| "aq_spec vs (Took v) vs' \<longleftrightarrow> vs = v # vs'"
| "aq_spec vs _ vs' \<longleftrightarrow> vs' = vs"

lemmas pc_simps = pending_def accepted_def backing_def

lemma n_with_update: "t < length ps \<Longrightarrow> n_with P (ps[t := pc]) + (if P (ps ! t) then 1 else 0) = n_with P ps + (if P pc then 1 else 0)"
proof (induction ps arbitrary: t)
  case (Cons x ps)
  then show ?case by (cases t) (auto simp: n_with_def)
qed simp

lemma n_with_le: "n_with P ps \<le> length ps"
  by (simp add: n_with_def)

lemma n_with_disjoint: "n_with accepted ps + n_with backing ps \<le> length ps"
  by (induction ps) (auto simp: n_with_def pc_simps split: aq_pc.splits)

lemma count_unat:
  assumes "count_ok c cnt ps n k"
  shows "unat cnt = n + n_with accepted ps + n_with backing ps + k"
proof -
  have "n + n_with accepted ps + n_with backing ps + k < 2 ^ 64"
    using assms n_with_le [of backing ps] unfolding count_ok_def by linarith
  then have "unat (of_nat (n + n_with accepted ps + n_with backing ps + k) :: u64) = n + n_with accepted ps + n_with backing ps + k"
    by (intro unat_of_nat_small) simp
  moreover have "cnt = of_nat (n + n_with accepted ps + n_with backing ps + k)" using assms unfolding count_ok_def by blast
  ultimately show ?thesis by (simp only:)
qed

lemma tickets_okD:
  assumes "tickets_ok c p ps vs" "t < length ps"
  shows "ps ! t \<noteq> P_aborted"
    and "pending c (ps ! t) = Some (j, v) \<Longrightarrow> \<exists>i < length vs. j = (p + i) mod c \<and> v = vs ! i"
    and "pending c (ps ! t) = Some (j, v) \<Longrightarrow> u < length ps \<Longrightarrow> pending c (ps ! u) = Some (j, w) \<Longrightarrow> t = u"
  using assms unfolding tickets_ok_def by blast+

lemma tickets_okI:
  assumes "\<And>t. t < length ps \<Longrightarrow> ps ! t \<noteq> P_aborted"
    and "\<And>t j v. t < length ps \<Longrightarrow> pending c (ps ! t) = Some (j, v) \<Longrightarrow> \<exists>i < length vs. j = (p + i) mod c \<and> v = vs ! i"
    and "\<And>t u j v w. t < length ps \<Longrightarrow> pending c (ps ! t) = Some (j, v) \<Longrightarrow> u < length ps \<Longrightarrow> pending c (ps ! u) = Some (j, w) \<Longrightarrow> t = u"
  shows "tickets_ok c p ps vs"
  using assms unfolding tickets_ok_def by blast

text \<open>A step that changes no ticket leaves the slots alone.\<close>

lemma pending_same_update: "pending c pc = pending c (ps ! t) \<Longrightarrow> u < length ps \<Longrightarrow> pending c (ps[t := pc] ! u) = pending c (ps ! u)"
  by (cases "t = u") auto

lemma queue_ok_same:
  "queue_ok c q ps vs \<Longrightarrow> pending c pc = pending c (ps ! t) \<Longrightarrow> queue_ok c (q\<lparr>aq_count := n\<rparr>) (ps[t := pc]) vs"
  by (simp add: queue_ok_def pending_same_update)

lemma tickets_ok_same:
  "tickets_ok c p ps vs \<Longrightarrow> pending c pc = pending c (ps ! t) \<Longrightarrow> pc \<noteq> P_aborted \<Longrightarrow> tickets_ok c p (ps[t := pc]) vs"
  unfolding tickets_ok_def by (simp add: pending_same_update) (metis nth_list_update nth_list_update_neq)

lemma queue_slot: "queue_ok c q ps vs \<Longrightarrow> i < c \<Longrightarrow> aq_buffer q ! ((aq_tail q + i) mod c) =
    (if i < length vs \<and> (\<forall>t < length ps. \<forall>v. pending c (ps ! t) \<noteq> Some ((aq_tail q + i) mod c, v)) then Some (vs ! i) else None)"
  by (simp add: queue_ok_def Let_def)

lemma pending_slot_free:
  assumes "queue_ok c q ps vs" "tickets_ok c (aq_tail q) ps vs" "length vs \<le> c" "t < length ps" "pending c (ps ! t) = Some (j, v)"
  shows "j < c \<and> aq_buffer q ! j = None"
proof -
  obtain i where i: "i < length vs" "j = (aq_tail q + i) mod c" using tickets_okD(2) [OF assms(2,4,5)] by blast
  have "i < c" using i(1) assms(3) by simp
  moreover have "\<not> (\<forall>u < length ps. \<forall>v. pending c (ps ! u) \<noteq> Some ((aq_tail q + i) mod c, v))" using assms(4,5) i(2) by blast
  ultimately show ?thesis using queue_slot [OF assms(1) \<open>i < c\<close>] i(2) by auto
qed

text \<open>A producer draws a ticket: the next slot, which is free, becomes its own.\<close>

lemma ticket_ok:
  assumes q: "queue_ok c q ps vs" and t: "tickets_ok c (aq_tail q) ps vs" and c: "pow2_cap c" "length vs < c"
    and u: "u < length ps" "pending c (ps ! u) = None" "pending c pc = Some (unat (aq_head q) mod c, v)" "pc \<noteq> P_aborted"
  shows "tickets_ok c (aq_tail q) (ps[u := pc]) (vs @ [v]) \<and> queue_ok c (q\<lparr>aq_head := aq_head q + 1\<rparr>) (ps[u := pc]) (vs @ [v])"
proof -
  define p where "p = aq_tail q"
  define j where "j = (p + length vs) mod c"
  have h: "unat (aq_head q) mod c = j" and p: "p < c" using q by (simp_all add: queue_ok_def j_def p_def)
  have fresh: "(p + i) mod c = j \<longleftrightarrow> i = length vs" if "i < c" for i using slot_inj [OF p that c(2)] by (auto simp: j_def)
  have old: "k \<noteq> j" if "s < length ps" "pending c (ps ! s) = Some (k, w)" for s k w
  proof -
    from tickets_okD(2) [OF t that] obtain i where "i < length vs" "k = (p + i) mod c" by (auto simp: p_def)
    then show ?thesis using fresh [of i] c(2) by auto
  qed
  have pend: "pending c (ps[u := pc] ! s) = (if s = u then Some (j, v) else pending c (ps ! s))" if "s < length ps" for s
    using that u h by simp
  have new: "(\<forall>s < length ps. \<forall>w. pending c (ps[u := pc] ! s) \<noteq> Some (k, w)) \<longleftrightarrow>
      k \<noteq> j \<and> (\<forall>s < length ps. \<forall>w. pending c (ps ! s) \<noteq> Some (k, w))" for k
    using u(1,2) by (auto simp: pend split: if_splits)
  have "\<exists>i < length (vs @ [v]). k = (p + i) mod c \<and> w = (vs @ [v]) ! i" if "s < length ps" "pending c (ps[u := pc] ! s) = Some (k, w)" for s k w
  proof (cases "s = u")
    case True
    then show ?thesis using that pend [of u] u(1) by (intro exI [of _ "length vs"]) (auto simp: j_def)
  next
    case False
    then have "pending c (ps ! s) = Some (k, w)" using that pend [of s] by simp
    from tickets_okD(2) [OF t that(1) this] obtain i where "i < length vs" "k = (p + i) mod c" "w = vs ! i" by (auto simp: p_def)
    then show ?thesis by (intro exI [of _ i]) (auto simp: nth_append)
  qed
  moreover have "s = s'" if "s < length ps" "s' < length ps" "pending c (ps[u := pc] ! s) = Some (k, w)" "pending c (ps[u := pc] ! s') = Some (k, w')" for s s' k w w'
    using that old tickets_okD(3) [OF t that(1) _ that(2), of k w w'] by (auto simp: pend split: if_splits)
  moreover have "ps[u := pc] ! s \<noteq> P_aborted" if "s < length ps" for s
    using tickets_okD(1) [OF t that] u(4) that by (cases "s = u") auto
  ultimately have "tickets_ok c (aq_tail q) (ps[u := pc]) (vs @ [v])"
    unfolding p_def [symmetric] by (intro tickets_okI; unfold length_list_update) blast+
  moreover have "aq_buffer q ! ((p + i) mod c) = (if i < length (vs @ [v]) \<and> (\<forall>s < length ps. \<forall>w. pending c (ps[u := pc] ! s) \<noteq> Some ((p + i) mod c, w)) then Some ((vs @ [v]) ! i) else None)"
    if "i < c" for i
    using queue_slot [OF q that] fresh [OF that] unfolding new p_def [symmetric] by (auto simp: nth_append less_Suc_eq)
  moreover have "unat (aq_head q + 1) mod c = (p + length (vs @ [v])) mod c"
    using unat_Suc_mod [OF c(1), of "aq_head q"] h by (metis add_Suc_right j_def length_append_singleton mod_Suc_eq)
  ultimately show ?thesis using q by (simp add: queue_ok_def p_def)
qed

text \<open>The producer stores its object: the slot is its own, and holds the object from now on.\<close>

lemma store_ok:
  assumes q: "queue_ok c q ps vs" and t: "tickets_ok c (aq_tail q) ps vs" and c: "length vs \<le> c"
    and u: "u < length ps" "pending c (ps ! u) = Some (j, v)" "pending c pc = None" "pc \<noteq> P_aborted"
  shows "tickets_ok c (aq_tail q) (ps[u := pc]) vs \<and> queue_ok c (q\<lparr>aq_buffer := (aq_buffer q)[j := Some v]\<rparr>) (ps[u := pc]) vs"
proof -
  define p where "p = aq_tail q"
  have p: "p < c" and len: "length (aq_buffer q) = c" using q by (simp_all add: queue_ok_def p_def)
  from tickets_okD(2) [OF t u(1,2)] obtain k where k: "k < length vs" "j = (p + k) mod c" "v = vs ! k" by (auto simp: p_def)
  have kc: "k < c" using k(1) c by simp
  have at_j: "(p + i) mod c = j \<longleftrightarrow> i = k" if "i < c" for i using slot_inj [OF p that kc] k(2) by auto
  have pend: "pending c (ps[u := pc] ! s) = (if s = u then None else pending c (ps ! s))" if "s < length ps" for s
    using that u(3) by simp
  have new: "(\<forall>s < length ps. \<forall>w. pending c (ps[u := pc] ! s) \<noteq> Some (m, w)) \<longleftrightarrow>
      m = j \<or> (\<forall>s < length ps. \<forall>w. pending c (ps ! s) \<noteq> Some (m, w))" for m
  proof -
    have "pending c (ps[u := pc] ! s) = Some (m, w) \<longleftrightarrow> m \<noteq> j \<and> pending c (ps ! s) = Some (m, w)" if "s < length ps" for s w
      using tickets_okD(3) [OF t that _ u(1), of j w v] u(2) by (auto simp: pend [OF that])
    then show ?thesis by auto
  qed
  have "tickets_ok c p (ps[u := pc]) vs"
  proof (rule tickets_okI)
    fix s assume "s < length (ps[u := pc])"
    then show "ps[u := pc] ! s \<noteq> P_aborted" using tickets_okD(1) [OF t, of s] u(4) by (cases "s = u") auto
  next
    fix s i w assume "s < length (ps[u := pc])" "pending c (ps[u := pc] ! s) = Some (i, w)"
    then show "\<exists>k < length vs. i = (p + k) mod c \<and> w = vs ! k" using tickets_okD(2) [OF t, of s i w] by (auto simp: pend p_def split: if_splits)
  next
    fix s s' i w w' assume "s < length (ps[u := pc])" "pending c (ps[u := pc] ! s) = Some (i, w)"
      "s' < length (ps[u := pc])" "pending c (ps[u := pc] ! s') = Some (i, w')"
    then show "s = s'" using tickets_okD(3) [OF t, of s i w s' w'] by (auto simp: pend split: if_splits)
  qed
  moreover have "(aq_buffer q)[j := Some v] ! ((p + i) mod c) = (if i < length vs \<and> (\<forall>s < length ps. \<forall>w. pending c (ps[u := pc] ! s) \<noteq> Some ((p + i) mod c, w)) then Some (vs ! i) else None)"
    if "i < c" for i
  proof (cases "i = k")
    case True
    then have "(p + i) mod c = j" "j < length (aq_buffer q)" using k(2) p len by simp_all
    then show ?thesis unfolding new using True k by simp
  next
    case False
    then have "(p + i) mod c \<noteq> j" using at_j [OF that] by simp
    then show ?thesis unfolding new using queue_slot [OF q that] by (simp add: p_def)
  qed
  ultimately show ?thesis using q by (simp add: queue_ok_def p_def Let_def)
qed

text \<open>The consumer takes the object at the tail.\<close>

lemma take_ok:
  assumes q: "queue_ok c q ps vs" and t: "tickets_ok c (aq_tail q) ps vs" and c: "length vs \<le> c"
    and v: "aq_buffer q ! aq_tail q = Some v"
  defines "tail \<equiv> Suc (aq_tail q) mod c"
  shows "\<exists>vs'. vs = v # vs' \<and> tickets_ok c tail ps vs' \<and> queue_ok c (q\<lparr>aq_buffer := (aq_buffer q)[aq_tail q := None], aq_tail := tail\<rparr>) ps vs'"
proof -
  define p where "p = aq_tail q"
  have p: "p < c" and len: "length (aq_buffer q) = c" using q by (simp_all add: queue_ok_def p_def)
  have tl: "(tail + i) mod c = (p + Suc i) mod c" for i by (simp add: tail_def p_def mod_add_left_eq)
  have "0 < c" using p by simp
  from queue_slot [OF q this] have s0: "vs \<noteq> []" "vs ! 0 = v" "\<forall>s < length ps. \<forall>w. pending c (ps ! s) \<noteq> Some (p, w)"
    using v p by (auto simp: p_def split: if_splits)
  then obtain vs' where vs: "vs = v # vs'" by (cases vs) auto
  have next_slot: "(p + Suc i) mod c = p \<longleftrightarrow> Suc i = c" if "i < c" for i
  proof (cases "Suc i = c")
    case False
    then show ?thesis using slot_inj [OF p, of "Suc i" 0] that p by auto
  qed (use p in simp)
  have "\<exists>k < length vs'. i = (tail + k) mod c \<and> w = vs' ! k" if "s < length ps" "pending c (ps ! s) = Some (i, w)" for s i w
  proof -
    from tickets_okD(2) [OF t that] obtain k where k: "k < length vs" "i = (p + k) mod c" "w = vs ! k" by (auto simp: p_def)
    have "k \<noteq> 0" using s0(3) that k(2) p by (metis add.right_neutral mod_less)
    then obtain k' where "k = Suc k'" by (cases k) auto
    then show ?thesis using k vs tl by auto
  qed
  then have "tickets_ok c tail ps vs'" using tickets_okD(1,3) [OF t] by (intro tickets_okI) blast+
  moreover have "(aq_buffer q)[p := None] ! ((tail + i) mod c) = (if i < length vs' \<and> (\<forall>s < length ps. \<forall>w. pending c (ps ! s) \<noteq> Some ((tail + i) mod c, w)) then Some (vs' ! i) else None)"
    if "i < c" for i
  proof (cases "Suc i = c")
    case True
    then have "(tail + i) mod c = p" unfolding tl using next_slot [OF that] by simp
    moreover have "\<not> i < length vs'" using True c vs by simp
    ultimately show ?thesis using p len by simp
  next
    case False
    then have "Suc i < c" "(tail + i) mod c \<noteq> p" using next_slot [OF that] tl that by auto
    then show ?thesis using queue_slot [OF q, of "Suc i"] vs unfolding tl p_def [symmetric] by simp
  qed
  moreover have "unat (aq_head q) mod c = (tail + length vs') mod c" using q vs unfolding tl by (simp add: queue_ok_def p_def)
  ultimately show ?thesis using q vs p by (auto simp: queue_ok_def p_def Let_def tail_def)
qed

section \<open>Every step follows the specification\<close>

abbreviation in_flight :: "'a aq_pc list \<Rightarrow> nat \<Rightarrow> nat \<Rightarrow> nat" where
  "in_flight ps n k \<equiv> n + n_with accepted ps + n_with backing ps + k"

lemma count_ok_keep:
  "count_ok c cnt ps n k \<Longrightarrow> length ps' = length ps \<Longrightarrow> n' + n_with accepted ps' + k' \<le> c \<Longrightarrow> in_flight ps' n' k' = in_flight ps n k \<Longrightarrow>
   count_ok c cnt ps' n' k'"
  unfolding count_ok_def by metis

lemma count_ok_inc:
  "count_ok c cnt ps n k \<Longrightarrow> length ps' = length ps \<Longrightarrow> n' + n_with accepted ps' + k' \<le> c \<Longrightarrow> in_flight ps' n' k' = Suc (in_flight ps n k) \<Longrightarrow>
   count_ok c (cnt + 1) ps' n' k'"
  unfolding count_ok_def by (metis add.commute of_nat_Suc)

lemma count_ok_dec:
  "count_ok c cnt ps n k \<Longrightarrow> length ps' = length ps \<Longrightarrow> n' + n_with accepted ps' + k' \<le> c \<Longrightarrow> Suc (in_flight ps' n' k') = in_flight ps n k \<Longrightarrow>
   count_ok c (cnt - 1) ps' n' k'"
  unfolding count_ok_def by (metis add_diff_cancel_left' of_nat_Suc)

lemma aq_simD:
  assumes "aq_sim c s vs"
  shows "as_con s \<noteq> C_aborted" "count_ok c (aq_count (as_q s)) (as_pcs s) (length vs) (taking (as_con s))"
    "tickets_ok c (aq_tail (as_q s)) (as_pcs s) vs" "queue_ok c (as_q s) (as_pcs s) vs"
    "pow2_cap c" "length vs + n_with accepted (as_pcs s) + taking (as_con s) \<le> c" "length vs \<le> c" "aq_max (as_q s) = c"
  using assms by (auto simp: aq_sim_def count_ok_def queue_ok_def)

lemma aq_sim_pc:
  assumes "aq_sim c s vs" "t < length (as_pcs s)" "pending c pc = pending c (as_pcs s ! t)" "pc \<noteq> P_aborted"
    "count_ok c cnt ((as_pcs s)[t := pc]) (length vs) (taking (as_con s))"
  shows "aq_sim c (put_pc t pc ((as_q s)\<lparr>aq_count := cnt\<rparr>) s) vs"
  using assms(5) aq_simD(1) [OF assms(1)] queue_ok_same [OF aq_simD(4) [OF assms(1)] assms(3)] tickets_ok_same [OF aq_simD(3) [OF assms(1)] assms(3,4)]
  by (simp add: aq_sim_def put_pc_def)

lemma aq_count_id [simp]: "q\<lparr>aq_count := aq_count q\<rparr> = q"
  by simp

lemma sim_keep_pc:
  assumes "aq_sim c s vs" "t < length (as_pcs s)" "pending c pc = pending c (as_pcs s ! t)" "pc \<noteq> P_aborted"
    "\<not> accepted pc" "\<not> backing pc" "\<not> accepted (as_pcs s ! t)" "\<not> backing (as_pcs s ! t)"
  shows "aq_sim c (put_pc t pc (as_q s) s) vs"
proof -
  have "count_ok c (aq_count (as_q s)) ((as_pcs s)[t := pc]) (length vs) (taking (as_con s))"
    by (rule count_ok_keep [OF aq_simD(2) [OF assms(1)]])
      (use assms aq_simD(6) [OF assms(1)] n_with_update [OF assms(2), of accepted pc] n_with_update [OF assms(2), of backing pc] in simp_all)
  from aq_sim_pc [OF assms(1-4) this] show ?thesis by simp
qed

lemma sim_add_count:
  assumes "aq_sim c s vs" "t < length (as_pcs s)" "as_pcs s ! t = Add_count v"
  shows "aq_sim c (put_pc t (if unat (aq_count (as_q s)) \<ge> c then Back_off else Add_head v) ((as_q s)\<lparr>aq_count := aq_count (as_q s) + 1\<rparr>) s) vs"
proof (rule aq_sim_pc [OF assms(1,2)])
  let ?pc = "if unat (aq_count (as_q s)) \<ge> c then Back_off else Add_head v"
  show "count_ok c (aq_count (as_q s) + 1) ((as_pcs s)[t := ?pc]) (length vs) (taking (as_con s))"
    using n_with_update [OF assms(2), of accepted ?pc] n_with_update [OF assms(2), of backing ?pc] assms(3)
      aq_simD(6) [OF assms(1)] count_unat [OF aq_simD(2) [OF assms(1)]]
    by (intro count_ok_inc [OF aq_simD(2) [OF assms(1)]]) (auto simp: pc_simps split: if_splits)
qed (use assms(3) in \<open>simp_all add: pending_def\<close>)

lemma sim_back_off:
  assumes "aq_sim c s vs" "t < length (as_pcs s)" "as_pcs s ! t = Back_off"
  shows "aq_sim c (put_pc t (P_done False) ((as_q s)\<lparr>aq_count := aq_count (as_q s) - 1\<rparr>) s) vs"
proof (rule aq_sim_pc [OF assms(1,2)])
  show "count_ok c (aq_count (as_q s) - 1) ((as_pcs s)[t := P_done False]) (length vs) (taking (as_con s))"
    using n_with_update [OF assms(2), of accepted "P_done False"] n_with_update [OF assms(2), of backing "P_done False"] assms(3) aq_simD(6) [OF assms(1)]
    by (intro count_ok_dec [OF aq_simD(2) [OF assms(1)]]) (simp_all add: pc_simps)
qed (use assms(3) in \<open>simp_all add: pending_def\<close>)

lemma sim_add_head:
  assumes "aq_sim c s vs" "t < length (as_pcs s)" "as_pcs s ! t = Add_head v"
  shows "aq_sim c (put_pc t (Assert_free (aq_head (as_q s)) v) ((as_q s)\<lparr>aq_head := aq_head (as_q s) + 1\<rparr>) s) (vs @ [v])"
proof -
  let ?pc = "Assert_free (aq_head (as_q s)) v"
  note n = n_with_update [OF assms(2), of accepted ?pc] n_with_update [OF assms(2), of backing ?pc]
  have "length vs < c" using n(1) assms(3) aq_simD(6) [OF assms(1)] by (simp add: pc_simps)
  then have "tickets_ok c (aq_tail (as_q s)) ((as_pcs s)[t := ?pc]) (vs @ [v]) \<and>
      queue_ok c ((as_q s)\<lparr>aq_head := aq_head (as_q s) + 1\<rparr>) ((as_pcs s)[t := ?pc]) (vs @ [v])"
    by (rule ticket_ok [OF aq_simD(4,3,5) [OF assms(1)] _ assms(2)]) (simp_all add: assms(3) pending_def)
  moreover have "count_ok c (aq_count (as_q s)) ((as_pcs s)[t := ?pc]) (length (vs @ [v])) (taking (as_con s))"
    using n assms(3) aq_simD(6) [OF assms(1)] by (intro count_ok_keep [OF aq_simD(2) [OF assms(1)]]) (simp_all add: pc_simps)
  ultimately show ?thesis using aq_simD(1) [OF assms(1)] by (simp add: aq_sim_def put_pc_def)
qed

lemma sim_exchange:
  assumes "aq_sim c s vs" "t < length (as_pcs s)" "as_pcs s ! t = Exchange h v"
  shows "aq_buffer (as_q s) ! (unat h mod c) = None \<and>
    aq_sim c (put_pc t (P_done True) ((as_q s)\<lparr>aq_buffer := (aq_buffer (as_q s))[unat h mod c := Some v]\<rparr>) s) vs"
proof -
  have p: "pending c (as_pcs s ! t) = Some (unat h mod c, v)" by (simp add: assms(3) pending_def)
  have "tickets_ok c (aq_tail (as_q s)) ((as_pcs s)[t := P_done True]) vs \<and>
      queue_ok c ((as_q s)\<lparr>aq_buffer := (aq_buffer (as_q s))[unat h mod c := Some v]\<rparr>) ((as_pcs s)[t := P_done True]) vs"
    by (rule store_ok [OF aq_simD(4,3,7) [OF assms(1)] assms(2) p]) (simp_all add: pending_def)
  moreover have "count_ok c (aq_count (as_q s)) ((as_pcs s)[t := P_done True]) (length vs) (taking (as_con s))"
    using n_with_update [OF assms(2), of accepted "P_done True"] n_with_update [OF assms(2), of backing "P_done True"] assms(3) aq_simD(6) [OF assms(1)]
    by (intro count_ok_keep [OF aq_simD(2) [OF assms(1)]]) (simp_all add: pc_simps)
  moreover have "aq_buffer (as_q s) ! (unat h mod c) = None"
    using pending_slot_free [OF aq_simD(4,3,7) [OF assms(1)] assms(2) p] by simp
  ultimately show ?thesis using aq_simD(1) [OF assms(1)] by (simp add: aq_sim_def put_pc_def)
qed

lemma enqueue_step_sim:
  assumes "aq_sim c s vs" "t < length (as_pcs s)" "enqueue_step t s = Some (l, s')"
  shows "\<exists>vs'. aq_sim c s' vs' \<and> aq_spec vs l vs'"
proof (cases "as_pcs s ! t")
  case (Add_count v)
  then show ?thesis using sim_add_count [OF assms(1,2) Add_count] assms(3) aq_simD(8) [OF assms(1)] by (auto simp: enqueue_step_def Let_def)
next
  case Back_off
  then show ?thesis using sim_back_off [OF assms(1,2) Back_off] assms(3) by (auto simp: enqueue_step_def Let_def)
next
  case (Add_head v)
  then show ?thesis using sim_add_head [OF assms(1,2) Add_head] assms(3) by (auto simp: enqueue_step_def Let_def)
next
  case (Assert_free h v)
  then have "aq_buffer (as_q s) ! (unat h mod c) = None"
    using pending_slot_free [OF aq_simD(4,3,7) [OF assms(1)] assms(2), of "unat h mod c" v] by (simp add: pending_def)
  moreover have "aq_sim c (put_pc t (Exchange h v) (as_q s) s) vs"
    by (rule sim_keep_pc [OF assms(1,2)]) (simp_all add: Assert_free pc_simps)
  ultimately show ?thesis using assms(3) Assert_free aq_simD(8) [OF assms(1)] by (auto simp: enqueue_step_def Let_def)
next
  case (Exchange h v)
  then show ?thesis using sim_exchange [OF assms(1,2) Exchange] assms(3) aq_simD(8) [OF assms(1)] by (auto simp: enqueue_step_def Let_def)
qed (use assms(3) in \<open>simp_all add: enqueue_step_def Let_def\<close>)

lemma dequeue_step_sim:
  assumes "aq_sim c s vs" "dequeue_step s = Some (l, s')"
  shows "\<exists>vs'. aq_sim c s' vs' \<and> aq_spec vs l vs'"
proof (cases "as_con s")
  case C_exchange
  note q = aq_simD(4) [OF assms(1)]
  have tail: "(if c \<le> aq_tail (as_q s) + 1 then 0 else aq_tail (as_q s) + 1) = Suc (aq_tail (as_q s)) mod c"
    using q by (auto simp: queue_ok_def mod_Suc)
  show ?thesis
  proof (cases "aq_buffer (as_q s) ! aq_tail (as_q s)")
    case None
    then have "(aq_buffer (as_q s))[aq_tail (as_q s) := None] = aq_buffer (as_q s)" by (metis list_update_id)
    then have "s' = s\<lparr>as_con := C_done None\<rparr>" "l = Missed" using assms(2) C_exchange None by (auto simp: dequeue_step_def Let_def)
    then show ?thesis using assms(1) C_exchange by (auto simp: aq_sim_def taking_def)
  next
    case (Some v)
    from take_ok [OF aq_simD(4,3,7) [OF assms(1)] Some] obtain vs' where vs': "vs = v # vs'"
      "tickets_ok c (Suc (aq_tail (as_q s)) mod c) (as_pcs s) vs'"
      "queue_ok c ((as_q s)\<lparr>aq_buffer := (aq_buffer (as_q s))[aq_tail (as_q s) := None], aq_tail := Suc (aq_tail (as_q s)) mod c\<rparr>) (as_pcs s) vs'" by blast
    have "s' = s\<lparr>as_q := (as_q s)\<lparr>aq_buffer := (aq_buffer (as_q s))[aq_tail (as_q s) := None], aq_tail := Suc (aq_tail (as_q s)) mod c\<rparr>, as_con := C_sub v\<rparr> \<and> l = Took v"
      using assms(2) C_exchange Some aq_simD(8) [OF assms(1)] unfolding tail [symmetric] by (auto simp: dequeue_step_def Let_def)
    moreover have "count_ok c (aq_count (as_q s)) (as_pcs s) (length vs') 1"
      using vs'(1) C_exchange aq_simD(6) [OF assms(1)] by (intro count_ok_keep [OF aq_simD(2) [OF assms(1)]]) (simp_all add: taking_def)
    ultimately show ?thesis using vs' by (auto simp: aq_sim_def taking_def)
  qed
next
  case (C_sub v)
  have "unat (aq_count (as_q s)) \<noteq> 0" using count_unat [OF aq_simD(2) [OF assms(1)]] C_sub by (simp add: taking_def)
  then have "aq_count (as_q s) \<noteq> 0" by auto
  moreover have "count_ok c (aq_count (as_q s) - 1) (as_pcs s) (length vs) 0"
    using C_sub aq_simD(6) [OF assms(1)] by (intro count_ok_dec [OF aq_simD(2) [OF assms(1)]]) (simp_all add: taking_def)
  moreover have "queue_ok c ((as_q s)\<lparr>aq_count := n\<rparr>) (as_pcs s) vs" for n using aq_simD(4) [OF assms(1)] by (simp add: queue_ok_def)
  ultimately show ?thesis using assms C_sub by (auto simp: dequeue_step_def Let_def aq_sim_def taking_def)
qed (use assms(2) in \<open>simp_all add: dequeue_step_def Let_def\<close>)

interpretation aqs: simulating_system aq_steps "aq_sim c" aq_spec for c
proof
  fix s s' :: "'a aq_state" and vs l
  assume sim: "aq_sim c s vs" and "aq_steps s l s'"
  from this(2) show "\<exists>vs'. aq_sim c s' vs' \<and> aq_spec vs l vs'"
  proof cases
    case (call_enqueue t v)
    have "aq_sim c (put_pc t (Add_count v) (as_q s) s) vs"
      by (rule sim_keep_pc [OF sim]) (use call_enqueue in \<open>auto simp: pc_simps p_ready_def split: aq_pc.splits\<close>)
    then show ?thesis using call_enqueue by auto
  next
    case call_dequeue
    then show ?thesis using sim by (auto simp: aq_sim_def taking_def c_ready_def split: aq_con.splits)
  next
    case (producer t)
    then show ?thesis using enqueue_step_sim [OF sim] by blast
  next
    case consumer
    then show ?thesis using dequeue_step_sim [OF sim] by blast
  qed
qed


section \<open>Properties\<close>

definition tickets :: "'a aq_label list \<Rightarrow> 'a list" where
  "tickets ls = List.map_filter (\<lambda>l. case l of Ticket v \<Rightarrow> Some v | _ \<Rightarrow> None) ls"

definition tooks :: "'a aq_label list \<Rightarrow> 'a list" where
  "tooks ls = List.map_filter (\<lambda>l. case l of Took v \<Rightarrow> Some v | _ \<Rightarrow> None) ls"

text \<open>No call is under way.\<close>

definition quiet :: "'a aq_state \<Rightarrow> bool" where
  "quiet s \<longleftrightarrow> (\<forall>pc \<in> set (as_pcs s). p_ready pc) \<and> c_ready (as_con s)"

lemma aq_spec_log: "ev_runs aq_spec vs ls vs' \<Longrightarrow> vs @ tickets ls = tooks ls @ vs'"
proof (induction ls arbitrary: vs)
  case (Cons l ls)
  show ?case using Cons.prems by (cases l) (auto simp: tickets_def tooks_def List.map_filter_simps dest!: Cons.IH)
qed (simp add: tickets_def tooks_def List.map_filter_simps)

lemma aq_start_sim: "pow2_cap c \<Longrightarrow> n + c < 2 ^ 64 \<Longrightarrow> aq_sim c (aq_start given n c) []"
  using pow2_cap_bounds [of c]
  by (auto simp: aq_sim_def aq_start_def count_ok_def tickets_ok_def queue_ok_def ld_aqueue_create_def n_with_def pc_simps taking_def)

lemma ready_none: "p_ready pc \<Longrightarrow> pending c pc = None \<and> \<not> accepted pc \<and> \<not> backing pc"
  by (auto simp: p_ready_def pc_simps split: aq_pc.splits)

lemma quiet_holds:
  assumes "aq_sim c s vs" "quiet s"
  shows "aq_holds c (as_q s) vs"
proof -
  have r: "p_ready (as_pcs s ! t)" if "t < length (as_pcs s)" for t using assms(2) that by (simp add: quiet_def)
  have "n_with accepted (as_pcs s) = 0" "n_with backing (as_pcs s) = 0"
    using assms(2) ready_none by (auto simp: n_with_def quiet_def filter_empty_conv)
  moreover have "taking (as_con s) = 0" using assms(2) by (auto simp: quiet_def c_ready_def taking_def split: aq_con.splits)
  ultimately have "aq_count (as_q s) = of_nat (length vs)" using aq_simD(2) [OF assms(1)] by (simp add: count_ok_def)
  moreover have "aq_buffer (as_q s) ! ((aq_tail (as_q s) + i) mod c) = (if i < length vs then Some (vs ! i) else None)" if "i < c" for i
    using queue_slot [OF aq_simD(4) [OF assms(1)] that] ready_none [OF r] by auto
  ultimately show ?thesis using aq_simD(4,5,7) [OF assms(1)] by (simp add: aq_holds_def queue_ok_def)
qed

text \<open>
  Property C6: the atomic queue is right for any number of producers beside one consumer, under
  every interleaving of their atomic operations. In every run from a new queue whose capacity is a
  power of two, the objects taken so far, followed by those still in the queue, are the objects that
  were accepted, in the order of their tickets: none is lost, duplicated or reordered, and there are
  never more than the capacity. No assertion of the code fails. Whenever no call is under way, the
  queue is in order and its counter is exact.
\<close>

theorem aqueue_many_producers:
  fixes given c
  assumes "pow2_cap c" "n + c < 2 ^ 64" "ev_runs aq_steps (aq_start given n c) ls s"
  shows "\<exists>vs. tickets ls = tooks ls @ vs \<and> length vs \<le> c \<and> P_aborted \<notin> set (as_pcs s) \<and> as_con s \<noteq> C_aborted \<and>
     (quiet s \<longrightarrow> aq_holds c (as_q s) vs)"
proof -
  obtain vs where vs: "aq_sim c s vs" "ev_runs aq_spec [] ls vs"
    using aqs.runs_simulate [OF assms(3) aq_start_sim [OF assms(1,2)]] by blast
  have "tickets ls = tooks ls @ vs" using aq_spec_log [OF vs(2)] by simp
  moreover have "P_aborted \<notin> set (as_pcs s)" using tickets_okD(1) [OF aq_simD(3) [OF vs(1)]] by (auto simp: in_set_conv_nth)
  ultimately show ?thesis using aq_simD(1,7) [OF vs(1)] quiet_holds [OF vs(1)] by blast
qed

definition aq_one :: "nat aq_state" where
  "aq_one = \<lparr>as_q = \<lparr>aq_count = 1, aq_head = 1, aq_tail = 0, aq_max = 2, aq_buffer = [None, None], aq_flags = True\<rparr>,
     as_pcs = [Exchange 0 5], as_con = C_exchange\<rparr>"

lemma aq_one_reachable: "ev_runs aq_steps (aq_start False 1 2) [Silent, Silent, Ticket 5, Silent, Silent] aq_one"
proof -
  define s0 where "s0 = (aq_start False 1 2 :: nat aq_state)"
  define s1 where "s1 = put_pc 0 (Add_count 5) (as_q s0) s0"
  define s2 where "s2 = put_pc 0 (Add_head 5) ((as_q s1)\<lparr>aq_count := 1\<rparr>) s1"
  define s3 where "s3 = put_pc 0 (Assert_free 0 5) ((as_q s2)\<lparr>aq_head := 1\<rparr>) s2"
  define s4 where "s4 = put_pc 0 (Exchange 0 5) (as_q s3) s3"
  note defs = s1_def s2_def s3_def s4_def s0_def aq_start_def put_pc_def ld_aqueue_create_def enqueue_step_def
  have "aq_steps s0 Silent s1" unfolding s1_def by (rule call_enqueue) (simp_all add: defs p_ready_def)
  moreover have "aq_steps s1 Silent s2" by (rule producer [of 0]) (simp_all add: defs)
  moreover have "aq_steps s2 (Ticket 5) s3" by (rule producer [of 0]) (simp_all add: defs)
  moreover have "aq_steps s3 Silent s4" by (rule producer [of 0]) (simp_all add: defs numeral_2_eq_2)
  moreover have "aq_steps s4 Silent (s4\<lparr>as_con := C_exchange\<rparr>)" by (rule call_dequeue) (simp add: defs c_ready_def)
  moreover have "s4\<lparr>as_con := C_exchange\<rparr> = aq_one" by (simp add: defs aq_one_def numeral_2_eq_2)
  ultimately show ?thesis unfolding s0_def [symmetric] by auto
qed

theorem aqueue_many_producers_witness:
  "\<exists>vs. tickets [Silent, Silent, Ticket 5, Silent, Silent] = tooks [Silent, Silent, Ticket 5, Silent, Silent] @ vs \<and> length vs \<le> 2 \<and>
     P_aborted \<notin> set (as_pcs aq_one) \<and> as_con aq_one \<noteq> C_aborted \<and> (quiet aq_one \<longrightarrow> aq_holds 2 (as_q aq_one) vs)"
proof (rule aqueue_many_producers [OF _ _ aq_one_reachable])
  show "pow2_cap 2" unfolding pow2_cap_def by (rule exI [of _ 1]) simp
qed simp

end
