(* ===== verification/Mempool.thy ===== *)
theory Mempool
  imports Prelude
begin

text \<open>
  The memory pool of src/src/ld_alloc.c: blocks obtained from malloc are cut into chunks, each with
  a header and, at its end, a pointer back to the header; the free and the allocated chunks of a
  block form two doubly linked lists, and neighbouring free chunks are merged. A block carries the
  headers and end pointers that lie in it (\<open>mm_chunks\<close>, \<open>mm_ends\<close>, by address); an access outside is
  \<open>None\<close>. Sizes are those of a 64-bit machine: 32 bytes for a header, 8 for an end pointer. The
  results of malloc are arguments. Locks are left out: they are only compiled in on request.
\<close>

section \<open>Data\<close>

record mp_chunk =
  ck_alloc_mem :: nat
  ck_prev :: "addr option"
  ck_next :: "addr option"
  ck_is_free :: bool

record mp_memory =
  mm_start :: addr
  mm_id :: nat
  mm_mempool_size :: nat
  mm_alloc_mem :: nat
  mm_alloc_prog_mem :: nat
  mm_free_list :: "addr option"
  mm_alloc_list :: "addr option"
  mm_chunks :: "addr \<rightharpoonup> mp_chunk"
  mm_ends :: "addr \<rightharpoonup> addr"

record ld_mempool =
  mp_last_id :: nat
  mp_auto_extend :: bool
  mp_mempool_size :: nat
  mp_max_mempool_size :: nat
  mp_alloc_mempool_size :: nat
  mp_mlist :: "mp_memory list"

text \<open>The size of a header and of an end pointer; the address of malloc is that of the block's data.\<close>

definition chunkheader :: nat where
  "chunkheader = 32"

definition chunkend :: nat where
  "chunkend = 8"

text \<open>\<open>MP_ALIGN_SIZE (wantsize + MP_CHUNKHEADER + MP_CHUNKEND)\<close>, on 64 bits.\<close>

definition align_size :: "u64 \<Rightarrow> u64" where
  "align_size n = (n + 7) AND (NOT 7)"

definition needed_size :: "u64 \<Rightarrow> nat" where
  "needed_size wantsize = unat (align_size (wantsize + 32 + 8))"

text \<open>\<open>MP_INIT_MEMORY_STRUCT\<close>: one free chunk, if its header fits in.\<close>

definition init_memory :: "mp_memory \<Rightarrow> nat \<Rightarrow> mp_memory option" where
  "init_memory mm sz =
     (if sz < chunkheader then None
      else Some (mm\<lparr>mm_mempool_size := sz, mm_alloc_mem := 0, mm_alloc_prog_mem := 0, mm_free_list := Some (mm_start mm),
        mm_chunks := (mm_chunks mm)(mm_start mm \<mapsto> \<lparr>ck_alloc_mem = sz, ck_prev = None, ck_next = None, ck_is_free = True\<rparr>),
        mm_alloc_list := None\<rparr>))"


section \<open>The list macros\<close>

definition upd_chunk :: "addr \<Rightarrow> (mp_chunk \<Rightarrow> mp_chunk) \<Rightarrow> (addr \<rightharpoonup> mp_chunk) \<Rightarrow> (addr \<rightharpoonup> mp_chunk) option" where
  "upd_chunk a f ch = (case ch a of None \<Rightarrow> None | Some c \<Rightarrow> Some (ch(a \<mapsto> f c)))"

text \<open>The assignment to a field of \<open>*a\<close> that is guarded by \<open>if (a)\<close>.\<close>

definition upd_opt :: "addr option \<Rightarrow> (mp_chunk \<Rightarrow> mp_chunk) \<Rightarrow> (addr \<rightharpoonup> mp_chunk) \<Rightarrow> (addr \<rightharpoonup> mp_chunk) option" where
  "upd_opt p f ch = (case p of None \<Rightarrow> Some ch | Some a \<Rightarrow> upd_chunk a f ch)"

definition dlinklist_ins_frt :: "addr option \<Rightarrow> addr \<Rightarrow> (addr \<rightharpoonup> mp_chunk) \<Rightarrow> (addr option \<times> (addr \<rightharpoonup> mp_chunk)) option" where
  "dlinklist_ins_frt head x ch = do {
     ch \<leftarrow> upd_chunk x (\<lambda>c. c\<lparr>ck_prev := None, ck_next := head\<rparr>) ch;
     ch \<leftarrow> upd_opt head (\<lambda>c. c\<lparr>ck_prev := Some x\<rparr>) ch;
     Some (Some x, ch) }"

definition dlinklist_del :: "addr option \<Rightarrow> addr \<Rightarrow> (addr \<rightharpoonup> mp_chunk) \<Rightarrow> (addr option \<times> (addr \<rightharpoonup> mp_chunk)) option" where
  "dlinklist_del head x ch = do {
     c \<leftarrow> ch x;
     case ck_prev c of
       None \<Rightarrow> do { ch \<leftarrow> upd_opt (ck_next c) (\<lambda>d. d\<lparr>ck_prev := None\<rparr>) ch; Some (ck_next c, ch) }
     | Some p \<Rightarrow> do {
         ch \<leftarrow> upd_chunk p (\<lambda>d. d\<lparr>ck_next := ck_next c\<rparr>) ch;
         ch \<leftarrow> upd_opt (ck_next c) (\<lambda>d. d\<lparr>ck_prev := Some p\<rparr>) ch;
         Some (head, ch) } }"


section \<open>Allocation\<close>

text \<open>The walk along the free list to the first chunk that is large enough.\<close>

fun find_free :: "nat \<Rightarrow> nat \<Rightarrow> (addr \<rightharpoonup> mp_chunk) \<Rightarrow> addr option \<Rightarrow> addr option option" where
  "find_free 0 needed ch p = None"
| "find_free (Suc fuel) needed ch None = Some None"
| "find_free (Suc fuel) needed ch (Some a) =
     (case ch a of
        None \<Rightarrow> None
      | Some c \<Rightarrow> if ck_alloc_mem c \<ge> needed then Some (Some a) else find_free fuel needed ch (ck_next c))"

text \<open>Cut \<open>needed\<close> bytes off the front of the free chunk \<open>a\<close>; the rest takes its place in the free list.\<close>

definition split_chunk :: "nat \<Rightarrow> mp_memory \<Rightarrow> addr \<Rightarrow> mp_chunk \<Rightarrow> mp_memory option" where
  "split_chunk needed mm a c = (let b = a + needed; rest = ck_alloc_mem c - needed; ch = mm_chunks mm in do {
     ch \<leftarrow> Some (ch(b \<mapsto> c\<lparr>ck_alloc_mem := rest\<rparr>));
     (fl, ch) \<leftarrow> (case ck_prev c of
        None \<Rightarrow> Some (Some b, ch)
      | Some p \<Rightarrow> map_option (Pair (mm_free_list mm)) (upd_chunk p (\<lambda>d. d\<lparr>ck_next := Some b\<rparr>) ch));
     ch \<leftarrow> upd_opt (ck_next c) (\<lambda>d. d\<lparr>ck_prev := Some b\<rparr>) ch;
     ch \<leftarrow> upd_chunk a (\<lambda>d. d\<lparr>ck_is_free := False, ck_alloc_mem := needed\<rparr>) ch;
     Some (mm\<lparr>mm_free_list := fl, mm_chunks := ch,
       mm_ends := (mm_ends mm)(b + rest - chunkend \<mapsto> b, a + needed - chunkend \<mapsto> a)\<rparr>) })"

definition take_whole :: "mp_memory \<Rightarrow> addr \<Rightarrow> mp_memory option" where
  "take_whole mm a = do {
     (fl, ch) \<leftarrow> dlinklist_del (mm_free_list mm) a (mm_chunks mm);
     ch \<leftarrow> upd_chunk a (\<lambda>d. d\<lparr>ck_is_free := False\<rparr>) ch;
     Some (mm\<lparr>mm_free_list := fl, mm_chunks := ch\<rparr>) }"

definition take_chunk :: "nat \<Rightarrow> mp_memory \<Rightarrow> addr \<Rightarrow> (mp_memory \<times> addr) option" where
  "take_chunk needed mm a = do {
     c \<leftarrow> mm_chunks mm a;
     mm \<leftarrow> (if ck_alloc_mem c - needed > chunkheader + chunkend then split_chunk needed mm a c else take_whole mm a);
     (al, ch) \<leftarrow> dlinklist_ins_frt (mm_alloc_list mm) a (mm_chunks mm);
     d \<leftarrow> ch a;
     Some (mm\<lparr>mm_alloc_list := al, mm_chunks := ch, mm_alloc_mem := mm_alloc_mem mm + ck_alloc_mem d,
       mm_alloc_prog_mem := mm_alloc_prog_mem mm + (ck_alloc_mem d - chunkheader - chunkend)\<rparr>, a + chunkheader) }"

text \<open>The search through all blocks: \<open>Some None\<close> if none has a large enough free chunk.\<close>

fun find_memory :: "nat \<Rightarrow> nat \<Rightarrow> mp_memory list \<Rightarrow> (mp_memory list \<times> addr) option option" where
  "find_memory sz needed [] = Some None"
| "find_memory sz needed (mm # ms) = do {
     a \<leftarrow> (if sz - mm_alloc_mem mm < needed then Some None
          else find_free (Suc (mm_mempool_size mm)) needed (mm_chunks mm) (mm_free_list mm));
     case a of
       Some a \<Rightarrow> do { (mm, p) \<leftarrow> take_chunk needed mm a; Some (Some (mm # ms, p)) }
     | None \<Rightarrow> map_option (map_option (\<lambda>(ms, p). (mm # ms, p))) (find_memory sz needed ms) }"

definition new_memory :: "addr \<Rightarrow> nat \<Rightarrow> nat \<Rightarrow> mp_memory option" where
  "new_memory a i sz = init_memory
     \<lparr>mm_start = a, mm_id = i, mm_mempool_size = 0, mm_alloc_mem = 0, mm_alloc_prog_mem = 0, mm_free_list = None,
       mm_alloc_list = None, mm_chunks = Map.empty, mm_ends = Map.empty\<rparr> sz"

text \<open>\<open>extend_memory_list\<close>, when malloc has returned the address \<open>a\<close>.\<close>

definition extend_memory_list :: "ld_mempool \<Rightarrow> addr \<Rightarrow> nat \<Rightarrow> ld_mempool option" where
  "extend_memory_list mp a new_mempool_sz = do {
     mm \<leftarrow> new_memory a (mp_last_id mp) new_mempool_sz;
     Some (mp\<lparr>mp_last_id := mp_last_id mp + 1, mp_mlist := mm # mp_mlist mp\<rparr>) }"

text \<open>
  \<open>mempool_alloc\<close>. The list holds the results of the calls of malloc, \<open>None\<close> for a failure; the jump
  back to \<open>FIND_FREE_CHUNK\<close> after each successful extension is the recursive call.
\<close>

fun alloc_loop :: "addr option list \<Rightarrow> ld_mempool \<Rightarrow> nat \<Rightarrow> (ld_mempool \<times> addr option) option" where
  "alloc_loop ms mp needed = do {
     r \<leftarrow> find_memory (mp_mempool_size mp) needed (mp_mlist mp);
     case r of
       Some (l, p) \<Rightarrow> Some (mp\<lparr>mp_mlist := l\<rparr>, Some p)
     | None \<Rightarrow>
         if \<not> mp_auto_extend mp \<or> mp_alloc_mempool_size mp + needed > mp_max_mempool_size mp then Some (mp, None)
         else let add = mp_max_mempool_size mp - mp_mempool_size mp; add = (if add \<ge> mp_mempool_size mp then mp_mempool_size mp else add) in
           case ms of
             [] \<Rightarrow> None
           | None # _ \<Rightarrow> Some (mp, None)
           | Some a # ms \<Rightarrow> do {
               mp \<leftarrow> extend_memory_list mp a add;
               alloc_loop ms (mp\<lparr>mp_alloc_mempool_size := mp_alloc_mempool_size mp + add\<rparr>) needed } }"

definition mempool_alloc :: "addr option list \<Rightarrow> ld_mempool \<Rightarrow> u64 \<Rightarrow> (ld_mempool \<times> addr option) option" where
  "mempool_alloc ms mp wantsize =
     (if wantsize \<le> 0 then Some (mp, None)
      else if needed_size wantsize > mp_mempool_size mp then Some (mp, None)
      else alloc_loop ms mp (needed_size wantsize))"

text \<open>\<open>junk\<close> is what malloc left in \<open>auto_extend\<close>, which is only written when the pool may grow.\<close>

definition mempool_init :: "bool \<Rightarrow> addr option \<Rightarrow> bool \<Rightarrow> nat \<Rightarrow> nat \<Rightarrow> ld_mempool option option" where
  "mempool_init ok m junk max_mempool_size mempool_size =
     (if mempool_size > max_mempool_size \<or> \<not> ok then Some None
      else case m of
        None \<Rightarrow> Some None
      | Some a \<Rightarrow> do {
          mm \<leftarrow> new_memory a 0 mempool_size;
          Some (Some \<lparr>mp_last_id = 1, mp_auto_extend = (mempool_size < max_mempool_size \<or> junk), mp_mempool_size = mempool_size,
            mp_max_mempool_size = max_mempool_size, mp_alloc_mempool_size = mempool_size, mp_mlist = [mm]\<rparr>) })"


section \<open>Release\<close>

text \<open>The first block of the list whose range, taken with the pool's block size, contains \<open>p\<close>.\<close>

fun find_memory_list :: "nat \<Rightarrow> mp_memory list \<Rightarrow> addr \<Rightarrow> nat option" where
  "find_memory_list sz [] p = None"
| "find_memory_list sz (mm # ms) p =
     (if mm_start mm \<le> p \<and> p < mm_start mm + sz then Some 0 else map_option Suc (find_memory_list sz ms p))"

text \<open>Back to the first of the free chunks before \<open>p0\<close>; \<open>p1\<close> is the last one seen free.\<close>

fun merge_back :: "nat \<Rightarrow> mp_memory \<Rightarrow> addr \<Rightarrow> addr \<Rightarrow> addr option" where
  "merge_back 0 mm p0 p1 = None"
| "merge_back (Suc fuel) mm p0 p1 = do {
     c \<leftarrow> mm_chunks mm p0;
     if \<not> ck_is_free c then Some p1
     else if p0 \<le> mm_start mm + chunkend + chunkheader then Some p0
     else do { q \<leftarrow> mm_ends mm (p0 - chunkend); merge_back fuel mm q p0 } }"

text \<open>Take the free chunks from \<open>p0\<close> on into \<open>p1\<close>.\<close>

fun merge_forward :: "nat \<Rightarrow> nat \<Rightarrow> mp_memory \<Rightarrow> addr \<Rightarrow> addr \<Rightarrow> mp_memory option" where
  "merge_forward 0 sz mm p0 p1 = None"
| "merge_forward (Suc fuel) sz mm p0 p1 =
     (if \<not> p0 < mm_start mm + sz then Some mm
      else do {
        c \<leftarrow> mm_chunks mm p0;
        if \<not> ck_is_free c then Some mm
        else do {
          (fl, ch) \<leftarrow> dlinklist_del (mm_free_list mm) p0 (mm_chunks mm);
          ch \<leftarrow> upd_chunk p1 (\<lambda>d. d\<lparr>ck_alloc_mem := ck_alloc_mem d + ck_alloc_mem c\<rparr>) ch;
          merge_forward fuel sz (mm\<lparr>mm_free_list := fl, mm_chunks := ch\<rparr>) (p0 + ck_alloc_mem c) p1 } })"

definition merge_free_chunk :: "nat \<Rightarrow> mp_memory \<Rightarrow> addr \<Rightarrow> mp_memory option" where
  "merge_free_chunk sz mm c = do {
     p1 \<leftarrow> merge_back (Suc (mm_mempool_size mm)) mm c c;
     d \<leftarrow> mm_chunks mm p1;
     mm \<leftarrow> merge_forward (Suc (mm_mempool_size mm)) sz mm (p1 + ck_alloc_mem d) p1;
     d \<leftarrow> mm_chunks mm p1;
     Some (mm\<lparr>mm_ends := (mm_ends mm)(p1 + ck_alloc_mem d - chunkend \<mapsto> p1)\<rparr>) }"

definition free_in :: "nat \<Rightarrow> mp_memory \<Rightarrow> addr \<Rightarrow> mp_memory option" where
  "free_in sz mm ck = do {
     (al, ch) \<leftarrow> dlinklist_del (mm_alloc_list mm) ck (mm_chunks mm);
     (fl, ch) \<leftarrow> dlinklist_ins_frt (mm_free_list mm) ck ch;
     ch \<leftarrow> upd_chunk ck (\<lambda>d. d\<lparr>ck_is_free := True\<rparr>) ch;
     d \<leftarrow> ch ck;
     merge_free_chunk sz (mm\<lparr>mm_alloc_list := al, mm_free_list := fl, mm_chunks := ch, mm_alloc_mem := mm_alloc_mem mm - ck_alloc_mem d,
       mm_alloc_prog_mem := mm_alloc_prog_mem mm - (ck_alloc_mem d - chunkheader - chunkend)\<rparr>) ck }"

text \<open>\<open>mempool_free\<close> of a pointer that is not NULL.\<close>

definition mempool_free :: "ld_mempool \<Rightarrow> addr \<Rightarrow> ld_mempool option" where
  "mempool_free mp p = do {
     i \<leftarrow> (if mp_auto_extend mp then find_memory_list (mp_mempool_size mp) (mp_mlist mp) p else if mp_mlist mp = [] then None else Some 0);
     mm \<leftarrow> free_in (mp_mempool_size mp) (mp_mlist mp ! i) (p - chunkheader);
     Some (mp\<lparr>mp_mlist := (mp_mlist mp)[i := mm]\<rparr>) }"

fun clear_all :: "mp_memory list \<Rightarrow> mp_memory list option" where
  "clear_all [] = Some []"
| "clear_all (mm # ms) = do { mm \<leftarrow> init_memory mm (mm_mempool_size mm); ms \<leftarrow> clear_all ms; Some (mm # ms) }"

definition mempool_clear :: "ld_mempool \<Rightarrow> ld_mempool option" where
  "mempool_clear mp = map_option (\<lambda>l. mp\<lparr>mp_mlist := l\<rparr>) (clear_all (mp_mlist mp))"

text \<open>\<open>mempool_destroy\<close> gives every block back to free.\<close>

definition mempool_destroy :: "ld_mempool \<Rightarrow> addr list" where
  "mempool_destroy mp = map mm_start (mp_mlist mp)"

text \<open>The statistics.\<close>

definition get_memory_list_count :: "ld_mempool \<Rightarrow> nat" where
  "get_memory_list_count mp = length (mp_mlist mp)"

fun chunk_count :: "nat \<Rightarrow> (addr \<rightharpoonup> mp_chunk) \<Rightarrow> addr option \<Rightarrow> nat option" where
  "chunk_count 0 ch p = None"
| "chunk_count (Suc fuel) ch None = Some 0"
| "chunk_count (Suc fuel) ch (Some a) = (case ch a of None \<Rightarrow> None | Some c \<Rightarrow> map_option Suc (chunk_count fuel ch (ck_next c)))"

definition get_memory_info :: "mp_memory \<Rightarrow> (nat \<times> nat) option" where
  "get_memory_info mm = do {
     f \<leftarrow> chunk_count (Suc (mm_mempool_size mm)) (mm_chunks mm) (mm_free_list mm);
     a \<leftarrow> chunk_count (Suc (mm_mempool_size mm)) (mm_chunks mm) (mm_alloc_list mm);
     Some (f, a) }"

definition get_memory_id :: "mp_memory \<Rightarrow> nat" where
  "get_memory_id mm = mm_id mm"

definition GetTotalMemory :: "ld_mempool \<Rightarrow> nat" where
  "GetTotalMemory mp = mp_alloc_mempool_size mp"

definition GetUsedMemory :: "ld_mempool \<Rightarrow> nat" where
  "GetUsedMemory mp = fold (\<lambda>mm n. n + mm_alloc_mem mm) (mp_mlist mp) 0"

definition GetProgMemory :: "ld_mempool \<Rightarrow> nat" where
  "GetProgMemory mp = fold (\<lambda>mm n. n + mm_alloc_prog_mem mm) (mp_mlist mp) 0"

end
