(* ===== verification/Mempool_Layout.thy ===== *)
theory Mempool_Layout
  imports Mempool
begin

text \<open>
  What the memory of a block means: its chunks tile the block from the start to the end, each with
  its size and whether it is free, and the free and the allocated ones are the two linked lists.
  The theory shows how the list macros, the cutting of a chunk and the merging of free chunks act
  on this picture.
\<close>

section \<open>Doubly linked lists\<close>

fun hd_or :: "'a option \<Rightarrow> 'a list \<Rightarrow> 'a option" where
  "hd_or e [] = e"
| "hd_or e (x # xs) = Some x"

abbreviation hd_opt :: "'a list \<Rightarrow> 'a option" where
  "hd_opt \<equiv> hd_or None"

lemma hd_or_append [simp]: "hd_or e (xs @ ys) = hd_or (hd_or e ys) xs"
  by (cases xs) auto

fun dseg :: "(addr \<rightharpoonup> mp_chunk) \<Rightarrow> addr option \<Rightarrow> addr list \<Rightarrow> addr option \<Rightarrow> bool" where
  "dseg ch p [] e \<longleftrightarrow> True"
| "dseg ch p (x # xs) e \<longleftrightarrow> (\<exists>c. ch x = Some c \<and> ck_prev c = p \<and> ck_next c = hd_or e xs \<and> dseg ch (Some x) xs e)"

definition last_opt :: "addr option \<Rightarrow> addr list \<Rightarrow> addr option" where
  "last_opt p xs = (if xs = [] then p else Some (last xs))"

text \<open>What is left of the chunks when the links are forgotten.\<close>

definition payload :: "(addr \<rightharpoonup> mp_chunk) \<Rightarrow> addr \<rightharpoonup> nat \<times> bool" where
  "payload ch a = map_option (\<lambda>c. (ck_alloc_mem c, ck_is_free c)) (ch a)"

lemma last_opt_simps [simp]: "last_opt p [] = p" "last_opt p (x # xs) = last_opt (Some x) xs" "last_opt p (xs @ [x]) = Some x"
  by (simp_all add: last_opt_def)

lemma dseg_append [simp]: "dseg ch p (xs @ ys) e \<longleftrightarrow> dseg ch p xs (hd_or e ys) \<and> dseg ch (last_opt p xs) ys e"
  by (induction xs arbitrary: p) auto

lemma dseg_cong: "(\<And>x. x \<in> set xs \<Longrightarrow> ch' x = ch x) \<Longrightarrow> dseg ch' p xs e = dseg ch p xs e"
  by (induction xs arbitrary: p) auto

lemma dseg_upd [simp]: "x \<notin> set xs \<Longrightarrow> dseg (ch(x := v)) p xs e = dseg ch p xs e"
  by (rule dseg_cong) auto

lemma dseg_same_links:
  assumes "ch a = Some c" "ck_prev c' = ck_prev c" "ck_next c' = ck_next c"
  shows "dseg (ch(a \<mapsto> c')) p xs e = dseg ch p xs e"
  using assms by (induction xs arbitrary: p) auto

lemma dseg_mem: "dseg ch p xs e \<Longrightarrow> x \<in> set xs \<Longrightarrow> \<exists>c. ch x = Some c"
  by (induction xs arbitrary: p) auto

lemma upd_chunk_Some: "ch a = Some c \<Longrightarrow> upd_chunk a f ch = Some (ch(a \<mapsto> f c))"
  by (simp add: upd_chunk_def)

lemma payload_upd [simp]:
  "ch a = Some c \<Longrightarrow> payload (ch(a \<mapsto> c\<lparr>ck_prev := p\<rparr>)) = payload ch"
  "ch a = Some c \<Longrightarrow> payload (ch(a \<mapsto> c\<lparr>ck_next := p\<rparr>)) = payload ch"
  "ch a = Some c \<Longrightarrow> payload (ch(a \<mapsto> c\<lparr>ck_prev := p, ck_next := q\<rparr>)) = payload ch"
  by (auto simp: payload_def fun_eq_iff)

lemma payload_set: "payload (ch(a \<mapsto> c)) = (payload ch)(a \<mapsto> (ck_alloc_mem c, ck_is_free c))"
  by (auto simp: payload_def fun_eq_iff)

text \<open>The assignment to the first chunk behind a gap.\<close>

lemma upd_opt_prev:
  assumes "dseg ch p xs e" "distinct xs" "e = None"
  shows "\<exists>ch'. upd_opt (hd_opt xs) (\<lambda>d. d\<lparr>ck_prev := q\<rparr>) ch = Some ch' \<and> dseg ch' q xs e \<and> payload ch' = payload ch \<and> (\<forall>y. y \<notin> set xs \<longrightarrow> ch' y = ch y)"
proof (cases xs)
  case (Cons x ys)
  then obtain c where c: "ch x = Some c" using assms(1) by auto
  then have "dseg (ch(x \<mapsto> c\<lparr>ck_prev := q\<rparr>)) q (x # ys) e" using assms Cons by auto
  then show ?thesis using Cons c by (auto simp: upd_opt_def upd_chunk_Some)
qed (simp add: upd_opt_def)

lemma ins_frt_ok:
  assumes "dseg ch None xs None" "distinct xs" "x \<notin> set xs" "ch x = Some c"
  shows "\<exists>ch'. dlinklist_ins_frt (hd_opt xs) x ch = Some (Some x, ch') \<and> dseg ch' None (x # xs) None \<and> payload ch' = payload ch \<and>
     (\<forall>y. y \<noteq> x \<longrightarrow> y \<notin> set xs \<longrightarrow> ch' y = ch y)"
proof -
  define ch1 where "ch1 = ch(x \<mapsto> c\<lparr>ck_prev := None, ck_next := hd_opt xs\<rparr>)"
  have d1: "dseg ch1 None xs None" using assms(1,3) by (simp add: ch1_def)
  from upd_opt_prev [OF d1 assms(2) refl, of "Some x"] obtain ch2 where ch2:
    "upd_opt (hd_opt xs) (\<lambda>d. d\<lparr>ck_prev := Some x\<rparr>) ch1 = Some ch2" "dseg ch2 (Some x) xs None" "payload ch2 = payload ch1" "\<forall>y. y \<notin> set xs \<longrightarrow> ch2 y = ch1 y" by blast
  have "ch2 x = Some (c\<lparr>ck_prev := None, ck_next := hd_opt xs\<rparr>)" using ch2(4) assms(3) by (simp add: ch1_def)
  then have "dseg ch2 None (x # xs) None" using ch2(2) by auto
  moreover have "payload ch2 = payload ch" using ch2(3) assms(4) by (simp add: ch1_def)
  ultimately show ?thesis using ch2(1,4) assms(4) by (auto simp: dlinklist_ins_frt_def upd_chunk_Some ch1_def [symmetric]) (simp add: ch1_def)
qed

lemma del_ok:
  assumes "dseg ch None (xs @ x # ys) None" "distinct (xs @ x # ys)"
  shows "\<exists>ch'. dlinklist_del (hd_opt (xs @ x # ys)) x ch = Some (hd_opt (xs @ ys), ch') \<and> dseg ch' None (xs @ ys) None \<and> payload ch' = payload ch \<and>
     (\<forall>y. y \<notin> set xs \<longrightarrow> y \<notin> set ys \<longrightarrow> ch' y = ch y)"
proof -
  obtain c where c: "ch x = Some c" "ck_prev c = last_opt None xs" "ck_next c = hd_opt ys" and ys: "dseg ch (Some x) ys None"
    using assms(1) by auto
  show ?thesis
  proof (cases xs rule: rev_cases)
    case Nil
    from upd_opt_prev [OF ys _ refl, of None] assms(2) obtain ch' where
      "upd_opt (hd_opt ys) (\<lambda>d. d\<lparr>ck_prev := None\<rparr>) ch = Some ch'" "dseg ch' None ys None" "payload ch' = payload ch" "\<forall>y. y \<notin> set ys \<longrightarrow> ch' y = ch y" by auto
    then show ?thesis using Nil c by (simp add: dlinklist_del_def)
  next
    case (snoc zs p)
    have xs: "dseg ch None (zs @ [p]) (Some x)" using assms(1) snoc by auto
    then obtain d where d: "ch p = Some d" by auto
    define ch1 where "ch1 = ch(p \<mapsto> d\<lparr>ck_next := hd_opt ys\<rparr>)"
    have d1: "dseg ch1 None (zs @ [p]) (hd_opt ys)" using xs d assms(2) snoc by (auto simp: ch1_def)
    have "dseg ch1 (Some x) ys None" using ys assms(2) snoc by (simp add: ch1_def)
    from upd_opt_prev [OF this _ refl, of "Some p"] assms(2) obtain ch2 where ch2: "upd_opt (hd_opt ys) (\<lambda>d. d\<lparr>ck_prev := Some p\<rparr>) ch1 = Some ch2"
      "dseg ch2 (Some p) ys None" "payload ch2 = payload ch1" "\<forall>y. y \<notin> set ys \<longrightarrow> ch2 y = ch1 y" by auto
    have "dseg ch2 None (zs @ [p]) (hd_opt ys)" using d1 ch2(4) assms(2) snoc by (subst dseg_cong [of _ _ ch1]) auto
    then have "dseg ch2 None (xs @ ys) None" using ch2(2) snoc by auto
    moreover have "payload ch2 = payload ch" using ch2(3) d by (simp add: ch1_def)
    ultimately show ?thesis
      using snoc c d ch2(1,4) by (cases zs) (auto simp: dlinklist_del_def upd_chunk_Some ch1_def [symmetric], (auto simp: ch1_def)+)
  qed
qed

text \<open>A chunk of the list is replaced by a new one in the same place.\<close>

lemma replace_ok:
  fixes r
  assumes "dseg ch None (xs @ a # ys) None" "distinct (xs @ a # ys)" "b \<notin> set (xs @ a # ys)" "ch a = Some c"
  defines "ch0 \<equiv> ch(b \<mapsto> c\<lparr>ck_alloc_mem := r\<rparr>)"
  shows "\<exists>ch1 ch2. (case ck_prev c of None \<Rightarrow> Some (Some b, ch0)
        | Some p \<Rightarrow> map_option (Pair (hd_opt (xs @ a # ys))) (upd_chunk p (\<lambda>d. d\<lparr>ck_next := Some b\<rparr>) ch0)) = Some (hd_opt (xs @ b # ys), ch1) \<and>
     upd_opt (ck_next c) (\<lambda>d. d\<lparr>ck_prev := Some b\<rparr>) ch1 = Some ch2 \<and>
     dseg ch2 None (xs @ b # ys) None \<and> payload ch2 = payload ch0 \<and> (\<forall>y. y \<notin> set (xs @ ys) \<longrightarrow> ch2 y = ch0 y)"
proof -
  have c: "ck_prev c = last_opt None xs" "ck_next c = hd_opt ys" and ys: "dseg ch (Some a) ys None" and xs: "dseg ch None xs (Some a)"
    using assms(1,4) by auto
  have "\<exists>ch1. (case ck_prev c of None \<Rightarrow> Some (Some b, ch0)
        | Some p \<Rightarrow> map_option (Pair (hd_opt (xs @ a # ys))) (upd_chunk p (\<lambda>d. d\<lparr>ck_next := Some b\<rparr>) ch0)) = Some (hd_opt (xs @ b # ys), ch1) \<and>
     dseg ch1 None xs (Some b) \<and> payload ch1 = payload ch0 \<and> (\<forall>y. y \<notin> set xs \<longrightarrow> ch1 y = ch0 y)"
  proof (cases xs rule: rev_cases)
    case (snoc zs p)
    then obtain d where d: "ch p = Some d" using xs by auto
    moreover have "p \<noteq> b" using snoc assms(3) by auto
    ultimately show ?thesis using snoc c(1) xs assms(2,3)
      by (intro exI [of _ "ch0(p \<mapsto> d\<lparr>ck_next := Some b\<rparr>)"]) (cases zs; auto simp: upd_chunk_def ch0_def)
  qed (use c in simp)
  then obtain ch1 where ch1: "(case ck_prev c of None \<Rightarrow> Some (Some b, ch0)
        | Some p \<Rightarrow> map_option (Pair (hd_opt (xs @ a # ys))) (upd_chunk p (\<lambda>d. d\<lparr>ck_next := Some b\<rparr>) ch0)) = Some (hd_opt (xs @ b # ys), ch1)"
     "dseg ch1 None xs (Some b)" "payload ch1 = payload ch0" "\<forall>y. y \<notin> set xs \<longrightarrow> ch1 y = ch0 y" by blast
  have "dseg ch1 (Some a) ys None" using ys ch1(4) assms(2,3) by (subst dseg_cong [of _ _ ch]) (auto simp: ch0_def)
  from upd_opt_prev [OF this _ refl, of "Some b"] assms(2) obtain ch2 where ch2:
    "upd_opt (hd_opt ys) (\<lambda>d. d\<lparr>ck_prev := Some b\<rparr>) ch1 = Some ch2" "dseg ch2 (Some b) ys None" "payload ch2 = payload ch1" "\<forall>y. y \<notin> set ys \<longrightarrow> ch2 y = ch1 y" by auto
  have "dseg ch2 None xs (Some b)" using ch1(2) ch2(4) assms(2) by (subst dseg_cong [of _ _ ch1]) auto
  moreover have "ch2 b = Some (c\<lparr>ck_alloc_mem := r\<rparr>)" using ch1(4) ch2(4) assms(3) by (simp add: ch0_def)
  ultimately have "dseg ch2 None (xs @ b # ys) None" using ch2(2) c by auto
  then show ?thesis using ch1(1,3,4) ch2(1,3,4) c(2) by auto
qed


section \<open>The chunks of a block\<close>

type_synonym layout = "(nat \<times> bool) list"

definition span :: "layout \<Rightarrow> nat" where
  "span L = sum_list (map fst L)"

fun laid :: "(addr \<rightharpoonup> nat \<times> bool) \<Rightarrow> addr \<Rightarrow> layout \<Rightarrow> bool" where
  "laid m a [] \<longleftrightarrow> True"
| "laid m a (t # L) \<longleftrightarrow> m a = Some t \<and> laid m (a + fst t) L"

text \<open>Every chunk that does not reach to the end \<open>e\<close> of the block has its end pointer.\<close>

fun ended :: "addr \<Rightarrow> (addr \<rightharpoonup> addr) \<Rightarrow> addr \<Rightarrow> layout \<Rightarrow> bool" where
  "ended e ft a [] \<longleftrightarrow> True"
| "ended e ft a (t # L) \<longleftrightarrow> (a + fst t < e \<longrightarrow> ft (a + fst t - 8) = Some a) \<and> ended e ft (a + fst t) L"

fun starts :: "bool \<Rightarrow> addr \<Rightarrow> layout \<Rightarrow> addr set" where
  "starts f a [] = {}"
| "starts f a (t # L) = (if snd t = f then {a} else {}) \<union> starts f (a + fst t) L"

definition big :: "layout \<Rightarrow> bool" where
  "big L \<longleftrightarrow> (\<forall>t \<in> set L. 40 < fst t)"

definition used :: "layout \<Rightarrow> nat" where
  "used L = sum_list (map fst (filter (\<lambda>t. \<not> snd t) L))"

definition used_prog :: "layout \<Rightarrow> nat" where
  "used_prog L = sum_list (map (\<lambda>t. fst t - 40) (filter (\<lambda>t. \<not> snd t) L))"

lemma layout_simps [simp]:
  "span [] = 0" "span (t # L) = fst t + span L" "span (L @ M) = span L + span M"
  "big []" "big (t # L) \<longleftrightarrow> 40 < fst t \<and> big L" "big (L @ M) \<longleftrightarrow> big L \<and> big M"
  "used [] = 0" "used (t # L) = (if snd t then used L else fst t + used L)" "used (L @ M) = used L + used M"
  "used_prog [] = 0" "used_prog (t # L) = (if snd t then used_prog L else fst t - 40 + used_prog L)" "used_prog (L @ M) = used_prog L + used_prog M"
  by (auto simp: span_def big_def used_def used_prog_def)

lemma layout_append [simp]:
  "laid m a (L @ M) \<longleftrightarrow> laid m a L \<and> laid m (a + span L) M"
  "ended e ft a (L @ M) \<longleftrightarrow> ended e ft a L \<and> ended e ft (a + span L) M"
  "starts f a (L @ M) = starts f a L \<union> starts f (a + span L) M"
  by (induction L arbitrary: a) (auto simp: add.assoc)

lemma starts_range: "big L \<Longrightarrow> x \<in> starts f a L \<Longrightarrow> a \<le> x \<and> x < a + span L"
  by (induction L arbitrary: a) (fastforce split: if_splits)+

lemma starts_disjoint: "big L \<Longrightarrow> x \<in> starts True a L \<Longrightarrow> x \<notin> starts False a L"
proof (induction L arbitrary: a)
  case (Cons t L)
  then show ?case using starts_range [of L x _ "a + fst t"] by (auto split: if_splits)
qed simp

lemma laid_upd [simp]: "big L \<Longrightarrow> \<not> (a \<le> x \<and> x < a + span L) \<Longrightarrow> laid (m(x := v)) a L = laid m a L"
  by (induction L arbitrary: a) auto

lemma ended_upd [simp]: "big L \<Longrightarrow> \<not> (a \<le> x \<and> x < a + span L) \<Longrightarrow> ended e (ft(x := v)) a L = ended e ft a L"
  by (induction L arbitrary: a) auto

lemma starts_split:
  assumes "x \<in> starts f a L"
  obtains L1 n L2 where "L = L1 @ (n, f) # L2" "x = a + span L1"
  using assms
proof (induction L arbitrary: a thesis)
  case (Cons t L)
  show ?case
  proof (cases "snd t = f \<and> x = a")
    case True
    then show ?thesis using Cons.prems(1) [of "[]" "fst t" L] by (cases t) auto
  next
    case False
    then have "x \<in> starts f (a + fst t) L" using Cons.prems(2) by (auto split: if_splits)
    from Cons.IH [OF _ this] obtain L1 n L2 where "L = L1 @ (n, f) # L2" "x = a + fst t + span L1" by blast
    then show ?thesis using Cons.prems(1) [of "t # L1" n L2] by (simp add: add.assoc)
  qed
qed simp

end
