(* ===== verification/Mempool_Ops.thy ===== *)
theory Mempool_Ops
  imports Mempool_Layout
begin

text \<open>
  Taking a chunk of a block and giving it back, on the picture of \<open>Mempool_Layout\<close>: both always
  succeed, and what they do to the sequence of chunks is what one expects.
\<close>

section \<open>The representation of a block\<close>

definition mm_rep :: "mp_memory \<Rightarrow> layout \<Rightarrow> addr list \<Rightarrow> addr list \<Rightarrow> bool" where
  "mm_rep mm L fr al \<longleftrightarrow>
     laid (payload (mm_chunks mm)) (mm_start mm) L \<and> ended (mm_start mm + span L) (mm_ends mm) (mm_start mm) L \<and>
     span L = mm_mempool_size mm \<and> big L \<and>
     dseg (mm_chunks mm) None fr None \<and> mm_free_list mm = hd_opt fr \<and> distinct fr \<and> set fr = starts True (mm_start mm) L \<and>
     dseg (mm_chunks mm) None al None \<and> mm_alloc_list mm = hd_opt al \<and> distinct al \<and> set al = starts False (mm_start mm) L \<and>
     mm_alloc_mem mm = used L \<and> mm_alloc_prog_mem mm = used_prog L"

lemma mm_repD:
  assumes "mm_rep mm L fr al"
  shows "laid (payload (mm_chunks mm)) (mm_start mm) L" "ended (mm_start mm + span L) (mm_ends mm) (mm_start mm) L"
    "span L = mm_mempool_size mm" "big L"
    "dseg (mm_chunks mm) None fr None" "mm_free_list mm = hd_opt fr" "distinct fr" "set fr = starts True (mm_start mm) L"
    "dseg (mm_chunks mm) None al None" "mm_alloc_list mm = hd_opt al" "distinct al" "set al = starts False (mm_start mm) L"
    "mm_alloc_mem mm = used L" "mm_alloc_prog_mem mm = used_prog L"
  using assms by (auto simp: mm_rep_def)

definition mm_ok :: "mp_memory \<Rightarrow> layout \<Rightarrow> bool" where
  "mm_ok mm L \<longleftrightarrow> (\<exists>fr al. mm_rep mm L fr al)"

definition same_block :: "mp_memory \<Rightarrow> mp_memory \<Rightarrow> bool" where
  "same_block mm' mm \<longleftrightarrow> mm_start mm' = mm_start mm \<and> mm_id mm' = mm_id mm \<and> mm_mempool_size mm' = mm_mempool_size mm"

lemma payload_at: "payload ch a = Some (n, f) \<Longrightarrow> \<exists>c. ch a = Some c \<and> ck_alloc_mem c = n \<and> ck_is_free c = f"
  by (auto simp: payload_def)

lemma mm_rep_at:
  assumes "mm_rep mm (L1 @ (n, f) # L2) fr al"
  shows "\<exists>c. mm_chunks mm (mm_start mm + span L1) = Some c \<and> ck_alloc_mem c = n \<and> ck_is_free c = f"
  using mm_repD(1) [OF assms] by (auto intro: payload_at)

lemma init_memory_ok:
  assumes "40 < sz"
  shows "\<exists>mm'. init_memory mm sz = Some mm' \<and> mm_ok mm' [(sz, True)] \<and> mm_start mm' = mm_start mm \<and> mm_id mm' = mm_id mm \<and> mm_mempool_size mm' = sz"
proof -
  obtain mm' where mm': "init_memory mm sz = Some mm'" using assms by (simp add: init_memory_def chunkheader_def)
  then have "mm_rep mm' [(sz, True)] [mm_start mm] []" using assms by (auto simp: init_memory_def chunkheader_def mm_rep_def payload_def split: if_splits)
  then show ?thesis using mm' by (auto simp: mm_ok_def init_memory_def split: if_splits)
qed

lemma new_memory_ok: "40 < sz \<Longrightarrow> \<exists>mm. new_memory a i sz = Some mm \<and> mm_ok mm [(sz, True)] \<and> mm_start mm = a \<and> mm_id mm = i \<and> mm_mempool_size mm = sz"
  unfolding new_memory_def by (drule init_memory_ok) auto


section \<open>Taking a chunk\<close>

definition cut :: "nat \<Rightarrow> nat \<Rightarrow> layout" where
  "cut needed n = (if n - needed > 40 then [(needed, False), (n - needed, True)] else [(n, False)])"

text \<open>Between the removal from the free list and the insertion into the other one, a chunk is in neither.\<close>

definition mm_mid :: "mp_memory \<Rightarrow> layout \<Rightarrow> addr list \<Rightarrow> addr list \<Rightarrow> addr \<Rightarrow> bool" where
  "mm_mid mm L fr al a \<longleftrightarrow>
     laid (payload (mm_chunks mm)) (mm_start mm) L \<and> ended (mm_start mm + span L) (mm_ends mm) (mm_start mm) L \<and>
     span L = mm_mempool_size mm \<and> big L \<and>
     dseg (mm_chunks mm) None fr None \<and> mm_free_list mm = hd_opt fr \<and> distinct fr \<and> set fr = starts True (mm_start mm) L \<and>
     dseg (mm_chunks mm) None al None \<and> mm_alloc_list mm = hd_opt al \<and> distinct al \<and> a \<notin> set al \<and> set al \<union> {a} = starts False (mm_start mm) L"

lemma chunk_place:
  assumes "mm_rep mm (L1 @ (n, f) # L2) fr al"
  defines "a \<equiv> mm_start mm + span L1"
  shows "a \<notin> starts g (mm_start mm) L1" "a \<notin> starts g (a + n) L2" "40 < n" "a \<in> set (if f then fr else al)" "a \<notin> set (if f then al else fr)"
proof -
  have b: "big L1" "big L2" "40 < n" using mm_repD(4) [OF assms(1)] by auto
  show out: "a \<notin> starts g (mm_start mm) L1" "a \<notin> starts g (a + n) L2" "40 < n" for g
    using starts_range [OF b(1), of a g "mm_start mm"] starts_range [OF b(2), of a g "a + n"] b(3) by (auto simp: a_def)
  show "a \<in> set (if f then fr else al)" using mm_repD(8,12) [OF assms(1)] by (auto simp: a_def)
  show "a \<notin> set (if f then al else fr)" using mm_repD(8,12) [OF assms(1)] out by (auto simp: a_def add.assoc)
qed

lemma take_whole_ok:
  assumes "mm_rep mm (L1 @ (n, True) # L2) fr al"
  defines "a \<equiv> mm_start mm + span L1"
  shows "\<exists>mm' fr'. take_whole mm a = Some mm' \<and> mm_mid mm' (L1 @ (n, False) # L2) fr' al a \<and> same_block mm' mm \<and>
     mm_alloc_mem mm' = mm_alloc_mem mm \<and> mm_alloc_prog_mem mm' = mm_alloc_prog_mem mm"
proof -
  note r = mm_repD [OF assms(1)] and p = chunk_place [OF assms(1), folded a_def]
  obtain xs ys where fr: "fr = xs @ a # ys" using p(4) by (auto dest: split_list)
  from del_ok [of "mm_chunks mm" xs a ys] r(5,7) fr obtain ch where ch: "dlinklist_del (hd_opt fr) a (mm_chunks mm) = Some (hd_opt (xs @ ys), ch)"
    "dseg ch None (xs @ ys) None" "payload ch = payload (mm_chunks mm)" "\<forall>y. y \<notin> set xs \<longrightarrow> y \<notin> set ys \<longrightarrow> ch y = mm_chunks mm y" by auto
  obtain c where c: "mm_chunks mm a = Some c" "ck_alloc_mem c = n" "ck_is_free c" using mm_rep_at [OF assms(1)] by (auto simp: a_def)
  have cha: "ch a = Some c" using ch(4) c(1) r(7) fr by auto
  define ch' where "ch' = ch(a \<mapsto> c\<lparr>ck_is_free := False\<rparr>)"
  have pl: "payload ch' = (payload (mm_chunks mm))(a \<mapsto> (n, False))" by (simp add: ch'_def payload_set ch(3) c(2))
  have disj: "y \<notin> set al" if "y \<in> set fr" for y using that r(8,12) starts_disjoint [OF r(4)] by auto
  have "dseg ch' None al None" using r(9) ch(4) p(5) disj fr by (subst dseg_cong [of _ _ "mm_chunks mm"]) (auto simp: ch'_def)
  moreover have "dseg ch' None (xs @ ys) None" using ch(2) r(7) fr by (simp add: ch'_def)
  moreover have "laid (payload ch') (mm_start mm) (L1 @ (n, False) # L2)" using r(1,4) p(3) by (auto simp: pl a_def)
  moreover have "set (xs @ ys) = starts True (mm_start mm) (L1 @ (n, False) # L2)"
  proof -
    have "insert a (set (xs @ ys)) = insert a (starts True (mm_start mm) L1 \<union> starts True (a + n) L2)" using r(8) unfolding fr by (simp add: a_def)
    moreover have "a \<notin> set (xs @ ys)" using r(7) fr by simp
    ultimately show ?thesis using p(1,2) [of True] by (simp add: a_def insert_ident)
  qed
  moreover have "set al \<union> {a} = starts False (mm_start mm) (L1 @ (n, False) # L2)" using r(12) by (auto simp: a_def)
  ultimately show ?thesis using r p ch(1) cha fr
    by (intro exI [of _ "mm\<lparr>mm_free_list := hd_opt (xs @ ys), mm_chunks := ch'\<rparr>"] exI [of _ "xs @ ys"])
      (simp add: take_whole_def upd_chunk_Some mm_mid_def same_block_def ch'_def)
qed

lemma split_chunk_ok:
  assumes "mm_rep mm (L1 @ (n, True) # L2) fr al" "40 < needed" "40 < n - needed"
  defines "a \<equiv> mm_start mm + span L1"
  assumes c: "mm_chunks mm a = Some c"
  shows "\<exists>mm' fr'. split_chunk needed mm a c = Some mm' \<and> mm_mid mm' (L1 @ [(needed, False), (n - needed, True)] @ L2) fr' al a \<and> same_block mm' mm \<and>
     mm_alloc_mem mm' = mm_alloc_mem mm \<and> mm_alloc_prog_mem mm' = mm_alloc_prog_mem mm"
proof -
  note r = mm_repD [OF assms(1)] and p = chunk_place [OF assms(1), folded a_def]
  define b rest where "b = a + needed" and "rest = n - needed"
  have bg: "big L1" "big L2" using r(4) by auto
  have cn: "ck_alloc_mem c = n" "ck_is_free c" using mm_rep_at [OF assms(1)] c by (auto simp: a_def)
  have br: "b + rest = a + n" "a < b" "b < a + n" "40 < rest" using assms(2,3) by (auto simp: b_def rest_def)
  have bnew: "b \<notin> starts f (mm_start mm) L1" "b \<notin> starts f (a + n) L2" for f
    using starts_range [OF bg(1), of b f "mm_start mm"] starts_range [OF bg(2), of b f "a + n"] br by (auto simp: a_def)
  have out: "b \<notin> set fr" "b \<notin> set al" using bnew br(2) unfolding r(8,12) by (auto simp: a_def add.assoc)
  obtain xs ys where fr: "fr = xs @ a # ys" using p(4) by (auto dest: split_list)
  have dfr: "distinct (xs @ a # ys)" "b \<notin> set (xs @ a # ys)" using r(7) out(1) fr by auto
  define ch0 where "ch0 = (mm_chunks mm)(b \<mapsto> c\<lparr>ck_alloc_mem := rest\<rparr>)"
  from replace_ok [of "mm_chunks mm" xs a ys b c rest, folded ch0_def] r(5) dfr c fr obtain ch1 ch2 where ch:
    "(case ck_prev c of None \<Rightarrow> Some (Some b, ch0) | Some p \<Rightarrow> map_option (Pair (hd_opt fr)) (upd_chunk p (\<lambda>d. d\<lparr>ck_next := Some b\<rparr>) ch0)) = Some (hd_opt (xs @ b # ys), ch1)"
    "upd_opt (ck_next c) (\<lambda>d. d\<lparr>ck_prev := Some b\<rparr>) ch1 = Some ch2" "dseg ch2 None (xs @ b # ys) None" "payload ch2 = payload ch0" "\<forall>y. y \<notin> set (xs @ ys) \<longrightarrow> ch2 y = ch0 y" by auto
  have c2: "ch2 a = Some c" using ch(5) dfr c br(2) by (auto simp: ch0_def)
  define ch3 where "ch3 = ch2(a \<mapsto> c\<lparr>ck_is_free := False, ck_alloc_mem := needed\<rparr>)"
  have pl: "payload ch3 = (payload (mm_chunks mm))(b \<mapsto> (rest, True), a \<mapsto> (needed, False))"
    by (simp add: ch3_def payload_set ch(4)) (simp add: ch0_def payload_set cn)
  define mm' where "mm' = mm\<lparr>mm_free_list := hd_opt (xs @ b # ys), mm_chunks := ch3, mm_ends := (mm_ends mm)(b + rest - 8 \<mapsto> b, a + needed - 8 \<mapsto> a)\<rparr>"
  have res: "split_chunk needed mm a c = Some mm'"
    using ch(1) [folded r(6), unfolded ch0_def] ch(2) c2
    by (simp add: split_chunk_def Let_def cn b_def [symmetric] rest_def [symmetric] upd_chunk_Some ch3_def mm'_def chunkend_def)
  have f1: "dseg ch3 None al None"
  proof -
    have "ch3 y = mm_chunks mm y" if "y \<in> set al" for y
    proof -
      have "y \<notin> set fr" "y \<noteq> b" using that r(8,12) starts_disjoint [OF r(4)] out(2) by auto
      then show ?thesis using ch(5) fr by (simp add: ch3_def ch0_def)
    qed
    then show ?thesis using r(9) dseg_cong by metis
  qed
  have f2: "dseg ch3 None (xs @ b # ys) None" using ch(3) dfr br(2) by (simp add: ch3_def)
  have f3: "laid (payload ch3) (mm_start mm) (L1 @ (needed, False) # (rest, True) # L2)"
    using r(1) bg br by (auto simp: pl a_def b_def add.assoc)
  have f4: "ended (mm_start mm + span (L1 @ (n, True) # L2)) (mm_ends mm') (mm_start mm) (L1 @ (needed, False) # (rest, True) # L2)"
  proof -
    let ?ft = "(mm_ends mm)(b + rest - 8 \<mapsto> b, a + needed - 8 \<mapsto> a)" and ?e = "mm_start mm + span (L1 @ (n, True) # L2)"
    have pos: "a \<le> b + rest - 8" "a \<le> a + needed - 8" "b + rest - 8 < a + n" "a + needed - 8 < a + n" "b + rest - 8 \<noteq> a + needed - 8"
      using br assms(2) by (auto simp: b_def)
    have "ended ?e ?ft (mm_start mm) L1" "ended ?e ?ft (a + n) L2" using r(2) bg pos by (simp_all add: a_def)
    then show ?thesis using pos(5) br(1) by (simp add: mm'_def a_def b_def add.assoc)
  qed
  have f5: "set (xs @ b # ys) = starts True (mm_start mm) (L1 @ (needed, False) # (rest, True) # L2)"
  proof -
    have "insert a (set (xs @ ys)) = insert a (starts True (mm_start mm) L1 \<union> starts True (a + n) L2)" using r(8) unfolding fr by (simp add: a_def)
    moreover have "a \<notin> set (xs @ ys)" using r(7) fr by simp
    ultimately have "set (xs @ ys) = starts True (mm_start mm) L1 \<union> starts True (a + n) L2" using p(1,2) [of True] by (simp add: insert_ident)
    then show ?thesis using br(1) by (auto simp: a_def b_def add.assoc)
  qed
  have f6: "set al \<union> {a} = starts False (mm_start mm) (L1 @ (needed, False) # (rest, True) # L2)"
    using r(12) br(1) by (auto simp: a_def b_def add.assoc)
  have sp: "span (L1 @ (needed, False) # (rest, True) # L2) = span (L1 @ (n, True) # L2)" using br(1) by (simp add: b_def)
  have mm'_simps: "mm_start mm' = mm_start mm" "mm_chunks mm' = ch3" "mm_free_list mm' = hd_opt (xs @ b # ys)" "mm_alloc_list mm' = mm_alloc_list mm" "mm_mempool_size mm' = mm_mempool_size mm"
    by (simp_all add: mm'_def)
  have "big (L1 @ (needed, False) # (rest, True) # L2)" "a \<notin> set al" "distinct (xs @ b # ys)" using bg br(4) assms(2) p(5) dfr by auto
  then have "mm_mid mm' (L1 @ (needed, False) # (rest, True) # L2) (xs @ b # ys) al a"
    unfolding mm_mid_def mm'_simps sp by (intro conjI f1 f2 f3 f4 f5 f6 r(3,10,11) refl)
  then show ?thesis using res by (auto simp: mm'_def same_block_def rest_def simp del: mm'_simps)
qed

lemma take_chunk_ok:
  assumes "mm_ok mm (L1 @ (n, True) # L2)" "40 < needed" "needed \<le> n"
  shows "\<exists>mm'. take_chunk needed mm (mm_start mm + span L1) = Some (mm', mm_start mm + span L1 + 32) \<and> mm_ok mm' (L1 @ cut needed n @ L2) \<and> same_block mm' mm"
proof -
  define a where "a = mm_start mm + span L1"
  obtain fr al where rep: "mm_rep mm (L1 @ (n, True) # L2) fr al" using assms(1) by (auto simp: mm_ok_def)
  obtain c where c: "mm_chunks mm a = Some c" "ck_alloc_mem c = n" using mm_rep_at [OF rep] by (auto simp: a_def)
  have "\<exists>mm1 fr1. (if 40 < n - needed then split_chunk needed mm a c else take_whole mm a) = Some mm1 \<and> mm_mid mm1 (L1 @ cut needed n @ L2) fr1 al a \<and>
      same_block mm1 mm \<and> mm_alloc_mem mm1 = mm_alloc_mem mm \<and> mm_alloc_prog_mem mm1 = mm_alloc_prog_mem mm"
    using split_chunk_ok [OF rep assms(2), folded a_def, OF _ c(1)] take_whole_ok [OF rep, folded a_def] by (simp add: cut_def)
  then obtain mm1 fr1 where mm1: "(if 40 < n - needed then split_chunk needed mm a c else take_whole mm a) = Some mm1"
    "mm_mid mm1 (L1 @ cut needed n @ L2) fr1 al a" "same_block mm1 mm" "mm_alloc_mem mm1 = mm_alloc_mem mm" "mm_alloc_prog_mem mm1 = mm_alloc_prog_mem mm" by blast
  note m = mm1(2) [unfolded mm_mid_def]
  have a1: "a = mm_start mm1 + span L1" using mm1(3) by (simp add: a_def same_block_def)
  obtain k L3 where k: "cut needed n @ L2 = (k, False) # L3" "used (cut needed n) = k" "used_prog (cut needed n) = k - 40" by (cases "40 < n - needed") (auto simp: cut_def)
  then obtain d where d: "mm_chunks mm1 a = Some d" "ck_alloc_mem d = k" using m by (auto simp: a1 dest: payload_at)
  from ins_frt_ok [of "mm_chunks mm1" al a d] m d(1) obtain ch where ch: "dlinklist_ins_frt (mm_alloc_list mm1) a (mm_chunks mm1) = Some (Some a, ch)"
    "dseg ch None (a # al) None" "payload ch = payload (mm_chunks mm1)" "\<forall>y. y \<noteq> a \<longrightarrow> y \<notin> set al \<longrightarrow> ch y = mm_chunks mm1 y" by auto
  have cha: "map_option ck_alloc_mem (ch a) = Some k" using fun_cong [OF ch(3), of a] d by (auto simp: payload_def split: option.splits)
  define mm' where "mm' = mm1\<lparr>mm_alloc_list := Some a, mm_chunks := ch, mm_alloc_mem := mm_alloc_mem mm1 + k, mm_alloc_prog_mem := mm_alloc_prog_mem mm1 + (k - 40)\<rparr>"
  have "take_chunk needed mm a = Some (mm', a + 32)"
    using c mm1(1) ch(1) cha by (auto simp: take_chunk_def chunkheader_def chunkend_def mm'_def simp del: One_nat_def)
  moreover have "dseg ch None fr1 None"
  proof -
    have "big (L1 @ cut needed n @ L2)" "set al \<union> {a} = starts False (mm_start mm1) (L1 @ cut needed n @ L2)" "set fr1 = starts True (mm_start mm1) (L1 @ cut needed n @ L2)"
      using m by blast+
    then have "y \<notin> set al \<union> {a}" if "y \<in> set fr1" for y using that starts_disjoint by metis
    then show ?thesis using m ch(4) by (subst dseg_cong [of _ _ "mm_chunks mm1"]) auto
  qed
  then have "mm_rep mm' (L1 @ cut needed n @ L2) fr1 (a # al)"
    using m ch(2,3) mm_repD(13,14) [OF rep] mm1(4,5) k(2,3) by (auto simp: mm_rep_def mm'_def simp del: dseg.simps)
  ultimately show ?thesis using mm1(3) by (auto simp: mm_ok_def a_def mm'_def same_block_def)
qed


section \<open>Finding a chunk\<close>

lemma find_free_ok:
  assumes "dseg ch p xs None" "length xs < fuel"
  shows "find_free fuel needed ch (hd_opt xs) = Some (List.find (\<lambda>a. \<exists>n f. payload ch a = Some (n, f) \<and> needed \<le> n) xs)"
  using assms
proof (induction xs arbitrary: p fuel)
  case Nil
  then show ?case by (cases fuel) auto
next
  case (Cons x xs)
  then obtain fuel' c where "fuel = Suc fuel'" "ch x = Some c" "ck_next c = hd_opt xs" by (cases fuel) auto
  then show ?case using Cons.IH [of "Some x" fuel'] Cons.prems by (auto simp: payload_def)
qed

lemma mm_rep_length:
  assumes "mm_rep mm L fr al"
  shows "length fr \<le> mm_mempool_size mm"
proof -
  have "set fr \<subseteq> {mm_start mm..<mm_start mm + span L}" using mm_repD(8) [OF assms] starts_range [OF mm_repD(4) [OF assms]] by auto
  then have "card (set fr) \<le> card {mm_start mm..<mm_start mm + span L}" by (intro card_mono) simp_all
  then show ?thesis using mm_repD(3,7) [OF assms] by (simp add: distinct_card)
qed

text \<open>The search finds a free chunk of the size needed, if there is one.\<close>

lemma find_in_block:
  assumes "mm_ok mm L"
  shows "(\<exists>L1 n L2. L = L1 @ (n, True) # L2 \<and> needed \<le> n \<and>
      find_free (Suc (mm_mempool_size mm)) needed (mm_chunks mm) (mm_free_list mm) = Some (Some (mm_start mm + span L1))) \<or>
    ((\<forall>t \<in> set L. snd t \<longrightarrow> fst t < needed) \<and> find_free (Suc (mm_mempool_size mm)) needed (mm_chunks mm) (mm_free_list mm) = Some None)"
proof -
  obtain fr al where rep: "mm_rep mm L fr al" using assms by (auto simp: mm_ok_def)
  note r = mm_repD [OF rep]
  let ?P = "\<lambda>a. \<exists>n f. payload (mm_chunks mm) a = Some (n, f) \<and> needed \<le> n"
  have ff: "find_free (Suc (mm_mempool_size mm)) needed (mm_chunks mm) (mm_free_list mm) = Some (List.find ?P fr)"
    unfolding r(6) by (rule find_free_ok [OF r(5)]) (use mm_rep_length [OF rep] in simp)
  show ?thesis
  proof (cases "List.find ?P fr")
    case (Some a)
    then have "a \<in> set fr" "?P a" by (auto simp: find_Some_iff)
    then have "a \<in> starts True (mm_start mm) L" using r(8) by simp
    then obtain L1 n L2 where L: "L = L1 @ (n, True) # L2" "a = mm_start mm + span L1" by (rule starts_split)
    have "payload (mm_chunks mm) a = Some (n, True)" using r(1) L by simp
    then have "needed \<le> n" using \<open>?P a\<close> by simp
    moreover have "find_free (Suc (mm_mempool_size mm)) needed (mm_chunks mm) (mm_free_list mm) = Some (Some (mm_start mm + span L1))"
      using ff Some L(2) by simp
    ultimately show ?thesis by (intro disjI1 exI conjI) (rule L(1))
  next
    case None
    have "fst t < needed" if "t \<in> set L" "snd t" for t
    proof -
      from split_list [OF that(1)] obtain L1 L2 where "L = L1 @ t # L2" by blast
      then have L: "L = L1 @ (fst t, True) # L2" using that(2) by (cases t) simp
      then have "mm_start mm + span L1 \<in> set fr" "payload (mm_chunks mm) (mm_start mm + span L1) = Some (fst t, True)" using r(1,8) by auto
      then show ?thesis using None by (auto simp: find_None_iff not_le)
    qed
    then show ?thesis using ff None by (intro disjI2) auto
  qed
qed


section \<open>Giving a chunk back\<close>

text \<open>The representation without the end pointers, which the merging leaves for its last step.\<close>

definition mm_core :: "mp_memory \<Rightarrow> layout \<Rightarrow> addr list \<Rightarrow> addr list \<Rightarrow> bool" where
  "mm_core mm L fr al \<longleftrightarrow>
     laid (payload (mm_chunks mm)) (mm_start mm) L \<and> span L = mm_mempool_size mm \<and> big L \<and>
     dseg (mm_chunks mm) None fr None \<and> mm_free_list mm = hd_opt fr \<and> distinct fr \<and> set fr = starts True (mm_start mm) L \<and>
     dseg (mm_chunks mm) None al None \<and> mm_alloc_list mm = hd_opt al \<and> distinct al \<and> set al = starts False (mm_start mm) L \<and>
     mm_alloc_mem mm = used L \<and> mm_alloc_prog_mem mm = used_prog L"

lemma mm_rep_core: "mm_rep mm L fr al \<longleftrightarrow> mm_core mm L fr al \<and> ended (mm_start mm + span L) (mm_ends mm) (mm_start mm) L"
  by (auto simp: mm_rep_def mm_core_def)

lemma mm_coreD:
  assumes "mm_core mm L fr al"
  shows "laid (payload (mm_chunks mm)) (mm_start mm) L" "span L = mm_mempool_size mm" "big L"
    "dseg (mm_chunks mm) None fr None" "mm_free_list mm = hd_opt fr" "distinct fr" "set fr = starts True (mm_start mm) L"
    "dseg (mm_chunks mm) None al None" "mm_alloc_list mm = hd_opt al" "distinct al" "set al = starts False (mm_start mm) L"
    "mm_alloc_mem mm = used L" "mm_alloc_prog_mem mm = used_prog L"
  using assms by (auto simp: mm_core_def)

lemma ended_back: "ended e ft a (L @ [t]) \<Longrightarrow> a + span L + fst t < e \<Longrightarrow> ft (a + span L + fst t - 8) = Some (a + span L)"
  by simp

lemma merge_back_ok:
  assumes "laid (payload (mm_chunks mm)) (mm_start mm) (A @ F @ (n, True) # B)" "ended e (mm_ends mm) (mm_start mm) (A @ F @ (n, True) # B)"
    "big (A @ F @ (n, True) # B)" "mm_start mm + span (A @ F @ (n, True) # B) \<le> e"
    "\<forall>t \<in> set F. snd t" "A = [] \<or> \<not> snd (last A)" "length F + 1 < fuel"
  shows "merge_back fuel mm (mm_start mm + span A + span F) p1 = Some (mm_start mm + span A)"
  using assms
proof (induction F arbitrary: n B fuel p1 rule: rev_induct)
  case Nil
  then obtain fuel1 fuel2 where fuel: "fuel = Suc fuel1" "fuel1 = Suc fuel2" by (metis Suc_eq_plus1 gr0_implies_Suc less_Suc_eq_0_disj list.size(3) add_0 not_less_eq)
  obtain c where c: "mm_chunks mm (mm_start mm + span A) = Some c" "ck_is_free c" using Nil.prems(1) by (auto dest!: payload_at)
  show ?case
  proof (cases A rule: rev_cases)
    case Nil
    then show ?thesis using c fuel by simp
  next
    case (snoc A' t)
    have t: "\<not> snd t" "40 < fst t" using snoc Nil.prems(3,6) by auto
    obtain d where d: "mm_chunks mm (mm_start mm + span A') = Some d" "\<not> ck_is_free d"
      using Nil.prems(1) snoc t(1) by (cases t) (auto dest!: payload_at)
    have "mm_ends mm (mm_start mm + span A - 8) = Some (mm_start mm + span A')"
      using Nil.prems(2,3,4) snoc by (simp add: add.assoc)
    then show ?thesis using c d fuel t(2) snoc by (simp add: chunkend_def chunkheader_def)
  qed
next
  case (snoc u F)
  obtain fuel1 where fuel: "fuel = Suc fuel1" "length F + 1 < fuel1" using snoc.prems(7) by (cases fuel) auto
  have u: "snd u" "40 < fst u" using snoc.prems(3,5) by auto
  obtain c where c: "mm_chunks mm (mm_start mm + span A + span (F @ [u])) = Some c" "ck_is_free c" using snoc.prems(1) by (auto simp: add.assoc dest!: payload_at)
  have q: "mm_ends mm (mm_start mm + span A + span (F @ [u]) - 8) = Some (mm_start mm + span A + span F)"
    using snoc.prems(2,3,4) by (simp add: add.assoc)
  have "merge_back fuel1 mm (mm_start mm + span A + span F) (mm_start mm + span A + span (F @ [u])) = Some (mm_start mm + span A)"
    by (rule snoc.IH [of "fst u" "(n, True) # B"]) (use snoc.prems u fuel(2) in \<open>cases u; auto simp: add.assoc\<close>)+
  then show ?case using c q fuel(1) u(2) by (simp add: chunkend_def chunkheader_def)
qed

text \<open>One free chunk is taken into its left neighbour.\<close>

lemma merge_step_ok:
  assumes "mm_core mm (A @ (n, True) # (m, True) # B) fr al"
  defines "p1 \<equiv> mm_start mm + span A"
  defines "p0 \<equiv> p1 + n"
  shows "\<exists>fr' ch ch'. dlinklist_del (mm_free_list mm) p0 (mm_chunks mm) = Some (hd_opt fr', ch) \<and>
     upd_chunk p1 (\<lambda>d. d\<lparr>ck_alloc_mem := ck_alloc_mem d + m\<rparr>) ch = Some ch' \<and>
     mm_core (mm\<lparr>mm_free_list := hd_opt fr', mm_chunks := ch'\<rparr>) (A @ (n + m, True) # B) fr' al"
proof -
  note r = mm_coreD [OF assms(1)]
  have bg: "big A" "big B" "40 < n" "40 < m" using r(3) by auto
  have p0: "p0 \<in> set fr" "p1 \<in> set fr" "p0 \<noteq> p1" using r(7) bg by (auto simp: p0_def p1_def)
  have out: "p0 \<notin> starts f (mm_start mm) A" "p0 \<notin> starts f (p0 + m) B" for f
    using starts_range [OF bg(1), of p0 f "mm_start mm"] starts_range [OF bg(2), of p0 f "p0 + m"] bg(4) by (auto simp: p0_def p1_def)
  obtain xs ys where fr: "fr = xs @ p0 # ys" using p0(1) by (auto dest: split_list)
  from del_ok [of "mm_chunks mm" xs p0 ys] r(4,6) fr obtain ch where ch: "dlinklist_del (hd_opt fr) p0 (mm_chunks mm) = Some (hd_opt (xs @ ys), ch)"
    "dseg ch None (xs @ ys) None" "payload ch = payload (mm_chunks mm)" "\<forall>y. y \<notin> set xs \<longrightarrow> y \<notin> set ys \<longrightarrow> ch y = mm_chunks mm y" by auto
  have "payload ch p1 = Some (n, True)" using r(1) ch(3) by (simp add: p1_def)
  then obtain c where c: "ch p1 = Some c" "ck_alloc_mem c = n" "ck_is_free c" using payload_at by blast
  define ch' where "ch' = ch(p1 \<mapsto> c\<lparr>ck_alloc_mem := n + m\<rparr>)"
  have pl: "payload ch' = (payload (mm_chunks mm))(p1 \<mapsto> (n + m, True))" by (simp add: ch'_def payload_set ch(3) c)
  have f1: "dseg ch' None al None"
  proof -
    have "ch' y = mm_chunks mm y" if "y \<in> set al" for y
    proof -
      have "y \<notin> set fr" using that r(7,11) starts_disjoint [OF r(3)] by auto
      then show ?thesis using ch(4) fr p0(2) by (auto simp: ch'_def)
    qed
    then show ?thesis using r(8) dseg_cong by metis
  qed
  have f2: "dseg ch' None (xs @ ys) None" using ch(2) c(1) unfolding ch'_def by (subst dseg_same_links) auto
  have f3: "laid (payload ch') (mm_start mm) (A @ (n + m, True) # B)" using r(1) bg by (simp add: pl p1_def add.assoc)
  have f4: "set (xs @ ys) = starts True (mm_start mm) (A @ (n + m, True) # B)"
  proof -
    have "insert p0 (set (xs @ ys)) = insert p0 (insert p1 (starts True (mm_start mm) A \<union> starts True (p0 + m) B))"
      using r(7) unfolding fr by (auto simp: p0_def p1_def)
    moreover have "p0 \<notin> set (xs @ ys)" using r(6) fr by simp
    ultimately have "set (xs @ ys) = insert p1 (starts True (mm_start mm) A \<union> starts True (p0 + m) B)" using out [of True] p0(3) by (simp add: insert_ident)
    then show ?thesis by (auto simp: p0_def p1_def add.assoc)
  qed
  have "mm_core (mm\<lparr>mm_free_list := hd_opt (xs @ ys), mm_chunks := ch'\<rparr>) (A @ (n + m, True) # B) (xs @ ys) al"
    unfolding mm_core_def using f1 f2 f3 f4 r bg fr by (simp add: add.assoc)
  moreover have "upd_chunk p1 (\<lambda>d. d\<lparr>ck_alloc_mem := ck_alloc_mem d + m\<rparr>) ch = Some ch'" using c by (simp add: upd_chunk_Some ch'_def)
  ultimately show ?thesis 
    by - (rule exI [of _ "xs @ ys"], rule exI [of _ ch], rule exI [of _ ch'], simp add: ch(1) r(5) del: hd_or_append)
qed

lemma merge_forward_ok:
  assumes "mm_core mm (A @ (n, True) # G @ R) fr al" "\<forall>t \<in> set G. snd t" "R = [] \<or> \<not> snd (hd R)" "length G < fuel" "sz = mm_mempool_size mm"
  shows "\<exists>mm' fr'. merge_forward fuel sz mm (mm_start mm + span A + n) (mm_start mm + span A) = Some mm' \<and>
     mm_core mm' (A @ (n + span G, True) # R) fr' al \<and> mm_ends mm' = mm_ends mm \<and> same_block mm' mm"
  using assms
proof (induction G arbitrary: mm n fr fuel)
  case Nil
  obtain fuel1 where fuel: "fuel = Suc fuel1" using Nil.prems(4) by (cases fuel) auto
  note r = mm_coreD [OF Nil.prems(1)]
  have "merge_forward fuel sz mm (mm_start mm + span A + n) (mm_start mm + span A) = Some mm"
  proof (cases R)
    case Nil
    then show ?thesis using r(2) fuel \<open>sz = mm_mempool_size mm\<close> by simp
  next
    case (Cons t R')
    then have "payload (mm_chunks mm) (mm_start mm + span A + n) = Some t" "\<not> snd t" using r(1) Nil.prems(3) by (auto simp: add.assoc)
    then obtain c where "mm_chunks mm (mm_start mm + span A + n) = Some c" "\<not> ck_is_free c" using payload_at by (metis prod.collapse)
    then show ?thesis using fuel by simp
  qed
  then show ?case using Nil.prems(1) by (auto simp: same_block_def)
next
  case (Cons t G)
  obtain m where t: "t = (m, True)" using Cons.prems(2) by (cases t) auto
  obtain fuel1 where fuel: "fuel = Suc fuel1" "length G < fuel1" using Cons.prems(4) by (cases fuel) auto
  note r = mm_coreD [OF Cons.prems(1)]
  obtain c where c: "mm_chunks mm (mm_start mm + span A + n) = Some c" "ck_is_free c" "ck_alloc_mem c = m"
    using r(1) t by (auto simp: add.assoc dest!: payload_at)
  from merge_step_ok [of mm A n m "G @ R" fr al] Cons.prems(1) t obtain fr1 ch ch' where s: "dlinklist_del (mm_free_list mm) (mm_start mm + span A + n) (mm_chunks mm) = Some (hd_opt fr1, ch)"
    "upd_chunk (mm_start mm + span A) (\<lambda>d. d\<lparr>ck_alloc_mem := ck_alloc_mem d + m\<rparr>) ch = Some ch'"
    "mm_core (mm\<lparr>mm_free_list := hd_opt fr1, mm_chunks := ch'\<rparr>) (A @ (n + m, True) # G @ R) fr1 al" by auto
  define mm1 where "mm1 = mm\<lparr>mm_free_list := hd_opt fr1, mm_chunks := ch'\<rparr>"
  have mm1: "mm_start mm1 = mm_start mm" "mm_ends mm1 = mm_ends mm" "same_block mm1 mm" "mm_mempool_size mm1 = mm_mempool_size mm" by (simp_all add: mm1_def same_block_def)
  from Cons.IH [of mm1 "n + m" fr1 fuel1] s(3) Cons.prems(2,3,5) fuel(2) mm1 obtain mm' fr' where
    "merge_forward fuel1 sz mm1 (mm_start mm + span A + (n + m)) (mm_start mm + span A) = Some mm'"
    "mm_core mm' (A @ (n + m + span G, True) # R) fr' al" "mm_ends mm' = mm_ends mm" "same_block mm' mm1" by (auto simp: mm1_def)
  moreover from this(1) have "merge_forward fuel sz mm (mm_start mm + span A + n) (mm_start mm + span A) = Some mm'"
    using c s(1,2) fuel(1) r(2,3) t Cons.prems(5) by (simp add: mm1_def add.assoc)
  ultimately show ?case using mm1(3) t by (auto simp: same_block_def add.assoc)
qed

text \<open>The chunk changes from the allocated to the free list.\<close>

lemma mark_free_ok:
  assumes "mm_rep mm (L1 @ (n, False) # L2) fr al"
  defines "a \<equiv> mm_start mm + span L1"
  shows "\<exists>al' ch0 ch1 ch2 d. dlinklist_del (mm_alloc_list mm) a (mm_chunks mm) = Some (hd_opt al', ch0) \<and>
     dlinklist_ins_frt (mm_free_list mm) a ch0 = Some (Some a, ch1) \<and> upd_chunk a (\<lambda>d. d\<lparr>ck_is_free := True\<rparr>) ch1 = Some ch2 \<and>
     ch2 a = Some d \<and> ck_alloc_mem d = n \<and> (\<forall>y. y \<notin> set al \<longrightarrow> y \<notin> set fr \<longrightarrow> ch2 y = mm_chunks mm y) \<and>
     mm_rep (mm\<lparr>mm_alloc_list := hd_opt al', mm_free_list := Some a, mm_chunks := ch2, mm_alloc_mem := mm_alloc_mem mm - n,
       mm_alloc_prog_mem := mm_alloc_prog_mem mm - (n - 32 - 8)\<rparr>) (L1 @ (n, True) # L2) (a # fr) al'"
proof -
  note r = mm_repD [OF assms(1)] and p = chunk_place [OF assms(1), folded a_def]
  have disj: "y \<notin> set al" if "y \<in> set fr" for y using that r(8,12) starts_disjoint [OF r(4)] by auto
  obtain xs ys where al: "al = xs @ a # ys" using p(4) by (auto dest: split_list)
  from del_ok [of "mm_chunks mm" xs a ys] r(9,11) al obtain ch0 where ch0: "dlinklist_del (hd_opt al) a (mm_chunks mm) = Some (hd_opt (xs @ ys), ch0)"
    "dseg ch0 None (xs @ ys) None" "payload ch0 = payload (mm_chunks mm)" "\<forall>y. y \<notin> set xs \<longrightarrow> y \<notin> set ys \<longrightarrow> ch0 y = mm_chunks mm y" by auto
  have "ch0 y = mm_chunks mm y" if "y \<in> set fr" for y using disj [OF that] ch0(4) al by auto
  then have fr0: "dseg ch0 None fr None" using r(5) dseg_cong by metis
  have pa: "payload ch0 a = Some (n, False)" using r(1) ch0(3) by (simp add: a_def)
  then obtain c where c: "ch0 a = Some c" using payload_at by blast
  have "a \<notin> set fr" using p(5) by simp
  from ins_frt_ok [OF fr0 r(7) this c] obtain ch1 where ch1: "dlinklist_ins_frt (hd_opt fr) a ch0 = Some (Some a, ch1)"
    "dseg ch1 None (a # fr) None" "payload ch1 = payload ch0" "\<forall>y. y \<noteq> a \<longrightarrow> y \<notin> set fr \<longrightarrow> ch1 y = ch0 y" by blast
  from pa ch1(3) obtain d where d: "ch1 a = Some d" "ck_alloc_mem d = n" using payload_at by metis
  define ch2 where "ch2 = ch1(a \<mapsto> d\<lparr>ck_is_free := True\<rparr>)"
  have pl: "payload ch2 = (payload (mm_chunks mm))(a \<mapsto> (n, True))" by (simp add: ch2_def payload_set ch1(3) ch0(3) d(2))
  have f1: "dseg ch2 None (a # fr) None" using ch1(2) d(1) unfolding ch2_def by (subst dseg_same_links) auto
  have f2: "dseg ch2 None (xs @ ys) None"
  proof -
    have "ch2 y = ch0 y" if "y \<in> set (xs @ ys)" for y
    proof -
      have "y \<noteq> a" "y \<notin> set fr" using that disj r(11) al by auto
      then show ?thesis using ch1(4) by (simp add: ch2_def)
    qed
    then show ?thesis using ch0(2) dseg_cong by metis
  qed
  have f3: "laid (payload ch2) (mm_start mm) (L1 @ (n, True) # L2)" using r(1,4) p(3) by (auto simp: pl a_def)
  have f4: "set (xs @ ys) = starts False (mm_start mm) (L1 @ (n, True) # L2)"
  proof -
    have "insert a (set (xs @ ys)) = insert a (starts False (mm_start mm) L1 \<union> starts False (a + n) L2)" using r(12) unfolding al by (simp add: a_def)
    moreover have "a \<notin> set (xs @ ys)" using r(11) al by simp
    ultimately show ?thesis using p(1,2) [of False] by (simp add: a_def insert_ident)
  qed
  have f5: "set (a # fr) = starts True (mm_start mm) (L1 @ (n, True) # L2)" using r(8) by (auto simp: a_def)
  have "mm_rep (mm\<lparr>mm_alloc_list := hd_opt (xs @ ys), mm_free_list := Some a, mm_chunks := ch2, mm_alloc_mem := mm_alloc_mem mm - n,
       mm_alloc_prog_mem := mm_alloc_prog_mem mm - (n - 32 - 8)\<rparr>) (L1 @ (n, True) # L2) (a # fr) (xs @ ys)"
    unfolding mm_rep_def using f1 f2 f3 f4 f5 r p(5) al by (simp del: dseg.simps dseg_append hd_or_append)
  moreover have "upd_chunk a (\<lambda>d. d\<lparr>ck_is_free := True\<rparr>) ch1 = Some ch2" "ch2 a = Some (d\<lparr>ck_is_free := True\<rparr>)" using d by (simp_all add: upd_chunk_Some ch2_def)
  moreover have "\<forall>y. y \<notin> set al \<longrightarrow> y \<notin> set fr \<longrightarrow> ch2 y = mm_chunks mm y" using ch0(4) ch1(4) p(4) al by (auto simp: ch2_def)
  ultimately show ?thesis using ch0(1) ch1(1) d(2) r(6,10)
    by - (rule exI [of _ "xs @ ys"], rule exI [of _ ch0], rule exI [of _ ch1], rule exI [of _ ch2], rule exI [of _ "d\<lparr>ck_is_free := True\<rparr>"], simp del: hd_or_append)
qed

definition release :: "layout \<Rightarrow> nat \<Rightarrow> layout \<Rightarrow> layout" where
  "release L1 n L2 =
     rev (dropWhile snd (rev L1)) @ (span (takeWhile snd (rev L1)) + n + span (takeWhile snd L2), True) # dropWhile snd L2"

lemma span_rev [simp]: "span (rev L) = span L"
  by (simp add: span_def rev_map [symmetric])

lemma merge_free_chunk_ok:
  assumes "mm_rep mm (L1 @ (n, True) # L2) fr al" "sz = mm_mempool_size mm"
  shows "\<exists>mm'. merge_free_chunk sz mm (mm_start mm + span L1) = Some mm' \<and> mm_ok mm' (release L1 n L2) \<and> same_block mm' mm"
proof -
  define A F G R where "A = rev (dropWhile snd (rev L1))" and "F = rev (takeWhile snd (rev L1))" and "G = takeWhile snd L2" and "R = dropWhile snd L2"
  have L1: "L1 = A @ F" unfolding A_def F_def by (metis rev_append rev_rev_ident takeWhile_dropWhile_id)
  have L2: "L2 = G @ R" by (simp add: G_def R_def)
  have F: "\<forall>t \<in> set F. snd t" by (auto simp: F_def dest: set_takeWhileD)
  have G: "\<forall>t \<in> set G. snd t" by (auto simp: G_def dest: set_takeWhileD)
  have A: "A = [] \<or> \<not> snd (last A)" using hd_dropWhile [of snd "rev L1"] by (auto simp: A_def last_rev)
  have R: "R = [] \<or> \<not> snd (hd R)" using hd_dropWhile [of snd L2] by (auto simp: R_def)
  note r = mm_repD [OF assms(1)]
  have lens: "length F + length G + 2 \<le> mm_mempool_size mm"
  proof -
    have ge: "length M \<le> span M" if "big M" for M using that by (induction M) auto
    show ?thesis using ge [of F] ge [of G] r(3,4) L1 L2 by simp
  qed
  have bk: "merge_back (Suc (mm_mempool_size mm)) mm (mm_start mm + span L1) (mm_start mm + span L1) = Some (mm_start mm + span A)"
    using merge_back_ok [of mm A F n "G @ R" "mm_start mm + span (L1 @ (n, True) # L2)"] r(1,2,4) F A lens L1 L2 by (simp add: add.assoc del: merge_back.simps)
  have core: "mm_core mm (A @ F @ (n, True) # G @ R) fr al" using assms(1) L1 L2 by (simp add: mm_rep_core)
  obtain m FG where fg: "F @ (n, True) # G = (m, True) # FG" "\<forall>t \<in> set FG. snd t" "m + span FG = span F + n + span G" "length FG \<le> length F + length G"
  proof (cases F)
    case Nil
    show thesis by (rule that [of n G]) (use Nil G in auto)
  next
    case (Cons t F')
    show thesis by (rule that [of "fst t" "F' @ (n, True) # G"]) (use Cons F G in \<open>cases t; auto\<close>)+
  qed
  have core': "mm_core mm (A @ (m, True) # FG @ R) fr al" using core fg(1) by (metis append_Cons append_assoc)
  from merge_forward_ok [OF core' fg(2) R, of "Suc (mm_mempool_size mm)" sz] fg(4) lens assms(2) obtain mm1 fr1 where mm1:
    "merge_forward (Suc (mm_mempool_size mm)) sz mm (mm_start mm + span A + m) (mm_start mm + span A) = Some mm1"
    "mm_core mm1 (A @ (m + span FG, True) # R) fr1 al" "mm_ends mm1 = mm_ends mm" "same_block mm1 mm" by auto
  have st: "mm_start mm1 = mm_start mm" using mm1(4) by (simp add: same_block_def)
  obtain c where c: "mm_chunks mm (mm_start mm + span A) = Some c" "ck_alloc_mem c = m" using mm_coreD(1) [OF core'] by (auto dest!: payload_at)
  obtain c1 where c1: "mm_chunks mm1 (mm_start mm + span A) = Some c1" "ck_alloc_mem c1 = m + span FG" using mm_coreD(1) [OF mm1(2)] st by (auto dest!: payload_at)
  define k where "k = m + span FG"
  define mm' where "mm' = mm1\<lparr>mm_ends := (mm_ends mm)(mm_start mm + span A + k - 8 \<mapsto> mm_start mm + span A)\<rparr>"
  have res: "merge_free_chunk sz mm (mm_start mm + span L1) = Some mm'"
    using bk c c1 mm1(1,3) by (simp add: merge_free_chunk_def mm'_def k_def chunkend_def del: merge_back.simps merge_forward.simps)
  have "mm_core mm' (A @ (k, True) # R) fr1 al" using mm1(2) by (simp add: mm'_def mm_core_def k_def)
  moreover have "ended (mm_start mm' + span (A @ (k, True) # R)) (mm_ends mm') (mm_start mm') (A @ (k, True) # R)"
  proof -
    have sp: "span (A @ (k, True) # R) = span (L1 @ (n, True) # L2)" using fg(3) L1 L2 by (simp add: k_def)
    have "ended (mm_start mm + span (L1 @ (n, True) # L2)) (mm_ends mm) (mm_start mm) A"
      "ended (mm_start mm + span (L1 @ (n, True) # L2)) (mm_ends mm) (mm_start mm + span A + k) R" "big A" "big R" "40 < k"
      using r(2,4) fg L1 L2 mm_coreD(3) [OF mm1(2)] by (auto simp: k_def add.assoc)
    moreover from this(5) have "mm_start mm + span A \<le> mm_start mm + span A + k - 8" "mm_start mm + span A + k - 8 < mm_start mm + span A + k" by simp_all
    ultimately show ?thesis unfolding sp using st by (simp add: mm'_def)
  qed
  ultimately have "mm_rep mm' (A @ (k, True) # R) fr1 al" by (simp add: mm_rep_core)
  moreover have "A @ (k, True) # R = release L1 n L2" using fg(3) by (simp add: release_def A_def F_def G_def R_def k_def)
  ultimately show ?thesis using res mm1(4) by (auto simp: mm_ok_def mm'_def same_block_def)
qed

lemma free_in_ok:
  assumes "mm_ok mm (L1 @ (n, False) # L2)" "sz = mm_mempool_size mm"
  shows "\<exists>mm'. free_in sz mm (mm_start mm + span L1) = Some mm' \<and> mm_ok mm' (release L1 n L2) \<and> same_block mm' mm"
proof -
  obtain fr al where rep: "mm_rep mm (L1 @ (n, False) # L2) fr al" using assms(1) by (auto simp: mm_ok_def)
  let ?a = "mm_start mm + span L1"
  from mark_free_ok [OF rep] obtain al' ch0 ch1 ch2 d where m: "dlinklist_del (mm_alloc_list mm) ?a (mm_chunks mm) = Some (hd_opt al', ch0)"
    "dlinklist_ins_frt (mm_free_list mm) ?a ch0 = Some (Some ?a, ch1)" "upd_chunk ?a (\<lambda>d. d\<lparr>ck_is_free := True\<rparr>) ch1 = Some ch2" "ch2 ?a = Some d" "ck_alloc_mem d = n"
    "mm_rep (mm\<lparr>mm_alloc_list := hd_opt al', mm_free_list := Some ?a, mm_chunks := ch2, mm_alloc_mem := mm_alloc_mem mm - n,
       mm_alloc_prog_mem := mm_alloc_prog_mem mm - (n - 32 - 8)\<rparr>) (L1 @ (n, True) # L2) (?a # fr) al'" by blast
  from merge_free_chunk_ok [OF m(6), of sz] assms(2) obtain mm' where "merge_free_chunk sz (mm\<lparr>mm_alloc_list := hd_opt al', mm_free_list := Some ?a, mm_chunks := ch2,
      mm_alloc_mem := mm_alloc_mem mm - n, mm_alloc_prog_mem := mm_alloc_prog_mem mm - (n - 32 - 8)\<rparr>) ?a = Some mm'" "mm_ok mm' (release L1 n L2)" "same_block mm' mm"
    by (auto simp: same_block_def)
  then show ?thesis using m(1-5) by (simp add: free_in_def chunkheader_def chunkend_def)
qed

end
