(* ===== verification/Mempool_Pool.thy ===== *)
theory Mempool_Pool
  imports Mempool_Ops Event_System
begin

text \<open>
  The pool as its clients see it: the blocks handed out are disjoint, lie inside the pool's memory
  and are large enough, every one of them can be given back, and when all are given back the memory
  is whole again. This holds as long as all blocks of the pool have the same size, that is when
  the limit equals the size of one block or is at least twice as large.
\<close>

section \<open>The blocks of a pool\<close>

definition coalesced :: "layout \<Rightarrow> bool" where
  "coalesced L \<longleftrightarrow> successively (\<lambda>t u. \<not> (snd t \<and> snd u)) L"

definition blk :: "nat \<Rightarrow> mp_memory \<times> layout \<Rightarrow> bool" where
  "blk sz b \<longleftrightarrow> mm_ok (fst b) (snd b) \<and> coalesced (snd b) \<and> mm_mempool_size (fst b) = sz"

definition apart :: "nat \<Rightarrow> mp_memory \<Rightarrow> mp_memory \<Rightarrow> bool" where
  "apart sz m m' \<longleftrightarrow> mm_start m + sz \<le> mm_start m' \<or> mm_start m' + sz \<le> mm_start m"

text \<open>The pointers handed out, with the number of bytes behind each.\<close>

fun allocs :: "addr \<Rightarrow> layout \<Rightarrow> (addr \<times> nat) list" where
  "allocs a [] = []"
| "allocs a (t # L) = (if snd t then [] else [(a + 32, fst t - 40)]) @ allocs (a + fst t) L"

definition live :: "(mp_memory \<times> layout) list \<Rightarrow> (addr \<times> nat) list" where
  "live bs = concat (map (\<lambda>b. allocs (mm_start (fst b)) (snd b)) bs)"

lemma allocs_append [simp]: "allocs a (L @ M) = allocs a L @ allocs (a + span L) M"
  by (induction L arbitrary: a) (auto simp: add.assoc)

lemma allocs_all_free [simp]: "\<forall>t \<in> set L. snd t \<Longrightarrow> allocs a L = []"
  by (induction L arbitrary: a) auto

lemma allocs_range: "big L \<Longrightarrow> (p, k) \<in> set (allocs a L) \<Longrightarrow> a + 32 \<le> p \<and> p + k + 8 \<le> a + span L"
  by (induction L arbitrary: a) (fastforce split: if_splits)+

lemma allocs_sorted: "big L \<Longrightarrow> sorted_wrt (\<lambda>(p, k) (q, m). p + k + 8 \<le> q) (allocs a L)"
proof (induction L arbitrary: a)
  case (Cons t L)
  then show ?case using allocs_range [of L _ _ "a + fst t"] by fastforce
qed simp

lemma allocs_start: "(p, k) \<in> set (allocs a L) \<Longrightarrow> \<exists>L1 n L2. L = L1 @ (n, False) # L2 \<and> p = a + span L1 + 32 \<and> k = n - 40"
proof (induction L arbitrary: a)
  case (Cons t L)
  show ?case
  proof (cases "\<not> snd t \<and> p = a + 32 \<and> k = fst t - 40")
    case True
    then show ?thesis by (intro exI [of _ "[]"]) (cases t; auto)
  next
    case False
    then have "(p, k) \<in> set (allocs (a + fst t) L)" using Cons.prems by (auto split: if_splits)
    from Cons.IH [OF this] obtain L1 n L2 where "L = L1 @ (n, False) # L2" "p = a + fst t + span L1 + 32" "k = n - 40" by blast
    then show ?thesis by (intro exI [of _ "t # L1"] exI [of _ n] exI [of _ L2]) simp
  qed
qed simp

lemma coalesced_cut:
  assumes "coalesced (L1 @ (n, True) # L2)"
  shows "coalesced (L1 @ cut needed n @ L2)"
  using assms by (cases L2) (auto simp: coalesced_def cut_def successively_append_iff successively_Cons)

lemma coalesced_release:
  assumes "coalesced (L1 @ (n, False) # L2)"
  shows "coalesced (release L1 n L2)"
proof -
  define A R where "A = rev (dropWhile snd (rev L1))" and "R = dropWhile snd L2"
  have L1: "L1 = A @ rev (takeWhile snd (rev L1))" unfolding A_def by (metis rev_append rev_rev_ident takeWhile_dropWhile_id)
  have A: "A = [] \<or> \<not> snd (last A)" using hd_dropWhile [of snd "rev L1"] by (auto simp: A_def last_rev)
  have R: "R = [] \<or> \<not> snd (hd R)" using hd_dropWhile [of snd L2] by (auto simp: R_def)
  have c: "coalesced L" if "coalesced (L @ M)" for L M using that by (simp add: coalesced_def successively_append_iff)
  have d: "coalesced M" if "coalesced (L @ M)" for L M using that by (simp add: coalesced_def successively_append_iff)
  have "coalesced (A @ rev (takeWhile snd (rev L1)))" "coalesced ((n, False) # takeWhile snd L2 @ R)" using assms c d L1 by (metis, metis R_def takeWhile_dropWhile_id)
  then have "coalesced A" "coalesced R" using c d [of "(n, False) # takeWhile snd L2" R] by auto
  then show ?thesis unfolding release_def A_def [symmetric] R_def [symmetric] using A R
    by (cases R) (auto simp: coalesced_def successively_append_iff successively_Cons)
qed

lemma allocs_cut:
  assumes "40 < needed" "needed \<le> n"
  shows "\<exists>k \<ge> needed - 40. mset (allocs a (L1 @ cut needed n @ L2)) = add_mset (a + span L1 + 32, k) (mset (allocs a (L1 @ (n, True) # L2)))"
proof (cases "40 < n - needed")
  case True
  then show ?thesis using assms by (intro exI [of _ "needed - 40"]) (auto simp: cut_def add.assoc)
next
  case False
  then show ?thesis using assms by (intro exI [of _ "n - 40"]) (auto simp: cut_def add.assoc)
qed

lemma allocs_release: "allocs a (L1 @ (n, False) # L2) = allocs a L1 @ (a + span L1 + 32, n - 40) # allocs (a + span L1 + n) L2 \<and>
   allocs a (release L1 n L2) = allocs a L1 @ allocs (a + span L1 + n) L2"
proof -
  define A F G R where "A = rev (dropWhile snd (rev L1))" and "F = rev (takeWhile snd (rev L1))" and "G = takeWhile snd L2" and "R = dropWhile snd L2"
  have L1: "L1 = A @ F" unfolding A_def F_def by (metis rev_append rev_rev_ident takeWhile_dropWhile_id)
  have L2: "L2 = G @ R" by (simp add: G_def R_def)
  have "\<forall>t \<in> set F. snd t" "\<forall>t \<in> set G. snd t" by (auto simp: F_def G_def dest: set_takeWhileD)
  moreover have "release L1 n L2 = A @ (span F + n + span G, True) # R" by (simp add: release_def A_def F_def G_def R_def)
  ultimately show ?thesis using L1 L2 by (simp add: add.assoc)
qed

section \<open>The operations on a pool\<close>

definition pool_ok :: "ld_mempool \<Rightarrow> (mp_memory \<times> layout) list \<Rightarrow> bool" where
  "pool_ok mp bs \<longleftrightarrow> mp_mlist mp = map fst bs \<and> bs \<noteq> [] \<and> (\<forall>b \<in> set bs. blk (mp_mempool_size mp) b) \<and>
     sorted_wrt (apart (mp_mempool_size mp)) (map fst bs) \<and> 40 < mp_mempool_size mp \<and> (mp_auto_extend mp \<or> length bs = 1) \<and>
     (mp_max_mempool_size mp = mp_mempool_size mp \<or> 2 * mp_mempool_size mp \<le> mp_max_mempool_size mp) \<and> mp_mempool_size mp \<le> mp_alloc_mempool_size mp"

lemma pool_okD:
  assumes "pool_ok mp bs"
  shows "mp_mlist mp = map fst bs" "bs \<noteq> []" "b \<in> set bs \<Longrightarrow> blk (mp_mempool_size mp) b" "sorted_wrt (apart (mp_mempool_size mp)) (map fst bs)"
    "40 < mp_mempool_size mp" "mp_auto_extend mp \<or> length bs = 1"
    "mp_max_mempool_size mp = mp_mempool_size mp \<or> 2 * mp_mempool_size mp \<le> mp_max_mempool_size mp" "mp_mempool_size mp \<le> mp_alloc_mempool_size mp"
  using assms by (auto simp: pool_ok_def)

text \<open>One block of the pool is replaced by what an operation made of it.\<close>

lemma apart_same: "same_block m' m \<Longrightarrow> apart sz m' x = apart sz m x \<and> apart sz x m' = apart sz x m"
  by (auto simp: apart_def same_block_def)

lemma pool_ok_replace:
  assumes "pool_ok mp (xs @ (mm, L) # ys)" "mm_ok mm' L'" "coalesced L'" "same_block mm' mm"
  shows "pool_ok (mp\<lparr>mp_mlist := map fst xs @ mm' # map fst ys\<rparr>) (xs @ (mm', L') # ys)"
  using assms apart_same [OF assms(4)] by (auto simp: pool_ok_def blk_def same_block_def sorted_wrt_append)

lemma find_memory_ok:
  assumes "\<forall>b \<in> set bs. blk sz b" "40 < needed"
  shows "(\<exists>xs mm L1 n L2 ys mm'. bs = xs @ (mm, L1 @ (n, True) # L2) # ys \<and> needed \<le> n \<and> mm_ok mm' (L1 @ cut needed n @ L2) \<and> same_block mm' mm \<and>
       find_memory sz needed (map fst bs) = Some (Some (map fst xs @ mm' # map fst ys, mm_start mm + span L1 + 32))) \<or>
     ((\<forall>b \<in> set bs. \<forall>t \<in> set (snd b). snd t \<longrightarrow> fst t < needed) \<and> find_memory sz needed (map fst bs) = Some None)"
  using assms(1)
proof (induction bs)
  case (Cons b bs)
  obtain mm L where b: "b = (mm, L)" by (cases b)
  have ok: "mm_ok mm L" "mm_mempool_size mm = sz" using Cons.prems b by (auto simp: blk_def)
  show ?case
  proof (cases "\<exists>t \<in> set L. snd t \<and> needed \<le> fst t")
    case True
    then obtain t where t: "t \<in> set L" "snd t" "needed \<le> fst t" by blast
    obtain fr al where rep: "mm_rep mm L fr al" using ok(1) by (auto simp: mm_ok_def)
    have "used M \<le> span M" for M by (induction M) auto
    then have "fst t + used L \<le> span L" using t(1,2) by (induction L) (auto simp: add_le_mono)
    then have "\<not> sz - mm_alloc_mem mm < needed" using mm_repD(3,13) [OF rep] t(3) ok(2) by simp
    moreover obtain L1 n L2 where L: "L = L1 @ (n, True) # L2" "needed \<le> n"
      "find_free (Suc (mm_mempool_size mm)) needed (mm_chunks mm) (mm_free_list mm) = Some (Some (mm_start mm + span L1))"
      using find_in_block [OF ok(1), of needed] t by (metis linorder_not_less)
    moreover obtain mm' where "take_chunk needed mm (mm_start mm + span L1) = Some (mm', mm_start mm + span L1 + 32)" "mm_ok mm' (L1 @ cut needed n @ L2)" "same_block mm' mm"
      using take_chunk_ok [of mm L1 n L2 needed] ok(1) L assms(2) by blast
    ultimately show ?thesis using b
      by (intro disjI1 exI [of _ "[]"] exI [of _ mm] exI [of _ L1] exI [of _ n] exI [of _ L2] exI [of _ bs] exI [of _ mm']) (simp del: find_free.simps)
  next
    case False
    then have small: "\<forall>t \<in> set L. snd t \<longrightarrow> fst t < needed" by auto
    have "find_free (Suc (mm_mempool_size mm)) needed (mm_chunks mm) (mm_free_list mm) = Some None"
      using find_in_block [OF ok(1), of needed] small by auto
    then have fm: "find_memory sz needed (map fst (b # bs)) = map_option (map_option (\<lambda>(ms, p). (mm # ms, p))) (find_memory sz needed (map fst bs))"
      using b by (auto simp del: find_free.simps)
    from Cons.IH Cons.prems consider (found) xs mm1 L1 n L2 ys mm' where "bs = xs @ (mm1, L1 @ (n, True) # L2) # ys" "needed \<le> n" "mm_ok mm' (L1 @ cut needed n @ L2)" "same_block mm' mm1"
       "find_memory sz needed (map fst bs) = Some (Some (map fst xs @ mm' # map fst ys, mm_start mm1 + span L1 + 32))"
      | (no) "\<forall>b \<in> set bs. \<forall>t \<in> set (snd b). snd t \<longrightarrow> fst t < needed" "find_memory sz needed (map fst bs) = Some None" by auto
    then show ?thesis
    proof cases
      case found
      then show ?thesis unfolding fm
        by (intro disjI1 exI [of _ "b # xs"] exI [of _ mm1] exI [of _ L1] exI [of _ n] exI [of _ L2] exI [of _ ys] exI [of _ mm']) (simp add: b)
    next
      case no
      then show ?thesis unfolding fm using small b by simp
    qed
  qed
qed simp

text \<open>What is handed out is pairwise apart.\<close>

definition ivl_apart :: "addr \<times> nat \<Rightarrow> addr \<times> nat \<Rightarrow> bool" where
  "ivl_apart x y \<longleftrightarrow> fst x + snd x < fst y \<or> fst y + snd y < fst x"

lemma blkD: "blk sz b \<Longrightarrow> big (snd b) \<and> span (snd b) = sz"
  by (auto simp: blk_def mm_ok_def dest: mm_repD(3,4))

lemma live_apart:
  assumes "\<forall>b \<in> set bs. blk sz b" "sorted_wrt (apart sz) (map fst bs)"
  shows "sorted_wrt ivl_apart (live bs)"
  using assms
proof (induction bs)
  case (Cons b bs)
  have ok: "big (snd c)" "span (snd c) = sz" if "c \<in> set (b # bs)" for c using Cons.prems(1) that blkD by blast+
  have "ivl_apart x y" if x: "x \<in> set (allocs (mm_start (fst b)) (snd b))" and y: "y \<in> set (live bs)" for x y
  proof -
    obtain c where c: "c \<in> set bs" "y \<in> set (allocs (mm_start (fst c)) (snd c))" using y by (auto simp: live_def)
    have "apart sz (fst b) (fst c)" using Cons.prems(2) c(1) by simp
    then show ?thesis using allocs_range [OF ok(1), of b "fst x" "snd x"] allocs_range [OF ok(1), of c "fst y" "snd y"] ok(2) [of b] ok(2) [of c] x c
      by (fastforce simp: ivl_apart_def apart_def)
  qed
  moreover have "sorted_wrt ivl_apart (allocs (mm_start (fst b)) (snd b))"
    by (rule sorted_wrt_mono_rel [OF _ allocs_sorted [OF ok(1)]]) (auto simp: ivl_apart_def)
  ultimately show ?case using Cons by (simp add: live_def sorted_wrt_append)
qed (simp add: live_def)

lemma live_replace: "live (xs @ b # ys) = live xs @ allocs (mm_start (fst b)) (snd b) @ live ys"
  by (simp add: live_def)


section \<open>Allocation\<close>

lemma and_not_7: "unat ((x :: u64) AND NOT 7) + 7 \<ge> unat x"
proof -
  have "x = (x AND NOT 7) + (x AND 7)" by (simp add: disjunctive_add bit_simps flip: bit.conj_disj_distrib)
  then have "unat x \<le> unat (x AND NOT 7) + unat (x AND 7)" by (metis mod_less_eq_dividend unat_word_ariths(1))
  moreover have "x AND 7 \<le> 7" by (rule word_and_le1)
  then have "unat (x AND 7) \<le> 7" by (simp add: word_le_nat_alt)
  ultimately show ?thesis by linarith
qed

lemma needed_size_ge:
  assumes "unat w + 47 < 2 ^ 64"
  shows "unat w + 40 \<le> needed_size w"
proof -
  have "unat (47 + w) = unat w + 47" using assms by (simp add: unat_word_ariths)
  then show ?thesis using and_not_7 [of "w + 32 + 8 + 7"] by (simp add: needed_size_def align_size_def)
qed

text \<open>malloc returns memory that none of the blocks uses.\<close>

definition fresh_region :: "ld_mempool \<Rightarrow> addr \<Rightarrow> bool" where
  "fresh_region mp a \<longleftrightarrow> (\<forall>mm \<in> set (mp_mlist mp). a + mp_mempool_size mp \<le> mm_start mm \<or> mm_start mm + mp_mempool_size mp \<le> a)"

text \<open>The pool has no free chunk of this size.\<close>

definition no_fit :: "nat \<Rightarrow> (mp_memory \<times> layout) list \<Rightarrow> bool" where
  "no_fit needed bs \<longleftrightarrow> (\<forall>b \<in> set bs. \<forall>t \<in> set (snd b). snd t \<longrightarrow> fst t < needed)"

definition same_pool :: "ld_mempool \<Rightarrow> ld_mempool \<Rightarrow> bool" where
  "same_pool mp' mp \<longleftrightarrow> mp_mempool_size mp' = mp_mempool_size mp \<and> mp_max_mempool_size mp' = mp_max_mempool_size mp \<and> mp_auto_extend mp' = mp_auto_extend mp"

lemma alloc_found:
  assumes "pool_ok mp bs" "40 < needed" "\<not> no_fit needed bs"
  shows "\<exists>mp' bs' p k. alloc_loop ms mp needed = Some (mp', Some p) \<and> pool_ok mp' bs' \<and> same_pool mp' mp \<and> needed - 40 \<le> k \<and>
     mset (live bs') = add_mset (p, k) (mset (live bs))"
proof -
  have "\<forall>b \<in> set bs. blk (mp_mempool_size mp) b" using pool_okD(3) [OF assms(1)] by blast
  from find_memory_ok [OF this assms(2)] assms(3) obtain xs mm L1 n L2 ys mm' where f: "bs = xs @ (mm, L1 @ (n, True) # L2) # ys" "needed \<le> n" "mm_ok mm' (L1 @ cut needed n @ L2)"
    "same_block mm' mm" "find_memory (mp_mempool_size mp) needed (map fst bs) = Some (Some (map fst xs @ mm' # map fst ys, mm_start mm + span L1 + 32))"
    unfolding no_fit_def by blast
  let ?mp = "mp\<lparr>mp_mlist := map fst xs @ mm' # map fst ys\<rparr>" and ?bs = "xs @ (mm', L1 @ cut needed n @ L2) # ys"
  have "coalesced (L1 @ (n, True) # L2)" using pool_okD(3) [OF assms(1), of "(mm, L1 @ (n, True) # L2)"] f(1) by (simp add: blk_def)
  then have "pool_ok ?mp ?bs" using pool_ok_replace [OF _ f(3) _ f(4)] assms(1) f(1) coalesced_cut by blast
  moreover obtain k where "needed - 40 \<le> k" "mset (allocs (mm_start mm) (L1 @ cut needed n @ L2)) = add_mset (mm_start mm + span L1 + 32, k) (mset (allocs (mm_start mm) (L1 @ (n, True) # L2)))"
    using allocs_cut [OF assms(2) f(2)] by blast
  moreover have "alloc_loop ms mp needed = Some (?mp, Some (mm_start mm + span L1 + 32))"
    by (subst alloc_loop.simps) (simp add: pool_okD(1) [OF assms(1)] f(5))
  moreover have "mm_start mm' = mm_start mm" using f(4) by (simp add: same_block_def)
  ultimately show ?thesis using f(1)
    by (intro exI [of _ ?mp] exI [of _ ?bs] exI [of _ "mm_start mm + span L1 + 32"] exI [of _ k]) (simp add: live_replace same_pool_def)
qed

lemma alloc_none:
  assumes "pool_ok mp bs" "40 < needed" "no_fit needed bs"
  shows "find_memory (mp_mempool_size mp) needed (mp_mlist mp) = Some None"
proof -
  have "\<forall>b \<in> set bs. blk (mp_mempool_size mp) b" using pool_okD(3) [OF assms(1)] by blast
  from find_memory_ok [OF this assms(2)] assms(3) show ?thesis unfolding no_fit_def pool_okD(1) [OF assms(1)] by fastforce
qed

lemma extend_ok:
  assumes "pool_ok mp bs" "fresh_region mp a" "mp_auto_extend mp"
  shows "\<exists>mp' bs'. extend_memory_list mp a (mp_mempool_size mp) = Some mp' \<and> same_pool mp' mp \<and> mp_alloc_mempool_size mp' = mp_alloc_mempool_size mp \<and>
     pool_ok (mp'\<lparr>mp_alloc_mempool_size := n + mp_alloc_mempool_size mp'\<rparr>) bs' \<and> live bs' = live bs \<and> (needed \<le> mp_mempool_size mp \<longrightarrow> \<not> no_fit needed bs')"
proof -
  from new_memory_ok [OF pool_okD(5) [OF assms(1)], of a "mp_last_id mp"] obtain mm where mm: "new_memory a (mp_last_id mp) (mp_mempool_size mp) = Some mm"
    "mm_ok mm [(mp_mempool_size mp, True)]" "mm_start mm = a" "mm_mempool_size mm = mp_mempool_size mp" by blast
  let ?mp = "mp\<lparr>mp_last_id := mp_last_id mp + 1, mp_mlist := mm # mp_mlist mp\<rparr>" and ?bs = "(mm, [(mp_mempool_size mp, True)]) # bs"
  have "extend_memory_list mp a (mp_mempool_size mp) = Some ?mp" by (simp add: extend_memory_list_def mm(1))
  moreover have "pool_ok (?mp\<lparr>mp_alloc_mempool_size := n + mp_alloc_mempool_size ?mp\<rparr>) ?bs"
    using assms mm(2-4) by (auto simp: pool_ok_def blk_def coalesced_def apart_def fresh_region_def)
  ultimately show ?thesis by (intro exI [of _ ?mp] exI [of _ ?bs]) (auto simp: same_pool_def live_def no_fit_def)
qed

text \<open>
  The outcome of an allocation: memory that was not handed out before, or NULL for one of the
  reasons given; the pool is in order in both cases.
\<close>

definition null_reason :: "addr option \<Rightarrow> ld_mempool \<Rightarrow> (mp_memory \<times> layout) list \<Rightarrow> u64 \<Rightarrow> bool" where
  "null_reason m mp bs w \<longleftrightarrow> w = 0 \<or> mp_mempool_size mp < needed_size w \<or>
     no_fit (needed_size w) bs \<and> (\<not> mp_auto_extend mp \<or> mp_max_mempool_size mp < mp_alloc_mempool_size mp + needed_size w \<or> m = None)"

lemma mempool_alloc_ok:
  assumes "pool_ok mp bs" "unat w + 47 < 2 ^ 64" "\<And>a. m = Some a \<Longrightarrow> fresh_region mp a"
  shows "\<exists>mp' r bs'. mempool_alloc (m # ms) mp w = Some (mp', r) \<and> pool_ok mp' bs' \<and> same_pool mp' mp \<and>
     (case r of None \<Rightarrow> mp' = mp \<and> bs' = bs \<and> null_reason m mp bs w
      | Some p \<Rightarrow> \<exists>k \<ge> unat w. mset (live bs') = add_mset (p, k) (mset (live bs)))"
proof (cases "null_reason m mp bs w")
  case True
  have "mempool_alloc (m # ms) mp w = Some (mp, None)"
  proof (cases "w = 0 \<or> mp_mempool_size mp < needed_size w")
    case False
    then have "0 < unat w" by (simp add: unat_gt_0)
    then have "find_memory (mp_mempool_size mp) (needed_size w) (mp_mlist mp) = Some None"
      using alloc_none [OF assms(1)] needed_size_ge [OF assms(2)] True False by (auto simp: null_reason_def)
    then show ?thesis using True False by (auto simp: mempool_alloc_def null_reason_def word_le_0_iff)
  qed (auto simp: mempool_alloc_def word_le_0_iff)
  then show ?thesis using assms(1) True by (intro exI [of _ mp] exI [of _ None] exI [of _ bs]) (simp add: same_pool_def)
next
  case False
  then have w: "w \<noteq> 0" "needed_size w \<le> mp_mempool_size mp" "0 < unat w" by (auto simp: null_reason_def unat_gt_0)
  have n: "40 < needed_size w" "unat w \<le> needed_size w - 40" using needed_size_ge [OF assms(2)] w(3) by auto
  have top: "mempool_alloc (m # ms) mp w = alloc_loop (m # ms) mp (needed_size w)" using w by (auto simp: mempool_alloc_def word_le_0_iff)
  show ?thesis
  proof (cases "no_fit (needed_size w) bs")
    case fit: False
    from alloc_found [OF assms(1) n(1) fit, of "m # ms"] obtain mp' bs' p k where f: "alloc_loop (m # ms) mp (needed_size w) = Some (mp', Some p)" "pool_ok mp' bs'"
      "same_pool mp' mp" "needed_size w - 40 \<le> k" "mset (live bs') = add_mset (p, k) (mset (live bs))" by blast
    then show ?thesis unfolding top using n(2) by (intro exI [of _ mp'] exI [of _ "Some p"] exI [of _ bs']) auto
  next
    case nofit: True
    then obtain a where a: "m = Some a" "mp_auto_extend mp" "mp_alloc_mempool_size mp + needed_size w \<le> mp_max_mempool_size mp" using False by (auto simp: null_reason_def)
    have add: "mp_mempool_size mp \<le> mp_max_mempool_size mp - mp_mempool_size mp" using pool_okD(7,8) [OF assms(1)] a(3) n(1) by auto
    from extend_ok [OF assms(1) assms(3) [OF a(1)] a(2), of "mp_mempool_size mp" "needed_size w"] obtain mp1 bs1 where e:
      "extend_memory_list mp a (mp_mempool_size mp) = Some mp1" "same_pool mp1 mp" "pool_ok (mp1\<lparr>mp_alloc_mempool_size := mp_mempool_size mp + mp_alloc_mempool_size mp1\<rparr>) bs1"
      "live bs1 = live bs" "\<not> no_fit (needed_size w) bs1" using w(2) by blast
    let ?mp1 = "mp1\<lparr>mp_alloc_mempool_size := mp_alloc_mempool_size mp1 + mp_mempool_size mp\<rparr>"
    have "alloc_loop (m # ms) mp (needed_size w) = alloc_loop ms ?mp1 (needed_size w)"
      using a add e(1) alloc_none [OF assms(1) n(1) nofit] by (subst alloc_loop.simps) (simp add: Let_def del: alloc_loop.simps)
    moreover have ok1: "pool_ok ?mp1 bs1" using e(3) by (simp add: add.commute)
    moreover from alloc_found [OF ok1 n(1) e(5), of ms] obtain mp' bs' p k where "alloc_loop ms ?mp1 (needed_size w) = Some (mp', Some p)" "pool_ok mp' bs'"
      "same_pool mp' ?mp1" "needed_size w - 40 \<le> k" "mset (live bs') = add_mset (p, k) (mset (live bs1))" by blast
    ultimately show ?thesis unfolding top using n(2) e(2,4) by (intro exI [of _ mp'] exI [of _ "Some p"] exI [of _ bs']) (auto simp: same_pool_def)
  qed
qed


section \<open>Release and clearing\<close>

lemma find_memory_list_ok:
  assumes "sorted_wrt (apart sz) (xs @ mm # ys)" "mm_start mm \<le> p" "p < mm_start mm + sz"
  shows "find_memory_list sz (xs @ mm # ys) p = Some (length xs)"
  using assms by (induction xs) (auto simp: apart_def)

lemma mempool_free_ok:
  assumes "pool_ok mp bs" "(p, k) \<in> set (live bs)"
  shows "\<exists>mp' bs'. mempool_free mp p = Some mp' \<and> pool_ok mp' bs' \<and> same_pool mp' mp \<and> mset (live bs) = add_mset (p, k) (mset (live bs'))"
proof -
  obtain mm L where b: "(mm, L) \<in> set bs" "(p, k) \<in> set (allocs (mm_start mm) L)" using assms(2) by (auto simp: live_def)
  from split_list [OF b(1)] obtain xs ys where bs: "bs = xs @ (mm, L) # ys" by blast
  from allocs_start [OF b(2)] obtain L1 n L2 where L: "L = L1 @ (n, False) # L2" "p = mm_start mm + span L1 + 32" "k = n - 40" by blast
  note ok = pool_okD(3) [OF assms(1) b(1), unfolded blk_def fst_conv snd_conv]
  have rng: "mm_start mm \<le> p" "p < mm_start mm + mp_mempool_size mp"
    using blkD [OF pool_okD(3) [OF assms(1) b(1)]] L(1,2) by auto
  have idx: "(if mp_auto_extend mp then find_memory_list (mp_mempool_size mp) (mp_mlist mp) p else if mp_mlist mp = [] then None else Some 0) = Some (length xs)"
    using find_memory_list_ok [of "mp_mempool_size mp" "map fst xs" mm "map fst ys" p] pool_okD(1,4,6) [OF assms(1)] rng bs by auto
  from free_in_ok [of mm L1 n L2 "mp_mempool_size mp"] ok L(1) obtain mm' where mm': "free_in (mp_mempool_size mp) mm (mm_start mm + span L1) = Some mm'"
    "mm_ok mm' (release L1 n L2)" "same_block mm' mm" by auto
  let ?mp = "mp\<lparr>mp_mlist := map fst xs @ mm' # map fst ys\<rparr>" and ?bs = "xs @ (mm', release L1 n L2) # ys"
  have "mempool_free mp p = Some ?mp"
    unfolding mempool_free_def idx using mm'(1) L(2) pool_okD(1) [OF assms(1)] bs by (simp add: chunkheader_def nth_append list_update_append)
  moreover have "pool_ok ?mp ?bs" using pool_ok_replace [OF _ mm'(2) _ mm'(3)] assms(1) bs coalesced_release ok L(1) by blast
  moreover have "mset (live bs) = add_mset (p, k) (mset (live ?bs))"
    using allocs_release [of "mm_start mm" L1 n L2] L mm'(3) by (simp add: bs live_replace same_block_def)
  ultimately show ?thesis by (intro exI [of _ ?mp] exI [of _ ?bs]) (simp add: same_pool_def)
qed

lemma clear_all_ok:
  assumes "\<forall>b \<in> set bs. blk sz b" "40 < sz"
  shows "\<exists>bs'. clear_all (map fst bs) = Some (map fst bs') \<and> (\<forall>b \<in> set bs'. blk sz b \<and> snd b = [(sz, True)]) \<and> map (\<lambda>b. mm_start (fst b)) bs' = map (\<lambda>b. mm_start (fst b)) bs"
  using assms(1)
proof (induction bs)
  case (Cons b bs)
  from Cons.IH Cons.prems obtain bs' where "clear_all (map fst bs) = Some (map fst bs')" "\<forall>b \<in> set bs'. blk sz b \<and> snd b = [(sz, True)]"
    "map (\<lambda>b. mm_start (fst b)) bs' = map (\<lambda>b. mm_start (fst b)) bs" by (metis list.set_intros(2))
  moreover from init_memory_ok [OF assms(2), of "fst b"] obtain mm where "init_memory (fst b) sz = Some mm" "mm_ok mm [(sz, True)]" "mm_start mm = mm_start (fst b)" "mm_mempool_size mm = sz" by blast
  ultimately show ?case using Cons.prems by (intro exI [of _ "(mm, [(sz, True)]) # bs'"]) (auto simp: blk_def coalesced_def)
qed simp

lemma sorted_apart_cong: "map mm_start ms = map mm_start ms' \<Longrightarrow> sorted_wrt (apart sz) ms = sorted_wrt (apart sz) ms'"
proof -
  assume e: "map mm_start ms = map mm_start ms'"
  then have "length ms = length ms'" by (metis length_map)
  moreover from this e have "mm_start (ms ! i) = mm_start (ms' ! i)" if "i < length ms" for i using that by (metis nth_map)
  ultimately show ?thesis by (auto simp: sorted_wrt_iff_nth_less apart_def)
qed

lemma mempool_clear_ok:
  assumes "pool_ok mp bs"
  shows "\<exists>mp' bs'. mempool_clear mp = Some mp' \<and> pool_ok mp' bs' \<and> same_pool mp' mp \<and> live bs' = []"
proof -
  from clear_all_ok [of bs "mp_mempool_size mp"] pool_okD(3,5) [OF assms] obtain bs' where bs': "clear_all (map fst bs) = Some (map fst bs')"
    "\<forall>b \<in> set bs'. blk (mp_mempool_size mp) b \<and> snd b = [(mp_mempool_size mp, True)]" "map (\<lambda>b. mm_start (fst b)) bs' = map (\<lambda>b. mm_start (fst b)) bs" by blast
  have "length bs' = length bs" using bs'(3) by (metis length_map)
  then have "pool_ok (mp\<lparr>mp_mlist := map fst bs'\<rparr>) bs'"
    using assms bs'(2,3) sorted_apart_cong [of "map fst bs'" "map fst bs"] by (auto simp: pool_ok_def comp_def)
  moreover have "live bs' = []" using bs'(2) by (simp add: live_def)
  ultimately show ?thesis using bs'(1) pool_okD(1) [OF assms] by (auto simp: mempool_clear_def same_pool_def)
qed


section \<open>The pool and its client\<close>

datatype mp_label = L_alloc u64 "addr option" | L_free addr | L_clear

text \<open>
  The state is the pool with the pointers its client holds, each with the size it asked for. The
  client gives back only pointers it holds, and asks for less than all of the address space.
\<close>

inductive mp_steps :: "ld_mempool \<times> (addr \<times> nat) list \<Rightarrow> mp_label \<Rightarrow> ld_mempool \<times> (addr \<times> nat) list \<Rightarrow> bool" where
  st_alloc: "mempool_alloc (m # ms) mp w = Some (mp', r) \<Longrightarrow> (\<forall>a. m = Some a \<longrightarrow> fresh_region mp a) \<Longrightarrow> unat w + 47 < 2 ^ 64 \<Longrightarrow>
     mp_steps (mp, h) (L_alloc w r) (mp', case r of None \<Rightarrow> h | Some p \<Rightarrow> (p, unat w) # h)"
| st_free: "mempool_free mp p = Some mp' \<Longrightarrow> mp_steps (mp, h1 @ (p, k) # h2) (L_free p) (mp', h1 @ h2)"
| st_clear: "mempool_clear mp = Some mp' \<Longrightarrow> mp_steps (mp, h) L_clear (mp', [])"

definition mp_start :: "ld_mempool \<times> (addr \<times> nat) list \<Rightarrow> bool" where
  "mp_start s \<longleftrightarrow> (\<exists>a junk mx sz. 40 < sz \<and> (mx = sz \<or> 2 * sz \<le> mx) \<and> mempool_init True (Some a) junk mx sz = Some (Some (fst s)) \<and> snd s = [])"

definition holds_blocks :: "(addr \<times> nat) list \<Rightarrow> (addr \<times> nat) list \<Rightarrow> bool" where
  "holds_blocks h ks \<longleftrightarrow> list_all2 (\<lambda>x y. fst x = fst y \<and> snd x \<le> snd y) h ks"

definition mp_inv :: "ld_mempool \<times> (addr \<times> nat) list \<Rightarrow> bool" where
  "mp_inv s \<longleftrightarrow> (\<exists>bs ks. pool_ok (fst s) bs \<and> mset ks = mset (live bs) \<and> holds_blocks (snd s) ks)"

lemma init_pool_ok:
  assumes "40 < sz" "mx = sz \<or> 2 * sz \<le> mx"
  shows "\<exists>mp mm. mempool_init True (Some a) junk mx sz = Some (Some mp) \<and> pool_ok mp [(mm, [(sz, True)])] \<and> mp_mempool_size mp = sz"
proof -
  from new_memory_ok [OF assms(1), of a 0] obtain mm where mm: "new_memory a 0 sz = Some mm" "mm_ok mm [(sz, True)]" "mm_mempool_size mm = sz" by blast
  let ?mp = "\<lparr>mp_last_id = 1, mp_auto_extend = (sz < mx \<or> junk), mp_mempool_size = sz, mp_max_mempool_size = mx, mp_alloc_mempool_size = sz, mp_mlist = [mm]\<rparr>"
  have "mempool_init True (Some a) junk mx sz = Some (Some ?mp)" using assms mm(1) by (auto simp: mempool_init_def)
  moreover have "pool_ok ?mp [(mm, [(sz, True)])]" using assms mm by (auto simp: pool_ok_def blk_def coalesced_def)
  ultimately show ?thesis by (intro exI [of _ ?mp] exI [of _ mm]) simp
qed

lemma mp_start_inv: "mp_start s \<Longrightarrow> mp_inv s"
proof -
  assume "mp_start s"
  then obtain a junk mx sz where s: "40 < sz" "mx = sz \<or> 2 * sz \<le> mx" "mempool_init True (Some a) junk mx sz = Some (Some (fst s))" "snd s = []" by (auto simp: mp_start_def)
  from init_pool_ok [OF s(1,2), of a junk] s(3) obtain mm where "pool_ok (fst s) [(mm, [(sz, True)])]" by auto
  then show ?thesis using s(4) by (auto simp: mp_inv_def live_def holds_blocks_def)
qed

lemma mp_step_inv:
  assumes "mp_inv s" "mp_steps s l s'"
  shows "mp_inv s'"
  using assms(2,1)
proof (cases rule: mp_steps.cases)
  case (st_alloc m ms mp w mp' r h)
  then obtain bs ks where i: "pool_ok mp bs" "mset ks = mset (live bs)" "holds_blocks h ks" using assms(1) by (auto simp: mp_inv_def)
  from mempool_alloc_ok [OF i(1), of w m ms] st_alloc obtain bs' where bs': "pool_ok mp' bs'"
    "case r of None \<Rightarrow> bs' = bs | Some p \<Rightarrow> \<exists>k \<ge> unat w. mset (live bs') = add_mset (p, k) (mset (live bs))" by (auto split: option.splits)
  show ?thesis
  proof (cases r)
    case None
    then show ?thesis using st_alloc i bs' by (auto simp: mp_inv_def)
  next
    case (Some p)
    then obtain k where "unat w \<le> k" "mset (live bs') = add_mset (p, k) (mset (live bs))" using bs'(2) by auto
    then show ?thesis using st_alloc i Some bs'(1) by (auto simp: mp_inv_def holds_blocks_def intro!: exI [of _ bs'] exI [of _ "(p, k) # ks"])
  qed
next
  case (st_free mp p mp' h1 k h2)
  then obtain bs ks where i: "pool_ok mp bs" "mset ks = mset (live bs)" "holds_blocks (h1 @ (p, k) # h2) ks" using assms(1) by (auto simp: mp_inv_def)
  then obtain k1 n k2 where ks: "ks = k1 @ (p, n) # k2" "holds_blocks (h1 @ h2) (k1 @ k2)" 
    by (fastforce simp: holds_blocks_def list_all2_append1 list_all2_Cons1)
  then have "(p, n) \<in> set (live bs)" using i(2) by (metis in_set_conv_decomp set_mset_mset)
  from mempool_free_ok [OF i(1) this] st_free obtain bs' where "pool_ok mp' bs'" "mset (live bs) = add_mset (p, n) (mset (live bs'))" by auto
  then show ?thesis using st_free i(2) ks by (auto simp: mp_inv_def intro!: exI [of _ bs'] exI [of _ "k1 @ k2"])
next
  case (st_clear mp mp' h)
  then show ?thesis using assms(1) mempool_clear_ok [of mp] by (fastforce simp: mp_inv_def holds_blocks_def)
qed

interpretation mpl: event_system mp_start mp_steps mp_inv
  by unfold_locales (auto intro: mp_start_inv mp_step_inv)


section \<open>Properties\<close>

lemma mp_reach:
  assumes "mp_start s" "ev_runs mp_steps s ls (mp, h)"
  obtains bs ks where "pool_ok mp bs" "mset ks = mset (live bs)" "holds_blocks h ks"
  using mpl.reachable_inv [OF assms] by (auto simp: mp_inv_def)

lemma ivl_apart_sym: "ivl_apart x y = ivl_apart y x"
  by (auto simp: ivl_apart_def)

lemma sorted_wrt_perm:
  assumes "mset xs = mset ys" "sorted_wrt ivl_apart xs"
  shows "sorted_wrt ivl_apart ys"
proof -
  have irr: "\<not> ivl_apart x x" for x by (simp add: ivl_apart_def)
  have iff: "sorted_wrt ivl_apart zs \<longleftrightarrow> distinct zs \<and> pairwise ivl_apart (set zs)" for zs
  proof (induction zs)
    case (Cons z zs)
    have "(\<forall>y \<in> set zs. ivl_apart z y) \<longleftrightarrow> z \<notin> set zs \<and> (\<forall>y. y \<in> set zs \<and> y \<noteq> z \<longrightarrow> ivl_apart z y \<and> ivl_apart y z)"
      using irr ivl_apart_sym by metis
    then show ?case using Cons by (simp add: pairwise_insert) blast
  qed simp
  have "distinct ys = distinct xs" "set ys = set xs" using assms(1) by (metis mset_eq_imp_distinct_iff, metis set_mset_mset)
  then show ?thesis using assms(2) unfolding iff by simp
qed

lemma holds_blocks_sorted:
  assumes "holds_blocks h ks" "sorted_wrt ivl_apart ks"
  shows "sorted_wrt ivl_apart h"
  unfolding sorted_wrt_iff_nth_less
proof (intro allI impI)
  fix i j assume ij: "i < j" "j < length h"
  then have "ivl_apart (ks ! i) (ks ! j)" "fst (h ! i) = fst (ks ! i)" "snd (h ! i) \<le> snd (ks ! i)" "fst (h ! j) = fst (ks ! j)" "snd (h ! j) \<le> snd (ks ! j)"
    using assms by (auto simp: holds_blocks_def list_all2_conv_all_nth sorted_wrt_iff_nth_less)
  then show "ivl_apart (h ! i) (h ! j)" by (auto simp: ivl_apart_def)
qed

lemma live_in_block:
  assumes "pool_ok mp bs" "(p, k) \<in> set (live bs)"
  shows "\<exists>mm \<in> set (mp_mlist mp). mm_start mm \<le> p \<and> p + k \<le> mm_start mm + mm_mempool_size mm"
proof -
  obtain b where b: "b \<in> set bs" "(p, k) \<in> set (allocs (mm_start (fst b)) (snd b))" using assms(2) by (auto simp: live_def)
  have ok: "big (snd b)" "span (snd b) = mm_mempool_size (fst b)" using pool_okD(3) [OF assms(1) b(1)] blkD by (auto simp: blk_def)
  then show ?thesis using allocs_range [OF ok(1) b(2)] b(1) pool_okD(1) [OF assms(1)] by (intro bexI [of _ "fst b"]) auto
qed

text \<open>
  Property C5: the memory pool never hands out the same memory twice. After any sequence of
  allocations, releases and clearings, with any results of malloc, the blocks the client holds are
  pairwise disjoint, as large as requested, and lie inside the memory of the pool.
\<close>

theorem mempool_blocks_disjoint:
  assumes "mp_start s" "ev_runs mp_steps s ls (mp, h)"
  shows "(\<forall>i j. i < j \<longrightarrow> j < length h \<longrightarrow> fst (h ! i) + snd (h ! i) < fst (h ! j) \<or> fst (h ! j) + snd (h ! j) < fst (h ! i)) \<and>
     (\<forall>x \<in> set h. \<exists>mm \<in> set (mp_mlist mp). mm_start mm \<le> fst x \<and> fst x + snd x \<le> mm_start mm + mm_mempool_size mm)"
proof
  obtain bs ks where i: "pool_ok mp bs" "mset ks = mset (live bs)" "holds_blocks h ks" using mp_reach [OF assms] .
  have "sorted_wrt ivl_apart (live bs)" using live_apart pool_okD(3,4) [OF i(1)] by blast
  then have "sorted_wrt ivl_apart h" using holds_blocks_sorted [OF i(3)] sorted_wrt_perm i(2) by metis
  then show "\<forall>i j. i < j \<longrightarrow> j < length h \<longrightarrow> fst (h ! i) + snd (h ! i) < fst (h ! j) \<or> fst (h ! j) + snd (h ! j) < fst (h ! i)"
    by (simp add: sorted_wrt_iff_nth_less ivl_apart_def)
  show "\<forall>x \<in> set h. \<exists>mm \<in> set (mp_mlist mp). mm_start mm \<le> fst x \<and> fst x + snd x \<le> mm_start mm + mm_mempool_size mm"
  proof
    fix x assume "x \<in> set h"
    then obtain m where m: "m < length h" "h ! m = x" by (auto simp: in_set_conv_nth)
    define n where "n = snd (ks ! m)"
    have "m < length ks" "fst x = fst (ks ! m)" "snd x \<le> n" using m i(3) by (auto simp: holds_blocks_def list_all2_conv_all_nth n_def)
    then have "(fst x, n) \<in> set ks" by (metis n_def nth_mem prod.collapse)
    then have "(fst x, n) \<in> set (live bs)" using i(2) by (metis set_mset_mset)
    from live_in_block [OF i(1) this] obtain mm where "mm \<in> set (mp_mlist mp)" "mm_start mm \<le> fst x" "fst x + n \<le> mm_start mm + mm_mempool_size mm" by blast
    then show "\<exists>mm \<in> set (mp_mlist mp). mm_start mm \<le> fst x \<and> fst x + snd x \<le> mm_start mm + mm_mempool_size mm"
      using \<open>snd x \<le> n\<close> by (intro bexI [of _ mm]) auto
  qed
qed

lemma mp_example_run: "\<exists>s mp p. mp_start s \<and> ev_runs mp_steps s [L_alloc 8 (Some p)] (mp, [(p, 8)])"
proof -
  from init_pool_ok [of 512 512 1000 False] obtain mp0 mm where mp0: "mempool_init True (Some 1000) False 512 512 = Some (Some mp0)" "pool_ok mp0 [(mm, [(512, True)])]"
    "mp_mempool_size mp0 = 512" by auto
  then have st: "mp_start (mp0, [])" unfolding mp_start_def by (intro exI [of _ 1000] exI [of _ False] exI [of _ 512] exI [of _ 512]) simp
  have "needed_size 8 = 48" by (simp add: needed_size_def align_size_def)
  then have "\<not> null_reason None mp0 [(mm, [(512, True)])] 8" using mp0(3) by (simp add: null_reason_def no_fit_def)
  with mempool_alloc_ok [OF mp0(2), of 8 None "[]"] obtain mp1 p where a: "mempool_alloc [None] mp0 8 = Some (mp1, Some p)" by (auto split: option.splits)
  have "mp_steps (mp0, []) (L_alloc 8 (Some p)) (mp1, case Some p of None \<Rightarrow> [] | Some p \<Rightarrow> (p, unat (8 :: u64)) # [])"
    by (rule st_alloc [OF a]) simp_all
  then have "ev_runs mp_steps (mp0, []) [L_alloc 8 (Some p)] (mp1, [(p, 8)])" by auto
  then show ?thesis using st by blast
qed

lemma mp_example_run2: "\<exists>s mp p. mp_start s \<and> ev_runs mp_steps s [L_alloc 8 (Some p), L_free p] (mp, [])"
proof -
  obtain s mp p where r: "mp_start s" "ev_runs mp_steps s [L_alloc 8 (Some p)] (mp, [(p, 8)])" using mp_example_run by blast
  obtain bs ks where i: "pool_ok mp bs" "mset ks = mset (live bs)" "holds_blocks [(p, 8)] ks" using mp_reach [OF r] .
  then obtain n where "ks = [(p, n)]" by (auto simp: holds_blocks_def list_all2_Cons1)
  then have "(p, n) \<in> set (live bs)" using i(2) by (metis list.set_intros(1) set_mset_mset)
  from mempool_free_ok [OF i(1) this] obtain mp' where "mempool_free mp p = Some mp'" by blast
  from st_free [OF this, of "[]" 8 "[]"] have "mp_steps (mp, [(p, 8)]) (L_free p) (mp', [])" by simp
  then show ?thesis using r by (fastforce simp: ev_runs_append)
qed

theorem mempool_blocks_disjoint_witness:
  "\<exists>s mp p. ev_runs mp_steps s [L_alloc 8 (Some p)] (mp, [(p, 8)]) \<and> (\<exists>mm \<in> set (mp_mlist mp). mm_start mm \<le> p \<and> p + 8 \<le> mm_start mm + mm_mempool_size mm)"
proof -
  obtain s mp p where r: "mp_start s" "ev_runs mp_steps s [L_alloc 8 (Some p)] (mp, [(p, 8)])" using mp_example_run by blast
  from mempool_blocks_disjoint [OF r] have "\<exists>mm \<in> set (mp_mlist mp). mm_start mm \<le> p \<and> p + 8 \<le> mm_start mm + mm_mempool_size mm" by simp
  then show ?thesis using r(2) by blast
qed



lemma all_free_single:
  assumes "coalesced L" "\<forall>t \<in> set L. snd t" "0 < span L"
  shows "L = [(span L, True)]"
proof (cases L)
  case (Cons t L')
  moreover have "L' = []" using assms(1,2) Cons by (cases L') (auto simp: coalesced_def)
  ultimately show ?thesis using assms(2) by (cases t) simp
qed (use assms(3) in simp)

lemma allocs_Nil_iff: "allocs a L = [] \<longleftrightarrow> (\<forall>t \<in> set L. snd t)"
  by (induction L arbitrary: a) auto

text \<open>
  Property C22: nothing is lost to fragmentation. Whenever the client holds no block, in whatever order
  they were given back, every block of the pool is one free chunk of its whole size again, and the
  statistics are zero.
\<close>

theorem mempool_empty_is_whole:
  assumes "mp_start s" "ev_runs mp_steps s ls (mp, [])" "mm \<in> set (mp_mlist mp)"
  shows "mm_free_list mm = Some (mm_start mm) \<and> mm_alloc_list mm = None \<and> mm_alloc_mem mm = 0 \<and> mm_alloc_prog_mem mm = 0 \<and>
     (\<exists>c. mm_chunks mm (mm_start mm) = Some c \<and> ck_alloc_mem c = mm_mempool_size mm \<and> ck_is_free c \<and> ck_next c = None)"
proof -
  obtain bs ks where i: "pool_ok mp bs" "mset ks = mset (live bs)" "holds_blocks [] ks" using mp_reach [OF assms(1,2)] .
  have "live bs = []" using i(2,3) by (simp add: holds_blocks_def)
  moreover obtain L where L: "(mm, L) \<in> set bs" using assms(3) pool_okD(1) [OF i(1)] by auto
  ultimately have "\<forall>t \<in> set L. snd t" using allocs_Nil_iff [of "mm_start mm" L] by (auto simp: live_def)
  moreover have b: "blk (mp_mempool_size mp) (mm, L)" using pool_okD(3) [OF i(1) L] .
  moreover have "0 < span L" using blkD [OF b] pool_okD(5) [OF i(1)] by simp
  ultimately have "L = [(span L, True)]" using all_free_single by (simp add: blk_def)
  then obtain fr al where r: "mm_rep mm [(mm_mempool_size mm, True)] fr al" using b blkD [OF b] by (auto simp: blk_def mm_ok_def)
  have "fr = [mm_start mm]" using mm_repD(7,8) [OF r] by (cases fr) (auto simp: subset_singleton_iff)
  moreover have "al = []" using mm_repD(12) [OF r] by simp
  moreover obtain c where "mm_chunks mm (mm_start mm) = Some c" "ck_alloc_mem c = mm_mempool_size mm" "ck_is_free c" using mm_repD(1) [OF r] by (auto dest!: payload_at)
  ultimately show ?thesis using mm_repD(5,6,10,13,14) [OF r] by auto
qed

theorem mempool_empty_is_whole_witness:
  "\<exists>s mp p. ev_runs mp_steps s [L_alloc 8 (Some p), L_free p] (mp, []) \<and> (\<forall>mm \<in> set (mp_mlist mp). mm_free_list mm = Some (mm_start mm) \<and> mm_alloc_mem mm = 0)"
proof -
  obtain s mp p where r: "mp_start s" "ev_runs mp_steps s [L_alloc 8 (Some p), L_free p] (mp, [])" using mp_example_run2 by blast
  have "mm_free_list mm = Some (mm_start mm) \<and> mm_alloc_mem mm = 0" if "mm \<in> set (mp_mlist mp)" for mm using mempool_empty_is_whole [OF r that] by blast
  then show ?thesis using r(2) by blast
qed

lemma and_not_7_small: "unat (x :: u64) \<le> 7 \<Longrightarrow> x AND NOT 7 = 0"
proof -
  assume "unat x \<le> 7"
  then obtain k where "x = of_nat k" "k \<in> {0, 1, 2, 3, 4, 5, 6, 7}" by (intro that [of "unat x"]) auto
  then show ?thesis by (elim insertE emptyE) simp_all
qed

lemma needed_size_wraps:
  assumes "2 ^ 64 - 47 \<le> unat w" "unat w \<le> 2 ^ 64 - 40"
  shows "needed_size w = 0"
proof -
  have "unat (w + 47) = (unat w + 47) mod 2 ^ 64" by (simp add: unat_word_ariths)
  also have "\<dots> = unat w + 47 - 2 ^ 64" using assms by (subst mod_if) auto
  finally have "unat (w + 32 + 8 + 7) \<le> 7" using assms by (simp add: add.assoc)
  then show ?thesis unfolding needed_size_def align_size_def by (subst and_not_7_small) simp_all
qed

text \<open>
  The size computation wraps around. A request within 47 bytes of \<open>2 ^ 64\<close> is rounded up
  to zero, passes the size check and is granted: the pointer to the start of a block, whose header now
  says size zero and which is both in the free and in the allocated list.
\<close>

theorem mempool_alloc_wraps:
  assumes "mempool_init True (Some a) junk mx sz = Some (Some mp)" "40 < sz" "2 ^ 64 - 47 \<le> unat w" "unat w \<le> 2 ^ 64 - 40"
  shows "\<exists>mp' mm c. mempool_alloc [] mp w = Some (mp', Some (a + 32)) \<and> mp_mlist mp' = [mm] \<and> mm_free_list mm = Some a \<and> mm_alloc_list mm = Some a \<and>
     mm_chunks mm a = Some c \<and> ck_alloc_mem c = 0"
proof -
  have mp: "mp = \<lparr>mp_last_id = 1, mp_auto_extend = (sz < mx \<or> junk), mp_mempool_size = sz, mp_max_mempool_size = mx, mp_alloc_mempool_size = sz,
      mp_mlist = [\<lparr>mm_start = a, mm_id = 0, mm_mempool_size = sz, mm_alloc_mem = 0, mm_alloc_prog_mem = 0, mm_free_list = Some a, mm_alloc_list = None,
        mm_chunks = [a \<mapsto> \<lparr>ck_alloc_mem = sz, ck_prev = None, ck_next = None, ck_is_free = True\<rparr>], mm_ends = Map.empty\<rparr>]\<rparr>"
    using assms(1,2) by (auto simp: mempool_init_def new_memory_def init_memory_def chunkheader_def split: if_splits)
  have "w \<noteq> 0" using assms(3) by auto
  then show ?thesis unfolding mempool_alloc_def needed_size_wraps [OF assms(3,4)] using assms(2)
    by (subst alloc_loop.simps)
      (simp add: mp take_chunk_def split_chunk_def Let_def upd_opt_def upd_chunk_def dlinklist_ins_frt_def chunkheader_def chunkend_def word_le_0_iff)
qed

theorem mempool_alloc_wraps_witness:
  "\<exists>mp mp' mm c. mempool_init True (Some 1000) False 512 512 = Some (Some mp) \<and> mempool_alloc [] mp (- 40) = Some (mp', Some 1032) \<and> mp_mlist mp' = [mm] \<and>
     mm_chunks mm 1000 = Some c \<and> ck_alloc_mem c = 0"
proof -
  from init_pool_ok [of 512 512 1000 False] obtain mp where "mempool_init True (Some 1000) False 512 512 = Some (Some mp)" by auto
  with mempool_alloc_wraps [OF this, of "- 40"] show ?thesis by auto
qed

text \<open>
  When the limit lies between one and two block sizes, the block by which the pool grows is shorter
  than the others, but releasing its last chunk still looks for a neighbour up to the usual size: the
  header it reads lies outside of the block.
\<close>

theorem mempool_short_block_overrun:
  assumes "mm_ok mm (L1 @ [(n, False)])" "L1 = [] \<or> \<not> snd (last L1)" "mm_mempool_size mm < sz" "mm_chunks mm (mm_start mm + mm_mempool_size mm) = None"
  shows "free_in sz mm (mm_start mm + span L1) = None"
proof -
  obtain fr al where rep: "mm_rep mm (L1 @ [(n, False)]) fr al" using assms(1) by (auto simp: mm_ok_def)
  let ?a = "mm_start mm + span L1"
  from mark_free_ok [OF rep] obtain al' ch0 ch1 ch2 d where m: "dlinklist_del (mm_alloc_list mm) ?a (mm_chunks mm) = Some (hd_opt al', ch0)"
    "dlinklist_ins_frt (mm_free_list mm) ?a ch0 = Some (Some ?a, ch1)" "upd_chunk ?a (\<lambda>d. d\<lparr>ck_is_free := True\<rparr>) ch1 = Some ch2" "ch2 ?a = Some d" "ck_alloc_mem d = n"
    "\<forall>y. y \<notin> set al \<longrightarrow> y \<notin> set fr \<longrightarrow> ch2 y = mm_chunks mm y"
    "mm_rep (mm\<lparr>mm_alloc_list := hd_opt al', mm_free_list := Some ?a, mm_chunks := ch2, mm_alloc_mem := mm_alloc_mem mm - n,
       mm_alloc_prog_mem := mm_alloc_prog_mem mm - (n - 32 - 8)\<rparr>) (L1 @ [(n, True)]) (?a # fr) al'" by blast
  let ?mm = "mm\<lparr>mm_alloc_list := hd_opt al', mm_free_list := Some ?a, mm_chunks := ch2, mm_alloc_mem := mm_alloc_mem mm - n,
       mm_alloc_prog_mem := mm_alloc_prog_mem mm - (n - 32 - 8)\<rparr>"
  have sp: "span L1 + n = mm_mempool_size mm" "0 < span L1 + n" "40 < n" using mm_repD(3,4) [OF rep] by auto
  have "merge_back (Suc (mm_mempool_size mm)) ?mm (mm_start ?mm + span L1 + span []) ?a = Some (mm_start ?mm + span L1)"
    using mm_repD(1,2,4) [OF m(7)] assms(2) sp by (intro merge_back_ok [where n = n and B = "[]" and e = "mm_start mm + span (L1 @ [(n, True)])"]) auto
  moreover have "ch2 (?a + n) = None"
  proof -
    have "?a + n \<notin> starts f (mm_start mm) (L1 @ [(n, False)])" for f
    proof
      assume "?a + n \<in> starts f (mm_start mm) (L1 @ [(n, False)])"
      from starts_range [OF mm_repD(4) [OF rep] this] show False by simp
    qed
    then have "?a + n \<notin> set al" "?a + n \<notin> set fr" unfolding mm_repD(8,12) [OF rep] by blast+
    then show ?thesis using m(6) assms(4) sp(1) by (simp add: add.assoc)
  qed
  ultimately have "merge_free_chunk sz ?mm ?a = None" using m(4,5) sp(1) assms(3) by (simp add: merge_free_chunk_def add.assoc del: merge_back.simps)
  then show ?thesis using m(1-5) by (simp add: free_in_def chunkheader_def chunkend_def)
qed

text \<open>
  The amount by which the pool grows is computed from the size of the first block, not from what has
  been allocated: the total can exceed the limit.
\<close>

lemma find_in_new:
  assumes "new_memory a i sz = Some mm" "40 < needed" "needed \<le> sz"
  shows "\<exists>mm'. find_memory sz needed (mm # ms) = Some (Some (mm' # ms, a + 32))"
proof -
  from new_memory_ok [of sz a i] assms have mm: "mm_ok mm [(sz, True)]" "mm_start mm = a" "mm_mempool_size mm = sz" by auto
  obtain fr al where r: "mm_rep mm [(sz, True)] fr al" using mm(1) by (auto simp: mm_ok_def)
  have "find_free (Suc sz) needed (mm_chunks mm) (mm_free_list mm) = Some (Some a)"
    using find_in_block [OF mm(1), of needed] mm(2,3) assms(3) by (auto simp: Cons_eq_append_conv simp del: find_free.simps)
  moreover from take_chunk_ok [of mm "[]" sz "[]" needed] mm assms(2,3) obtain mm' where "take_chunk needed mm a = Some (mm', a + 32)" by auto
  moreover have "mm_alloc_mem mm = 0" using mm_repD(13) [OF r] by simp
  ultimately show ?thesis using mm(3) assms(3) by (intro exI [of _ mm']) (simp del: find_free.simps)
qed

theorem mempool_limit_exceeded:
  assumes "find_memory (mp_mempool_size mp) (needed_size w) (mp_mlist mp) = Some None" "mp_auto_extend mp" "2 * mp_mempool_size mp \<le> mp_max_mempool_size mp"
    "0 < w" "40 < needed_size w" "needed_size w \<le> mp_mempool_size mp"
    "mp_alloc_mempool_size mp + needed_size w \<le> mp_max_mempool_size mp" "mp_max_mempool_size mp < mp_alloc_mempool_size mp + mp_mempool_size mp"
  shows "\<exists>mp'. mempool_alloc [Some a] mp w = Some (mp', Some (a + 32)) \<and> mp_max_mempool_size mp' < GetTotalMemory mp'"
proof -
  have sz: "40 < mp_mempool_size mp" using assms(5,6) by simp
  from new_memory_ok [OF sz, of a "mp_last_id mp"] obtain mm where mm: "new_memory a (mp_last_id mp) (mp_mempool_size mp) = Some mm" by blast
  from find_in_new [OF mm assms(5,6), of "mp_mlist mp"] obtain mm' where f: "find_memory (mp_mempool_size mp) (needed_size w) (mm # mp_mlist mp) = Some (Some (mm' # mp_mlist mp, a + 32))" ..
  have d: "mp_mempool_size mp \<le> mp_max_mempool_size mp - mp_mempool_size mp" using assms(3) by simp
  let ?mp = "mp\<lparr>mp_last_id := mp_last_id mp + 1, mp_mlist := mm # mp_mlist mp, mp_alloc_mempool_size := mp_alloc_mempool_size mp + mp_mempool_size mp\<rparr>"
  have "alloc_loop [Some a] mp (needed_size w) = alloc_loop [] ?mp (needed_size w)"
    using assms(1,2,7) mm d by (subst alloc_loop.simps) (simp add: Let_def extend_memory_list_def del: alloc_loop.simps)
  also have "\<dots> = Some (?mp\<lparr>mp_mlist := mm' # mp_mlist mp\<rparr>, Some (a + 32))" using f by (subst alloc_loop.simps) (simp del: find_memory.simps)
  finally show ?thesis using assms(4,6,8) by (auto simp: mempool_alloc_def GetTotalMemory_def)
qed

end
