(* ===== verification/Multitimer.thy ===== *)
theory Multitimer
  imports Event_System
begin

text \<open>
  The timers of src/src/ld_multitimer.c, which share one thread: the timers are an array, the active
  ones also a list in the order of their expiry. The thread waits for the first of the list or for a
  change. The list macros come from the library utlist and are arguments (\<open>ins\<close> for
  \<open>LL_INSERT_INORDER\<close>, \<open>del\<close> for \<open>LL_DELETE\<close>) with their documented behaviour as hypothesis. A pointer
  to a timer is its index. Each call is one step, made while it holds the mutex; while the thread
  waits on the condition, the mutex is free and the calls of other threads take place. The calls read
  \<open>active\<close> just before they take the mutex: one step for both is right as long as no two threads
  set or cancel the same timer at once.
\<close>

section \<open>Times\<close>

record timespec =
  tv_sec :: int
  tv_nsec :: int

definition SECOND :: int where
  "SECOND = 1000000000"

definition timespec_cmp :: "timespec \<Rightarrow> timespec \<Rightarrow> int" where
  "timespec_cmp x y = (if tv_sec x < tv_sec y then - 1 else if tv_sec x > tv_sec y then 1 else tv_nsec x - tv_nsec y)"

text \<open>\<open>now\<close> is what \<open>clock_gettime\<close> returns.\<close>

definition update_expire_time :: "timespec \<Rightarrow> u64 \<Rightarrow> timespec" where
  "update_expire_time now timeout =
     (let secs = uint timeout div SECOND; nsec = uint timeout mod SECOND; temp = tv_nsec now + nsec in
      \<lparr>tv_sec = tv_sec now + (secs + temp div SECOND), tv_nsec = temp mod SECOND\<rparr>)"

definition timespec_subtract :: "timespec \<Rightarrow> timespec \<Rightarrow> timespec \<times> bool" where
  "timespec_subtract x y =
     (let tmp = y;
          tmp = (if tv_nsec x < tv_nsec tmp
                 then let sec = (tv_nsec tmp - tv_nsec x) div SECOND + 1 in \<lparr>tv_sec = tv_sec tmp + sec, tv_nsec = tv_nsec tmp - SECOND * sec\<rparr>
                 else tmp);
          tmp = (if tv_nsec x - tv_nsec tmp > SECOND
                 then let sec = (tv_nsec x - tv_nsec tmp) div SECOND in \<lparr>tv_sec = tv_sec tmp - sec, tv_nsec = tv_nsec tmp + SECOND * sec\<rparr>
                 else tmp) in
      (\<lparr>tv_sec = tv_sec x - tv_sec tmp, tv_nsec = tv_nsec x - tv_nsec tmp\<rparr>, tv_sec x < tv_sec tmp))"

definition nanos :: "timespec \<Rightarrow> int" where
  "nanos t = tv_sec t * SECOND + tv_nsec t"

definition normal :: "timespec \<Rightarrow> bool" where
  "normal t \<longleftrightarrow> 0 \<le> tv_nsec t \<and> tv_nsec t < SECOND"

lemma update_expire_time_exact:
  assumes "normal now"
  shows "normal (update_expire_time now timeout) \<and> nanos (update_expire_time now timeout) = nanos now + uint timeout"
proof -
  define temp where "temp = tv_nsec now + uint timeout mod SECOND"
  have "nanos (update_expire_time now timeout) = (tv_sec now + uint timeout div SECOND) * SECOND + (temp div SECOND * SECOND + temp mod SECOND)"
    by (simp add: nanos_def update_expire_time_def Let_def temp_def algebra_simps)
  also have "\<dots> = tv_sec now * SECOND + tv_nsec now + (uint timeout div SECOND * SECOND + uint timeout mod SECOND)"
    by (simp only: div_mult_mod_eq) (simp add: temp_def algebra_simps)
  finally have "nanos (update_expire_time now timeout) = nanos now + uint timeout" by (simp only: div_mult_mod_eq) (simp add: nanos_def)
  moreover have "normal (update_expire_time now timeout)" by (simp add: normal_def update_expire_time_def Let_def SECOND_def)
  ultimately show ?thesis by simp
qed

lemma timespec_subtract_exact:
  assumes "normal x" "normal y"
  shows "nanos (fst (timespec_subtract x y)) = nanos x - nanos y \<and> normal (fst (timespec_subtract x y)) \<and> (snd (timespec_subtract x y) \<longleftrightarrow> nanos x < nanos y)"
proof (cases "tv_nsec x < tv_nsec y")
  case True
  then have "(tv_nsec y - tv_nsec x) div SECOND = 0" using assms by (simp add: normal_def SECOND_def)
  then show ?thesis using True assms by (auto simp: timespec_subtract_def Let_def nanos_def normal_def SECOND_def)
next
  case False
  then show ?thesis using assms by (auto simp: timespec_subtract_def Let_def nanos_def normal_def SECOND_def)
qed

lemma timespec_cmp_nanos: "normal x \<Longrightarrow> normal y \<Longrightarrow> timespec_cmp x y \<le> 0 \<longleftrightarrow> nanos x \<le> nanos y"
  by (auto simp: timespec_cmp_def nanos_def normal_def SECOND_def)


section \<open>The timers and their operations\<close>

record 'c single_timer =
  tm_id :: nat
  tm_active :: bool
  tm_num_timeouts :: u64
  tm_expire_time :: timespec
  tm_callback :: 'c
  tm_name :: string

record 'c multi_timer =
  mt_timer_num :: nat
  mt_all_timers :: "'c single_timer list"
  mt_active_timers :: "nat list"

type_synonym insert_fun = "(nat \<Rightarrow> nat \<Rightarrow> int) \<Rightarrow> nat list \<Rightarrow> nat \<Rightarrow> nat list"
type_synonym delete_fun = "nat list \<Rightarrow> nat \<Rightarrow> nat list"

text \<open>
  \<open>blank\<close> is what calloc leaves in a timer; \<open>ok\<close> and \<open>created\<close> say whether calloc and
  pthread_create succeed. When the thread cannot be created the caller exits instead of returning.
\<close>

definition mt_init :: "bool \<Rightarrow> bool \<Rightarrow> 'c single_timer \<Rightarrow> nat \<Rightarrow> ('c multi_timer + l_err) option" where
  "mt_init ok created blank num_timers =
     (if \<not> ok then Some (Inr LD_ERR_NOMEM)
      else if \<not> created then None
      else Some (Inl \<lparr>mt_timer_num = num_timers, mt_all_timers = map (\<lambda>i. blank\<lparr>tm_id := i, tm_active := False\<rparr>) [0..<num_timers], mt_active_timers = []\<rparr>))"

definition mt_get_timer_by_id :: "'c multi_timer \<Rightarrow> nat \<Rightarrow> nat + l_err" where [op_defs]:
  "mt_get_timer_by_id mt i = (if i \<ge> mt_timer_num mt then Inr LD_ERR_INVALID else Inl i)"

definition expire_cmp :: "'c multi_timer \<Rightarrow> nat \<Rightarrow> nat \<Rightarrow> int" where
  "expire_cmp mt i j = timespec_cmp (tm_expire_time (mt_all_timers mt ! i)) (tm_expire_time (mt_all_timers mt ! j))"

definition mt_set_timer :: "insert_fun \<Rightarrow> timespec \<Rightarrow> 'c multi_timer \<Rightarrow> nat \<Rightarrow> u64 \<Rightarrow> 'c \<Rightarrow> 'c multi_timer \<times> l_err" where [op_defs]:
  "mt_set_timer ins now mt i timeout callback =
     (case mt_get_timer_by_id mt i of
        Inr _ \<Rightarrow> (mt, LD_ERR_INVALID)
      | Inl i \<Rightarrow>
          if tm_active (mt_all_timers mt ! i) then (mt, LD_ERR_INVALID)
          else let t = (mt_all_timers mt ! i)\<lparr>tm_active := True, tm_callback := callback, tm_expire_time := update_expire_time now timeout\<rparr>;
                   mt = mt\<lparr>mt_all_timers := (mt_all_timers mt)[i := t]\<rparr> in
            (mt\<lparr>mt_active_timers := ins (expire_cmp mt) (mt_active_timers mt) i\<rparr>, LD_OK))"

definition mt_cancel_timer :: "delete_fun \<Rightarrow> 'c multi_timer \<Rightarrow> nat \<Rightarrow> 'c multi_timer \<times> l_err" where [op_defs]:
  "mt_cancel_timer del mt i =
     (case mt_get_timer_by_id mt i of
        Inr _ \<Rightarrow> (mt, LD_ERR_INTERNAL)
      | Inl i \<Rightarrow>
          if \<not> tm_active (mt_all_timers mt ! i) then (mt, LD_ERR_INTERNAL)
          else (mt\<lparr>mt_all_timers := (mt_all_timers mt)[i := (mt_all_timers mt ! i)\<lparr>tm_active := False\<rparr>],
                  mt_active_timers := del (mt_active_timers mt) i\<rparr>, LD_OK))"

text \<open>\<open>strncpy (timer->name, name, strlen (name))\<close>: the old name keeps its tail; 17 bytes are there.\<close>

definition mt_set_timer_name :: "'c multi_timer \<Rightarrow> nat \<Rightarrow> string \<Rightarrow> ('c multi_timer \<times> l_err) option" where
  "mt_set_timer_name mt i name =
     (case mt_get_timer_by_id mt i of
        Inr _ \<Rightarrow> Some (mt, LD_ERR_INTERNAL)
      | Inl i \<Rightarrow>
          let t = mt_all_timers mt ! i in
          if \<not> tm_active t then Some (mt, LD_ERR_INTERNAL)
          else if length name > 17 then None
          else Some (mt\<lparr>mt_all_timers := (mt_all_timers mt)[i := t\<lparr>tm_name := name @ drop (length name) (tm_name t)\<rparr>]\<rparr>, LD_OK))"

text \<open>What the thread does with the timer whose wait timed out; the callback runs in between.\<close>

definition fire_timer :: "delete_fun \<Rightarrow> 'c multi_timer \<Rightarrow> nat \<Rightarrow> 'c multi_timer" where [op_defs]:
  "fire_timer del mt i =
     (let t = mt_all_timers mt ! i in
      mt\<lparr>mt_all_timers := (mt_all_timers mt)[i := t\<lparr>tm_num_timeouts := tm_num_timeouts t + 1, tm_active := False\<rparr>],
        mt_active_timers := del (mt_active_timers mt) i\<rparr>)"

fun get_active_from :: "'c single_timer list \<Rightarrow> nat \<Rightarrow> nat" where
  "get_active_from [] res = res"
| "get_active_from (t # ts) res = get_active_from ts (if tm_active t then res + 1 else res)"

definition get_active_num :: "'c multi_timer \<Rightarrow> nat" where
  "get_active_num mt = get_active_from (mt_all_timers mt) 0"


section \<open>The thread and its clients\<close>

datatype mt_pc = Locking | Waiting "(nat \<times> timespec) option"

datatype 'c mt_label = Quiet | Set_ok nat timespec 'c | Cancel_ok nat | Fired nat 'c timespec bool

record 'c mt_state =
  ms_mt :: "'c multi_timer"
  ms_pc :: mt_pc
  ms_now :: timespec

text \<open>The last argument of \<open>Fired\<close>: the timer is no longer the one the thread has waited for.\<close>

inductive mt_steps :: "insert_fun \<Rightarrow> delete_fun \<Rightarrow> 'c mt_state \<Rightarrow> 'c mt_label \<Rightarrow> 'c mt_state \<Rightarrow> bool" for ins del where
  tick: "normal now \<Longrightarrow> nanos (ms_now s) \<le> nanos now \<Longrightarrow> mt_steps ins del s Quiet (s\<lparr>ms_now := now\<rparr>)"
| set_ok: "mt_set_timer ins (ms_now s) (ms_mt s) i timeout cb = (mt, LD_OK) \<Longrightarrow>
     mt_steps ins del s (Set_ok i (update_expire_time (ms_now s) timeout) cb) (s\<lparr>ms_mt := mt\<rparr>)"
| set_err: "mt_set_timer ins (ms_now s) (ms_mt s) i timeout cb = (mt, e) \<Longrightarrow> e \<noteq> LD_OK \<Longrightarrow> mt_steps ins del s Quiet (s\<lparr>ms_mt := mt\<rparr>)"
| cancel_ok: "mt_cancel_timer del (ms_mt s) i = (mt, LD_OK) \<Longrightarrow> mt_steps ins del s (Cancel_ok i) (s\<lparr>ms_mt := mt\<rparr>)"
| cancel_err: "mt_cancel_timer del (ms_mt s) i = (mt, e) \<Longrightarrow> e \<noteq> LD_OK \<Longrightarrow> mt_steps ins del s Quiet (s\<lparr>ms_mt := mt\<rparr>)"
| wait_any: "ms_pc s = Locking \<Longrightarrow> mt_active_timers (ms_mt s) = [] \<Longrightarrow> mt_steps ins del s Quiet (s\<lparr>ms_pc := Waiting None\<rparr>)"
| wait_first: "ms_pc s = Locking \<Longrightarrow> mt_active_timers (ms_mt s) = i # is \<Longrightarrow>
     mt_steps ins del s Quiet (s\<lparr>ms_pc := Waiting (Some (i, tm_expire_time (mt_all_timers (ms_mt s) ! i)))\<rparr>)"
| wake: "ms_pc s = Waiting w \<Longrightarrow> mt_steps ins del s Quiet (s\<lparr>ms_pc := Locking\<rparr>)"
| timed_out: "ms_pc s = Waiting (Some (i, deadline)) \<Longrightarrow> timespec_cmp deadline (ms_now s) \<le> 0 \<Longrightarrow> t = mt_all_timers (ms_mt s) ! i \<Longrightarrow>
     mt_steps ins del s (Fired i (tm_callback t) (ms_now s) (\<not> tm_active t \<or> tm_expire_time t \<noteq> deadline)) (s\<lparr>ms_mt := fire_timer del (ms_mt s) i, ms_pc := Locking\<rparr>)"


section \<open>The active timers\<close>

text \<open>What the documentation of utlist promises, for a comparison that orders by a key.\<close>

definition utlist_ok :: "insert_fun \<Rightarrow> delete_fun \<Rightarrow> bool" where
  "utlist_ok ins del \<longleftrightarrow>
     (\<forall>cmp key xs x. (\<forall>i \<in> insert x (set xs). \<forall>j \<in> insert x (set xs). cmp i j \<le> 0 \<longleftrightarrow> key i \<le> (key j :: int)) \<longrightarrow> sorted (map key xs) \<longrightarrow>
        mset (ins cmp xs x) = add_mset x (mset xs) \<and> sorted (map key (ins cmp xs x))) \<and>
     (\<forall>xs x. distinct xs \<longrightarrow> x \<in> set xs \<longrightarrow> del xs x = remove1 x xs)"

definition expiry :: "'c multi_timer \<Rightarrow> nat \<Rightarrow> int" where
  "expiry mt i = nanos (tm_expire_time (mt_all_timers mt ! i))"

definition mt_inv :: "'c multi_timer \<Rightarrow> bool" where
  "mt_inv mt \<longleftrightarrow> length (mt_all_timers mt) = mt_timer_num mt \<and> distinct (mt_active_timers mt) \<and>
     set (mt_active_timers mt) = {i. i < mt_timer_num mt \<and> tm_active (mt_all_timers mt ! i)} \<and>
     (\<forall>i \<in> set (mt_active_timers mt). normal (tm_expire_time (mt_all_timers mt ! i))) \<and> sorted (map (expiry mt) (mt_active_timers mt))"

lemma mt_invD:
  assumes "mt_inv mt"
  shows "length (mt_all_timers mt) = mt_timer_num mt" "distinct (mt_active_timers mt)"
    "set (mt_active_timers mt) = {i. i < mt_timer_num mt \<and> tm_active (mt_all_timers mt ! i)}"
    "i \<in> set (mt_active_timers mt) \<Longrightarrow> normal (tm_expire_time (mt_all_timers mt ! i))" "sorted (map (expiry mt) (mt_active_timers mt))"
  using assms unfolding mt_inv_def by blast+

text \<open>The specification: which timers are set, for when, and with which callback.\<close>

definition armed :: "'c multi_timer \<Rightarrow> nat \<rightharpoonup> timespec \<times> 'c" where
  "armed mt i = (if i < mt_timer_num mt \<and> tm_active (mt_all_timers mt ! i)
     then Some (tm_expire_time (mt_all_timers mt ! i), tm_callback (mt_all_timers mt ! i)) else None)"

fun timer_spec :: "(nat \<rightharpoonup> timespec \<times> 'c) \<Rightarrow> 'c mt_label \<Rightarrow> (nat \<rightharpoonup> timespec \<times> 'c) \<Rightarrow> bool" where
  "timer_spec A Quiet A' \<longleftrightarrow> A' = A"
| "timer_spec A (Set_ok i e cb) A' \<longleftrightarrow> A i = None \<and> A' = A(i \<mapsto> (e, cb))"
| "timer_spec A (Cancel_ok i) A' \<longleftrightarrow> A i \<noteq> None \<and> A' = A(i := None)"
| "timer_spec A (Fired i cb t _) A' \<longleftrightarrow> (\<exists>e. A i = Some (e, cb) \<and> nanos e \<le> nanos t) \<and> A' = A(i := None)"

lemma utlist_ins:
  assumes "utlist_ok ins del" "\<And>i j. i \<in> insert x (set xs) \<Longrightarrow> j \<in> insert x (set xs) \<Longrightarrow> cmp i j \<le> 0 \<longleftrightarrow> key i \<le> (key j :: int)" "sorted (map key xs)"
  shows "mset (ins cmp xs x) = add_mset x (mset xs)" "sorted (map key (ins cmp xs x))"
  using assms unfolding utlist_ok_def by blast+

lemma set_timer_ok:
  assumes "utlist_ok ins del" "mt_inv mt" "normal now" "mt_set_timer ins now mt i timeout cb = (mt', LD_OK)"
  shows "mt_inv mt' \<and> armed mt i = None \<and> armed mt' = (armed mt)(i \<mapsto> (update_expire_time now timeout, cb)) \<and> mt_timer_num mt' = mt_timer_num mt"
proof -
  note inv = mt_invD [OF assms(2)]
  define t where "t = (mt_all_timers mt ! i)\<lparr>tm_active := True, tm_callback := cb, tm_expire_time := update_expire_time now timeout\<rparr>"
  define m where "m = mt\<lparr>mt_all_timers := (mt_all_timers mt)[i := t]\<rparr>"
  let ?act = "mt_active_timers mt" and ?act' = "ins (expire_cmp m) (mt_active_timers mt) i"
  have s: "i < mt_timer_num mt" "\<not> tm_active (mt_all_timers mt ! i)" "mt' = m\<lparr>mt_active_timers := ?act'\<rparr>"
    using assms(4) by (auto simp: op_defs Let_def t_def m_def split: if_splits)
  have i: "i \<notin> set ?act" using inv(3) s(2) by auto
  have nth: "mt_all_timers m ! j = (if j = i then t else mt_all_timers mt ! j)" if "j < mt_timer_num mt" for j using that inv(1) s(1) by (simp add: m_def)
  have old: "j < mt_timer_num mt \<and> j \<noteq> i" if "j \<in> set ?act" for j using that inv(3) i by auto
  have nrm: "normal (tm_expire_time (mt_all_timers m ! j))" if "j \<in> insert i (set ?act)" for j
  proof (cases "j = i")
    case True
    then show ?thesis using nth [OF s(1)] update_expire_time_exact [OF assms(3), of timeout] by (simp add: t_def)
  next
    case False
    then have "j \<in> set ?act" using that by simp
    then show ?thesis using inv(4) [of j] old [of j] nth [of j] by simp
  qed
  have cmp: "expire_cmp m j k \<le> 0 \<longleftrightarrow> expiry m j \<le> expiry m k" if "j \<in> insert i (set ?act)" "k \<in> insert i (set ?act)" for j k
    unfolding expire_cmp_def expiry_def by (rule timespec_cmp_nanos [OF nrm [OF that(1)] nrm [OF that(2)]])
  have "map (expiry m) ?act = map (expiry mt) ?act"
  proof (rule map_cong)
    fix j assume "j \<in> set ?act"
    then show "expiry m j = expiry mt j" using old [of j] nth [of j] by (simp add: expiry_def)
  qed simp
  then have "sorted (map (expiry m) ?act)" using inv(5) by (simp only:)
  then have u: "mset ?act' = add_mset i (mset ?act)" "sorted (map (expiry m) ?act')"
    using utlist_ins [of ins del i ?act "expire_cmp m" "expiry m"] assms(1) cmp by blast+
  have set': "set ?act' = insert i (set ?act)" using u(1) by (metis set_mset_add_mset_insert set_mset_mset)
  moreover have "distinct ?act'" using u(1) inv(2) i by (metis distinct.simps(2) mset.simps(2) mset_eq_imp_distinct_iff)
  moreover have "expiry mt' = expiry m" by (simp add: expiry_def s(3) fun_eq_iff)
  moreover have "mt_all_timers mt' = mt_all_timers m" "mt_active_timers mt' = ?act'" "mt_timer_num mt' = mt_timer_num mt" "length (mt_all_timers m) = mt_timer_num mt"
    using inv(1) by (simp_all add: s(3) m_def)
  moreover have "insert i (set ?act) = {j. j < mt_timer_num mt \<and> tm_active (mt_all_timers m ! j)}" using inv(3) s(1) nth by (auto simp: t_def)
  ultimately have "mt_inv mt'" using nrm u(2) by (simp add: mt_inv_def)
  moreover have "armed mt' = (armed mt)(i \<mapsto> (update_expire_time now timeout, cb))" using s(1,3) nth by (auto simp: armed_def fun_eq_iff m_def t_def)
  ultimately show ?thesis using s by (simp add: armed_def m_def)
qed

text \<open>Taking a timer off the list, for a cancellation or because it fires.\<close>

lemma remove_timer_ok:
  assumes "utlist_ok ins del" "mt_inv mt" "i < mt_timer_num mt" "tm_active (mt_all_timers mt ! i)" "\<not> tm_active t"
  defines "mt' \<equiv> mt\<lparr>mt_all_timers := (mt_all_timers mt)[i := t], mt_active_timers := del (mt_active_timers mt) i\<rparr>"
  shows "mt_inv mt' \<and> armed mt' = (armed mt)(i := None)"
proof -
  note inv = mt_invD [OF assms(2)]
  have d: "del (mt_active_timers mt) i = remove1 i (mt_active_timers mt)" using assms(1,3,4) inv(2,3) by (simp add: utlist_ok_def)
  have nth: "mt_all_timers mt' ! j = (if j = i then t else mt_all_timers mt ! j)" if "j < mt_timer_num mt" for j using that inv(1) assms(3) by (simp add: mt'_def)
  have mem: "j \<in> set (remove1 i (mt_active_timers mt)) \<longleftrightarrow> j \<noteq> i \<and> j < mt_timer_num mt \<and> tm_active (mt_all_timers mt ! j)" for j
    using inv(2,3) by auto
  have "map (expiry mt') (remove1 i (mt_active_timers mt)) = map (expiry mt) (remove1 i (mt_active_timers mt))"
  proof (rule map_cong)
    fix j assume "j \<in> set (remove1 i (mt_active_timers mt))"
    then show "expiry mt' j = expiry mt j" using nth [of j] unfolding mem by (simp add: expiry_def)
  qed simp
  then have "sorted (map (expiry mt') (remove1 i (mt_active_timers mt)))" using sorted_map_remove1 [OF inv(5)] by (simp only:)
  moreover have "normal (tm_expire_time (mt_all_timers mt' ! j))" if "j \<in> set (remove1 i (mt_active_timers mt))" for j
    using that inv(3) inv(4) [of j] nth [of j] unfolding mem by auto
  moreover have "set (remove1 i (mt_active_timers mt)) = {j. j < mt_timer_num mt \<and> tm_active (mt_all_timers mt' ! j)}"
    using mem nth assms(5) by (auto split: if_splits)
  moreover have "mt_active_timers mt' = remove1 i (mt_active_timers mt)" "mt_timer_num mt' = mt_timer_num mt" "length (mt_all_timers mt') = mt_timer_num mt"
    using inv(1) d by (simp_all add: mt'_def)
  ultimately have "mt_inv mt'" using inv(2) by (simp add: mt_inv_def)
  moreover have "armed mt' = (armed mt)(i := None)" using nth assms(3,5) by (auto simp: armed_def fun_eq_iff mt'_def)
  ultimately show ?thesis by simp
qed

definition stale :: "'c mt_label \<Rightarrow> bool" where
  "stale l \<longleftrightarrow> (case l of Fired _ _ _ b \<Rightarrow> b | _ \<Rightarrow> False)"

definition timely_steps :: "insert_fun \<Rightarrow> delete_fun \<Rightarrow> 'c mt_state \<Rightarrow> 'c mt_label \<Rightarrow> 'c mt_state \<Rightarrow> bool" where
  "timely_steps ins del s l s' \<longleftrightarrow> utlist_ok ins del \<and> mt_steps ins del s l s' \<and> \<not> stale l"

definition mt_rel :: "'c mt_state \<Rightarrow> (nat \<rightharpoonup> timespec \<times> 'c) \<Rightarrow> bool" where
  "mt_rel s A \<longleftrightarrow> mt_inv (ms_mt s) \<and> normal (ms_now s) \<and> A = armed (ms_mt s) \<and> (\<forall>i d. ms_pc s = Waiting (Some (i, d)) \<longrightarrow> i < mt_timer_num (ms_mt s))"

lemma mt_inv_num: "mt_inv mt \<Longrightarrow> mt_active_timers mt = i # is \<Longrightarrow> i < mt_timer_num mt"
  by (auto simp: mt_inv_def)

interpretation mtl: simulating_system "timely_steps ins del" mt_rel timer_spec for ins del
proof
  fix s s' :: "'c mt_state" and A l
  assume rel: "mt_rel s A" and "timely_steps ins del s l s'"
  then have u: "utlist_ok ins del" and st: "mt_steps ins del s l s'" and ns: "\<not> stale l" by (auto simp: timely_steps_def)
  have inv: "mt_inv (ms_mt s)" "normal (ms_now s)" "A = armed (ms_mt s)" using rel by (auto simp: mt_rel_def)
  from st show "\<exists>A'. mt_rel s' A' \<and> timer_spec A l A'"
  proof cases
    case (set_ok i timeout cb mt)
    from set_timer_ok [OF u inv(1,2) set_ok(3)] show ?thesis using rel set_ok by (intro exI [of _ "armed mt"]) (auto simp: mt_rel_def)
  next
    case (set_err i timeout cb mt e)
    then have "mt = ms_mt s" by (auto simp: mt_set_timer_def Let_def split: sum.splits if_splits)
    then show ?thesis using rel set_err by (auto simp: mt_rel_def)
  next
    case (cancel_ok i mt)
    then have c: "i < mt_timer_num (ms_mt s)" "tm_active (mt_all_timers (ms_mt s) ! i)" by (auto simp: op_defs split: if_splits)
    from remove_timer_ok [OF u inv(1) c, of "(mt_all_timers (ms_mt s) ! i)\<lparr>tm_active := False\<rparr>"] show ?thesis
      using rel cancel_ok c by (intro exI [of _ "armed mt"]) (auto simp: mt_rel_def op_defs armed_def split: if_splits)
  next
    case (cancel_err i mt e)
    then have "mt = ms_mt s" by (auto simp: mt_cancel_timer_def split: sum.splits if_splits)
    then show ?thesis using rel cancel_err by (auto simp: mt_rel_def)
  next
    case (timed_out i deadline t)
    have c: "i < mt_timer_num (ms_mt s)" "tm_active (mt_all_timers (ms_mt s) ! i)" "tm_expire_time t = deadline" using rel timed_out ns by (auto simp: mt_rel_def stale_def)
    have "normal deadline" using inv(1) c timed_out by (auto simp: mt_inv_def)
    then have due: "nanos deadline \<le> nanos (ms_now s)" using timed_out timespec_cmp_nanos inv(2) by blast
    from remove_timer_ok [OF u inv(1) c(1,2), of "t\<lparr>tm_num_timeouts := tm_num_timeouts t + 1, tm_active := False\<rparr>"] show ?thesis
      using rel timed_out c due by (intro exI [of _ "armed (fire_timer del (ms_mt s) i)"]) (auto simp: mt_rel_def op_defs Let_def armed_def)
  qed (use rel in \<open>auto simp: mt_rel_def dest: mt_inv_num\<close>)
qed


lemma get_active_num_length:
  assumes "mt_inv mt"
  shows "get_active_num mt = length (mt_active_timers mt)"
proof -
  have "get_active_from ts n = n + length (filter tm_active ts)" for ts :: "'a single_timer list" and n by (induction ts arbitrary: n) auto
  from this [of "mt_all_timers mt" 0] have "get_active_num mt = card {i. i < length (mt_all_timers mt) \<and> tm_active (mt_all_timers mt ! i)}" by (simp add: get_active_num_def length_filter_conv_card)
  then show ?thesis using mt_invD(1-3) [OF assms] by (metis distinct_card)
qed


section \<open>Properties\<close>

definition mt_boot :: "'c single_timer \<Rightarrow> nat \<Rightarrow> timespec \<Rightarrow> 'c mt_state \<Rightarrow> bool" where
  "mt_boot blank n now s \<longleftrightarrow> mt_init True True blank n = Some (Inl (ms_mt s)) \<and> ms_pc s = Locking \<and> ms_now s = now \<and> normal now"

lemma mt_boot_rel: "mt_boot blank n now s \<Longrightarrow> mt_rel s Map.empty"
  by (auto simp: mt_boot_def mt_init_def mt_rel_def mt_inv_def armed_def fun_eq_iff dest!: sym [of _ "ms_mt s"])

lemma timely_runs:
  "ev_runs (mt_steps ins del) s ls s' \<Longrightarrow> utlist_ok ins del \<Longrightarrow> \<forall>l \<in> set ls. \<not> stale l \<Longrightarrow> ev_runs (timely_steps ins del) s ls s'"
  by (induction rule: ev_runs.induct) (auto simp: timely_steps_def)


text \<open>List operations as utlist documents them, for the witnesses.\<close>

fun ll_insert :: insert_fun where
  "ll_insert cmp [] x = [x]"
| "ll_insert cmp (y # ys) x = (if cmp x y \<le> 0 then x # y # ys else y # ll_insert cmp ys x)"

lemma ll_insert_mset: "mset (ll_insert cmp xs x) = add_mset x (mset xs)"
  by (induction xs) auto

lemma ll_insert_sorted:
  "(\<forall>i \<in> insert x (set xs). \<forall>j \<in> insert x (set xs). cmp i j \<le> 0 \<longleftrightarrow> key i \<le> (key j :: int)) \<Longrightarrow> sorted (map key xs) \<Longrightarrow> sorted (map key (ll_insert cmp xs x))"
proof (induction xs)
  case (Cons y ys)
  have "set (ll_insert cmp ys x) = insert x (set ys)" using ll_insert_mset by (metis set_mset_add_mset_insert set_mset_mset)
  then show ?case using Cons by auto
qed simp

lemma utlist_ok_example: "utlist_ok ll_insert (\<lambda>xs x. remove1 x xs)"
  by (simp add: utlist_ok_def ll_insert_mset ll_insert_sorted)

definition blank_timer :: "nat single_timer" where
  "blank_timer = \<lparr>tm_id = 0, tm_active = False, tm_num_timeouts = 0, tm_expire_time = \<lparr>tv_sec = 0, tv_nsec = 0\<rparr>, tm_callback = 0, tm_name = []\<rparr>"

definition boot_state :: "nat mt_state" where
  "boot_state = \<lparr>ms_mt = \<lparr>mt_timer_num = 1, mt_all_timers = [blank_timer], mt_active_timers = []\<rparr>, ms_pc = Locking, ms_now = \<lparr>tv_sec = 5, tv_nsec = 0\<rparr>\<rparr>"

lemma boot_state_ok: "mt_boot blank_timer 1 \<lparr>tv_sec = 5, tv_nsec = 0\<rparr> boot_state"
  by (simp add: mt_boot_def boot_state_def mt_init_def normal_def SECOND_def blank_timer_def)

definition set_state :: "mt_pc \<Rightarrow> nat mt_state" where
  "set_state pc = \<lparr>ms_mt = \<lparr>mt_timer_num = 1, mt_all_timers = [blank_timer\<lparr>tm_active := True, tm_callback := 7, tm_expire_time := \<lparr>tv_sec = 5, tv_nsec = 0\<rparr>\<rparr>], mt_active_timers = [0]\<rparr>,
     ms_pc = pc, ms_now = \<lparr>tv_sec = 5, tv_nsec = 0\<rparr>\<rparr>"

lemma set_state_reachable:
  "ev_runs (mt_steps ll_insert (\<lambda>xs x. remove1 x xs)) boot_state [Set_ok 0 \<lparr>tv_sec = 5, tv_nsec = 0\<rparr> 7, Quiet] (set_state (Waiting (Some (0, \<lparr>tv_sec = 5, tv_nsec = 0\<rparr>))))"
proof -
  let ?m = "ms_mt (set_state Locking)"
  have e: "update_expire_time (ms_now boot_state) 0 = \<lparr>tv_sec = 5, tv_nsec = 0\<rparr>" by (simp add: update_expire_time_def boot_state_def SECOND_def Let_def)
  have "mt_set_timer ll_insert (ms_now boot_state) (ms_mt boot_state) 0 0 7 = (?m, LD_OK)"
    unfolding mt_set_timer_def e by (simp add: mt_get_timer_by_id_def Let_def boot_state_def set_state_def blank_timer_def)
  from set_ok [OF this] have "mt_steps ll_insert (\<lambda>xs x. remove1 x xs) boot_state (Set_ok 0 \<lparr>tv_sec = 5, tv_nsec = 0\<rparr> 7) (set_state Locking)"
    unfolding e by (simp add: boot_state_def set_state_def)
  moreover from wait_first [of "set_state Locking" 0 "[]"] have "mt_steps ll_insert (\<lambda>xs x. remove1 x xs) (set_state Locking) Quiet (set_state (Waiting (Some (0, \<lparr>tv_sec = 5, tv_nsec = 0\<rparr>))))"
    by (simp add: set_state_def)
  ultimately show ?thesis by auto
qed


text \<open>
  A timer can fire after its cancellation has succeeded. If the deadline has passed when
  \<open>mt_cancel_timer\<close> gets the mutex before the thread does, the call returns \<open>LD_OK\<close>, and the thread,
  whose wait has timed out, still runs the callback.
\<close>

theorem cancelled_timer_fires:
  assumes "ms_pc s = Waiting (Some (i, deadline))" "timespec_cmp deadline (ms_now s) \<le> 0"
    "i < mt_timer_num (ms_mt s)" "i < length (mt_all_timers (ms_mt s))" "tm_active (mt_all_timers (ms_mt s) ! i)"
  shows "\<exists>s1 s2. mt_steps ins del s (Cancel_ok i) s1 \<and> mt_steps ins del s1 (Fired i (tm_callback (mt_all_timers (ms_mt s) ! i)) (ms_now s) True) s2"
proof -
  define mt where "mt = fst (mt_cancel_timer del (ms_mt s) i)"
  have "mt_cancel_timer del (ms_mt s) i = (mt, LD_OK)" using assms(3,5) by (simp add: mt_def op_defs)
  from cancel_ok [OF this, of ins] have c: "mt_steps ins del s (Cancel_ok i) (s\<lparr>ms_mt := mt\<rparr>)" .
  have t: "mt_all_timers mt ! i = (mt_all_timers (ms_mt s) ! i)\<lparr>tm_active := False\<rparr>" using assms(3-5) by (simp add: mt_def op_defs)
  from timed_out [of "s\<lparr>ms_mt := mt\<rparr>" i deadline "mt_all_timers mt ! i" ins del] assms(1,2) t
  have "mt_steps ins del (s\<lparr>ms_mt := mt\<rparr>) (Fired i (tm_callback (mt_all_timers (ms_mt s) ! i)) (ms_now s) True) (s\<lparr>ms_mt := fire_timer del mt i, ms_pc := Locking\<rparr>)" by simp
  then show ?thesis using c by blast
qed

theorem cancelled_timer_fires_witness:
  "\<exists>s1 s2. mt_steps ll_insert (\<lambda>xs x. remove1 x xs) (set_state (Waiting (Some (0, \<lparr>tv_sec = 5, tv_nsec = 0\<rparr>)))) (Cancel_ok 0) s1 \<and>
     mt_steps ll_insert (\<lambda>xs x. remove1 x xs) s1 (Fired 0 7 \<lparr>tv_sec = 5, tv_nsec = 0\<rparr> True) s2"
  using cancelled_timer_fires [of "set_state (Waiting (Some (0, \<lparr>tv_sec = 5, tv_nsec = 0\<rparr>)))" 0 "\<lparr>tv_sec = 5, tv_nsec = 0\<rparr>" ll_insert "\<lambda>xs x. remove1 x xs"]
  by (simp add: set_state_def timespec_cmp_def)

end
