(* ===== verification/Sanitize.thy ===== *)
theory Sanitize
  imports Prelude
begin

text \<open>
  The string functions of src/src/ld_passert.c and src/src/ld_utils.c. A buffer of characters is the
  list of its bytes, allocated size and terminator included; a string argument is the list of its
  characters up to the terminator. \<open>sanitize_string\<close> works in place: a first scan counts what the
  escapes will add, a second one moves the characters to the right, last one first. What the printf
  family makes of a format and its arguments is an argument of the functions that call it.
\<close>

section \<open>Escaping in place\<close>

definition UGLY_WIDTH :: nat where
  "UGLY_WIDTH = 4"

definition isprint :: "u8 \<Rightarrow> bool" where
  "isprint c \<longleftrightarrow> 32 \<le> unat c \<and> unat c \<le> 126"

definition ugly :: "u8 \<Rightarrow> bool" where
  "ugly c \<longleftrightarrow> c = 92 \<or> \<not> isprint c"

text \<open>\<open>snprintf(fmtd, sizeof(fmtd), "\\%03o", c)\<close>\<close>

definition octal :: "u8 \<Rightarrow> u8 list" where
  "octal c = [92, of_nat (48 + unat c div 64), of_nat (48 + unat c div 8 mod 8), of_nat (48 + unat c mod 8)]"

function sanitize_scan :: "nat \<Rightarrow> u8 list \<Rightarrow> nat \<Rightarrow> nat \<Rightarrow> (u8 list \<times> nat \<times> nat) option" where
  "sanitize_scan sz buf p added =
     (if p \<ge> length buf then None
      else if buf ! p \<noteq> 0 \<and> p + added < sz - UGLY_WIDTH then
        (if buf ! p = 10 \<or> buf ! p = 13 then sanitize_scan sz (buf[p := 32]) (Suc p) added
         else sanitize_scan sz buf (Suc p) (if ugly (buf ! p) then added + (UGLY_WIDTH - 1) else added))
      else Some (buf, p, added))"
  by pat_completeness auto
termination by (relation "measure (\<lambda>(sz, buf, p, added). length buf - p)") auto

declare sanitize_scan.simps [simp del]

text \<open>The inner loop stops at an ugly character and leaves it in \<open>c\<close>.\<close>

fun copy_back :: "u8 list \<Rightarrow> nat \<Rightarrow> nat \<Rightarrow> (u8 list \<times> nat \<times> u8) option" where
  "copy_back buf 0 added = None"
| "copy_back buf (Suc p) added =
     (if Suc p > length buf then None
      else let c = buf ! p in
        if ugly c then Some (buf, p, c)
        else if p + added \<ge> length buf then None
        else copy_back (buf[p + added := c]) p added)"

function expand_back :: "u8 list \<Rightarrow> nat \<Rightarrow> nat \<Rightarrow> u8 list option" where
  "expand_back buf p added =
     (if added = 0 then Some buf
      else do {
        (buf, p, c) \<leftarrow> copy_back buf p added;
        buf \<leftarrow> mem_write buf (p + (added - (UGLY_WIDTH - 1))) (octal c);
        expand_back buf p (added - (UGLY_WIDTH - 1))
      })"
  by pat_completeness auto
termination by (relation "measure (\<lambda>(buf, p, added). added)") (auto simp: UGLY_WIDTH_def)

declare expand_back.simps [simp del]

text \<open>With less than \<open>UGLY_WIDTH\<close> bytes, \<open>buf[size - UGLY_WIDTH]\<close> is before the buffer.\<close>

definition sanitize_string :: "u8 list \<Rightarrow> nat \<Rightarrow> (u8 list \<times> nat) option" where
  "sanitize_string buf sz =
     (if sz < UGLY_WIDTH then None
      else do {
        (buf, p, added) \<leftarrow> sanitize_scan sz buf 0 0;
        buf \<leftarrow> mem_write buf (p + added) [0];
        buf' \<leftarrow> expand_back buf p added;
        Some (buf', p + added)
      })"


section \<open>Log lines\<close>

definition LOG_WIDTH :: nat where
  "LOG_WIDTH = 1024"

datatype sink = Stderr | Syslog

definition c_str :: "u8 list \<Rightarrow> u8 list" where
  "c_str buf = takeWhile (\<lambda>c. c \<noteq> 0) buf"

text \<open>\<open>vsnprintf\<close> into the part of a buffer that begins at \<open>off\<close>; \<open>text\<close> is what the format gives.\<close>

definition vsnprintf_at :: "u8 list \<Rightarrow> nat \<Rightarrow> u8 list \<Rightarrow> u8 list option" where
  "vsnprintf_at buf off text = mem_write buf off (take (length buf - off - 1) text @ [0])"

text \<open>\<open>format\<close> is what the variable arguments make of a format string.\<close>

definition fmt_log :: "u8 list option \<Rightarrow> (u8 list \<Rightarrow> u8 list) \<Rightarrow> u8 list \<Rightarrow> u8 list \<Rightarrow> u8 list option" where
  "fmt_log progname format buf fmt =
     (let reproc = (fmt \<noteq> [] \<and> hd fmt = 126);
          prefix = (if reproc then []
                    else case progname of None \<Rightarrow> [] | Some name \<Rightarrow> if length name + 1 + 1 < length buf then name @ [32] else []) in
      do {
        buf \<leftarrow> mem_write buf 0 (prefix @ [0]);
        buf \<leftarrow> vsnprintf_at buf (length prefix) (format (if reproc then tl fmt else fmt));
        if reproc then Some buf else map_option fst (sanitize_string buf (length buf))
      })"

definition out_lines :: "bool \<Rightarrow> bool \<Rightarrow> u8 list \<Rightarrow> (sink \<times> u8 list) list" where
  "out_lines log_to_stderr log_to_syslog line =
     (if log_to_stderr then [(Stderr, line)] else []) @ (if log_to_syslog then [(Syslog, line)] else [])"

text \<open>\<open>m\<close> is the array on the stack before anything is written to it.\<close>

definition DBG_log :: "bool \<Rightarrow> bool \<Rightarrow> (u8 list \<Rightarrow> u8 list) \<Rightarrow> u8 list \<Rightarrow> u8 list \<Rightarrow> (sink \<times> u8 list) list option" where
  "DBG_log log_to_stderr log_to_syslog format m message =
     do {
       m \<leftarrow> vsnprintf_at m 0 (format message);
       (m, _) \<leftarrow> sanitize_string m (length m);
       Some (out_lines log_to_stderr log_to_syslog ([124, 32] @ c_str m))
     }"

definition loglog :: "bool \<Rightarrow> bool \<Rightarrow> u8 list option \<Rightarrow> (u8 list \<Rightarrow> u8 list) \<Rightarrow> u8 list \<Rightarrow> u8 list \<Rightarrow> (sink \<times> u8 list) list option" where
  "loglog log_to_stderr log_to_syslog progname format m message =
     do {
       m \<leftarrow> fmt_log progname format m message;
       Some (out_lines log_to_stderr log_to_syslog (c_str m))
     }"

text \<open>The message of \<open>builddiag\<close>, in its static array; \<open>t\<close> is the array on the stack.\<close>

definition builddiag :: "(u8 list \<Rightarrow> u8 list) \<Rightarrow> u8 list \<Rightarrow> u8 list \<Rightarrow> u8 list option" where
  "builddiag format t fmt = do { t \<leftarrow> mem_write t 0 [0]; t \<leftarrow> vsnprintf_at t 0 (format fmt); Some (c_str t) }"


section \<open>Words\<close>

definition skip_spaces :: "u8 list \<Rightarrow> u8 list" where
  "skip_spaces s = dropWhile (\<lambda>c. c = 32) s"

lemma skip_spaces_length: "length (skip_spaces s) \<le> length s"
  by (simp add: skip_spaces_def length_dropWhile_le)

definition skip_word :: "u8 list \<Rightarrow> u8 list" where
  "skip_word s = dropWhile (\<lambda>c. c \<noteq> 32) s"

lemma skip_word_length:
  assumes "skip_spaces s \<noteq> []"
  shows "length (skip_word (skip_spaces s)) < length s"
proof -
  have "hd (skip_spaces s) \<noteq> 32" using hd_dropWhile [of "\<lambda>c. c = 32" s] assms by (simp add: skip_spaces_def)
  then have "length (skip_word (skip_spaces s)) < length (skip_spaces s)"
    using assms by (cases "skip_spaces s") (simp_all add: skip_word_def length_dropWhile_le less_Suc_eq_le)
  then show ?thesis using skip_spaces_length [of s] by simp
qed

function count_words :: "u8 list \<Rightarrow> nat \<Rightarrow> nat" where
  "count_words s n =
     (if s = [] then n
      else if skip_spaces s = [] then n
      else count_words (skip_word (skip_spaces s)) (n + 1))"
  by pat_completeness auto
termination by (relation "measure (\<lambda>(s, n). length s)") (simp_all add: skip_word_length)

declare count_words.simps [simp del]

datatype argv = Argv_null | Argv_freed | Argv "u8 list option list"

text \<open>
  \<open>ok i\<close> says whether the allocation of the token \<open>i\<close> succeeds. The array has \<open>n\<close> slots; the result
  \<open>Some None\<close> is a failed allocation.
\<close>

function split_loop :: "(nat \<Rightarrow> bool) \<Rightarrow> nat \<Rightarrow> u8 list \<Rightarrow> u8 list list \<Rightarrow> u8 list list option option" where
  "split_loop ok n s tokens =
     (if s = [] \<or> skip_spaces s = [] then (if length tokens < n then Some (Some tokens) else None)
      else if \<not> ok (length tokens) then Some None
      else if length tokens \<ge> n then None
      else split_loop ok n (skip_word (skip_spaces s)) (tokens @ [takeWhile (\<lambda>c. c \<noteq> 32) (skip_spaces s)]))"
  by pat_completeness auto
termination by (relation "measure (\<lambda>(ok, n, s, tokens). length s)") (simp_all add: skip_word_length)

declare split_loop.simps [simp del]

definition ld_split :: "bool \<Rightarrow> (nat \<Rightarrow> bool) \<Rightarrow> u8 list \<Rightarrow> (nat \<times> argv) option" where
  "ld_split ok_argv ok str =
     (let n = count_words str 0 in
      if \<not> ok_argv then Some (0, Argv_null)
      else map_option (\<lambda>r. case r of None \<Rightarrow> (0, Argv_freed) | Some tokens \<Rightarrow> (n, Argv (map Some tokens @ [None]))) (split_loop ok (n + 1) str []))"

text \<open>The first position with another byte than \<open>target\<close>, in spite of the name.\<close>

definition memrchr :: "u8 list \<Rightarrow> u8 \<Rightarrow> int" where
  "memrchr buf target = (case first_from (\<lambda>i. buf ! i \<noteq> target) 0 (length buf) of Some i \<Rightarrow> int i | None \<Rightarrow> - 1)"


section \<open>What escaping means\<close>

definition vspace :: "u8 \<Rightarrow> u8" where
  "vspace c = (if c = 10 \<or> c = 13 then 32 else c)"

definition escape_char :: "u8 \<Rightarrow> u8 list" where
  "escape_char c = (if ugly c then octal c else [c])"

definition escape :: "u8 list \<Rightarrow> u8 list" where
  "escape s = concat (map (escape_char \<circ> vspace) s)"

text \<open>The characters for which there is room: one more as long as less than \<open>room\<close> bytes are used.\<close>

fun fitting :: "nat \<Rightarrow> u8 list \<Rightarrow> u8 list" where
  "fitting room [] = []"
| "fitting room (c # s) = (if 0 < room then c # fitting (room - length (escape_char (vspace c))) s else [])"

definition extra :: "u8 list \<Rightarrow> nat" where
  "extra s = (UGLY_WIDTH - 1) * length (filter ugly s)"

lemma octal_length [simp]: "length (octal c) = UGLY_WIDTH"
  by (simp add: octal_def UGLY_WIDTH_def)

lemma escape_char_length: "length (escape_char c) = (if ugly c then UGLY_WIDTH else 1)"
  by (simp add: escape_char_def)

lemma extra_simps [simp]: "extra [] = 0" "extra (s @ [c]) = extra s + (if ugly c then 3 else 0)" "extra (c # s) = extra s + (if ugly c then 3 else 0)"
  by (simp_all add: extra_def UGLY_WIDTH_def)

lemma escape_simps [simp]: "escape [] = []" "escape (c # s) = escape_char (vspace c) @ escape s" "escape (s @ t) = escape s @ escape t"
  by (simp_all add: escape_def)

lemma escape_length: "length (escape s) = length s + extra (map vspace s)"
  by (induction s) (auto simp: escape_char_length UGLY_WIDTH_def)

lemma ugly_space [simp]: "\<not> ugly 32"
  by (simp add: ugly_def isprint_def)

lemma vspace_idem [simp]: "vspace (vspace c) = vspace c"
  by (simp add: vspace_def)

lemma escape_map_vspace: "escape (map vspace s) = escape s"
  by (simp add: escape_def o_def)


section \<open>The two scans\<close>

lemma sanitize_scan_fitting:
  assumes "pre @ 0 # post = drop p buf" "0 \<notin> set pre" "p \<le> length buf"
  shows "sanitize_scan sz buf p added =
     (let f = fitting (sz - UGLY_WIDTH - (p + added)) pre in
      Some (take p buf @ map vspace f @ drop (p + length f) buf, p + length f, added + extra (map vspace f)))"
  using assms
proof (induction pre arbitrary: buf p added)
  case Nil
  then have p: "p < length buf" by (metis append_Nil drop_eq_Nil list.distinct(1) not_less)
  have "buf ! p = 0" using Nil(1) p by (metis append_Nil nth_via_drop)
  then show ?case using p by (subst sanitize_scan.simps) simp
next
  case (Cons c pre)
  have p: "p < length buf" using Cons.prems(1) by (metis append_Cons drop_eq_Nil list.distinct(1) not_less)
  have c: "buf ! p = c" "c \<noteq> 0" using Cons.prems(1,2) by (auto dest: nth_via_drop [OF sym])
  show ?case
  proof (cases "p + added < sz - UGLY_WIDTH")
    case False
    then show ?thesis using p by (subst sanitize_scan.simps) simp
  next
    case True
    let ?b = "buf[p := vspace c]" and ?a = "if ugly (vspace c) then added + (UGLY_WIDTH - 1) else added"
    have step: "sanitize_scan sz buf p added = sanitize_scan sz ?b (Suc p) ?a"
      using p c True by (subst sanitize_scan.simps) (auto simp: vspace_def list_update_id)
    have d: "pre @ 0 # post = drop (Suc p) ?b" using Cons.prems(1) by (metis append_Cons drop_update_cancel drop_Suc list.sel(3) lessI tl_drop)
    have r: "sz - UGLY_WIDTH - (p + added) - length (escape_char (vspace c)) = sz - UGLY_WIDTH - (Suc p + ?a)"
      by (simp add: escape_char_length UGLY_WIDTH_def)
    have t: "take (Suc p) ?b = take p buf @ [vspace c]" using p by (simp add: take_Suc_conv_app_nth)
    have "0 \<notin> set pre" "Suc p \<le> length ?b" using Cons.prems(2) p by auto
    note ih = Cons.IH [OF d this, of ?a]
    let ?f = "fitting (sz - UGLY_WIDTH - (Suc p + ?a)) pre"
    have f: "fitting (sz - UGLY_WIDTH - (p + added)) (c # pre) = c # ?f" using True r by simp
    show ?thesis unfolding step ih f Let_def t by (simp add: UGLY_WIDTH_def)
  qed
qed

text \<open>The second scan turns the scanned characters into their escapes, from the right to the left.\<close>

lemma expand_back_move:
  assumes "added \<noteq> 0" "p + added < length buf" "\<not> ugly (buf ! p)"
  shows "expand_back buf (Suc p) added = expand_back (buf[p + added := buf ! p]) p added"
  using assms by (subst (1 2) expand_back.simps) (simp add: Let_def)

lemma expand_back_escape:
  "length junk = extra s \<Longrightarrow> expand_back (s @ junk @ rest) (length s) (extra s) = Some (concat (map escape_char s) @ rest)"
proof (induction s arbitrary: junk rest rule: rev_induct)
  case Nil
  then show ?case by (subst expand_back.simps) simp
next
  case (snoc c s)
  show ?case
  proof (cases "ugly c")
    case True
    define j where "j = take (extra s) (c # junk)"
    define k where "k = drop (extra s) (c # junk)"
    have j: "length j = extra s" "length k = 4" using snoc.prems True by (simp_all add: j_def k_def)
    have b: "(s @ [c]) @ junk @ rest = s @ j @ k @ rest" by (simp add: j_def k_def flip: append_assoc)
    have w: "mem_write ((s @ [c]) @ junk @ rest) (length s + extra s) (octal c) = Some (s @ j @ octal c @ rest)"
      unfolding b using j by (simp add: mem_write_Some_iff UGLY_WIDTH_def)
    have "expand_back ((s @ [c]) @ junk @ rest) (Suc (length s)) (extra s + 3) = expand_back (s @ j @ octal c @ rest) (length s) (extra s)"
      using True w by (subst expand_back.simps) (simp add: Let_def UGLY_WIDTH_def nth_append)
    then show ?thesis using snoc.IH [OF j(1), of "octal c @ rest"] True by (simp add: escape_char_def)
  next
    case False
    show ?thesis
    proof (cases "extra s = 0")
      case True
      then have "concat (map escape_char s) = s" by (induction s) (auto simp: escape_char_def split: if_splits)
      moreover have "junk = []" using snoc.prems False True by simp
      ultimately show ?thesis using True False by (subst expand_back.simps) (simp add: escape_char_def)
    next
      case nz: False
      define j where "j = butlast (c # junk)"
      have j: "length j = extra s" "c # junk = j @ [last (c # junk)]"
        using snoc.prems False by (auto simp: j_def simp del: last.simps butlast.simps)
      then have "((s @ [c]) @ junk @ rest)[length s + extra s := c] = s @ j @ c # rest"
        by (metis append.assoc append_Cons append_Nil length_append list_update_length)
      then have "expand_back ((s @ [c]) @ junk @ rest) (Suc (length s)) (extra s) = expand_back (s @ j @ c # rest) (length s) (extra s)"
        using expand_back_move [of "extra s" "length s" "(s @ [c]) @ junk @ rest"] nz False snoc.prems by (simp add: nth_append)
      then show ?thesis using snoc.IH [OF j(1), of "c # rest"] False by (simp add: escape_char_def)
    qed
  qed
qed


lemma fitting_prefix: "\<exists>rest. s = fitting room s @ rest"
  by (induction room s rule: fitting.induct) auto

lemma fitting_room: "s = fitting room s @ c # rest \<Longrightarrow> room \<le> length (escape (fitting room s))"
  by (induction room s rule: fitting.induct) (auto split: if_splits)

lemma fitting_length: "0 < room \<Longrightarrow> length (escape (fitting room s)) < room + UGLY_WIDTH"
proof (induction room s rule: fitting.induct)
  case (2 room c s)
  let ?n = "length (escape_char (vspace c))"
  show ?case
  proof (cases "?n < room")
    case True
    then show ?thesis using "2.IH" by simp
  next
    case False
    then have "fitting (room - ?n) s = []" by (cases s) simp_all
    then show ?thesis using "2.prems" by (simp add: escape_char_length UGLY_WIDTH_def)
  qed
qed (simp add: UGLY_WIDTH_def)

lemma fitting_0 [simp]: "fitting 0 s = []"
  by (cases s) simp_all

lemma fitting_bound: "UGLY_WIDTH \<le> sz \<Longrightarrow> length (escape (fitting (sz - UGLY_WIDTH) s)) < sz"
  using fitting_length [of "sz - UGLY_WIDTH" s] by (cases "sz = UGLY_WIDTH") (simp_all add: UGLY_WIDTH_def)

lemma sanitize_string_ok:
  assumes "0 \<notin> set s" "length (s @ 0 # rest) = sz" "UGLY_WIDTH \<le> sz"
  shows "sanitize_string (s @ 0 # rest) sz =
    (let e = escape (fitting (sz - UGLY_WIDTH) s) in Some (e @ 0 # drop (Suc (length e)) (s @ 0 # rest), length e))"
proof -
  define B where "B = s @ 0 # rest"
  have B: "length B = sz" using assms(2) by (simp add: B_def)
  define f where "f = fitting (sz - UGLY_WIDTH) s"
  define v where "v = map vspace f"
  obtain t where t: "s = f @ t" using fitting_prefix unfolding f_def by blast
  have e: "length (escape f) = length v + extra v" "concat (map escape_char v) = escape f"
    by (simp_all add: v_def escape_length) (simp add: escape_def o_def)
  have lt: "length v + extra v < sz" using fitting_bound [OF assms(3), of s] e by (simp add: f_def)
  have scan: "sanitize_scan sz B 0 0 = Some (v @ drop (length v) B, length v, extra v)"
    using sanitize_scan_fitting [of s rest 0 B sz 0] assms(1) by (simp add: Let_def f_def v_def B_def)
  define junk where "junk = take (extra v) (drop (length v) B)"
  have j: "length junk = extra v" using lt B by (simp add: junk_def)
  have d: "drop (length v) B = junk @ drop (length v + extra v) B" 
    by (metis append_take_drop_id drop_drop add.commute junk_def)
  have w: "mem_write (v @ drop (length v) B) (length v + extra v) [0] = Some (v @ junk @ 0 # drop (Suc (length v + extra v)) B)"
    unfolding d using lt B j by (simp add: mem_write_Some_iff add.commute)
  show ?thesis unfolding B_def [symmetric] using assms(3) scan w expand_back_escape [OF j, of "0 # drop (Suc (length v + extra v)) B"] e
    by (simp add: sanitize_string_def Let_def f_def [symmetric])
qed

lemma octal_printable: "c \<in> set (octal b) \<Longrightarrow> isprint c"
proof -
  have "unat b < 512" using unat_u8_less [of b] by linarith
  then have d: "unat b div 64 < 8" "unat b div 8 mod 8 < 8" "unat b mod 8 < 8" by (simp_all add: div_less_iff_less_mult)
  moreover have "unat (of_nat (48 + n) :: u8) = 48 + n" if "n < 8" for n using that by (intro unat_of_nat_small) simp
  ultimately show "c \<in> set (octal b) \<Longrightarrow> isprint c" by (fastforce simp: octal_def isprint_def)
qed

lemma escape_printable: "c \<in> set (escape s) \<Longrightarrow> isprint c"
  by (auto simp: escape_def escape_char_def ugly_def octal_printable split: if_splits)


lemma sanitize_line:
  assumes "mem_write buf off (t @ [0]) = Some b" "UGLY_WIDTH \<le> length buf"
  shows "\<exists>b' n s. sanitize_string b (length b) = Some (b', n) \<and> c_str b' = escape s \<and> length (escape s) < length buf"
proof -
  have z: "0 \<in> set b" using assms(1) by (auto simp: mem_write_Some_iff)
  define s where "s = c_str b"
  obtain rest where b: "b = s @ 0 # rest"
  proof -
    have "dropWhile (\<lambda>c. c \<noteq> 0) b \<noteq> []" using z by (simp add: dropWhile_eq_Nil_conv)
    then obtain r where "dropWhile (\<lambda>c. c \<noteq> 0) b = 0 # r" using hd_dropWhile [of "\<lambda>c. c \<noteq> 0" b] by (cases "dropWhile (\<lambda>c. c \<noteq> 0) b") auto
    then show ?thesis using that [of r] takeWhile_dropWhile_id [of "\<lambda>c. c \<noteq> 0" b] by (simp add: s_def c_str_def)
  qed
  have l: "length b = length buf" using mem_write_length [OF assms(1)] .
  then have w: "UGLY_WIDTH \<le> length b" using assms(2) by simp
  have s0: "0 \<notin> set s" by (auto simp: s_def c_str_def dest: set_takeWhileD)
  let ?e = "escape (fitting (length b - UGLY_WIDTH) s)"
  have "sanitize_string b (length b) = Some (?e @ 0 # drop (Suc (length ?e)) b, length ?e)"
    using sanitize_string_ok [OF s0 _ w, of rest] unfolding b [symmetric] by (simp add: Let_def)
  moreover have "0 \<notin> set ?e" using escape_printable [of 0] by (auto simp: isprint_def)
  then have "c_str (?e @ 0 # drop (Suc (length ?e)) b) = ?e" by (auto simp: c_str_def takeWhile_append)
  ultimately show ?thesis using fitting_bound [OF w, of s] l by metis
qed

lemma vsnprintf_line:
  assumes "off < length buf" "UGLY_WIDTH \<le> length buf"
  shows "\<exists>b b' n s. vsnprintf_at buf off text = Some b \<and> length b = length buf \<and> sanitize_string b (length b) = Some (b', n) \<and> c_str b' = escape s \<and> length (escape s) < length buf"
proof -
  have "vsnprintf_at buf off text \<noteq> None" using assms(1) by (simp add: vsnprintf_at_def)
  then obtain b where b: "vsnprintf_at buf off text = Some b" by blast
  from sanitize_line [OF b [unfolded vsnprintf_at_def] assms(2)] show ?thesis using b mem_write_length [OF b [unfolded vsnprintf_at_def]] by blast
qed

lemma fmt_log_ok:
  assumes "UGLY_WIDTH \<le> length buf" "fmt = [] \<or> hd fmt \<noteq> 126"
  shows "\<exists>b s. fmt_log progname format buf fmt = Some b \<and> c_str b = escape s \<and> length (escape s) < length buf"
proof -
  define prefix where "prefix = (case progname of None \<Rightarrow> [] | Some name \<Rightarrow> if length name + 1 + 1 < length buf then name @ [32] else [])"
  have p: "length prefix < length buf" using assms(1) by (auto simp: prefix_def UGLY_WIDTH_def split: option.splits)
  then have "mem_write buf 0 (prefix @ [0]) \<noteq> None" by simp
  then obtain b0 where b0: "mem_write buf 0 (prefix @ [0]) = Some b0" by blast
  have l: "length b0 = length buf" using mem_write_length [OF b0] .
  from vsnprintf_line [of "length prefix" b0 "format fmt"] p assms(1) l obtain b b' n s where
    "vsnprintf_at b0 (length prefix) (format fmt) = Some b" "sanitize_string b (length b) = Some (b', n)" "c_str b' = escape s" "length (escape s) < length buf" by auto
  then show ?thesis using assms(2) b0 by (auto simp: fmt_log_def Let_def prefix_def [symmetric])
qed


section \<open>The words of a string\<close>

fun split_at :: "u8 list \<Rightarrow> u8 list list" where
  "split_at [] = [[]]"
| "split_at (c # s) = (if c = 32 then [] # split_at s else (c # hd (split_at s)) # tl (split_at s))"

definition words :: "u8 list \<Rightarrow> u8 list list" where
  "words s = filter (\<lambda>w. w \<noteq> []) (split_at s)"

lemma split_at_ne [simp]: "split_at s \<noteq> []"
  by (cases s) auto

lemma words_Nil [simp]: "words [] = []"
  by (simp add: words_def)

lemma words_skip: "words s = words (skip_spaces s)"
  by (induction s) (auto simp: words_def skip_spaces_def)

lemma split_at_word: "split_at s = takeWhile (\<lambda>c. c \<noteq> 32) s # (case skip_word s of [] \<Rightarrow> [] | _ # t \<Rightarrow> split_at t)"
  by (induction s) (auto simp: skip_word_def)

lemma words_word:
  assumes "s \<noteq> []" "hd s \<noteq> 32"
  shows "words s = takeWhile (\<lambda>c. c \<noteq> 32) s # words (skip_word s)"
proof -
  have w: "takeWhile (\<lambda>c. c \<noteq> 32) s \<noteq> []" using assms by (cases s) auto
  have "words (skip_word s) = (case skip_word s of [] \<Rightarrow> [] | _ # t \<Rightarrow> words t)"
  proof (cases "skip_word s")
    case (Cons c t)
    then have "c = 32" by (simp add: skip_word_def dropWhile_eq_Cons_conv)
    then show ?thesis using Cons by (simp add: words_def)
  qed simp
  then show ?thesis using w by (subst words_def, subst split_at_word) (auto simp: words_def split: list.splits)
qed

lemma words_step:
  assumes "skip_spaces s \<noteq> []"
  shows "words s = takeWhile (\<lambda>c. c \<noteq> 32) (skip_spaces s) # words (skip_word (skip_spaces s))"
  using words_word [OF assms] hd_dropWhile [of "\<lambda>c. c = 32" s] assms words_skip [of s] by (simp add: skip_spaces_def)

lemma count_words_words: "count_words s n = n + length (words s)"
proof (induction s n rule: count_words.induct)
  case (1 s n)
  show ?case
  proof (cases "s = [] \<or> skip_spaces s = []")
    case True
    then show ?thesis using words_skip [of s] by (subst count_words.simps) auto
  next
    case False
    then show ?thesis using 1 words_step [of s] by (subst count_words.simps) simp
  qed
qed

lemma split_loop_words:
  "\<forall>i. ok i \<Longrightarrow> length tokens + length (words s) < n \<Longrightarrow> split_loop ok n s tokens = Some (Some (tokens @ words s))"
proof (induction ok n s tokens rule: split_loop.induct)
  case (1 ok n s tokens)
  show ?case
  proof (cases "s = [] \<or> skip_spaces s = []")
    case True
    then have "words s = []" using words_skip [of s] by auto
    then show ?thesis using True 1(3) by (subst split_loop.simps) simp
  next
    case False
    then have r: "split_loop ok n s tokens = split_loop ok n (skip_word (skip_spaces s)) (tokens @ [takeWhile (\<lambda>c. c \<noteq> 32) (skip_spaces s)])"
      using 1(2,3) by (subst split_loop.simps) simp
    show ?thesis unfolding r using False 1(2,3) words_step [of s] by (subst 1(1)) auto
  qed
qed

lemma split_loop_fails: "length tokens + length (words s) < n \<Longrightarrow> length tokens \<le> i \<Longrightarrow> i < length tokens + length (words s) \<Longrightarrow> \<not> ok i \<Longrightarrow> split_loop ok n s tokens = Some None"
proof (induction ok n s tokens rule: split_loop.induct)
  case (1 ok n s tokens)
  have ne: "\<not> (s = [] \<or> skip_spaces s = [])" using 1(3,4) words_skip [of s] by auto
  show ?case
  proof (cases "ok (length tokens)")
    case False
    then show ?thesis using ne by (subst split_loop.simps) simp
  next
    case True
    then have "length tokens < i" using 1(3,5) by (metis le_neq_implies_less)
    then show ?thesis using 1 True ne words_step [of s] by (subst split_loop.simps) simp
  qed
qed



section \<open>Properties\<close>



text \<open>
  No message can break the log. Whatever the arguments of \<open>loglog\<close> expand to, the call
  returns, and each line it writes is shorter than the array and has printable characters only, unless the
  format begins with a tilde.
\<close>

theorem loglog_lines_printable:
  assumes "length m = LOG_WIDTH" "fmt = [] \<or> hd fmt \<noteq> 126"
  shows "\<exists>out. loglog to_stderr to_syslog progname format m fmt = Some out \<and>
    (\<forall>(to, line) \<in> set out. length line < LOG_WIDTH \<and> (\<forall>c \<in> set line. isprint c))"
proof -
  from assms fmt_log_ok [of m fmt progname format] obtain b s where
    "fmt_log progname format m fmt = Some b" "c_str b = escape s" "length (escape s) < LOG_WIDTH" by (auto simp: LOG_WIDTH_def UGLY_WIDTH_def)
  then show ?thesis using escape_printable by (auto simp: loglog_def out_lines_def)
qed

theorem loglog_lines_printable_witness:
  "\<exists>out. loglog True False None (\<lambda>f. f @ [27, 91, 50]) (replicate LOG_WIDTH 0) [37] = Some out \<and> (\<forall>(to, line) \<in> set out. \<forall>c \<in> set line. isprint c)"
  using loglog_lines_printable [of "replicate LOG_WIDTH 0" "[37]" True False None "\<lambda>f. f @ [27, 91, 50]"] by fastforce

text \<open>
  Property C34: \<open>ld_split\<close> returns the words of its argument, the parts between blanks that are not empty,
  as an array that ends with a null pointer, together with their number; the array it allocates after counting
  is never too small.
\<close>

theorem ld_split_words:
  "ld_split True (\<lambda>_. True) str = Some (length (words str), Argv (map Some (words str) @ [None]))"
  by (simp add: ld_split_def Let_def count_words_words split_loop_words)

text \<open>When a token cannot be allocated, the caller is left with the freed array.\<close>

lemma ld_split_out_of_memory:
  assumes "i < length (words str)" "\<not> ok i"
  shows "ld_split True ok str = Some (0, Argv_freed)"
  using split_loop_fails [of "[]" str "length (words str) + 1" i ok] assms by (simp add: ld_split_def Let_def count_words_words)

end
