(* ===== verification/Sqlite.thy ===== *)
theory Sqlite
  imports Prelude "HOL-Library.Sublist"
begin

text \<open>
  The statements of src/src/ld_sqlite.c. The functions walk along the description of a table, an array
  of fields that ends with a sentinel of type \<open>sql_end\<close>, and in step with it through the bytes of a struct,
  and print an SQL statement. A description is the list of its entries, sentinel included; running
  out of the list is an access behind the array. Characters a struct points to are blocks in a map
  from addresses. SQLite itself is outside: what it answers is an argument of the functions, as are
  the text of the clock and of a double.
\<close>

section \<open>Descriptions\<close>

datatype sql_field_type = sql_integer | sql_real | sql_text | sql_blob | sql_null | sql_end

datatype sql_logic = SQL_AND | SQL_OR | SQL_NOT

fun sql_logics_str :: "sql_logic \<Rightarrow> string" where
  "sql_logics_str SQL_AND = ''AND''"
| "sql_logics_str SQL_OR = ''OR''"
| "sql_logics_str SQL_NOT = ''NOT''"

datatype sql_comp = SQL_EQ | SQL_NEQ | SQL_LT | SQL_LE | SQL_MT | SQL_ME

fun sql_comp_str :: "sql_comp \<Rightarrow> string" where
  "sql_comp_str SQL_EQ = ''=''"
| "sql_comp_str SQL_NEQ = ''<>''"
| "sql_comp_str SQL_LT = ''<''"
| "sql_comp_str SQL_LE = ''<=''"
| "sql_comp_str SQL_MT = ''>''"
| "sql_comp_str SQL_ME = ''>=''"

fun sql_field_typ_str :: "sql_field_type \<Rightarrow> string" where
  "sql_field_typ_str sql_integer = ''INTEGER''"
| "sql_field_typ_str sql_real = ''REAL''"
| "sql_field_typ_str sql_text = ''TEXT''"
| "sql_field_typ_str sql_blob = ''BLOB''"
| "sql_field_typ_str sql_null = ''NULL''"
| "sql_field_typ_str sql_end = ''''"

text \<open>The sentinel has no name.\<close>

record table_tmpl =
  tt_sql_type :: sql_field_type
  tt_size :: nat
  tt_name :: "string option"
  tt_primary :: bool
  tt_auto_increment :: bool
  tt_not_null :: bool

record table_tmpl_desc =
  td_table_name :: string
  td_fields :: "table_tmpl list"
  td_size :: nat


section \<open>The values of a struct\<close>

definition quote :: "string \<Rightarrow> string" where
  "quote s = [CHR 0x27] @ s @ [CHR 0x27]"

definition integer_text :: "table_tmpl \<Rightarrow> u8 list \<Rightarrow> string option" where
  "integer_text f ptr = (if tt_size f \<in> {1, 2, 4, 8} then map_option dec (read_uint ptr (tt_size f)) else Some '''')"

definition text_ptr :: "u8 list \<Rightarrow> u64 option" where
  "text_ptr ptr = map_option of_nat (read_uint ptr 8)"

text \<open>\<open>fmt_f\<close> is what \<open>%f\<close> prints for the eight bytes of a double, \<open>time\<close> what \<open>get_current_time\<close> gives.\<close>

definition insert_text :: "(u8 list \<Rightarrow> string) \<Rightarrow> string \<Rightarrow> blocks \<Rightarrow> table_tmpl \<Rightarrow> u8 list \<Rightarrow> string option" where
  "insert_text fmt_f time h f ptr =
     (case tt_sql_type f of
        sql_integer \<Rightarrow> integer_text f ptr
      | sql_real \<Rightarrow> map_option fmt_f (mem_read ptr 0 8)
      | sql_text \<Rightarrow> do {
          buf_p \<leftarrow> text_ptr ptr;
          name \<leftarrow> tt_name f;
          if name = ''CreatedAt'' \<or> name = ''UpdatedAt'' then Some (quote time)
          else if buf_p = 0 then Some ''NULL''
          else map_option quote (cstring h buf_p)
        }
      | _ \<Rightarrow> Some '''')"

definition set_text :: "(u8 list \<Rightarrow> string) \<Rightarrow> blocks \<Rightarrow> table_tmpl \<Rightarrow> u8 list \<Rightarrow> string option" where
  "set_text fmt_f h f ptr =
     (case tt_sql_type f of
        sql_integer \<Rightarrow> integer_text f ptr
      | sql_real \<Rightarrow> map_option fmt_f (mem_read ptr 0 8)
      | sql_text \<Rightarrow> do {
          buf_p \<leftarrow> text_ptr ptr;
          name \<leftarrow> tt_name f;
          if name = ''UpdatedAt'' then Some ''''
          else if buf_p = 0 then Some ''NULL''
          else map_option quote (cstring h buf_p)
        }
      | _ \<Rightarrow> Some '''')"

definition where_text :: "(u8 list \<Rightarrow> string) \<Rightarrow> blocks \<Rightarrow> table_tmpl \<Rightarrow> u8 list \<Rightarrow> string option" where
  "where_text fmt_f h f ptr =
     (case tt_sql_type f of
        sql_integer \<Rightarrow> integer_text f ptr
      | sql_real \<Rightarrow> map_option fmt_f (mem_read ptr 0 8)
      | sql_text \<Rightarrow> do {
          buf_p \<leftarrow> text_ptr ptr;
          if buf_p = 0 then Some '''' else map_option quote (cstring h buf_p)
        }
      | _ \<Rightarrow> Some '''')"

text \<open>The texts of a struct are freed and their pointers cleared.\<close>

fun clear_sqlite_obj :: "blocks \<Rightarrow> u8 list \<Rightarrow> nat \<Rightarrow> table_tmpl list \<Rightarrow> (blocks \<times> u8 list) option" where
  "clear_sqlite_obj h obj off [] = None"
| "clear_sqlite_obj h obj off (f # fs) =
     (if tt_sql_type f = sql_end then Some (h, obj)
      else if tt_sql_type f = sql_text then do {
        buf_p \<leftarrow> text_ptr (drop off obj);
        if buf_p = 0 then clear_sqlite_obj h obj (off + tt_size f) fs
        else if h buf_p = None then None
        else do { obj \<leftarrow> mem_write obj off (le_bytes 8 0); clear_sqlite_obj (h(buf_p := None)) obj (off + tt_size f) fs }
      }
      else clear_sqlite_obj h obj (off + tt_size f) fs)"


section \<open>The statements\<close>

definition field_decl :: "table_tmpl \<Rightarrow> string option" where
  "field_decl f = map_option (\<lambda>name. ''    '' @ name @ '' '' @ sql_field_typ_str (tt_sql_type f) @
     (if tt_primary f then '' PRIMARY KEY'' else '''') @
     (if tt_auto_increment f then '' AUTOINCREMENT'' else '''') @
     (if tt_not_null f then '' NOT NULL'' else '''')) (tt_name f)"

definition ends :: "table_tmpl list \<Rightarrow> bool option" where
  "ends fs = (case fs of [] \<Rightarrow> None | g # _ \<Rightarrow> Some (tt_sql_type g = sql_end))"

fun create_columns :: "table_tmpl list \<Rightarrow> string option" where
  "create_columns [] = None"
| "create_columns (f # fs) = do {
     d \<leftarrow> field_decl f;
     stop \<leftarrow> ends fs;
     if stop then Some d
     else do { r \<leftarrow> create_columns fs; Some (d @ '','' @ [CHR 0x0A] @ r) }
   }"

fun insert_names :: "table_tmpl list \<Rightarrow> string option" where
  "insert_names [] = None"
| "insert_names (f # fs) =
     (if tt_auto_increment f then insert_names fs
      else do {
        name \<leftarrow> tt_name f;
        stop \<leftarrow> ends fs;
        if stop then Some (name @ '') VALUES ('')
        else do { r \<leftarrow> insert_names fs; Some (name @ '', '' @ r) }
      })"

fun insert_values :: "(u8 list \<Rightarrow> string) \<Rightarrow> string \<Rightarrow> blocks \<Rightarrow> table_tmpl list \<Rightarrow> u8 list \<Rightarrow> string option" where
  "insert_values fmt_f time h [] ptr = None"
| "insert_values fmt_f time h (f # fs) ptr =
     (if tt_auto_increment f then insert_values fmt_f time h fs (drop (tt_size f) ptr)
      else do {
        v \<leftarrow> insert_text fmt_f time h f ptr;
        stop \<leftarrow> ends fs;
        if \<not> stop \<and> \<not> tt_auto_increment (hd fs)
        then do { r \<leftarrow> insert_values fmt_f time h fs (drop (tt_size f) ptr); Some (v @ '', '' @ r) }
        else Some (v @ '');'')
      })"

fun set_clause :: "(u8 list \<Rightarrow> string) \<Rightarrow> blocks \<Rightarrow> table_tmpl list \<Rightarrow> string list \<Rightarrow> u8 list \<Rightarrow> string option" where
  "set_clause fmt_f h [] keys ptr = None"
| "set_clause fmt_f h (f # fs) keys ptr =
     (if tt_sql_type f = sql_end \<or> keys = [] then Some ''''
      else do {
        name \<leftarrow> tt_name f;
        if name = hd keys then do {
          v \<leftarrow> set_text fmt_f h f ptr;
          r \<leftarrow> set_clause fmt_f h fs (tl keys) (drop (tt_size f) ptr);
          Some (name @ '' = '' @ v @ '', '' @ r)
        }
        else set_clause fmt_f h fs keys (drop (tt_size f) ptr)
      })"

text \<open>The operators and connectives are arrays that are read at the position of the key, or null pointers.\<close>

definition comp_at :: "sql_comp list option \<Rightarrow> nat \<Rightarrow> string option" where
  "comp_at comps i = (case comps of None \<Rightarrow> Some ''= '' | Some cs \<Rightarrow> if i < length cs then Some (sql_comp_str (cs ! i) @ '' '') else None)"

definition logic_at :: "sql_logic list option \<Rightarrow> nat \<Rightarrow> string option" where
  "logic_at logics i = (case logics of None \<Rightarrow> Some '' AND '' | Some ls \<Rightarrow> if i < length ls then Some ('' '' @ sql_logics_str (ls ! i) @ '' '') else None)"

fun where_clause :: "(u8 list \<Rightarrow> string) \<Rightarrow> blocks \<Rightarrow> sql_comp list option \<Rightarrow> sql_logic list option \<Rightarrow> table_tmpl list \<Rightarrow> string list \<Rightarrow> nat \<Rightarrow> u8 list \<Rightarrow> string option" where
  "where_clause fmt_f h comps logics [] wkeys i ptr = None"
| "where_clause fmt_f h comps logics (f # fs) wkeys i ptr =
     (if tt_sql_type f = sql_end \<or> i \<ge> length wkeys then Some ''''
      else do {
        name \<leftarrow> tt_name f;
        if name = wkeys ! i then do {
          c \<leftarrow> comp_at comps i;
          v \<leftarrow> where_text fmt_f h f ptr;
          l \<leftarrow> (if i + 1 < length wkeys then logic_at logics i else Some '''');
          r \<leftarrow> where_clause fmt_f h comps logics fs wkeys (i + 1) (drop (tt_size f) ptr);
          Some (name @ '' '' @ c @ v @ l @ r)
        }
        else where_clause fmt_f h comps logics fs wkeys i (drop (tt_size f) ptr)
      })"

fun select_columns :: "table_tmpl list \<Rightarrow> string list \<Rightarrow> string option" where
  "select_columns [] keys = None"
| "select_columns (f # fs) keys =
     (if tt_sql_type f = sql_end \<or> keys = [] then Some ''''
      else do {
        name \<leftarrow> tt_name f;
        if name = hd keys then do { r \<leftarrow> select_columns fs (tl keys); Some (name @ (if tl keys \<noteq> [] then '', '' else '' '') @ r) }
        else select_columns fs keys
      })"

definition insert_statement :: "(u8 list \<Rightarrow> string) \<Rightarrow> string \<Rightarrow> blocks \<Rightarrow> table_tmpl_desc \<Rightarrow> u8 list \<Rightarrow> string option" where
  "insert_statement fmt_f time h t obj = do {
     names \<leftarrow> insert_names (td_fields t);
     vals \<leftarrow> insert_values fmt_f time h (td_fields t) obj;
     Some (''INSERT INTO '' @ td_table_name t @ '' ('' @ names @ vals)
   }"

definition where_part :: "(u8 list \<Rightarrow> string) \<Rightarrow> blocks \<Rightarrow> table_tmpl_desc \<Rightarrow> string list option \<Rightarrow> u8 list \<Rightarrow> sql_comp list option \<Rightarrow> sql_logic list option \<Rightarrow> string option" where
  "where_part fmt_f h t wkey wvalue comps logics =
     (case wkey of None \<Rightarrow> Some ''''
      | Some wkeys \<Rightarrow> map_option (\<lambda>w. ''WHERE '' @ w) (where_clause fmt_f h comps logics (td_fields t) wkeys 0 wvalue))"

definition update_statement :: "(u8 list \<Rightarrow> string) \<Rightarrow> string \<Rightarrow> blocks \<Rightarrow> table_tmpl_desc \<Rightarrow> string list \<Rightarrow> u8 list \<Rightarrow> string list option \<Rightarrow> u8 list \<Rightarrow> sql_comp list option \<Rightarrow> sql_logic list option \<Rightarrow> string option" where
  "update_statement fmt_f time h t keys obj wkey wvalue comps logics = do {
     s \<leftarrow> set_clause fmt_f h (td_fields t) keys obj;
     w \<leftarrow> where_part fmt_f h t wkey wvalue comps logics;
     Some (''UPDATE '' @ td_table_name t @ '' SET '' @ s @ ''UpdatedAt = '' @ quote time @ '' '' @ w)
   }"

definition select_statement :: "(u8 list \<Rightarrow> string) \<Rightarrow> blocks \<Rightarrow> table_tmpl_desc \<Rightarrow> string list option \<Rightarrow> string list option \<Rightarrow> u8 list \<Rightarrow> sql_comp list option \<Rightarrow> sql_logic list option \<Rightarrow> string option" where
  "select_statement fmt_f h t key wkey wvalue comps logics = do {
     cols \<leftarrow> (case key of None \<Rightarrow> Some ''* '' | Some keys \<Rightarrow> select_columns (td_fields t) keys);
     w \<leftarrow> where_part fmt_f h t wkey wvalue comps logics;
     Some (''SELECT '' @ cols @ ''FROM '' @ td_table_name t @ '' '' @ w)
   }"


section \<open>The calls\<close>

text \<open>
  Each call returns its error code and the statements it has given to SQLite, in order. \<open>opened\<close>
  says whether the database can be opened, \<open>exec_ok\<close> which statements SQLite accepts.
\<close>

definition exec_statement :: "(string \<Rightarrow> bool) \<Rightarrow> string \<Rightarrow> string list \<Rightarrow> l_err \<times> string list" where
  "exec_statement exec_ok st sent = (if exec_ok st then LD_OK else LD_ERR_FAIL_EXEC_SQL, sent @ [st])"

definition open_exec :: "bool \<Rightarrow> (string \<Rightarrow> bool) \<Rightarrow> string \<Rightarrow> l_err \<times> string list" where
  "open_exec opened exec_ok st = (if \<not> opened then (LD_ERR_OPEN_SQL, []) else exec_statement exec_ok st [])"

definition insert_value :: "bool \<Rightarrow> (string \<Rightarrow> bool) \<Rightarrow> (u8 list \<Rightarrow> string) \<Rightarrow> string \<Rightarrow> blocks \<Rightarrow> table_tmpl_desc \<Rightarrow> u8 list \<Rightarrow> (l_err \<times> string list) option" where
  "insert_value opened exec_ok fmt_f time h t obj = map_option (open_exec opened exec_ok) (insert_statement fmt_f time h t obj)"

definition update_value :: "bool \<Rightarrow> (string \<Rightarrow> bool) \<Rightarrow> (u8 list \<Rightarrow> string) \<Rightarrow> string \<Rightarrow> blocks \<Rightarrow> table_tmpl_desc \<Rightarrow> string list \<Rightarrow> u8 list \<Rightarrow> string list option \<Rightarrow> u8 list \<Rightarrow> sql_comp list option \<Rightarrow> sql_logic list option \<Rightarrow> (l_err \<times> string list) option" where
  "update_value opened exec_ok fmt_f time h t keys obj wkey wvalue comps logics =
     map_option (open_exec opened exec_ok) (update_statement fmt_f time h t keys obj wkey wvalue comps logics)"

definition delete_value :: "table_tmpl_desc \<Rightarrow> nat \<Rightarrow> u8 list \<Rightarrow> l_err \<times> string list" where
  "delete_value t wkey_sz wvalue = (LD_OK, [])"

text \<open>
  The answer of \<open>PRAGMA table_info\<close> is a list of columns, each with a flag that says whether its last
  entry begins with \<open>1\<close>, the mark of the primary key. Sixty-four columns fit.
\<close>

definition find_table_cb :: "(string \<times> bool) list \<Rightarrow> string option list option" where
  "find_table_cb info = (if length info > 64 then None else Some (map (\<lambda>(name, pk). if pk then None else Some name) info))"

definition valid_names :: "string option list \<Rightarrow> table_tmpl list \<Rightarrow> string list option" where
  "valid_names columns fs =
     (let names = concat (map (\<lambda>c. case c of None \<Rightarrow> []
        | Some col \<Rightarrow> map (\<lambda>f. col) (filter (\<lambda>f. tt_name f = Some col) (takeWhile (\<lambda>f. tt_sql_type f \<noteq> sql_end) fs))) columns) in
      if length names \<le> 64 then Some names else None)"

fun join :: "string \<Rightarrow> string list \<Rightarrow> string" where
  "join sep [] = ''''"
| "join sep [s] = s"
| "join sep (s # ss) = s @ sep @ join sep ss"

text \<open>A \<open>sprintf\<close> into an array of 128 characters.\<close>

definition sprintf128 :: "string \<Rightarrow> string option" where
  "sprintf128 s = (if length s < 128 then Some s else None)"

definition master_query :: "table_tmpl_desc \<Rightarrow> string" where
  "master_query t = ''SELECT name FROM sqlite_master WHERE type='' @ quote ''table'' @ '' AND name='' @ quote (td_table_name t) @ '';''"

definition create_statement :: "table_tmpl_desc \<Rightarrow> string option" where
  "create_statement t = map_option (\<lambda>cs. ''CREATE TABLE IF NOT EXISTS '' @ td_table_name t @ ''_TEMP ('' @ [CHR 0x0A] @ cs @ '');'' @ [CHR 0x0A]) (create_columns (td_fields t))"

definition copy_statement :: "table_tmpl_desc \<Rightarrow> string \<Rightarrow> string" where
  "copy_statement t cols = ''INSERT INTO '' @ td_table_name t @ ''_TEMP('' @ cols @ '') SELECT '' @ cols @ '' FROM '' @ td_table_name t @ '';''"

definition drop_statement :: "table_tmpl_desc \<Rightarrow> string" where
  "drop_statement t = ''DROP TABLE '' @ td_table_name t @ '';''"

definition rename_statement :: "table_tmpl_desc \<Rightarrow> string" where
  "rename_statement t = ''ALTER TABLE '' @ quote (td_table_name t @ ''_TEMP'') @ '' RENAME TO '' @ quote (td_table_name t) @ '';''"

definition then_run :: "(string \<Rightarrow> bool) \<Rightarrow> string option \<Rightarrow> l_err \<times> string list \<Rightarrow> (l_err \<times> string list) option" where
  "then_run exec_ok st r = (if fst r \<noteq> LD_OK then Some r else map_option (\<lambda>s. exec_statement exec_ok s (snd r)) st)"

definition migrate :: "(string \<Rightarrow> bool) \<Rightarrow> string option list \<Rightarrow> table_tmpl_desc \<Rightarrow> l_err \<times> string list \<Rightarrow> (l_err \<times> string list) option" where
  "migrate exec_ok columns t r =
     (if fst r \<noteq> LD_OK then Some r
      else do {
        names \<leftarrow> valid_names columns (td_fields t);
        r \<leftarrow> then_run exec_ok (sprintf128 (copy_statement t (join '','' names))) r;
        then_run exec_ok (sprintf128 (drop_statement t)) r
      })"

text \<open>\<open>found\<close> is the table of that name that SQLite finds, if there is one.\<close>

definition create_table :: "bool \<Rightarrow> (string \<Rightarrow> bool) \<Rightarrow> (string \<times> bool) list option \<Rightarrow> table_tmpl_desc \<Rightarrow> (l_err \<times> string list) option" where
  "create_table opened exec_ok found t =
     (if \<not> opened then Some (LD_ERR_OPEN_SQL, [])
      else do {
        r \<leftarrow> then_run exec_ok (sprintf128 (master_query t)) (LD_OK, []);
        columns \<leftarrow> (case found of None \<Rightarrow> Some None | Some info \<Rightarrow> if fst r = LD_OK then map_option Some (find_table_cb info) else Some None);
        r \<leftarrow> then_run exec_ok (create_statement t) r;
        r \<leftarrow> (case columns of None \<Rightarrow> Some r | Some cs \<Rightarrow> migrate exec_ok cs t r);
        then_run exec_ok (sprintf128 (rename_statement t)) r
      })"

text \<open>What \<open>sqlite3_column_int64\<close>, \<open>sqlite3_column_double\<close> and \<open>sqlite3_column_text\<close> return for a column.\<close>

record column =
  col_int :: u64
  col_double :: "u8 list"
  col_text :: "string option"

text \<open>The copy of a text has as many bytes as it has characters: no terminator. \<open>a\<close> is its address.\<close>

definition store_column :: "u64 \<Rightarrow> table_tmpl \<Rightarrow> column \<Rightarrow> nat \<Rightarrow> u8 list \<times> blocks \<Rightarrow> (u8 list \<times> blocks) option" where
  "store_column a f c off oh =
     (case oh of (out, h) \<Rightarrow>
      case tt_sql_type f of
        sql_integer \<Rightarrow> if tt_size f \<in> {1, 2, 4, 8} then map_option (\<lambda>out. (out, h)) (mem_write out off (le_bytes (tt_size f) (unat (col_int c)))) else Some (out, h)
      | sql_real \<Rightarrow> map_option (\<lambda>out. (out, h)) (mem_write out off (col_double c))
      | sql_text \<Rightarrow> (case col_text c of
            None \<Rightarrow> map_option (\<lambda>out. (out, h)) (mem_write out off (le_bytes 8 0))
          | Some text \<Rightarrow> map_option (\<lambda>out. (out, h(a \<mapsto> text))) (mem_write out off (le_bytes 8 (unat a))))
      | _ \<Rightarrow> Some (out, h))"

definition wanted :: "string list option \<Rightarrow> nat \<Rightarrow> table_tmpl \<Rightarrow> bool option" where
  "wanted key i f =
     (case key of None \<Rightarrow> Some True
      | Some keys \<Rightarrow> if keys = [] then Some True
          else if i \<ge> length keys then None
          else map_option (\<lambda>name. name = keys ! i) (tt_name f))"

text \<open>With a list of keys, the position of the key and of the column are the same.\<close>

fun read_row :: "(nat \<Rightarrow> u64) \<Rightarrow> string list option \<Rightarrow> (nat \<Rightarrow> column) \<Rightarrow> table_tmpl list \<Rightarrow> nat \<Rightarrow> nat \<Rightarrow> u8 list \<times> blocks \<Rightarrow> (u8 list \<times> blocks) option" where
  "read_row alloc key row [] j off oh = None"
| "read_row alloc key row (f # fs) j off oh =
     (if tt_sql_type f = sql_end then Some oh
      else do {
        w \<leftarrow> wanted key j f;
        if \<not> w then read_row alloc key row fs j (off + tt_size f) oh
        else do {
          oh \<leftarrow> store_column (alloc j) f (row j) off oh;
          if (case key of None \<Rightarrow> False | Some keys \<Rightarrow> keys \<noteq> [] \<and> j + 1 = length keys) then Some oh
          else read_row alloc key row fs (j + 1) (off + tt_size f) oh
        }
      })"

text \<open>The caller's array has \<open>cap\<close> slots; \<open>alloc n\<close> are the addresses for row number \<open>n\<close>.\<close>

fun read_rows :: "(nat \<Rightarrow> nat \<Rightarrow> u64) \<Rightarrow> nat \<Rightarrow> string list option \<Rightarrow> table_tmpl_desc \<Rightarrow> (nat \<Rightarrow> column) list \<Rightarrow> u8 list list \<Rightarrow> blocks \<Rightarrow> (u8 list list \<times> blocks) option" where
  "read_rows alloc cap key t [] res h = Some (res, h)"
| "read_rows alloc cap key t (row # rows) res h = do {
     (out, h) \<leftarrow> read_row (alloc (length res)) key row (td_fields t) 0 0 (replicate (td_size t) 0, h);
     if length res \<ge> cap then None
     else read_rows alloc cap key t rows (res @ [out]) h
   }"

text \<open>When the statement cannot be prepared the call returns the number 1.\<close>

definition select_value :: "bool \<Rightarrow> (string \<Rightarrow> (nat \<Rightarrow> column) list option) \<Rightarrow> (nat \<Rightarrow> nat \<Rightarrow> u64) \<Rightarrow> nat \<Rightarrow> (u8 list \<Rightarrow> string) \<Rightarrow> blocks \<Rightarrow> table_tmpl_desc \<Rightarrow> string list option \<Rightarrow> string list option \<Rightarrow> u8 list \<Rightarrow> sql_comp list option \<Rightarrow> sql_logic list option \<Rightarrow> (l_err \<times> u8 list list \<times> blocks) option" where
  "select_value opened query alloc cap fmt_f h t key wkey wvalue comps logics = do {
     st \<leftarrow> select_statement fmt_f h t key wkey wvalue comps logics;
     if \<not> opened then Some (LD_ERR_OPEN_SQL, [], h)
     else case query st of
       None \<Rightarrow> Some (LD_ERR_WRONG_PARA, [], h)
     | Some rows \<Rightarrow> map_option (\<lambda>(res, h). (LD_OK, res, h)) (read_rows alloc cap key t rows [] h)
   }"


section \<open>Fields in step with the struct\<close>

abbreviation fname :: "table_tmpl \<Rightarrow> string" where
  "fname f \<equiv> the (tt_name f)"

fun slots :: "table_tmpl list \<Rightarrow> u8 list \<Rightarrow> (table_tmpl \<times> u8 list) list" where
  "slots [] ptr = []"
| "slots (f # fs) ptr = (f, ptr) # slots fs (drop (tt_size f) ptr)"

text \<open>A description has named fields and then the sentinel.\<close>

definition described :: "table_tmpl list \<Rightarrow> table_tmpl list \<Rightarrow> bool" where
  "described gs fs \<longleftrightarrow> (\<exists>e. fs = gs @ [e] \<and> tt_sql_type e = sql_end) \<and>
     (\<forall>g \<in> set gs. tt_sql_type g \<noteq> sql_end \<and> tt_name g \<noteq> None) \<and> distinct (map fname gs)"

definition span :: "table_tmpl list \<Rightarrow> nat" where
  "span gs = sum_list (map tt_size gs)"

lemma described_Cons:
  assumes "described (g # gs) fs"
  obtains fs' n where "fs = g # fs'" "described gs fs'" "tt_name g = Some n" "tt_sql_type g \<noteq> sql_end" "n \<notin> fname ` set gs"
  using assms by (auto simp: described_def intro: that)

lemma described_Nil: "described [] fs \<Longrightarrow> \<exists>e. fs = [e] \<and> tt_sql_type e = sql_end"
  by (auto simp: described_def)

lemma described_ends: "described gs fs \<Longrightarrow> ends fs = Some (gs = [])"
  by (cases gs) (auto simp: described_def ends_def)

lemma span_simps [simp]: "span [] = 0" "span (g # gs) = tt_size g + span gs"
  by (simp_all add: span_def)

lemma columns_append: "slots (fs @ gs) ptr = slots fs ptr @ slots gs (drop (span fs) ptr)"
  by (induction fs arbitrary: ptr) (simp_all add: add.commute)

lemma slots_length [simp]: "length (slots fs ptr) = length fs"
  by (induction fs arbitrary: ptr) simp_all

lemma join_Cons: "ss \<noteq> [] \<Longrightarrow> join sep (s # ss) = s @ sep @ join sep ss"
  by (cases ss) simp_all

text \<open>What a field needs of the bytes of the struct, so that its value can be printed.\<close>

definition field_ok :: "blocks \<Rightarrow> table_tmpl \<Rightarrow> u8 list \<Rightarrow> bool" where
  "field_ok h f ptr \<longleftrightarrow>
     (case tt_sql_type f of
        sql_integer \<Rightarrow> tt_size f \<in> {1, 2, 4, 8} \<and> tt_size f \<le> length ptr
      | sql_real \<Rightarrow> tt_size f = 8 \<and> 8 \<le> length ptr
      | sql_text \<Rightarrow> tt_size f = 8 \<and> 8 \<le> length ptr \<and> (\<forall>a. text_ptr ptr = Some a \<longrightarrow> a = 0 \<or> cstring h a \<noteq> None)
      | _ \<Rightarrow> False)"

lemma text_ptr_Some: "8 \<le> length ptr \<Longrightarrow> text_ptr ptr = Some (of_nat (uint_val (take 8 ptr)))"
  by (simp add: text_ptr_def read_uint_def mem_read_def)

lemma values_defined:
  assumes "field_ok h f ptr" "tt_name f \<noteq> None"
  shows "\<exists>v. insert_text fmt_f time h f ptr = Some v" "\<exists>v. set_text fmt_f h f ptr = Some v" "\<exists>v. where_text fmt_f h f ptr = Some v"
  using assms
  by (auto simp: field_ok_def insert_text_def set_text_def where_text_def integer_text_def read_uint_def mem_read_def text_ptr_Some split: sql_field_type.splits)


section \<open>What the statements say\<close>

lemma insert_names_skip: "\<forall>a \<in> set as. tt_auto_increment a \<Longrightarrow> insert_names (as @ fs) = insert_names fs"
  by (induction as) simp_all

lemma insert_values_skip:
  "\<forall>a \<in> set as. tt_auto_increment a \<Longrightarrow> insert_values fmt_f time h (as @ fs) ptr = insert_values fmt_f time h fs (drop (span as) ptr)"
  by (induction as arbitrary: ptr) (simp_all add: add.commute)

lemma insert_names_join:
  "described gs fs \<Longrightarrow> gs \<noteq> [] \<Longrightarrow> \<forall>g \<in> set gs. \<not> tt_auto_increment g \<Longrightarrow>
   insert_names fs = Some (join '', '' (map fname gs) @ '') VALUES ('')"
proof (induction gs arbitrary: fs)
  case (Cons g gs)
  from Cons.prems(1) obtain fs' n where fs: "fs = g # fs'" "described gs fs'" "tt_name g = Some n" by (rule described_Cons)
  show ?case
  proof (cases "gs = []")
    case True
    then show ?thesis using fs Cons.prems(3) described_ends [OF fs(2)] by simp
  next
    case False
    then show ?thesis using fs Cons.prems(3) Cons.IH [OF fs(2)] described_ends [OF fs(2)] by (simp add: join_Cons)
  qed
qed simp

lemma insert_values_join:
  "described gs fs \<Longrightarrow> gs \<noteq> [] \<Longrightarrow> \<forall>g \<in> set gs. \<not> tt_auto_increment g \<Longrightarrow> \<forall>(f, p) \<in> set (slots gs ptr). field_ok h f p \<Longrightarrow>
   insert_values fmt_f time h fs ptr = Some (join '', '' (map (\<lambda>(f, p). the (insert_text fmt_f time h f p)) (slots gs ptr)) @ '');'')"
proof (induction gs arbitrary: fs ptr)
  case (Cons g gs)
  from Cons.prems(1) obtain fs' n where fs: "fs = g # fs'" "described gs fs'" "tt_name g = Some n" by (rule described_Cons)
  obtain v where v: "insert_text fmt_f time h g ptr = Some v" using values_defined(1) [of h g ptr fmt_f time] Cons.prems(4) fs(3) by auto
  show ?case
  proof (cases "gs = []")
    case True
    then show ?thesis using fs Cons.prems(3) described_ends [OF fs(2)] v by simp
  next
    case False
    then have "slots gs (drop (tt_size g) ptr) \<noteq> []" by (cases gs) simp_all
    moreover have "\<not> tt_auto_increment (hd fs')" using False fs(2) Cons.prems(3) by (cases gs) (auto simp: described_def)
    ultimately show ?thesis using False fs Cons.prems(3,4) Cons.IH [OF fs(2) False, of "drop (tt_size g) ptr"] described_ends [OF fs(2)] v
      by (simp add: join_Cons)
  qed
qed simp


definition assignment :: "(u8 list \<Rightarrow> string) \<Rightarrow> blocks \<Rightarrow> table_tmpl \<times> u8 list \<Rightarrow> string" where
  "assignment fmt_f h s = fname (fst s) @ '' = '' @ the (set_text fmt_f h (fst s) (snd s)) @ '', ''"

definition condition :: "(u8 list \<Rightarrow> string) \<Rightarrow> blocks \<Rightarrow> table_tmpl \<times> u8 list \<Rightarrow> sql_comp \<Rightarrow> string" where
  "condition fmt_f h s c = fname (fst s) @ '' '' @ sql_comp_str c @ '' '' @ the (where_text fmt_f h (fst s) (snd s))"

fun chain :: "string list \<Rightarrow> sql_logic list \<Rightarrow> string" where
  "chain [] ls = ''''"
| "chain [c] ls = c"
| "chain (c # cs) (l # ls) = c @ '' '' @ sql_logics_str l @ '' '' @ chain cs ls"
| "chain (c # cs) [] = c"

abbreviation chosen :: "(string \<Rightarrow> bool) \<Rightarrow> table_tmpl list \<Rightarrow> string list" where
  "chosen P gs \<equiv> filter P (map fname gs)"

abbreviation chosen_slots :: "(string \<Rightarrow> bool) \<Rightarrow> table_tmpl list \<Rightarrow> u8 list \<Rightarrow> (table_tmpl \<times> u8 list) list" where
  "chosen_slots P gs ptr \<equiv> filter (\<lambda>s. P (fname (fst s))) (slots gs ptr)"

lemma chosen_slots_length: "length (chosen_slots P gs ptr) = length (chosen P gs)"
  by (induction gs arbitrary: ptr) simp_all

lemma next_key: "n \<notin> fname ` set gs \<Longrightarrow> chosen P gs \<noteq> [] \<Longrightarrow> hd (chosen P gs) \<noteq> n"
  using hd_in_set [of "chosen P gs"] by auto

lemma set_clause_exact:
  "described gs fs \<Longrightarrow> \<forall>(f, p) \<in> set (slots gs ptr). field_ok h f p \<Longrightarrow>
   set_clause fmt_f h fs (chosen P gs) ptr = Some (concat (map (assignment fmt_f h) (chosen_slots P gs ptr)))"
proof (induction gs arbitrary: fs ptr)
  case Nil
  then show ?case by (auto dest: described_Nil)
next
  case (Cons g gs)
  from Cons.prems(1) obtain fs' n where fs: "fs = g # fs'" "described gs fs'" "tt_name g = Some n" "tt_sql_type g \<noteq> sql_end" "n \<notin> fname ` set gs" by (rule described_Cons)
  obtain v where v: "set_text fmt_f h g ptr = Some v" using values_defined(2) [of h g ptr fmt_f] Cons.prems(2) fs(3) by auto
  have ih: "set_clause fmt_f h fs' (chosen P gs) (drop (tt_size g) ptr) = Some (concat (map (assignment fmt_f h) (chosen_slots P gs (drop (tt_size g) ptr))))"
    using Cons by (intro Cons.IH [OF fs(2)]) auto
  have a: "assignment fmt_f h (g, ptr) = n @ '' = '' @ v @ '', ''" using fs(3) v by (simp add: assignment_def)
  consider "P n" | "\<not> P n" "chosen P gs \<noteq> []" | "\<not> P n" "chosen P gs = []" by blast
  then show ?case
  proof cases
    case 1
    then show ?thesis using fs v ih a by simp
  next
    case 2
    then show ?thesis using fs ih next_key [OF fs(5) 2(2)] by auto
  next
    case 3
    then have "chosen_slots P gs (drop (tt_size g) ptr) = []" using chosen_slots_length [of P gs "drop (tt_size g) ptr"] by auto
    then show ?thesis using 3 fs by simp
  qed
qed

lemma select_columns_exact: "described gs fs \<Longrightarrow> chosen P gs \<noteq> [] \<Longrightarrow> select_columns fs (chosen P gs) = Some (join '', '' (chosen P gs) @ '' '')"
proof (induction gs arbitrary: fs)
  case (Cons g gs)
  from Cons.prems(1) obtain fs' n where fs: "fs = g # fs'" "described gs fs'" "tt_name g = Some n" "tt_sql_type g \<noteq> sql_end" "n \<notin> fname ` set gs" by (rule described_Cons)
  have e: "select_columns fs' [] = Some ''''" using described_ends [OF fs(2)] by (cases fs') (auto simp: ends_def)
  show ?case
  proof (cases "chosen P gs = []")
    case True
    then show ?thesis using fs Cons.prems(2) e by (auto split: if_splits)
  next
    case False
    then show ?thesis using fs Cons.IH [OF fs(2) False] next_key [OF fs(5) False] by (auto simp: join_Cons)
  qed
qed simp

lemma where_clause_exact:
  assumes "length cs = length wkeys" "length wkeys \<le> Suc (length ls)"
    "comps = None \<and> cs = replicate (length wkeys) SQL_EQ \<or> comps = Some cs" "logics = None \<and> ls = replicate (length wkeys) SQL_AND \<or> logics = Some ls"
  shows "described gs fs \<Longrightarrow> \<forall>(f, p) \<in> set (slots gs ptr). field_ok h f p \<Longrightarrow> drop i wkeys = chosen P gs \<Longrightarrow>
    where_clause fmt_f h comps logics fs wkeys i ptr =
      Some (chain (map2 (condition fmt_f h) (chosen_slots P gs ptr) (drop i cs)) (drop i ls))"
proof (induction gs arbitrary: fs ptr i)
  case Nil
  then show ?case by (auto dest: described_Nil)
next
  case (Cons g gs)
  from Cons.prems(1) obtain fs' n where fs: "fs = g # fs'" "described gs fs'" "tt_name g = Some n" "tt_sql_type g \<noteq> sql_end" "n \<notin> fname ` set gs" by (rule described_Cons)
  obtain v where v: "where_text fmt_f h g ptr = Some v" using values_defined(3) [of h g ptr fmt_f] Cons.prems(2) fs(3) by auto
  let ?p = "drop (tt_size g) ptr"
  have ok: "\<forall>(f, p) \<in> set (slots gs ?p). field_ok h f p" using Cons.prems(2) by auto
  show ?case
  proof (cases "P n")
    case True
    then have k: "drop i wkeys = n # chosen P gs" using Cons.prems(3) fs(3) by simp
    then have i: "i < length wkeys" "wkeys ! i = n" "drop (Suc i) wkeys = chosen P gs"
      by (metis drop_eq_Nil list.distinct(1) not_le, metis nth_via_drop, metis drop_Suc list.sel(3) tl_drop)
    have c: "drop i cs = cs ! i # drop (Suc i) cs" "comp_at comps i = Some (sql_comp_str (cs ! i) @ '' '')"
      using i assms(1,3) by (auto simp: comp_at_def Cons_nth_drop_Suc)
    have rest: "where_clause fmt_f h comps logics fs' wkeys (Suc i) ?p = Some (chain (map2 (condition fmt_f h) (chosen_slots P gs ?p) (drop (Suc i) cs)) (drop (Suc i) ls))"
      using Cons.IH [OF fs(2) ok i(3)] .
    show ?thesis
    proof (cases "Suc i < length wkeys")
      case False
      then have "chosen P gs = []" using i by auto
      then have "chosen_slots P gs ?p = []" using chosen_slots_length [of P gs ?p] by simp
      then show ?thesis using False True fs i c v rest by (simp add: condition_def)
    next
      case more: True
      have l: "drop i ls = ls ! i # drop (Suc i) ls" "logic_at logics i = Some ('' '' @ sql_logics_str (ls ! i) @ '' '')"
        using more assms(2,4) by (auto simp: logic_at_def Cons_nth_drop_Suc)
      have "length (chosen_slots P gs ?p) > 0" using more i(3) chosen_slots_length [of P gs ?p] by (metis drop_eq_Nil length_greater_0_conv not_le)
      moreover have "length (drop (Suc i) cs) > 0" using more assms(1) by simp
      ultimately obtain x xs where "map2 (condition fmt_f h) (chosen_slots P gs ?p) (drop (Suc i) cs) = x # xs"
        by (cases "map2 (condition fmt_f h) (chosen_slots P gs ?p) (drop (Suc i) cs)") auto
      then show ?thesis using more True fs i c v rest l by (simp add: condition_def)
    qed
  next
    case False
    then have k: "drop i wkeys = chosen P gs" using Cons.prems(3) fs(3) by simp
    show ?thesis
    proof (cases "i < length wkeys")
      case True
      then have "wkeys ! i \<noteq> n" using next_key [OF fs(5), of P] k by (metis drop_eq_Nil hd_drop_conv_nth not_le)
      then show ?thesis using True False fs Cons.IH [OF fs(2) ok k] by simp
    next
      case past: False
      then have "chosen P gs = []" using k by simp
      then have "chosen_slots P gs ?p = []" using chosen_slots_length [of P gs ?p] by simp
      then show ?thesis using past False fs by simp
    qed
  qed
qed


section \<open>Rows\<close>

text \<open>What the columns of a row hold when they have been stored from a struct.\<close>

definition column_holds :: "blocks \<Rightarrow> table_tmpl \<times> u8 list \<Rightarrow> column \<Rightarrow> bool" where
  "column_holds h s c \<longleftrightarrow>
     (case s of (f, p) \<Rightarrow>
      case tt_sql_type f of
        sql_integer \<Rightarrow> unat (col_int c) = uint_val (take (tt_size f) p)
      | sql_real \<Rightarrow> col_double c = take 8 p
      | sql_text \<Rightarrow> col_text c = (if text_ptr p = Some 0 then None else text_ptr p \<bind> cstring h)
      | _ \<Rightarrow> False)"

text \<open>The bytes a field has after the row was read, and the texts that were allocated for it.\<close>

definition field_bytes :: "u64 \<Rightarrow> table_tmpl \<times> u8 list \<Rightarrow> u8 list" where
  "field_bytes a s = (case s of (f, p) \<Rightarrow> if tt_sql_type f = sql_text then le_bytes 8 (if text_ptr p = Some 0 then 0 else unat a) else take (tt_size f) p)"

definition new_texts :: "blocks \<Rightarrow> u64 \<Rightarrow> table_tmpl \<times> u8 list \<Rightarrow> blocks \<Rightarrow> blocks" where
  "new_texts h a s h' = (case s of (f, p) \<Rightarrow> if tt_sql_type f = sql_text \<and> text_ptr p \<noteq> Some 0 then h'(a := text_ptr p \<bind> cstring h) else h')"

lemma store_column_ok:
  assumes "field_ok h f p" "column_holds h (f, p) c" "off = length pre" "tt_size f \<le> length mid"
  shows "store_column a f c off (pre @ mid, h') = Some (pre @ field_bytes a (f, p) @ drop (tt_size f) mid, new_texts h a (f, p) h') \<and> length (field_bytes a (f, p)) = tt_size f"
proof (cases "tt_sql_type f")
  case sql_integer
  then have "le_bytes (tt_size f) (unat (col_int c)) = take (tt_size f) p"
    using assms(1,2) by (simp add: field_ok_def column_holds_def le_bytes_val)
  then show ?thesis using sql_integer assms by (simp add: store_column_def field_bytes_def new_texts_def field_ok_def mem_write_def)
next
  case sql_real
  then show ?thesis using assms by (simp add: store_column_def field_bytes_def new_texts_def field_ok_def column_holds_def mem_write_def)
next
  case sql_text
  have p: "text_ptr p = Some (of_nat (uint_val (take 8 p)))" using sql_text assms(1) by (intro text_ptr_Some) (simp add: field_ok_def)
  show ?thesis
  proof (cases "text_ptr p = Some 0")
    case True
    then show ?thesis using sql_text assms by (simp add: store_column_def field_bytes_def new_texts_def field_ok_def column_holds_def mem_write_def)
  next
    case False
    then obtain b s where b: "text_ptr p = Some b" "b \<noteq> 0" "cstring h b = Some s" using sql_text assms(1) p by (auto simp: field_ok_def)
    then show ?thesis using sql_text assms by (simp add: store_column_def field_bytes_def new_texts_def field_ok_def column_holds_def mem_write_def)
  qed
qed (use assms in \<open>simp_all add: field_ok_def\<close>)

lemma read_row_ok:
  "described gs fs \<Longrightarrow> \<forall>(f, p) \<in> set (slots gs ptr). field_ok h f p \<Longrightarrow> (\<And>k. k < length gs \<Longrightarrow> column_holds h (slots gs ptr ! k) (row (j + k))) \<Longrightarrow>
   span gs \<le> length mid \<Longrightarrow> off = length pre \<Longrightarrow>
   read_row alloc None row fs j off (pre @ mid, h') =
     Some (pre @ concat (map (\<lambda>k. field_bytes (alloc (j + k)) (slots gs ptr ! k)) [0..<length gs]) @ drop (span gs) mid,
       fold (\<lambda>k. new_texts h (alloc (j + k)) (slots gs ptr ! k)) [0..<length gs] h')"
proof (induction gs arbitrary: fs ptr j off pre mid h')
  case Nil
  then show ?case by (auto dest: described_Nil)
next
  case (Cons g gs)
  from Cons.prems(1) obtain fs' n where fs: "fs = g # fs'" "described gs fs'" "tt_name g = Some n" "tt_sql_type g \<noteq> sql_end" by (rule described_Cons)
  let ?p = "drop (tt_size g) ptr"
  have ok: "field_ok h g ptr" "\<forall>(f, p) \<in> set (slots gs ?p). field_ok h f p" using Cons.prems(2) by auto
  have c: "column_holds h (g, ptr) (row j)" using Cons.prems(3) [of 0] by simp
  have cs: "column_holds h (slots gs ?p ! k) (row (Suc j + k))" if "k < length gs" for k using Cons.prems(3) [of "Suc k"] that by simp
  have m: "tt_size g \<le> length mid" using Cons.prems(4) by simp
  have u: "[0..<length (g # gs)] = 0 # map Suc [0..<length gs]" by (simp add: upt_conv_Cons map_Suc_upt del: upt_Suc)
  note st = store_column_ok [OF ok(1) c Cons.prems(5) m, of "alloc j" h']
  let ?pre = "pre @ field_bytes (alloc j) (g, ptr)"
  have l: "off + tt_size g = length ?pre" "span gs \<le> length (drop (tt_size g) mid)" using conjunct2 [OF st] Cons.prems(4,5) by simp_all
  have "read_row alloc None row fs' (Suc j) (off + tt_size g) (?pre @ drop (tt_size g) mid, new_texts h (alloc j) (g, ptr) h') =
    Some (?pre @ concat (map (\<lambda>k. field_bytes (alloc (Suc j + k)) (slots gs ?p ! k)) [0..<length gs]) @ drop (span gs) (drop (tt_size g) mid),
      fold (\<lambda>k. new_texts h (alloc (Suc j + k)) (slots gs ?p ! k)) [0..<length gs] (new_texts h (alloc j) (g, ptr) h'))"
    by (rule Cons.IH [OF fs(2) ok(2) cs l(2,1)])
  then show ?case unfolding u using fs st by (simp add: wanted_def fold_map o_def add.commute del: upt_Suc)
qed


lemma slots_bytes:
  "length ptr = span gs \<Longrightarrow> (\<And>k. k < length gs \<Longrightarrow> length (B k) = tt_size (gs ! k)) \<Longrightarrow> ptr = concat (map B [0..<length gs]) \<Longrightarrow> k < length gs \<Longrightarrow>
   take (tt_size (gs ! k)) (snd (slots gs ptr ! k)) = B k"
proof (induction gs arbitrary: ptr B k)
  case (Cons g gs)
  have u: "[0..<length (g # gs)] = 0 # map Suc [0..<length gs]" by (simp add: upt_conv_Cons map_Suc_upt del: upt_Suc)
  have b: "length (B 0) = tt_size g" using Cons.prems(2) [of 0] by simp
  have p: "ptr = B 0 @ concat (map (\<lambda>a. B (Suc a)) [0..<length gs])" using Cons.prems(3) unfolding u by (simp add: o_def)
  show ?case
  proof (cases k)
    case 0
    then show ?thesis using p b by simp
  next
    case (Suc i)
    have "take (tt_size (gs ! i)) (snd (slots gs (drop (tt_size g) ptr) ! i)) = B (Suc i)"
    proof (rule Cons.IH)
      show "length (B (Suc k)) = tt_size (gs ! k)" if "k < length gs" for k using Cons.prems(2) [of "Suc k"] that by simp
    qed (use Cons.prems(1,4) p b Suc in auto)
    then show ?thesis using Suc by simp
  qed
qed simp

lemma slots_fst [simp]: "k < length gs \<Longrightarrow> fst (slots gs ptr ! k) = gs ! k"
  by (induction gs arbitrary: ptr k) (auto simp: nth_Cons split: nat.splits)

lemma fold_new_texts:
  assumes "inj_on alloc {..<m}" "k < n" "tt_sql_type (fst (s k)) = sql_text" "text_ptr (snd (s k)) \<noteq> Some 0"
  shows "n \<le> m \<Longrightarrow> fold (\<lambda>k. new_texts h (alloc k) (s k)) [0..<n] h' (alloc k) = text_ptr (snd (s k)) \<bind> cstring h"
  using assms(2)
proof (induction n)
  case (Suc n)
  show ?case
  proof (cases "k = n")
    case True
    then show ?thesis using assms(3,4) by (auto simp: new_texts_def split: prod.splits)
  next
    case False
    then have "alloc k \<noteq> alloc n" using assms(1) Suc.prems by (auto dest: inj_onD)
    then show ?thesis using False Suc by (auto simp: new_texts_def split: prod.splits)
  qed
qed simp

text \<open>The field of the struct that was read has the value of the field of the struct that was stored.\<close>

definition restored :: "blocks \<Rightarrow> blocks \<Rightarrow> table_tmpl \<times> u8 list \<Rightarrow> table_tmpl \<times> u8 list \<Rightarrow> bool" where
  "restored h h' s s' \<longleftrightarrow> fst s' = fst s \<and>
     (if tt_sql_type (fst s) = sql_text
      then (if text_ptr (snd s) = Some 0 then text_ptr (snd s') = Some 0
            else \<exists>a text. text_ptr (snd s) \<bind> cstring h = Some text \<and> text_ptr (snd s') = Some a \<and> a \<noteq> 0 \<and> h' a = Some text)
      else take (tt_size (fst s)) (snd s') = take (tt_size (fst s)) (snd s))"

lemma restored_row:
  assumes "\<forall>(f, p) \<in> set (slots gs obj). field_ok h f p" "length obj = span gs" "inj_on alloc {..<length gs}" "\<forall>k < length gs. alloc k \<noteq> 0"
    "out = concat (map (\<lambda>k. field_bytes (alloc k) (slots gs obj ! k)) [0..<length gs])" "k < length gs"
    "\<And>k. k < length gs \<Longrightarrow> length (field_bytes (alloc k) (slots gs obj ! k)) = tt_size (gs ! k)" "length out = span gs"
  shows "restored h (fold (\<lambda>k. new_texts h (alloc k) (slots gs obj ! k)) [0..<length gs] h') (slots gs obj ! k) (slots gs out ! k)"
proof -
  obtain p where s: "slots gs obj ! k = (gs ! k, p)" using slots_fst [OF assms(6)] by (metis prod.collapse)
  obtain q where q: "slots gs out ! k = (gs ! k, q)" using slots_fst [OF assms(6)] by (metis prod.collapse)
  have ok: "field_ok h (gs ! k) p" using assms(1,6) s by (metis (mono_tags, lifting) nth_mem slots_length case_prodD)
  have b: "take (tt_size (gs ! k)) q = field_bytes (alloc k) (gs ! k, p)"
    using slots_bytes [OF assms(8), of "\<lambda>k. field_bytes (alloc k) (slots gs obj ! k)", OF assms(7) assms(5,6)] s q by simp
  show ?thesis
  proof (cases "tt_sql_type (gs ! k) = sql_text")
    case False
    then show ?thesis using b s q by (simp add: restored_def field_bytes_def)
  next
    case True
    have z: "tt_size (gs ! k) = 8" "8 \<le> length p" using ok True by (simp_all add: field_ok_def)
    define w where "w = (if text_ptr p = Some 0 then 0 else unat (alloc k))"
    have t: "take 8 q = le_bytes 8 w" using b z True by (simp add: field_bytes_def w_def)
    then have "8 \<le> length q" by (metis le_bytes_length length_take min.absorb_iff2)
    moreover have "w < 2 ^ 64" unfolding w_def using unsigned_less [of "alloc k", where ?'a = nat] by simp
    then have "uint_val (le_bytes 8 w) = w" by (simp add: uint_val_bytes)
    ultimately have tq: "text_ptr q = Some (of_nat w)" using text_ptr_Some [of q] t by simp
    show ?thesis
    proof (cases "text_ptr p = Some 0")
      case True
      then show ?thesis using tq s q \<open>tt_sql_type (gs ! k) = sql_text\<close> by (simp add: restored_def w_def)
    next
      case False
      have "text_ptr p \<bind> cstring h \<noteq> None" using ok True False text_ptr_Some [OF z(2)] by (auto simp: field_ok_def)
      moreover have "fold (\<lambda>k. new_texts h (alloc k) (slots gs obj ! k)) [0..<length gs] h' (alloc k) = text_ptr p \<bind> cstring h"
        using fold_new_texts [OF assms(3,6), of "\<lambda>k. slots gs obj ! k" h h'] s True False by simp
      ultimately show ?thesis using tq s q True False assms(4,6) by (auto simp: restored_def w_def)
    qed
  qed
qed

lemma field_bytes_length: "field_ok h f p \<Longrightarrow> length (field_bytes a (f, p)) = tt_size f"
  by (auto simp: field_ok_def field_bytes_def split: sql_field_type.splits)


section \<open>Creating a table\<close>

lemma field_column:
  assumes "distinct (map fname gs)" "\<forall>g \<in> set gs. tt_name g \<noteq> None"
  shows "map (\<lambda>f. col) (filter (\<lambda>f. tt_name f = Some col) gs) = (if col \<in> fname ` set gs then [col] else [])"
  using assms
proof (induction gs)
  case (Cons g gs)
  then obtain n where n: "tt_name g = Some n" "n \<notin> fname ` set gs" by auto
  have "map (\<lambda>f. col) (filter (\<lambda>f. tt_name f = Some col) gs) = (if col \<in> fname ` set gs then [col] else [])" using Cons by simp
  then show ?case using n by auto
qed simp

lemma valid_names_exact:
  assumes "described gs fs" "find_table_cb info = Some columns"
  shows "valid_names columns fs = Some (filter (\<lambda>c. c \<in> fname ` set gs) (map fst (filter (\<lambda>c. \<not> snd c) info)))"
proof -
  have c: "columns = map (\<lambda>(name, pk). if pk then None else Some name) info" "length info \<le> 64" using assms(2) by (auto simp: find_table_cb_def split: if_splits)
  have t: "takeWhile (\<lambda>f. tt_sql_type f \<noteq> sql_end) fs = gs" using assms(1) by (auto simp: described_def takeWhile_append)
  have g: "map (\<lambda>f. col) (filter (\<lambda>f. tt_name f = Some col) gs) = (if col \<in> fname ` set gs then [col] else [])" for col
    using assms(1) by (intro field_column) (auto simp: described_def)
  have "concat (map (\<lambda>c. case c of None \<Rightarrow> [] | Some col \<Rightarrow> map (\<lambda>f. col) (filter (\<lambda>f. tt_name f = Some col) gs)) (map (\<lambda>(name, pk). if pk then None else Some name) info)) =
    filter (\<lambda>c. c \<in> fname ` set gs) (map fst (filter (\<lambda>c. \<not> snd c) info))"
    unfolding g by (induction info) auto
  moreover have "length (filter (\<lambda>c. c \<in> fname ` set gs) (map fst (filter (\<lambda>c. \<not> snd c) info))) \<le> 64"
  proof -
    have "length (filter (\<lambda>c. c \<in> fname ` set gs) (map fst (filter (\<lambda>c. \<not> snd c) info))) = length (filter (\<lambda>x. \<not> snd x \<and> fst x \<in> fname ` set gs) info)"
      by (simp add: filter_map o_def)
    also have "\<dots> \<le> 64" using c(2) by (rule order_trans [OF length_filter_le])
    finally show ?thesis .
  qed
  ultimately show ?thesis unfolding valid_names_def t c(1) by (simp add: Let_def)
qed

lemma create_columns_Some: "described gs fs \<Longrightarrow> gs \<noteq> [] \<Longrightarrow> \<exists>s. create_columns fs = Some s"
proof (induction gs arbitrary: fs)
  case (Cons g gs)
  from Cons.prems(1) obtain fs' n where fs: "fs = g # fs'" "described gs fs'" "tt_name g = Some n" by (rule described_Cons)
  show ?case using fs Cons.IH [OF fs(2)] described_ends [OF fs(2)] by (cases "gs = []") (auto simp: field_decl_def)
qed simp

text \<open>The statements of \<open>create_table\<close>, when nothing goes wrong.\<close>

definition creation :: "table_tmpl_desc \<Rightarrow> (string \<times> bool) list option \<Rightarrow> string list" where
  "creation t found = [master_query t, the (create_statement t)] @
     (case found of None \<Rightarrow> []
      | Some info \<Rightarrow> [copy_statement t (join '','' (filter (\<lambda>c. c \<in> {n. \<exists>g \<in> set (td_fields t). tt_name g = Some n \<and> tt_sql_type g \<noteq> sql_end}) (map fst (filter (\<lambda>c. \<not> snd c) info)))), drop_statement t]) @
     [rename_statement t]"

text \<open>A sequence of statements in which every one but the last has been accepted.\<close>

definition ran :: "(string \<Rightarrow> bool) \<Rightarrow> string list \<Rightarrow> l_err \<times> string list \<Rightarrow> bool" where
  "ran exec_ok plan r \<longleftrightarrow>
     (if fst r = LD_OK then snd r = plan \<and> (\<forall>s \<in> set plan. exec_ok s)
      else \<exists>before s after. plan = before @ s # after \<and> snd r = before @ [s] \<and> (\<forall>s \<in> set before. exec_ok s) \<and> \<not> exec_ok s)"

lemma ran_step: "ran exec_ok plan r \<Longrightarrow> \<exists>r'. then_run exec_ok (Some s) r = Some r' \<and> ran exec_ok (plan @ [s]) r'"
  by (cases r) (auto simp: ran_def then_run_def exec_statement_def)

lemma ran_mono: "ran exec_ok plan r \<Longrightarrow> fst r \<noteq> LD_OK \<Longrightarrow> ran exec_ok (plan @ rest) r"
  by (auto simp: ran_def)

lemma create_table_ran:
  assumes "described gs (td_fields t)" "gs \<noteq> []" "\<forall>s \<in> set (creation t found) - {the (create_statement t)}. length s < 128" "\<forall>info. found = Some info \<longrightarrow> length info \<le> 64"
  shows "\<exists>r. create_table True exec_ok found t = Some r \<and> ran exec_ok (creation t found) r"
proof -
  obtain cr where cr: "create_statement t = Some cr" using create_columns_Some [OF assms(1,2)] by (auto simp: create_statement_def)
  have eq: "{n. \<exists>g \<in> set (td_fields t). tt_name g = Some n \<and> tt_sql_type g \<noteq> sql_end} = fname ` set gs"
    using assms(1) by (force simp: described_def)
  have short: "sprintf128 s = Some s" if "s \<in> set (creation t found)" "hd s \<noteq> CHR ''C''" for s
    using assms(3) that cr by (auto simp: sprintf128_def create_statement_def)
  have "ran exec_ok [] (LD_OK, [])" by (simp add: ran_def)
  then obtain r1 where r1: "then_run exec_ok (sprintf128 (master_query t)) (LD_OK, []) = Some r1" "ran exec_ok [master_query t] r1"
    using ran_step [of exec_ok "[]" "(LD_OK, [])" "master_query t"] short [of "master_query t"] by (auto simp: creation_def master_query_def)
  then obtain r2 where r2: "then_run exec_ok (Some cr) r1 = Some r2" "ran exec_ok [master_query t, cr] r2" using ran_step [OF r1(2), of cr] by auto
  have ren: "sprintf128 (rename_statement t) = Some (rename_statement t)" by (rule short) (simp_all add: creation_def rename_statement_def)
  show ?thesis
  proof (cases found)
    case None
    then show ?thesis using r1 r2 cr ren ran_step [OF r2(2), of "rename_statement t"] by (auto simp: create_table_def creation_def)
  next
    case (Some info)
    define columns where "columns = map (\<lambda>(name, pk). if pk then None else Some name) info"
    have cb: "find_table_cb info = Some columns" using assms(4) Some by (simp add: find_table_cb_def columns_def)
    define cp where "cp = copy_statement t (join '','' (filter (\<lambda>c. c \<in> fname ` set gs) (map fst (filter (\<lambda>c. \<not> snd c) info))))"
    have plan: "creation t found = [master_query t, cr, cp, drop_statement t, rename_statement t]" unfolding creation_def eq Some cp_def by (simp add: cr)
    have sh: "sprintf128 cp = Some cp" "sprintf128 (drop_statement t) = Some (drop_statement t)"
      by (rule short, simp_all add: plan, simp add: cp_def copy_statement_def) (rule short, simp_all add: plan, simp add: drop_statement_def)
    show ?thesis
    proof (cases "fst r2 = LD_OK")
      case False
      then have "create_table True exec_ok found t = Some r2"
        using r1(1) r2(1) cr cb Some by (auto simp: create_table_def then_run_def migrate_def)
      then show ?thesis using ran_mono [OF r2(2) False, of "[cp, drop_statement t, rename_statement t]"] plan by simp
    next
      case True
      then have ok: "fst r1 = LD_OK" using r2(1) by (auto simp: then_run_def split: if_splits)
      obtain r3 where r3: "then_run exec_ok (Some cp) r2 = Some r3" "ran exec_ok [master_query t, cr, cp] r3" using ran_step [OF r2(2), of cp] by auto
      obtain r4 where r4: "then_run exec_ok (Some (drop_statement t)) r3 = Some r4" "ran exec_ok [master_query t, cr, cp, drop_statement t] r4" using ran_step [OF r3(2), of "drop_statement t"] by auto
      obtain r5 where r5: "then_run exec_ok (Some (rename_statement t)) r4 = Some r5" "ran exec_ok (creation t found) r5" using ran_step [OF r4(2), of "rename_statement t"] plan by auto
      have "migrate exec_ok columns t r2 = Some r4"
        unfolding migrate_def valid_names_exact [OF assms(1) cb] using True r3(1) r4(1) sh by (simp add: cp_def [symmetric])
      then have "create_table True exec_ok found t = Some r5" using r1(1) r2(1) r5(1) cr cb Some ok ren by (simp add: create_table_def)
      then show ?thesis using r5(2) by blast
    qed
  qed
qed



section \<open>Properties\<close>


definition id_field :: table_tmpl where
  "id_field = \<lparr>tt_sql_type = sql_integer, tt_size = 8, tt_name = Some ''ID'', tt_primary = True, tt_auto_increment = True, tt_not_null = False\<rparr>"

definition tag_field :: table_tmpl where
  "tag_field = \<lparr>tt_sql_type = sql_integer, tt_size = 2, tt_name = Some ''tag'', tt_primary = False, tt_auto_increment = False, tt_not_null = False\<rparr>"

definition text_field :: table_tmpl where
  "text_field = \<lparr>tt_sql_type = sql_text, tt_size = 8, tt_name = Some ''name'', tt_primary = False, tt_auto_increment = False, tt_not_null = False\<rparr>"

definition end_field :: table_tmpl where
  "end_field = \<lparr>tt_sql_type = sql_end, tt_size = 0, tt_name = None, tt_primary = False, tt_auto_increment = False, tt_not_null = False\<rparr>"

definition small_table :: table_tmpl_desc where
  "small_table = \<lparr>td_table_name = ''t'', td_fields = [id_field, tag_field, text_field, end_field], td_size = 18\<rparr>"

definition small_blocks :: blocks where
  "small_blocks = [64 \<mapsto> [CHR ''a'', CHR 0x00]]"

definition small_obj :: "u8 list" where
  "small_obj = [1, 0, 0, 0, 0, 0, 0, 0, 7, 0, 64, 0, 0, 0, 0, 0, 0, 0]"

lemmas small_defs = id_field_def tag_field_def text_field_def end_field_def small_table_def small_obj_def

lemma small_described: "described ([id_field] @ [tag_field, text_field]) (td_fields small_table)"
  by (simp add: described_def small_defs)

lemma small_ok: "\<forall>(f, p) \<in> set (slots ([id_field] @ [tag_field, text_field]) small_obj). field_ok small_blocks f p"
  by (simp add: small_defs field_ok_def text_ptr_def read_uint_def mem_read_def cstring_def small_blocks_def)



text \<open>
  What an update says. For any choice of fields to set and of fields in the condition, listed in the order of the
  description, with or without operators and connectives, the statement of \<open>update_value\<close> assigns to each chosen field
  the value at its place in the one struct and \<open>UpdatedAt\<close> the time, and its condition compares each chosen field with
  the value at its place in the other struct, joined by the connectives in order.
\<close>

theorem update_value_statement:
  assumes "described gs (td_fields t)" "\<forall>(f, p) \<in> set (slots gs obj). field_ok h f p" "\<forall>(f, p) \<in> set (slots gs wobj). field_ok h f p"
    "length cs = length (chosen Q gs)" "length (chosen Q gs) \<le> Suc (length ls)"
    "comps = None \<and> cs = replicate (length (chosen Q gs)) SQL_EQ \<or> comps = Some cs" "logics = None \<and> ls = replicate (length (chosen Q gs)) SQL_AND \<or> logics = Some ls"
  shows "update_value opened exec_ok fmt_f time h t (chosen P gs) obj (Some (chosen Q gs)) wobj comps logics = Some (open_exec opened exec_ok
    (''UPDATE '' @ td_table_name t @ '' SET '' @ concat (map (assignment fmt_f h) (chosen_slots P gs obj)) @ ''UpdatedAt = '' @ quote time @ '' '' @
     ''WHERE '' @ chain (map2 (condition fmt_f h) (chosen_slots Q gs wobj) cs) ls))"
  using set_clause_exact [OF assms(1,2), of fmt_f P] where_clause_exact [OF assms(4-7) assms(1,3), of 0 Q fmt_f]
  by (simp add: update_value_def update_statement_def where_part_def)

theorem update_value_statement_witness:
  "update_value True (\<lambda>_. True) (\<lambda>_. '''') ''now'' small_blocks small_table [''tag''] small_obj (Some [''ID'', ''name'']) small_obj (Some [SQL_ME, SQL_NEQ]) (Some [SQL_OR]) =
    Some (LD_OK, [''UPDATE t SET tag = 7, UpdatedAt = '' @ quote ''now'' @ '' WHERE ID >= 1 OR name <> '' @ quote ''a''])"
proof -
  let ?gs = "[id_field] @ [tag_field, text_field]"
  have k: "chosen (\<lambda>n. n = ''tag'') ?gs = [''tag'']" "chosen (\<lambda>n. n \<noteq> ''tag'') ?gs = [''ID'', ''name'']" by (simp_all add: small_defs)
  have d: "dec 7 = ''7''" "dec (Suc 0) = ''1''" by code_simp+
  show ?thesis
    using update_value_statement [OF small_described small_ok small_ok, of "[SQL_ME, SQL_NEQ]" "\<lambda>n. n \<noteq> ''tag''" "[SQL_OR]" "Some [SQL_ME, SQL_NEQ]" "Some [SQL_OR]" True "\<lambda>_. True" "\<lambda>_. ''''" "''now''" "\<lambda>n. n = ''tag''"]
    unfolding k
    by (simp add: small_defs open_exec_def exec_statement_def set_text_def where_text_def integer_text_def read_uint_def mem_read_def text_ptr_def cstring_def small_blocks_def assignment_def condition_def d)
qed


definition small_row :: "nat \<Rightarrow> column" where
  "small_row k = \<lparr>col_int = (if k = 0 then 1 else 7), col_double = [], col_text = Some ''a''\<rparr>"



text \<open>
  Property C16: creating a table never loses the old one. \<open>create_table\<close> runs its statements in a fixed order and stops at the first one that fails.
  If a table of that name exists, the statement that drops it runs only after SQLite has accepted the copy, which carries over exactly the old
  columns that are not the primary key and that the description still has, in their old order; this holds as long as every statement that goes
  through an array of 128 characters fits.
\<close>

theorem create_table_keeps_data:
  assumes "described gs (td_fields t)" "gs \<noteq> []" "length info \<le> 64"
    "\<forall>s \<in> {master_query t, copy_statement t (join '','' cols), drop_statement t, rename_statement t}. length s < 128"
    "cols = filter (\<lambda>c. c \<in> fname ` set gs) (map fst (filter (\<lambda>c. \<not> snd c) info))"
  shows "\<exists>cr r. create_statement t = Some cr \<and> create_table True exec_ok (Some info) t = Some r \<and>
    ran exec_ok [master_query t, cr, copy_statement t (join '','' cols), drop_statement t, rename_statement t] r"
proof -
  obtain cr where cr: "create_statement t = Some cr" using create_columns_Some [OF assms(1,2)] by (auto simp: create_statement_def)
  have eq: "{n. \<exists>g \<in> set (td_fields t). tt_name g = Some n \<and> tt_sql_type g \<noteq> sql_end} = fname ` set gs"
    using assms(1) by (force simp: described_def)
  have plan: "creation t (Some info) = [master_query t, cr, copy_statement t (join '','' cols), drop_statement t, rename_statement t]"
    by (simp add: creation_def eq cr assms(5))
  show ?thesis using create_table_ran [OF assms(1,2), of "Some info" exec_ok] assms(3,4) cr unfolding plan by auto
qed

theorem create_table_keeps_data_witness:
  "\<exists>r. create_table True (\<lambda>s. s \<noteq> drop_statement small_table) (Some [(''ID'', True), (''old'', False), (''tag'', False)]) small_table = Some r \<and>
    ran (\<lambda>s. s \<noteq> drop_statement small_table) [master_query small_table, the (create_statement small_table),
      ''INSERT INTO t_TEMP(tag) SELECT tag FROM t;'', drop_statement small_table, rename_statement small_table] r"
proof -
  let ?gs = "[id_field] @ [tag_field, text_field]" and ?info = "[(''ID'', True), (''old'', False), (''tag'', False)]"
  have c: "[''tag''] = filter (\<lambda>c. c \<in> fname ` set ?gs) (map fst (filter (\<lambda>c. \<not> snd c) ?info))" by (simp add: small_defs)
  have cp: "copy_statement small_table (join '','' [''tag'']) = ''INSERT INTO t_TEMP(tag) SELECT tag FROM t;''" by (simp add: copy_statement_def small_defs)
  have l: "\<forall>s \<in> {master_query small_table, copy_statement small_table (join '','' [''tag'']), drop_statement small_table, rename_statement small_table}. length s < 128"
    unfolding cp by (simp add: master_query_def drop_statement_def rename_statement_def small_defs quote_def)
  from create_table_keeps_data [OF small_described _ _ l c, of "\<lambda>s. s \<noteq> drop_statement small_table"] cp show ?thesis by auto
qed


section \<open>Where the statements go wrong\<close>

text \<open>With a field for the database to number at the end, the walk passes the sentinel.\<close>

lemma insert_auto_increment_last:
  assumes "\<forall>b \<in> set bs. \<not> tt_auto_increment b \<and> tt_sql_type b \<noteq> sql_end" "tt_auto_increment a" "tt_sql_type a \<noteq> sql_end"
    "td_fields t = bs @ [a, e]" "\<not> tt_auto_increment e" "tt_name e = None"
  shows "insert_value opened exec_ok fmt_f time h t obj = None"
proof -
  have "insert_names (bs @ [a, e]) = None" using assms(1)
  proof (induction bs)
    case Nil
    then show ?case using assms(2,5,6) by simp
  next
    case (Cons b bs)
    then have "ends (bs @ [a, e]) = Some False" using assms(3) by (cases bs) (simp_all add: ends_def)
    then show ?case using Cons by (cases "tt_name b") simp_all
  qed
  then show ?thesis using assms(4) by (simp add: insert_value_def insert_statement_def)
qed

text \<open>With such a field in the middle, there are more names than values.\<close>

lemma insert_auto_increment_middle:
  "insert_statement (\<lambda>_. '''') '''' Map.empty \<lparr>td_table_name = ''t'', td_fields = [tag_field, id_field, tag_field, end_field], td_size = 12\<rparr> (7 # replicate 11 0) =
    Some (''INSERT INTO t (tag, tag) VALUES (7);'')"
proof -
  have "dec 7 = ''7''" by code_simp
  then show ?thesis by (simp add: insert_statement_def small_defs ends_def insert_text_def integer_text_def read_uint_def mem_read_def)
qed

text \<open>Quotes in a text are not escaped: the rest of the text is read as SQL.\<close>

lemma insert_text_injection:
  assumes "tt_sql_type f = sql_text" "tt_name f = Some n" "n \<noteq> ''CreatedAt''" "n \<noteq> ''UpdatedAt''"
    "text_ptr p = Some a" "a \<noteq> 0" "cstring h a = Some ([CHR 0x27] @ '');'' @ sql @ ''--'')"
  shows "insert_text fmt_f time h f p = Some ([CHR 0x27, CHR 0x27] @ '');'' @ sql @ ''--'' @ [CHR 0x27])"
  using assms by (simp add: insert_text_def quote_def)

text \<open>The copy of a larger table overflows its array.\<close>

lemma create_table_overflows:
  assumes "opened" "exec_ok (master_query t)" "length (master_query t) < 128" "create_statement t = Some cr" "exec_ok cr"
    "find_table_cb info = Some columns" "valid_names columns (td_fields t) = Some names" "128 \<le> length (copy_statement t (join '','' names))"
  shows "create_table opened exec_ok (Some info) t = None"
  using assms by (simp add: create_table_def then_run_def sprintf128_def exec_statement_def migrate_def)

text \<open>A text that was read from a row has no terminator, and cannot be stored again.\<close>

lemma selected_text_unterminated:
  assumes "restored h h' (f, p) (f, q)" "tt_sql_type f = sql_text" "text_ptr p = Some a" "a \<noteq> 0" "tt_name f = Some n" "n \<noteq> ''CreatedAt''" "n \<noteq> ''UpdatedAt''"
  shows "insert_text fmt_f time h' f q = None"
proof -
  obtain b s where b: "cstring h a = Some s" "text_ptr q = Some b" "b \<noteq> 0" "h' b = Some s" using assms(1-4) by (auto simp: restored_def)
  then have "CHR 0x00 \<notin> set s" by (auto simp: cstring_def dest: set_takeWhileD split: option.splits if_splits)
  then show ?thesis using b assms by (simp add: insert_text_def cstring_def)
qed

end
