(* ===== verification/Config.thy ===== *)
theory Config
  imports Prelude
begin

text \<open>
  The configuration files of src/src/ld_config.c. The library libyaml turns a file into events; the
  parser reacts to one event at a time and remembers the key whose value is still to come and
  whether it is inside the list of peers. The events of a file are the argument of the model. A configuration
  that is refused ends the process.
\<close>

section \<open>Configurations\<close>

datatype ldacs_roles = LD_UNDEFINED | LD_AS | LD_GS | LD_GSC | LD_SGW | LD_ATTACK

record peer_gs =
  pg_addr :: string
  pg_port :: int
  pg_SAC :: u32

text \<open>The fields a file can set; \<open>'d\<close> are the doubles.\<close>

record 'd config_t =
  cf_debug :: bool
  cf_role :: ldacs_roles
  cf_init_fl_freq :: 'd
  cf_init_rl_freq :: 'd
  cf_addr :: string
  cf_port :: u16
  cf_gsnf_addr :: string
  cf_gsnf_addr_v6 :: string
  cf_gsnf_local_port :: u16
  cf_gsnf_remote_port :: u16
  cf_peer_server_port :: u16
  cf_peers :: "peer_gs option list"
  cf_peer_count :: nat
  cf_http_port :: u16
  cf_auto_auth :: bool
  cf_UA :: u32
  cf_GS_SAC :: u16
  cf_AS_SAC :: u16
  cf_start_longitude :: 'd
  cf_start_latitude :: 'd
  cf_refer_longitude :: 'd
  cf_refer_latitude :: 'd

record parse_context =
  pc_current_key :: "string option"
  pc_seq_is_peers :: bool
  pc_seq_is_direct_gs :: bool

datatype yaml_event =
    YAML_NO_EVENT | YAML_STREAM_START_EVENT | YAML_STREAM_END_EVENT | YAML_DOCUMENT_START_EVENT | YAML_DOCUMENT_END_EVENT
  | YAML_ALIAS_EVENT | YAML_SCALAR_EVENT string | YAML_SEQUENCE_START_EVENT | YAML_SEQUENCE_END_EVENT
  | YAML_MAPPING_START_EVENT | YAML_MAPPING_END_EVENT

text \<open>The process goes on with a value, or \<open>exit\<close> is called.\<close>

datatype 'a outcome = Going 'a | Exited

definition init_config :: "'d config_t \<Rightarrow> 'd config_t" where
  "init_config config = config\<lparr>cf_peers := replicate 10 None, cf_peer_count := 0\<rparr>"


section \<open>The parser\<close>

text \<open>\<open>strcpy\<close> into an array of \<open>n\<close> characters.\<close>

definition strcpy :: "nat \<Rightarrow> string \<Rightarrow> string option" where
  "strcpy n s = (if length s < n then Some s else None)"

definition read_role :: "string \<Rightarrow> ldacs_roles outcome" where
  "read_role s =
     (if s = ''as'' then Going LD_AS
      else if s = ''gs'' then Going LD_GS
      else if s = ''gsc'' then Going LD_GSC
      else if s = ''sgw'' then Going LD_SGW
      else if s = ''attack'' then Going LD_ATTACK
      else Exited)"

text \<open>The peer that is being read is the one at the position \<open>peer_count\<close>; ten pointers are there.\<close>

definition update_peer :: "(peer_gs \<Rightarrow> peer_gs option) \<Rightarrow> 'd config_t \<Rightarrow> 'd config_t option" where
  "update_peer f config =
     (if cf_peer_count config < length (cf_peers config) then do {
        p \<leftarrow> cf_peers config ! cf_peer_count config;
        p \<leftarrow> f p;
        Some (config\<lparr>cf_peers := (cf_peers config)[cf_peer_count config := Some p]\<rparr>)
      } else None)"

text \<open>\<open>atof\<close> and \<open>strtof\<close> read a number with a fraction; the key is \<open>current_key\<close>.\<close>

definition handle_value :: "(string \<Rightarrow> 'd) \<Rightarrow> (string \<Rightarrow> 'd) \<Rightarrow> 'd config_t \<Rightarrow> parse_context \<Rightarrow> string \<Rightarrow> string \<Rightarrow> 'd config_t outcome option" where
  "handle_value atof strtof config ctx key val =
     (if key = ''role'' then (case read_role val of Exited \<Rightarrow> Some Exited | Going r \<Rightarrow> Some (Going (config\<lparr>cf_role := r\<rparr>)))
      else if key = ''UA'' then map_option (\<lambda>n. Going (config\<lparr>cf_UA := of_int n\<rparr>)) (atoi val)
      else if key = ''GS-SAC'' then map_option (\<lambda>n. Going (config\<lparr>cf_GS_SAC := of_int n\<rparr>)) (atoi val)
      else if key = ''AS-SAC'' then map_option (\<lambda>n. Going (config\<lparr>cf_AS_SAC := of_int n\<rparr>)) (atoi val)
      else if key = ''port'' then map_option (\<lambda>n. Going (config\<lparr>cf_port := of_int n\<rparr>)) (atoi val)
      else if key = ''ipv6_address'' then map_option (\<lambda>s. Going (config\<lparr>cf_addr := s\<rparr>)) (strcpy 16 val)
      else if key = ''gsnf_local_port'' then map_option (\<lambda>n. Going (config\<lparr>cf_gsnf_local_port := of_int n\<rparr>)) (atoi val)
      else if key = ''gsnf_remote_port'' then map_option (\<lambda>n. Going (config\<lparr>cf_gsnf_remote_port := of_int n\<rparr>)) (atoi val)
      else if key = ''peer_server_port'' then map_option (\<lambda>n. Going (config\<lparr>cf_peer_server_port := of_int n\<rparr>)) (atoi val)
      else if key = ''gsnf_addr'' then map_option (\<lambda>s. Going (config\<lparr>cf_gsnf_addr := s\<rparr>)) (strcpy 16 val)
      else if key = ''gsnf_addr_v6'' then map_option (\<lambda>s. Going (config\<lparr>cf_gsnf_addr_v6 := s\<rparr>)) (strcpy 128 val)
      else if key = ''http_port'' then map_option (\<lambda>n. Going (config\<lparr>cf_http_port := of_int n\<rparr>)) (atoi val)
      else if key = ''auto_auth'' then map_option (\<lambda>n. Going (config\<lparr>cf_auto_auth := (n = 1)\<rparr>)) (atoi val)
      else if key = ''debug'' then map_option (\<lambda>n. Going (config\<lparr>cf_debug := (n \<noteq> 0)\<rparr>)) (atoi val)
      else if key = ''init_fl_freq'' then Some (Going (config\<lparr>cf_init_fl_freq := atof val\<rparr>))
      else if key = ''init_rl_freq'' then Some (Going (config\<lparr>cf_init_rl_freq := atof val\<rparr>))
      else if key = ''start-longitude'' then Some (Going (config\<lparr>cf_start_longitude := strtof val\<rparr>))
      else if key = ''start-latitude'' then Some (Going (config\<lparr>cf_start_latitude := strtof val\<rparr>))
      else if key = ''refer-longitude'' then Some (Going (config\<lparr>cf_refer_longitude := strtof val\<rparr>))
      else if key = ''refer-latitude'' then Some (Going (config\<lparr>cf_refer_latitude := strtof val\<rparr>))
      else if key = ''peer_addr'' then
        (if pc_seq_is_peers ctx then map_option Going (update_peer (\<lambda>p. map_option (\<lambda>s. p\<lparr>pg_addr := s\<rparr>) (strcpy 128 val)) config) else Some (Going config))
      else if key = ''peer_SAC'' then
        (if pc_seq_is_peers ctx then map_option Going (update_peer (\<lambda>p. map_option (\<lambda>n. p\<lparr>pg_SAC := of_int n\<rparr>) (atoi val)) config) else Some (Going config))
      else if key = ''peer_port'' then
        (if pc_seq_is_peers ctx then map_option Going (update_peer (\<lambda>p. map_option (\<lambda>n. p\<lparr>pg_port := n\<rparr>) (atoi val)) config) else Some (Going config))
      else Some Exited)"

definition new_peer :: peer_gs where
  "new_peer = \<lparr>pg_addr = '''', pg_port = 0, pg_SAC = 0\<rparr>"

fun event_switch :: "(string \<Rightarrow> 'd) \<Rightarrow> (string \<Rightarrow> 'd) \<Rightarrow> 'd config_t \<times> parse_context \<Rightarrow> yaml_event \<Rightarrow> ('d config_t \<times> parse_context) outcome option" where
  "event_switch atof strtof (config, ctx) YAML_STREAM_START_EVENT = Some (Going (config, ctx))"
| "event_switch atof strtof (config, ctx) YAML_STREAM_END_EVENT = Some (Going (config, ctx))"
| "event_switch atof strtof (config, ctx) YAML_DOCUMENT_START_EVENT = Some (Going (config, ctx))"
| "event_switch atof strtof (config, ctx) YAML_DOCUMENT_END_EVENT = Some (Going (config, ctx))"
| "event_switch atof strtof (config, ctx) YAML_SEQUENCE_START_EVENT =
     (case pc_current_key ctx of None \<Rightarrow> None
      | Some key \<Rightarrow> Some (Going (config, ctx\<lparr>pc_seq_is_peers := pc_seq_is_peers ctx \<or> key = ''peers'', pc_seq_is_direct_gs := pc_seq_is_direct_gs ctx \<or> key = ''direct-gs''\<rparr>)))"
| "event_switch atof strtof (config, ctx) YAML_SEQUENCE_END_EVENT = Some (Going (config, ctx\<lparr>pc_seq_is_peers := False, pc_seq_is_direct_gs := False\<rparr>))"
| "event_switch atof strtof (config, ctx) YAML_MAPPING_START_EVENT =
     (if pc_seq_is_peers ctx then
        (if cf_peer_count config < length (cf_peers config)
         then Some (Going (config\<lparr>cf_peers := (cf_peers config)[cf_peer_count config := Some new_peer]\<rparr>, ctx\<lparr>pc_current_key := None\<rparr>))
         else None)
      else Some (Going (config, ctx\<lparr>pc_current_key := None\<rparr>)))"
| "event_switch atof strtof (config, ctx) YAML_MAPPING_END_EVENT =
     Some (Going ((if pc_seq_is_peers ctx then config\<lparr>cf_peer_count := cf_peer_count config + 1\<rparr> else config), ctx))"
| "event_switch atof strtof (config, ctx) YAML_ALIAS_EVENT = Some Exited"
| "event_switch atof strtof (config, ctx) (YAML_SCALAR_EVENT val) =
     (case pc_current_key ctx of
        None \<Rightarrow> Some (Going (config, ctx\<lparr>pc_current_key := Some val\<rparr>))
      | Some key \<Rightarrow> (case handle_value atof strtof config ctx key val of
            None \<Rightarrow> None
          | Some Exited \<Rightarrow> Some Exited
          | Some (Going config) \<Rightarrow> Some (Going (config, ctx\<lparr>pc_current_key := None\<rparr>))))"
| "event_switch atof strtof (config, ctx) YAML_NO_EVENT = Some Exited"

text \<open>The loop of \<open>parser\<close>. When libyaml reports an error instead of an event, the list ends, and the process too.\<close>

fun parse_events :: "(string \<Rightarrow> 'd) \<Rightarrow> (string \<Rightarrow> 'd) \<Rightarrow> 'd config_t \<times> parse_context \<Rightarrow> yaml_event list \<Rightarrow> ('d config_t \<times> parse_context) outcome option" where
  "parse_events atof strtof s [] = Some Exited"
| "parse_events atof strtof s (e # es) =
     (case event_switch atof strtof s e of
        None \<Rightarrow> None
      | Some Exited \<Rightarrow> Some Exited
      | Some (Going s) \<Rightarrow> if e = YAML_STREAM_END_EVENT then Some (Going s) else parse_events atof strtof s es)"

definition parse_config :: "(string \<Rightarrow> 'd) \<Rightarrow> (string \<Rightarrow> 'd) \<Rightarrow> 'd config_t \<Rightarrow> yaml_event list \<Rightarrow> 'd config_t outcome option" where
  "parse_config atof strtof config es =
     (case parse_events atof strtof (init_config config, \<lparr>pc_current_key = None, pc_seq_is_peers = False, pc_seq_is_direct_gs = False\<rparr>) es of
        None \<Rightarrow> None
      | Some Exited \<Rightarrow> Some Exited
      | Some (Going s) \<Rightarrow> Some (Going (fst s)))"


section \<open>Writing a configuration\<close>

lemma handle_keys:
  "handle_value a f c x ''role'' v = (case read_role v of Exited \<Rightarrow> Some Exited | Going r \<Rightarrow> Some (Going (c\<lparr>cf_role := r\<rparr>)))"
  "handle_value a f c x ''UA'' v = map_option (\<lambda>n. Going (c\<lparr>cf_UA := of_int n\<rparr>)) (atoi v)"
  "handle_value a f c x ''GS-SAC'' v = map_option (\<lambda>n. Going (c\<lparr>cf_GS_SAC := of_int n\<rparr>)) (atoi v)"
  "handle_value a f c x ''AS-SAC'' v = map_option (\<lambda>n. Going (c\<lparr>cf_AS_SAC := of_int n\<rparr>)) (atoi v)"
  "handle_value a f c x ''port'' v = map_option (\<lambda>n. Going (c\<lparr>cf_port := of_int n\<rparr>)) (atoi v)"
  "handle_value a f c x ''ipv6_address'' v = map_option (\<lambda>s. Going (c\<lparr>cf_addr := s\<rparr>)) (strcpy 16 v)"
  "handle_value a f c x ''gsnf_local_port'' v = map_option (\<lambda>n. Going (c\<lparr>cf_gsnf_local_port := of_int n\<rparr>)) (atoi v)"
  "handle_value a f c x ''gsnf_remote_port'' v = map_option (\<lambda>n. Going (c\<lparr>cf_gsnf_remote_port := of_int n\<rparr>)) (atoi v)"
  "handle_value a f c x ''peer_server_port'' v = map_option (\<lambda>n. Going (c\<lparr>cf_peer_server_port := of_int n\<rparr>)) (atoi v)"
  "handle_value a f c x ''gsnf_addr'' v = map_option (\<lambda>s. Going (c\<lparr>cf_gsnf_addr := s\<rparr>)) (strcpy 16 v)"
  "handle_value a f c x ''gsnf_addr_v6'' v = map_option (\<lambda>s. Going (c\<lparr>cf_gsnf_addr_v6 := s\<rparr>)) (strcpy 128 v)"
  "handle_value a f c x ''http_port'' v = map_option (\<lambda>n. Going (c\<lparr>cf_http_port := of_int n\<rparr>)) (atoi v)"
  "handle_value a f c x ''auto_auth'' v = map_option (\<lambda>n. Going (c\<lparr>cf_auto_auth := (n = 1)\<rparr>)) (atoi v)"
  "handle_value a f c x ''debug'' v = map_option (\<lambda>n. Going (c\<lparr>cf_debug := (n \<noteq> 0)\<rparr>)) (atoi v)"
  "handle_value a f c x ''init_fl_freq'' v = Some (Going (c\<lparr>cf_init_fl_freq := a v\<rparr>))"
  "handle_value a f c x ''init_rl_freq'' v = Some (Going (c\<lparr>cf_init_rl_freq := a v\<rparr>))"
  "handle_value a f c x ''start-longitude'' v = Some (Going (c\<lparr>cf_start_longitude := f v\<rparr>))"
  "handle_value a f c x ''start-latitude'' v = Some (Going (c\<lparr>cf_start_latitude := f v\<rparr>))"
  "handle_value a f c x ''refer-longitude'' v = Some (Going (c\<lparr>cf_refer_longitude := f v\<rparr>))"
  "handle_value a f c x ''refer-latitude'' v = Some (Going (c\<lparr>cf_refer_latitude := f v\<rparr>))"
  "handle_value a f c x ''peer_addr'' v = (if pc_seq_is_peers x then map_option Going (update_peer (\<lambda>p. map_option (\<lambda>s. p\<lparr>pg_addr := s\<rparr>) (strcpy 128 v)) c) else Some (Going c))"
  "handle_value a f c x ''peer_SAC'' v = (if pc_seq_is_peers x then map_option Going (update_peer (\<lambda>p. map_option (\<lambda>n. p\<lparr>pg_SAC := of_int n\<rparr>) (atoi v)) c) else Some (Going c))"
  "handle_value a f c x ''peer_port'' v = (if pc_seq_is_peers x then map_option Going (update_peer (\<lambda>p. map_option (\<lambda>n. p\<lparr>pg_port := n\<rparr>) (atoi v)) c) else Some (Going c))"
  by (simp_all add: handle_value_def)

definition pair :: "string \<times> string \<Rightarrow> yaml_event list" where
  "pair kv = [YAML_SCALAR_EVENT (fst kv), YAML_SCALAR_EVENT (snd kv)]"

fun assign :: "(string \<Rightarrow> 'd) \<Rightarrow> (string \<Rightarrow> 'd) \<Rightarrow> parse_context \<Rightarrow> (string \<times> string) list \<Rightarrow> 'd config_t \<Rightarrow> 'd config_t option" where
  "assign a f x [] c = Some c"
| "assign a f x ((k, v) # kvs) c = (case handle_value a f c x k v of Some (Going c') \<Rightarrow> assign a f x kvs c' | _ \<Rightarrow> None)"

text \<open>Whether the handling of a value depends on the key that is being read.\<close>

lemma handle_value_ctx: "pc_seq_is_peers x = pc_seq_is_peers y \<Longrightarrow> handle_value a f c x k v = handle_value a f c y k v"
  by (simp add: handle_value_def)

lemma parse_pairs:
  "assign a f x kvs c = Some c' \<Longrightarrow> pc_current_key x = None \<Longrightarrow>
   parse_events a f (c, x) (concat (map pair kvs) @ es) = parse_events a f (c', x) es"
proof (induction kvs arbitrary: c)
  case (Cons kv kvs)
  obtain k v where kv: "kv = (k, v)" by force
  have h: "handle_value a f c (x\<lparr>pc_current_key := Some k\<rparr>) k v = handle_value a f c x k v" by (rule handle_value_ctx) simp
  have x: "x\<lparr>pc_current_key := None\<rparr> = x" using Cons.prems(2) by (cases x) simp
  obtain c1 where c1: "handle_value a f c x k v = Some (Going c1)" "assign a f x kvs c1 = Some c'" using Cons.prems(1) by (auto simp: kv split: option.splits outcome.splits)
  have "parse_events a f (c, x) (concat (map pair (kv # kvs)) @ es) = parse_events a f (c1, x\<lparr>pc_current_key := None\<rparr>) (concat (map pair kvs) @ es)"
    using Cons.prems(2) h c1(1) by (simp add: kv pair_def)
  then show ?case unfolding x using Cons.IH [OF c1(2) Cons.prems(2)] by simp
qed simp

definition peer_pairs :: "peer_gs \<Rightarrow> (string \<times> string) list" where
  "peer_pairs p = [(''peer_addr'', pg_addr p), (''peer_port'', dec (nat (pg_port p))), (''peer_SAC'', dec (unat (pg_SAC p)))]"

definition peer_events :: "peer_gs \<Rightarrow> yaml_event list" where
  "peer_events p = YAML_MAPPING_START_EVENT # concat (map pair (peer_pairs p)) @ [YAML_MAPPING_END_EVENT]"

definition peer_ok :: "peer_gs \<Rightarrow> bool" where
  "peer_ok p \<longleftrightarrow> length (pg_addr p) < 128 \<and> 0 \<le> pg_port p \<and> pg_port p < 2 ^ 31 \<and> unat (pg_SAC p) < 2 ^ 31"

lemma assign_peer:
  assumes "pc_seq_is_peers x" "peer_ok p" "cf_peer_count c < length (cf_peers c)" "cf_peers c ! cf_peer_count c = Some q"
  shows "assign a f x (peer_pairs p) c = Some (c\<lparr>cf_peers := (cf_peers c)[cf_peer_count c := Some p]\<rparr>)"
proof -
  have n: "atoi (dec (nat (pg_port p))) = Some (pg_port p)" "atoi (dec (unat (pg_SAC p))) = Some (int (unat (pg_SAC p)))"
    using assms(2) atoi_dec [of "nat (pg_port p)"] atoi_dec [of "unat (pg_SAC p)"] by (simp_all add: peer_ok_def nat_less_iff)
  have s: "strcpy 128 (pg_addr p) = Some (pg_addr p)" using assms(2) by (simp add: peer_ok_def strcpy_def)
  have q: "q\<lparr>pg_addr := pg_addr p, pg_port := pg_port p, pg_SAC := pg_SAC p\<rparr> = p" by (cases q; cases p) simp
  show ?thesis using assms(1,3,4) by (simp add: peer_pairs_def handle_keys update_peer_def n s q)
qed

lemma parse_peers:
  "\<forall>p \<in> set ps. peer_ok p \<Longrightarrow> pc_seq_is_peers x \<Longrightarrow> cf_peers c = pre @ replicate m None \<Longrightarrow> cf_peer_count c = length pre \<Longrightarrow> length ps \<le> m \<Longrightarrow>
   parse_events a f (c, x) (concat (map peer_events ps) @ es) =
     parse_events a f (c\<lparr>cf_peers := pre @ map Some ps @ replicate (m - length ps) None, cf_peer_count := length pre + length ps\<rparr>,
       (if ps = [] then x else x\<lparr>pc_current_key := None\<rparr>)) es"
proof (induction ps arbitrary: c x pre m)
  case Nil
  then have "c\<lparr>cf_peers := pre @ replicate m None, cf_peer_count := length pre\<rparr> = c" by (metis config_t.surjective config_t.update_convs(12,13))
  then show ?case by simp
next
  case (Cons p ps)
  obtain m' where m: "m = Suc m'" using Cons.prems(5) by (cases m) auto
  let ?x = "x\<lparr>pc_current_key := None\<rparr>"
  let ?c = "c\<lparr>cf_peers := pre @ Some new_peer # replicate m' None\<rparr>" and ?c' = "c\<lparr>cf_peers := (pre @ [Some p]) @ replicate m' None, cf_peer_count := length (pre @ [Some p])\<rparr>"
  have a: "assign a f ?x (peer_pairs p) ?c = Some (?c\<lparr>cf_peers := (cf_peers ?c)[cf_peer_count ?c := Some p]\<rparr>)"
    using Cons.prems by (intro assign_peer [of _ _ _ new_peer]) auto
  have "parse_events a f (c, x) (concat (map peer_events (p # ps)) @ es) =
    parse_events a f (?c, ?x) (concat (map pair (peer_pairs p)) @ YAML_MAPPING_END_EVENT # concat (map peer_events ps) @ es)"
    using Cons.prems m by (simp add: peer_events_def)
  also have "\<dots> = parse_events a f (?c', ?x) (concat (map peer_events ps) @ es)"
    using parse_pairs [OF a] Cons.prems by simp
  finally show ?case using Cons.IH [of ?x ?c' "pre @ [Some p]" m'] Cons.prems m by simp
qed

lemma unat_u16_less: "unat (w :: u16) < 2 ^ 31"
  using unsigned_less [of w, where ?'a = nat] by simp


lemma atoi_u16: "atoi (dec (unat (w :: u16))) = Some (int (unat w))"
  by (rule atoi_dec [OF unat_u16_less])

definition role_text :: "ldacs_roles \<Rightarrow> string" where
  "role_text r = (case r of LD_UNDEFINED \<Rightarrow> '''' | LD_AS \<Rightarrow> ''as'' | LD_GS \<Rightarrow> ''gs'' | LD_GSC \<Rightarrow> ''gsc'' | LD_SGW \<Rightarrow> ''sgw'' | LD_ATTACK \<Rightarrow> ''attack'')"

lemma read_role_text: "r \<noteq> LD_UNDEFINED \<Longrightarrow> read_role (role_text r) = Going r"
  by (cases r) (simp_all add: read_role_def role_text_def)

definition bit_text :: "bool \<Rightarrow> string" where
  "bit_text b = (if b then ''1'' else ''0'')"

lemma atoi_bit: "atoi (bit_text b) = Some (if b then 1 else 0)"
proof -
  have "dec 1 = ''1''" "dec 0 = ''0''" by code_simp+
  then show ?thesis using atoi_dec [of 1] atoi_dec [of 0] by (simp add: bit_text_def)
qed

text \<open>The file of a configuration: the plain fields, grouped as in the code, and the list of peers.\<close>

definition plain_pairs :: "('d \<Rightarrow> string) \<Rightarrow> ('d \<Rightarrow> string) \<Rightarrow> 'd config_t \<Rightarrow> (string \<times> string) list" where
  "plain_pairs fa ff c =
    [(''role'', role_text (cf_role c)), (''UA'', dec (unat (cf_UA c))), (''GS-SAC'', dec (unat (cf_GS_SAC c))), (''AS-SAC'', dec (unat (cf_AS_SAC c))),
     (''port'', dec (unat (cf_port c))), (''ipv6_address'', cf_addr c), (''gsnf_local_port'', dec (unat (cf_gsnf_local_port c))),
     (''gsnf_remote_port'', dec (unat (cf_gsnf_remote_port c))), (''peer_server_port'', dec (unat (cf_peer_server_port c))),
     (''gsnf_addr'', cf_gsnf_addr c), (''gsnf_addr_v6'', cf_gsnf_addr_v6 c), (''http_port'', dec (unat (cf_http_port c))),
     (''auto_auth'', bit_text (cf_auto_auth c)), (''debug'', bit_text (cf_debug c)), (''init_fl_freq'', fa (cf_init_fl_freq c)), (''init_rl_freq'', fa (cf_init_rl_freq c)),
     (''start-longitude'', ff (cf_start_longitude c)), (''start-latitude'', ff (cf_start_latitude c)), (''refer-longitude'', ff (cf_refer_longitude c)), (''refer-latitude'', ff (cf_refer_latitude c))]"

definition peers_events :: "peer_gs list \<Rightarrow> yaml_event list" where
  "peers_events ps = (if ps = [] then [] else [YAML_SCALAR_EVENT ''peers'', YAML_SEQUENCE_START_EVENT] @ concat (map peer_events ps) @ [YAML_SEQUENCE_END_EVENT])"

definition config_events :: "('d \<Rightarrow> string) \<Rightarrow> ('d \<Rightarrow> string) \<Rightarrow> peer_gs list \<Rightarrow> 'd config_t \<Rightarrow> yaml_event list" where
  "config_events fa ff ps c = [YAML_STREAM_START_EVENT, YAML_DOCUMENT_START_EVENT, YAML_MAPPING_START_EVENT] @ peers_events ps @ concat (map pair (plain_pairs fa ff c)) @
     [YAML_MAPPING_END_EVENT, YAML_DOCUMENT_END_EVENT, YAML_STREAM_END_EVENT]"

definition config_ok :: "peer_gs list \<Rightarrow> 'd config_t \<Rightarrow> bool" where
  "config_ok ps c \<longleftrightarrow> (\<forall>p \<in> set ps. peer_ok p) \<and> length ps \<le> 10 \<and> cf_peers c = map Some ps @ replicate (10 - length ps) None \<and> cf_peer_count c = length ps \<and>
     cf_role c \<noteq> LD_UNDEFINED \<and> unat (cf_UA c) < 2 ^ 31 \<and> length (cf_addr c) < 16 \<and> length (cf_gsnf_addr c) < 16 \<and> length (cf_gsnf_addr_v6 c) < 128"

text \<open>The fields a plain pair sets, from a configuration that has the peers already.\<close>

lemma assign_plain:
  assumes "config_ok ps c" "\<And>d. a (fa d) = d" "\<And>d. f (ff d) = d" "cf_peers c0 = cf_peers c" "cf_peer_count c0 = cf_peer_count c" "\<not> pc_seq_is_peers x"
  shows "assign a f x (plain_pairs fa ff c) c0 = Some c"
proof -
  have s: "strcpy 16 (cf_addr c) = Some (cf_addr c)" "strcpy 16 (cf_gsnf_addr c) = Some (cf_gsnf_addr c)" "strcpy 128 (cf_gsnf_addr_v6 c) = Some (cf_gsnf_addr_v6 c)"
    using assms(1) by (simp_all add: config_ok_def strcpy_def)
  have u: "atoi (dec (unat (cf_UA c))) = Some (int (unat (cf_UA c)))" using assms(1) by (intro atoi_dec) (simp add: config_ok_def)
  have r: "read_role (role_text (cf_role c)) = Going (cf_role c)" using assms(1) by (intro read_role_text) (simp add: config_ok_def)

  show ?thesis using assms(4,5) unfolding plain_pairs_def
    by (cases c; cases c0) (use s u r in \<open>simp add: handle_keys atoi_u16 atoi_bit assms(2,3)\<close>)
qed


section \<open>Files that are not read\<close>

definition blank_context :: parse_context where
  "blank_context = \<lparr>pc_current_key = None, pc_seq_is_peers = False, pc_seq_is_direct_gs = False\<rparr>"

text \<open>The events of a file up to the end of some plain pairs.\<close>

definition file_start :: "(string \<times> string) list \<Rightarrow> yaml_event list" where
  "file_start kvs = [YAML_STREAM_START_EVENT, YAML_DOCUMENT_START_EVENT, YAML_MAPPING_START_EVENT] @ concat (map pair kvs)"

lemma parse_file_start:
  assumes "assign a f blank_context kvs (init_config c) = Some c'"
  shows "parse_events a f (init_config c, blank_context) (file_start kvs @ es) = parse_events a f (c', blank_context) es"
  using parse_pairs [OF assms, of es] by (simp add: file_start_def blank_context_def)

text \<open>An empty list of peers leaves its key behind, and the next key is taken for its value.\<close>

lemma empty_peers_exit:
  assumes "assign a f blank_context kvs (init_config c) = Some c'"
  shows "parse_config a f c (file_start kvs @ [YAML_SCALAR_EVENT ''peers'', YAML_SEQUENCE_START_EVENT, YAML_SEQUENCE_END_EVENT, YAML_SCALAR_EVENT key] @ es) = Some Exited"
  unfolding parse_config_def blank_context_def [symmetric] parse_file_start [OF assms] by (simp add: blank_context_def handle_value_def)

text \<open>A list of plain values ends the process at its first value.\<close>

lemma plain_sequence_exits:
  assumes "assign a f blank_context kvs (init_config c) = Some c'"
  shows "parse_config a f c (file_start kvs @ [YAML_SCALAR_EVENT ''direct-gs'', YAML_SEQUENCE_START_EVENT, YAML_SCALAR_EVENT v] @ es) = Some Exited"
  unfolding parse_config_def blank_context_def [symmetric] parse_file_start [OF assms] by (simp add: blank_context_def handle_value_def)

text \<open>An address of more than fifteen characters, as most IPv6 addresses are, overflows its array.\<close>

lemma long_address_overflows:
  assumes "assign a f blank_context kvs (init_config c) = Some c'" "16 \<le> length addr"
  shows "parse_config a f c (file_start kvs @ pair (''ipv6_address'', addr) @ es) = None"
  unfolding parse_config_def blank_context_def [symmetric] parse_file_start [OF assms(1)] using assms(2) by (simp add: blank_context_def handle_keys pair_def strcpy_def)

text \<open>The eleventh peer is written behind the array.\<close>

lemma eleventh_peer_overflows:
  assumes "\<forall>p \<in> set ps. peer_ok p" "length ps = 10" "assign a f blank_context kvs (init_config c) = Some c'" "cf_peers c' = replicate 10 None" "cf_peer_count c' = 0"
  shows "parse_config a f c (file_start kvs @ [YAML_SCALAR_EVENT ''peers'', YAML_SEQUENCE_START_EVENT] @ concat (map peer_events ps) @ [YAML_MAPPING_START_EVENT] @ es) = None"
proof -
  have "ps \<noteq> []" using assms(2) by auto
  then have "parse_events a f (c', blank_context\<lparr>pc_current_key := Some ''peers'', pc_seq_is_peers := True\<rparr>) (concat (map peer_events ps) @ YAML_MAPPING_START_EVENT # es) = None"
    using parse_peers [of ps "blank_context\<lparr>pc_current_key := Some ''peers'', pc_seq_is_peers := True\<rparr>" c' "[]" 10 a f "YAML_MAPPING_START_EVENT # es"] assms(1,2,4,5)
    by (simp add: blank_context_def)
  then show ?thesis unfolding parse_config_def blank_context_def [symmetric] parse_file_start [OF assms(3)] by (simp add: blank_context_def)
qed

text \<open>The key \<open>peer_UA\<close>, which the file test.yaml of the repository uses, is not known.\<close>

lemma peer_UA_exits: "handle_value a f c x ''peer_UA'' v = Some Exited"
  by (simp add: handle_value_def)


section \<open>Properties\<close>


definition gs_config :: "string config_t" where
  "gs_config = \<lparr>cf_debug = True, cf_role = LD_GS, cf_init_fl_freq = ''1111.0'', cf_init_rl_freq = ''965.0'', cf_addr = ''::1'', cf_port = 8080, cf_gsnf_addr = ''127.0.0.1'', cf_gsnf_addr_v6 = ''::1'',
    cf_gsnf_local_port = 55560, cf_gsnf_remote_port = 55558, cf_peer_server_port = 23457,
    cf_peers = Some \<lparr>pg_addr = ''127.0.0.1'', pg_port = 23456, pg_SAC = 10086\<rparr> # replicate 9 None, cf_peer_count = 1, cf_http_port = 9890, cf_auto_auth = False, cf_UA = 10087,
    cf_GS_SAC = 1, cf_AS_SAC = 2, cf_start_longitude = ''0'', cf_start_latitude = ''0'', cf_refer_longitude = ''0'', cf_refer_latitude = ''0''\<rparr>"


end
