(* ===== verification/Newtimer.thy ===== *)
theory Newtimer
  imports Prelude
begin

text \<open>
  The group timer of src/src/ld_newtimer.c: up to ten callbacks share one timer descriptor; its thread waits on an
  epoll instance and, at every expiry, starts each callback in a new thread until it has had its number
  of turns. The answers of epoll and read, and the registrations that other threads make, are the inputs of
  the model; the starts of callbacks are its outputs.
\<close>

section \<open>The timer\<close>

definition TIMER_INFINITE :: nat where
  "TIMER_INFINITE = 0"

text \<open>\<open>ge_cb\<close> stands for the function and its argument.\<close>

record 'c gtimer_ev =
  ge_cb :: 'c
  ge_to_times :: nat
  ge_has_times :: nat

record 'c gtimer_node =
  gn_timer_fd :: int
  gn_cbs :: "'c gtimer_ev list"
  gn_cb_count :: nat

definition nano_to_timeval :: "u64 \<Rightarrow> nat \<times> nat" where
  "nano_to_timeval nano_time = (unat nano_time div 1000000000, unat nano_time mod 1000000000 div 1000)"

definition register_gtimer_event :: "'c gtimer_node \<Rightarrow> 'c gtimer_ev \<Rightarrow> 'c gtimer_node option" where
  "register_gtimer_event node timer_cb =
     (if gn_cb_count node < length (gn_cbs node)
      then Some (node\<lparr>gn_cbs := (gn_cbs node)[gn_cb_count node := timer_cb\<lparr>ge_has_times := 0\<rparr>], gn_cb_count := gn_cb_count node + 1\<rparr>)
      else None)"

definition due :: "'c gtimer_ev \<Rightarrow> bool" where
  "due cbt \<longleftrightarrow> ge_to_times cbt = TIMER_INFINITE \<or> ge_has_times cbt < ge_to_times cbt"

text \<open>One expiry: the loop over the callbacks, from \<open>k\<close> on, \<open>n\<close> more to come. A start is noted with its place.\<close>

fun fire_cbs :: "nat \<Rightarrow> nat \<Rightarrow> 'c gtimer_ev list \<Rightarrow> (nat \<times> 'c) list \<Rightarrow> ('c gtimer_ev list \<times> (nat \<times> 'c) list) option" where
  "fire_cbs 0 k cbs started = Some (cbs, started)"
| "fire_cbs (Suc n) k cbs started =
     (if k \<ge> length cbs then None
      else let cbt = cbs ! k in
        if due cbt then fire_cbs n (Suc k) (cbs[k := cbt\<lparr>ge_has_times := ge_has_times cbt + 1\<rparr>]) (started @ [(k, ge_cb cbt)])
        else fire_cbs n (Suc k) cbs started)"

definition unfinished :: "'c gtimer_ev \<Rightarrow> bool" where
  "unfinished cbt \<longleftrightarrow> ge_to_times cbt = TIMER_INFINITE \<or> ge_has_times cbt \<noteq> ge_to_times cbt"

definition all_finished :: "'c gtimer_node \<Rightarrow> bool" where
  "all_finished node \<longleftrightarrow> first_from (\<lambda>j. unfinished (gn_cbs node ! j)) 0 (gn_cb_count node) = None"

text \<open>The loop over the events of one \<open>epoll_wait\<close>: a descriptor, and whether reading it gives eight bytes.\<close>

fun handle_events :: "'c gtimer_node \<Rightarrow> (nat \<times> 'c) list \<Rightarrow> (int \<times> bool) list \<Rightarrow> ('c gtimer_node \<times> (nat \<times> 'c) list \<times> bool) option" where
  "handle_events node started [] = Some (node, started, False)"
| "handle_events node started ((fd, ok) # es) =
     (if fd = gn_timer_fd node \<and> \<not> ok then Some (node, started, True)
      else do {
        (cbs, started) \<leftarrow> (if fd = gn_timer_fd node then fire_cbs (gn_cb_count node) 0 (gn_cbs node) started else Some (gn_cbs node, started));
        if gn_cb_count node = 0 then handle_events (node\<lparr>gn_cbs := cbs\<rparr>) started es
        else if all_finished (node\<lparr>gn_cbs := cbs\<rparr>) then Some (node\<lparr>gn_cbs := cbs\<rparr>, started, True)
        else handle_events (node\<lparr>gn_cbs := cbs\<rparr>) started es
      })"

text \<open>
  The thread of the timer. When it returns, \<open>start_gtimer\<close> sets the handler to zero; \<open>gt_stopped\<close> keeps the callbacks
  there were then.
\<close>

datatype 'c gt_input = Wait "(int \<times> bool) list" | Interrupted | Wait_failed | Register "'c gtimer_ev"

record 'c gt_state =
  gt_node :: "'c gtimer_node"
  gt_started :: "(nat \<times> 'c) list"
  gt_stopped :: "'c gtimer_ev list option"

definition zero_node :: "'c gtimer_ev \<Rightarrow> 'c gtimer_node" where
  "zero_node zero_ev = \<lparr>gn_timer_fd = 0, gn_cbs = replicate 10 zero_ev, gn_cb_count = 0\<rparr>"

definition stop :: "'c gtimer_ev \<Rightarrow> 'c gt_state \<Rightarrow> 'c gt_state" where
  "stop zero_ev s = s\<lparr>gt_node := zero_node zero_ev, gt_stopped := Some (take (gn_cb_count (gt_node s)) (gn_cbs (gt_node s)))\<rparr>"

fun gtimer_step :: "'c gtimer_ev \<Rightarrow> 'c gt_state \<Rightarrow> 'c gt_input \<Rightarrow> 'c gt_state option" where
  "gtimer_step zero_ev s (Register ev) = map_option (\<lambda>n. s\<lparr>gt_node := n\<rparr>) (register_gtimer_event (gt_node s) ev)"
| "gtimer_step zero_ev s Interrupted = Some s"
| "gtimer_step zero_ev s Wait_failed = Some (if gt_stopped s = None then stop zero_ev s else s)"
| "gtimer_step zero_ev s (Wait es) =
     (if gt_stopped s \<noteq> None then Some s
      else do {
        (node, started, returned) \<leftarrow> handle_events (gt_node s) (gt_started s) es;
        let s = s\<lparr>gt_node := node, gt_started := started\<rparr> in
        Some (if returned then stop zero_ev s else s)
      })"

fun gtimer_run :: "'c gtimer_ev \<Rightarrow> 'c gt_state \<Rightarrow> 'c gt_input list \<Rightarrow> 'c gt_state option" where
  "gtimer_run z s [] = Some s"
| "gtimer_run z s (i # is) = do { s \<leftarrow> gtimer_step z s i; gtimer_run z s is }"


section \<open>Turns\<close>

definition turns :: "(nat \<times> 'c) list \<Rightarrow> nat \<Rightarrow> nat" where
  "turns started k = length (filter (\<lambda>s. fst s = k) started)"

lemma turns_simps [simp]: "turns [] k = 0" "turns (xs @ ys) k = turns xs k + turns ys k" "turns (s # xs) k = (if fst s = k then Suc (turns xs k) else turns xs k)"
  by (simp_all add: turns_def)

definition turn_ok :: "'c gtimer_ev \<Rightarrow> nat \<Rightarrow> bool" where
  "turn_ok ev n \<longleftrightarrow> ge_has_times ev = n \<and> (ge_to_times ev \<noteq> 0 \<longrightarrow> n \<le> ge_to_times ev)"

definition node_ok :: "'c gtimer_node \<Rightarrow> (nat \<times> 'c) list \<Rightarrow> bool" where
  "node_ok node started \<longleftrightarrow> length (gn_cbs node) = 10 \<and> gn_cb_count node \<le> 10 \<and>
     (\<forall>k < gn_cb_count node. turn_ok (gn_cbs node ! k) (turns started k)) \<and>
     (\<forall>(k, c) \<in> set started. k < gn_cb_count node \<and> c = ge_cb (gn_cbs node ! k))"

text \<open>What an expiry does to a callback and which starts it causes.\<close>

definition tick :: "'c gtimer_ev \<Rightarrow> 'c gtimer_ev" where
  "tick ev = (if due ev then ev\<lparr>ge_has_times := ge_has_times ev + 1\<rparr> else ev)"

definition starts :: "nat \<Rightarrow> 'c gtimer_ev list \<Rightarrow> (nat \<times> 'c) list" where
  "starts k evs = map (\<lambda>(i, ev). (i, ge_cb ev)) (filter (\<lambda>(i, ev). due ev) (enumerate k evs))"

lemma fire_cbs_tick:
  "cbs = pre @ evs @ post \<Longrightarrow> k = length pre \<Longrightarrow> n = length evs \<Longrightarrow>
   fire_cbs n k cbs started = Some (pre @ map tick evs @ post, started @ starts k evs)"
proof (induction n arbitrary: k cbs pre evs started)
  case (Suc n)
  then obtain e es where e: "evs = e # es" by (cases evs) auto
  have "fire_cbs (Suc n) k cbs started = fire_cbs n (Suc k) ((pre @ [tick e]) @ es @ post) (started @ starts k [e])"
    using Suc.prems by (simp add: e nth_append Let_def tick_def starts_def)
  then show ?case using Suc.IH [OF refl, of "Suc k" "pre @ [tick e]" es "started @ starts k [e]"] Suc.prems
    by (simp add: e starts_def)
qed (simp add: starts_def)

lemma turns_starts: "turns (starts k evs) j = (if k \<le> j \<and> j < k + length evs \<and> due (evs ! (j - k)) then 1 else 0)"
proof (induction evs arbitrary: k)
  case (Cons e es)
  have "turns (starts k (e # es)) j = (if due e \<and> k = j then 1 else 0) + turns (starts (Suc k) es) j"
    by (simp add: starts_def)
  then show ?case using Cons [of "Suc k"] by (cases "j = k") (auto simp: nth_Cons' Suc_diff_le)
qed (simp add: starts_def)

lemma set_starts: "(j, c) \<in> set (starts k evs) \<Longrightarrow> k \<le> j \<and> j < k + length evs \<and> c = ge_cb (evs ! (j - k))"
  by (auto simp: starts_def in_set_enumerate_eq)

lemma turn_ok_tick: "turn_ok ev n \<Longrightarrow> turn_ok (tick ev) (n + (if due ev then 1 else 0))"
  by (auto simp: turn_ok_def tick_def due_def TIMER_INFINITE_def)

lemma tick_cb [simp]: "ge_cb (tick ev) = ge_cb ev" "ge_to_times (tick ev) = ge_to_times ev"
  by (simp_all add: tick_def)

lemma fire_ok:
  assumes "node_ok node started" "m = gn_cb_count node"
  shows "\<exists>cbs. fire_cbs m 0 (gn_cbs node) started = Some (cbs, started @ starts 0 (take m (gn_cbs node))) \<and>
    take m cbs = map tick (take m (gn_cbs node)) \<and> node_ok (node\<lparr>gn_cbs := cbs\<rparr>) (started @ starts 0 (take m (gn_cbs node)))"
proof -
  let ?evs = "take m (gn_cbs node)"
  define cbs where "cbs = map tick ?evs @ drop m (gn_cbs node)"
  have l: "length ?evs = m" "length cbs = 10" using assms by (simp_all add: node_ok_def cbs_def)
  have "fire_cbs m 0 (gn_cbs node) started = Some (cbs, started @ starts 0 ?evs)"
    using fire_cbs_tick [of "gn_cbs node" "[]" ?evs "drop m (gn_cbs node)" 0 m started] l by (simp add: cbs_def)
  moreover have nth: "cbs ! k = tick (gn_cbs node ! k)" if "k < m" for k using that l by (simp add: cbs_def nth_append)
  have "node_ok (node\<lparr>gn_cbs := cbs\<rparr>) (started @ starts 0 ?evs)"
    unfolding node_ok_def
  proof (intro conjI allI impI)
    show "turn_ok (gn_cbs (node\<lparr>gn_cbs := cbs\<rparr>) ! k) (turns (started @ starts 0 ?evs) k)" if "k < gn_cb_count (node\<lparr>gn_cbs := cbs\<rparr>)" for k
      using that assms turn_ok_tick [of "gn_cbs node ! k" "turns started k"] nth [of k] l by (auto simp: node_ok_def turns_starts)
    show "\<forall>(k, c) \<in> set (started @ starts 0 ?evs). k < gn_cb_count (node\<lparr>gn_cbs := cbs\<rparr>) \<and> c = ge_cb (gn_cbs (node\<lparr>gn_cbs := cbs\<rparr>) ! k)"
      using assms nth l set_starts [of _ _ 0 ?evs] by (fastforce simp: node_ok_def)
  qed (use assms l in \<open>simp_all add: node_ok_def\<close>)
  ultimately show ?thesis using l by (intro exI [of _ cbs]) (simp add: cbs_def)
qed


definition evs_ok :: "'c gtimer_ev list \<Rightarrow> (nat \<times> 'c) list \<Rightarrow> bool" where
  "evs_ok evs started \<longleftrightarrow> (\<forall>k < length evs. turn_ok (evs ! k) (turns started k)) \<and> (\<forall>(k, c) \<in> set started. k < length evs \<and> c = ge_cb (evs ! k))"

abbreviation active :: "'c gtimer_node \<Rightarrow> 'c gtimer_ev list" where
  "active node \<equiv> take (gn_cb_count node) (gn_cbs node)"

lemma node_ok_evs: "node_ok node started \<longleftrightarrow> length (gn_cbs node) = 10 \<and> gn_cb_count node \<le> 10 \<and> evs_ok (active node) started"
  by (auto simp: node_ok_def evs_ok_def)

lemma all_finished_iff:
  assumes "gn_cb_count node \<le> length (gn_cbs node)"
  shows "all_finished node \<longleftrightarrow> (\<forall>e \<in> set (active node). \<not> unfinished e)"
  using assms by (auto simp: all_finished_def first_from_None_iff all_set_conv_all_nth)

text \<open>The number of times the descriptor of the timer could be read.\<close>

definition expiries :: "int \<Rightarrow> (int \<times> bool) list \<Rightarrow> bool" where
  "expiries fd es \<longleftrightarrow> (\<forall>(f, ok) \<in> set es. f = fd \<longrightarrow> ok)"

definition info :: "'c gtimer_ev list \<Rightarrow> ('c \<times> nat) list" where
  "info evs = map (\<lambda>e. (ge_cb e, ge_to_times e)) evs"

lemma info_tick: "info (map tick evs) = info evs"
  by (simp add: info_def)

lemma handle_events_ok:
  "node_ok node started \<Longrightarrow> \<exists>node' started' ret. handle_events node started es = Some (node', started', ret) \<and> node_ok node' started' \<and>
     info (active node') = info (active node) \<and> gn_cb_count node' = gn_cb_count node \<and> gn_timer_fd node' = gn_timer_fd node \<and>
     (ret \<longrightarrow> expiries (gn_timer_fd node) es \<longrightarrow> gn_cb_count node \<noteq> 0 \<and> (\<forall>e \<in> set (active node'). \<not> unfinished e))"
proof (induction es arbitrary: node started)
  case Nil
  then show ?case by (intro exI [of _ node] exI [of _ started] exI [of _ False]) simp
next
  case (Cons e es)
  obtain fd ok where e: "e = (fd, ok)" by force
  show ?case
  proof (cases "fd = gn_timer_fd node \<and> \<not> ok")
    case True
    then show ?thesis using Cons.prems by (intro exI [of _ node] exI [of _ started] exI [of _ True]) (simp add: e expiries_def)
  next
    case False
    let ?fire = "if fd = gn_timer_fd node then fire_cbs (gn_cb_count node) 0 (gn_cbs node) started else Some (gn_cbs node, started)"
    obtain cbs started1 where f: "?fire = Some (cbs, started1)" "node_ok (node\<lparr>gn_cbs := cbs\<rparr>) started1" "info (take (gn_cb_count node) cbs) = info (active node)"
    proof (cases "fd = gn_timer_fd node")
      case True
      from fire_ok [OF Cons.prems refl] obtain cbs where "fire_cbs (gn_cb_count node) 0 (gn_cbs node) started = Some (cbs, started @ starts 0 (active node))"
        "take (gn_cb_count node) cbs = map tick (active node)" "node_ok (node\<lparr>gn_cbs := cbs\<rparr>) (started @ starts 0 (active node))" by blast
      then show ?thesis using True that by (simp add: info_tick)
    next
      case False
      then show ?thesis using that [of "gn_cbs node" started] Cons.prems by simp
    qed
    let ?n = "node\<lparr>gn_cbs := cbs\<rparr>"
    have fin: "all_finished ?n \<longleftrightarrow> (\<forall>e \<in> set (active ?n). \<not> unfinished e)" using f(2) by (intro all_finished_iff) (simp add: node_ok_def)
    have step: "handle_events node started (e # es) = (if gn_cb_count node = 0 then handle_events ?n started1 es
      else if all_finished ?n then Some (?n, started1, True) else handle_events ?n started1 es)"
      using False f(1) by (cases "fd = gn_timer_fd node") (simp_all add: e del: fire_cbs.simps)
    show ?thesis
    proof (cases "gn_cb_count node \<noteq> 0 \<and> all_finished ?n")
      case True
      then show ?thesis using step f(2,3) fin by (intro exI [of _ ?n] exI [of _ started1] exI [of _ True]) simp
    next
      case cont: False
      then have s: "handle_events node started (e # es) = handle_events ?n started1 es" using step by auto
      have x: "expiries (gn_timer_fd node) (e # es) \<Longrightarrow> expiries (gn_timer_fd ?n) es" by (simp add: expiries_def)
      show ?thesis unfolding s using Cons.IH [OF f(2)] f(3) x by fastforce
    qed
  qed
qed

definition clean :: "int \<Rightarrow> 'c gt_input \<Rightarrow> bool" where
  "clean fd i \<longleftrightarrow> (case i of Wait es \<Rightarrow> expiries fd es | Wait_failed \<Rightarrow> False | _ \<Rightarrow> True)"

definition registered :: "'c gt_input list \<Rightarrow> ('c \<times> nat) list" where
  "registered is = concat (map (\<lambda>i. case i of Register e \<Rightarrow> [(ge_cb e, ge_to_times e)] | _ \<Rightarrow> []) is)"

definition gt_inv :: "int \<Rightarrow> bool \<Rightarrow> ('c \<times> nat) list \<Rightarrow> 'c gt_state \<Rightarrow> bool" where
  "gt_inv fd cl rs s \<longleftrightarrow> gn_cb_count (gt_node s) \<le> length rs \<and>
     (case gt_stopped s of
        None \<Rightarrow> node_ok (gt_node s) (gt_started s) \<and> info (active (gt_node s)) = rs \<and> gn_timer_fd (gt_node s) = fd
      | Some evs \<Rightarrow> length (gn_cbs (gt_node s)) = 10 \<and> evs_ok evs (gt_started s) \<and> (\<exists>late. rs = info evs @ late) \<and> (cl \<longrightarrow> evs \<noteq> [] \<and> (\<forall>e \<in> set evs. \<not> unfinished e)))"

lemma stop_inv:
  assumes "node_ok (gt_node s) (gt_started s)" "info (active (gt_node s)) = rs" "cl \<longrightarrow> gn_cb_count (gt_node s) \<noteq> 0 \<and> (\<forall>e \<in> set (active (gt_node s)). \<not> unfinished e)"
  shows "gt_inv fd cl rs (stop z s)"
proof -
  have "active (gt_node s) \<noteq> []" if "gn_cb_count (gt_node s) \<noteq> 0" using that assms(1) by (auto simp: node_ok_def)
  then show ?thesis using assms by (auto simp: gt_inv_def stop_def zero_node_def node_ok_evs)
qed

lemma gtimer_register_ok:
  assumes "node_ok node started" "gn_cb_count node < 10"
  shows "\<exists>node'. register_gtimer_event node ev = Some node' \<and> node_ok node' started \<and> info (active node') = info (active node) @ [(ge_cb ev, ge_to_times ev)] \<and>
    gn_cb_count node' = gn_cb_count node + 1 \<and> gn_timer_fd node' = gn_timer_fd node"
proof -
  let ?n = "node\<lparr>gn_cbs := (gn_cbs node)[gn_cb_count node := ev\<lparr>ge_has_times := 0\<rparr>], gn_cb_count := gn_cb_count node + 1\<rparr>"
  have l: "length (gn_cbs node) = 10" using assms(1) by (simp add: node_ok_def)
  have "turns started (gn_cb_count node) = 0" using assms(1) by (auto simp: node_ok_def turns_def filter_empty_conv)
  then have "node_ok ?n started" using assms l by (auto simp: node_ok_def nth_list_update turn_ok_def less_Suc_eq)
  moreover have "active ?n = active node @ [ev\<lparr>ge_has_times := 0\<rparr>]" using assms(2) l by (simp add: take_Suc_conv_app_nth)
  ultimately show ?thesis using assms(2) l by (simp add: register_gtimer_event_def info_def)
qed

lemma gtimer_step_inv:
  assumes "gt_inv fd cl rs s" "length (rs @ registered [i]) \<le> 10"
  shows "\<exists>s'. gtimer_step z s i = Some s' \<and> gt_inv fd (cl \<and> clean fd i) (rs @ registered [i]) s'"
proof (cases "gt_stopped s")
  case None
  then have ok: "node_ok (gt_node s) (gt_started s)" "info (active (gt_node s)) = rs" "gn_timer_fd (gt_node s) = fd" "gn_cb_count (gt_node s) \<le> length rs"
    using assms(1) by (auto simp: gt_inv_def)
  show ?thesis
  proof (cases i)
    case (Wait es)
    from handle_events_ok [OF ok(1), of es] obtain n st ret where
      h: "handle_events (gt_node s) (gt_started s) es = Some (n, st, ret)" "node_ok n st" "info (active n) = info (active (gt_node s))" "gn_cb_count n = gn_cb_count (gt_node s)" "gn_timer_fd n = gn_timer_fd (gt_node s)"
        "ret \<longrightarrow> expiries (gn_timer_fd (gt_node s)) es \<longrightarrow> gn_cb_count (gt_node s) \<noteq> 0 \<and> (\<forall>e \<in> set (active n). \<not> unfinished e)" by blast
    show ?thesis
    proof (cases ret)
      case True
      then show ?thesis using stop_inv [of "s\<lparr>gt_node := n, gt_started := st\<rparr>" rs "cl \<and> clean fd i" fd z] h ok Wait None
        by (simp add: registered_def clean_def)
    next
      case False
      then show ?thesis using h ok Wait None by (simp add: registered_def gt_inv_def)
    qed
  next
    case (Register ev)
    then have "gn_cb_count (gt_node s) < 10" using assms(2) ok(4) by (simp add: registered_def)
    from gtimer_register_ok [OF ok(1) this, of ev] show ?thesis using ok Register None by (auto simp: gt_inv_def registered_def)
  next
    case Wait_failed
    then show ?thesis using stop_inv [of s rs "cl \<and> clean fd i" fd z] ok None by (simp add: registered_def clean_def)
  next
    case Interrupted
    then show ?thesis using assms(1) by (simp add: registered_def clean_def)
  qed
next
  case (Some evs)
  then have inv: "gt_inv fd (cl \<and> clean fd i) rs s" using assms(1) by (auto simp: gt_inv_def)
  show ?thesis
  proof (cases i)
    case (Register ev)
    then have "gn_cb_count (gt_node s) < 10" "gn_cb_count (gt_node s) \<le> length rs" "length (gn_cbs (gt_node s)) = 10" using assms Some by (auto simp: gt_inv_def registered_def)
    then show ?thesis using inv Register Some by (auto simp: gt_inv_def registered_def register_gtimer_event_def)
  qed (use inv Some in \<open>auto simp: registered_def\<close>)
qed

lemma registered_append [simp]: "registered (is @ js) = registered is @ registered js"
  by (simp add: registered_def)

lemma gtimer_run_inv:
  "gt_inv fd cl rs s \<Longrightarrow> length (rs @ registered is) \<le> 10 \<Longrightarrow> \<exists>s'. gtimer_run z s is = Some s' \<and> gt_inv fd (cl \<and> list_all (clean fd) is) (rs @ registered is) s'"
proof (induction "is" arbitrary: cl rs s)
  case (Cons i "is")
  have r: "registered (i # is) = registered [i] @ registered is" using registered_append [of "[i]" "is"] by simp
  have l: "length (rs @ registered [i]) \<le> 10" using Cons.prems(2) unfolding r by simp
  from gtimer_step_inv [OF Cons.prems(1) l] obtain s1 where s1: "gtimer_step z s i = Some s1" "gt_inv fd (cl \<and> clean fd i) (rs @ registered [i]) s1" by blast
  from Cons.IH [OF s1(2)] show ?case using Cons.prems(2) s1(1) unfolding r by (auto simp: conj_assoc)
qed (simp add: registered_def)


text \<open>One expiry, read from the descriptor of the timer, in a running timer.\<close>

lemma expiry_step:
  assumes "gt_inv fd True rs s" "gt_stopped s = None" "gn_cb_count (gt_node s) \<noteq> 0"
  obtains s' evs where "gtimer_step z s (Wait [(fd, True)]) = Some s'" "gt_inv fd True rs s'" "evs = map tick (active (gt_node s))" "evs \<noteq> []"
    "(\<forall>e \<in> set evs. \<not> unfinished e) \<and> gt_stopped s' = Some evs \<or> (\<exists>e \<in> set evs. unfinished e) \<and> gt_stopped s' = None \<and> active (gt_node s') = evs"
proof -
  let ?evs = "active (gt_node s)"
  have ok: "node_ok (gt_node s) (gt_started s)" "gn_timer_fd (gt_node s) = fd" "length rs \<le> 10" "info ?evs = rs" using assms(1,2) by (auto simp: gt_inv_def node_ok_def info_def)
  from fire_ok [OF ok(1) refl] obtain cbs where f: "fire_cbs (gn_cb_count (gt_node s)) 0 (gn_cbs (gt_node s)) (gt_started s) = Some (cbs, gt_started s @ starts 0 ?evs)"
    "take (gn_cb_count (gt_node s)) cbs = map tick ?evs" "node_ok ((gt_node s)\<lparr>gn_cbs := cbs\<rparr>) (gt_started s @ starts 0 ?evs)" by blast
  let ?n = "(gt_node s)\<lparr>gn_cbs := cbs\<rparr>"
  have fin: "all_finished ?n \<longleftrightarrow> (\<forall>e \<in> set (map tick ?evs). \<not> unfinished e)" using f(2,3) all_finished_iff [of ?n] by (simp add: node_ok_def)
  have ne: "map tick ?evs \<noteq> []" using assms(3) ok(1) by (auto simp: node_ok_def)
  have h: "handle_events (gt_node s) (gt_started s) [(fd, True)] = Some (?n, gt_started s @ starts 0 ?evs, all_finished ?n)"
    using assms(3) ok(2) f(1) by simp
  from gtimer_step_inv [OF assms(1), of "Wait [(fd, True)]" z] ok(3) obtain s' where s': "gtimer_step z s (Wait [(fd, True)]) = Some s'" "gt_inv fd True rs s'"
    by (auto simp: registered_def clean_def expiries_def)
  let ?s = "s\<lparr>gt_node := ?n, gt_started := gt_started s @ starts 0 ?evs\<rparr>"
  have e: "s' = (if all_finished ?n then stop z ?s else ?s)" using s'(1) assms(2) h by (simp add: Let_def del: handle_events.simps)
  show ?thesis
  proof (rule that [OF s' refl ne])
    show "(\<forall>e \<in> set (map tick ?evs). \<not> unfinished e) \<and> gt_stopped s' = Some (map tick ?evs) \<or> (\<exists>e \<in> set (map tick ?evs). unfinished e) \<and> gt_stopped s' = None \<and> active (gt_node s') = map tick ?evs"
      using assms(2) f(2) fin unfolding e by (cases "all_finished ?n") (auto simp: stop_def)
  qed
qed

lemma stopped_stays: "gt_stopped s \<noteq> None \<Longrightarrow> gtimer_run z s (replicate m (Wait es)) = Some s"
  by (induction m) simp_all

lemma evs_inv: "gt_inv fd cl rs s \<Longrightarrow> gt_stopped s = None \<Longrightarrow> evs_ok (active (gt_node s)) (gt_started s)"
  by (simp add: gt_inv_def node_ok_evs)

lemma tick_remaining_le: "ge_to_times (tick e) - ge_has_times (tick e) \<le> ge_to_times e - ge_has_times e - 1"
  by (auto simp: tick_def due_def TIMER_INFINITE_def)

lemma completes:
  "gt_inv fd True rs s \<Longrightarrow> gt_stopped s = None \<Longrightarrow> gn_cb_count (gt_node s) \<noteq> 0 \<Longrightarrow> \<forall>e \<in> set (active (gt_node s)). ge_to_times e \<noteq> 0 \<and> ge_to_times e - ge_has_times e \<le> m \<Longrightarrow> 0 < m \<Longrightarrow>
   \<exists>s' evs. gtimer_run z s (replicate m (Wait [(fd, True)])) = Some s' \<and> gt_inv fd True rs s' \<and> gt_stopped s' = Some evs \<and> info evs = rs"
proof (induction m arbitrary: s)
  case (Suc m)
  from expiry_step [OF Suc.prems(1-3), of z] obtain s' evs where s': "gtimer_step z s (Wait [(fd, True)]) = Some s'" "gt_inv fd True rs s'"
    "evs = map tick (active (gt_node s))" "evs \<noteq> []"
    "(\<forall>e \<in> set evs. \<not> unfinished e) \<and> gt_stopped s' = Some evs \<or> (\<exists>e \<in> set evs. unfinished e) \<and> gt_stopped s' = None \<and> active (gt_node s') = evs" by metis
  show ?case
  proof (cases "gt_stopped s' = None")
    case False
    moreover have "info evs = rs" using Suc.prems(1,2) s'(3) by (simp add: gt_inv_def info_tick)
    ultimately show ?thesis using s' stopped_stays [OF False, of z m] by auto
  next
    case True
    then have a: "active (gt_node s') = evs" "\<exists>e \<in> set evs. unfinished e" using s'(5) by auto
    have le: "\<forall>e \<in> set (active (gt_node s')). ge_to_times e \<noteq> 0 \<and> ge_to_times e - ge_has_times e \<le> m"
    proof
      fix e assume "e \<in> set (active (gt_node s'))"
      then obtain e0 where e0: "e0 \<in> set (active (gt_node s))" "e = tick e0" using a(1) s'(3) by auto
      then show "ge_to_times e \<noteq> 0 \<and> ge_to_times e - ge_has_times e \<le> m" using Suc.prems(4) tick_remaining_le [of e0] by fastforce
    qed
    from a(2) obtain e where e: "e \<in> set evs" "unfinished e" by blast
    then obtain k where k: "k < length evs" "e = evs ! k" by (auto simp: in_set_conv_nth)
    have "turn_ok e (turns (gt_started s') k)" using evs_inv [OF s'(2) True] k a(1) by (simp add: evs_ok_def)
    then have "0 < m" using le e a(1) by (auto simp: unfinished_def turn_ok_def TIMER_INFINITE_def)
    moreover have "gn_cb_count (gt_node s') \<noteq> 0" using a(1) s'(4) by auto
    ultimately show ?thesis using Suc.IH [OF s'(2) True _ le] s'(1) by auto
  qed
qed simp


section \<open>Properties\<close>

definition gt_fresh :: "int \<Rightarrow> 'c gt_state \<Rightarrow> bool" where
  "gt_fresh fd s \<longleftrightarrow> length (gn_cbs (gt_node s)) = 10 \<and> gn_cb_count (gt_node s) = 0 \<and> gn_timer_fd (gt_node s) = fd \<and> gt_started s = [] \<and> gt_stopped s = None"

lemma fresh_inv: "gt_fresh fd s \<Longrightarrow> gt_inv fd True [] s"
  by (simp add: gt_fresh_def gt_inv_def node_ok_def info_def)



definition ev_of :: "nat \<Rightarrow> nat \<Rightarrow> nat gtimer_ev" where
  "ev_of c n = \<lparr>ge_cb = c, ge_to_times = n, ge_has_times = 0\<rparr>"

definition fresh_state :: "nat gt_state" where
  "fresh_state = \<lparr>gt_node = \<lparr>gn_timer_fd = 5, gn_cbs = replicate 10 (ev_of 0 0), gn_cb_count = 0\<rparr>, gt_started = [], gt_stopped = None\<rparr>"

lemma fresh_state_ok: "gt_fresh 5 fresh_state"
  by (simp add: gt_fresh_def fresh_state_def)


text \<open>
  Property C37: a timer whose callbacks all have limits comes to its end. In a state that has been reached with at most ten registrations and without
  failed calls, with at least one callback, let \<open>m\<close> be at least the turns each callback still has; after \<open>m\<close> more expiries the thread has
  returned, and every callback has been started exactly as often as its limit says.
\<close>

theorem gtimer_completes:
  assumes "gt_fresh fd s0" "length (registered is) \<le> 10" "list_all (clean fd) is" "gtimer_run z s0 is = Some s" "gt_stopped s = None"
    "gn_cb_count (gt_node s) \<noteq> 0" "\<forall>e \<in> set (active (gt_node s)). ge_to_times e \<noteq> 0 \<and> ge_to_times e \<le> ge_has_times e + m" "0 < m"
  shows "\<exists>s' evs. gtimer_run z s (replicate m (Wait [(fd, True)])) = Some s' \<and> gt_stopped s' = Some evs \<and>
    registered is = map (\<lambda>e. (ge_cb e, ge_to_times e)) evs \<and> (\<forall>k < length evs. turns (gt_started s') k = ge_to_times (evs ! k))"
proof -
  from gtimer_run_inv [OF fresh_inv [OF assms(1)], of "is" z] assms(2,3,4) have inv: "gt_inv fd True (registered is) s" by auto
  have "\<forall>e \<in> set (active (gt_node s)). ge_to_times e \<noteq> 0 \<and> ge_to_times e - ge_has_times e \<le> m" using assms(7) by auto
  from completes [OF inv assms(5,6) this assms(8), of z] obtain s' evs where
    s': "gtimer_run z s (replicate m (Wait [(fd, True)])) = Some s'" "gt_inv fd True (registered is) s'" "gt_stopped s' = Some evs" "info evs = registered is" by blast
  have "evs_ok evs (gt_started s')" "\<forall>e \<in> set evs. \<not> unfinished e" using s'(2,3) by (auto simp: gt_inv_def)
  then have "\<forall>k < length evs. turns (gt_started s') k = ge_to_times (evs ! k)" by (auto simp: evs_ok_def turn_ok_def unfinished_def)
  then show ?thesis using s' by (auto simp: info_def)
qed

theorem gtimer_completes_witness:
  "\<exists>s s' evs. gtimer_run (ev_of 0 0) fresh_state [Register (ev_of 7 2), Register (ev_of 8 1)] = Some s \<and> gtimer_run (ev_of 0 0) s (replicate 2 (Wait [(5, True)])) = Some s' \<and>
    gt_stopped s' = Some evs \<and> (\<forall>k < length evs. turns (gt_started s') k = ge_to_times (evs ! k))"
proof -
  let ?is = "[Register (ev_of 7 2), Register (ev_of 8 1)]"
  define s where "s = \<lparr>gt_node = \<lparr>gn_timer_fd = 5, gn_cbs = ev_of 7 2 # ev_of 8 1 # replicate 8 (ev_of 0 0), gn_cb_count = 2\<rparr>, gt_started = [], gt_stopped = None\<rparr>"
  have run: "gtimer_run (ev_of 0 0) fresh_state ?is = Some s"
    by (simp add: fresh_state_def register_gtimer_event_def s_def ev_of_def numeral_eq_Suc)
  have l: "length (registered ?is) \<le> 10" "list_all (clean 5) ?is" by (simp_all add: registered_def clean_def)
  have s: "gt_stopped s = None" "gn_cb_count (gt_node s) \<noteq> 0" "\<forall>e \<in> set (active (gt_node s)). ge_to_times e \<noteq> 0 \<and> ge_to_times e \<le> ge_has_times e + 2"
    by (simp_all add: s_def ev_of_def)
  show ?thesis using gtimer_completes [OF fresh_state_ok l run s] run by auto
qed


section \<open>Registrations that come too early or too late\<close>

text \<open>An eleventh callback is written behind the array.\<close>

lemma eleventh_callback: "gn_cb_count node = 10 \<Longrightarrow> length (gn_cbs node) = 10 \<Longrightarrow> register_gtimer_event node ev = None"
  by (simp add: register_gtimer_event_def)

text \<open>Once all callbacks there are have finished, the thread has returned: a later registration is accepted and never started.\<close>

lemma late_registration_lost:
  assumes "gt_stopped s = Some evs" "gn_cb_count (gt_node s) < length (gn_cbs (gt_node s))"
  shows "\<exists>s'. gtimer_run z s [Register ev, Wait es] = Some s' \<and> gt_started s' = gt_started s \<and> gn_cb_count (gt_node s') = Suc (gn_cb_count (gt_node s))"
  using assms by (simp add: register_gtimer_event_def)

end
