(* ===== verification/Globaltimer.thy ===== *)
theory Globaltimer
  imports Bitset Newtimer
begin

text \<open>
  The global timer of src/src/ld_globaltimer.c: a libevent timer wakes every registered cycle at each turn by a
  semaphore of its own. The semaphores are the resources of a bitset (\<open>Bitset\<close>); the value of a semaphore is a number, and a destroyed
  one is filled with zeros. libevent is outside: each turn is a call of \<open>slot_activate\<close>. A mutex that is already held never
  lets its next caller through, which is the result \<open>None\<close>.
\<close>

section \<open>Slots\<close>

definition TIMER_NUM_MAX :: nat where
  "TIMER_NUM_MAX = 128"

definition globaltimer_nano_to_timeval :: "u64 \<Rightarrow> nat \<times> nat" where
  "globaltimer_nano_to_timeval nano_time = (unat nano_time div 1000000000, unat nano_time div 1000)"

record timer_slots =
  ts_tv :: "nat \<times> nat"
  ts_l_sems_set :: ld_bitset_t
  ts_sems :: "nat list"
  ts_locked :: bool

text \<open>\<open>base\<close> is the array that \<open>init_sem_set\<close> gets from calloc, \<open>sz\<close> the size of a semaphore.\<close>

definition init_sem_set :: "addr option \<Rightarrow> ld_bitset_t \<Rightarrow> ld_bitset_t \<times> l_err" where
  "init_sem_set base bitset = (bitset\<lparr>bs_resources := base\<rparr>, LD_OK)"

definition init_timer_slot :: "addr option \<Rightarrow> nat \<Rightarrow> u64 \<Rightarrow> timer_slots option" where
  "init_timer_slot base sz nano =
     map_option (\<lambda>set. \<lparr>ts_tv = globaltimer_nano_to_timeval nano, ts_l_sems_set = set, ts_sems = replicate TIMER_NUM_MAX 0, ts_locked = False\<rparr>)
       (init_bitset TIMER_NUM_MAX sz (Some (init_sem_set base)) None)"

text \<open>The time at which \<open>init_global_timer\<close> starts its thread, in microseconds.\<close>

definition to_sync :: "nat \<Rightarrow> nat \<Rightarrow> nat" where
  "to_sync curr_time sync_micro = curr_time + (sync_micro - curr_time mod sync_micro)"

definition ld_lock :: "timer_slots \<Rightarrow> timer_slots option" where
  "ld_lock slot = (if ts_locked slot then None else Some (slot\<lparr>ts_locked := True\<rparr>))"

definition ld_unlock :: "timer_slots \<Rightarrow> timer_slots" where
  "ld_unlock slot = slot\<lparr>ts_locked := False\<rparr>"

fun activate_from :: "nat \<Rightarrow> nat \<Rightarrow> timer_slots \<Rightarrow> timer_slots option" where
  "activate_from 0 i slot = Some slot"
| "activate_from (Suc n) i slot = do {
     used \<leftarrow> bs_judge_resource (ts_l_sems_set slot) (of_nat i);
     if used \<and> ts_sems slot ! i = 0 then activate_from n (Suc i) (slot\<lparr>ts_sems := (ts_sems slot)[i := 1]\<rparr>)
     else activate_from n (Suc i) slot
   }"

definition slot_activate :: "timer_slots \<Rightarrow> timer_slots option" where
  "slot_activate slot = do {
     slot \<leftarrow> ld_lock slot;
     slot \<leftarrow> activate_from TIMER_NUM_MAX 0 slot;
     Some (ld_unlock slot)
   }"

text \<open>The result is the place of the semaphore, when there is one.\<close>

definition register_timer_event :: "timer_slots \<Rightarrow> (timer_slots \<times> nat option) option" where
  "register_timer_event slot = do {
     slot \<leftarrow> ld_lock slot;
     (set, l_sem, e) \<leftarrow> bs_alloc_resource (ts_l_sems_set slot);
     let slot = slot\<lparr>ts_l_sems_set := set\<rparr> in
     if e = LD_ERR_INVALID then Some (slot, None)
     else case (l_sem, bs_resources set) of
       (Some a, Some base) \<Rightarrow>
         let i = (a - base) div bs_res_sz set in
         Some (ld_unlock (slot\<lparr>ts_sems := (ts_sems slot)[i := 0]\<rparr>), Some i)
     | _ \<Rightarrow> None
   }"

text \<open>
  The semaphore of the cycle is destroyed and its pointer cleared; the index of the resource is computed after
  that, from the null pointer.
\<close>

definition null_index :: "addr \<Rightarrow> nat \<Rightarrow> u8" where
  "null_index base sz = of_int ((0 - int base) div int sz)"

definition unregister_timer_event :: "timer_slots \<Rightarrow> nat \<Rightarrow> timer_slots option" where
  "unregister_timer_event slot i =
     (let slot = slot\<lparr>ts_sems := (ts_sems slot)[i := 0]\<rparr> in
      case bs_resources (ts_l_sems_set slot) of
        None \<Rightarrow> None
      | Some base \<Rightarrow> map_option (\<lambda>set. slot\<lparr>ts_l_sems_set := set\<rparr>) (bs_free_resource (ts_l_sems_set slot) (null_index base (bs_res_sz (ts_l_sems_set slot)))))"


section \<open>Cycles\<close>

datatype cycle_act = Sem_wait | Call

text \<open>
  The loop of \<open>wait_sem_func\<close>: \<open>flags\<close> is what it reads from the stop flag, in order; the result is what the loop has done, what
  is left of its count, and whether it has ended. Running out of flags means that it is still going.
\<close>

fun wait_sem_loop :: "int \<Rightarrow> bool \<Rightarrow> bool \<Rightarrow> int \<Rightarrow> bool list \<Rightarrow> cycle_act list \<times> int \<times> bool" where
  "wait_sem_loop to_times is_instant has_sem handle_times [] = ([], handle_times, False)"
| "wait_sem_loop to_times is_instant has_sem handle_times (flag # flags) =
     (if flag then ([], handle_times, True)
      else let old = handle_times;
               handle_times = (if old = int TIMER_INFINITE then old else old - 1) in
        if \<not> (old = int TIMER_INFINITE \<or> old \<noteq> 0) then ([], handle_times, True)
        else let w = (if (handle_times = int TIMER_INFINITE \<or> \<not> is_instant \<or> handle_times \<noteq> to_times - 1) \<and> has_sem then [Sem_wait] else []);
                 (acts, h, ended) = wait_sem_loop to_times is_instant has_sem handle_times flags in
          (w @ Call # acts, h, ended))"

definition wait_sem_func :: "int \<Rightarrow> bool \<Rightarrow> bool \<Rightarrow> bool list \<Rightarrow> cycle_act list \<times> int \<times> bool" where
  "wait_sem_func to_times is_instant has_sem flags = wait_sem_loop to_times is_instant has_sem to_times flags"


section \<open>What the timer does\<close>

lemma to_sync_multiple: "0 < sync_micro \<Longrightarrow> sync_micro dvd to_sync t sync_micro \<and> t < to_sync t sync_micro \<and> to_sync t sync_micro \<le> t + sync_micro"
proof -
  assume s: "0 < sync_micro"
  then have m: "t mod sync_micro < sync_micro" by simp
  have e: "t = t div sync_micro * sync_micro + t mod sync_micro" by simp
  then have "to_sync t sync_micro = t div sync_micro * sync_micro + sync_micro" using m unfolding to_sync_def by linarith
  then have "sync_micro dvd to_sync t sync_micro" by simp
  then show ?thesis using m by (simp add: to_sync_def)
qed

text \<open>The period is not the one that was asked for: the seconds are counted twice.\<close>

lemma period_counts_seconds_twice:
  "fst (globaltimer_nano_to_timeval n) * 1000000 + snd (globaltimer_nano_to_timeval n) = unat n div 1000 + 1000000 * (unat n div 1000000000)"
  by (simp add: globaltimer_nano_to_timeval_def)

definition slots_ok :: "timer_slots \<Rightarrow> bool" where
  "slots_ok slot \<longleftrightarrow> bs_wf (ts_l_sems_set slot) \<and> bs_res_num (ts_l_sems_set slot) = TIMER_NUM_MAX \<and> length (ts_sems slot) = TIMER_NUM_MAX \<and> (\<forall>v \<in> set (ts_sems slot). v \<le> 1)"

lemma judge_ok:
  assumes "slots_ok slot" "i < TIMER_NUM_MAX"
  shows "bs_judge_resource (ts_l_sems_set slot) (of_nat i) = Some (i \<in> bs_alloced (ts_l_sems_set slot))"
proof -
  have "unat (of_nat i :: u8) = i" using assms(2) by (intro unat_of_nat_small) (simp add: TIMER_NUM_MAX_def)
  then show ?thesis using assms bs_judge_spec [of "ts_l_sems_set slot" "of_nat i"] by (simp add: slots_ok_def)
qed


lemma activate_from_ok:
  "slots_ok slot \<Longrightarrow> i + n \<le> TIMER_NUM_MAX \<Longrightarrow>
   \<exists>slot'. activate_from n i slot = Some slot' \<and> slots_ok slot' \<and> ts_l_sems_set slot' = ts_l_sems_set slot \<and> ts_locked slot' = ts_locked slot \<and>
     (\<forall>j < TIMER_NUM_MAX. ts_sems slot' ! j = (if i \<le> j \<and> j < i + n \<and> j \<in> bs_alloced (ts_l_sems_set slot) then 1 else ts_sems slot ! j))"
proof (induction n arbitrary: i slot)
  case (Suc n)
  let ?set = "ts_l_sems_set slot"
  have i: "i < TIMER_NUM_MAX" using Suc.prems(2) by simp
  have len: "length (ts_sems slot) = TIMER_NUM_MAX" using Suc.prems(1) by (simp add: slots_ok_def)
  define slot1 where "slot1 = (if i \<in> bs_alloced ?set \<and> ts_sems slot ! i = 0 then slot\<lparr>ts_sems := (ts_sems slot)[i := 1]\<rparr> else slot)"
  have step: "activate_from (Suc n) i slot = activate_from n (Suc i) slot1" using judge_ok [OF Suc.prems(1) i] by (simp add: slot1_def)
  have ok: "slots_ok slot1" using Suc.prems(1) by (auto simp: slot1_def slots_ok_def dest: set_update_subset_insert [THEN subsetD])
  have same: "ts_l_sems_set slot1 = ?set" "ts_locked slot1 = ts_locked slot" by (simp_all add: slot1_def)
  have "ts_sems slot ! i \<le> 1" using Suc.prems(1) i len by (simp add: slots_ok_def)
  then have sems: "ts_sems slot1 ! j = (if j = i \<and> i \<in> bs_alloced ?set then 1 else ts_sems slot ! j)" if "j < TIMER_NUM_MAX" for j
    using that len by (auto simp: slot1_def nth_list_update)
  from Suc.IH [OF ok, of "Suc i"] Suc.prems(2) obtain slot' where s': "activate_from n (Suc i) slot1 = Some slot'" "slots_ok slot'" "ts_l_sems_set slot' = ?set" "ts_locked slot' = ts_locked slot"
    "\<forall>j < TIMER_NUM_MAX. ts_sems slot' ! j = (if Suc i \<le> j \<and> j < Suc i + n \<and> j \<in> bs_alloced ?set then 1 else ts_sems slot1 ! j)" using same by auto
  have "ts_sems slot' ! j = (if i \<le> j \<and> j < i + Suc n \<and> j \<in> bs_alloced ?set then 1 else ts_sems slot ! j)" if "j < TIMER_NUM_MAX" for j
    using s'(5) [rule_format, OF that] sems [OF that] by (cases "j = i") auto
  then show ?case unfolding step using s'(1-4) by blast
qed auto

lemma slot_activate_ok:
  assumes "slots_ok slot" "\<not> ts_locked slot"
  shows "\<exists>slot'. slot_activate slot = Some slot' \<and> slots_ok slot' \<and> ts_l_sems_set slot' = ts_l_sems_set slot \<and> \<not> ts_locked slot' \<and>
    (\<forall>j < TIMER_NUM_MAX. ts_sems slot' ! j = (if j \<in> bs_alloced (ts_l_sems_set slot) then 1 else ts_sems slot ! j))"
proof -
  have "slots_ok (slot\<lparr>ts_locked := True\<rparr>)" using assms(1) by (simp add: slots_ok_def)
  from activate_from_ok [OF this, of 0 TIMER_NUM_MAX] obtain slot' where
    "activate_from TIMER_NUM_MAX 0 (slot\<lparr>ts_locked := True\<rparr>) = Some slot'" "slots_ok slot'" "ts_l_sems_set slot' = ts_l_sems_set slot"
    "\<forall>j < TIMER_NUM_MAX. ts_sems slot' ! j = (if j \<in> bs_alloced (ts_l_sems_set slot) then 1 else ts_sems slot ! j)" by auto
  then show ?thesis using assms(2) by (simp add: slot_activate_def ld_lock_def ld_unlock_def slots_ok_def)
qed

lemma slots_register_ok:
  assumes "slots_ok slot" "\<not> ts_locked slot" "bs_resources (ts_l_sems_set slot) = Some base" "0 < bs_res_sz (ts_l_sems_set slot)" "bs_alloced (ts_l_sems_set slot) \<noteq> {0..<TIMER_NUM_MAX}"
  shows "\<exists>i slot'. register_timer_event slot = Some (slot', Some i) \<and> slots_ok slot' \<and> \<not> ts_locked slot' \<and> i < TIMER_NUM_MAX \<and> i \<notin> bs_alloced (ts_l_sems_set slot) \<and>
    bs_alloced (ts_l_sems_set slot') = insert i (bs_alloced (ts_l_sems_set slot)) \<and> ts_sems slot' = (ts_sems slot)[i := 0]"
proof -
  let ?set = "ts_l_sems_set slot"
  from bs_alloc_slot [of ?set base] assms obtain i set' where s: "bs_alloc_resource ?set = Some (set', Some (base + i * bs_res_sz ?set), LD_OK)" "i < bs_res_num ?set" "i \<notin> bs_alloced ?set"
    "bs_wf set'" "bs_alloced set' = insert i (bs_alloced ?set)" by (auto simp: slots_ok_def)
  have "bs_resources set' = Some base \<and> bs_res_sz set' = bs_res_sz ?set \<and> bs_res_num set' = bs_res_num ?set"
    using s(1) assms(3) by (auto simp: bs_alloc_resource_def split: option.splits bind_splits)
  then show ?thesis using assms s
    by (auto simp: register_timer_event_def ld_lock_def ld_unlock_def Let_def slots_ok_def dest: set_update_subset_insert [THEN subsetD])
qed

text \<open>When every slot is taken, a registration returns with the mutex held: no turn and no registration gets through any more.\<close>

lemma full_timer_stops:
  assumes "slots_ok slot" "\<not> ts_locked slot" "bs_resources (ts_l_sems_set slot) = Some base" "bs_alloced (ts_l_sems_set slot) = {0..<TIMER_NUM_MAX}"
  shows "\<exists>slot'. register_timer_event slot = Some (slot', None) \<and> slot_activate slot' = None \<and> register_timer_event slot' = None"
  using bs_alloc_full [of "ts_l_sems_set slot" base] assms
  by (simp add: register_timer_event_def slot_activate_def ld_lock_def slots_ok_def Let_def)

text \<open>A cycle that ends frees the slot of the null pointer, not its own.\<close>

lemma unregister_leaks:
  assumes "slots_ok slot" "bs_resources (ts_l_sems_set slot) = Some base" "i \<in> bs_alloced (ts_l_sems_set slot)" "unat (null_index base (bs_res_sz (ts_l_sems_set slot))) \<noteq> i"
  shows "\<exists>slot'. unregister_timer_event slot i = Some slot' \<and> i \<in> bs_alloced (ts_l_sems_set slot')"
  using bs_free_spec [of "ts_l_sems_set slot" "null_index base (bs_res_sz (ts_l_sems_set slot))"] assms
  by (auto simp: unregister_timer_event_def Let_def slots_ok_def)

lemma wait_sem_loop_calls:
  "length (filter (\<lambda>a. a = Call) (fst (wait_sem_loop n inst has h (replicate m False)))) = m \<and> \<not> snd (snd (wait_sem_loop n inst has h (replicate m False)))"
proof (induction m arbitrary: h)
  case (Suc m)
  let ?h = "if h = int Newtimer.TIMER_INFINITE then h else h - 1"
  obtain acts h' ended where r: "wait_sem_loop n inst has ?h (replicate m False) = (acts, h', ended)" by (metis prod_cases3)
  then have "length (filter (\<lambda>a. a = Call) acts) = m \<and> \<not> ended" using Suc [of ?h] by simp
  then show ?case using r by (simp add: Let_def Newtimer.TIMER_INFINITE_def)
qed simp


section \<open>Properties\<close>

text \<open>
  Property C38: a turn wakes every cycle once. When the timer fires, every semaphore of a registered cycle has the value 1 afterwards, also if
  its cycle has missed earlier turns; no other semaphore changes, and the mutex is free again.
\<close>

theorem turn_wakes_all:
  assumes "slots_ok slot" "\<not> ts_locked slot" "bs_resources (ts_l_sems_set slot) = Some base" "0 < bs_res_sz (ts_l_sems_set slot)" "bs_alloced (ts_l_sems_set slot) \<noteq> {0..<TIMER_NUM_MAX}"
  shows "\<exists>slot1 i slot2. register_timer_event slot = Some (slot1, Some i) \<and> i \<notin> bs_alloced (ts_l_sems_set slot) \<and> slot_activate slot1 = Some slot2 \<and> slots_ok slot2 \<and> \<not> ts_locked slot2 \<and>
    (\<forall>j < TIMER_NUM_MAX. ts_sems slot2 ! j = (if j = i \<or> j \<in> bs_alloced (ts_l_sems_set slot) then 1 else ts_sems slot ! j))"
proof -
  from slots_register_ok [OF assms] obtain i slot1 where r: "register_timer_event slot = Some (slot1, Some i)" "slots_ok slot1" "\<not> ts_locked slot1" "i < TIMER_NUM_MAX" "i \<notin> bs_alloced (ts_l_sems_set slot)"
    "bs_alloced (ts_l_sems_set slot1) = insert i (bs_alloced (ts_l_sems_set slot))" "ts_sems slot1 = (ts_sems slot)[i := 0]" by blast
  from slot_activate_ok [OF r(2,3)] obtain slot2 where "slot_activate slot1 = Some slot2" "slots_ok slot2" "\<not> ts_locked slot2"
    "\<forall>j < TIMER_NUM_MAX. ts_sems slot2 ! j = (if j \<in> bs_alloced (ts_l_sems_set slot1) then 1 else ts_sems slot1 ! j)" by blast
  then show ?thesis using r by (intro exI [of _ slot1] exI [of _ i] exI [of _ slot2]) auto
qed

definition idle_slots :: timer_slots where
  "idle_slots = \<lparr>ts_tv = (0, 0), ts_l_sems_set = \<lparr>bs_res_num = 128, bs_res_sz = 40, bs_bitset = replicate 16 0, bs_resources = Some 4096\<rparr>, ts_sems = replicate 128 0, ts_locked = False\<rparr>"

lemma idle_slots_ok: "slots_ok idle_slots" "bs_alloced (ts_l_sems_set idle_slots) = {}"
proof -
  show "slots_ok idle_slots" by (simp add: slots_ok_def idle_slots_def bs_wf_def bitset_size_def TIMER_NUM_MAX_def)
  have "\<not> bs_bit (ts_l_sems_set idle_slots) i" if "i < 128" for i
    using that nth_replicate [of "i div 8" 16 "0 :: u8"] by (simp add: bs_bit_def idle_slots_def)
  then show "bs_alloced (ts_l_sems_set idle_slots) = {}" by (auto simp: bs_alloced_def idle_slots_def)
qed

theorem turn_wakes_all_witness:
  "\<exists>slot1 i slot2. register_timer_event idle_slots = Some (slot1, Some i) \<and> slot_activate slot1 = Some slot2 \<and> (\<forall>j < TIMER_NUM_MAX. ts_sems slot2 ! j = (if j = i then 1 else ts_sems idle_slots ! j))"
proof -
  have n: "bs_alloced (ts_l_sems_set idle_slots) \<noteq> {0..<TIMER_NUM_MAX}" using idle_slots_ok(2) by (simp add: TIMER_NUM_MAX_def)
  have o: "\<not> ts_locked idle_slots" "bs_resources (ts_l_sems_set idle_slots) = Some 4096" "0 < bs_res_sz (ts_l_sems_set idle_slots)" by (simp_all add: idle_slots_def)
  show ?thesis using turn_wakes_all [OF idle_slots_ok(1) o n] idle_slots_ok(2) by auto
qed

text \<open>
  Property C39: the limit of a cycle has no effect. For every value of \<open>to_times\<close>, also positive ones, the loop goes on as long as the stop flag is
  not set: \<open>m\<close> looks at the flag give \<open>m\<close> calls, and the loop has not ended. The count stops at zero, which is the mark for no limit.
\<close>

theorem cycle_ignores_limit:
  "length (filter (\<lambda>a. a = Call) (fst (wait_sem_func to_times is_instant has_sem (replicate m False)))) = m \<and>
   \<not> snd (snd (wait_sem_func to_times is_instant has_sem (replicate m False)))"
  unfolding wait_sem_func_def by (rule wait_sem_loop_calls)

end
