(* ===== verification/Doubles.thy ===== *)
theory Doubles
  imports Prelude
begin

text \<open>
  The conversions of C between \<open>uint64_t\<close> and \<open>double\<close>. A double is its eight bytes, a word: sign, eleven bits of
  exponent, 52 bits of the mantissa. An integer is rounded to the nearest double, to the even one between two; a double is cut off to
  an integer, which is undefined outside of the range of \<open>uint64_t\<close>.
\<close>

fun top_bit :: "nat \<Rightarrow> nat" where
  "top_bit n = (if n < 2 then 0 else Suc (top_bit (n div 2)))"

declare top_bit.simps [simp del]

definition rounded :: "nat \<Rightarrow> nat \<Rightarrow> nat" where
  "rounded s n = (let q = n div 2 ^ s; r = n mod 2 ^ s in if 2 ^ s < 2 * r \<or> 2 * r = 2 ^ s \<and> odd q then q + 1 else q)"

definition double_of_u64 :: "u64 \<Rightarrow> u64" where
  "double_of_u64 v =
     (let n = unat v; e = top_bit n in
      if n = 0 then 0
      else of_nat ((e + 1022) * 2 ^ 52 + (if e \<le> 52 then n * 2 ^ (52 - e) else rounded (e - 52) n)))"

definition u64_of_double :: "u64 \<Rightarrow> u64 option" where
  "u64_of_double d =
     (let ex = unat d div 2 ^ 52 mod 2 ^ 11; m = 2 ^ 52 + unat d mod 2 ^ 52; e = ex - 1023 in
      if ex < 1023 then Some 0
      else if 2 ^ 63 \<le> unat d \<or> 64 \<le> e then None
      else Some (of_nat (if e \<le> 52 then m div 2 ^ (52 - e) else m * 2 ^ (e - 52))))"


section \<open>Exact numbers and errors\<close>

lemma top_bit_bounds: "0 < n \<Longrightarrow> 2 ^ top_bit n \<le> n \<and> n < 2 ^ Suc (top_bit n)"
proof (induction n rule: top_bit.induct)
  case (1 n)
  show ?case
  proof (cases "n < 2")
    case True
    then show ?thesis using 1(2) by (simp add: top_bit.simps [of n])
  next
    case False
    then have "2 ^ top_bit (n div 2) \<le> n div 2 \<and> n div 2 < 2 ^ Suc (top_bit (n div 2))" using 1 by simp
    then show ?thesis using False by (simp add: top_bit.simps [of n]) linarith
  qed
qed

lemma top_bit_less: "0 < n \<Longrightarrow> n < 2 ^ k \<Longrightarrow> top_bit n < k"
proof -
  assume "0 < n" "n < 2 ^ k"
  then have "(2 :: nat) ^ top_bit n < 2 ^ k" using top_bit_bounds [of n] by linarith
  then show ?thesis by simp
qed

lemma top_bit_u64: "0 < unat (v :: u64) \<Longrightarrow> top_bit (unat v) \<le> 63"
proof -
  assume "0 < unat v"
  moreover have "unat v < 2 ^ 64" using unsigned_less [of v] by simp
  ultimately have "top_bit (unat v) < 64" by (rule top_bit_less)
  then show ?thesis by simp
qed

lemma unat_u64: "n < 2 ^ 64 \<Longrightarrow> unat (of_nat n :: u64) = n"
  by (simp add: unat_of_nat_small)

text \<open>The double with the exponent \<open>e\<close> and the mantissa \<open>q\<close>, which may have been rounded up to the next power of two.\<close>

definition double_bits :: "nat \<Rightarrow> nat \<Rightarrow> u64" where
  "double_bits e q = of_nat ((e + 1022) * 2 ^ 52 + q)"

lemma unat_double_bits: "e \<le> 63 \<Longrightarrow> q \<le> 2 ^ 53 \<Longrightarrow> unat (double_bits e q) = (e + 1022) * 2 ^ 52 + q"
proof -
  assume "e \<le> 63" "q \<le> 2 ^ 53"
  then have "(e + 1022) * 2 ^ 52 + q < 2 ^ 64" by simp
  then show ?thesis unfolding double_bits_def by (rule unat_u64)
qed

lemma double_bits_value:
  assumes "e \<le> 63" "2 ^ 52 \<le> q" "q < 2 ^ 53"
  shows "u64_of_double (double_bits e q) = Some (of_nat (if e \<le> 52 then q div 2 ^ (52 - e) else q * 2 ^ (e - 52)))"
proof -
  define m where "m = q - 2 ^ 52"
  have q: "q = 2 ^ 52 + m" "m < 2 ^ 52" using assms(2,3) by (simp_all add: m_def)
  have u: "unat (double_bits e q) = (e + 1023) * 2 ^ 52 + m" using unat_double_bits [of e q] assms q by simp
  have d: "((e + 1023) * 2 ^ 52 + m) div 2 ^ 52 = e + 1023" "((e + 1023) * 2 ^ 52 + m) mod 2 ^ 52 = m"
    using q(2) mod_mult_self3 [of "e + 1023" "2 ^ 52" m] by (simp_all del: power_numeral add: add.commute)
  have "(e + 1023) mod 2 ^ 11 = e + 1023" "(e + 1023) * 2 ^ 52 + m < 2 ^ 63" using assms(1) q(2) by simp_all
  then show ?thesis unfolding u64_of_double_def u d using assms(1) q(1) by (simp add: Let_def)
qed

text \<open>The integers with at most 53 significant bits are doubles.\<close>

definition fits53 :: "u64 \<Rightarrow> bool" where
  "fits53 v \<longleftrightarrow> 2 ^ (top_bit (unat v) - 52) dvd unat v"

lemma fits53_less: "unat v \<le> 2 ^ 53 \<Longrightarrow> fits53 v"
proof (cases "unat v = 2 ^ 53")
  case True
  moreover have "top_bit (2 ^ 53) = 53" using top_bit_bounds [of "2 ^ 53"] top_bit_less [of "2 ^ 53" 54] by (simp add: top_bit.simps)
  ultimately show ?thesis by (simp add: fits53_def)
next
  case False
  assume "unat v \<le> 2 ^ 53"
  then have "top_bit (unat v) - 52 = 0 \<or> unat v = 0" using False top_bit_less [of "unat v" 53] by (cases "unat v = 0") simp_all
  then show ?thesis unfolding fits53_def by (elim disjE) simp_all
qed

lemma double_of_u64_bits:
  assumes "unat v \<noteq> 0"
  shows "double_of_u64 v = double_bits (top_bit (unat v)) (if top_bit (unat v) \<le> 52 then unat v * 2 ^ (52 - top_bit (unat v)) else rounded (top_bit (unat v) - 52) (unat v))"
  using assms by (simp add: double_of_u64_def double_bits_def Let_def)

lemma mantissa_bounds:
  assumes "0 < n"
  shows "top_bit n \<le> 52 \<Longrightarrow> 2 ^ 52 \<le> n * 2 ^ (52 - top_bit n) \<and> n * 2 ^ (52 - top_bit n) < 2 ^ 53"
    and "52 \<le> top_bit n \<Longrightarrow> 2 ^ 52 \<le> n div 2 ^ (top_bit n - 52) \<and> n div 2 ^ (top_bit n - 52) < 2 ^ 53"
proof -
  let ?e = "top_bit n"
  have b: "2 ^ ?e \<le> n" "n < 2 ^ Suc ?e" using top_bit_bounds [OF assms] by auto
  show "2 ^ 52 \<le> n * 2 ^ (52 - ?e) \<and> n * 2 ^ (52 - ?e) < 2 ^ 53" if "?e \<le> 52"
  proof -
    have "2 ^ ?e * 2 ^ (52 - ?e) = (2 ^ 52 :: nat)" "2 ^ Suc ?e * 2 ^ (52 - ?e) = (2 ^ 53 :: nat)" using that by (simp_all flip: power_add)
    then show ?thesis using mult_le_mono1 [OF b(1), of "2 ^ (52 - ?e)"] mult_less_mono1 [OF b(2), of "2 ^ (52 - ?e)"] by (simp del: power_Suc)
  qed
  show "2 ^ 52 \<le> n div 2 ^ (?e - 52) \<and> n div 2 ^ (?e - 52) < 2 ^ 53" if "52 \<le> ?e"
  proof -
    have "52 + (?e - 52) = ?e" using that by simp
    then have p: "2 ^ ?e = 2 ^ 52 * (2 ^ (?e - 52) :: nat)" by (metis power_add)
    then have "2 ^ Suc ?e = 2 ^ 53 * (2 ^ (?e - 52) :: nat)" by simp
    with p show ?thesis using b by (simp add: less_eq_div_iff_mult_less_eq div_less_iff_less_mult)
  qed
qed

lemma fits53_exact: "fits53 v \<Longrightarrow> u64_of_double (double_of_u64 v) = Some v"
proof (cases "unat v = 0")
  case True
  then show ?thesis by (simp add: double_of_u64_def u64_of_double_def Let_def unat_eq_zero)
next
  case False
  assume f: "fits53 v"
  let ?n = "unat v" let ?e = "top_bit (unat v)"
  have e: "?e \<le> 63" using top_bit_u64 [of v] False by simp
  show ?thesis
  proof (cases "?e \<le> 52")
    case True
    then show ?thesis using double_bits_value [of ?e "?n * 2 ^ (52 - ?e)"] mantissa_bounds(1) [of ?n] False e
      by (simp add: double_of_u64_bits)
  next
    case 2: False
    then have d: "?n mod 2 ^ (?e - 52) = 0" "?n div 2 ^ (?e - 52) * 2 ^ (?e - 52) = ?n" using f by (simp_all add: fits53_def)
    then have "rounded (?e - 52) ?n = ?n div 2 ^ (?e - 52)" by (simp add: rounded_def Let_def)
    then show ?thesis using double_bits_value [of ?e "?n div 2 ^ (?e - 52)"] mantissa_bounds(2) [of ?n] False e 2 d
      by (simp add: double_of_u64_bits)
  qed
qed

text \<open>Other integers change, by at most half of the distance between two doubles.\<close>

lemma rounded_error: "rounded s n * 2 ^ s \<le> n + 2 ^ s div 2 \<and> n \<le> rounded s n * 2 ^ s + 2 ^ s div 2"
proof -
  have n: "n = n div 2 ^ s * 2 ^ s + n mod 2 ^ s" by (rule div_mult_mod_eq [symmetric])
  have r: "n mod 2 ^ s < 2 ^ s" by simp
  show ?thesis
  proof (cases "2 ^ s < 2 * (n mod 2 ^ s) \<or> 2 * (n mod 2 ^ s) = 2 ^ s \<and> odd (n div 2 ^ s)")
    case True
    then have "rounded s n * 2 ^ s = n div 2 ^ s * 2 ^ s + 2 ^ s" by (simp add: rounded_def Let_def)
    then show ?thesis using n r True by linarith
  next
    case False
    then have "rounded s n * 2 ^ s = n div 2 ^ s * 2 ^ s" by (simp add: rounded_def Let_def)
    then show ?thesis using n r False by linarith
  qed
qed

lemma rounded_bounds: "rounded s n = n div 2 ^ s \<or> rounded s n = n div 2 ^ s + 1"
  by (simp add: rounded_def Let_def)

lemma double_error:
  assumes "unat v < 2 ^ 64 - 1024"
  shows "\<exists>w. u64_of_double (double_of_u64 v) = Some w \<and> unat w \<le> unat v + 1024 \<and> unat v \<le> unat w + 1024"
proof (cases "top_bit (unat v) \<le> 52")
  case True
  then have "fits53 v" by (simp add: fits53_def)
  then show ?thesis using fits53_exact by auto
next
  case False
  let ?n = "unat v" let ?e = "top_bit (unat v)" let ?s = "top_bit (unat v) - 52" let ?q = "rounded (top_bit (unat v) - 52) (unat v)"
  have n: "?n \<noteq> 0"
  proof
    assume "?n = 0"
    then have "?e = 0" by (simp only: top_bit.simps [of 0]) simp
    then show False using False by simp
  qed
  have e: "?e \<le> 63" using top_bit_u64 [of v] n by simp
  have m: "2 ^ 52 \<le> ?n div 2 ^ ?s \<and> ?n div 2 ^ ?s < 2 ^ 53" using mantissa_bounds(2) [of ?n] n False by simp
  have "2 ^ ?s \<le> (2048 :: nat)" using power_increasing [of ?s 11 "2 :: nat"] e by simp
  then have s: "2 ^ ?s div 2 \<le> (1024 :: nat)" by linarith
  have r: "?q * 2 ^ ?s \<le> ?n + 1024 \<and> ?n \<le> ?q * 2 ^ ?s + 1024" using rounded_error [of ?s ?n] s by linarith
  have l: "?q * 2 ^ ?s < 2 ^ 64" using r assms by simp
  have d: "double_of_u64 v = double_bits ?e ?q" using n False by (simp add: double_of_u64_bits)
  have b: "2 ^ 52 \<le> ?q \<and> ?q \<le> 2 ^ 53" using m rounded_bounds [of ?s ?n] by linarith
  have "u64_of_double (double_bits ?e ?q) = Some (of_nat (?q * 2 ^ ?s))"
  proof (cases "?q = 2 ^ 53")
    case True
    have "?e \<noteq> 63" using l True by auto
    then have e2: "Suc ?e \<le> 63" using e by simp
    have "double_bits ?e ?q = double_bits (Suc ?e) (2 ^ 52)" by (simp add: double_bits_def True)
    moreover have "(2 :: nat) ^ 52 * 2 ^ (Suc ?e - 52) = 2 ^ 53 * 2 ^ ?s" using False by (simp flip: power_add power_Suc)
    ultimately show ?thesis using double_bits_value [of "Suc ?e" "2 ^ 52"] e2 False True by simp
  qed (use double_bits_value [of ?e ?q] e b False in simp)
  moreover have "unat (of_nat (?q * 2 ^ ?s) :: u64) = ?q * 2 ^ ?s" using l by (rule unat_u64)
  ultimately show ?thesis using d r by (intro exI [of _ "of_nat (?q * 2 ^ ?s)"]) simp
qed

text \<open>The largest 64-bit numbers are rounded to \<open>2 ^ 64\<close>, which cannot be converted back.\<close>

lemma largest_u64: "u64_of_double (double_of_u64 0xFFFFFFFFFFFFFFFF) = None"
proof -
  have n: "unat (0xFFFFFFFFFFFFFFFF :: u64) = 2 ^ 64 - 1" by simp
  have "top_bit (2 ^ 64 - 1) = 63" by (simp add: top_bit.simps)
  then have d: "double_of_u64 0xFFFFFFFFFFFFFFFF = double_bits 63 (2 ^ 53)" using double_of_u64_bits [of "0xFFFFFFFFFFFFFFFF"] unfolding n by (simp add: rounded_def Let_def)
  have "unat (double_bits 63 (2 ^ 53)) = 1087 * 2 ^ 52" using unat_double_bits [of 63 "2 ^ 53"] by simp
  then show ?thesis by (simp add: u64_of_double_def d Let_def)
qed

end
