(* ===== verification/Json.thy ===== *)
theory Json
  imports Buffer Doubles
begin

text \<open>
  The translation between structs and JSON of src/src/ld_json.c. A description lists the fields of a struct with their
  sizes, types and keys; \<open>marshel_json\<close> walks it along the bytes of the struct and builds a tree of cJSON,
  \<open>unmarshel_json\<close> walks it along a tree and fills the bytes. cJSON is a library: its functions are the record \<open>cjson_api\<close>, over an
  arbitrary type of nodes, and \<open>None\<close> is its null pointer.
\<close>

section \<open>Descriptions and memory\<close>

datatype cjson_type = cJSON_Invalid | cJSON_False | cJSON_True | cJSON_NULL | cJSON_Number | cJSON_String | cJSON_Array | cJSON_Object | cJSON_Raw

text \<open>The field \<open>desc\<close> is NULL, the address of \<open>isfloat\<close>, or the description of a nested struct. The field \<open>intro\<close> is never read.\<close>

datatype json_tmpl = Json_tmpl (jt_type: cjson_type) (jt_size: nat) (jt_key: "string option") (jt_desc: json_desc)
  and json_desc = Desc_NULL | Isfloat | Desc (jd_desc: string) (jd_tmpl: "json_tmpl list") (jd_size: nat)

text \<open>\<open>js_mem\<close> are the addresses the next allocations return; the code checks none of them, and there are enough here.\<close>

record 'j json_store =
  js_structs :: "u64 \<rightharpoonup> u8 list"
  js_buffers :: "u64 \<rightharpoonup> buffer_t"
  js_texts :: blocks
  js_nodes :: "u64 \<rightharpoonup> 'j"
  js_mem :: "u64 list"

record 'j cjson_api =
  cj_create_object :: 'j
  cj_create_array :: 'j
  cj_add_number :: "'j \<Rightarrow> string option \<Rightarrow> u64 \<Rightarrow> 'j"
  cj_add_string :: "'j \<Rightarrow> string option \<Rightarrow> string option \<Rightarrow> 'j"
  cj_add_raw :: "'j \<Rightarrow> string option \<Rightarrow> string option \<Rightarrow> 'j"
  cj_add_item :: "'j \<Rightarrow> string option \<Rightarrow> 'j \<Rightarrow> 'j"
  cj_add_to_array :: "'j \<Rightarrow> 'j \<Rightarrow> 'j"
  cj_get :: "'j option \<Rightarrow> string option \<Rightarrow> 'j option"
  cj_number_value :: "'j option \<Rightarrow> u64"
  cj_string_value :: "'j option \<Rightarrow> string option"
  cj_array_size :: "'j option \<Rightarrow> nat"
  cj_array_item :: "'j option \<Rightarrow> nat \<Rightarrow> 'j option"
  cj_print_unformatted :: "'j option \<Rightarrow> string option"
  cj_print :: "'j option \<Rightarrow> string option"

definition chars_of :: "u8 list \<Rightarrow> string" where
  "chars_of bs = map (\<lambda>b. char_of (unat b)) bs"

definition bytes_of :: "string \<Rightarrow> u8 list" where
  "bytes_of s = map (\<lambda>c. of_nat (of_char c)) s"

definition pointer_at :: "u8 list \<Rightarrow> u64 option" where
  "pointer_at ptr = map_option of_nat (read_uint ptr 8)"

text \<open>A pointer to characters: NULL, or a text that ends before its block does.\<close>

definition text_at :: "'j json_store \<Rightarrow> u64 \<Rightarrow> string option option" where
  "text_at st a = (if a = 0 then Some None else map_option Some (cstring (js_texts st) a))"

definition buffer_text :: "buffer_t \<Rightarrow> string option option" where
  "buffer_text buf =
     (case buf_ptr buf of
        None \<Rightarrow> Some None
      | Some d \<Rightarrow> if 0 \<in> set d then Some (Some (chars_of (takeWhile (\<lambda>b. b \<noteq> 0) d))) else None)"


section \<open>From structs to JSON\<close>

definition marshel_number :: "nat \<Rightarrow> json_desc \<Rightarrow> u8 list \<Rightarrow> u64 option" where
  "marshel_number size' desc ptr = do {
     n \<leftarrow> (if size' \<in> {1, 2, 4, 8} then map_option (\<lambda>v. double_of_u64 (of_nat v)) (read_uint ptr size') else Some 0);
     if desc \<noteq> Desc_NULL then u64_of_double n else Some n
   }"

function marshel_array :: "'j cjson_api \<Rightarrow> (u64 \<rightharpoonup> 'j) \<Rightarrow> u8 list \<Rightarrow> 'j \<Rightarrow> 'j option" where
  "marshel_array api nodes ele_node arr_node =
     (case pointer_at ele_node of
        None \<Rightarrow> None
      | Some a \<Rightarrow>
          if a = 0 then Some arr_node
          else case nodes a of
                 None \<Rightarrow> None
               | Some j \<Rightarrow> marshel_array api nodes (drop 8 ele_node) (cj_add_to_array api arr_node j))"
  by auto
termination
  by (relation "measure (\<lambda>(api, nodes, ele_node, arr_node). length ele_node)") (auto simp: pointer_at_def read_uint_def mem_read_def split: if_splits)

declare marshel_array.simps [simp del]

text \<open>A null pointer is no struct: the empty list, which no field can be read from.\<close>

definition struct_at :: "'j json_store \<Rightarrow> u64 \<Rightarrow> u8 list" where
  "struct_at st a = (case js_structs st a of None \<Rightarrow> [] | Some bs \<Rightarrow> bs)"

fun marshel_from :: "'j cjson_api \<Rightarrow> 'j json_store \<Rightarrow> json_tmpl list \<Rightarrow> u8 list \<Rightarrow> 'j \<Rightarrow> 'j option" where
  "marshel_from api st [] ptr init_obj = None"
| "marshel_from api st (Json_tmpl ty size' key desc # tmpl) ptr init_obj =
     (case ty of
        cJSON_Number \<Rightarrow> do {
          n \<leftarrow> marshel_number size' desc ptr;
          marshel_from api st tmpl (drop size' ptr) (cj_add_number api init_obj key n)
        }
      | cJSON_String \<Rightarrow> do {
          a \<leftarrow> pointer_at ptr;
          buf \<leftarrow> js_buffers st a;
          s \<leftarrow> buffer_text buf;
          marshel_from api st tmpl (drop size' ptr) (cj_add_string api init_obj key s)
        }
      | cJSON_Invalid \<Rightarrow> Some init_obj
      | cJSON_Object \<Rightarrow>
          (case desc of
             Desc_NULL \<Rightarrow> marshel_from api st tmpl (drop size' ptr) init_obj
           | Isfloat \<Rightarrow> None
           | Desc d child_tmpl z \<Rightarrow> do {
               a \<leftarrow> pointer_at ptr;
               obj \<leftarrow> marshel_from api st child_tmpl (struct_at st a) (cj_create_object api);
               marshel_from api st tmpl (drop size' ptr) (cj_add_item api init_obj key obj)
             })
      | cJSON_Raw \<Rightarrow> do {
          a \<leftarrow> pointer_at ptr;
          s \<leftarrow> text_at st a;
          marshel_from api st tmpl (drop size' ptr) (cj_add_raw api init_obj key s)
        }
      | cJSON_Array \<Rightarrow> do {
          arr_node \<leftarrow> marshel_array api (js_nodes st) ptr (cj_create_array api);
          marshel_from api st tmpl (drop size' ptr) (cj_add_item api init_obj key arr_node)
        }
      | _ \<Rightarrow> marshel_from api st tmpl (drop size' ptr) init_obj)"

definition marshel_json :: "'j cjson_api \<Rightarrow> 'j json_store \<Rightarrow> u8 list \<Rightarrow> json_tmpl list \<Rightarrow> 'j option" where
  "marshel_json api st struct_ptr tmpl = marshel_from api st tmpl struct_ptr (cj_create_object api)"

section \<open>From JSON to structs\<close>

definition take_mem :: "'j json_store \<Rightarrow> (u64 \<times> 'j json_store) option" where
  "take_mem st = (case js_mem st of [] \<Rightarrow> None | a # as \<Rightarrow> Some (a, st\<lparr>js_mem := as\<rparr>))"

definition unmarshel_number :: "nat \<Rightarrow> json_desc \<Rightarrow> u64 \<Rightarrow> nat \<Rightarrow> u8 list \<Rightarrow> u8 list option" where
  "unmarshel_number size' desc d off out =
     (if desc \<noteq> Desc_NULL then mem_write out off (le_bytes 8 (unat d))
      else do {
        n \<leftarrow> u64_of_double d;
        if size' \<in> {1, 2, 4, 8} then mem_write out off (le_bytes size' (unat n)) else Some out
      })"

text \<open>A buffer is made for a pointer that is NULL, and its contents are replaced.\<close>

definition unmarshel_string :: "string option \<Rightarrow> nat \<Rightarrow> 'j json_store \<times> u8 list \<Rightarrow> ('j json_store \<times> u8 list) option" where
  "unmarshel_string str off s =
     (case s of (st, out) \<Rightarrow> do {
        a \<leftarrow> pointer_at (drop off out);
        (a, st, out) \<leftarrow>
          (if a \<noteq> 0 then Some (a, st, out)
           else do {
             (a, st) \<leftarrow> take_mem st;
             out \<leftarrow> mem_write out off (le_bytes 8 (unat a));
             Some (a, st\<lparr>js_buffers := (js_buffers st)(a \<mapsto> init_buffer_unptr)\<rparr>, out)
           });
        str \<leftarrow> str;
        buf_p \<leftarrow> js_buffers st a;
        buf_p \<leftarrow> clone_to_chunk True buf_p (Some (bytes_of str @ [0])) (length str);
        Some (st\<lparr>js_buffers := (js_buffers st)(a \<mapsto> buf_p)\<rparr>, out)
      })"

definition unmarshel_raw :: "string option \<Rightarrow> nat \<Rightarrow> 'j json_store \<times> u8 list \<Rightarrow> ('j json_store \<times> u8 list) option" where
  "unmarshel_raw unf off s =
     (case s of (st, out) \<Rightarrow>
      case unf of
        None \<Rightarrow> map_option (\<lambda>out. (st, out)) (mem_write out off (le_bytes 8 0))
      | Some text \<Rightarrow> do {
          (a, st) \<leftarrow> take_mem st;
          out \<leftarrow> mem_write out off (le_bytes 8 (unat a));
          Some (st\<lparr>js_texts := (js_texts st)(a \<mapsto> text @ [CHR 0x00])\<rparr>, out)
        })"

text \<open>The items of an array are nodes of the tree: their addresses are taken from the list too.\<close>

fun unmarshel_array :: "'j cjson_api \<Rightarrow> 'j option \<Rightarrow> nat \<Rightarrow> nat \<Rightarrow> nat \<Rightarrow> 'j json_store \<times> u8 list \<Rightarrow> ('j json_store \<times> u8 list) option" where
  "unmarshel_array api child 0 i off s = Some s"
| "unmarshel_array api child (Suc n) i off (st, out) =
     (case cj_array_item api child i of
        None \<Rightarrow> do { out \<leftarrow> mem_write out (off + 8 * i) (le_bytes 8 0); unmarshel_array api child n (Suc i) off (st, out) }
      | Some j \<Rightarrow> do {
          (a, st) \<leftarrow> take_mem st;
          out \<leftarrow> mem_write out (off + 8 * i) (le_bytes 8 (unat a));
          unmarshel_array api child n (Suc i) off (st\<lparr>js_nodes := (js_nodes st)(a \<mapsto> j)\<rparr>, out)
        })"

text \<open>
  For a nested struct, a block \<open>p\<close> is allocated and its address stored; the child is then unmarshelled into the bytes of the variable
  \<open>p\<close> itself, which are lost. \<open>junk\<close> is what a new block holds.
\<close>

fun unmarshel_from :: "'j cjson_api \<Rightarrow> (nat \<Rightarrow> u8 list) \<Rightarrow> json_tmpl list \<Rightarrow> 'j option \<Rightarrow> nat \<Rightarrow> 'j json_store \<times> u8 list \<Rightarrow> ('j json_store \<times> u8 list) option" where
  "unmarshel_from api junk [] root off s = None"
| "unmarshel_from api junk (Json_tmpl ty size' key desc # tmpl) root off (st, out) =
     (let child = cj_get api root key in
      if key \<noteq> None \<and> child = None then unmarshel_from api junk tmpl root (off + size') (st, out)
      else case ty of
        cJSON_Number \<Rightarrow> do {
          out \<leftarrow> unmarshel_number size' desc (cj_number_value api child) off out;
          unmarshel_from api junk tmpl root (off + size') (st, out)
        }
      | cJSON_String \<Rightarrow> do { s \<leftarrow> unmarshel_string (cj_string_value api child) off (st, out); unmarshel_from api junk tmpl root (off + size') s }
      | cJSON_Object \<Rightarrow>
          (case desc of
             Desc_NULL \<Rightarrow> unmarshel_from api junk tmpl root (off + size') (st, out)
           | Isfloat \<Rightarrow> None
           | Desc d child_tmpl z \<Rightarrow> do {
               (p, st) \<leftarrow> take_mem st;
               out \<leftarrow> mem_write out off (le_bytes 8 (unat p));
               (st, p_bytes) \<leftarrow> unmarshel_from api junk child_tmpl child 0 (st\<lparr>js_structs := (js_structs st)(p \<mapsto> junk z)\<rparr>, le_bytes 8 (unat p));
               unmarshel_from api junk tmpl root (off + size') (st, out)
             })
      | cJSON_Raw \<Rightarrow> do { s \<leftarrow> unmarshel_raw (cj_print_unformatted api child) off (st, out); unmarshel_from api junk tmpl root (off + size') s }
      | cJSON_Array \<Rightarrow> do { s \<leftarrow> unmarshel_array api child (cj_array_size api child) 0 off (st, out); unmarshel_from api junk tmpl root (off + size') s }
      | cJSON_Invalid \<Rightarrow> Some (st, out)
      | _ \<Rightarrow> unmarshel_from api junk tmpl root (off + size') (st, out))"

definition unmarshel_json :: "'j cjson_api \<Rightarrow> (nat \<Rightarrow> u8 list) \<Rightarrow> 'j json_store \<Rightarrow> 'j option \<Rightarrow> u8 list \<Rightarrow> json_tmpl list \<Rightarrow> ('j json_store \<times> u8 list) option" where
  "unmarshel_json api junk st root struct_ptr tmpl = unmarshel_from api junk tmpl root 0 (st, struct_ptr)"


section \<open>Texts\<close>

fun get_desc_by_key :: "json_tmpl list \<Rightarrow> string \<Rightarrow> json_tmpl option option" where
  "get_desc_by_key [] key = None"
| "get_desc_by_key (t # ts) key =
     (if jt_type t = cJSON_Invalid then Some None
      else case jt_key t of None \<Rightarrow> None | Some k \<Rightarrow> if k = key then Some (Some t) else get_desc_by_key ts key)"

definition get_json_str :: "'j cjson_api \<Rightarrow> 'j json_store \<Rightarrow> u8 list \<Rightarrow> json_tmpl list option \<Rightarrow> string option \<Rightarrow> (l_err \<times> string option) option" where
  "get_json_str api st ptr desc j_str =
     (case desc of
        None \<Rightarrow> Some (LD_ERR_INTERNAL, j_str)
      | Some tmpl \<Rightarrow> do {
          data_json \<leftarrow> marshel_json api st ptr tmpl;
          Some (LD_OK, cj_print_unformatted api (Some data_json))
        })"

definition get_json_buffer :: "'j cjson_api \<Rightarrow> int \<Rightarrow> 'j option \<Rightarrow> buffer_t option option" where
  "get_json_buffer api type node =
     (if type = 0 \<or> type = 1 then do {
        out_str \<leftarrow> (if type = 0 then cj_print_unformatted api node else cj_print api node);
        map_option Some (clone_to_chunk True init_buffer_unptr (Some (bytes_of out_str @ [0])) (length out_str))
      }
      else Some None)"


section \<open>What a struct says\<close>

datatype jval = Num u64 | Real u64 | Txt string | Raw string

definition field_value :: "'j json_store \<Rightarrow> json_tmpl \<Rightarrow> u8 list \<Rightarrow> jval option" where
  "field_value st t p =
     (if jt_type t = cJSON_Number then map_option (\<lambda>n. (if jt_desc t = Desc_NULL then Num else Real) (of_nat n)) (read_uint p (jt_size t))
      else if jt_type t = cJSON_String then pointer_at p \<bind> js_buffers st \<bind> buffer_text \<bind> map_option Txt
      else if jt_type t = cJSON_Raw then pointer_at p \<bind> text_at st \<bind> map_option Raw
      else None)"

fun struct_value :: "'j json_store \<Rightarrow> json_tmpl list \<Rightarrow> u8 list \<Rightarrow> jval option list" where
  "struct_value st [] ptr = []"
| "struct_value st (t # ts) ptr = field_value st t ptr # struct_value st ts (drop (jt_size t) ptr)"

definition room :: "json_tmpl list \<Rightarrow> nat" where
  "room ts = sum_list (map jt_size ts)"

definition tolower :: "char \<Rightarrow> char" where
  "tolower c = (if 65 \<le> (of_char c :: nat) \<and> (of_char c :: nat) \<le> 90 then char_of ((of_char c :: nat) + 32) else c)"

text \<open>Keys are looked up without regard to case.\<close>

definition key_of :: "json_tmpl \<Rightarrow> string" where
  "key_of t = map tolower (the (jt_key t))"

definition tmpl_ok :: "json_tmpl \<Rightarrow> bool" where
  "tmpl_ok t \<longleftrightarrow> jt_key t \<noteq> None \<and>
     (jt_type t = cJSON_Number \<and> (jt_desc t = Desc_NULL \<and> jt_size t \<in> {1, 2, 4, 8} \<or> jt_desc t = Isfloat \<and> jt_size t = 8) \<or>
      jt_type t \<in> {cJSON_String, cJSON_Raw} \<and> jt_size t = 8)"

text \<open>The end of a description is a field without a key.\<close>

definition describes :: "json_tmpl list \<Rightarrow> json_tmpl list \<Rightarrow> bool" where
  "describes gs tmpl \<longleftrightarrow> (\<exists>e rest. tmpl = gs @ e # rest \<and> jt_type e = cJSON_Invalid \<and> jt_key e = None) \<and> (\<forall>g \<in> set gs. tmpl_ok g) \<and> distinct (map key_of gs)"

lemma describes_Cons: "describes (g # gs) tmpl \<Longrightarrow> \<exists>tmpl'. tmpl = g # tmpl' \<and> describes gs tmpl' \<and> tmpl_ok g \<and> key_of g \<notin> key_of ` set gs"
  by (auto simp: describes_def)

lemma describes_Nil: "describes [] tmpl \<Longrightarrow> \<exists>e rest. tmpl = e # rest \<and> jt_type e = cJSON_Invalid \<and> jt_key e = None"
  by (auto simp: describes_def)

text \<open>
  What cJSON documents of the functions used here: an added item is found under its key, whatever the case of its letters, when
  there was none before; other keys are not affected; a number, a string and a raw text are given back as they were.
\<close>

definition adds :: "'j cjson_api \<Rightarrow> ('j \<Rightarrow> string option \<Rightarrow> 'j) \<Rightarrow> ('j option \<Rightarrow> bool) \<Rightarrow> bool" where
  "adds api add P \<longleftrightarrow> (\<forall>obj k k'.
     (map tolower k = map tolower k' \<and> cj_get api (Some obj) (Some k') = None \<longrightarrow>
        cj_get api (Some (add obj (Some k))) (Some k') \<noteq> None \<and> P (cj_get api (Some (add obj (Some k))) (Some k'))) \<and>
     (map tolower k \<noteq> map tolower k' \<longrightarrow> cj_get api (Some (add obj (Some k))) (Some k') = cj_get api (Some obj) (Some k')))"

definition cjson_laws :: "'j cjson_api \<Rightarrow> bool" where
  "cjson_laws api \<longleftrightarrow>
     (\<forall>k. cj_get api (Some (cj_create_object api)) k = None) \<and>
     (\<forall>d. adds api (\<lambda>obj k. cj_add_number api obj k d) (\<lambda>c. cj_number_value api c = d)) \<and>
     (\<forall>s. adds api (\<lambda>obj k. cj_add_string api obj k (Some s)) (\<lambda>c. cj_string_value api c = Some s)) \<and>
     (\<forall>s. adds api (\<lambda>obj k. cj_add_raw api obj k (Some s)) (\<lambda>c. cj_print_unformatted api c = Some s))"

text \<open>A node that carries a value, and a value that has arrived.\<close>

fun carries :: "'j cjson_api \<Rightarrow> jval \<Rightarrow> 'j option \<Rightarrow> bool" where
  "carries api (Num v) c \<longleftrightarrow> cj_number_value api c = double_of_u64 v"
| "carries api (Real v) c \<longleftrightarrow> Some (cj_number_value api c) = u64_of_double (double_of_u64 v)"
| "carries api (Txt s) c \<longleftrightarrow> cj_string_value api c = Some s"
| "carries api (Raw s) c \<longleftrightarrow> cj_print_unformatted api c = Some s"

definition near :: "u64 \<Rightarrow> u64 \<Rightarrow> bool" where
  "near v w \<longleftrightarrow> (fits53 v \<longrightarrow> w = v) \<and> unat w \<le> unat v + 1024 \<and> unat v \<le> unat w + 1024"

fun arrives :: "jval \<Rightarrow> jval \<Rightarrow> bool" where
  "arrives (Num v) x \<longleftrightarrow> (\<exists>w. x = Num w \<and> near v w)"
| "arrives (Real v) x \<longleftrightarrow> (\<exists>w. x = Real w \<and> near v w)"
| "arrives (Txt s) x \<longleftrightarrow> x = Txt s"
| "arrives (Raw s) x \<longleftrightarrow> x = Raw s"

fun sendable :: "jval \<Rightarrow> bool" where
  "sendable (Num v) \<longleftrightarrow> unat v < 2 ^ 64 - 1024"
| "sendable (Real v) \<longleftrightarrow> unat v < 2 ^ 64 - 1024"
| "sendable (Txt s) \<longleftrightarrow> True"
| "sendable (Raw s) \<longleftrightarrow> True"

lemma near_double: "unat v < 2 ^ 64 - 1024 \<Longrightarrow> \<exists>w. u64_of_double (double_of_u64 v) = Some w \<and> near v w"
  using double_error [of v] fits53_exact [of v] by (auto simp: near_def)

lemma marshel_step:
  assumes "cjson_laws api" "tmpl_ok g" "g = Json_tmpl ty sz (Some key) desc" "field_value st g ptr = Some v" "sendable v"
  shows "\<exists>add P. adds api add P \<and> (\<forall>c. P c \<longrightarrow> carries api v c) \<and> (\<forall>tmpl obj. marshel_from api st (g # tmpl) ptr obj = marshel_from api st tmpl (drop sz ptr) (add obj (Some key)))"
proof -
  consider (num) "ty = cJSON_Number" | (str) "ty = cJSON_String" | (raw) "ty = cJSON_Raw" using assms(2,3) by (auto simp: tmpl_ok_def)
  then show ?thesis
  proof cases
    case num
    obtain n where n: "read_uint ptr sz = Some n" "v = (if desc = Desc_NULL then Num else Real) (of_nat n)" using assms(4,3) num by (auto simp: field_value_def)
    have sz: "sz \<in> {1, 2, 4, 8}" using assms(2,3) num by (auto simp: tmpl_ok_def)
    obtain w where w: "u64_of_double (double_of_u64 (of_nat n)) = Some w" using near_double [of "of_nat n"] assms(5) n(2) by (auto split: if_splits)
    let ?d = "if desc = Desc_NULL then double_of_u64 (of_nat n) else w"
    have "marshel_number sz desc ptr = Some ?d" using n(1) sz w by (auto simp: marshel_number_def)
    moreover have "adds api (\<lambda>obj k. cj_add_number api obj k ?d) (\<lambda>c. cj_number_value api c = ?d)" using assms(1) by (simp add: cjson_laws_def)
    moreover have "\<forall>c. cj_number_value api c = ?d \<longrightarrow> carries api v c" using n(2) w by simp
    ultimately show ?thesis using assms(3) num by (intro exI [of _ "\<lambda>obj k. cj_add_number api obj k ?d"] exI [of _ "\<lambda>c. cj_number_value api c = ?d"]) simp
  next
    case str
    then obtain a buf s where b: "pointer_at ptr = Some a" "js_buffers st a = Some buf" "buffer_text buf = Some (Some s)" "v = Txt s"
      using assms(4,3) by (auto simp: field_value_def split: bind_splits)
    have "adds api (\<lambda>obj k. cj_add_string api obj k (Some s)) (\<lambda>c. cj_string_value api c = Some s)" using assms(1) by (simp add: cjson_laws_def)
    then show ?thesis using assms(3) str b by (intro exI [of _ "\<lambda>obj k. cj_add_string api obj k (Some s)"] exI [of _ "\<lambda>c. cj_string_value api c = Some s"]) simp
  next
    case raw
    then obtain a s where b: "pointer_at ptr = Some a" "text_at st a = Some (Some s)" "v = Raw s"
      using assms(4,3) by (auto simp: field_value_def split: bind_splits)
    have "adds api (\<lambda>obj k. cj_add_raw api obj k (Some s)) (\<lambda>c. cj_print_unformatted api c = Some s)" using assms(1) by (simp add: cjson_laws_def)
    then show ?thesis using assms(3) raw b by (intro exI [of _ "\<lambda>obj k. cj_add_raw api obj k (Some s)"] exI [of _ "\<lambda>c. cj_print_unformatted api c = Some s"]) simp
  qed
qed

lemma marshel_from_ok:
  assumes "cjson_laws api" "describes gs tmpl" "struct_value st gs ptr = map Some vs" "list_all sendable vs"
    "\<And>g. g \<in> set gs \<Longrightarrow> cj_get api (Some obj) (jt_key g) = None"
  shows "\<exists>obj'. marshel_from api st tmpl ptr obj = Some obj' \<and>
    list_all2 (\<lambda>g v. cj_get api (Some obj') (jt_key g) \<noteq> None \<and> carries api v (cj_get api (Some obj') (jt_key g))) gs vs \<and>
    (\<forall>k. map tolower k \<notin> key_of ` set gs \<longrightarrow> cj_get api (Some obj') (Some k) = cj_get api (Some obj) (Some k))"
  using assms(2-5)
proof (induction gs arbitrary: tmpl ptr vs obj)
  case Nil
  then obtain e rest where "tmpl = e # rest" "jt_type e = cJSON_Invalid" using describes_Nil by blast
  then show ?case using Nil by (cases e) simp
next
  case (Cons g gs)
  obtain tmpl' where t: "tmpl = g # tmpl'" "describes gs tmpl'" "tmpl_ok g" "key_of g \<notin> key_of ` set gs" using describes_Cons [OF Cons.prems(1)] by blast
  obtain v vs' where v: "vs = v # vs'" "field_value st g ptr = Some v" "struct_value st gs (drop (jt_size g) ptr) = map Some vs'"
    using Cons.prems(2) by (cases vs) auto
  obtain ty sz key desc where g: "g = Json_tmpl ty sz (Some key) desc" using t(3) by (cases g) (auto simp: tmpl_ok_def)
  have ks: "map tolower key \<noteq> map tolower (the (jt_key h)) \<and> jt_key h \<noteq> None" if "h \<in> set gs" for h
    using t(2,4) that g by (force simp: key_of_def describes_def tmpl_ok_def)
  obtain add P where a: "adds api add P" "\<And>c. P c \<Longrightarrow> carries api v c" "marshel_from api st tmpl ptr obj = marshel_from api st tmpl' (drop sz ptr) (add obj (Some key))"
    using marshel_step [OF assms(1) t(3) g v(2)] Cons.prems(3) v(1) t(1) by auto
  let ?o = "add obj (Some key)"
  have here: "cj_get api (Some ?o) (Some key) \<noteq> None \<and> P (cj_get api (Some ?o) (Some key))" using a(1) Cons.prems(4) [of g] g by (simp add: adds_def)
  have other: "cj_get api (Some ?o) (Some k) = cj_get api (Some obj) (Some k)" if "map tolower key \<noteq> map tolower k" for k using a(1) that by (simp add: adds_def)
  have "cj_get api (Some ?o) (jt_key h) = None" if "h \<in> set gs" for h using other [of "the (jt_key h)"] ks [OF that] Cons.prems(4) [of h] that by auto
  then obtain obj' where o: "marshel_from api st tmpl' (drop sz ptr) ?o = Some obj'"
    "list_all2 (\<lambda>g v. cj_get api (Some obj') (jt_key g) \<noteq> None \<and> carries api v (cj_get api (Some obj') (jt_key g))) gs vs'"
    "\<forall>k. map tolower k \<notin> key_of ` set gs \<longrightarrow> cj_get api (Some obj') (Some k) = cj_get api (Some ?o) (Some k)"
    using Cons.IH [OF t(2), of "drop sz ptr" vs' ?o] v g Cons.prems(3) by auto
  have k: "cj_get api (Some obj') (Some key) = cj_get api (Some ?o) (Some key)" using o(3) t(4) g by (simp add: key_of_def)
  show ?case using o a(2,3) here k other v(1) g by (intro exI [of _ obj']) (auto simp: key_of_def)
qed


lemma uint_val_bound: "uint_val bs < 256 ^ length bs"
proof (induction bs)
  case (Cons b bs)
  have "unat b < 256" using unsigned_less [of b] by simp
  moreover have "uint_val bs + 1 \<le> 256 ^ length bs" using Cons by simp
  moreover obtain m :: nat where m: "256 ^ length bs = m" by simp
  ultimately have "unat b + 256 * uint_val bs < 256 * m" by linarith
  then show ?case using m by simp
qed simp

lemma uint_val_zeros: "set bs \<subseteq> {0} \<Longrightarrow> uint_val bs = 0"
  by (induction bs) simp_all

lemma read_uint_front: "length fb = n \<Longrightarrow> read_uint (fb @ x) n = Some (uint_val fb)"
  by (simp add: read_uint_def mem_read_def)

lemma pointer_at_front: "pointer_at (le_bytes 8 (unat a) @ x) = Some a"
proof -
  have "unat a < 256 ^ 8" using unsigned_less [of a] by simp
  then have "of_nat (uint_val (le_bytes 8 (unat a))) = a" unfolding uint_val_bytes by (simp del: power_numeral)
  then show ?thesis by (simp add: pointer_at_def read_uint_front)
qed

lemma field_value_front: "tmpl_ok g \<Longrightarrow> length fb = jt_size g \<Longrightarrow> field_value st g (fb @ x) = field_value st g fb"
  using read_uint_front [of fb _ x] read_uint_front [of fb _ "[]"] by (auto simp: tmpl_ok_def field_value_def pointer_at_def)

lemma chars_of_bytes: "chars_of (bytes_of s) = s"
proof -
  have "char_of (unat (of_nat (of_char c) :: u8)) = c" for c :: char
  proof -
    have "of_char c < (256 :: nat)" by simp
    then have "unat (of_nat (of_char c) :: u8) = of_char c" by (simp add: unat_of_nat_small)
    then show ?thesis by simp
  qed
  then show ?thesis by (simp add: chars_of_def bytes_of_def map_idI)
qed

lemma bytes_of_ne: "CHR 0x00 \<notin> set s \<Longrightarrow> b \<in> set (bytes_of s) \<Longrightarrow> b \<noteq> 0"
proof -
  assume "CHR 0x00 \<notin> set s" "b \<in> set (bytes_of s)"
  then obtain c where "c \<in> set s" and c2: "b = of_nat (of_char c)" unfolding bytes_of_def set_map by blast
  then have c: "c \<noteq> CHR 0x00" using \<open>CHR 0x00 \<notin> set s\<close> by blast
  have "of_char c < (256 :: nat)" by simp
  then have "unat b = of_char c" unfolding c2 by (simp add: unat_of_nat_small)
  moreover have "of_char c \<noteq> (of_char (CHR 0x00) :: nat)" using c by (simp only: of_char_eq_iff) simp
  ultimately show "b \<noteq> 0" by auto
qed

lemma cloned_text:
  assumes "CHR 0x00 \<notin> set s"
  shows "\<exists>buf. clone_to_chunk True ch (Some (bytes_of s @ [0])) (length s) = Some buf \<and> buffer_text buf = Some (Some s)"
proof -
  have l: "length (bytes_of s) = length s" by (simp add: bytes_of_def)
  have "length s \<le> length (bytes_of s @ [0])" "take (length s) (bytes_of s @ [0]) = bytes_of s" using l by simp_all
  then have "clone_to_chunk True ch (Some (bytes_of s @ [0])) (length s) = Some \<lparr>buf_len = length s, buf_total = length s, buf_free = 0, buf_ptr = Some (bytes_of s @ [0])\<rparr>"
    by (simp only: clone_to_chunk_bytes)
  then obtain buf where b: "clone_to_chunk True ch (Some (bytes_of s @ [0])) (length s) = Some buf" "buf_ptr buf = Some (bytes_of s @ [0])" by simp
  have "takeWhile (\<lambda>b. b \<noteq> 0) (bytes_of s @ [0]) = bytes_of s" using bytes_of_ne [OF assms] by (subst takeWhile_append2) auto
  then show ?thesis using b by (simp add: buffer_text_def chars_of_bytes)
qed

text \<open>The texts of a struct have no zero in them, and the type of a value is the type of its field.\<close>

definition plain :: "json_tmpl \<Rightarrow> jval \<Rightarrow> bool" where
  "plain g v \<longleftrightarrow>
     (case v of
        Num n \<Rightarrow> jt_type g = cJSON_Number \<and> jt_desc g = Desc_NULL \<and> unat n < 256 ^ jt_size g
      | Real n \<Rightarrow> jt_type g = cJSON_Number \<and> jt_desc g \<noteq> Desc_NULL
      | Txt s \<Rightarrow> jt_type g = cJSON_String \<and> CHR 0x00 \<notin> set s
      | Raw s \<Rightarrow> jt_type g = cJSON_Raw \<and> CHR 0x00 \<notin> set s)"

lemma field_value_plain: "tmpl_ok g \<Longrightarrow> field_value st g p = Some v \<Longrightarrow> plain g v"
proof -
  assume g: "tmpl_ok g" "field_value st g p = Some v"
  have c: "CHR 0x00 \<notin> set (chars_of (takeWhile (\<lambda>b. b \<noteq> 0) d))" for d
  proof
    assume "CHR 0x00 \<in> set (chars_of (takeWhile (\<lambda>b. b \<noteq> 0) d))"
    then obtain b where "b \<in> set (takeWhile (\<lambda>b. b \<noteq> 0) d)" "char_of (unat b) = CHR 0x00" by (auto simp: chars_of_def)
    then have "b \<noteq> 0" "of_char (char_of (unat b)) = (0 :: nat)" by (auto dest: set_takeWhileD)
    then show False using unsigned_less [of b] by (simp add: unat_eq_zero)
  qed
  have t: "CHR 0x00 \<notin> set s" if "cstring h a = Some s" for h a s using that by (auto simp: cstring_def dest: set_takeWhileD split: option.splits if_splits)
  have n: "unat (of_nat n :: u64) < 256 ^ jt_size g" if "read_uint p (jt_size g) = Some n" for n
  proof -
    have "n < 256 ^ jt_size g" using that uint_val_bound [of "take (jt_size g) p"] by (auto simp: read_uint_def mem_read_def split: if_splits)
    moreover have "unat (of_nat n :: u64) \<le> n" by (simp add: unsigned_of_nat take_bit_nat_less_eq_self)
    ultimately show ?thesis by simp
  qed
  show "plain g v" using g c t n
    by (auto simp: field_value_def plain_def tmpl_ok_def buffer_text_def text_at_def split: if_splits bind_splits option.splits)
qed


definition kept :: "'j json_store \<Rightarrow> 'j json_store \<Rightarrow> bool" where
  "kept st st' \<longleftrightarrow> set (js_mem st') \<subseteq> set (js_mem st) \<and> (\<forall>a. a \<notin> set (js_mem st) \<longrightarrow> js_buffers st' a = js_buffers st a \<and> js_texts st' a = js_texts st a)"

lemma kept_trans:
  assumes "kept st st1" "kept st1 st2"
  shows "kept st st2"
proof -
  have "set (js_mem st1) \<subseteq> set (js_mem st)" "set (js_mem st2) \<subseteq> set (js_mem st1)" using assms unfolding kept_def by iprover+
  moreover from this have "js_buffers st2 a = js_buffers st a \<and> js_texts st2 a = js_texts st a" if "a \<notin> set (js_mem st)" for a
  proof -
    have a: "a \<notin> set (js_mem st1)" using that calculation(1) by blast
    have "js_buffers st2 a = js_buffers st1 a \<and> js_texts st2 a = js_texts st1 a" using assms(2) a unfolding kept_def by iprover
    moreover have "js_buffers st1 a = js_buffers st a \<and> js_texts st1 a = js_texts st a" using assms(1) that unfolding kept_def by iprover
    ultimately show ?thesis by simp
  qed
  ultimately show ?thesis unfolding kept_def by blast
qed

lemma kept_refl [simp]: "kept st st"
  by (simp add: kept_def)

lemma mem_write_middle: "off = length pre \<Longrightarrow> length bs = n \<Longrightarrow> n \<le> length mid \<Longrightarrow> mem_write (pre @ mid) off bs = Some (pre @ bs @ drop n mid)"
  by (simp add: mem_write_def)

lemma near_small: "near v w \<Longrightarrow> unat v < 256 ^ n \<Longrightarrow> n \<in> {1, 2, 4} \<Longrightarrow> w = v"
proof -
  assume n: "near v w" "unat v < 256 ^ n" "n \<in> {1, 2, 4}"
  have "(256 :: nat) ^ n \<le> 256 ^ 4" using n(3) by auto
  then have "unat v \<le> 2 ^ 53" using n(2) by simp
  then show ?thesis using n(1) fits53_less by (simp add: near_def)
qed

text \<open>One field: its bytes are filled in, and its value stays what it is whatever the later fields do.\<close>

lemma unmarshel_number_ok:
  fixes api :: "'j cjson_api"
  assumes "plain g v" "tmpl_ok g" "jt_type g = cJSON_Number" "carries api v c" "sendable v" "off = length pre" "jt_size g \<le> length mid"
  shows "\<exists>fb v'. length fb = jt_size g \<and> unmarshel_number (jt_size g) (jt_desc g) (cj_number_value api c) off (pre @ mid) = Some (pre @ fb @ drop (jt_size g) mid) \<and>
    (\<forall>st :: 'j json_store. field_value st g fb = Some v') \<and> arrives v v'"
proof (cases "jt_desc g = Desc_NULL")
  case True
  then obtain n where v: "v = Num n" "unat n < 256 ^ jt_size g" using assms(1,3) by (cases v) (auto simp: plain_def)
  have s: "jt_size g \<in> {1, 2, 4, 8}" using assms(2,3) True by (auto simp: tmpl_ok_def)
  obtain w where w: "u64_of_double (double_of_u64 n) = Some w" "near n w" using near_double [of n] assms(5) v by auto
  have "unat w < 256 ^ jt_size g"
  proof (cases "jt_size g = 8")
    case True
    then show ?thesis using unsigned_less [of w] by simp
  next
    case False
    then show ?thesis using near_small [OF w(2) v(2)] s v(2) by auto
  qed
  then have u: "uint_val (le_bytes (jt_size g) (unat w)) = unat w" by (simp add: uint_val_bytes)
  have "read_uint (le_bytes (jt_size g) (unat w)) (jt_size g) = Some (unat w)" using read_uint_front [of "le_bytes (jt_size g) (unat w)" "jt_size g" "[]"] u by simp
  then have "field_value st g (le_bytes (jt_size g) (unat w)) = Some (Num w)" for st :: "'j json_store" using assms(3) True by (simp add: field_value_def)
  then show ?thesis using assms(4,6,7) True v(1) w s
    by (intro exI [of _ "le_bytes (jt_size g) (unat w)"] exI [of _ "Num w"]) (auto simp: unmarshel_number_def mem_write_middle)
next
  case False
  then obtain n where v: "v = Real n" using assms(1,3) by (cases v) (auto simp: plain_def)
  have s: "jt_size g = 8" using assms(2,3) False by (auto simp: tmpl_ok_def)
  obtain w where w: "u64_of_double (double_of_u64 n) = Some w" "near n w" using near_double [of n] assms(5) v by auto
  have "unat w < 256 ^ 8" using unsigned_less [of w] by simp
  then have "uint_val (le_bytes 8 (unat w)) = unat w" by (simp only: uint_val_bytes mod_less)
  then have "read_uint (le_bytes 8 (unat w)) 8 = Some (unat w)" using read_uint_front [of "le_bytes 8 (unat w)" 8 "[]"] by simp
  then have "field_value st g (le_bytes 8 (unat w)) = Some (Real w)" for st :: "'j json_store" using assms(3) False s by (simp add: field_value_def)
  then show ?thesis using assms(4,6,7) False v w s
    by (intro exI [of _ "le_bytes 8 (unat w)"] exI [of _ "Real w"]) (auto simp: unmarshel_number_def mem_write_middle)
qed

lemma unmarshel_string_ok:
  assumes "CHR 0x00 \<notin> set s" "jt_type g = cJSON_String" "js_mem st = a # as" "a \<noteq> 0" "a \<notin> set as" "off = length pre" "8 \<le> length mid" "set mid \<subseteq> {0}"
  shows "\<exists>st'. unmarshel_string (Some s) off (st, pre @ mid) = Some (st', pre @ le_bytes 8 (unat a) @ drop 8 mid) \<and> js_mem st' = as \<and> kept st st' \<and>
    (\<forall>st''. kept st' st'' \<longrightarrow> field_value st'' g (le_bytes 8 (unat a)) = Some (Txt s))"
proof -
  obtain buf where b: "clone_to_chunk True init_buffer_unptr (Some (bytes_of s @ [0])) (length s) = Some buf" "buffer_text buf = Some (Some s)" using cloned_text [OF assms(1)] by blast
  have "uint_val (take 8 mid) = 0" using assms(8) by (intro uint_val_zeros) (auto dest: in_set_takeD)
  then have p: "pointer_at (drop off (pre @ mid)) = Some 0" using assms(6,7) by (simp add: pointer_at_def read_uint_def mem_read_def)
  let ?st = "st\<lparr>js_mem := as, js_buffers := (js_buffers st)(a \<mapsto> buf)\<rparr>"
  have "unmarshel_string (Some s) off (st, pre @ mid) = Some (?st, pre @ le_bytes 8 (unat a) @ drop 8 mid)"
    unfolding unmarshel_string_def using p assms(3,6,7) b(1) by (simp add: take_mem_def mem_write_middle)
  moreover have "field_value st'' g (le_bytes 8 (unat a)) = Some (Txt s)" if "kept ?st st''" for st''
    using that assms(2,5) b(2) pointer_at_front [of a "[]"] by (simp add: kept_def field_value_def)
  ultimately show ?thesis using assms(3) by (intro exI [of _ ?st]) (auto simp: kept_def)
qed

lemma unmarshel_raw_ok:
  assumes "CHR 0x00 \<notin> set s" "jt_type g = cJSON_Raw" "js_mem st = a # as" "a \<noteq> 0" "a \<notin> set as" "off = length pre" "8 \<le> length mid"
  shows "\<exists>st'. unmarshel_raw (Some s) off (st, pre @ mid) = Some (st', pre @ le_bytes 8 (unat a) @ drop 8 mid) \<and> js_mem st' = as \<and> kept st st' \<and>
    (\<forall>st''. kept st' st'' \<longrightarrow> field_value st'' g (le_bytes 8 (unat a)) = Some (Raw s))"
proof -
  let ?st = "st\<lparr>js_mem := as, js_texts := (js_texts st)(a \<mapsto> s @ [CHR 0x00])\<rparr>"
  have "unmarshel_raw (Some s) off (st, pre @ mid) = Some (?st, pre @ le_bytes 8 (unat a) @ drop 8 mid)"
    unfolding unmarshel_raw_def using assms(3,6,7) by (simp add: take_mem_def mem_write_middle)
  moreover have "field_value st'' g (le_bytes 8 (unat a)) = Some (Raw s)" if "kept ?st st''" for st''
  proof -
    have "takeWhile (\<lambda>c. c \<noteq> CHR 0x00) (s @ [CHR 0x00]) = s" using assms(1) by (subst takeWhile_append2) auto
    then have "cstring (js_texts st'') a = Some s" using that assms(5) by (simp add: kept_def cstring_def)
    then show ?thesis using assms(2,4) pointer_at_front [of a "[]"] by (simp add: field_value_def text_at_def)
  qed
  ultimately show ?thesis using assms(3) by (intro exI [of _ ?st]) (auto simp: kept_def)
qed


lemma unmarshel_step:
  fixes api :: "'j cjson_api"
  assumes "tmpl_ok g" "plain g v" "sendable v" "cj_get api root (jt_key g) \<noteq> None" "carries api v (cj_get api root (jt_key g))"
    "js_mem st = a # as" "a \<noteq> 0" "a \<notin> set as" "off = length pre" "jt_size g \<le> length mid" "set mid \<subseteq> {0}"
  shows "\<exists>st' fb v'. length fb = jt_size g \<and> (\<forall>tmpl. unmarshel_from api junk (g # tmpl) root off (st, pre @ mid) = unmarshel_from api junk tmpl root (off + jt_size g) (st', pre @ fb @ drop (jt_size g) mid)) \<and>
    js_mem st' \<in> {a # as, as} \<and> kept st st' \<and> arrives v v' \<and> (\<forall>st''. kept st' st'' \<longrightarrow> field_value st'' g fb = Some v')"
proof -
  obtain ty sz key desc where g: "g = Json_tmpl ty sz key desc" by (cases g)
  consider (num) "ty = cJSON_Number" | (str) "ty = cJSON_String" "sz = 8" | (raw) "ty = cJSON_Raw" "sz = 8" using assms(1) g by (auto simp: tmpl_ok_def)
  then show ?thesis
  proof cases
    case num
    then have "jt_type g = cJSON_Number" using g by simp
    from unmarshel_number_ok [OF assms(2,1) this assms(5,3,9,10)] obtain fb v' where
      "length fb = jt_size g" "unmarshel_number (jt_size g) (jt_desc g) (cj_number_value api (cj_get api root (jt_key g))) off (pre @ mid) = Some (pre @ fb @ drop (jt_size g) mid)"
      "\<forall>st :: 'j json_store. field_value st g fb = Some v'" "arrives v v'" by blast
    then show ?thesis using num assms(4,6) g by (intro exI [of _ st] exI [of _ fb] exI [of _ v']) (auto simp: Let_def)
  next
    case str
    then obtain s where s: "v = Txt s" "CHR 0x00 \<notin> set s" using assms(2) g by (cases v) (auto simp: plain_def)
    have l: "8 \<le> length mid" "jt_type g = cJSON_String" using assms(10) g str by simp_all
    from unmarshel_string_ok [OF s(2) l(2) assms(6-9) l(1) assms(11)] obtain st' where
      "unmarshel_string (Some s) off (st, pre @ mid) = Some (st', pre @ le_bytes 8 (unat a) @ drop 8 mid)" "js_mem st' = as" "kept st st'"
      "\<forall>st''. kept st' st'' \<longrightarrow> field_value st'' g (le_bytes 8 (unat a)) = Some (Txt s)" by blast
    then show ?thesis using str assms(4,5) g s(1) by (intro exI [of _ st'] exI [of _ "le_bytes 8 (unat a)"] exI [of _ "Txt s"]) (auto simp: Let_def)
  next
    case raw
    then obtain s where s: "v = Raw s" "CHR 0x00 \<notin> set s" using assms(2) g by (cases v) (auto simp: plain_def)
    have l: "8 \<le> length mid" "jt_type g = cJSON_Raw" using assms(10) g raw by simp_all
    from unmarshel_raw_ok [OF s(2) l(2) assms(6-9) l(1)] obtain st' where
      "unmarshel_raw (Some s) off (st, pre @ mid) = Some (st', pre @ le_bytes 8 (unat a) @ drop 8 mid)" "js_mem st' = as" "kept st st'"
      "\<forall>st''. kept st' st'' \<longrightarrow> field_value st'' g (le_bytes 8 (unat a)) = Some (Raw s)" by blast
    then show ?thesis using raw assms(4,5) g s(1) by (intro exI [of _ st'] exI [of _ "le_bytes 8 (unat a)"] exI [of _ "Raw s"]) (auto simp: Let_def)
  qed
qed

lemma unmarshel_from_ok:
  fixes api :: "'j cjson_api"
  assumes "describes gs tmpl" "list_all2 (\<lambda>g v. cj_get api root (jt_key g) \<noteq> None \<and> carries api v (cj_get api root (jt_key g))) gs vs"
    "list_all2 plain gs vs" "list_all sendable vs" "distinct (js_mem st)" "0 \<notin> set (js_mem st)" "length gs \<le> length (js_mem st)"
    "off = length pre" "room gs \<le> length mid" "set mid \<subseteq> {0}"
  shows "\<exists>st' bs vs'. unmarshel_from api junk tmpl root off (st, pre @ mid) = Some (st', pre @ bs @ drop (room gs) mid) \<and> length bs = room gs \<and>
    kept st st' \<and> list_all2 arrives vs vs' \<and> struct_value st' gs bs = map Some vs'"
  using assms
proof (induction gs arbitrary: tmpl vs st off pre mid)
  case Nil
  then obtain e rest where e: "tmpl = e # rest" "jt_type e = cJSON_Invalid" "jt_key e = None" using describes_Nil by blast
  then show ?case using Nil by (cases e) (auto simp: Let_def room_def intro!: exI [of _ "[]"])
next
  case (Cons g gs)
  obtain tmpl' where t: "tmpl = g # tmpl'" "describes gs tmpl'" "tmpl_ok g" using describes_Cons [OF Cons.prems(1)] by blast
  obtain v vs' where v: "vs = v # vs'" using Cons.prems(2) by (cases vs) auto
  obtain a as where m: "js_mem st = a # as" using Cons.prems(7) by (cases "js_mem st") auto
  have a: "a \<noteq> 0" "a \<notin> set as" using Cons.prems(5,6) m by auto
  have r: "jt_size g \<le> length mid" using Cons.prems(9) by (simp add: room_def)
  have p: "plain g v" "sendable v" "cj_get api root (jt_key g) \<noteq> None" "carries api v (cj_get api root (jt_key g))" using Cons.prems(2-4) v by auto
  from unmarshel_step [OF t(3) p m a Cons.prems(8) r Cons.prems(10)] obtain st1 fb w where s: "length fb = jt_size g"
    "\<forall>tmpl. unmarshel_from api junk (g # tmpl) root off (st, pre @ mid) = unmarshel_from api junk tmpl root (off + jt_size g) (st1, pre @ fb @ drop (jt_size g) mid)"
    "js_mem st1 \<in> {a # as, as}" "kept st st1" "arrives v w" "\<forall>st''. kept st1 st'' \<longrightarrow> field_value st'' g fb = Some w" by blast
  have m1: "distinct (js_mem st1)" "0 \<notin> set (js_mem st1)" "length gs \<le> length (js_mem st1)" using s(3) Cons.prems(5-7) m by auto
  have z: "set (drop (jt_size g) mid) \<subseteq> {0}" using Cons.prems(10) by (auto dest: in_set_dropD)
  have l: "list_all2 (\<lambda>g v. cj_get api root (jt_key g) \<noteq> None \<and> carries api v (cj_get api root (jt_key g))) gs vs'" "list_all2 plain gs vs'" "list_all sendable vs'"
    "off + jt_size g = length (pre @ fb)" "room gs \<le> length (drop (jt_size g) mid)" using Cons.prems(2-4,8,9) v s(1) by (auto simp: room_def)
  from Cons.IH [OF t(2) l(1-3) m1 l(4,5) z] obtain st' bs ws where i:
    "unmarshel_from api junk tmpl' root (off + jt_size g) (st1, (pre @ fb) @ drop (jt_size g) mid) = Some (st', (pre @ fb) @ bs @ drop (room gs) (drop (jt_size g) mid))"
    "length bs = room gs" "kept st1 st'" "list_all2 arrives vs' ws" "struct_value st' gs bs = map Some ws" by blast
  have "field_value st' g fb = Some w" using s(6) i(3) by blast
  then have "struct_value st' (g # gs) (fb @ bs) = map Some (w # ws)" using s(1) i(5) field_value_front [OF t(3) s(1), of st' bs] by simp
  then show ?case using i s(1,2,5) t(1) v kept_trans [OF s(4) i(3)]
    by (intro exI [of _ st'] exI [of _ "fb @ bs"] exI [of _ "w # ws"]) (simp add: room_def add.commute)
qed

lemma struct_value_plain:
  assumes "\<forall>g \<in> set gs. tmpl_ok g" "struct_value st gs ptr = map Some vs"
  shows "list_all2 plain gs vs"
  using assms
proof (induction gs arbitrary: ptr vs)
  case (Cons g gs)
  then obtain v vs' where "vs = v # vs'" "field_value st g ptr = Some v" "struct_value st gs (drop (jt_size g) ptr) = map Some vs'" by (cases vs) auto
  then show ?case using Cons field_value_plain [of g st ptr v] by auto
qed simp


lemma struct_value_front:
  assumes "\<forall>g \<in> set gs. tmpl_ok g" "length bs = room gs"
  shows "struct_value st gs (bs @ x) = struct_value st gs bs"
  using assms
proof (induction gs arbitrary: bs)
  case (Cons g gs)
  let ?fb = "take (jt_size g) bs" let ?r = "drop (jt_size g) bs"
  have l: "length ?fb = jt_size g" "length ?r = room gs" "jt_size g \<le> length bs" using Cons.prems(2) by (simp_all add: room_def)
  have g: "tmpl_ok g" using Cons.prems(1) by simp
  have "field_value st g (bs @ x) = field_value st g bs" using field_value_front [OF g l(1), of st "?r @ x"] field_value_front [OF g l(1), of st ?r]
    by (metis append.assoc append_take_drop_id)
  then show ?case using Cons.IH [of ?r] Cons.prems(1) l by simp
qed simp


section \<open>Where the translation fails\<close>

text \<open>An end with a key, when the tree has nothing under it, is passed over, and the walk leaves the description.\<close>

lemma keyed_end_is_passed: "cj_get api root (Some k) = None \<Longrightarrow> unmarshel_from api junk [Json_tmpl cJSON_Invalid 0 (Some k) d] root off s = None"
  by (cases s) (simp add: Let_def)

text \<open>\<open>unmarshel_from\<close> writes to its own bytes only: the structs that are allocated, or were before, keep what they hold.\<close>

lemma unmarshel_string_structs: "unmarshel_string s off (st, out) = Some (st', out') \<Longrightarrow> js_structs st' = js_structs st \<and> set (js_mem st') \<subseteq> set (js_mem st)"
  by (auto simp: unmarshel_string_def take_mem_def split: bind_splits if_splits list.splits)

lemma unmarshel_raw_structs: "unmarshel_raw s off (st, out) = Some (st', out') \<Longrightarrow> js_structs st' = js_structs st \<and> set (js_mem st') \<subseteq> set (js_mem st)"
  by (auto simp: unmarshel_raw_def take_mem_def split: bind_splits list.splits option.splits)

lemma unmarshel_array_structs: "unmarshel_array api c n i off (st, out) = Some (st', out') \<Longrightarrow> js_structs st' = js_structs st \<and> set (js_mem st') \<subseteq> set (js_mem st)"
proof (induction n arbitrary: i st out)
  case (Suc n)
  show ?case
  proof (cases "cj_array_item api c i")
    case None
    then show ?thesis using Suc by (auto split: bind_splits)
  next
    case (Some j)
    then obtain a st1 out1 where a: "take_mem st = Some (a, st1)" "unmarshel_array api c n (Suc i) off (st1\<lparr>js_nodes := (js_nodes st1)(a \<mapsto> j)\<rparr>, out1) = Some (st', out')"
      using Suc.prems by (auto split: bind_splits)
    have "js_structs st1 = js_structs st \<and> set (js_mem st1) \<subseteq> set (js_mem st)" using a(1) by (auto simp: take_mem_def split: list.splits)
    then show ?thesis using Suc.IH [OF a(2)] by auto
  qed
qed simp


definition same_structs :: "'j json_store \<Rightarrow> 'j json_store \<Rightarrow> bool" where
  "same_structs st st' \<longleftrightarrow> set (js_mem st') \<subseteq> set (js_mem st) \<and> (\<forall>a. a \<notin> set (js_mem st) \<longrightarrow> js_structs st' a = js_structs st a)"

lemma same_structs_refl [simp]: "same_structs st st"
  by (simp add: same_structs_def)

lemma same_structs_trans:
  assumes "same_structs st st1" "same_structs st1 st2"
  shows "same_structs st st2"
proof -
  have s: "set (js_mem st1) \<subseteq> set (js_mem st)" "set (js_mem st2) \<subseteq> set (js_mem st1)" using assms unfolding same_structs_def by iprover+
  have "js_structs st2 a = js_structs st a" if "a \<notin> set (js_mem st)" for a
  proof -
    have "a \<notin> set (js_mem st1)" using that s(1) by blast
    then have "js_structs st2 a = js_structs st1 a" using assms(2) unfolding same_structs_def by iprover
    also have "\<dots> = js_structs st a" using assms(1) that unfolding same_structs_def by iprover
    finally show ?thesis .
  qed
  then show ?thesis using s unfolding same_structs_def by blast
qed

lemma same_structsI: "js_structs st' = js_structs st \<and> set (js_mem st') \<subseteq> set (js_mem st) \<Longrightarrow> same_structs st st'"
  by (simp add: same_structs_def)

lemma unmarshel_structs: "unmarshel_from api junk tmpl root off s = Some s' \<Longrightarrow> same_structs (fst s) (fst s')"
proof (induction api junk tmpl root off s arbitrary: s' rule: unmarshel_from.induct)
  case (2 api junk ty sz key desc tmpl root off st out)
  let ?c = "cj_get api root key"
  let ?rec = "\<lambda>s. unmarshel_from api junk tmpl root (off + sz) s"
  consider (gone) "key \<noteq> None \<and> ?c = None" | (here) "\<not> (key \<noteq> None \<and> ?c = None)" by blast
  then show ?case
  proof cases
    case gone
    then show ?thesis using 2 by (simp add: Let_def)
  next
    case here
    show ?thesis
    proof (cases ty)
      case cJSON_Number
      then obtain out1 where r: "unmarshel_number sz desc (cj_number_value api ?c) off out = Some out1" "?rec (st, out1) = Some s'"
        using "2.prems" here by (auto simp: Let_def split: bind_splits if_splits)
      show ?thesis using "2.IH"(5) [OF refl here cJSON_Number r(1,2)] by simp
    next
      case cJSON_String
      then obtain s1 where r: "unmarshel_string (cj_string_value api ?c) off (st, out) = Some s1" "?rec s1 = Some s'"
        using "2.prems" here by (auto simp: Let_def split: bind_splits if_splits)
      have "same_structs st (fst s1)" using unmarshel_string_structs [of _ off st out "fst s1" "snd s1"] r(1) by (intro same_structsI) simp
      then show ?thesis using same_structs_trans "2.IH"(6) [OF refl here cJSON_String r] by simp
    next
      case cJSON_Raw
      then obtain s1 where r: "unmarshel_raw (cj_print_unformatted api ?c) off (st, out) = Some s1" "?rec s1 = Some s'"
        using "2.prems" here by (auto simp: Let_def split: bind_splits if_splits)
      have "same_structs st (fst s1)" using unmarshel_raw_structs [of _ off st out "fst s1" "snd s1"] r(1) by (intro same_structsI) simp
      then show ?thesis using same_structs_trans "2.IH"(11) [OF refl here cJSON_Raw r] by simp
    next
      case cJSON_Array
      then obtain s1 where r: "unmarshel_array api ?c (cj_array_size api ?c) 0 off (st, out) = Some s1" "?rec s1 = Some s'"
        using "2.prems" here by (auto simp: Let_def split: bind_splits if_splits)
      have "same_structs st (fst s1)" using unmarshel_array_structs [of api ?c _ 0 off st out "fst s1" "snd s1"] r(1) by (intro same_structsI) simp
      then show ?thesis using same_structs_trans "2.IH"(7) [OF refl here cJSON_Array r] by simp
    next
      case cJSON_Object
      show ?thesis
      proof (cases desc)
        case Desc_NULL
        then show ?thesis using "2.IH"(8) [OF refl here cJSON_Object Desc_NULL] "2.prems" here cJSON_Object by (auto simp: Let_def split: if_splits)
      next
        case Isfloat
        then show ?thesis using "2.prems" here cJSON_Object by (auto simp: Let_def split: if_splits)
      next
        case (Desc d ct z)
        then obtain p st1 out1 st2 pb where r: "take_mem st = Some (p, st1)" "mem_write out off (le_bytes 8 (unat p)) = Some out1"
          "unmarshel_from api junk ct ?c 0 (st1\<lparr>js_structs := (js_structs st1)(p \<mapsto> junk z)\<rparr>, le_bytes 8 (unat p)) = Some (st2, pb)" "?rec (st2, out1) = Some s'"
          using "2.prems" here cJSON_Object by (auto simp: Let_def split: bind_splits if_splits)
        have "same_structs st (st1\<lparr>js_structs := (js_structs st1)(p \<mapsto> junk z)\<rparr>)" using r(1) by (auto simp: take_mem_def same_structs_def split: list.splits)
        moreover have "same_structs (st1\<lparr>js_structs := (js_structs st1)(p \<mapsto> junk z)\<rparr>) st2" using "2.IH"(9) [OF refl here cJSON_Object Desc r(1) refl r(2,3)] by simp
        moreover have "same_structs st2 (fst s')" using "2.IH"(10) [OF refl here cJSON_Object Desc r(1) refl r(2,3) refl r(4)] by simp
        ultimately show ?thesis using same_structs_trans by (metis fst_conv)
      qed
    qed (use "2.prems" "2.IH" here in \<open>auto simp: Let_def split: if_splits\<close>)
  qed
qed simp


section \<open>A tree\<close>

text \<open>An implementation of the functions of cJSON, which shows that what they are documented to do can be had.\<close>

datatype jnode = JNode (jn_type: cjson_type) (jn_num: u64) (jn_string: "string option") (jn_child: "(string option \<times> jnode) list")

definition leaf :: "cjson_type \<Rightarrow> jnode" where
  "leaf ty = JNode ty 0x7FF8000000000000 None []"

definition put :: "jnode \<Rightarrow> string option \<Rightarrow> jnode \<Rightarrow> jnode" where
  "put obj key item = JNode (jn_type obj) (jn_num obj) (jn_string obj) (jn_child obj @ [(key, item)])"

definition named :: "string option \<Rightarrow> string option \<times> jnode \<Rightarrow> bool" where
  "named key c \<longleftrightarrow> (case (fst c, key) of (Some a, Some b) \<Rightarrow> map tolower a = map tolower b | _ \<Rightarrow> False)"

definition tree_api :: "jnode cjson_api" where
  "tree_api = \<lparr>cj_create_object = leaf cJSON_Object, cj_create_array = leaf cJSON_Array,
     cj_add_number = (\<lambda>obj k d. put obj k (JNode cJSON_Number d None [])),
     cj_add_string = (\<lambda>obj k s. put obj k (JNode cJSON_String 0 s [])),
     cj_add_raw = (\<lambda>obj k s. put obj k (JNode cJSON_Raw 0 s [])),
     cj_add_item = put,
     cj_add_to_array = (\<lambda>arr j. put arr None j),
     cj_get = (\<lambda>root key. case root of None \<Rightarrow> None | Some obj \<Rightarrow> map_option snd (List.find (named key) (jn_child obj))),
     cj_number_value = (\<lambda>j. case j of Some n \<Rightarrow> jn_num n | None \<Rightarrow> 0x7FF8000000000000),
     cj_string_value = (\<lambda>j. case j of Some n \<Rightarrow> jn_string n | None \<Rightarrow> None),
     cj_array_size = (\<lambda>j. case j of Some n \<Rightarrow> length (jn_child n) | None \<Rightarrow> 0),
     cj_array_item = (\<lambda>j i. case j of Some n \<Rightarrow> (if i < length (jn_child n) then Some (snd (jn_child n ! i)) else None) | None \<Rightarrow> None),
     cj_print_unformatted = map_option (\<lambda>n. case jn_string n of Some s \<Rightarrow> s | None \<Rightarrow> ''{}''),
     cj_print = map_option (\<lambda>n. case jn_string n of Some s \<Rightarrow> s | None \<Rightarrow> ''{}'')\<rparr>"

lemma find_snoc: "List.find P (xs @ [x]) = (case List.find P xs of Some y \<Rightarrow> Some y | None \<Rightarrow> if P x then Some x else None)"
  by (induction xs) simp_all

lemma tree_adds: "P (Some (f s)) \<Longrightarrow> adds tree_api (\<lambda>obj k. put obj k (f s)) P"
  by (auto simp: adds_def tree_api_def put_def find_snoc named_def split: option.splits)

lemma tree_laws: "cjson_laws tree_api"
proof -
  have "cj_get tree_api (Some (cj_create_object tree_api)) k = None" for k by (simp add: tree_api_def leaf_def)
  moreover have "adds tree_api (\<lambda>obj k. cj_add_number tree_api obj k d) (\<lambda>c. cj_number_value tree_api c = d)" for d
    using tree_adds [of "\<lambda>c. cj_number_value tree_api c = d" "\<lambda>d. JNode cJSON_Number d None []" d] by (simp add: tree_api_def)
  moreover have "adds tree_api (\<lambda>obj k. cj_add_string tree_api obj k (Some s)) (\<lambda>c. cj_string_value tree_api c = Some s)" for s
    using tree_adds [of "\<lambda>c. cj_string_value tree_api c = Some s" "\<lambda>s. JNode cJSON_String 0 (Some s) []" s] by (simp add: tree_api_def)
  moreover have "adds tree_api (\<lambda>obj k. cj_add_raw tree_api obj k (Some s)) (\<lambda>c. cj_print_unformatted tree_api c = Some s)" for s
    using tree_adds [of "\<lambda>c. cj_print_unformatted tree_api c = Some s" "\<lambda>s. JNode cJSON_Raw 0 (Some s) []" s] by (simp add: tree_api_def)
  ultimately show ?thesis by (simp add: cjson_laws_def)
qed


section \<open>Properties\<close>


text \<open>A text, a coordinate and a number; the coordinate is 116.5.\<close>

definition small_tmpl :: "json_tmpl list" where
  "small_tmpl = [Json_tmpl cJSON_Number 2 (Some ''SAC'') Desc_NULL, Json_tmpl cJSON_Number 8 (Some ''longitude'') Isfloat, Json_tmpl cJSON_String 8 (Some ''message'') Desc_NULL]"

definition end_tmpl :: json_tmpl where
  "end_tmpl = Json_tmpl cJSON_Invalid 0 None Desc_NULL"

definition small_store :: "jnode json_store" where
  "small_store = \<lparr>js_structs = Map.empty, js_buffers = [4096 \<mapsto> \<lparr>buf_len = 2, buf_total = 2, buf_free = 0, buf_ptr = Some [0x68, 0x69, 0]\<rparr>], js_texts = Map.empty, js_nodes = Map.empty, js_mem = [16, 32, 48]\<rparr>"

definition small_bytes :: "u8 list" where
  "small_bytes = [0xE9, 0x03, 0, 0, 0, 0, 0, 0x20, 0x5D, 0x40, 0, 0x10, 0, 0, 0, 0, 0, 0]"

lemma small_value: "struct_value small_store small_tmpl small_bytes = map Some [Num 1001, Real 0x405D200000000000, Txt ''hi'']"
  by (simp add: small_store_def small_tmpl_def small_bytes_def field_value_def pointer_at_def read_uint_def mem_read_def buffer_text_def chars_of_def) code_simp


text \<open>
  A nested struct is never filled. After unmarshelling a field of type object, the block that was allocated for it
  holds what it held when it was allocated, whatever the tree says: the fields were written over the variable with its address.
\<close>

theorem nested_struct_stays_empty:
  assumes "unmarshel_from api junk (Json_tmpl cJSON_Object sz (Some k) (Desc d child_tmpl z) # tmpl) root off (st, out) = Some (st', out')"
    "cj_get api root (Some k) \<noteq> None" "js_mem st = p # as" "p \<notin> set as"
  shows "js_structs st' p = Some (junk z)"
proof -
  let ?st = "st\<lparr>js_mem := as, js_structs := (js_structs st)(p \<mapsto> junk z)\<rparr>"
  obtain out1 st2 pb where r: "unmarshel_from api junk child_tmpl (cj_get api root (Some k)) 0 (?st, le_bytes 8 (unat p)) = Some (st2, pb)"
    "unmarshel_from api junk tmpl root (off + sz) (st2, out1) = Some (st', out')"
    using assms(1-3) by (auto simp: Let_def take_mem_def split: bind_splits)
  have "same_structs ?st st'" using same_structs_trans unmarshel_structs [OF r(1)] unmarshel_structs [OF r(2)] by fastforce
  then show ?thesis using assms(4) by (simp add: same_structs_def)
qed


text \<open>A struct with the number 7 behind the pointer.\<close>

theorem nested_struct_stays_empty_witness:
  "\<exists>st' out'. unmarshel_from tree_api (\<lambda>z. replicate z 0xAA) [Json_tmpl cJSON_Object 8 (Some ''in'') (Desc ''inner'' [Json_tmpl cJSON_Number 1 (Some ''n'') Desc_NULL, end_tmpl] 1), end_tmpl]
     (Some (put (leaf cJSON_Object) (Some ''in'') (put (leaf cJSON_Object) (Some ''n'') (JNode cJSON_Number 0x401C000000000000 None [])))) 0 (small_store, replicate 8 0) = Some (st', out') \<and>
     js_structs st' 16 = Some [0xAA]"
proof -
  let ?inner = "[Json_tmpl cJSON_Number 1 (Some ''n'') Desc_NULL, end_tmpl]"
  let ?root = "Some (put (leaf cJSON_Object) (Some ''in'') (put (leaf cJSON_Object) (Some ''n'') (JNode cJSON_Number 0x401C000000000000 None [])))"
  have n: "u64_of_double 0x401C000000000000 = Some 7" by (simp add: u64_of_double_def Let_def)
  have "\<exists>st' out'. unmarshel_from tree_api (\<lambda>z. replicate z 0xAA) [Json_tmpl cJSON_Object 8 (Some ''in'') (Desc ''inner'' ?inner 1), end_tmpl] ?root 0 (small_store, replicate 8 0) = Some (st', out')"
    using n by (simp add: tree_api_def put_def leaf_def named_def end_tmpl_def small_store_def take_mem_def mem_write_def unmarshel_number_def Let_def)
  then obtain st' out' where u: "unmarshel_from tree_api (\<lambda>z. replicate z 0xAA) [Json_tmpl cJSON_Object 8 (Some ''in'') (Desc ''inner'' ?inner 1), end_tmpl] ?root 0 (small_store, replicate 8 0) = Some (st', out')" by blast
  have "js_structs st' 16 = Some (replicate 1 0xAA)"
    by (rule nested_struct_stays_empty [OF u, of 16 "[32, 48]"]) (simp_all add: tree_api_def put_def leaf_def named_def small_store_def)
  then show ?thesis using u by auto
qed


end
