(* ===== verification/Dashboard.thy ===== *)
theory Dashboard
  imports Json
begin

text \<open>
  The messages to the dashboard of src/src/ld_dashboard.c: the structs of the messages, their descriptions, the table of functions, and
  the function that sends a message. The handler that writes to the connection is a parameter, and so is cJSON (\<open>Json\<close>).
\<close>

section \<open>Functions and structs\<close>

datatype DASHBOARD_FUNCTION =
    AS_REGISTER | AS_UPDATE_COORDINATE | DASHBOARD_START_STOP_AS | GS_REGISTER | DASHBOARD_SWITCH_AS | AS_GS_RECEIVED_MSG
  | GS_ACCESS_AS | GS_AS_EXITED | DASHBOARD_SEND_SINGLE_DATA | DASHBOARD_SEND_MULTI_DATA | CN_REGISTER | CN_SIGNALLING
  | DASHBOARD_GET_CN_DATA | CN_SET_CN_DATA | DASHBOARD_ACCELRATE_AS | DASHBOARD_QUERY_KEYS | AS_GS_QUERY_KEYS | UNREGISTER_AS
  | UNREGISTER_GS

fun function_value :: "DASHBOARD_FUNCTION \<Rightarrow> nat" where
  "function_value AS_REGISTER = 0"
| "function_value AS_UPDATE_COORDINATE = 1"
| "function_value DASHBOARD_START_STOP_AS = 2"
| "function_value GS_REGISTER = 3"
| "function_value DASHBOARD_SWITCH_AS = 4"
| "function_value AS_GS_RECEIVED_MSG = 5"
| "function_value GS_ACCESS_AS = 6"
| "function_value GS_AS_EXITED = 7"
| "function_value DASHBOARD_SEND_SINGLE_DATA = 8"
| "function_value DASHBOARD_SEND_MULTI_DATA = 9"
| "function_value CN_REGISTER = 10"
| "function_value CN_SIGNALLING = 11"
| "function_value DASHBOARD_GET_CN_DATA = 12"
| "function_value CN_SET_CN_DATA = 13"
| "function_value DASHBOARD_ACCELRATE_AS = 14"
| "function_value DASHBOARD_QUERY_KEYS = 15"
| "function_value AS_GS_QUERY_KEYS = 16"
| "function_value UNREGISTER_AS = 254"
| "function_value UNREGISTER_GS = 255"

text \<open>The structs are packed: the members follow each other, with the given sizes.\<close>

definition dashboard_data_t :: "(string \<times> nat) list" where
  "dashboard_data_t = [(''type'', 1), (''data'', 8)]"

definition dashboard_update_coordinate_t :: "(string \<times> nat) list" where
  "dashboard_update_coordinate_t = [(''UA'', 4), (''longitude'', 8), (''latitude'', 8), (''is_direct'', 1)]"

definition dashboard_register_gs_t :: "(string \<times> nat) list" where
  "dashboard_register_gs_t = [(''TAG'', 2), (''longitude'', 8), (''latitude'', 8)]"

definition dashboard_register_cn_t :: "(string \<times> nat) list" where
  "dashboard_register_cn_t = [(''type'', 1), (''element'', 2)]"

definition dashboard_switch_as_t :: "(string \<times> nat) list" where
  "dashboard_switch_as_t = [(''UA'', 4), (''GST_SAC'', 2)]"

definition dashboard_received_msg_t :: "(string \<times> nat) list" where
  "dashboard_received_msg_t = [(''orient'', 1), (''type'', 1), (''sender'', 4), (''receiver'', 4), (''data'', 8)]"

definition dashboard_as_exit_t :: "(string \<times> nat) list" where
  "dashboard_as_exit_t = [(''UA'', 4)]"

definition dashboard_as_info_upd_t :: "(string \<times> nat) list" where
  "dashboard_as_info_upd_t = [(''UA'', 4), (''AS_SAC'', 2), (''GS_SAC'', 2)]"

definition dashboard_upload_cn_signalling_t :: "(string \<times> nat) list" where
  "dashboard_upload_cn_signalling_t = [(''sender'', 2), (''receiver'', 2), (''interface'', 1), (''signalling'', 1)]"

definition dashboard_get_cn_data_t :: "(string \<times> nat) list" where
  "dashboard_get_cn_data_t = [(''SAC'', 2)]"

definition dashboard_set_cn_data_t :: "(string \<times> nat) list" where
  "dashboard_set_cn_data_t = [(''infos'', 1024), (''info_size'', 8)]"

definition dashboard_query_keys_t :: "(string \<times> nat) list" where
  "dashboard_query_keys_t = [(''j_keys'', 1608), (''key_count'', 8)]"

definition dashboard_accelerate_as_t :: "(string \<times> nat) list" where
  "dashboard_accelerate_as_t = [(''multiplier'', 1)]"

definition struct_size :: "(string \<times> nat) list \<Rightarrow> nat" where
  "struct_size s = sum_list (map snd s)"


section \<open>Descriptions\<close>

definition dashboard_data_tmpl :: "json_tmpl list" where
  "dashboard_data_tmpl = [Json_tmpl cJSON_Number 1 (Some ''type'') Desc_NULL,
     Json_tmpl cJSON_Raw 8 (Some ''data'') Desc_NULL,
     Json_tmpl cJSON_Invalid 0 None Desc_NULL]"

definition dashboard_update_coordinate_tmpl :: "json_tmpl list" where
  "dashboard_update_coordinate_tmpl = [Json_tmpl cJSON_Number 4 (Some ''UA'') Desc_NULL,
     Json_tmpl cJSON_Number 8 (Some ''longitude'') Isfloat,
     Json_tmpl cJSON_Number 8 (Some ''latitude'') Isfloat,
     Json_tmpl cJSON_Number 1 (Some ''isDirect'') Desc_NULL,
     Json_tmpl cJSON_Invalid 0 None Desc_NULL]"

definition dashboard_register_gs_tmpl :: "json_tmpl list" where
  "dashboard_register_gs_tmpl = [Json_tmpl cJSON_Number 2 (Some ''tag'') Desc_NULL,
     Json_tmpl cJSON_Number 8 (Some ''longitude'') Isfloat,
     Json_tmpl cJSON_Number 8 (Some ''latitude'') Isfloat,
     Json_tmpl cJSON_Invalid 0 None Desc_NULL]"

definition dashboard_register_cn_tmpl :: "json_tmpl list" where
  "dashboard_register_cn_tmpl = [Json_tmpl cJSON_Number 1 (Some ''type'') Desc_NULL,
     Json_tmpl cJSON_Number 2 (Some ''element'') Desc_NULL,
     Json_tmpl cJSON_Invalid 0 None Desc_NULL]"

definition dashboard_switch_as_tmpl :: "json_tmpl list" where
  "dashboard_switch_as_tmpl = [Json_tmpl cJSON_Number 4 (Some ''UA'') Desc_NULL,
     Json_tmpl cJSON_Number 2 (Some ''gst'') Desc_NULL,
     Json_tmpl cJSON_Invalid 0 None Desc_NULL]"

definition dashboard_received_msg_tmpl :: "json_tmpl list" where
  "dashboard_received_msg_tmpl = [Json_tmpl cJSON_Number 1 (Some ''orient'') Desc_NULL,
     Json_tmpl cJSON_Number 1 (Some ''type'') Desc_NULL,
     Json_tmpl cJSON_Number 4 (Some ''sender'') Desc_NULL,
     Json_tmpl cJSON_Number 4 (Some ''receiver'') Desc_NULL,
     Json_tmpl cJSON_String 8 (Some ''message'') Desc_NULL,
     Json_tmpl cJSON_Invalid 0 None Desc_NULL]"

definition dashboard_as_exit_tmpl :: "json_tmpl list" where
  "dashboard_as_exit_tmpl = [Json_tmpl cJSON_Number 4 (Some ''UA'') Desc_NULL,
     Json_tmpl cJSON_Invalid 0 None Desc_NULL]"

definition dashboard_as_info_upd_tmpl :: "json_tmpl list" where
  "dashboard_as_info_upd_tmpl = [Json_tmpl cJSON_Number 4 (Some ''UA'') Desc_NULL,
     Json_tmpl cJSON_Number 2 (Some ''AS_SAC'') Desc_NULL,
     Json_tmpl cJSON_Number 2 (Some ''GS_SAC'') Desc_NULL,
     Json_tmpl cJSON_Invalid 0 None Desc_NULL]"

definition dashboard_upload_cn_signalling_tmpl :: "json_tmpl list" where
  "dashboard_upload_cn_signalling_tmpl = [Json_tmpl cJSON_Number 2 (Some ''sender'') Desc_NULL,
     Json_tmpl cJSON_Number 2 (Some ''receiver'') Desc_NULL,
     Json_tmpl cJSON_Number 1 (Some ''interface'') Desc_NULL,
     Json_tmpl cJSON_Number 1 (Some ''signalling'') Desc_NULL,
     Json_tmpl cJSON_Invalid 0 None Desc_NULL]"

definition dashboard_get_cn_data_tmpl :: "json_tmpl list" where
  "dashboard_get_cn_data_tmpl = [Json_tmpl cJSON_Number 2 (Some ''SAC'') Desc_NULL,
     Json_tmpl cJSON_Invalid 0 None Desc_NULL]"

definition dashboard_set_cn_data_tmpl :: "json_tmpl list" where
  "dashboard_set_cn_data_tmpl = [Json_tmpl cJSON_Array 8 (Some ''infos'') Desc_NULL,
     Json_tmpl cJSON_Invalid 0 None Desc_NULL]"

definition dashboard_accelerate_as_tmpl :: "json_tmpl list" where
  "dashboard_accelerate_as_tmpl = [Json_tmpl cJSON_Number 1 (Some ''multiplier'') Desc_NULL,
     Json_tmpl cJSON_Invalid 0 None Desc_NULL]"

definition dashboard_query_keys_tmpl :: "json_tmpl list" where
  "dashboard_query_keys_tmpl = [Json_tmpl cJSON_Array 8 (Some ''keys'') Desc_NULL,
     Json_tmpl cJSON_Invalid 0 None Desc_NULL]"

definition dashboard_data_tmpl_desc :: json_desc where
  "dashboard_data_tmpl_desc = Desc ''DASHBOARD_DATA'' dashboard_data_tmpl (struct_size dashboard_data_t)"

definition dashboard_update_coordinate_tmpl_desc :: json_desc where
  "dashboard_update_coordinate_tmpl_desc = Desc ''DASHBOARD_UPDATE_COORDINATE'' dashboard_update_coordinate_tmpl (struct_size dashboard_update_coordinate_t)"

definition dashboard_register_gs_tmpl_desc :: json_desc where
  "dashboard_register_gs_tmpl_desc = Desc ''DASHBOARD_REGISTER_GS'' dashboard_register_gs_tmpl (struct_size dashboard_register_gs_t)"

definition dashboard_register_cn_tmpl_desc :: json_desc where
  "dashboard_register_cn_tmpl_desc = Desc ''DASHBOARD_REGISTER_CN'' dashboard_register_cn_tmpl (struct_size dashboard_register_cn_t)"

definition dashboard_switch_as_tmpl_desc :: json_desc where
  "dashboard_switch_as_tmpl_desc = Desc ''DASHBOARD_SWITCH_AS'' dashboard_switch_as_tmpl (struct_size dashboard_switch_as_t)"

definition dashboard_received_msg_tmpl_desc :: json_desc where
  "dashboard_received_msg_tmpl_desc = Desc ''DASHBOARD_RECEIVED_MSG'' dashboard_received_msg_tmpl (struct_size dashboard_received_msg_t)"

definition dashboard_as_exit_tmpl_desc :: json_desc where
  "dashboard_as_exit_tmpl_desc = Desc ''DASHBOARD_EXIT_AS'' dashboard_as_exit_tmpl (struct_size dashboard_as_exit_t)"

definition dashboard_as_info_upd_tmpl_desc :: json_desc where
  "dashboard_as_info_upd_tmpl_desc = Desc ''DASHBOARD_AS_INFO'' dashboard_as_info_upd_tmpl (struct_size dashboard_as_info_upd_t)"

definition dashboard_upload_cn_signalling_tmpl_desc :: json_desc where
  "dashboard_upload_cn_signalling_tmpl_desc = Desc ''DASHBOARD_UPLOAD_CN_SIGNALLING'' dashboard_upload_cn_signalling_tmpl (struct_size dashboard_upload_cn_signalling_t)"

definition dashboard_get_cn_data_tmpl_desc :: json_desc where
  "dashboard_get_cn_data_tmpl_desc = Desc ''DASHBOARD_GET_CN_DATA'' dashboard_get_cn_data_tmpl (struct_size dashboard_get_cn_data_t)"

definition dashboard_set_cn_data_tmpl_desc :: json_desc where
  "dashboard_set_cn_data_tmpl_desc = Desc ''DASHBOARD_SET_CN_DATA'' dashboard_set_cn_data_tmpl (struct_size dashboard_set_cn_data_t)"

definition dashboard_accelerate_as_tmpl_desc :: json_desc where
  "dashboard_accelerate_as_tmpl_desc = Desc ''DASHBOARD_ACCELERATE_AS'' dashboard_accelerate_as_tmpl (struct_size dashboard_accelerate_as_t)"

definition dashboard_query_keys_tmpl_desc :: json_desc where
  "dashboard_query_keys_tmpl_desc = Desc ''DASHBOARD_QUERY_KEYS'' dashboard_query_keys_tmpl (struct_size dashboard_query_keys_t)"

definition dashboard_func_defines :: "(DASHBOARD_FUNCTION \<times> json_desc option) list" where
  "dashboard_func_defines =
     [(AS_REGISTER, Some dashboard_update_coordinate_tmpl_desc),
      (AS_UPDATE_COORDINATE, Some dashboard_update_coordinate_tmpl_desc),
      (DASHBOARD_START_STOP_AS, None),
      (GS_REGISTER, Some dashboard_register_gs_tmpl_desc),
      (DASHBOARD_SWITCH_AS, Some dashboard_switch_as_tmpl_desc),
      (AS_GS_RECEIVED_MSG, Some dashboard_received_msg_tmpl_desc),
      (GS_ACCESS_AS, Some dashboard_as_info_upd_tmpl_desc),
      (GS_AS_EXITED, Some dashboard_as_exit_tmpl_desc),
      (DASHBOARD_SEND_SINGLE_DATA, None),
      (DASHBOARD_SEND_MULTI_DATA, None),
      (CN_REGISTER, Some dashboard_register_cn_tmpl_desc),
      (CN_SIGNALLING, Some dashboard_upload_cn_signalling_tmpl_desc),
      (DASHBOARD_GET_CN_DATA, Some dashboard_get_cn_data_tmpl_desc),
      (CN_SET_CN_DATA, Some dashboard_set_cn_data_tmpl_desc),
      (DASHBOARD_ACCELRATE_AS, Some dashboard_accelerate_as_tmpl_desc),
      (DASHBOARD_QUERY_KEYS, None),
      (AS_GS_QUERY_KEYS, Some dashboard_query_keys_tmpl_desc)]"


section \<open>Sending\<close>

text \<open>
  The message is sent as the JSON text of a struct with the function and the JSON text of its data. The result is the error and what was
  given to the handler, when it was called. \<open>None\<close> for the handler is its null pointer; the result of the handler is its error.
\<close>

definition dashboard_data_send :: "'j cjson_api \<Rightarrow> (buffer_t \<Rightarrow> l_err) option \<Rightarrow> 'j json_store \<Rightarrow> DASHBOARD_FUNCTION \<Rightarrow> u8 list \<Rightarrow> (l_err \<times> buffer_t option) option" where
  "dashboard_data_send api send_handler st func_e data =
     (if length dashboard_func_defines \<le> function_value func_e then None
      else do {
        (err, data_str) \<leftarrow> get_json_str api st data (map_option jd_tmpl (snd (dashboard_func_defines ! function_value func_e))) None;
        if err \<noteq> LD_OK then Some (LD_ERR_INTERNAL, None)
        else do {
          (a, st) \<leftarrow> (case data_str of None \<Rightarrow> Some (0, st)
                                   | Some s \<Rightarrow> map_option (\<lambda>(a, st). (a, st\<lparr>js_texts := (js_texts st)(a \<mapsto> s @ [CHR 0x00])\<rparr>)) (take_mem st));
          let to_resp = of_nat (function_value func_e) # le_bytes 8 (unat a);
          (err, root_s) \<leftarrow> get_json_str api st to_resp (Some (jd_tmpl dashboard_data_tmpl_desc)) None;
          root_s \<leftarrow> root_s;
          to_send \<leftarrow> clone_to_chunk True init_buffer_unptr (Some (bytes_of root_s @ [0])) (length root_s);
          Some (case send_handler of
                  None \<Rightarrow> (LD_ERR_NULL, None)
                | Some h \<Rightarrow> (if h to_send \<noteq> LD_OK then LD_ERR_INTERNAL else LD_OK, Some to_send))
        }
      })"


section \<open>Descriptions and structs agree\<close>

definition fields_of :: "json_desc \<Rightarrow> json_tmpl list" where
  "fields_of d = takeWhile (\<lambda>t. jt_type t \<noteq> cJSON_Invalid) (jd_tmpl d)"

lemmas table_defs =
  dashboard_data_tmpl_def dashboard_update_coordinate_tmpl_def dashboard_register_gs_tmpl_def dashboard_register_cn_tmpl_def dashboard_switch_as_tmpl_def
  dashboard_received_msg_tmpl_def dashboard_as_exit_tmpl_def dashboard_as_info_upd_tmpl_def dashboard_upload_cn_signalling_tmpl_def
  dashboard_get_cn_data_tmpl_def dashboard_set_cn_data_tmpl_def dashboard_accelerate_as_tmpl_def dashboard_query_keys_tmpl_def

lemmas desc_defs =
  dashboard_data_tmpl_desc_def dashboard_update_coordinate_tmpl_desc_def dashboard_register_gs_tmpl_desc_def dashboard_register_cn_tmpl_desc_def
  dashboard_switch_as_tmpl_desc_def dashboard_received_msg_tmpl_desc_def dashboard_as_exit_tmpl_desc_def dashboard_as_info_upd_tmpl_desc_def
  dashboard_upload_cn_signalling_tmpl_desc_def dashboard_get_cn_data_tmpl_desc_def dashboard_set_cn_data_tmpl_desc_def dashboard_accelerate_as_tmpl_desc_def
  dashboard_query_keys_tmpl_desc_def

lemmas struct_defs =
  dashboard_data_t_def dashboard_update_coordinate_t_def dashboard_register_gs_t_def dashboard_register_cn_t_def dashboard_switch_as_t_def
  dashboard_received_msg_t_def dashboard_as_exit_t_def dashboard_as_info_upd_t_def dashboard_upload_cn_signalling_t_def dashboard_get_cn_data_t_def
  dashboard_set_cn_data_t_def dashboard_query_keys_t_def dashboard_accelerate_as_t_def

text \<open>The struct a description is for.\<close>

definition described_structs :: "(json_desc \<times> (string \<times> nat) list) list" where
  "described_structs =
     [(dashboard_update_coordinate_tmpl_desc, dashboard_update_coordinate_t), (dashboard_register_gs_tmpl_desc, dashboard_register_gs_t),
      (dashboard_register_cn_tmpl_desc, dashboard_register_cn_t), (dashboard_switch_as_tmpl_desc, dashboard_switch_as_t),
      (dashboard_received_msg_tmpl_desc, dashboard_received_msg_t), (dashboard_as_exit_tmpl_desc, dashboard_as_exit_t),
      (dashboard_as_info_upd_tmpl_desc, dashboard_as_info_upd_t), (dashboard_upload_cn_signalling_tmpl_desc, dashboard_upload_cn_signalling_t),
      (dashboard_get_cn_data_tmpl_desc, dashboard_get_cn_data_t), (dashboard_accelerate_as_tmpl_desc, dashboard_accelerate_as_t),
      (dashboard_data_tmpl_desc, dashboard_data_t)]"

definition agrees :: "json_desc \<Rightarrow> (string \<times> nat) list \<Rightarrow> bool" where
  "agrees d s \<longleftrightarrow> jd_size d = struct_size s \<and> map jt_size (fields_of d) = map snd s \<and>
     jd_tmpl d = fields_of d @ [Json_tmpl cJSON_Invalid 0 None Desc_NULL] \<and> list_all tmpl_ok (fields_of d) \<and> distinct (map key_of (fields_of d))"

definition fits :: "json_desc \<Rightarrow> bool" where
  "fits d \<longleftrightarrow> d = dashboard_set_cn_data_tmpl_desc \<or> d = dashboard_query_keys_tmpl_desc \<or> list_ex (\<lambda>(d', s). d' = d \<and> agrees d s) described_structs"

lemma all_agree: "list_all (\<lambda>(d, s). agrees d s) described_structs"
  by code_simp

lemma table_described: "list_all (\<lambda>(f, d). case d of None \<Rightarrow> True | Some d \<Rightarrow> d \<in> fst ` set described_structs \<or> d = dashboard_set_cn_data_tmpl_desc \<or> d = dashboard_query_keys_tmpl_desc) dashboard_func_defines"
  by (simp add: dashboard_func_defines_def described_structs_def)

lemma table_positions: "list_all (\<lambda>(i, f, d). function_value f = i) (enumerate 0 dashboard_func_defines)"
  by (simp add: dashboard_func_defines_def)

lemma agrees_describes: "agrees d s \<Longrightarrow> describes (fields_of d) (jd_tmpl d) \<and> room (fields_of d) = jd_size d"
  by (auto simp: agrees_def describes_def room_def struct_size_def list_all_iff)


text \<open>The array of a message runs to the next null pointer. A struct whose 128 places are taken has none, and the size after them is read as a node.\<close>

lemma full_array_overruns:
  assumes "length ptrs = 128" "\<forall>a \<in> set ptrs. a \<noteq> 0 \<and> nodes a \<noteq> None" "nodes (of_nat sz) = None" "0 < sz" "sz < 2 ^ 64"
  shows "marshel_array api nodes (concat (map (\<lambda>a. le_bytes 8 (unat a)) ptrs) @ le_bytes 8 sz) arr = None"
proof -
  have "marshel_array api nodes (concat (map (\<lambda>a. le_bytes 8 (unat a)) ps) @ le_bytes 8 sz) arr = None" if "\<forall>a \<in> set ps. a \<noteq> 0 \<and> nodes a \<noteq> None" for ps arr
    using that
  proof (induction ps arbitrary: arr)
    case Nil
    have u: "unat (of_nat sz :: u64) = sz" using assms(5) by (rule unat_u64)
    then have "(of_nat sz :: u64) \<noteq> 0" using assms(4) by auto
    then show ?case using pointer_at_front [of "of_nat sz" "[]"] assms(3) u by (simp add: marshel_array.simps)
  next
    case (Cons a ps)
    then obtain j where "nodes a = Some j" "a \<noteq> 0" by auto
    then show ?case using Cons pointer_at_front [of a "concat (map (\<lambda>a. le_bytes 8 (unat a)) ps) @ le_bytes 8 sz"]
      by (simp add: marshel_array.simps [of _ _ "le_bytes 8 (unat a) @ _"])
  qed
  then show ?thesis using assms(2) by blast
qed


section \<open>What is sent\<close>

lemma marshel_json_ok:
  assumes "cjson_laws api" "describes gs tmpl" "struct_value st gs data = map Some vs" "list_all sendable vs"
  shows "\<exists>root. marshel_json api st data tmpl = Some root \<and> list_all2 (\<lambda>g v. carries api v (cj_get api (Some root) (jt_key g))) gs vs"
proof -
  have e: "cj_get api (Some (cj_create_object api)) (jt_key g) = None" for g using assms(1) by (simp add: cjson_laws_def)
  from marshel_from_ok [OF assms e] obtain root where r: "marshel_from api st tmpl data (cj_create_object api) = Some root"
    "list_all2 (\<lambda>g v. cj_get api (Some root) (jt_key g) \<noteq> None \<and> carries api v (cj_get api (Some root) (jt_key g))) gs vs" by blast
  have "list_all2 (\<lambda>g v. carries api v (cj_get api (Some root) (jt_key g))) gs vs" using r(2) by (rule list_all2_mono) simp
  then show ?thesis using r(1) by (auto simp: marshel_json_def)
qed

lemma outer_value:
  assumes "a \<noteq> 0" "js_texts st a = Some (s @ [CHR 0x00])" "CHR 0x00 \<notin> set s"
  shows "struct_value st (fields_of dashboard_data_tmpl_desc) (b # le_bytes 8 (unat a)) = map Some [Num (ucast b), Raw s]"
proof -
  have t: "takeWhile (\<lambda>c. c \<noteq> CHR 0x00) (s @ [CHR 0x00]) = s" using assms(3) by (subst takeWhile_append2) auto
  have f: "fields_of dashboard_data_tmpl_desc = [Json_tmpl cJSON_Number 1 (Some ''type'') Desc_NULL, Json_tmpl cJSON_Raw 8 (Some ''data'') Desc_NULL]"
    by (simp add: fields_of_def dashboard_data_tmpl_desc_def dashboard_data_tmpl_def)
  show ?thesis unfolding f using assms(1,2) t pointer_at_front [of a "[]"]
    by (simp add: field_value_def read_uint_def mem_read_def text_at_def cstring_def)
qed

lemma outer_describes: "describes (fields_of dashboard_data_tmpl_desc) (jd_tmpl dashboard_data_tmpl_desc)"
  using all_agree agrees_describes [of dashboard_data_tmpl_desc dashboard_data_t] by (simp add: described_structs_def)

lemma function_byte: "(of_nat (function_value f) :: u64) = ucast (of_nat (function_value f) :: u8)"
proof -
  have "function_value f < 2 ^ 8" by (cases f) simp_all
  then show ?thesis by (intro word_unat_eq_iff [THEN iffD2]) (simp add: unsigned_ucast_eq unat_of_nat_small take_bit_nat_eq_self)
qed


section \<open>Properties\<close>

text \<open>
  The descriptions fit the structs. The table of functions is in the order of their numbers; every description of the table
  is either one of the two arrays, or it lists exactly the members of a packed struct, with their sizes and with different
  keys, and ends without a key.
\<close>

theorem dashboard_tables_fit:
  "map (\<lambda>(f, d). function_value f) dashboard_func_defines = [0..<length dashboard_func_defines] \<and> list_all fits (List.map_filter snd dashboard_func_defines)"
proof
  show "map (\<lambda>(f, d). function_value f) dashboard_func_defines = [0..<length dashboard_func_defines]"
    by (simp add: dashboard_func_defines_def upt_conv_Cons)
  have a: "agrees d s \<Longrightarrow> (d, s) \<in> set described_structs \<Longrightarrow> fits d" for d s by (auto simp: fits_def list_ex_iff)
  show "list_all fits (List.map_filter snd dashboard_func_defines)"
    unfolding list_all_iff using table_described all_agree a by (fastforce simp: list_all_iff map_filter_def fits_def)
qed

text \<open>
  Property C40: a message carries its function and its data. For every function with a description that fits a struct, the buffer
  that is given to the handler holds the text of an object whose type is the number of the function and whose data is
  the text of an object with every value of the struct under its key. The texts have no zero, and there is memory for them.
\<close>

theorem dashboard_message_carries_data:
  assumes "cjson_laws api" "function_value f < length dashboard_func_defines" "snd (dashboard_func_defines ! function_value f) = Some d" "agrees d s"
    "struct_value st (fields_of d) data = map Some vs" "list_all sendable vs" "js_mem st = a # as" "a \<noteq> 0"
    "\<And>root. marshel_json api st data (jd_tmpl d) = Some root \<Longrightarrow> \<exists>t. cj_print_unformatted api (Some root) = Some t \<and> CHR 0x00 \<notin> set t"
    "\<And>j. cj_print_unformatted api (Some j) \<noteq> None" "\<And>buf. h buf = LD_OK"
  shows "\<exists>root text data_root data_text buf. dashboard_data_send api (Some h) st f data = Some (LD_OK, Some buf) \<and> buf_bytes buf = bytes_of text \<and>
    cj_print_unformatted api (Some root) = Some text \<and> carries api (Num (of_nat (function_value f))) (cj_get api (Some root) (Some ''type'')) \<and>
    carries api (Raw data_text) (cj_get api (Some root) (Some ''data'')) \<and> cj_print_unformatted api (Some data_root) = Some data_text \<and>
    list_all2 (\<lambda>g v. carries api v (cj_get api (Some data_root) (jt_key g))) (fields_of d) vs"
proof -
  have ds: "describes (fields_of d) (jd_tmpl d)" using agrees_describes [OF assms(4)] by blast
  from marshel_json_ok [OF assms(1) ds assms(5,6)] obtain r where r: "marshel_json api st data (jd_tmpl d) = Some r"
    "list_all2 (\<lambda>g v. carries api v (cj_get api (Some r) (jt_key g))) (fields_of d) vs" by blast
  obtain t where t: "cj_print_unformatted api (Some r) = Some t" "CHR 0x00 \<notin> set t" using assms(9) [OF r(1)] by blast
  let ?st = "st\<lparr>js_mem := as, js_texts := (js_texts st)(a \<mapsto> t @ [CHR 0x00])\<rparr>"
  let ?b = "of_nat (function_value f) :: u8"
  have "struct_value ?st (fields_of dashboard_data_tmpl_desc) (?b # le_bytes 8 (unat a)) = map Some [Num (ucast ?b), Raw t]"
    using outer_value [of a ?st t ?b] assms(8) t(2) by simp
  moreover have "unat (ucast ?b :: u64) < 2 ^ 64 - 1024"
  proof -
    have "unat (ucast ?b :: u64) \<le> unat ?b" by (simp add: unsigned_ucast_eq take_bit_nat_less_eq_self)
    moreover have "unat ?b < 2 ^ LENGTH(8)" by (rule unsigned_less)
    ultimately have "unat (ucast ?b :: u64) < 2 ^ LENGTH(8)" by linarith
    then show ?thesis by simp
  qed
  then have "list_all sendable [Num (ucast ?b), Raw t]" by simp
  ultimately obtain root where o: "marshel_json api ?st (?b # le_bytes 8 (unat a)) (jd_tmpl dashboard_data_tmpl_desc) = Some root"
    "list_all2 (\<lambda>g v. carries api v (cj_get api (Some root) (jt_key g))) (fields_of dashboard_data_tmpl_desc) [Num (ucast ?b), Raw t]"
    using marshel_json_ok [OF assms(1) outer_describes] by blast
  obtain msg where x: "cj_print_unformatted api (Some root) = Some msg" using assms(10) by blast
  have c: "carries api (Num (of_nat (function_value f))) (cj_get api (Some root) (Some ''type''))" "carries api (Raw t) (cj_get api (Some root) (Some ''data''))"
    using o(2) by (simp_all add: fields_of_def dashboard_data_tmpl_desc_def dashboard_data_tmpl_def function_byte)
  have l: "length (bytes_of msg) = length msg" by (simp add: bytes_of_def)
  obtain buf where b: "clone_to_chunk True init_buffer_unptr (Some (bytes_of msg @ [0])) (length msg) = Some buf" "buf_bytes buf = bytes_of msg"
    using clone_to_chunk_bytes [of "length msg" "bytes_of msg @ [0]"] l by (auto simp: buf_bytes_def ptr_bytes_def)
  have "dashboard_data_send api (Some h) st f data = Some (LD_OK, Some buf)"
    using assms(2,3,7,11) r(1) t(1) o(1) x b(1) by (simp add: dashboard_data_send_def get_json_str_def take_mem_def)
  then show ?thesis using b(2) x c t(1) r(2) by blast
qed


text \<open>A network element of type 2 with the number 513.\<close>

theorem dashboard_message_carries_data_witness:
  "\<exists>root text data_root data_text buf. dashboard_data_send tree_api (Some (\<lambda>buf. LD_OK)) small_store CN_REGISTER [2, 1, 2] = Some (LD_OK, Some buf) \<and> buf_bytes buf = bytes_of text \<and>
    cj_print_unformatted tree_api (Some root) = Some text \<and> carries tree_api (Num (of_nat (function_value CN_REGISTER))) (cj_get tree_api (Some root) (Some ''type'')) \<and>
    carries tree_api (Raw data_text) (cj_get tree_api (Some root) (Some ''data'')) \<and> cj_print_unformatted tree_api (Some data_root) = Some data_text \<and>
    list_all2 (\<lambda>g v. carries tree_api v (cj_get tree_api (Some data_root) (jt_key g))) (fields_of dashboard_register_cn_tmpl_desc) [Num 2, Num 513]"
proof (rule dashboard_message_carries_data [OF tree_laws, where a = 16 and as = "[32, 48]"])
  show "agrees dashboard_register_cn_tmpl_desc dashboard_register_cn_t" using all_agree by (simp add: described_structs_def)
  show "struct_value small_store (fields_of dashboard_register_cn_tmpl_desc) [2, 1, 2] = map Some [Num 2, Num 513]"
    by (simp add: fields_of_def dashboard_register_cn_tmpl_desc_def dashboard_register_cn_tmpl_def field_value_def read_uint_def mem_read_def)
  show "\<exists>t. cj_print_unformatted tree_api (Some root) = Some t \<and> CHR 0x00 \<notin> set t" if "marshel_json tree_api small_store [2, 1, 2] (jd_tmpl dashboard_register_cn_tmpl_desc) = Some root" for root
    using that by (auto simp: marshel_json_def dashboard_register_cn_tmpl_desc_def dashboard_register_cn_tmpl_def tree_api_def put_def leaf_def split: bind_splits)
qed (simp_all add: dashboard_func_defines_def small_store_def tree_api_def)

text \<open>
  Four functions have no description, and two have no place in the table: the first are refused, for the others the table is read
  behind its end.
\<close>

lemma functions_without_description:
  "f \<in> {DASHBOARD_START_STOP_AS, DASHBOARD_SEND_SINGLE_DATA, DASHBOARD_SEND_MULTI_DATA, DASHBOARD_QUERY_KEYS} \<Longrightarrow> dashboard_data_send api h st f data = Some (LD_ERR_INTERNAL, None)"
  "f \<in> {UNREGISTER_AS, UNREGISTER_GS} \<Longrightarrow> dashboard_data_send api h st f data = None"
  by (auto simp: dashboard_data_send_def dashboard_func_defines_def get_json_str_def)


end
