(* ===== verification/Log.thy ===== *)
theory Log
  imports Prelude
begin

text \<open>
  The logger of src/src/ld_log.c: a level, a switch for the terminal and up to 32 listeners, each with a level of its own. The model
  keeps what is written and which listeners are called; the clock and the formatting of the message are outside.
\<close>

section \<open>The logger\<close>

definition MAX_CALLBACKS :: nat where
  "MAX_CALLBACKS = 32"

definition level_strings :: "string list" where
  "level_strings = [''TRACE'', ''DEBUG'', ''INFO'', ''WARN'', ''ERROR'', ''FATAL'']"

text \<open>The colours are escape sequences: \<open>ESC\<close> is the character 27.\<close>

definition ESC :: string where
  "ESC = [CHR 0x1B]"

definition level_colors :: "string list" where
  "level_colors = [ESC @ ''[94m'', ESC @ ''[36m'', ESC @ ''[32m'', ESC @ ''[33m'', ESC @ ''[31m'', ESC @ ''[35m'']"

definition entry_of :: "string list \<Rightarrow> int \<Rightarrow> string option" where
  "entry_of ss i = (if 0 \<le> i \<and> nat i < length ss then Some (ss ! nat i) else None)"

definition log_level_string :: "int \<Rightarrow> string option" where
  "log_level_string level = entry_of level_strings level"

text \<open>A place of the table of listeners is taken when its function is not NULL. \<open>'f\<close> are functions, \<open>'u\<close> what they get.\<close>

record ('f, 'u) Callback =
  lc_fn :: "'f option"
  lc_udata :: 'u
  lc_level :: int

record ('f, 'u) log_state =
  lg_lock :: bool
  lg_level :: int
  lg_quiet :: bool
  lg_callbacks :: "('f, 'u) Callback list"

definition log_set_lock :: "bool \<Rightarrow> ('f, 'u) log_state \<Rightarrow> ('f, 'u) log_state" where
  "log_set_lock fn L = L\<lparr>lg_lock := fn\<rparr>"

definition log_set_level :: "int \<Rightarrow> ('f, 'u) log_state \<Rightarrow> ('f, 'u) log_state" where
  "log_set_level level L = L\<lparr>lg_level := level\<rparr>"

definition log_set_quiet :: "bool \<Rightarrow> ('f, 'u) log_state \<Rightarrow> ('f, 'u) log_state" where
  "log_set_quiet enable L = L\<lparr>lg_quiet := enable\<rparr>"

definition log_add_callback :: "'f option \<Rightarrow> 'u \<Rightarrow> int \<Rightarrow> ('f, 'u) log_state \<Rightarrow> ('f, 'u) log_state \<times> int" where
  "log_add_callback fn udata level L =
     (case first_from (\<lambda>i. lc_fn (lg_callbacks L ! i) = None) 0 MAX_CALLBACKS of
        Some i \<Rightarrow> (L\<lparr>lg_callbacks := (lg_callbacks L)[i := \<lparr>lc_fn = fn, lc_udata = udata, lc_level = level\<rparr>]\<rparr>, 0)
      | None \<Rightarrow> (L, - 1))"

definition log_add_fp :: "'f \<Rightarrow> 'u \<Rightarrow> int \<Rightarrow> ('f, 'u) log_state \<Rightarrow> ('f, 'u) log_state \<times> int" where
  "log_add_fp file_callback fp level L = log_add_callback (Some file_callback) fp level L"


section \<open>Lines\<close>

definition pad_left :: "nat \<Rightarrow> char \<Rightarrow> string \<Rightarrow> string" where
  "pad_left n c s = replicate (n - length s) c @ s"

definition pad_right :: "nat \<Rightarrow> string \<Rightarrow> string" where
  "pad_right n s = s @ replicate (n - length s) (CHR '' '')"

text \<open>\<open>time\<close> is the text of the date, \<open>usec\<close> the microseconds, \<open>msg\<close> the formatted message.\<close>

definition stdout_callback :: "string \<Rightarrow> nat \<Rightarrow> int \<Rightarrow> string \<Rightarrow> nat \<Rightarrow> string \<Rightarrow> string option" where
  "stdout_callback time usec level file line msg = do {
     color \<leftarrow> entry_of level_colors level;
     name \<leftarrow> entry_of level_strings level;
     Some (''['' @ time @ ''.'' @ pad_left 6 (CHR ''0'') (dec usec) @ ''] '' @ color @ pad_right 5 name @ ESC @ ''[0m '' @ ESC @ ''[90m'' @ file @ '':'' @ dec line @ '':'' @ ESC @ ''[0m '' @ msg @ [CHR 0x0A])
   }"

definition file_callback :: "string \<Rightarrow> nat \<Rightarrow> int \<Rightarrow> string \<Rightarrow> nat \<Rightarrow> string \<Rightarrow> string option" where
  "file_callback time usec level file line msg = do {
     name \<leftarrow> entry_of level_strings level;
     Some (''['' @ time @ ''.'' @ pad_left 6 (CHR ''0'') (dec usec) @ ''] '' @ pad_right 5 name @ '' '' @ file @ '':'' @ dec line @ '': '' @ msg @ [CHR 0x0A])
   }"

definition hex_digit :: "nat \<Rightarrow> char" where
  "hex_digit n = (if n < 10 then char_of (48 + n) else char_of (87 + n))"

definition hex2 :: "u8 \<Rightarrow> string" where
  "hex2 b = [hex_digit (unat b div 16), hex_digit (unat b mod 16), CHR '' '']"

text \<open>The text that \<open>log_print_buffer\<close> gives to \<open>log_log\<close>, as the format of a message without arguments.\<close>

definition print_buffer_format :: "int \<Rightarrow> string \<Rightarrow> u8 list \<Rightarrow> string option" where
  "print_buffer_format level msg_head buf = map_option (\<lambda>c. c @ msg_head @ '':'' @ concat (map hex2 buf) @ ESC @ ''[0m'') (entry_of level_colors level)"


section \<open>Messages\<close>

datatype ('f, 'u) log_act = Lock | Unlock | Terminal int | Listener 'f 'u int

fun call_listeners :: "int \<Rightarrow> ('f, 'u) Callback list \<Rightarrow> ('f, 'u) log_act list" where
  "call_listeners level [] = []"
| "call_listeners level (cb # cbs) =
     (case lc_fn cb of
        None \<Rightarrow> []
      | Some fn \<Rightarrow> (if lc_level cb \<le> level then [Listener fn (lc_udata cb) level] else []) @ call_listeners level cbs)"

text \<open>The line on the terminal takes the name and the colour of the level from their tables.\<close>

definition log_va :: "int \<Rightarrow> ('f, 'u) log_state \<Rightarrow> ('f, 'u) log_act list option" where
  "log_va level L = do {
     terminal \<leftarrow> (if \<not> lg_quiet L \<and> lg_level L \<le> level then map_option (\<lambda>s. [Terminal level]) (log_level_string level) else Some []);
     Some ((if lg_lock L then [Lock] else []) @ terminal @ call_listeners level (take MAX_CALLBACKS (lg_callbacks L)) @ (if lg_lock L then [Unlock] else []))
   }"

text \<open>The logger as the program starts with it: all zero.\<close>

definition empty_callback :: "'u \<Rightarrow> ('f, 'u) Callback" where
  "empty_callback z = \<lparr>lc_fn = None, lc_udata = z, lc_level = 0\<rparr>"

definition initial_log :: "'u \<Rightarrow> ('f, 'u) log_state" where
  "initial_log z = \<lparr>lg_lock = False, lg_level = 0, lg_quiet = False, lg_callbacks = replicate MAX_CALLBACKS (empty_callback z)\<rparr>"

section \<open>Listeners\<close>

definition callback :: "'f \<times> 'u \<times> int \<Rightarrow> ('f, 'u) Callback" where
  "callback r = (case r of (fn, udata, level) \<Rightarrow> \<lparr>lc_fn = Some fn, lc_udata = udata, lc_level = level\<rparr>)"

fun add_all :: "('f \<times> 'u \<times> int) list \<Rightarrow> ('f, 'u) log_state \<Rightarrow> ('f, 'u) log_state \<times> int list" where
  "add_all [] L = (L, [])"
| "add_all ((fn, udata, level) # rs) L = (let (L, e) = log_add_callback (Some fn) udata level L; (L, es) = add_all rs L in (L, e # es))"

definition listening :: "('f \<times> 'u \<times> int) list \<Rightarrow> 'u \<Rightarrow> ('f, 'u) Callback list" where
  "listening rs z = map callback rs @ replicate (MAX_CALLBACKS - length rs) (empty_callback z)"

lemma listening_free: "i < MAX_CALLBACKS \<Longrightarrow> lc_fn (listening rs z ! i) = None \<longleftrightarrow> length rs \<le> i"
  by (auto simp: listening_def nth_append callback_def empty_callback_def split: prod.splits)

lemma add_to_listening:
  assumes "lg_callbacks L = listening rs z" "length rs \<le> MAX_CALLBACKS"
  shows "log_add_callback (Some fn) udata level L =
    (if length rs < MAX_CALLBACKS then (L\<lparr>lg_callbacks := listening (rs @ [(fn, udata, level)]) z\<rparr>, 0) else (L, - 1))"
proof (cases "length rs < MAX_CALLBACKS")
  case True
  then have "first_from (\<lambda>i. lc_fn (lg_callbacks L ! i) = None) 0 MAX_CALLBACKS = Some (length rs)"
    unfolding first_from_Some_iff assms(1) using listening_free [of _ rs z] by (intro conjI allI impI) auto
  moreover have "(listening rs z)[length rs := callback (fn, udata, level)] = listening (rs @ [(fn, udata, level)]) z"
  proof -
    obtain k where k: "MAX_CALLBACKS - length rs = Suc k" using True by (metis Suc_diff_Suc)
    then have "MAX_CALLBACKS - Suc (length rs) = k" by simp
    then show ?thesis using k by (simp add: listening_def list_update_append)
  qed
  ultimately show ?thesis using True assms(1) by (simp add: log_add_callback_def callback_def)
next
  case False
  then have "first_from (\<lambda>i. lc_fn (lg_callbacks L ! i) = None) 0 MAX_CALLBACKS = None"
    unfolding first_from_None_iff assms(1) using listening_free [of _ rs z] by (intro allI impI) simp
  then show ?thesis using False by (simp add: log_add_callback_def)
qed

lemma add_all_listening:
  assumes "lg_callbacks L = listening rs0 z" "length rs0 + length rs \<le> MAX_CALLBACKS"
  shows "add_all rs L = (L\<lparr>lg_callbacks := listening (rs0 @ rs) z\<rparr>, replicate (length rs) 0)"
  using assms
proof (induction rs arbitrary: rs0 L)
  case Nil
  then show ?case by (cases L) simp
next
  case (Cons r rs)
  obtain fn udata level where r: "r = (fn, udata, level)" by (cases r)
  have "log_add_callback (Some fn) udata level L = (L\<lparr>lg_callbacks := listening (rs0 @ [r]) z\<rparr>, 0)"
    using add_to_listening [OF Cons.prems(1)] Cons.prems(2) r by simp
  then show ?case using Cons.IH [of "L\<lparr>lg_callbacks := listening (rs0 @ [r]) z\<rparr>" "rs0 @ [r]"] Cons.prems(2) r by simp
qed

lemma call_listening:
  "call_listeners level (map callback rs @ replicate k (empty_callback z)) = map (\<lambda>(fn, udata, l). Listener fn udata level) (filter (\<lambda>(fn, udata, l). l \<le> level) rs)"
proof (induction rs)
  case Nil
  then show ?case by (cases k) (simp_all add: empty_callback_def)
qed (auto simp: callback_def)

text \<open>A thirty-third listener is refused.\<close>

lemma table_full: "lg_callbacks L = listening rs z \<Longrightarrow> length rs = MAX_CALLBACKS \<Longrightarrow> log_add_callback (Some fn) udata level L = (L, - 1)"
  by (simp add: add_to_listening)

text \<open>A level outside of the six is read behind the tables.\<close>

lemma unknown_level: "\<not> lg_quiet L \<Longrightarrow> lg_level L \<le> level \<Longrightarrow> 6 \<le> level \<Longrightarrow> log_va level L = None"
  by (simp add: log_va_def log_level_string_def entry_of_def level_strings_def)

text \<open>The text of a buffer says what is in it.\<close>

lemma hex_digit_inj: "m < 16 \<Longrightarrow> n < 16 \<Longrightarrow> hex_digit m = hex_digit n \<Longrightarrow> m = n"
proof -
  assume a: "m < 16" "n < 16" "hex_digit m = hex_digit n"
  have v: "of_char (hex_digit k) = (if k < 10 then 48 + k else 87 + k :: nat)" if "k < 16" for k using that by (simp add: hex_digit_def)
  have "(if m < 10 then 48 + m else 87 + m) = (if n < 10 then 48 + n else 87 + n :: nat)" using v [OF a(1)] v [OF a(2)] a(3) by metis
  then show "m = n" using a(1,2) by (simp split: if_splits)
qed

lemma hex2_inj: "hex2 a = hex2 b \<Longrightarrow> a = b"
proof -
  assume h: "hex2 a = hex2 b"
  have "unat x div 16 < 16 \<and> unat x mod 16 < 16" for x :: u8
  proof -
    have "unat x < 2 ^ LENGTH(8)" by (rule unsigned_less)
    then have "unat x < 16 * 16" by simp
    then show ?thesis by (simp add: less_mult_imp_div_less)
  qed
  then have "unat a div 16 = unat b div 16" "unat a mod 16 = unat b mod 16" using h hex_digit_inj by (auto simp: hex2_def)
  then have "unat a = unat b" by (metis div_mult_mod_eq)
  then show ?thesis by (simp add: word_unat_eq_iff)
qed

lemma hex_inj: "concat (map hex2 as) = concat (map hex2 bs) \<Longrightarrow> as = bs"
proof (induction as arbitrary: bs)
  case Nil
  then show ?case by (cases bs) (simp_all add: hex2_def)
next
  case (Cons a as)
  then obtain b bs' where b: "bs = b # bs'" by (cases bs) (simp_all add: hex2_def)
  have "length (hex2 a) = length (hex2 b)" by (simp add: hex2_def)
  then have "hex2 a = hex2 b \<and> concat (map hex2 as) = concat (map hex2 bs')" using Cons.prems b by simp
  then show ?case using Cons.IH hex2_inj b by blast
qed


section \<open>Properties\<close>

text \<open>
  A message reaches exactly its listeners. When up to 32 listeners have been added to the fresh logger, every addition succeeds,
  and a message of one of the six levels calls, between the lock and its release, the terminal when its level is enough, and then the listeners whose
  level is at most that of the message, in the order in which they were added.
\<close>

theorem log_reaches_listeners:
  assumes "length rs \<le> MAX_CALLBACKS" "0 \<le> level" "level < 6" "add_all rs (initial_log z) = (L1, es)"
    "L = log_set_quiet quiet (log_set_level l (log_set_lock lock L1))"
  shows "es = replicate (length rs) 0 \<and> log_va level L =
    Some ((if lock then [Lock] else []) @ (if \<not> quiet \<and> l \<le> level then [Terminal level] else []) @
      map (\<lambda>(fn, udata, m). Listener fn udata level) (filter (\<lambda>(fn, udata, m). m \<le> level) rs) @ (if lock then [Unlock] else []))"
proof -
  have i: "lg_callbacks (initial_log z :: ('a, 'b) log_state) = listening [] z" by (simp add: initial_log_def listening_def)
  have a: "L1 = initial_log z\<lparr>lg_callbacks := listening rs z\<rparr>" "es = replicate (length rs) 0" using add_all_listening [OF i, of rs] assms(1,4) by simp_all
  have n: "entry_of level_strings level \<noteq> None" using assms(2,3) by (simp add: entry_of_def level_strings_def nat_less_iff)
  have "take MAX_CALLBACKS (listening rs z) = map callback rs @ replicate (MAX_CALLBACKS - length rs) (empty_callback z)" using assms(1) by (simp add: listening_def)
  then show ?thesis using a n assms(5) by (auto simp: log_va_def log_set_quiet_def log_set_level_def log_set_lock_def log_level_string_def call_listening)
qed

text \<open>Three listeners, of which two are called.\<close>

theorem log_reaches_listeners_witness:
  "log_va 3 (log_set_quiet True (log_set_level 0 (log_set_lock True (fst (add_all [(''a'', 1, 0), (''b'', 2, 5), (''c'', 3, 3)] (initial_log (0 :: nat)))))))
    = Some [Lock, Listener ''a'' 1 3, Listener ''c'' 3 3, Unlock]"
  using log_reaches_listeners [of "[(''a'', 1, 0), (''b'', 2, 5), (''c'', 3, 3)]" 3 "0 :: nat" "fst (add_all [(''a'', 1, 0), (''b'', 2, 5), (''c'', 3, 3)] (initial_log (0 :: nat)))"
      "snd (add_all [(''a'', 1, 0), (''b'', 2, 5), (''c'', 3, 3)] (initial_log (0 :: nat)))" _ True 0 True]
  by (simp add: MAX_CALLBACKS_def)


end
