(* ===== verification/Primitive.thy ===== *)
theory Primitive
  imports Prelude
begin

text \<open>
  The service primitives of src/src/ld_primitive.c: an upper layer borrows the one object of a primitive, gives it to the
  service access point and to the callback of the lower layer, and releases it. Both are functions that change the primitive;
  \<open>None\<close> means that they do not return.
\<close>

section \<open>Primitives\<close>

record 'd ld_prim =
  pm_obj_typ :: u8
  pm_objs :: "'d option"
  pm_err :: l_err
  pm_locked :: bool

type_synonym 'd prim_func = "'d ld_prim \<Rightarrow> 'd ld_prim option"

text \<open>The three access points and the three callbacks; \<open>None\<close> inside is a null pointer.\<close>

record 'd prim_funcs =
  pf_SAP :: "'d prim_func option list"
  pf_req_cb :: "'d prim_func option list"

text \<open>A mutex that is held, also by the same thread, lets nobody through.\<close>

definition prim_lock :: "'d ld_prim \<Rightarrow> 'd ld_prim option" where
  "prim_lock prim = (if pm_locked prim then None else Some (prim\<lparr>pm_locked := True\<rparr>))"

definition prim_unlock :: "'d ld_prim \<Rightarrow> 'd ld_prim" where
  "prim_unlock prim = prim\<lparr>pm_locked := False\<rparr>"

definition call_at :: "'d prim_func option list \<Rightarrow> nat \<Rightarrow> 'd ld_prim \<Rightarrow> 'd ld_prim option" where
  "call_at fs i prim = (if i < length fs then case fs ! i of None \<Rightarrow> Some prim | Some f \<Rightarrow> f prim else None)"

text \<open>The result is the error, the primitive, and what was given to \<open>free_func\<close>, when there is one. A primitive that is NULL cannot be locked.\<close>

definition preempt_prim :: "'d prim_funcs \<Rightarrow> 'd ld_prim option \<Rightarrow> u8 \<Rightarrow> 'd option \<Rightarrow> bool \<Rightarrow> nat \<Rightarrow> nat \<Rightarrow> (l_err \<times> 'd ld_prim option \<times> 'd list) option" where
  "preempt_prim fs prim ele_typ data free_func sap_ind cb_ind =
     (case prim of
        None \<Rightarrow> Some (LD_ERR_LOCK, None, [])
      | Some prim \<Rightarrow> do {
          prim \<leftarrow> prim_lock prim;
          let prim = prim\<lparr>pm_objs := data, pm_obj_typ := ele_typ\<rparr>;
          prim \<leftarrow> call_at (pf_SAP fs) sap_ind prim;
          prim \<leftarrow> call_at (pf_req_cb fs) cb_ind prim;
          let err = pm_err prim;
          let freed = (case pm_objs prim of Some d \<Rightarrow> if free_func then [d] else [] | None \<Rightarrow> []);
          Some (err, Some (prim_unlock (prim\<lparr>pm_objs := None, pm_obj_typ := 0xFF, pm_err := LD_OK\<rparr>)), freed)
        })"

definition dup_prim_data :: "'b list \<Rightarrow> nat \<Rightarrow> 'b list option" where
  "dup_prim_data data n = mem_read data 0 n"

definition clear_dup_prim_data :: "'d option \<Rightarrow> 'd list" where
  "clear_dup_prim_data data = (case data of None \<Rightarrow> [] | Some d \<Rightarrow> [d])"


section \<open>Requests\<close>

text \<open>A primitive at rest, and a request of a layer.\<close>

definition at_rest :: "'d ld_prim \<Rightarrow> bool" where
  "at_rest prim \<longleftrightarrow> pm_objs prim = None \<and> pm_err prim = LD_OK \<and> \<not> pm_locked prim"

record 'd request =
  rq_typ :: u8
  rq_data :: 'd
  rq_sap :: nat
  rq_cb :: nat

fun requests :: "'d prim_funcs \<Rightarrow> 'd ld_prim \<Rightarrow> 'd request list \<Rightarrow> (l_err list \<times> 'd ld_prim \<times> 'd list) option" where
  "requests fs prim [] = Some ([], prim, [])"
| "requests fs prim (r # rs) =
     (case preempt_prim fs (Some prim) (rq_typ r) (Some (rq_data r)) True (rq_sap r) (rq_cb r) of
        Some (e, Some prim, freed) \<Rightarrow> map_option (\<lambda>(es, prim, freed'). (e # es, prim, freed @ freed')) (requests fs prim rs)
      | _ \<Rightarrow> None)"

text \<open>A function that returns and keeps the object: it may set the error and use the object.\<close>

definition well_behaved :: "'d prim_func \<Rightarrow> bool" where
  "well_behaved f \<longleftrightarrow> (\<forall>prim. \<exists>prim'. f prim = Some prim' \<and> pm_objs prim' = pm_objs prim)"

definition funcs_ok :: "'d prim_funcs \<Rightarrow> bool" where
  "funcs_ok fs \<longleftrightarrow> length (pf_SAP fs) = 3 \<and> length (pf_req_cb fs) = 3 \<and> (\<forall>f. Some f \<in> set (pf_SAP fs) \<union> set (pf_req_cb fs) \<longrightarrow> well_behaved f)"

lemma call_at_ok: "i < length fs \<Longrightarrow> \<forall>f. Some f \<in> set fs \<longrightarrow> well_behaved f \<Longrightarrow> \<exists>prim'. call_at fs i prim = Some prim' \<and> pm_objs prim' = pm_objs prim"
  by (cases "fs ! i") (auto simp: call_at_def well_behaved_def dest: nth_mem [of i fs])

lemma preempt_ok:
  assumes "funcs_ok fs" "at_rest prim" "sap < 3" "cb < 3"
  shows "\<exists>e prim'. preempt_prim fs (Some prim) typ (Some d) True sap cb = Some (e, Some prim', [d]) \<and> at_rest prim'"
proof -
  let ?p = "prim\<lparr>pm_locked := True, pm_objs := Some d, pm_obj_typ := typ\<rparr>"
  obtain p1 where p1: "call_at (pf_SAP fs) sap ?p = Some p1" "pm_objs p1 = Some d" using call_at_ok [of sap "pf_SAP fs" ?p] assms(1,3) by (auto simp: funcs_ok_def)
  obtain p2 where p2: "call_at (pf_req_cb fs) cb p1 = Some p2" "pm_objs p2 = Some d" using call_at_ok [of cb "pf_req_cb fs" p1] assms(1,4) p1 by (auto simp: funcs_ok_def)
  show ?thesis using p1 p2 assms(2) by (simp add: preempt_prim_def prim_lock_def prim_unlock_def at_rest_def)
qed

text \<open>A function that uses its own primitive again waits for ever.\<close>

lemma nested_request_deadlocks: "pm_locked prim \<Longrightarrow> preempt_prim fs (Some prim) typ data free_func sap cb = None"
  by (simp add: preempt_prim_def prim_lock_def)

text \<open>There is no access point 3: the functions behind the array are called.\<close>

lemma access_point_out_of_bounds: "length (pf_SAP fs) = 3 \<Longrightarrow> 3 \<le> sap \<Longrightarrow> preempt_prim fs (Some prim) typ data free_func sap cb = None"
  by (simp add: preempt_prim_def call_at_def prim_lock_def)


section \<open>Properties\<close>

text \<open>
  Every object is released once. When the functions of a primitive return and keep the object, any sequence of requests runs, releases the
  object of each request exactly once and in order, and leaves the primitive at rest, so that no error and no object of one request is seen by the next.
\<close>

theorem requests_release_objects:
  assumes "funcs_ok fs" "at_rest prim" "\<forall>r \<in> set rs. rq_sap r < 3 \<and> rq_cb r < 3"
  shows "\<exists>es prim'. requests fs prim rs = Some (es, prim', map rq_data rs) \<and> at_rest prim' \<and> length es = length rs"
  using assms(2,3)
proof (induction rs arbitrary: prim)
  case (Cons r rs)
  obtain e p1 where p: "preempt_prim fs (Some prim) (rq_typ r) (Some (rq_data r)) True (rq_sap r) (rq_cb r) = Some (e, Some p1, [rq_data r])" "at_rest p1"
    using preempt_ok [OF assms(1) Cons.prems(1), of "rq_sap r" "rq_cb r" "rq_typ r" "rq_data r"] Cons.prems(2) by auto
  then show ?case using Cons.IH [OF p(2)] Cons.prems(2) by auto
qed simp

text \<open>An access point that reports an error.\<close>

definition reporting :: "nat prim_funcs" where
  "reporting = \<lparr>pf_SAP = [Some (\<lambda>p. Some (p\<lparr>pm_err := LD_ERR_INTERNAL\<rparr>)), None, None], pf_req_cb = [None, None, None]\<rparr>"

theorem requests_release_objects_witness:
  "\<exists>es prim'. requests reporting \<lparr>pm_obj_typ = 0xFF, pm_objs = None, pm_err = LD_OK, pm_locked = False\<rparr>
      [\<lparr>rq_typ = 1, rq_data = 7, rq_sap = 0, rq_cb = 1\<rparr>, \<lparr>rq_typ = 2, rq_data = 8, rq_sap = 1, rq_cb = 0\<rparr>] = Some (es, prim', [7, 8]) \<and> at_rest prim' \<and> length es = 2"
  using requests_release_objects [of reporting "\<lparr>pm_obj_typ = 0xFF, pm_objs = None, pm_err = LD_OK, pm_locked = False\<rparr>"
      "[\<lparr>rq_typ = 1, rq_data = 7, rq_sap = 0, rq_cb = 1\<rparr>, \<lparr>rq_typ = 2, rq_data = 8, rq_sap = 1, rq_cb = 0\<rparr>]"]
  by (auto simp: funcs_ok_def at_rest_def reporting_def well_behaved_def)

end
