(* ===== verification/Linked.thy ===== *)
theory Linked
  imports Prelude
begin

text \<open>
  The circular doubly linked list of src/include/ld_list.h: nodes that are members of other structs, linked to a ring through a head.
  The memory is a map from addresses to nodes; an access to an address without a node is \<open>None\<close>.
\<close>

section \<open>Nodes and operations\<close>

record list_head =
  lh_prev :: addr
  lh_next :: addr

type_synonym nodes = "addr \<rightharpoonup> list_head"

definition LIST_POISON1 :: addr where
  "LIST_POISON1 = 0x00100100"

definition LIST_POISON2 :: addr where
  "LIST_POISON2 = 0x00200200"

definition write_next :: "nodes \<Rightarrow> addr \<Rightarrow> addr \<Rightarrow> nodes option" where
  "write_next h a b = map_option (\<lambda>n. h(a \<mapsto> n\<lparr>lh_next := b\<rparr>)) (h a)"

definition write_prev :: "nodes \<Rightarrow> addr \<Rightarrow> addr \<Rightarrow> nodes option" where
  "write_prev h b a = map_option (\<lambda>n. h(b \<mapsto> n\<lparr>lh_prev := a\<rparr>)) (h b)"

definition init_list_head :: "nodes \<Rightarrow> addr \<Rightarrow> nodes option" where
  "init_list_head h list = do { h \<leftarrow> write_prev h list list; write_next h list list }"

definition list_add_between :: "nodes \<Rightarrow> addr \<Rightarrow> addr \<Rightarrow> addr \<Rightarrow> nodes option" where
  "list_add_between h new prev next' = do {
     h \<leftarrow> write_next h prev new;
     h \<leftarrow> write_prev h new prev;
     h \<leftarrow> write_next h new next';
     write_prev h next' new
   }"

definition list_add :: "nodes \<Rightarrow> addr \<Rightarrow> addr \<Rightarrow> nodes option" where
  "list_add h new head = do { n \<leftarrow> h head; list_add_between h new head (lh_next n) }"

definition list_add_tail :: "nodes \<Rightarrow> addr \<Rightarrow> addr \<Rightarrow> nodes option" where
  "list_add_tail h new head = do { n \<leftarrow> h head; list_add_between h new (lh_prev n) head }"

definition list_del_between :: "nodes \<Rightarrow> addr \<Rightarrow> addr \<Rightarrow> nodes option" where
  "list_del_between h prev next' = do { h \<leftarrow> write_next h prev next'; write_prev h next' prev }"

definition list_del :: "nodes \<Rightarrow> addr \<Rightarrow> nodes option" where
  "list_del h entry = do {
     n \<leftarrow> h entry;
     h \<leftarrow> list_del_between h (lh_prev n) (lh_next n);
     h \<leftarrow> write_next h entry LIST_POISON1;
     write_prev h entry LIST_POISON2
   }"

definition list_move :: "nodes \<Rightarrow> addr \<Rightarrow> addr \<Rightarrow> nodes option" where
  "list_move h list head = do {
     n \<leftarrow> h list;
     h \<leftarrow> list_del_between h (lh_prev n) (lh_next n);
     list_add h list head
   }"

definition list_move_tail :: "nodes \<Rightarrow> addr \<Rightarrow> addr \<Rightarrow> nodes option" where
  "list_move_tail h list head = do {
     n \<leftarrow> h list;
     h \<leftarrow> list_del_between h (lh_prev n) (lh_next n);
     list_add_tail h list head
   }"

text \<open>The positions of \<open>list_for_each\<close>, with a bound on their number.\<close>

fun positions :: "nat \<Rightarrow> nodes \<Rightarrow> addr \<Rightarrow> addr \<Rightarrow> addr list option" where
  "positions 0 h pos head = None"
| "positions (Suc fuel) h pos head =
     (if pos = head then Some []
      else do { n \<leftarrow> h pos; ps \<leftarrow> positions fuel h (lh_next n) head; Some (pos # ps) })"

definition list_for_each :: "nat \<Rightarrow> nodes \<Rightarrow> addr \<Rightarrow> addr list option" where
  "list_for_each fuel h head = do { n \<leftarrow> h head; positions fuel h (lh_next n) head }"


section \<open>Rings\<close>

definition link :: "nodes \<Rightarrow> addr \<Rightarrow> addr \<Rightarrow> bool" where
  "link h a b \<longleftrightarrow> map_option lh_next (h a) = Some b \<and> map_option lh_prev (h b) = Some a"

fun linked :: "nodes \<Rightarrow> addr list \<Rightarrow> bool" where
  "linked h (a # b # r) \<longleftrightarrow> link h a b \<and> linked h (b # r)"
| "linked h _ \<longleftrightarrow> True"

text \<open>The ring of a head: the head, the nodes in order, and the head again.\<close>

definition ring :: "nodes \<Rightarrow> addr \<Rightarrow> addr list \<Rightarrow> bool" where
  "ring h head xs \<longleftrightarrow> distinct (head # xs) \<and> linked h (head # xs @ [head])"

lemma linked_split: "linked h (us @ a # vs) \<longleftrightarrow> linked h (us @ [a]) \<and> linked h (a # vs)"
proof (induction us)
  case (Cons u us)
  then show ?case by (cases us) auto
qed simp

lemma write_next_Some: "write_next h a b = Some h' \<longleftrightarrow> (\<exists>n. h a = Some n \<and> h' = h(a \<mapsto> n\<lparr>lh_next := b\<rparr>))"
  by (auto simp: write_next_def)

lemma write_prev_Some: "write_prev h b a = Some h' \<longleftrightarrow> (\<exists>n. h b = Some n \<and> h' = h(b \<mapsto> n\<lparr>lh_prev := a\<rparr>))"
  by (auto simp: write_prev_def)

text \<open>What two nodes that become neighbours do to the memory.\<close>

definition joined :: "nodes \<Rightarrow> addr \<Rightarrow> addr \<Rightarrow> nodes" where
  "joined h a b = (let h1 = h(a := map_option (lh_next_update (\<lambda>_. b)) (h a)) in h1(b := map_option (lh_prev_update (\<lambda>_. a)) (h1 b)))"

lemma joined_link: "h a \<noteq> None \<Longrightarrow> h b \<noteq> None \<Longrightarrow> link (joined h a b) a b"
  by (auto simp: joined_def link_def Let_def)

lemma joined_field:
  "c \<noteq> a \<Longrightarrow> map_option lh_next (joined h a b c) = map_option lh_next (h c)"
  "d \<noteq> b \<Longrightarrow> map_option lh_prev (joined h a b d) = map_option lh_prev (h d)"
  by (simp_all add: joined_def Let_def option.map_comp comp_def)

lemma joined_other: "c \<noteq> a \<Longrightarrow> d \<noteq> b \<Longrightarrow> link (joined h a b) c d \<longleftrightarrow> link h c d"
  unfolding link_def by (simp only: joined_field not_False_eq_True)

lemma joined_frame: "c \<noteq> a \<Longrightarrow> c \<noteq> b \<Longrightarrow> joined h a b c = h c" "joined h a b c = None \<longleftrightarrow> h c = None"
  by (auto simp: joined_def Let_def)

lemma joined_linked: "a \<notin> set (butlast path) \<Longrightarrow> b \<notin> set (tl path) \<Longrightarrow> linked (joined h a b) path \<longleftrightarrow> linked h path"
proof (induction path)
  case (Cons c path)
  then show ?case using joined_other by (cases path) (auto split: if_splits)
qed simp

lemma linked_frame: "\<forall>c \<in> set path. h' c = h c \<Longrightarrow> linked h' path \<longleftrightarrow> linked h path"
proof (induction path)
  case (Cons c path)
  then show ?case by (cases path) (auto simp: link_def)
qed simp

lemma list_del_between_joined: "h p \<noteq> None \<Longrightarrow> h n \<noteq> None \<Longrightarrow> list_del_between h p n = Some (joined h p n)"
  by (auto simp: list_del_between_def write_next_def write_prev_def joined_def Let_def)

lemma list_add_between_joined:
  "h p \<noteq> None \<Longrightarrow> h n \<noteq> None \<Longrightarrow> h x \<noteq> None \<Longrightarrow> list_add_between h x p n = Some (joined (joined h p x) x n)"
  by (auto simp: list_add_between_def write_next_def write_prev_def joined_def Let_def)

lemma linked_nodes: "linked h (a # b # r) \<Longrightarrow> c \<in> set (a # b # r) \<Longrightarrow> h c \<noteq> None"
proof (induction r arbitrary: a b)
  case Nil
  then show ?case by (auto simp: link_def)
next
  case (Cons d r)
  then show ?case using Cons.IH [of b d] by (auto simp: link_def)
qed

lemma ring_nodes: "ring h head xs \<Longrightarrow> c \<in> insert head (set xs) \<Longrightarrow> h c \<noteq> None"
  unfolding ring_def using linked_nodes [of h head "hd (xs @ [head])" "tl (xs @ [head])" c] by (cases xs) auto

lemma ring_split:
  assumes "ring h head xs" "head # xs @ [head] = us @ p # n # vs"
  shows "p \<notin> set us" "n \<notin> set (tl (us @ [p]))" "p \<notin> set (butlast (n # vs))" "n \<notin> set vs" "link h p n" "linked h (us @ [p])" "linked h (n # vs)"
    "h p \<noteq> None" "h n \<noteq> None"
proof -
  have l: "linked h (us @ p # n # vs)" using assms by (simp add: ring_def)
  then show "link h p n" "linked h (us @ [p])" "linked h (n # vs)" using linked_split [of h us p "n # vs"] by simp_all
  have "set (us @ p # n # vs) = insert head (set xs)" using assms(2) [symmetric] by auto
  then have "p \<in> insert head (set xs)" "n \<in> insert head (set xs)" by auto
  then show "h p \<noteq> None" "h n \<noteq> None" using ring_nodes [OF assms(1)] by blast+
  have "butlast (us @ p # n # vs) = head # xs" "tl (us @ p # n # vs) = xs @ [head]" using assms(2) [symmetric] by (simp_all add: butlast_append)
  then have d: "distinct (butlast (us @ p # n # vs))" "distinct (tl (us @ p # n # vs))" using assms(1) by (simp_all add: ring_def)
  have "butlast (us @ p # n # vs) = us @ p # butlast (n # vs)" by (simp add: butlast_append)
  then have "distinct (us @ p # butlast (n # vs))" using d(1) by metis
  then show "p \<notin> set us" "p \<notin> set (butlast (n # vs))" by auto
  have "tl (us @ p # n # vs) = tl (us @ [p]) @ n # vs" by (cases us) simp_all
  then have "distinct (tl (us @ [p]) @ n # vs)" using d(2) by metis
  then show "n \<notin> set (tl (us @ [p]))" "n \<notin> set vs" by auto
qed

text \<open>A node between two neighbours.\<close>

lemma insert_ring:
  assumes "ring h head xs" "head # xs @ [head] = us @ p # n # vs" "h x \<noteq> None" "x \<notin> insert head (set xs)"
  shows "\<exists>h'. list_add_between h x p n = Some h' \<and> linked h' (us @ p # x # n # vs) \<and> (\<forall>c. c \<notin> insert x (insert head (set xs)) \<longrightarrow> h' c = h c) \<and> dom h' = dom h"
proof -
  note s = ring_split [OF assms(1,2)]
  let ?h1 = "joined h p x" let ?h2 = "joined ?h1 x n"
  have m: "set (us @ p # n # vs) = insert head (set xs)" using assms(2) [symmetric] by auto
  then have x: "x \<noteq> p" "x \<noteq> n" "x \<notin> set us" "x \<notin> set vs" using assms(4) by auto
  have "link ?h1 p x" using s(8) assms(3) by (rule joined_link)
  then have a: "link ?h2 p x" using joined_other [of p x x n ?h1] x by simp
  have b: "link ?h2 x n" using joined_frame(2) assms(3) s(9) by (intro joined_link) auto
  have "x \<notin> set (tl (us @ [p]))" using x(1,3) by (cases us) auto
  then have "linked ?h1 (us @ [p])" using joined_linked [of p "us @ [p]" x h] s(1,6) by simp
  then have c: "linked ?h2 (us @ [p])" using joined_linked [of x "us @ [p]" n ?h1] s(2) x(3) by simp
  have "linked ?h1 (n # vs)" using joined_linked [of p "n # vs" x h] s(3,7) x(4) by simp
  moreover have "x \<notin> set (butlast (n # vs))" using x(2,4) by (metis in_set_butlastD set_ConsD)
  ultimately have d: "linked ?h2 (n # vs)" using joined_linked [of x "n # vs" n ?h1] s(4) by simp
  have "linked ?h2 (us @ p # x # n # vs)" using a b c d linked_split [of ?h2 us p "x # n # vs"] by simp
  moreover have "?h2 c = h c" if "c \<notin> insert x (insert head (set xs))" for c
  proof -
    have "c \<noteq> x" "c \<noteq> p" "c \<noteq> n" using that m by auto
    then show ?thesis by (simp add: joined_frame(1))
  qed
  moreover have "dom ?h2 = dom h" by (simp add: dom_def joined_frame(2))
  ultimately show ?thesis using list_add_between_joined [OF s(8,9) assms(3)] by blast
qed

text \<open>The neighbours of a node, without it.\<close>

lemma remove_ring:
  assumes "ring h head (ys @ x # zs)"
  shows "\<exists>n h'. h x = Some n \<and> list_del_between h (lh_prev n) (lh_next n) = Some h' \<and> ring h' head (ys @ zs) \<and> h' x = h x \<and>
    (\<forall>c. c \<notin> insert head (set (ys @ zs)) \<longrightarrow> h' c = h c) \<and> dom h' = dom h"
proof -
  obtain us p where u: "head # ys = us @ [p]" by (metis append_butlast_last_id list.distinct(1))
  obtain m vs where v: "zs @ [head] = m # vs" by (cases "zs @ [head]") simp_all
  have path: "head # (ys @ x # zs) @ [head] = us @ p # x # m # vs" using u v by simp
  then have path2: "head # (ys @ x # zs) @ [head] = (us @ [p]) @ x # m # vs" by simp
  note s = ring_split [OF assms path] and t = ring_split [OF assms path2]
  obtain n where n: "h x = Some n" using s(9) by auto
  have e: "lh_prev n = p" "lh_next n = m" using s(5) t(5) n by (auto simp: link_def)
  let ?h = "joined h p m"
  have d: "distinct (head # ys @ x # zs)" using assms by (simp add: ring_def)
  have sets: "set us \<union> {p} = insert head (set ys)" "insert m (set vs) = insert head (set zs)" using arg_cong [OF u, of set] arg_cong [OF v, of set] by auto
  have xp: "x \<noteq> p" "x \<noteq> m" using sets d by auto
  have "m \<notin> set (tl (us @ [p]))" using s(2) t(2) xp by (cases us) auto
  then have a: "linked ?h (us @ [p])" using joined_linked [of p "us @ [p]" m h] s(1,6) by simp
  have "p \<notin> set (butlast (m # vs))" using s(3) by (auto split: if_splits)
  then have b: "linked ?h (m # vs)" using joined_linked [of p "m # vs" m h] t(4,7) by simp
  have "linked ?h (us @ p # m # vs)" using a b joined_link [OF s(8) t(9)] linked_split [of ?h us p "m # vs"] by simp
  moreover have "us @ p # m # vs = head # (ys @ zs) @ [head]" using arg_cong2 [OF u v, of "(@)"] by simp
  ultimately have "ring ?h head (ys @ zs)" using d by (simp add: ring_def)
  moreover have "?h c = h c" if "c \<notin> insert head (set (ys @ zs))" for c
  proof -
    have "c \<noteq> p" "c \<noteq> m" using that sets by auto
    then show ?thesis by (simp add: joined_frame(1))
  qed
  moreover have "?h x = h x" using xp by (simp add: joined_frame(1))
  moreover have "dom ?h = dom h" by (simp add: dom_def joined_frame(2))
  ultimately show ?thesis using list_del_between_joined [OF s(8) t(9)] n e by blast
qed


lemma positions_ring:
  assumes "linked h (xs @ [head])" "head \<notin> set xs" "\<forall>x \<in> set xs. h x \<noteq> None" "length xs < fuel"
  shows "positions fuel h (hd (xs @ [head])) head = Some xs"
  using assms
proof (induction xs arbitrary: fuel)
  case Nil
  then show ?case by (cases fuel) simp_all
next
  case (Cons x xs)
  then obtain f where f: "fuel = Suc f" by (cases fuel) simp_all
  obtain n where n: "h x = Some n" using Cons.prems(3) by auto
  have l: "link h x (hd (xs @ [head]))" "linked h (xs @ [head])" using Cons.prems(1) by (cases xs; simp)+
  then have "lh_next n = hd (xs @ [head])" using n by (simp add: link_def)
  then show ?case using Cons.IH [OF l(2), of f] Cons.prems f n by simp
qed


section \<open>The operations on rings\<close>

text \<open>Other lists are not affected by an operation: their nodes keep what they hold.\<close>

definition only :: "nodes \<Rightarrow> nodes \<Rightarrow> addr set \<Rightarrow> bool" where
  "only h h' A \<longleftrightarrow> (\<forall>c. c \<notin> A \<longrightarrow> h' c = h c) \<and> dom h' = dom h"

lemma ring_only: "ring h head xs \<Longrightarrow> only h h' A \<Longrightarrow> A \<inter> insert head (set xs) = {} \<Longrightarrow> ring h' head xs"
proof -
  assume a: "ring h head xs" "only h h' A" "A \<inter> insert head (set xs) = {}"
  have "\<forall>c \<in> set (head # xs @ [head]). h' c = h c" using a(2,3) by (fastforce simp: only_def)
  then show ?thesis using linked_frame [of "head # xs @ [head]" h' h] a(1) by (simp add: ring_def)
qed

lemma init_ring: "h list \<noteq> None \<Longrightarrow> \<exists>h'. init_list_head h list = Some h' \<and> ring h' list [] \<and> only h h' {list}"
  by (auto simp: init_list_head_def write_next_def write_prev_def ring_def link_def only_def)

lemma add_ring:
  assumes "ring h head xs" "h x \<noteq> None" "x \<notin> insert head (set xs)"
  shows "\<exists>h'. list_add h x head = Some h' \<and> ring h' head (x # xs) \<and> only h h' (insert x (insert head (set xs)))"
proof -
  obtain n vs where v: "xs @ [head] = n # vs" by (cases "xs @ [head]") simp_all
  then have p: "head # xs @ [head] = [] @ head # n # vs" by simp
  note s = ring_split [OF assms(1) p]
  obtain hn where hn: "h head = Some hn" "lh_next hn = n" using s(5) by (auto simp: link_def)
  from insert_ring [OF assms(1) p assms(2,3)] obtain h' where h: "list_add_between h x head n = Some h'" "linked h' ([] @ head # x # n # vs)"
    "\<forall>c. c \<notin> insert x (insert head (set xs)) \<longrightarrow> h' c = h c" "dom h' = dom h" by blast
  have "ring h' head (x # xs)" using h(2) v assms(1,3) by (auto simp: ring_def)
  then show ?thesis using h hn by (simp add: list_add_def only_def)
qed

lemma add_tail_ring:
  assumes "ring h head xs" "h x \<noteq> None" "x \<notin> insert head (set xs)"
  shows "\<exists>h'. list_add_tail h x head = Some h' \<and> ring h' head (xs @ [x]) \<and> only h h' (insert x (insert head (set xs)))"
proof -
  obtain us p where u: "head # xs = us @ [p]" by (metis append_butlast_last_id list.distinct(1))
  then have p: "head # xs @ [head] = us @ p # head # []" by (metis append.assoc append_Cons append_Nil)
  note s = ring_split [OF assms(1) p]
  obtain hn where hn: "h head = Some hn" "lh_prev hn = p" using s(5) by (auto simp: link_def)
  from insert_ring [OF assms(1) p assms(2,3)] obtain h' where h: "list_add_between h x p head = Some h'" "linked h' (us @ p # x # head # [])"
    "\<forall>c. c \<notin> insert x (insert head (set xs)) \<longrightarrow> h' c = h c" "dom h' = dom h" by blast
  have "us @ p # x # head # [] = head # (xs @ [x]) @ [head]" using arg_cong [OF u, of "\<lambda>l. l @ [x, head]"] by simp
  then have "linked h' (head # (xs @ [x]) @ [head])" using h(2) by metis
  then have "ring h' head (xs @ [x])" using assms(1,3) by (auto simp: ring_def)
  then show ?thesis using h hn by (simp add: list_add_tail_def only_def)
qed

section \<open>Many lists over one set of nodes\<close>

datatype list_op = Add addr addr | Add_tail addr addr | Del addr | Move addr addr | Move_tail addr addr

fun apply_op :: "nodes \<Rightarrow> list_op \<Rightarrow> nodes option" where
  "apply_op h (Add x head) = list_add h x head"
| "apply_op h (Add_tail x head) = list_add_tail h x head"
| "apply_op h (Del x) = list_del h x"
| "apply_op h (Move x head) = list_move h x head"
| "apply_op h (Move_tail x head) = list_move_tail h x head"

fun apply_ops :: "nodes \<Rightarrow> list_op list \<Rightarrow> nodes option" where
  "apply_ops h [] = Some h"
| "apply_ops h (p # ps) = do { h \<leftarrow> apply_op h p; apply_ops h ps }"

text \<open>What the operations promise: \<open>A head\<close> is the list of a head.\<close>

definition without :: "(addr \<Rightarrow> addr list) \<Rightarrow> addr \<Rightarrow> addr \<Rightarrow> addr list" where
  "without A x = (\<lambda>head. removeAll x (A head))"

fun spec_op :: "(addr \<Rightarrow> addr list) \<Rightarrow> list_op \<Rightarrow> addr \<Rightarrow> addr list" where
  "spec_op A (Add x head) = A(head := x # A head)"
| "spec_op A (Add_tail x head) = A(head := A head @ [x])"
| "spec_op A (Del x) = without A x"
| "spec_op A (Move x head) = (without A x)(head := x # without A x head)"
| "spec_op A (Move_tail x head) = (without A x)(head := without A x head @ [x])"

text \<open>Only a node without a list is added, and only a node of a list is deleted or moved; \<open>H\<close> are the heads, \<open>N\<close> the nodes.\<close>

definition is_free :: "addr set \<Rightarrow> addr set \<Rightarrow> (addr \<Rightarrow> addr list) \<Rightarrow> addr \<Rightarrow> bool" where
  "is_free H N A x \<longleftrightarrow> x \<in> N \<and> (\<forall>head \<in> H. x \<notin> set (A head))"

definition is_member :: "addr set \<Rightarrow> (addr \<Rightarrow> addr list) \<Rightarrow> addr \<Rightarrow> bool" where
  "is_member H A x \<longleftrightarrow> (\<exists>head \<in> H. x \<in> set (A head))"

fun allowed :: "addr set \<Rightarrow> addr set \<Rightarrow> (addr \<Rightarrow> addr list) \<Rightarrow> list_op \<Rightarrow> bool" where
  "allowed H N A (Add x head) \<longleftrightarrow> head \<in> H \<and> is_free H N A x"
| "allowed H N A (Add_tail x head) \<longleftrightarrow> head \<in> H \<and> is_free H N A x"
| "allowed H N A (Del x) \<longleftrightarrow> is_member H A x"
| "allowed H N A (Move x head) \<longleftrightarrow> head \<in> H \<and> is_member H A x"
| "allowed H N A (Move_tail x head) \<longleftrightarrow> head \<in> H \<and> is_member H A x"

fun all_allowed :: "addr set \<Rightarrow> addr set \<Rightarrow> (addr \<Rightarrow> addr list) \<Rightarrow> list_op list \<Rightarrow> bool" where
  "all_allowed H N A [] \<longleftrightarrow> True"
| "all_allowed H N A (p # ps) \<longleftrightarrow> allowed H N A p \<and> all_allowed H N (spec_op A p) ps"

definition holds_lists :: "addr set \<Rightarrow> addr set \<Rightarrow> nodes \<Rightarrow> (addr \<Rightarrow> addr list) \<Rightarrow> bool" where
  "holds_lists H N h A \<longleftrightarrow> H \<inter> N = {} \<and> N \<subseteq> dom h \<and> (\<forall>head \<in> H. ring h head (A head) \<and> set (A head) \<subseteq> N) \<and>
     (\<forall>a \<in> H. \<forall>b \<in> H. a \<noteq> b \<longrightarrow> set (A a) \<inter> set (A b) = {})"

lemma holds_lists_update:
  assumes "holds_lists H N h A" "head \<in> H" "only h h' B" "B \<subseteq> insert x (insert head (set (A head)))" "ring h' head xs" "set xs \<subseteq> insert x (set (A head))"
    "x \<in> N" "\<And>b. b \<in> H \<Longrightarrow> b \<noteq> head \<Longrightarrow> x \<notin> set (A b)"
  shows "holds_lists H N h' (A(head := xs))"
proof -
  have r: "ring h' b (A b)" if "b \<in> H" "b \<noteq> head" for b
  proof (rule ring_only [OF _ assms(3)])
    show "ring h b (A b)" using assms(1) that by (simp add: holds_lists_def)
    have "set (A head) \<inter> set (A b) = {}" "set (A b) \<subseteq> N" "set (A head) \<subseteq> N" "H \<inter> N = {}" using assms(1,2) that by (auto simp: holds_lists_def)
    then show "B \<inter> insert b (set (A b)) = {}" using assms(2,4,7) assms(8) [OF that] that by blast
  qed
  have "dom h' = dom h" using assms(3) by (simp add: only_def)
  moreover have "set (A head) \<subseteq> N" using assms(1,2) by (simp add: holds_lists_def)
  then have "set xs \<subseteq> N" using assms(6,7) by blast
  moreover have "set xs \<inter> set (A b) = {}" if "b \<in> H" "b \<noteq> head" for b
    using assms(1,2,6) assms(8) [OF that] that unfolding holds_lists_def by blast
  ultimately show ?thesis using assms(1,5) r unfolding holds_lists_def by (simp add: Int_commute)
qed

lemma without_member:
  assumes "holds_lists H N h A" "x \<in> set (A a)" "a \<in> H"
  shows "b \<in> H \<Longrightarrow> b \<noteq> a \<Longrightarrow> x \<notin> set (A b)" "b \<in> H \<Longrightarrow> b \<noteq> a \<Longrightarrow> without A x b = A b"
proof -
  show x: "x \<notin> set (A b)" if "b \<in> H" "b \<noteq> a" using assms that unfolding holds_lists_def by blast
  then show "without A x b = A b" if "b \<in> H" "b \<noteq> a" using that by (simp add: without_def)
qed

lemma holds_lists_cong: "(\<And>b. b \<in> H \<Longrightarrow> A b = A' b) \<Longrightarrow> holds_lists H N h A = holds_lists H N h A'"
  by (simp add: holds_lists_def)

lemma unlink_holds:
  assumes "holds_lists H N h A" "is_member H A x"
  shows "\<exists>n h'. h x = Some n \<and> list_del_between h (lh_prev n) (lh_next n) = Some h' \<and> holds_lists H N h' (without A x) \<and> is_free H N (without A x) x"
proof -
  obtain a where a: "a \<in> H" "x \<in> set (A a)" using assms(2) by (auto simp: is_member_def)
  then obtain ys zs where s: "A a = ys @ x # zs" by (meson split_list)
  have r: "ring h a (ys @ x # zs)" "x \<in> N" using assms(1) a s by (auto simp: holds_lists_def)
  then have d: "x \<notin> set ys" "x \<notin> set zs" by (auto simp: ring_def)
  from remove_ring [OF r(1)] obtain n h' where h: "h x = Some n" "list_del_between h (lh_prev n) (lh_next n) = Some h'" "ring h' a (ys @ zs)" "only h h' (insert a (set (ys @ zs)))"
    unfolding only_def by blast
  have "insert a (set (ys @ zs)) \<subseteq> insert x (insert a (set (A a)))" "set (ys @ zs) \<subseteq> insert x (set (A a))" using s by auto
  then have "holds_lists H N h' (A(a := ys @ zs))"
    using holds_lists_update [OF assms(1) a(1) h(4) _ h(3) _ r(2)] without_member(1) [OF assms(1) a(2,1)] by blast
  moreover have "without A x b = (A(a := ys @ zs)) b" if "b \<in> H" for b
    using without_member(2) [OF assms(1) a(2,1) that] s d by (cases "b = a") (simp_all add: without_def)
  ultimately have "holds_lists H N h' (without A x)" using holds_lists_cong by metis
  moreover have "is_free H N (without A x) x" using r(2) by (simp add: is_free_def without_def)
  ultimately show ?thesis using h(1,2) by blast
qed

lemma del_holds:
  assumes "holds_lists H N h A" "is_member H A x"
  shows "\<exists>h'. list_del h x = Some h' \<and> holds_lists H N h' (without A x)"
proof -
  from unlink_holds [OF assms] obtain n h1 where u: "h x = Some n" "list_del_between h (lh_prev n) (lh_next n) = Some h1" "holds_lists H N h1 (without A x)" "is_free H N (without A x) x" by blast
  obtain m where m: "h1 x = Some m" using u(3,4) by (auto simp: holds_lists_def is_free_def)
  let ?h = "h1(x \<mapsto> \<lparr>lh_prev = LIST_POISON2, lh_next = LIST_POISON1\<rparr>)"
  have "list_del h x = Some ?h" using u(1,2) m by (cases m) (simp add: list_del_def write_next_def write_prev_def)
  moreover have "x \<in> dom h1" using m by blast
  then have o: "only h1 ?h {x}" by (simp add: only_def insert_absorb)
  have "ring ?h b (without A x b)" if "b \<in> H" for b
  proof (rule ring_only [OF _ o])
    show "ring h1 b (without A x b)" using u(3) that by (simp add: holds_lists_def)
    show "{x} \<inter> insert b (set (without A x b)) = {}" using u(3,4) that by (auto simp: holds_lists_def is_free_def without_def)
  qed
  then have "holds_lists H N ?h (without A x)" using u(3) o by (simp add: holds_lists_def only_def)
  ultimately show ?thesis by blast
qed

lemma add_holds:
  assumes "holds_lists H N h A" "is_free H N A x" "head \<in> H"
  shows "\<exists>h'. list_add h x head = Some h' \<and> holds_lists H N h' (A(head := x # A head))"
    and "\<exists>h'. list_add_tail h x head = Some h' \<and> holds_lists H N h' (A(head := A head @ [x]))"
proof -
  have r: "ring h head (A head)" using assms(1,3) by (simp add: holds_lists_def)
  have x: "x \<in> N" "h x \<noteq> None" "x \<notin> insert head (set (A head))" using assms unfolding holds_lists_def is_free_def by blast+
  have f: "b \<in> H \<Longrightarrow> b \<noteq> head \<Longrightarrow> x \<notin> set (A b)" for b using assms(2) by (simp add: is_free_def)
  from add_ring [OF r x(2,3)] obtain h1 where "list_add h x head = Some h1" "ring h1 head (x # A head)" "only h h1 (insert x (insert head (set (A head))))" by blast
  then show "\<exists>h'. list_add h x head = Some h' \<and> holds_lists H N h' (A(head := x # A head))"
    using holds_lists_update [OF assms(1,3), of h1 "insert x (insert head (set (A head)))" x "x # A head"] x(1) f by auto
  from add_tail_ring [OF r x(2,3)] obtain h2 where "list_add_tail h x head = Some h2" "ring h2 head (A head @ [x])" "only h h2 (insert x (insert head (set (A head))))" by blast
  then show "\<exists>h'. list_add_tail h x head = Some h' \<and> holds_lists H N h' (A(head := A head @ [x]))"
    using holds_lists_update [OF assms(1,3), of h2 "insert x (insert head (set (A head)))" x "A head @ [x]"] x(1) f by auto
qed

lemma op_holds:
  assumes "holds_lists H N h A" "allowed H N A p"
  shows "\<exists>h'. apply_op h p = Some h' \<and> holds_lists H N h' (spec_op A p)"
proof (cases p)
  case (Add x head)
  then show ?thesis using add_holds(1) [OF assms(1)] assms(2) by simp
next
  case (Add_tail x head)
  then show ?thesis using add_holds(2) [OF assms(1)] assms(2) by simp
next
  case (Del x)
  then show ?thesis using del_holds [OF assms(1)] assms(2) by simp
next
  case (Move x head)
  then have m: "head \<in> H" "is_member H A x" using assms(2) by simp_all
  from unlink_holds [OF assms(1) m(2)] obtain n h1 where u: "h x = Some n" "list_del_between h (lh_prev n) (lh_next n) = Some h1" "holds_lists H N h1 (without A x)" "is_free H N (without A x) x" by blast
  then show ?thesis using Move add_holds(1) [OF u(3,4) m(1)] by (simp add: list_move_def)
next
  case (Move_tail x head)
  then have m: "head \<in> H" "is_member H A x" using assms(2) by simp_all
  from unlink_holds [OF assms(1) m(2)] obtain n h1 where u: "h x = Some n" "list_del_between h (lh_prev n) (lh_next n) = Some h1" "holds_lists H N h1 (without A x)" "is_free H N (without A x) x" by blast
  then show ?thesis using Move_tail add_holds(2) [OF u(3,4) m(1)] by (simp add: list_move_tail_def)
qed

lemma for_each_ring:
  assumes "ring h head xs" "length xs < fuel"
  shows "list_for_each fuel h head = Some xs"
proof -
  have l: "link h head (hd (xs @ [head]))" "linked h (xs @ [head])" using assms(1) by (cases xs; simp add: ring_def)+
  then obtain n where "h head = Some n" "lh_next n = hd (xs @ [head])" by (auto simp: link_def)
  then show ?thesis using positions_ring [OF l(2), of fuel] assms ring_nodes [OF assms(1)] by (auto simp: list_for_each_def ring_def)
qed

text \<open>A loop that deletes the node it stands at follows the poison.\<close>

lemma delete_in_loop: "list_del h x = Some h' \<Longrightarrow> positions (Suc fuel) h' x head = Some ps \<Longrightarrow> x = head \<or> fuel \<noteq> 0 \<and> (LIST_POISON1 = head \<or> h' LIST_POISON1 \<noteq> None)"
  by (cases fuel) (auto simp: list_del_def write_next_def write_prev_def split: bind_splits if_splits)


section \<open>Properties\<close>

text \<open>
  Property C18: the links implement lists. Any sequence of operations, in which only nodes without a list are added and only nodes
  of a list are deleted or moved, runs without an access outside of the nodes, and afterwards the loop over every head
  visits exactly the nodes of its list in order, and comes to its end.
\<close>

theorem links_implement_lists:
  assumes "holds_lists H N h A" "all_allowed H N A ps" "head \<in> H"
  shows "\<exists>h'. apply_ops h ps = Some h' \<and> list_for_each (Suc (length (fold (\<lambda>p A. spec_op A p) ps A head))) h' head = Some (fold (\<lambda>p A. spec_op A p) ps A head)"
  using assms(1,2)
proof (induction ps arbitrary: h A)
  case Nil
  then have "ring h head (A head)" using assms(3) by (simp add: holds_lists_def)
  then show ?case using for_each_ring by simp
next
  case (Cons p ps)
  then show ?case using op_holds [of H N h A p] by auto
qed

text \<open>Two heads, 10 and 20, and two nodes.\<close>

definition two_heads :: nodes where
  "two_heads = [1 \<mapsto> \<lparr>lh_prev = 0, lh_next = 0\<rparr>, 2 \<mapsto> \<lparr>lh_prev = 0, lh_next = 0\<rparr>, 10 \<mapsto> \<lparr>lh_prev = 10, lh_next = 10\<rparr>, 20 \<mapsto> \<lparr>lh_prev = 20, lh_next = 20\<rparr>]"

theorem links_implement_lists_witness:
  "\<exists>h'. apply_ops two_heads [Add 1 10, Add_tail 2 10, Move 1 20, Del 2, Add 2 20] = Some h' \<and> list_for_each 3 h' 20 = Some [2, 1]"
proof -
  have "holds_lists {10, 20} {1, 2} two_heads (\<lambda>_. [])" by (auto simp: holds_lists_def two_heads_def ring_def link_def)
  from links_implement_lists [OF this, of "[Add 1 10, Add_tail 2 10, Move 1 20, Del 2, Add 2 20]" 20] show ?thesis
    by (simp add: is_free_def is_member_def without_def numeral_3_eq_3)
qed

end
