(* ===== verification/Spec2Isabelle.thy ===== *)
theory Spec2Isabelle
  imports Prelude Buffer Rbuffer Drr Bitset Heap Pqueue Hashmap_Spec Crc Hashes Santilizer_Spec Ipv6 Net_Conn Statemachine Window Mqueue_Steps Mqueue Aqueue_Steps Mempool_Pool Multitimer Sanitize Sqlite Config Newtimer Globaltimer Json Dashboard Log Primitive Linked
begin

text \<open>
  A verification library for the LDACS SDK: the C library under src/src and src/include that gives
  LDACS simulators and ground stations their data structures, packet codec, scheduling, timers,
  queues and networking.

  \<^bold>\<open>The parts of the program and the theories that model them.\<close>

  Most components of the SDK are libraries that do not know each other; the few that build on
  others are composed here as they are in the code.
  \<^item> Data structures. \<open>Buffer\<close>: the growable byte buffer (ld_buffer.c). \<open>Rbuffer\<close>: the ring of
    nodes (ld_rbuffer.c), over an explicit node store. \<open>Bitset\<close>: the resource bitset (ld_bitset.c).
    \<open>Heap\<close>: the heap of connections (ld_heap.c); \<open>Pqueue\<close>: the priority queue with its mutex
    (ld_pqueue.c); \<open>Heap_Order\<close>: the order argument both share. \<open>Hashmap\<close>, \<open>Robin_Hood\<close> and
    \<open>Hashmap_Spec\<close>: the hash map (ld_hashmap.c), its table invariant and its contract; \<open>Hashes\<close>: the
    hash functions of the same file. \<open>Mempool\<close>, \<open>Mempool_Layout\<close>, \<open>Mempool_Ops\<close> and \<open>Mempool_Pool\<close>:
    the memory pool (ld_alloc.c), what its memory means, its operations on that picture, and its
    clients.
  \<^item> Scheduling. \<open>Drr\<close>: the deficit round robin scheduler (ld_drr.c), on top of \<open>Rbuffer\<close>.
    \<open>Multitimer\<close>: the timers that share one thread (ld_multitimer.c).
  \<^item> Packets. \<open>Crc\<close>: the checksums (ld_crc.c). \<open>Bits\<close>: the bit packing at the bottom of the codec,
    \<open>Santilizer\<close> and \<open>Santilizer_Spec\<close>: the descriptor-driven codec (ld_santilizer.c) and its round
    trip, on top of \<open>Bits\<close>, \<open>Crc\<close> and \<open>Buffer\<close>; \<open>Ipv6\<close>: the descriptor of IPv6 and TCP headers
    (ipv6_parse.c).
  \<^item> Networking (ld_net.c). \<open>Net_Stream\<close>: framing, reassembly and the write queue of one connection;
    \<open>Net_Conn\<close>: the manager of all connections, on top of \<open>Heap\<close> and \<open>Net_Stream\<close>. \<open>Window\<close>: the
    selective-repeat window (ld_window.c).
  \<^item> Control. \<open>Statemachine\<close>: the hierarchical state machine (ld_statemachine.c).
  \<^item> Queues between threads. \<open>Mqueue\<close> and \<open>Mqueue_Steps\<close>: the queue of ld_mqueue.c, with its
    reclamation as one thread runs it, and under every interleaving of its atomic steps. \<open>Aqueue\<close> and
    \<open>Aqueue_Steps\<close>: the bounded queue of ld_aqueue.c, in the same two views.

  \<^bold>\<open>How state and operations correspond to the code.\<close>

  A struct is a record whose fields have the names of the struct with a short prefix; a function
  of the C file is a definition with its name. Pointers into arrays are indices, pointers to nodes
  are addresses of a store that is a field of the record. Conventions of all theories:
  \<^item> \<open>None\<close> in a result of option type means that the code leaves defined behaviour (an access
    out of bounds, a null pointer, a failed assertion) or does not return (a mutex that is already
    held); errors the code reports are values of the enumeration \<open>l_err\<close> (global/ldacs_def.h).
  \<^item> What comes from outside is an argument: the results of malloc, of read and write, the time, the
    callbacks, and the effect of other threads where a function waits for them.
  \<^item> \<open>size_t\<close> is a natural number where it cannot wrap around, and a 64-bit word where it can;
    narrower integers are words.
  \<^item> Loops that walk data are structural recursions. Where the bound is not visible in the data, a
    function takes fuel, and a lemma shows that what its caller gives is enough: the number of
    bytes of a block for the chunks in it (\<open>Mempool\<close>), the number of states for entry chains
    (\<open>Statemachine\<close>), the number of nodes for walks along lists (\<open>Rbuffer\<close>, \<open>Mqueue\<close>), the number of
    buckets for probe sequences (\<open>Hashmap\<close>), the requested size for the rounds of the scheduler
    (\<open>Drr\<close>). The theorems that an operation returns are part of the properties.
  \<^item> Threads interleave as labelled steps (\<open>Event_System\<close>), one step per atomic access; memory is
    sequentially consistent.

  \<^bold>\<open>Interfaces.\<close>

  Contracts that several proofs share are locales, each interpreted on the definitions of the model:
  \<open>bounded_deque\<close> (the ring buffer), \<open>heap_shape\<close> (both heaps), \<open>prio_queue\<close> and \<open>pri_order\<close> (the
  priority queue), \<open>keyed_store\<close> (the hash map), \<open>fifo_queue\<close> (both queues), and \<open>event_system\<close>,
  \<open>refining_system\<close> and \<open>simulating_system\<close> (state machine, queues, memory pool, timers).

  \<^bold>\<open>What the lemmas show.\<close>

  Every theory first shows that its operations keep an invariant and what they do to the abstract
  value behind the state, a list, a multiset, a map or a layout, and ends with its properties.
  The main ones: the scheduler grants exactly what it takes from the resource, never more than
  requested, and leaves no usable rest; the hash map, the ring buffer, the priority queue, the memory
  pool and the queues implement their contracts, the queues under every interleaving; the codec
  gives back what was packed, for every descriptor; framed packets arrive once, in order, whatever
  the chunks in which the bytes arrive; the state machine handles every event; pruning
  closes exactly the idle connections; the table-driven checksums divide by their polynomials. Other
  properties pin down where the code does not do what it means to: guards that wrap
  around, waits that never end, positions that are not checked.

  \<^bold>\<open>What is not modelled, and why.\<close>

  \<^item> Glue over libraries: ld_json.c (cJSON), ld_config.c (libyaml), ld_base64.c, ld_dashboard.c and
    ld_epoll.c, ld_newtimer.c and ld_globaltimer.c (libevent, epoll and timer descriptors), ld_thread.c,
    pipe.c, ld_file.c and ld_log.c consist of calls to libraries and the system and of their return codes.
  \<^item> ld_sqlite.c assembles the text of SQL statements and runs them with SQLite.
  \<^item> The endless loops of the threads are modelled by one round of their bodies.
  \<^item> Weak memory: the acquire and release orders of the queues are taken as sequential consistency.
  \<^item> The reclamation of the lock-free queue under interleavings: it rests on the clock and is not safe in
    general, so that no theorem about it would hold without assumptions on the scheduler.
  \<^item> Functions that only release memory, logging, and the tests and build files.
\<close>

end
